(* ===== verification/Prelude.thy ===== *)
theory Prelude
  imports "HOL-Library.Word"
begin

unbundle bit_operations_syntax

text \<open>
  Shared vocabulary of the RynorOS development: fixed-width integer types and
  the byte-addressed memory of the C code, \<open>for\<close> loops, arithmetic facts about
  words that do not wrap, ring-buffer indexing, and the contract
  \<open>fifo_stream\<close> that every byte or sample queue of the kernel satisfies.
\<close>

section \<open>Machine integers and memory\<close>

type_synonym u8 = "8 word"
type_synonym u16 = "16 word"
type_synonym u32 = "32 word"
type_synonym u64 = "64 word"

text \<open>Flat byte-addressed memory; a pointer is its address and \<open>NULL\<close> is 0.\<close>

type_synonym mem = "u64 \<Rightarrow> u8"

named_theorems unat_simps
  \<open>word operations as operations on naturals, where they do not wrap\<close>

lemma unat_lt_u64 [simp]: "unat (x :: u64) < 18446744073709551616"
  using unsigned_less [of x, where 'a = nat] by simp

lemma unat_lt_u32 [simp]: "unat (x :: u32) < 4294967296"
  using unsigned_less [of x, where 'a = nat] by simp

lemma unat_lt_u8 [simp]: "unat (x :: u8) < 256"
  using unsigned_less [of x, where 'a = nat] by simp

lemma unat_max_u64 [simp]: "unat (- 1 :: u64) = 18446744073709551615"
  by (simp add: unsigned_minus_1_eq_mask mask_eq_exp_minus_1)

lemma unat_add_nowrap [unat_simps]:
  "unat a + unat b < 2 ^ LENGTH('a) \<Longrightarrow> unat (a + b :: 'a::len word) = unat a + unat b"
  by (simp add: unat_add_lem)

lemma unat_mult_nowrap [unat_simps]:
  "unat a * unat b < 2 ^ LENGTH('a) \<Longrightarrow> unat (a * b :: 'a::len word) = unat a * unat b"
  by (simp add: unat_mult_lem)

lemma unat_diff_nowrap [unat_simps]:
  "unat b \<le> unat a \<Longrightarrow> unat (a - b :: 'a::len word) = unat a - unat b"
  by (simp add: unat_sub word_le_nat_alt)

lemma unat_of_nat_small [unat_simps]:
  "n < 2 ^ LENGTH('a) \<Longrightarrow> unat (of_nat n :: 'a::len word) = n"
  by (simp add: unat_of_nat)

lemma word_of_nat_unat [simp]: "of_nat (unat w) = (w :: 'a::len word)"
  by simp

lemma unat_add_within:
  fixes c e x :: "'a::len word"
  assumes "unat c \<le> unat e" and "unat x \<le> unat e - unat c"
  shows "unat (c + x) = unat c + unat x"
proof (rule unat_add_nowrap)
  show "unat c + unat x < 2 ^ LENGTH('a)"
    using assms unsigned_less [of e, where 'a = nat] by linarith
qed

lemmas word_order_unat = word_less_nat_alt word_le_nat_alt word_unat_eq_iff

lemma word_neq_0_unat: "(w :: 'a::len word) \<noteq> 0 \<longleftrightarrow> 0 < unat w"
  by (simp add: unat_gt_0)

lemma of_nat_inj_word:
  "i < 2 ^ LENGTH('a) \<Longrightarrow> j < 2 ^ LENGTH('a) \<Longrightarrow>
    (of_nat i :: 'a::len word) = of_nat j \<longleftrightarrow> i = j"
  by (metis unat_of_nat_small)

text \<open>Where 64-bit arithmetic is written over naturals, \<open>w64\<close> marks the results that may wrap.\<close>

definition w64 :: "nat \<Rightarrow> nat" where
  "w64 x = x mod 2 ^ 64"

section \<open>Powers of two and alignment masks\<close>

text \<open>
  The test \<^verbatim>\<open>x && !(x & (x - 1))\<close> and the rounding \<^verbatim>\<open>x & ~(2^n - 1)\<close>.
\<close>

lemma nat_pow2_and:
  assumes "0 < n" "n AND (n - 1) = (0::nat)"
  shows "\<exists>k. n = 2 ^ k"
proof -
  obtain k where k: "2 ^ k \<le> n" "n < 2 ^ Suc k"
    using ex_power_ivl1 [of 2 n] assms(1) by auto
  show ?thesis
  proof (rule ccontr)
    assume "\<not> ?thesis"
    with k have "2 ^ k < n" by (metis le_neq_implies_less)
    with k have "n div 2 ^ k = 1" "(n - 1) div 2 ^ k = 1"
      by (auto intro!: div_nat_eqI)
    then have "bit n k" "bit (n - 1) k" by (simp_all add: bit_iff_odd)
    then have "bit (n AND (n - 1)) k" unfolding bit_and_iff by simp
    with assms(2) show False by simp
  qed
qed

lemma word_pow2:
  assumes "x \<noteq> 0" "x AND (x - 1) = (0::'a::len word)"
  obtains k where "k < LENGTH('a)" "unat x = 2 ^ k"
proof -
  have p: "0 < unat x" using assms(1) by (simp add: unat_gt_0)
  have "unat (x AND (x - 1)) = 0" using assms(2) by simp
  moreover have "unat (x - 1) = unat x - 1"
    using p by (cases "LENGTH('a) = 0") (auto simp: unat_diff_nowrap)
  ultimately have "unat x AND (unat x - 1) = 0" by (simp add: unsigned_and_eq)
  from nat_pow2_and [OF p this] obtain k where k: "unat x = 2 ^ k" by blast
  have "(2::nat) ^ k < 2 ^ LENGTH('a)" using k unsigned_less [of x, where 'a = nat] by simp
  then have "k < LENGTH('a)" by simp
  with k that show thesis by blast
qed

lemma unat_and_not_mask:
  "unat (x AND NOT (mask n) :: 'a::len word) = unat x div 2 ^ n * 2 ^ n"
proof -
  have "x AND NOT (mask n) = push_bit n (drop_bit n x)"
    by (rule bit_word_eqI) (auto simp: bit_simps not_less)
  then have "unat (x AND NOT (mask n)) = take_bit LENGTH('a) (push_bit n (drop_bit n (unat x)))"
    by (simp only: unsigned_push_bit_eq unsigned_drop_bit_eq)
      (simp add: take_bit_nat_eq_self)
  also have "\<dots> = push_bit n (drop_bit n (unat x))"
    using unsigned_less [of x, where 'a = nat]
    by (intro take_bit_nat_eq_self)
      (simp add: push_bit_eq_mult drop_bit_eq_div le_less_trans [OF div_times_less_eq_dividend])
  finally show ?thesis by (simp add: push_bit_eq_mult drop_bit_eq_div)
qed

section \<open>Counted loops\<close>

text \<open>
  \<open>for_loop n body s\<close> is \<^verbatim>\<open>for (i = 0; i < n; ++i) body(i)\<close>: iteration \<open>i\<close> runs
  on the state the iterations below \<open>i\<close> left.
\<close>

primrec for_loop :: "nat \<Rightarrow> (nat \<Rightarrow> 's \<Rightarrow> 's) \<Rightarrow> 's \<Rightarrow> 's" where
  "for_loop 0 body s = s"
| "for_loop (Suc n) body s = body n (for_loop n body s)"

lemma for_loop_invariant:
  assumes "P 0 s" and "\<And>i t. i < n \<Longrightarrow> P i t \<Longrightarrow> P (Suc i) (body i t)"
  shows "P n (for_loop n body s)"
  using assms by (induction n) auto

lemma for_loop_cong:
  "(\<And>i t. i < n \<Longrightarrow> f i t = g i t) \<Longrightarrow> for_loop n f s = for_loop n g s"
  by (induction n) auto

section \<open>Memory blocks\<close>

text \<open>The bytes \<^verbatim>\<open>p[0..n)\<close>, and the store loop \<^verbatim>\<open>for i: p[i] = f(i)\<close>.\<close>

definition bytes_at :: "mem \<Rightarrow> u64 \<Rightarrow> nat \<Rightarrow> u8 list" where
  "bytes_at m p n = map (\<lambda>i. m (p + of_nat i)) [0..<n]"

lemma length_bytes_at [simp]: "length (bytes_at m p n) = n"
  by (simp add: bytes_at_def)

lemma nth_bytes_at [simp]: "i < n \<Longrightarrow> bytes_at m p n ! i = m (p + of_nat i)"
  by (simp add: bytes_at_def)

lemma bytes_at_cong:
  "(\<And>i. i < n \<Longrightarrow> m (p + of_nat i) = m' (q + of_nat i)) \<Longrightarrow> bytes_at m p n = bytes_at m' q n"
  by (simp add: bytes_at_def)

text \<open>
  A copy loop \<^verbatim>\<open>for i: *d(i) = *s(i)\<close> whose targets are distinct and never read: every
  target ends with the byte its source had at the start, all else is kept.
\<close>

lemma copy_loop_frame:
  "a \<notin> d ` {..<n} \<Longrightarrow> for_loop n (\<lambda>i t. t(d i := t (s i))) m a = m a"
  by (induction n) (auto simp: lessThan_Suc)

lemma copy_loop_target:
  assumes "inj_on d {..<n}" and "\<And>i j. i < n \<Longrightarrow> j < n \<Longrightarrow> s i \<noteq> d j" and "i < n"
  shows "for_loop n (\<lambda>i t. t(d i := t (s i))) m (d i) = m (s i)"
  using assms
proof (induction n)
  case 0
  then show ?case by simp
next
  case (Suc n)
  let ?r = "for_loop n (\<lambda>i t. t(d i := t (s i))) m"
  show ?case
  proof (cases "i = n")
    case True
    have "s n \<notin> d ` {..<n}" using Suc.prems(2) by auto
    then have "?r (s n) = m (s n)" by (rule copy_loop_frame)
    with True show ?thesis by (simp only: for_loop.simps fun_upd_same)
  next
    case False
    with Suc.prems(3) have i: "i < n" by simp
    have ne: "d i \<noteq> d n" using Suc.prems(1) i by (auto simp: inj_on_def)
    have "?r (d i) = m (s i)"
      using Suc.prems(1,2) i
      by (intro Suc.IH) (auto simp: inj_on_def)
    then show ?thesis unfolding for_loop.simps fun_upd_other [OF ne] .
  qed
qed

text \<open>Little-endian loads and stores of a \<^verbatim>\<open>cpu_u64\<close>.\<close>

definition read64 :: "mem \<Rightarrow> u64 \<Rightarrow> u64" where
  "read64 m a = for_loop 8 (\<lambda>i v. v OR push_bit (8 * i) (ucast (m (a + of_nat i)))) 0"

definition write64 :: "mem \<Rightarrow> u64 \<Rightarrow> u64 \<Rightarrow> mem" where
  "write64 m a v = (\<lambda>x. if x - a < 8 then ucast (drop_bit (8 * unat (x - a)) v) else m x)"

lemma bit_read64_aux:
  fixes m :: mem
  shows "k \<le> 8 \<Longrightarrow> bit (for_loop k (\<lambda>i v. v OR push_bit (8 * i) (ucast (m (a + of_nat i)) :: u64)) 0) n \<longleftrightarrow>
    n < 8 * k \<and> bit (m (a + of_nat (n div 8))) (n mod 8)"
proof (induction k)
  case (Suc k)
  show ?case
  proof (cases "8 * k \<le> n \<and> n < 8 * Suc k")
    case True
    then have "n div 8 = k" by (intro div_nat_eqI) simp_all
    then have "n div 8 = k" "n mod 8 = n - 8 * k" by (auto simp: minus_div_mult_eq_mod [symmetric])
    with True Suc show ?thesis by (auto simp: bit_simps)
  next
    case False
    then have "\<not> bit (push_bit (8 * k) (ucast (m (a + of_nat k))) :: u64) n"
      using bit_imp_le_length [of "m (a + of_nat k)" "n - 8 * k"] by (auto simp: bit_simps)
    with False Suc show ?thesis by (auto simp: bit_or_iff)
  qed
qed simp

lemma bit_read64: "bit (read64 m a) n \<longleftrightarrow> n < 64 \<and> bit (m (a + of_nat (n div 8))) (n mod 8)"
  unfolding read64_def by (subst bit_read64_aux) auto

lemma read64_cong:
  "(\<And>i. i < 8 \<Longrightarrow> m (a + of_nat i) = m' (b + of_nat i)) \<Longrightarrow> read64 m a = read64 m' b"
  by (rule bit_word_eqI) (simp add: bit_read64)

lemma unat_of_nat_lt8: "i < 8 \<Longrightarrow> unat (of_nat i :: u64) = i"
  by (simp add: unat_simps)

lemma read64_write64 [simp]: "read64 (write64 m a v) a = v"
proof (rule bit_word_eqI)
  fix n assume n: "n < LENGTH(64)"
  then have "n div 8 < 8" by simp
  then have "unat (of_nat (n div 8) :: u64) = n div 8" by (rule unat_of_nat_lt8)
  moreover from this n have "(of_nat (n div 8) :: u64) < 8" by (simp add: word_less_nat_alt)
  ultimately show "bit (read64 (write64 m a v) a) n = bit v n"
    using n by (simp add: bit_read64 write64_def bit_simps)
qed

lemma read64_write64_other:
  assumes "8 \<le> a - b" and "8 \<le> b - a"
  shows "read64 (write64 m a v) b = read64 m b"
proof (rule read64_cong)
  fix i :: nat assume i: "i < 8"
  have "\<not> b + of_nat i - a < 8"
  proof
    assume *: "b + of_nat i - a < 8"
    define j where "j = b + of_nat i - a"
    have eq: "a - b = of_nat i - j" "b - a = j - of_nat i" by (simp_all add: j_def)
    have "unat (of_nat i - j) < 8 \<or> unat (j - of_nat i) < 8"
      using * i unat_of_nat_lt8 [OF i] unfolding j_def [symmetric]
      by (cases "unat j \<le> unat (of_nat i :: u64)")
         (auto simp: unat_diff_nowrap word_less_nat_alt not_le)
    then show False using assms unfolding eq by (auto simp: word_le_nat_alt not_le)
  qed
  then show "write64 m a v (b + of_nat i) = m (b + of_nat i)" by (simp add: write64_def)
qed

text \<open>The same for addresses given as numbers.\<close>

lemma unat_of_nat_diff:
  assumes "a < b" and "b < 2 ^ 64"
  shows "unat (of_nat b - of_nat a :: u64) = b - a"
    and "unat (of_nat a - of_nat b :: u64) = 2 ^ 64 - (b - a)"
proof -
  have ba: "of_nat b - of_nat a = (of_nat (b - a) :: u64)" using assms by (simp add: of_nat_diff)
  have u: "unat (of_nat (b - a) :: u64) = b - a" using assms by (simp add: unat_simps)
  show "unat (of_nat b - of_nat a :: u64) = b - a" using ba u by simp
  let ?x = "of_nat b - of_nat a :: u64"
  have "unat (?x + - ?x) = (unat ?x + unat (- ?x)) mod 2 ^ LENGTH(64)" by (rule unat_word_ariths)
  then have "(b - a + unat (- ?x)) mod 2 ^ 64 = 0" using ba u by simp
  then obtain q where q: "b - a + unat (- ?x) = 2 ^ 64 * q" by auto
  have "unat (- ?x) < 2 ^ 64" using unat_lt_u64 [of "- ?x"] by (simp del: unat_lt_u64)
  with q assms(2) have "2 ^ 64 * q < 2 ^ 64 * 2" by linarith
  moreover have "q \<noteq> 0" using q assms(1) by auto
  ultimately have "q = 1" by simp
  with q show "unat (of_nat a - of_nat b :: u64) = 2 ^ 64 - (b - a)" by simp
qed

lemma read64_write64_nat:
  assumes "a + 8 \<le> b \<or> b + 8 \<le> a" and "a + 8 \<le> 2 ^ 64" and "b + 8 \<le> 2 ^ 64"
  shows "read64 (write64 m (of_nat a) v) (of_nat b) = read64 m (of_nat b)"
proof (rule read64_write64_other)
  show "8 \<le> (of_nat a - of_nat b :: u64)" "8 \<le> (of_nat b - of_nat a :: u64)"
    using assms unat_of_nat_diff [of a b] unat_of_nat_diff [of b a]
    by (auto simp: word_le_nat_alt)
qed

lemma write64_frame:
  assumes "x + 1 \<le> a \<or> a + 8 \<le> x" and "a + 8 \<le> 2 ^ 64" and "x < 2 ^ 64"
  shows "write64 m (of_nat a) v (of_nat x) = m (of_nat x)"
  using assms unat_of_nat_diff [of a x] unat_of_nat_diff [of x a]
  by (auto simp: write64_def word_less_nat_alt)

section \<open>Ring buffers\<close>

text \<open>
  A ring of \<open>c\<close> slots read through \<open>f\<close>, with read index \<open>h\<close> and \<open>n\<close> occupied slots,
  holds \<open>ring_list f h c n\<close>, oldest element first.
\<close>

definition ring_list :: "(nat \<Rightarrow> 'a) \<Rightarrow> nat \<Rightarrow> nat \<Rightarrow> nat \<Rightarrow> 'a list" where
  "ring_list f h c n = map (\<lambda>i. f ((h + i) mod c)) [0..<n]"

lemma length_ring_list [simp]: "length (ring_list f h c n) = n"
  by (simp add: ring_list_def)

lemma nth_ring_list [simp]: "i < n \<Longrightarrow> ring_list f h c n ! i = f ((h + i) mod c)"
  by (simp add: ring_list_def)

lemma ring_slot_inj_le:
  assumes "i \<le> j" and "j < c" and "(h + i) mod c = (h + j) mod (c :: nat)"
  shows "i = j"
proof -
  have "c dvd (h + j) - (h + i)"
    using assms(1,3) by (metis add_le_mono1 add.commute mod_eq_dvd_iff_nat)
  then have "c dvd j - i" by simp
  then show ?thesis using assms(1,2) by (metis diff_is_0_eq dvd_imp_le le_antisym
        less_imp_diff_less linorder_not_less zero_less_diff)
qed

lemma ring_slot_inj:
  "i < c \<Longrightarrow> j < c \<Longrightarrow> (h + i) mod c = (h + j) mod (c :: nat) \<Longrightarrow> i = j"
  by (metis nat_le_linear ring_slot_inj_le)

lemma ring_list_append:
  assumes "\<And>i. i < n \<Longrightarrow> g ((h + i) mod c) = f ((h + i) mod c)"
    and "\<And>i. i < length xs \<Longrightarrow> g ((h + n + i) mod c) = xs ! i"
  shows "ring_list g h c (n + length xs) = ring_list f h c n @ xs"
proof (rule nth_equalityI)
  fix i assume i: "i < length (ring_list g h c (n + length xs))"
  show "ring_list g h c (n + length xs) ! i = (ring_list f h c n @ xs) ! i"
  proof (cases "i < n")
    case True
    with i assms(1) show ?thesis by (simp add: nth_append)
  next
    case False
    with i assms(2) [of "i - n"] show ?thesis by (simp add: nth_append)
  qed
qed simp

lemma ring_list_drop:
  "k \<le> n \<Longrightarrow> ring_list f ((h + k) mod c) c (n - k) = drop k (ring_list f h c n)"
  by (intro nth_equalityI) (auto simp: add.assoc mod_add_left_eq)

lemma ring_list_cong:
  "(\<And>i. i < n \<Longrightarrow> f ((h + i) mod c) = g ((h + i) mod c)) \<Longrightarrow> ring_list f h c n = ring_list g h c n"
  by (simp add: ring_list_def)

text \<open>
  The producer's loop: \<open>n\<close> bytes copied from \<open>src\<close> to the slots after the occupied ones, for a ring
  stored at address \<open>d\<close>. The queue grows by exactly those bytes and nothing outside the ring's
  storage changes.
\<close>

lemma ring_write:
  fixes d src :: u64 and m :: mem and h k c n :: nat
  defines "r \<equiv> for_loop n (\<lambda>i t. t(d + of_nat ((h + k + i) mod c) := t (src + of_nat i))) m"
  assumes c: "0 < c" "c < 2 ^ 64" and n: "k + n \<le> c"
    and sep: "\<forall>i < n. \<forall>j < c. src + of_nat i \<noteq> d + of_nat j"
  shows "ring_list (\<lambda>j. r (d + of_nat j)) h c (k + n) =
      ring_list (\<lambda>j. m (d + of_nat j)) h c k @ bytes_at m src n"
    and "a \<notin> (\<lambda>j. d + of_nat j) ` {..<c} \<Longrightarrow> r a = m a"
proof -
  let ?d = "\<lambda>i. d + of_nat ((h + k + i) mod c)"
  have addr: "d + of_nat i = d + of_nat j \<longleftrightarrow> i = j" if "i < c" "j < c" for i j
    using that c by (simp add: of_nat_inj_word)
  have slot: "(h + i) mod c = (h + j) mod c \<longleftrightarrow> i = j" if "i < c" "j < c" for i j
    using ring_slot_inj [of i c j h] that by auto
  have inj: "inj_on ?d {..<n}"
    using n c addr slot by (auto intro!: inj_onI simp: add.assoc)
  have new: "r (?d i) = m (src + of_nat i)" if "i < n" for i
    unfolding r_def using that sep c(1) by (intro copy_loop_target [OF inj]) auto
  have frame: "r a = m a" if "a \<notin> ?d ` {..<n}" for a
    unfolding r_def using that by (rule copy_loop_frame)
  have old: "r (d + of_nat ((h + i) mod c)) = m (d + of_nat ((h + i) mod c))" if "i < k" for i
  proof (rule frame, rule notI)
    assume "d + of_nat ((h + i) mod c) \<in> ?d ` {..<n}"
    then obtain j where j: "j < n" "d + of_nat ((h + i) mod c) = ?d j" by blast
    then have "(h + i) mod c = (h + (k + j)) mod c" using addr c(1) by (simp add: add.assoc)
    with that j n show False using slot [of i "k + j"] by simp
  qed
  have "ring_list (\<lambda>j. r (d + of_nat j)) h c (k + length (bytes_at m src n)) =
      ring_list (\<lambda>j. m (d + of_nat j)) h c k @ bytes_at m src n"
    using old new by (intro ring_list_append) auto
  then show "ring_list (\<lambda>j. r (d + of_nat j)) h c (k + n) =
      ring_list (\<lambda>j. m (d + of_nat j)) h c k @ bytes_at m src n" by simp
  show "r a = m a" if "a \<notin> (\<lambda>j. d + of_nat j) ` {..<c}" for a
    using that c(1) by (intro frame) auto
qed

text \<open>The consumer's loop: the oldest \<open>n\<close> bytes copied to \<open>dst\<close>.\<close>

lemma ring_read:
  fixes d dst :: u64 and m :: mem and h c n :: nat
  defines "r \<equiv> for_loop n (\<lambda>i t. t(dst + of_nat i := t (d + of_nat ((h + i) mod c)))) m"
  assumes c: "0 < c" "c < 2 ^ 64" and n: "n \<le> k" "n \<le> c"
    and sep: "\<forall>i < n. \<forall>j < c. dst + of_nat i \<noteq> d + of_nat j"
  shows "bytes_at r dst n = take n (ring_list (\<lambda>j. m (d + of_nat j)) h c k)"
    and "a \<notin> (\<lambda>i. dst + of_nat i) ` {..<n} \<Longrightarrow> r a = m a"
    and "j < c \<Longrightarrow> r (d + of_nat j) = m (d + of_nat j)"
proof -
  have inj: "inj_on (\<lambda>i. dst + of_nat i) {..<n}"
    using n c by (auto intro!: inj_onI simp: of_nat_inj_word)
  have src: "d + of_nat ((h + i) mod c) \<noteq> dst + of_nat j" if "j < n" for i j
    using sep that c(1) by (metis mod_less_divisor)
  have "r (dst + of_nat i) = m (d + of_nat ((h + i) mod c))" if "i < n" for i
    unfolding r_def using that src by (intro copy_loop_target [OF inj]) auto
  then show "bytes_at r dst n = take n (ring_list (\<lambda>j. m (d + of_nat j)) h c k)"
    using n by (intro nth_equalityI) auto
  show frame: "r a = m a" if "a \<notin> (\<lambda>i. dst + of_nat i) ` {..<n}" for a
    unfolding r_def using that by (rule copy_loop_frame)
  show "r (d + of_nat j) = m (d + of_nat j)" if "j < c"
  proof (rule frame, rule notI)
    assume "d + of_nat j \<in> (\<lambda>i. dst + of_nat i) ` {..<n}"
    then obtain i where "i < n" "d + of_nat j = dst + of_nat i" by blast
    with sep that show False by metis
  qed
qed

section \<open>Execution context\<close>

text \<open>
  What \<^verbatim>\<open>cpu_interrupts_disabled()\<close> and \<^verbatim>\<open>irq_in_context()\<close> report. Most kernel
  services require the foreground: interrupts off and no handler running.
\<close>

record cpu_ctx =
  if_disabled :: bool
  in_irq :: bool

text \<open>A call that may end in the component's \<^verbatim>\<open>panic\<close>, which halts the machine.\<close>

datatype 'a outcome = Returns 'a | Panics string

definition foreground :: "cpu_ctx \<Rightarrow> bool" where
  "foreground c \<longleftrightarrow> if_disabled c \<and> \<not> in_irq c"

section \<open>Queues as streams\<close>

text \<open>
  Running a list of operations, and the concatenation of what each of them
  reports in the state it runs in.
\<close>

primrec run_ops :: "('s \<Rightarrow> 'o \<Rightarrow> 's) \<Rightarrow> 's \<Rightarrow> 'o list \<Rightarrow> 's" where
  "run_ops step s [] = s"
| "run_ops step s (e # es) = run_ops step (step s e) es"

primrec collect :: "('s \<Rightarrow> 'o \<Rightarrow> 's) \<Rightarrow> ('s \<Rightarrow> 'o \<Rightarrow> 'a list) \<Rightarrow> 's \<Rightarrow> 'o list \<Rightarrow> 'a list" where
  "collect step out s [] = []"
| "collect step out s (e # es) = out s e @ collect step out (step s e) es"

text \<open>
  The contract of a queue: every operation keeps the invariant, and what was
  queued followed by what the operation accepts is what the operation removes
  followed by what is queued afterwards. Nothing is lost, duplicated or
  reordered by one operation; the lemmas carry that to any sequence of them.
\<close>

locale fifo_stream =
  fixes inv :: "'s \<Rightarrow> bool"
    and items :: "'s \<Rightarrow> 'a list"
    and step :: "'s \<Rightarrow> 'o \<Rightarrow> 's"
    and accepted :: "'s \<Rightarrow> 'o \<Rightarrow> 'a list"
    and removed :: "'s \<Rightarrow> 'o \<Rightarrow> 'a list"
  assumes step_inv: "inv s \<Longrightarrow> inv (step s e)"
    and step_conserves: "inv s \<Longrightarrow> items s @ accepted s e = removed s e @ items (step s e)"
begin

lemma run_inv: "inv s \<Longrightarrow> inv (run_ops step s es)"
  by (induction es arbitrary: s) (auto simp: step_inv)

lemma run_conserves:
  "inv s \<Longrightarrow>
    items s @ collect step accepted s es = collect step removed s es @ items (run_ops step s es)"
proof (induction es arbitrary: s)
  case Nil
  then show ?case by simp
next
  case (Cons e es)
  from Cons.prems have one: "items s @ accepted s e = removed s e @ items (step s e)"
    by (rule step_conserves)
  from Cons.prems step_inv have "inv (step s e)" by blast
  then have rest: "items (step s e) @ collect step accepted (step s e) es =
      collect step removed (step s e) es @ items (run_ops step (step s e) es)"
    by (rule Cons.IH)
  have "items s @ accepted s e @ collect step accepted (step s e) es =
      (items s @ accepted s e) @ collect step accepted (step s e) es" by simp
  also have "\<dots> = removed s e @ items (step s e) @ collect step accepted (step s e) es"
    unfolding one by simp
  finally show ?case unfolding rest by simp
qed

lemma run_prefix:
  assumes "inv s" and "items s = []"
  shows "\<exists>rest. collect step accepted s es = collect step removed s es @ rest"
  using run_conserves [OF assms(1), of es] assms(2) by auto

lemma run_length:
  assumes "inv s" and "items s = []"
  shows "length (items (run_ops step s es)) =
    length (collect step accepted s es) - length (collect step removed s es)"
  using arg_cong [OF run_conserves [OF assms(1), of es], of length] assms(2) by simp

end

section \<open>Signed 64-bit words\<close>

text \<open>The sign bit, the two's complement value, negation and the bias flip.\<close>

lemma signbit_bit: "(a :: u64) AND 0x8000000000000000 \<noteq> 0 \<longleftrightarrow> bit a 63"
proof -
  have "(0x8000000000000000 :: u64) = push_bit 63 1" by (simp add: push_bit_eq_mult)
  then show ?thesis by (simp only: bit_iff_and_push_bit_not_eq_0)
qed

lemma bit63_unat: "bit (a :: u64) 63 \<longleftrightarrow> 2 ^ 63 \<le> unat a"
proof -
  have "bit a 63 = bit (unat a) 63" by (simp add: bit_unsigned_iff)
  also have "\<dots> = odd (unat a div 2 ^ 63)" by (rule bit_iff_odd)
  also have "unat a div 2 ^ 63 = (if 2 ^ 63 \<le> unat a then 1 else 0)"
  proof (cases "2 ^ 63 \<le> unat a")
    case True
    have "unat a < 2 * 2 ^ 63" using unat_lt_u64 [of a] by (simp del: unat_lt_u64)
    with True have "unat a div 2 ^ 63 = 1" by (intro div_nat_eqI) simp_all
    with True show ?thesis by simp
  qed simp
  finally show ?thesis by simp
qed

lemma signbit_unat: "(a :: u64) AND 0x8000000000000000 \<noteq> 0 \<longleftrightarrow> 2 ^ 63 \<le> unat a"
  by (simp only: signbit_bit bit63_unat)

lemma sint_u64: "sint (a :: u64) = (if 2 ^ 63 \<le> unat a then int (unat a) - 2 ^ 64 else int (unat a))"
proof -
  have "sint a = signed_take_bit 63 (uint a)" by (simp add: sint_uint)
  also have "\<dots> = take_bit 64 (uint a) - 2 ^ 64 * of_bool (bit (uint a) 63)"
    by (simp add: signed_take_bit_eq_take_bit_minus)
  also have "take_bit 64 (uint a) = uint a"
    using uint_lt2p [of a] by (simp add: take_bit_int_eq_self)
  also have "bit (uint a) 63 = bit a 63" by (simp add: bit_unsigned_iff)
  finally show ?thesis by (simp add: bit63_unat)
qed

lemma unat_neg_u64: "unat (0 - a :: u64) = (if a = 0 then 0 else 2 ^ 64 - unat a)"
proof (cases "a = 0")
  case False
  have "unat (0 - a) = nat (uint (0 - a))" by simp
  also have "uint (0 - a) = (- uint a) mod 2 ^ 64"
    by (simp add: uint_word_ariths)
  also have "\<dots> = 2 ^ 64 - uint a"
    using False uint_lt2p [of a] by (subst zmod_zminus1_eq_if) (simp add: uint_0_iff)
  also have "uint a = int (unat a)" by simp
  finally show ?thesis using False by (simp add: nat_diff_distrib')
qed simp

lemma xor_signbit: "unat (a XOR 0x8000000000000000 :: u64) =
    (if 2 ^ 63 \<le> unat a then unat a - 2 ^ 63 else unat a + 2 ^ 63)"
proof -
  define m :: u64 where "m = push_bit 63 1"
  have m: "0x8000000000000000 = m" "unat m = 2 ^ 63" by (simp_all add: m_def push_bit_eq_mult)
  have bm: "bit m n = (n = 63)" for n unfolding m_def by (subst bit_push_bit_iff) (auto simp: bit_1_iff)
  have clear: "unat (b XOR m) = unat b + 2 ^ 63" if "unat b < 2 ^ 63" for b :: u64
  proof -
    have nb: "\<not> bit b 63" using that by (simp add: bit63_unat)
    then have dis: "\<not> bit b n \<or> \<not> bit m n" for n by (auto simp: bm)
    have "b XOR m = b OR m" using dis by (auto intro!: bit_word_eqI simp: bit_simps)
    also have "\<dots> = b + m" using disjunctive_add [OF dis] by simp
    finally show ?thesis using that m(2) by (simp add: unat_add_nowrap)
  qed
  show ?thesis
  proof (cases "2 ^ 63 \<le> unat a")
    case True
    then have "bit a 63" by (simp add: bit63_unat)
    then have "\<not> bit (a XOR m) 63" by (simp add: bit_xor_iff bm)
    then have "unat (a XOR m) < 2 ^ 63" by (simp add: bit63_unat)
    from clear [OF this] True show ?thesis by (simp add: xor.assoc m)
  next
    case False
    then show ?thesis using clear [of a] by (simp add: m)
  qed
qed


lemma signbit_sint: "(a :: u64) AND 0x8000000000000000 \<noteq> 0 \<longleftrightarrow> sint a < 0"
proof (cases "2 ^ 63 \<le> unat a")
  case True
  moreover have "int u - 2 ^ 64 < 0" if "u < 2 ^ 64" for u using that by simp
  moreover have "unat a < 2 ^ 64" by simp
  ultimately show ?thesis by (simp only: signbit_unat sint_u64 if_True)
next
  case False
  then show ?thesis by (simp only: signbit_unat sint_u64 if_False) simp
qed

lemma unat_abs_u64:
  "unat (if a AND 0x8000000000000000 \<noteq> 0 then 0 - a else a :: u64) = nat \<bar>sint a\<bar>"
proof (cases "2 ^ 63 \<le> unat a")
  case True
  then have "a \<noteq> 0" by (auto simp: word_neq_0_unat)
  then have "unat (if a AND 0x8000000000000000 \<noteq> 0 then 0 - a else a) = 2 ^ 64 - unat a"
    using True unfolding signbit_unat by (simp only: if_True if_False unat_neg_u64)
  moreover have "sint a = int (unat a) - 2 ^ 64" using True by (simp only: sint_u64 if_True)
  moreover have "nat \<bar>int u - 2 ^ 64\<bar> = 2 ^ 64 - u" if "u < 2 ^ 64" for u
    using that by simp
  moreover have "unat a < 2 ^ 64" by simp
  ultimately show ?thesis by (simp only:)
next
  case False
  then show ?thesis by (simp only: signbit_unat sint_u64 if_False abs_of_nat nat_int)
qed

end
