(* ===== verification/Kbuf.thy ===== *)
theory Kbuf
  imports Prelude
begin

text \<open>
  The bounded byte ring of \<^verbatim>\<open>kernel/runtime/kbuf.c\<close> with the region arithmetic of
  \<^verbatim>\<open>kernel/runtime/region.h\<close>. The buffer's metadata is the record \<open>kbuffer\<close>, kept
  beside its own address \<open>bp\<close> (which the code compares with the storage and the
  caller's regions); the storage and the caller's bytes live in \<open>mem\<close>. Every
  operation returns its result code with the new metadata and memory. The
  operations refine a list of bytes, and together they satisfy \<open>fifo_stream\<close>.
\<close>

section \<open>Regions\<close>

definition rt_region :: "u64 \<Rightarrow> u64 \<Rightarrow> bool" where
  "rt_region p n \<longleftrightarrow> (n = 0 \<or> p \<noteq> 0) \<and> n \<le> NOT 0 - p"

definition rt_overlap :: "u64 \<Rightarrow> u64 \<Rightarrow> u64 \<Rightarrow> u64 \<Rightarrow> bool" where
  "rt_overlap a an b bn \<longleftrightarrow>
     (if an = 0 \<or> bn = 0 then False
      else if a \<le> b then b - a < an else a - b < bn)"

lemma rt_region_iff:
  "rt_region p n \<longleftrightarrow> (n = 0 \<or> p \<noteq> 0) \<and> unat p + unat n < 18446744073709551616"
proof -
  have "unat (NOT 0 - p) = 18446744073709551615 - unat p"
    by (simp add: unat_sub)
  then show ?thesis
    using unat_lt_u64 [of p] unat_lt_u64 [of n]
    by (auto simp: rt_region_def word_le_nat_alt simp del: unat_lt_u64)
qed

lemma rt_overlap_iff:
  assumes "rt_region a an" and "rt_region b bn"
  shows "rt_overlap a an b bn \<longleftrightarrow>
    an \<noteq> 0 \<and> bn \<noteq> 0 \<and> unat a < unat b + unat bn \<and> unat b < unat a + unat an"
  using assms
  by (auto simp: rt_overlap_def rt_region_iff word_less_nat_alt word_le_nat_alt
      unat_diff_nowrap unat_gt_0 [symmetric])

text \<open>Addresses of two regions that do not overlap are different.\<close>

lemma rt_disjoint_addr:
  assumes "rt_region a an" and "rt_region b bn" and "\<not> rt_overlap a an b bn"
    and "i < unat an" and "j < unat bn"
  shows "a + of_nat i \<noteq> b + of_nat j"
proof
  assume eq: "a + of_nat i = b + of_nat j"
  have "unat (a + of_nat i) = unat a + i" and "unat (b + of_nat j) = unat b + j"
    using assms(1,2,4,5) by (auto simp: rt_region_iff unat_simps)
  with eq have "unat a + i = unat b + j" by simp
  moreover have "an \<noteq> 0" "bn \<noteq> 0" using assms(4,5) by auto
  ultimately show False
    using assms by (auto simp: rt_overlap_iff)
qed

section \<open>The buffer and its operations\<close>

datatype kbuf_result = KBUF_OK | KBUF_INVALID | KBUF_FULL | KBUF_EMPTY

record kbuffer =
  kb_data :: u64
  kb_cap :: u64
  kb_head :: u64
  kb_count :: u64

definition KBUF_MAX_CAP :: u64 where
  "KBUF_MAX_CAP = push_bit 40 1"

text \<open>\<^verbatim>\<open>sizeof(struct kbuffer)\<close>: one pointer and three \<^verbatim>\<open>cpu_u64\<close>.\<close>

definition sizeof_kbuffer :: u64 where
  "sizeof_kbuffer = 32"

definition kbuf_valid :: "u64 \<Rightarrow> kbuffer \<Rightarrow> bool" where
  "kbuf_valid bp b \<longleftrightarrow>
     bp \<noteq> 0 \<and> kb_data b \<noteq> 0 \<and> kb_cap b \<noteq> 0 \<and> kb_cap b \<le> KBUF_MAX_CAP \<and>
     kb_head b < kb_cap b \<and> kb_count b \<le> kb_cap b \<and> rt_region (kb_data b) (kb_cap b) \<and>
     \<not> rt_overlap bp sizeof_kbuffer (kb_data b) (kb_cap b)"

definition kbuf_external :: "u64 \<Rightarrow> kbuffer \<Rightarrow> u64 \<Rightarrow> u64 \<Rightarrow> bool" where
  "kbuf_external bp b p n \<longleftrightarrow>
     rt_region p n \<and> \<not> rt_overlap p n bp sizeof_kbuffer \<and>
     \<not> rt_overlap p n (kb_data b) (kb_cap b)"

definition kbuf_init :: "u64 \<Rightarrow> kbuffer \<Rightarrow> u64 \<Rightarrow> u64 \<Rightarrow> kbuf_result \<times> kbuffer" where
  "kbuf_init bp b storage cap =
     (if bp = 0 \<or> storage = 0 \<or> cap = 0 \<or> KBUF_MAX_CAP < cap \<or> \<not> rt_region storage cap \<or>
         rt_overlap bp sizeof_kbuffer storage cap
      then (KBUF_INVALID, b)
      else (KBUF_OK, b\<lparr>kb_data := storage, kb_cap := cap, kb_head := 0, kb_count := 0\<rparr>))"

definition kbuf_clear :: "u64 \<Rightarrow> kbuffer \<Rightarrow> kbuf_result \<times> kbuffer" where
  "kbuf_clear bp b =
     (if \<not> kbuf_valid bp b then (KBUF_INVALID, b)
      else (KBUF_OK, b\<lparr>kb_head := 0, kb_count := 0\<rparr>))"

definition kbuf_capacity :: "u64 \<Rightarrow> kbuffer \<Rightarrow> u64" where
  "kbuf_capacity bp b = (if kbuf_valid bp b then kb_cap b else 0)"

definition kbuf_used :: "u64 \<Rightarrow> kbuffer \<Rightarrow> u64" where
  "kbuf_used bp b = (if kbuf_valid bp b then kb_count b else 0)"

definition kbuf_remaining :: "u64 \<Rightarrow> kbuffer \<Rightarrow> u64" where
  "kbuf_remaining bp b = (if \<not> kbuf_valid bp b then 0 else kb_cap b - kb_count b)"

definition kbuf_append ::
    "u64 \<Rightarrow> kbuffer \<Rightarrow> mem \<Rightarrow> u64 \<Rightarrow> u64 \<Rightarrow> kbuf_result \<times> kbuffer \<times> mem" where
  "kbuf_append bp b m src n =
     (if \<not> kbuf_valid bp b \<or> KBUF_MAX_CAP < n \<or> \<not> kbuf_external bp b src n
      then (KBUF_INVALID, b, m)
      else if kb_cap b < kb_count b then (KBUF_INVALID, b, m)
      else if kb_cap b - kb_count b < n then (KBUF_FULL, b, m)
      else
        let write = (kb_head b + kb_count b) mod kb_cap b;
            m' = for_loop (unat n)
                   (\<lambda>i t. t(kb_data b + (write + of_nat i) mod kb_cap b := t (src + of_nat i))) m
        in (KBUF_OK, b\<lparr>kb_count := kb_count b + n\<rparr>, m'))"

definition kbuf_append_byte ::
    "u64 \<Rightarrow> kbuffer \<Rightarrow> mem \<Rightarrow> u8 \<Rightarrow> kbuf_result \<times> kbuffer \<times> mem" where
  "kbuf_append_byte bp b m v =
     (if \<not> kbuf_valid bp b then (KBUF_INVALID, b, m)
      else if kb_cap b \<le> kb_count b then (KBUF_FULL, b, m)
      else
        let write = (kb_head b + kb_count b) mod kb_cap b
        in (KBUF_OK, b\<lparr>kb_count := kb_count b + 1\<rparr>, m(kb_data b + write := v)))"

definition kbuf_peek :: "u64 \<Rightarrow> kbuffer \<Rightarrow> mem \<Rightarrow> u64 \<Rightarrow> u64 \<Rightarrow> kbuf_result \<times> mem" where
  "kbuf_peek bp b m offset out =
     (if \<not> kbuf_valid bp b \<or> out = 0 \<or> \<not> kbuf_external bp b out 1 then (KBUF_INVALID, m)
      else if kb_count b \<le> offset then (KBUF_EMPTY, m)
      else (KBUF_OK, m(out := m (kb_data b + (kb_head b + offset) mod kb_cap b))))"

definition kbuf_consume :: "u64 \<Rightarrow> kbuffer \<Rightarrow> u64 \<Rightarrow> kbuf_result \<times> kbuffer" where
  "kbuf_consume bp b n =
     (if \<not> kbuf_valid bp b then (KBUF_INVALID, b)
      else if kb_count b < n then (KBUF_EMPTY, b)
      else (KBUF_OK, b\<lparr>kb_head := (kb_head b + n) mod kb_cap b, kb_count := kb_count b - n\<rparr>))"

definition kbuf_read ::
    "u64 \<Rightarrow> kbuffer \<Rightarrow> mem \<Rightarrow> u64 \<Rightarrow> u64 \<Rightarrow> kbuf_result \<times> kbuffer \<times> mem" where
  "kbuf_read bp b m dst n =
     (if \<not> kbuf_valid bp b \<or> KBUF_MAX_CAP < n \<or> \<not> kbuf_external bp b dst n
      then (KBUF_INVALID, b, m)
      else if kb_count b < n then (KBUF_EMPTY, b, m)
      else
        let m' = for_loop (unat n)
                   (\<lambda>i t. t(dst + of_nat i := t (kb_data b + (kb_head b + of_nat i) mod kb_cap b))) m
        in (KBUF_OK,
            b\<lparr>kb_head := (kb_head b + n) mod kb_cap b, kb_count := kb_count b - n\<rparr>, m'))"

section \<open>The list the buffer holds\<close>

definition kbuf_items :: "kbuffer \<Rightarrow> mem \<Rightarrow> u8 list" where
  "kbuf_items b m =
     ring_list (\<lambda>k. m (kb_data b + of_nat k)) (unat (kb_head b)) (unat (kb_cap b)) (unat (kb_count b))"

definition kbuf_storage :: "kbuffer \<Rightarrow> u64 set" where
  "kbuf_storage b = (\<lambda>k. kb_data b + of_nat k) ` {..<unat (kb_cap b)}"

lemma unat_KBUF_MAX_CAP [simp]: "unat KBUF_MAX_CAP = 1099511627776"
  by (simp add: KBUF_MAX_CAP_def)

lemma kbuf_valid_nat:
  assumes "kbuf_valid bp b"
  shows "0 < unat (kb_cap b)" "unat (kb_cap b) \<le> 1099511627776"
    "unat (kb_head b) < unat (kb_cap b)" "unat (kb_count b) \<le> unat (kb_cap b)"
    "rt_region (kb_data b) (kb_cap b)"
    "unat (kb_data b) + unat (kb_cap b) < 18446744073709551616"
  using assms
  by (auto simp: kbuf_valid_def word_order_unat rt_region_iff word_neq_0_unat)

text \<open>A slot index computed in 64-bit arithmetic is the slot of the ring.\<close>

lemma kbuf_slot:
  assumes "kbuf_valid bp b" and "unat x + unat y < 2 ^ 64"
  shows "(x + y) mod kb_cap b = of_nat ((unat x + unat y) mod unat (kb_cap b))"
  using assms by (simp add: word_unat_eq_iff unat_mod unat_simps kbuf_valid_nat
      less_trans [OF mod_less_divisor])

lemma kbuf_storage_addr_inj:
  "kbuf_valid bp b \<Longrightarrow> i < unat (kb_cap b) \<Longrightarrow> j < unat (kb_cap b) \<Longrightarrow>
    kb_data b + of_nat i = kb_data b + of_nat j \<longleftrightarrow> i = j"
  using kbuf_valid_nat(2) [of bp b] by (simp add: of_nat_inj_word)


lemma kbuf_slot_count:
  assumes "kbuf_valid bp b" and "i \<le> unat (kb_cap b)"
  shows "((kb_head b + kb_count b) mod kb_cap b + of_nat i) mod kb_cap b =
    of_nat ((unat (kb_head b) + unat (kb_count b) + i) mod unat (kb_cap b))"
proof -
  note v = kbuf_valid_nat [OF assms(1)]
  have "(kb_head b + kb_count b) mod kb_cap b =
      of_nat ((unat (kb_head b) + unat (kb_count b)) mod unat (kb_cap b))" (is "?w = of_nat ?k")
    using v by (intro kbuf_slot [OF assms(1)]) simp
  moreover have k: "?k < unat (kb_cap b)" using v by simp
  moreover from k v(2) have "?k < 2 ^ LENGTH(64)" by simp
  ultimately have w: "unat ?w = ?k" by (simp only: unat_of_nat_small)
  have i: "unat (of_nat i :: u64) = i" using v assms(2) by (simp add: unat_simps)
  have "(?w + of_nat i) mod kb_cap b = of_nat ((?k + i) mod unat (kb_cap b))"
    using kbuf_slot [OF assms(1), of ?w "of_nat i"] k v assms(2) unfolding w i by simp
  then show ?thesis by (simp only: mod_add_left_eq)
qed

lemma kbuf_slot_head:
  assumes "kbuf_valid bp b" and "i \<le> unat (kb_cap b)"
  shows "(kb_head b + of_nat i) mod kb_cap b =
    of_nat ((unat (kb_head b) + i) mod unat (kb_cap b))"
  using kbuf_valid_nat [OF assms(1)] assms(2)
  by (subst kbuf_slot [OF assms(1)]) (simp_all add: unat_simps)

lemma kbuf_external_addr:
  assumes "kbuf_valid bp b" and "kbuf_external bp b p n"
  shows "\<forall>i < unat n. \<forall>k < unat (kb_cap b). p + of_nat i \<noteq> kb_data b + of_nat k"
  using assms kbuf_valid_nat(5) [OF assms(1)]
  by (intro allI impI rt_disjoint_addr) (auto simp: kbuf_external_def)

section \<open>What each operation does to the list\<close>

lemma kbuf_items_frame:
  assumes "kbuf_valid bp b" and "\<And>a. a \<in> kbuf_storage b \<Longrightarrow> m' a = m a"
  shows "kbuf_items b m' = kbuf_items b m"
  unfolding kbuf_items_def
  using assms kbuf_valid_nat(1) [OF assms(1)]
  by (intro ring_list_cong) (simp add: kbuf_storage_def)

lemma kbuf_valid_count_update:
  "kbuf_valid bp b \<Longrightarrow> n \<le> kb_cap b \<Longrightarrow> kbuf_valid bp (b\<lparr>kb_count := n\<rparr>)"
  by (simp add: kbuf_valid_def)

lemma kbuf_append_ok:
  assumes v: "kbuf_valid bp b" and n: "n \<le> KBUF_MAX_CAP" and ext: "kbuf_external bp b src n"
    and fits: "unat (kb_count b) + unat n \<le> unat (kb_cap b)"
  obtains b' m' where "kbuf_append bp b m src n = (KBUF_OK, b', m')" "kbuf_valid bp b'"
    "kb_data b' = kb_data b" "kb_cap b' = kb_cap b"
    "kbuf_items b' m' = kbuf_items b m @ bytes_at m src (unat n)"
    "\<And>a. a \<notin> kbuf_storage b \<Longrightarrow> m' a = m a"
proof -
  note vn = kbuf_valid_nat [OF v]
  let ?c = "unat (kb_cap b)" and ?h = "unat (kb_head b)" and ?k = "unat (kb_count b)"
  let ?m' = "for_loop (unat n) (\<lambda>i t. t(kb_data b + of_nat ((?h + ?k + i) mod ?c) := t (src + of_nat i))) m"
  let ?b' = "b\<lparr>kb_count := kb_count b + n\<rparr>"
  have cnt: "unat (kb_count b + n) = ?k + unat n" using fits vn by (simp add: unat_simps)
  have loop: "for_loop (unat n) (\<lambda>i t. t(kb_data b +
      ((kb_head b + kb_count b) mod kb_cap b + of_nat i) mod kb_cap b := t (src + of_nat i))) m = ?m'"
    using fits by (intro for_loop_cong) (simp add: kbuf_slot_count [OF v])
  have eq: "kbuf_append bp b m src n = (KBUF_OK, ?b', ?m')"
    using v n ext fits vn
    by (simp add: kbuf_append_def Let_def not_less word_le_nat_alt unat_simps loop)
  have valid: "kbuf_valid bp ?b'"
    using fits cnt by (intro kbuf_valid_count_update [OF v]) (simp add: word_le_nat_alt)
  have c: "0 < ?c" "?c < 2 ^ 64" using vn by simp_all
  note w = ring_write [OF c fits kbuf_external_addr [OF v ext], where h = ?h and m = m]
  have items: "kbuf_items ?b' ?m' = kbuf_items b m @ bytes_at m src (unat n)"
    using w(1) by (simp add: kbuf_items_def cnt)
  have frame: "?m' a = m a" if "a \<notin> kbuf_storage b" for a
    using that unfolding kbuf_storage_def by (rule w(2))
  show thesis
    by (rule that [OF eq valid _ _ items frame]) simp_all
qed

lemma kbuf_append_byte_ok:
  assumes v: "kbuf_valid bp b" and fits: "unat (kb_count b) < unat (kb_cap b)"
  obtains b' m' where "kbuf_append_byte bp b m x = (KBUF_OK, b', m')" "kbuf_valid bp b'"
    "kb_data b' = kb_data b" "kb_cap b' = kb_cap b"
    "kbuf_items b' m' = kbuf_items b m @ [x]"
    "\<And>a. a \<notin> kbuf_storage b \<Longrightarrow> m' a = m a"
proof -
  note vn = kbuf_valid_nat [OF v]
  let ?c = "unat (kb_cap b)" and ?h = "unat (kb_head b)" and ?k = "unat (kb_count b)"
  let ?b' = "b\<lparr>kb_count := kb_count b + 1\<rparr>"
  let ?m' = "m(kb_data b + of_nat ((?h + ?k) mod ?c) := x)"
  have cnt: "unat (kb_count b + 1) = Suc ?k" using fits vn by (simp add: unat_simps)
  have slot: "(kb_head b + kb_count b) mod kb_cap b = of_nat ((?h + ?k) mod ?c)"
    using vn by (intro kbuf_slot [OF v]) simp
  have eq: "kbuf_append_byte bp b m x = (KBUF_OK, ?b', ?m')"
    using v fits by (simp add: kbuf_append_byte_def Let_def not_le [symmetric] word_le_nat_alt slot)
  have valid: "kbuf_valid bp ?b'"
    using fits cnt by (intro kbuf_valid_count_update [OF v]) (simp add: word_le_nat_alt)
  have old: "?m' (kb_data b + of_nat ((?h + i) mod ?c)) = m (kb_data b + of_nat ((?h + i) mod ?c))"
    if "i < ?k" for i
  proof -
    have "(?h + i) mod ?c \<noteq> (?h + ?k) mod ?c"
      using ring_slot_inj [of i ?c ?k ?h] that fits by auto
    then have "kb_data b + of_nat ((?h + i) mod ?c) \<noteq> kb_data b + of_nat ((?h + ?k) mod ?c)"
      using kbuf_storage_addr_inj [OF v] vn(1) by simp
    then show ?thesis by simp
  qed
  have "kbuf_items ?b' ?m' = ring_list (\<lambda>k. ?m' (kb_data b + of_nat k)) ?h ?c (?k + length [x])"
    by (simp add: kbuf_items_def cnt)
  also have "\<dots> = ring_list (\<lambda>k. m (kb_data b + of_nat k)) ?h ?c ?k @ [x]"
    using old by (intro ring_list_append) auto
  finally have items: "kbuf_items ?b' ?m' = kbuf_items b m @ [x]"
    by (simp add: kbuf_items_def)
  have frame: "?m' a = m a" if "a \<notin> kbuf_storage b" for a
    using that vn(1) by (auto simp: kbuf_storage_def)
  show thesis
    by (rule that [OF eq valid _ _ items frame]) simp_all
qed

text \<open>Advancing the read index drops the oldest bytes.\<close>

definition kbuf_advance :: "kbuffer \<Rightarrow> u64 \<Rightarrow> kbuffer" where
  "kbuf_advance b n =
     b\<lparr>kb_head := (kb_head b + n) mod kb_cap b, kb_count := kb_count b - n\<rparr>"

lemma kbuf_advance:
  assumes v: "kbuf_valid bp b" and n: "unat n \<le> unat (kb_count b)"
  shows "kbuf_valid bp (kbuf_advance b n)"
    and "kbuf_items (kbuf_advance b n) m = drop (unat n) (kbuf_items b m)"
proof -
  note vn = kbuf_valid_nat [OF v]
  let ?c = "unat (kb_cap b)" and ?h = "unat (kb_head b)"
  have hd: "unat ((kb_head b + n) mod kb_cap b) = (?h + unat n) mod ?c"
    using vn n by (simp add: unat_mod unat_simps)
  have cnt: "unat (kb_count b - n) = unat (kb_count b) - unat n"
    using n by (simp add: unat_simps)
  show "kbuf_valid bp (kbuf_advance b n)"
    using v vn hd cnt by (simp add: kbuf_valid_def kbuf_advance_def word_less_nat_alt word_le_nat_alt)
  show "kbuf_items (kbuf_advance b n) m = drop (unat n) (kbuf_items b m)"
    using n by (simp add: kbuf_items_def kbuf_advance_def hd cnt ring_list_drop)
qed

lemma kbuf_read_ok:
  assumes v: "kbuf_valid bp b" and n: "n \<le> KBUF_MAX_CAP" and ext: "kbuf_external bp b dst n"
    and le: "unat n \<le> unat (kb_count b)"
  obtains m' where "kbuf_read bp b m dst n = (KBUF_OK, kbuf_advance b n, m')"
    "bytes_at m' dst (unat n) = take (unat n) (kbuf_items b m)"
    "\<And>a. a \<notin> (\<lambda>i. dst + of_nat i) ` {..<unat n} \<Longrightarrow> m' a = m a"
    "\<And>a. a \<in> kbuf_storage b \<Longrightarrow> m' a = m a"
proof -
  note vn = kbuf_valid_nat [OF v]
  let ?c = "unat (kb_cap b)" and ?h = "unat (kb_head b)"
  let ?m' = "for_loop (unat n) (\<lambda>i t. t(dst + of_nat i := t (kb_data b + of_nat ((?h + i) mod ?c)))) m"
  have loop: "for_loop (unat n)
      (\<lambda>i t. t(dst + of_nat i := t (kb_data b + (kb_head b + of_nat i) mod kb_cap b))) m = ?m'"
    using le vn by (intro for_loop_cong) (simp add: kbuf_slot_head [OF v])
  have eq: "kbuf_read bp b m dst n = (KBUF_OK, kbuf_advance b n, ?m')"
    using v n ext le
    by (simp add: kbuf_read_def Let_def not_less [symmetric] kbuf_advance_def loop word_less_nat_alt)
  have c: "0 < ?c" "?c < 2 ^ 64" "unat n \<le> ?c" using vn le by simp_all
  note rd = ring_read [OF c(1,2) le c(3) kbuf_external_addr [OF v ext], where h = ?h and m = m]
  show thesis
  proof (rule that [OF eq])
    show "bytes_at ?m' dst (unat n) = take (unat n) (kbuf_items b m)"
      using rd(1) by (simp add: kbuf_items_def)
    show "?m' a = m a" if "a \<in> kbuf_storage b" for a
      using that rd(3) by (auto simp: kbuf_storage_def)
  qed (rule rd(2))
qed

text \<open>Which result an operation on a valid buffer gives.\<close>

lemma kbuf_append_result:
  assumes "kbuf_valid bp b"
  shows "kbuf_append bp b m src n =
    (if KBUF_MAX_CAP < n \<or> \<not> kbuf_external bp b src n then (KBUF_INVALID, b, m)
     else if unat (kb_cap b) < unat (kb_count b) + unat n then (KBUF_FULL, b, m)
     else kbuf_append bp b m src n)"
proof -
  have "unat (kb_cap b - kb_count b) = unat (kb_cap b) - unat (kb_count b)"
    using kbuf_valid_nat(4) [OF assms] by (rule unat_diff_nowrap)
  moreover have "\<not> kb_cap b < kb_count b"
    using kbuf_valid_nat(4) [OF assms] by (simp add: word_less_nat_alt)
  ultimately show ?thesis
    using assms kbuf_valid_nat(4) [OF assms]
    by (auto simp: kbuf_append_def Let_def word_less_nat_alt)
qed

lemma kbuf_read_result:
  assumes "kbuf_valid bp b"
  shows "kbuf_read bp b m dst n =
    (if KBUF_MAX_CAP < n \<or> \<not> kbuf_external bp b dst n then (KBUF_INVALID, b, m)
     else if unat (kb_count b) < unat n then (KBUF_EMPTY, b, m)
     else kbuf_read bp b m dst n)"
  using assms by (auto simp: kbuf_read_def Let_def word_less_nat_alt)

section \<open>The buffer as a stream\<close>

text \<open>
  Every call of the interface, and the caller's own store to one byte that is
  not storage of the ring (\<open>KExtern\<close>; a store into the storage is ignored: the
  header forbids it).
\<close>

datatype kbuf_op =
    KAppend u64 u64
  | KAppendByte u8
  | KPeek u64 u64
  | KConsume u64
  | KRead u64 u64
  | KClear
  | KExtern u64 u8

fun kbuf_step :: "u64 \<Rightarrow> kbuffer \<times> mem \<Rightarrow> kbuf_op \<Rightarrow> kbuffer \<times> mem" where
  "kbuf_step bp (b, m) (KAppend src n) = snd (kbuf_append bp b m src n)"
| "kbuf_step bp (b, m) (KAppendByte v) = snd (kbuf_append_byte bp b m v)"
| "kbuf_step bp (b, m) (KPeek off out) = (b, snd (kbuf_peek bp b m off out))"
| "kbuf_step bp (b, m) (KConsume n) = (snd (kbuf_consume bp b n), m)"
| "kbuf_step bp (b, m) (KRead dst n) = snd (kbuf_read bp b m dst n)"
| "kbuf_step bp (b, m) KClear = (snd (kbuf_clear bp b), m)"
| "kbuf_step bp (b, m) (KExtern a v) = (b, if a \<in> kbuf_storage b then m else m(a := v))"

fun kbuf_accepted :: "u64 \<Rightarrow> kbuffer \<times> mem \<Rightarrow> kbuf_op \<Rightarrow> u8 list" where
  "kbuf_accepted bp (b, m) (KAppend src n) =
     (if fst (kbuf_append bp b m src n) = KBUF_OK then bytes_at m src (unat n) else [])"
| "kbuf_accepted bp (b, m) (KAppendByte v) =
     (if fst (kbuf_append_byte bp b m v) = KBUF_OK then [v] else [])"
| "kbuf_accepted bp s _ = []"

fun kbuf_removed :: "u64 \<Rightarrow> kbuffer \<times> mem \<Rightarrow> kbuf_op \<Rightarrow> u8 list" where
  "kbuf_removed bp (b, m) (KRead dst n) =
     (case kbuf_read bp b m dst n of
        (KBUF_OK, _, m') \<Rightarrow> bytes_at m' dst (unat n)
      | _ \<Rightarrow> [])"
| "kbuf_removed bp (b, m) (KConsume n) =
     (if fst (kbuf_consume bp b n) = KBUF_OK then take (unat n) (kbuf_items b m) else [])"
| "kbuf_removed bp (b, m) KClear = kbuf_items b m"
| "kbuf_removed bp s _ = []"

lemma kbuf_peek_frame:
  assumes "kbuf_valid bp b"
  shows "kbuf_items b (snd (kbuf_peek bp b m off out)) = kbuf_items b m"
proof (rule kbuf_items_frame [OF assms])
  fix a assume "a \<in> kbuf_storage b"
  then have "a \<noteq> out" if "kbuf_external bp b out 1"
    using kbuf_external_addr [OF assms that, THEN spec, of 0] by (auto simp: kbuf_storage_def)
  then show "snd (kbuf_peek bp b m off out) a = m a"
    by (auto simp: kbuf_peek_def)
qed

lemma kbuf_clear_ok:
  assumes "kbuf_valid bp b"
  shows "kbuf_clear bp b = (KBUF_OK, b\<lparr>kb_head := 0, kb_count := 0\<rparr>)"
    and "kbuf_valid bp (b\<lparr>kb_head := 0, kb_count := 0\<rparr>)"
    and "kbuf_items (b\<lparr>kb_head := 0, kb_count := 0\<rparr>) m = []"
  using assms by (auto simp: kbuf_clear_def kbuf_valid_def kbuf_items_def ring_list_def word_gt_0)

lemma kbuf_conserve_append:
  assumes v: "kbuf_valid bp b"
  shows "kbuf_valid bp (fst (kbuf_step bp (b, m) (KAppend src n)))"
    and "kbuf_items b m @ kbuf_accepted bp (b, m) (KAppend src n) =
      (case kbuf_step bp (b, m) (KAppend src n) of (b', m') \<Rightarrow> kbuf_items b' m')"
proof -
  consider "fst (kbuf_append bp b m src n) \<noteq> KBUF_OK" "snd (kbuf_append bp b m src n) = (b, m)"
    | "n \<le> KBUF_MAX_CAP" "kbuf_external bp b src n"
      "unat (kb_count b) + unat n \<le> unat (kb_cap b)"
    using kbuf_append_result [OF v, of m src n] by (force simp: not_less split: if_splits)
  then have "kbuf_valid bp (fst (kbuf_step bp (b, m) (KAppend src n))) \<and>
    kbuf_items b m @ kbuf_accepted bp (b, m) (KAppend src n) =
      (case kbuf_step bp (b, m) (KAppend src n) of (b', m') \<Rightarrow> kbuf_items b' m')"
  proof cases
    case 1
    with v show ?thesis by simp
  next
    case 2
    from kbuf_append_ok [OF v this, of m] obtain b' m' where
      "kbuf_append bp b m src n = (KBUF_OK, b', m')" "kbuf_valid bp b'"
      "kbuf_items b' m' = kbuf_items b m @ bytes_at m src (unat n)" by metis
    then show ?thesis by simp
  qed
  then show "kbuf_valid bp (fst (kbuf_step bp (b, m) (KAppend src n)))"
    and "kbuf_items b m @ kbuf_accepted bp (b, m) (KAppend src n) =
      (case kbuf_step bp (b, m) (KAppend src n) of (b', m') \<Rightarrow> kbuf_items b' m')" by blast+
qed

lemma kbuf_conserve_append_byte:
  assumes v: "kbuf_valid bp b"
  shows "kbuf_valid bp (fst (kbuf_step bp (b, m) (KAppendByte x)))"
    and "kbuf_items b m @ kbuf_accepted bp (b, m) (KAppendByte x) =
      (case kbuf_step bp (b, m) (KAppendByte x) of (b', m') \<Rightarrow> kbuf_items b' m')"
proof -
  have "kbuf_valid bp (fst (kbuf_step bp (b, m) (KAppendByte x))) \<and>
    kbuf_items b m @ kbuf_accepted bp (b, m) (KAppendByte x) =
      (case kbuf_step bp (b, m) (KAppendByte x) of (b', m') \<Rightarrow> kbuf_items b' m')"
  proof (cases "unat (kb_count b) < unat (kb_cap b)")
    case True
    from kbuf_append_byte_ok [OF v this, of m x] obtain b' m' where
      "kbuf_append_byte bp b m x = (KBUF_OK, b', m')" "kbuf_valid bp b'"
      "kbuf_items b' m' = kbuf_items b m @ [x]" by metis
    then show ?thesis by simp
  next
    case False
    with v show ?thesis by (simp add: kbuf_append_byte_def word_le_nat_alt)
  qed
  then show "kbuf_valid bp (fst (kbuf_step bp (b, m) (KAppendByte x)))"
    and "kbuf_items b m @ kbuf_accepted bp (b, m) (KAppendByte x) =
      (case kbuf_step bp (b, m) (KAppendByte x) of (b', m') \<Rightarrow> kbuf_items b' m')" by blast+
qed

lemma kbuf_conserve_read:
  assumes v: "kbuf_valid bp b"
  shows "kbuf_valid bp (fst (kbuf_step bp (b, m) (KRead dst n)))"
    and "kbuf_items b m = kbuf_removed bp (b, m) (KRead dst n) @
      (case kbuf_step bp (b, m) (KRead dst n) of (b', m') \<Rightarrow> kbuf_items b' m')"
proof -
  consider "fst (kbuf_read bp b m dst n) \<noteq> KBUF_OK" "snd (kbuf_read bp b m dst n) = (b, m)"
    | "n \<le> KBUF_MAX_CAP" "kbuf_external bp b dst n" "unat n \<le> unat (kb_count b)"
    using kbuf_read_result [OF v, of m dst n] by (force simp: not_less split: if_splits)
  then have "kbuf_valid bp (fst (kbuf_step bp (b, m) (KRead dst n))) \<and>
    kbuf_items b m = kbuf_removed bp (b, m) (KRead dst n) @
      (case kbuf_step bp (b, m) (KRead dst n) of (b', m') \<Rightarrow> kbuf_items b' m')"
  proof cases
    case 1
    with v show ?thesis by (auto split: prod.splits kbuf_result.splits)
  next
    case 2
    from kbuf_read_ok [OF v this, of m] obtain m' where r:
      "kbuf_read bp b m dst n = (KBUF_OK, kbuf_advance b n, m')"
      "bytes_at m' dst (unat n) = take (unat n) (kbuf_items b m)"
      "\<And>a. a \<in> kbuf_storage b \<Longrightarrow> m' a = m a" by metis
    have "kbuf_items (kbuf_advance b n) m' = drop (unat n) (kbuf_items b m)"
      using kbuf_advance(2) [OF v 2(3), of m'] kbuf_items_frame [OF v r(3)] by simp
    with r kbuf_advance(1) [OF v 2(3)] show ?thesis by simp
  qed
  then show "kbuf_valid bp (fst (kbuf_step bp (b, m) (KRead dst n)))"
    and "kbuf_items b m = kbuf_removed bp (b, m) (KRead dst n) @
      (case kbuf_step bp (b, m) (KRead dst n) of (b', m') \<Rightarrow> kbuf_items b' m')" by blast+
qed

lemma kbuf_conserve_consume:
  assumes v: "kbuf_valid bp b"
  shows "kbuf_valid bp (fst (kbuf_step bp (b, m) (KConsume n)))"
    and "kbuf_items b m = kbuf_removed bp (b, m) (KConsume n) @
      (case kbuf_step bp (b, m) (KConsume n) of (b', m') \<Rightarrow> kbuf_items b' m')"
  using v kbuf_advance [OF v, of n] 
  by (auto simp: kbuf_consume_def kbuf_advance_def word_less_nat_alt)

lemma kbuf_step_conserve:
  assumes v: "kbuf_valid bp b"
  shows "kbuf_items b m @ kbuf_accepted bp (b, m) e = kbuf_removed bp (b, m) e @
    (case kbuf_step bp (b, m) e of (b', m') \<Rightarrow> kbuf_items b' m')"
proof (cases e)
  case (KAppend src n)
  then show ?thesis using kbuf_conserve_append(2) [OF v, of m src n] by simp
next
  case (KAppendByte x)
  then show ?thesis using kbuf_conserve_append_byte(2) [OF v, of m x] by simp
next
  case (KRead dst n)
  then show ?thesis using kbuf_conserve_read(2) [OF v, of m dst n] by simp
next
  case (KConsume n)
  then show ?thesis using kbuf_conserve_consume(2) [OF v, of m n] by simp
next
  case (KExtern a x)
  have "a \<notin> kbuf_storage b \<Longrightarrow> kbuf_items b (m(a := x)) = kbuf_items b m"
    by (rule kbuf_items_frame [OF v]) auto
  with KExtern show ?thesis by simp
qed (simp_all add: kbuf_peek_frame [OF v] kbuf_clear_ok [OF v])

text \<open>The kernel byte ring is a FIFO stream.\<close>

interpretation kb: fifo_stream
  "\<lambda>s. kbuf_valid bp (fst s)" "\<lambda>s. kbuf_items (fst s) (snd s)"
  "kbuf_step bp" "kbuf_accepted bp" "kbuf_removed bp"
proof (unfold_locales, goal_cases)
  case (1 s e)
  obtain b m where s: "s = (b, m)" by (cases s)
  with 1 have v: "kbuf_valid bp b" by simp
  show ?case unfolding s
    using v kbuf_conserve_append(1) [OF v] kbuf_conserve_append_byte(1) [OF v]
      kbuf_conserve_read(1) [OF v] kbuf_conserve_consume(1) [OF v] kbuf_clear_ok [OF v]
    by (cases e) (simp_all del: kbuf_step.simps(1,2,4,5))
next
  case (2 s e)
  then show ?case
    using kbuf_step_conserve [of bp "fst s" "snd s" e] by (simp add: case_prod_unfold)
qed

section \<open>Properties\<close>

text \<open>
  C5. On a valid buffer \<^verbatim>\<open>kbuf_append\<close> succeeds exactly when the source is an external
  region of at most \<^verbatim>\<open>KBUF_MAX_CAP\<close> bytes that fits in the free space; success appends exactly
  the caller's bytes to the queued list, any other result changes neither metadata nor memory,
  and no result writes outside the ring's storage or invalidates the buffer.
\<close>

theorem kbuf_append_refines:
  assumes "kbuf_valid bp b"
  shows "case kbuf_append bp b m src n of (r, b', m') \<Rightarrow>
    (r = KBUF_OK \<longleftrightarrow> n \<le> KBUF_MAX_CAP \<and> kbuf_external bp b src n \<and>
      unat (kb_count b) + unat n \<le> unat (kb_cap b)) \<and>
    (r \<noteq> KBUF_OK \<longrightarrow> b' = b \<and> m' = m) \<and>
    kbuf_valid bp b' \<and>
    kbuf_items b' m' = kbuf_items b m @ (if r = KBUF_OK then bytes_at m src (unat n) else []) \<and>
    (\<forall>a. a \<notin> kbuf_storage b \<longrightarrow> m' a = m a)"
proof (cases "n \<le> KBUF_MAX_CAP \<and> kbuf_external bp b src n \<and>
    unat (kb_count b) + unat n \<le> unat (kb_cap b)")
  case True
  from kbuf_append_ok [OF assms, of n src m] True obtain b' m' where
    "kbuf_append bp b m src n = (KBUF_OK, b', m')" "kbuf_valid bp b'"
    "kbuf_items b' m' = kbuf_items b m @ bytes_at m src (unat n)"
    "\<And>a. a \<notin> kbuf_storage b \<Longrightarrow> m' a = m a" by metis
  with True show ?thesis by simp
next
  case False
  with assms show ?thesis by (subst kbuf_append_result) (auto simp: not_less)
qed

theorem kbuf_append_refines_witness:
  "kbuf_valid 4096 \<lparr>kb_data = 8192, kb_cap = 4, kb_head = 3, kb_count = 2\<rparr> \<and>
   (case kbuf_append 4096 \<lparr>kb_data = 8192, kb_cap = 4, kb_head = 3, kb_count = 2\<rparr>
      (\<lambda>a. ucast a) 257 2 of (r, b', m') \<Rightarrow> r = KBUF_OK \<and> kbuf_items b' m' = [3, 0, 1, 2])"
proof -
  have v: "kbuf_valid 4096 \<lparr>kb_data = 8192, kb_cap = 4, kb_head = 3, kb_count = 2\<rparr>"
    by (simp add: kbuf_valid_def rt_region_def rt_overlap_def sizeof_kbuffer_def KBUF_MAX_CAP_def)
  have e: "kbuf_external 4096 \<lparr>kb_data = 8192, kb_cap = 4, kb_head = 3, kb_count = 2\<rparr> 257 2"
    by (simp add: kbuf_external_def rt_region_def rt_overlap_def sizeof_kbuffer_def)
  show ?thesis
    using v e kbuf_append_refines [OF v, where m = "\<lambda>a. ucast a" and src = 257 and n = 2]
    by (auto simp: KBUF_MAX_CAP_def kbuf_items_def ring_list_def bytes_at_def upt_rec
        split: prod.splits)
qed

text \<open>
  C6. From a successful \<^verbatim>\<open>kbuf_init\<close>, after any sequence of calls of the interface
  interleaved with stores of the caller outside the storage, the bytes accepted so far
  are the bytes delivered or discarded so far followed by the bytes still queued: nothing is
  lost, duplicated or reordered, and the buffer is valid with at most \<^verbatim>\<open>cap\<close> bytes queued.
\<close>

theorem kbuf_stream_conserved:
  assumes "kbuf_init bp b0 storage cap = (KBUF_OK, b)"
  shows "collect (kbuf_step bp) (kbuf_accepted bp) (b, m) es =
      collect (kbuf_step bp) (kbuf_removed bp) (b, m) es @
      (case run_ops (kbuf_step bp) (b, m) es of (b', m') \<Rightarrow> kbuf_items b' m') \<and>
    kbuf_valid bp (fst (run_ops (kbuf_step bp) (b, m) es))"
proof -
  have v: "kbuf_valid bp (fst (b, m))" and "kbuf_items (fst (b, m)) m = []"
    using assms by (auto simp: kbuf_init_def kbuf_valid_def kbuf_items_def ring_list_def
        word_neq_0_conv not_less split: if_splits)
  then show ?thesis
    using kb.run_conserves [OF v, of es] kb.run_inv [OF v, of es] by (simp add: case_prod_unfold)
qed

theorem kbuf_stream_conserved_witness:
  "\<exists>b. kbuf_init 4096 \<lparr>kb_data = 0, kb_cap = 0, kb_head = 0, kb_count = 0\<rparr> 8192 2 = (KBUF_OK, b) \<and>
    kbuf_items
      (fst (run_ops (kbuf_step 4096) (b, \<lambda>a. 0) [KAppendByte 7, KAppendByte 8, KConsume 1, KAppendByte 9]))
      (snd (run_ops (kbuf_step 4096) (b, \<lambda>a. 0) [KAppendByte 7, KAppendByte 8, KConsume 1, KAppendByte 9]))
    = [8, 9]"
proof -
  let ?b = "\<lparr>kb_data = 8192, kb_cap = 2, kb_head = 0, kb_count = 0\<rparr>"
  let ?es = "[KAppendByte 7, KAppendByte 8, KConsume 1, KAppendByte 9]"
  have i: "kbuf_init 4096 \<lparr>kb_data = 0, kb_cap = 0, kb_head = 0, kb_count = 0\<rparr> 8192 2 = (KBUF_OK, ?b)"
    by (simp add: kbuf_init_def rt_region_def rt_overlap_def sizeof_kbuffer_def KBUF_MAX_CAP_def)
  note defs = kbuf_append_byte_def kbuf_consume_def kbuf_valid_def rt_region_def rt_overlap_def
    sizeof_kbuffer_def KBUF_MAX_CAP_def
  have 1: "kbuf_append_byte 4096 ?b (\<lambda>a. 0) 7 = (KBUF_OK, ?b\<lparr>kb_count := 1\<rparr>, (\<lambda>a. 0)(8192 := 7))"
    by (simp add: defs)
  have 2: "kbuf_append_byte 4096 (?b\<lparr>kb_count := 1\<rparr>) ((\<lambda>a. 0)(8192 := 7)) 8 =
      (KBUF_OK, ?b\<lparr>kb_count := 2\<rparr>, (\<lambda>a. 0)(8192 := 7, 8193 := 8))"
    by (simp add: defs word_le_nat_alt)
  have 3: "kbuf_consume 4096 (?b\<lparr>kb_count := 2\<rparr>) 1 = (KBUF_OK, ?b\<lparr>kb_head := 1, kb_count := 1\<rparr>)"
    by (simp add: defs word_less_nat_alt)
  have 4: "fst (kbuf_append_byte 4096 (?b\<lparr>kb_head := 1, kb_count := 1\<rparr>) m 9) = KBUF_OK" for m
    by (simp add: defs word_le_nat_alt word_less_nat_alt)
  have 5: "kbuf_items (?b\<lparr>kb_count := 2\<rparr>) ((\<lambda>a. 0)(8192 := 7, 8193 := 8)) = [7, 8]"
    by (simp add: kbuf_items_def ring_list_def upt_rec)
  have acc: "collect (kbuf_step 4096) (kbuf_accepted 4096) (?b, \<lambda>a. 0) ?es = [7, 8, 9]"
    by (simp only: collect.simps kbuf_step.simps kbuf_accepted.simps 1 2 3 4 fst_conv snd_conv) simp
  have rem: "collect (kbuf_step 4096) (kbuf_removed 4096) (?b, \<lambda>a. 0) ?es = [7]"
    by (simp only: collect.simps kbuf_step.simps kbuf_removed.simps 1 2 3 5 fst_conv snd_conv) simp
  have "[8, 9] = (case run_ops (kbuf_step 4096) (?b, \<lambda>a. 0) ?es of (b', m') \<Rightarrow> kbuf_items b' m')"
    using kbuf_stream_conserved [OF i, where m = "\<lambda>a. 0" and es = ?es, THEN conjunct1]
    unfolding acc rem append.simps list.inject by blast
  with i show ?thesis unfolding case_prod_unfold by metis
qed

end
