(* ===== verification/Heap.thy ===== *)
theory Heap
  imports Prelude
begin

text \<open>
  The bounded kernel heap of \<^verbatim>\<open>kernel/mm/heap.c\<close>: address-ordered blocks with a
  boundary tag at each end, no free list. The allocator's variables are the record
  \<open>heap\<close>, the arena bytes live in \<open>mem\<close>. The lemmas read the arena as a list of
  blocks \<open>(size, free)\<close>: \<^verbatim>\<open>heap_check\<close> decides exactly whether the arena is such a
  list, and \<^verbatim>\<open>heap_alloc\<close> and \<^verbatim>\<open>heap_free\<close> are functions on it. The first-fit
  scan and the search of \<^verbatim>\<open>heap_free\<close> follow sizes read from memory, so they run on
  fuel: \<open>heap_fuel\<close> bounds the number of blocks of the arena, and no call that
  passes \<^verbatim>\<open>heap_check\<close> runs out of it.
\<close>

section \<open>State\<close>

definition HEAP_HDR :: u64 where "HEAP_HDR = 16"
definition HEAP_FTR :: u64 where "HEAP_FTR = 16"
definition HEAP_MIN :: u64 where "HEAP_MIN = 48"
definition HEAP_GRAN :: u64 where "HEAP_GRAN = 16"
definition HEAP_MAGIC :: u64 where "HEAP_MAGIC = 0x524e484541504f42"
definition HEAP_FREE :: u64 where "HEAP_FREE = 1"
definition HEAP_ALIGN_MIN :: u64 where "HEAP_ALIGN_MIN = 8"
definition HEAP_ALIGN_MAX :: u64 where "HEAP_ALIGN_MAX = 4096"
definition HEAP_ARENA_BYTES :: u64 where "HEAP_ARENA_BYTES = 65536"
definition HEAP_BASE :: u64 where "HEAP_BASE = 0xffffc00000000000"

datatype heap_result =
  HEAP_OK | HEAP_NOT_READY | HEAP_INVALID | HEAP_ALIGNMENT | HEAP_OVERFLOW |
  HEAP_OUT_OF_MEMORY | HEAP_CORRUPT | HEAP_BUSY | HEAP_CONTEXT |
  HEAP_VM_ERROR | HEAP_MAPPING_CONFLICT

record heap =
  h_base :: u64
  h_arena :: u64
  h_mapped :: u64
  h_used :: u64
  h_used_blocks :: u64
  h_free_blocks :: u64
  h_ready :: bool

text \<open>The static initial values.\<close>

definition heap_static :: heap where
  "heap_static = \<lparr>h_base = HEAP_BASE, h_arena = HEAP_ARENA_BYTES, h_mapped = 0, h_used = 0,
     h_used_blocks = 0, h_free_blocks = 0, h_ready = False\<rparr>"

record heap_statistics =
  hs_arena_bytes :: u64
  hs_mapped_bytes :: u64
  hs_used_bytes :: u64
  hs_free_bytes :: u64
  hs_allocated_blocks :: u64
  hs_free_blocks :: u64

text \<open>A \<^verbatim>\<open>struct heap_block\<close> in memory: the size, then the info word.\<close>

definition heap_tag :: "mem \<Rightarrow> u64 \<Rightarrow> u64 \<times> u64" where
  "heap_tag m a = (read64 m a, read64 m (a + 8))"

definition heap_set_tag :: "mem \<Rightarrow> u64 \<Rightarrow> u64 \<times> u64 \<Rightarrow> mem" where
  "heap_set_tag m a t = write64 (write64 m a (fst t)) (a + 8) (snd t)"

definition block_payload :: "u64 \<Rightarrow> u64" where
  "block_payload address = address + HEAP_HDR"

definition publish :: "mem \<Rightarrow> u64 \<Rightarrow> u64 \<Rightarrow> bool \<Rightarrow> mem" where
  "publish m address sz free =
     (let tag = (sz, HEAP_MAGIC OR (if free then HEAP_FREE else 0))
      in heap_set_tag (heap_set_tag m address tag) (address + sz - HEAP_FTR) tag)"

section \<open>Operations\<close>

text \<open>
  The loop of \<^verbatim>\<open>heap_check\<close>, from \<open>cursor\<close> with its counters, and the comparison
  with the allocator's own counters after it.
\<close>

function heap_walk ::
    "mem \<Rightarrow> heap \<Rightarrow> u64 \<Rightarrow> u64 \<Rightarrow> u64 \<Rightarrow> u64 \<Rightarrow> u64 \<Rightarrow> bool \<Rightarrow> bool" where
  "heap_walk m h end cursor used allocated free_count previous_free =
     (if cursor < end then
        if end - cursor < HEAP_MIN then False
        else
          let sz = fst (heap_tag m cursor); info = snd (heap_tag m cursor) in
          if sz < HEAP_MIN \<or> sz mod HEAP_GRAN \<noteq> 0 \<or> end - cursor < sz \<or>
             (info \<noteq> HEAP_MAGIC \<and> info \<noteq> HEAP_MAGIC OR HEAP_FREE) then False
          else if heap_tag m (cursor + sz - HEAP_FTR) \<noteq> (sz, info) then False
          else if info = HEAP_MAGIC OR HEAP_FREE then
            if previous_free then False
            else heap_walk m h end (cursor + sz) used allocated (free_count + 1) True
          else heap_walk m h end (cursor + sz) (used + sz) (allocated + 1) free_count False
      else cursor = end \<and> used = h_used h \<and> allocated = h_used_blocks h \<and>
        free_count = h_free_blocks h \<and> h_mapped h = h_arena h)"
  by pat_completeness auto
termination
proof (relation "measure (\<lambda>(m, h, end, cursor, _). unat end - unat cursor)", goal_cases)
  case 1
  show ?case by simp
next
  case (2 m h "end" cursor used allocated free_count previous_free x xa)
  then have "unat x \<le> unat end - unat cursor" "0 < unat x" "unat cursor < unat end"
    by (auto simp: word_order_unat unat_diff_nowrap HEAP_MIN_def)
  then show ?case using unat_add_within [of cursor "end" x] by simp
next
  case (3 m h "end" cursor used allocated free_count previous_free x xa)
  then have "unat x \<le> unat end - unat cursor" "0 < unat x" "unat cursor < unat end"
    by (auto simp: word_order_unat unat_diff_nowrap HEAP_MIN_def)
  then show ?case using unat_add_within [of cursor "end" x] by simp
qed

declare heap_walk.simps [simp del]

definition heap_check :: "cpu_ctx \<Rightarrow> heap \<Rightarrow> mem \<Rightarrow> bool" where
  "heap_check c h m \<longleftrightarrow>
     foreground c \<and> h_ready h \<and> heap_walk m h (h_base h + h_arena h) (h_base h) 0 0 0 False"

text \<open>
  The end of \<^verbatim>\<open>heap_initialize\<close>, after the arena pages are mapped: one free block.
\<close>

definition heap_publish_arena :: "heap \<Rightarrow> mem \<Rightarrow> heap_result \<times> heap \<times> mem" where
  "heap_publish_arena h m =
     (HEAP_OK,
      h\<lparr>h_used := 0, h_used_blocks := 0, h_free_blocks := 1, h_mapped := HEAP_ARENA_BYTES,
        h_ready := True\<rparr>,
      publish m HEAP_BASE HEAP_ARENA_BYTES True)"

text \<open>
  \<^verbatim>\<open>while (gap && gap < HEAP_MIN) gap += align;\<close> \<^verbatim>\<open>heap_alloc\<close> has already refused an
  alignment below \<^verbatim>\<open>HEAP_ALIGN_MIN\<close>, so the last conjunct never ends the loop.
\<close>

function heap_gap :: "u64 \<Rightarrow> u64 \<Rightarrow> u64" where
  "heap_gap align gap =
     (if gap \<noteq> 0 \<and> gap < HEAP_MIN \<and> HEAP_ALIGN_MIN \<le> align \<and> align \<le> HEAP_ALIGN_MAX
      then heap_gap align (gap + align) else gap)"
  by pat_completeness auto
termination
proof (relation "measure (\<lambda>(align, gap). 48 - unat gap)", goal_cases)
  case 1
  show ?case by simp
next
  case (2 align gap)
  then have "unat gap < 48" "8 \<le> unat align" "unat align \<le> 4096"
    by (auto simp: word_order_unat HEAP_MIN_def HEAP_ALIGN_MIN_def HEAP_ALIGN_MAX_def)
  moreover from this have "unat (gap + align) = unat gap + unat align" by (simp add: unat_simps)
  ultimately show ?case by simp
qed

declare heap_gap.simps [simp del]

text \<open>The gap before the chosen block in the free block at \<open>cur\<close>, if the request fits there.\<close>

definition heap_fit :: "u64 \<Rightarrow> u64 \<Rightarrow> u64 \<Rightarrow> u64 \<Rightarrow> u64 option" where
  "heap_fit align needed cur sz =
     (let gap = heap_gap align ((align - block_payload cur mod align) mod align)
      in if sz < gap \<or> sz - gap < needed then None else Some gap)"

text \<open>
  The first-fit loop: \<open>None\<close> is out of fuel, \<open>Some None\<close> the end of the arena, and
  \<open>Some (Some (cur, gap))\<close> the block and gap it stops at.
\<close>

fun heap_scan :: "nat \<Rightarrow> mem \<Rightarrow> u64 \<Rightarrow> u64 \<Rightarrow> u64 \<Rightarrow> u64 \<Rightarrow> (u64 \<times> u64) option option" where
  "heap_scan 0 m end align needed cur = None"
| "heap_scan (Suc fuel) m end align needed cur =
     (if cur < end then
        case (if snd (heap_tag m cur) \<noteq> HEAP_MAGIC OR HEAP_FREE then None
              else heap_fit align needed cur (fst (heap_tag m cur))) of
          Some gap \<Rightarrow> Some (Some (cur, gap))
        | None \<Rightarrow> heap_scan fuel m end align needed (cur + fst (heap_tag m cur))
      else Some None)"

definition heap_fuel :: "heap \<Rightarrow> nat" where
  "heap_fuel h = unat (h_arena h) div 48 + 1"

definition heap_needed :: "u64 \<Rightarrow> u64" where
  "heap_needed sz = ((sz + HEAP_GRAN - 1) AND NOT (HEAP_GRAN - 1)) + HEAP_HDR + HEAP_FTR"

text \<open>
  The body of the first-fit loop once the block at \<open>cur\<close> is taken: split off the gap and the
  tail, publish the parts, update the counters.
\<close>

definition heap_place ::
    "heap \<Rightarrow> mem \<Rightarrow> u64 \<Rightarrow> u64 \<Rightarrow> u64 \<Rightarrow> heap_result \<times> u64 option \<times> heap \<times> mem" where
  "heap_place h m needed cur gap =
     (let tail0 = fst (heap_tag m cur) - gap - needed;
          used = (if tail0 < HEAP_MIN then needed + tail0 else needed);
          tail = (if tail0 < HEAP_MIN then 0 else tail0);
          chosen = cur + gap;
          m1 = (if gap \<noteq> 0 then publish m cur gap True else m);
          m2 = publish m1 chosen used False;
          m3 = (if tail \<noteq> 0 then publish m2 (chosen + used) tail True else m2)
      in (HEAP_OK, Some (block_payload chosen),
          h\<lparr>h_free_blocks := h_free_blocks h - 1 + of_bool (gap \<noteq> 0) + of_bool (tail \<noteq> 0),
            h_used := h_used h + used, h_used_blocks := h_used_blocks h + 1\<rparr>, m3))"

text \<open>
  \<^verbatim>\<open>heap_alloc\<close> returns the result, the stored pointer (\<^verbatim>\<open>*out\<close>, \<open>None\<close> where it is left
  untouched), the variables and the memory; the outer \<open>None\<close> is out of fuel.
\<close>

definition heap_alloc ::
    "cpu_ctx \<Rightarrow> heap \<Rightarrow> mem \<Rightarrow> u64 \<Rightarrow> u64 \<Rightarrow> bool \<Rightarrow>
      (heap_result \<times> u64 option \<times> heap \<times> mem) option" where
  "heap_alloc c h m sz align out =
     (if \<not> foreground c then Some (HEAP_CONTEXT, None, h, m)
      else if \<not> h_ready h then Some (HEAP_NOT_READY, None, h, m)
      else if \<not> out then Some (HEAP_INVALID, None, h, m)
      else if sz = 0 \<or> NOT 0 - (HEAP_HDR + HEAP_FTR + HEAP_GRAN - 1) < sz
        then Some (HEAP_OVERFLOW, None, h, m)
      else if align < HEAP_ALIGN_MIN \<or> HEAP_ALIGN_MAX < align \<or> align AND (align - 1) \<noteq> 0
        then Some (HEAP_ALIGNMENT, None, h, m)
      else
        let needed = heap_needed sz in
        if \<not> heap_check c h m then Some (HEAP_CORRUPT, None, h, m)
        else if h_arena h < needed then Some (HEAP_OUT_OF_MEMORY, None, h, m)
        else case heap_scan (heap_fuel h) m (h_base h + h_arena h) align needed (h_base h) of
            None \<Rightarrow> None
          | Some None \<Rightarrow> Some (HEAP_OUT_OF_MEMORY, None, h, m)
          | Some (Some (cur, gap)) \<Rightarrow> Some (heap_place h m needed cur gap))"

text \<open>\<^verbatim>\<open>while (cur < target) { previous = cur; cur += hb(cur)->size; }\<close>\<close>

fun heap_seek :: "nat \<Rightarrow> mem \<Rightarrow> u64 \<Rightarrow> u64 \<Rightarrow> u64 \<Rightarrow> (u64 \<times> u64) option" where
  "heap_seek 0 m target cur previous = None"
| "heap_seek (Suc fuel) m target cur previous =
     (if cur < target then heap_seek fuel m target (cur + fst (heap_tag m cur)) cur
      else Some (cur, previous))"

definition heap_free :: "cpu_ctx \<Rightarrow> heap \<Rightarrow> mem \<Rightarrow> u64 \<Rightarrow> (heap_result \<times> heap \<times> mem) option" where
  "heap_free c h m pointer =
     (if \<not> foreground c then Some (HEAP_CONTEXT, h, m)
      else if \<not> h_ready h then Some (HEAP_NOT_READY, h, m)
      else if pointer < h_base h + HEAP_HDR \<or> h_base h + h_arena h \<le> pointer \<or>
              pointer mod HEAP_GRAN \<noteq> 0 then Some (HEAP_INVALID, h, m)
      else if \<not> heap_check c h m then Some (HEAP_CORRUPT, h, m)
      else
        let target = pointer - HEAP_HDR in
        case heap_seek (heap_fuel h) m target (h_base h) 0 of
          None \<Rightarrow> None
        | Some (cur, previous) \<Rightarrow>
            if cur \<noteq> target then Some (HEAP_INVALID, h, m)
            else if snd (heap_tag m cur) \<noteq> HEAP_MAGIC then Some (HEAP_CORRUPT, h, m)
            else
              let released = fst (heap_tag m cur);
                  next = cur + released;
                  join_next = (next < h_base h + h_arena h \<and>
                    snd (heap_tag m next) = HEAP_MAGIC OR HEAP_FREE);
                  size1 = (if join_next then released + fst (heap_tag m next) else released);
                  free1 = (if join_next then h_free_blocks h - 1 else h_free_blocks h);
                  join_prev = (previous \<noteq> 0 \<and> snd (heap_tag m previous) = HEAP_MAGIC OR HEAP_FREE);
                  size2 = (if join_prev then size1 + fst (heap_tag m previous) else size1);
                  cur2 = (if join_prev then previous else cur);
                  free2 = (if join_prev then free1 - 1 else free1)
              in Some (HEAP_OK,
                   h\<lparr>h_free_blocks := free2 + 1, h_used_blocks := h_used_blocks h - 1,
                     h_used := h_used h - released\<rparr>,
                   publish m cur2 size2 True))"

definition heap_statistics_op ::
    "cpu_ctx \<Rightarrow> heap \<Rightarrow> mem \<Rightarrow> bool \<Rightarrow> heap_result \<times> heap_statistics option" where
  "heap_statistics_op c h m out =
     (if \<not> foreground c then (HEAP_CONTEXT, None)
      else if \<not> h_ready h then (HEAP_NOT_READY, None)
      else if \<not> out then (HEAP_INVALID, None)
      else if \<not> heap_check c h m then (HEAP_CORRUPT, None)
      else (HEAP_OK, Some \<lparr>hs_arena_bytes = h_arena h, hs_mapped_bytes = h_mapped h,
        hs_used_bytes = h_used h, hs_free_bytes = h_arena h - h_used h,
        hs_allocated_blocks = h_used_blocks h, hs_free_blocks = h_free_blocks h\<rparr>))"

section \<open>The arena as a list of blocks\<close>

abbreviation (input) addr_end :: nat where "addr_end \<equiv> 18446744073709551616"

definition heap_info :: "bool \<Rightarrow> u64" where
  "heap_info free = HEAP_MAGIC OR (if free then HEAP_FREE else 0)"

lemma heap_info_simps [simp]:
  "heap_info True = HEAP_MAGIC OR HEAP_FREE" "heap_info False = HEAP_MAGIC"
  "HEAP_MAGIC OR HEAP_FREE \<noteq> HEAP_MAGIC" "HEAP_MAGIC \<noteq> HEAP_MAGIC OR HEAP_FREE"
  by (simp_all add: heap_info_def HEAP_MAGIC_def HEAP_FREE_def)

lemma heap_info_eq_iff [simp]:
  "heap_info f = HEAP_MAGIC OR HEAP_FREE \<longleftrightarrow> f" "heap_info f = HEAP_MAGIC \<longleftrightarrow> \<not> f"
  by (cases f; simp)+

fun heap_blocks_at :: "mem \<Rightarrow> nat \<Rightarrow> (nat \<times> bool) list \<Rightarrow> bool" where
  "heap_blocks_at m a [] = True"
| "heap_blocks_at m a ((s, f) # bs) =
     (48 \<le> s \<and> 16 dvd s \<and> heap_tag m (of_nat a) = (of_nat s, heap_info f) \<and>
      heap_tag m (of_nat (a + s - 16)) = (of_nat s, heap_info f) \<and> heap_blocks_at m (a + s) bs)"

definition blocks_size :: "(nat \<times> bool) list \<Rightarrow> nat" where
  "blocks_size bs = sum_list (map fst bs)"

lemma blocks_size_simps [simp]:
  "blocks_size [] = 0" "blocks_size (b # bs) = fst b + blocks_size bs"
  "blocks_size (xs @ ys) = blocks_size xs + blocks_size ys"
  by (simp_all add: blocks_size_def)

lemma heap_blocks_append:
  "heap_blocks_at m a (xs @ ys) \<longleftrightarrow> heap_blocks_at m a xs \<and> heap_blocks_at m (a + blocks_size xs) ys"
  by (induction xs arbitrary: a) (auto simp: add.assoc)

lemma heap_blocks_size: "heap_blocks_at m a bs \<Longrightarrow> 48 * length bs \<le> blocks_size bs"
  by (induction bs arbitrary: a) (auto, fastforce)

lemma heap_blocks_dvd: "heap_blocks_at m a bs \<Longrightarrow> 16 dvd blocks_size bs"
  by (induction bs arbitrary: a) auto

text \<open>Tags written and read at numeric addresses.\<close>

lemma of_nat_plus_8: "of_nat a + 8 = (of_nat (a + 8) :: u64)"
  by simp

lemma heap_tag_set_same:
  assumes "a + 16 \<le> addr_end"
  shows "heap_tag (heap_set_tag m (of_nat a) t) (of_nat a) = t"
  using assms unfolding heap_tag_def heap_set_tag_def of_nat_plus_8
  by (simp add: read64_write64_nat del: of_nat_add)

lemma heap_tag_set_other:
  assumes "a + 16 \<le> b \<or> b + 16 \<le> a" and "a + 16 \<le> addr_end" and "b + 16 \<le> addr_end"
  shows "heap_tag (heap_set_tag m (of_nat a) t) (of_nat b) = heap_tag m (of_nat b)"
  using assms unfolding heap_tag_def heap_set_tag_def of_nat_plus_8
  by (auto simp: read64_write64_nat simp del: of_nat_add)

lemma heap_set_tag_frame:
  assumes "x < a \<or> a + 16 \<le> x" and "a + 16 \<le> addr_end" and "x < addr_end"
  shows "heap_set_tag m (of_nat a) t (of_nat x) = m (of_nat x)"
  using assms unfolding heap_set_tag_def of_nat_plus_8
  by (auto simp: write64_frame simp del: of_nat_add)

lemma publish_nat:
  assumes "16 \<le> s"
  shows "publish m (of_nat a) (of_nat s) f =
    heap_set_tag (heap_set_tag m (of_nat a) (of_nat s, heap_info f)) (of_nat (a + s - 16))
      (of_nat s, heap_info f)"
proof -
  have "of_nat a + of_nat s - HEAP_FTR = (of_nat (a + s - 16) :: u64)"
    using assms by (simp add: HEAP_FTR_def of_nat_diff)
  then show ?thesis unfolding publish_def heap_info_def Let_def by simp
qed

lemma publish_block:
  assumes "48 \<le> s" and "16 dvd s" and "a + s \<le> addr_end"
  shows "heap_blocks_at (publish m (of_nat a) (of_nat s) f) a [(s, f)]"
  using assms
  by (simp add: publish_nat heap_tag_set_same heap_tag_set_other del: of_nat_add of_nat_diff)

lemma publish_tag:
  assumes "x + 16 \<le> p \<or> p + s \<le> x" and "32 \<le> s" and "p + s \<le> addr_end" and "x + 16 \<le> addr_end"
  shows "heap_tag (publish m (of_nat p) (of_nat s) f) (of_nat x) = heap_tag m (of_nat x)"
  using assms
  by (auto simp: publish_nat heap_tag_set_other simp del: of_nat_add of_nat_diff)

lemma publish_frame:
  assumes "heap_blocks_at m a bs" and "p + s \<le> a \<or> a + blocks_size bs \<le> p" and "32 \<le> s"
    and "p + s \<le> addr_end" and "a + blocks_size bs \<le> addr_end"
  shows "heap_blocks_at (publish m (of_nat p) (of_nat s) f) a bs"
  using assms(1,2,5)
proof (induction bs arbitrary: a)
  case (Cons b bs)
  obtain k g where b: "b = (k, g)" by (cases b)
  from Cons.prems b assms(3,4) have "heap_blocks_at (publish m (of_nat p) (of_nat s) f) (a + k) bs"
    by (intro Cons.IH) (auto simp: add.assoc)
  moreover have "heap_tag (publish m (of_nat p) (of_nat s) f) (of_nat x) = heap_tag m (of_nat x)"
    if "x = a \<or> x = a + k - 16" for x
    using that Cons.prems b assms(3,4) by (intro publish_tag) auto
  ultimately show ?case using Cons.prems b by (simp del: of_nat_add of_nat_diff)
qed simp

lemma publish_bytes:
  assumes "x < p \<or> p + 16 \<le> x \<and> x < p + s - 16 \<or> p + s \<le> x" and "32 \<le> s"
    and "p + s \<le> addr_end" and "x < addr_end"
  shows "publish m (of_nat p) (of_nat s) f (of_nat x) = m (of_nat x)"
  using assms by (auto simp: publish_nat heap_set_tag_frame simp del: of_nat_add of_nat_diff)

text \<open>What \<^verbatim>\<open>heap_check\<close> counts: bytes in used blocks, used blocks, free blocks.\<close>

definition used_size :: "(nat \<times> bool) list \<Rightarrow> nat" where
  "used_size bs = blocks_size (filter (\<lambda>b. \<not> snd b) bs)"

definition used_count :: "(nat \<times> bool) list \<Rightarrow> nat" where
  "used_count bs = length (filter (\<lambda>b. \<not> snd b) bs)"

definition free_count :: "(nat \<times> bool) list \<Rightarrow> nat" where
  "free_count bs = length (filter snd bs)"

lemma block_counts [simp]:
  "used_size [] = 0" "used_size ((s, f) # bs) = (if f then 0 else s) + used_size bs"
  "used_size (xs @ ys) = used_size xs + used_size ys"
  "used_count [] = 0" "used_count ((s, f) # bs) = (if f then 0 else 1) + used_count bs"
  "used_count (xs @ ys) = used_count xs + used_count ys"
  "free_count [] = 0" "free_count ((s, f) # bs) = (if f then 1 else 0) + free_count bs"
  "free_count (xs @ ys) = free_count xs + free_count ys"
  by (simp_all add: used_size_def used_count_def free_count_def)

lemma block_counts_le:
  "used_size bs \<le> blocks_size bs" "used_count bs + free_count bs = length bs"
  by (induction bs) auto

fun no_adjacent_free :: "bool \<Rightarrow> (nat \<times> bool) list \<Rightarrow> bool" where
  "no_adjacent_free p [] = True"
| "no_adjacent_free p ((s, f) # bs) = (\<not> (p \<and> f) \<and> no_adjacent_free f bs)"

lemma no_adjacent_free_append:
  "no_adjacent_free p (xs @ ys) \<longleftrightarrow>
    no_adjacent_free p xs \<and> no_adjacent_free (if xs = [] then p else snd (last xs)) ys"
  by (induction xs arbitrary: p) auto

lemma no_adjacent_free_mono: "no_adjacent_free p bs \<Longrightarrow> (q \<Longrightarrow> p) \<Longrightarrow> no_adjacent_free q bs"
  by (cases bs) auto

text \<open>The head of a list of blocks, in the code's arithmetic.\<close>

lemma heap_block_head:
  assumes "heap_blocks_at m (unat cursor) ((s, f) # bs)"
    and "unat cursor + blocks_size ((s, f) # bs) = unat end"
  shows "cursor < end" "heap_tag m cursor = (of_nat s, heap_info f)" "unat (of_nat s :: u64) = s"
    "unat (cursor + of_nat s) = unat cursor + s" "unat (end - cursor) = s + blocks_size bs"
    "heap_tag m (cursor + of_nat s - HEAP_FTR) = (of_nat s, heap_info f)"
    "heap_blocks_at m (unat (cursor + of_nat s)) bs"
    "unat (cursor + of_nat s) + blocks_size bs = unat end" "48 \<le> s" "16 dvd s"
proof -
  from assms have s: "48 \<le> s" "16 dvd s" and t: "heap_tag m cursor = (of_nat s, heap_info f)"
    and ft: "heap_tag m (of_nat (unat cursor + s - 16)) = (of_nat s, heap_info f)" by auto
  show us: "unat (of_nat s :: u64) = s"
    using assms(2) unat_lt_u64 [of "end"] by (intro unat_of_nat_small) (simp del: unat_lt_u64)
  show uc: "unat (cursor + of_nat s) = unat cursor + s"
    using unat_add_within [of cursor "end" "of_nat s"] assms(2) us by simp
  have "cursor + of_nat s - HEAP_FTR = of_nat (unat cursor + s - 16)"
    using s by (simp add: HEAP_FTR_def of_nat_diff)
  with ft show "heap_tag m (cursor + of_nat s - HEAP_FTR) = (of_nat s, heap_info f)" by simp
  show "unat (end - cursor) = s + blocks_size bs"
    using assms(2) by (subst unat_diff_nowrap) simp_all
  show "cursor < end" using assms(2) s by (simp add: word_less_nat_alt)
  show "heap_blocks_at m (unat (cursor + of_nat s)) bs"
    and "unat (cursor + of_nat s) + blocks_size bs = unat end"
    using assms uc by (auto simp: add.assoc)
qed (use assms in auto)

lemma heap_walk_complete:
  assumes "heap_blocks_at m (unat cursor) bs" and "unat cursor + blocks_size bs = unat end"
    and "no_adjacent_free prev bs" and "h_mapped h = h_arena h"
    and "h_used h = used + of_nat (used_size bs)"
    and "h_used_blocks h = allocated + of_nat (used_count bs)"
    and "h_free_blocks h = frees + of_nat (free_count bs)"
  shows "heap_walk m h end cursor used allocated frees prev"
  using assms
proof (induction bs arbitrary: cursor used allocated frees prev)
  case Nil
  then have "cursor = end" by (simp add: word_unat_eq_iff)
  with Nil show ?case by (subst heap_walk.simps) simp
next
  case (Cons b bs)
  obtain s f where b: "b = (s, f)" by (cases b)
  note hd = heap_block_head [OF Cons.prems(1,2) [unfolded b]]
  have "of_nat s mod HEAP_GRAN = 0" "HEAP_MIN \<le> of_nat s" "HEAP_MIN \<le> end - cursor" "of_nat s \<le> end - cursor"
    using hd(3,5,9,10) by (simp_all add: word_order_unat unat_mod HEAP_GRAN_def HEAP_MIN_def)
  moreover have "heap_walk m h end (cursor + of_nat s) (if f then used else used + of_nat s)
      (if f then allocated else allocated + 1) (if f then frees + 1 else frees) f"
    using Cons.prems(3-) b by (intro Cons.IH hd(7,8)) (auto simp: algebra_simps)
  ultimately show ?case
    using hd(1,2,6) Cons.prems(3) b by (subst heap_walk.simps) (auto simp: Let_def not_less)
qed

lemma heap_walk_sound:
  assumes "heap_walk m h end cursor used allocated frees prev" and "cursor \<le> end"
  shows "\<exists>bs. heap_blocks_at m (unat cursor) bs \<and> unat cursor + blocks_size bs = unat end \<and>
      no_adjacent_free prev bs \<and> h_used h = used + of_nat (used_size bs) \<and>
      h_used_blocks h = allocated + of_nat (used_count bs) \<and>
      h_free_blocks h = frees + of_nat (free_count bs) \<and> h_mapped h = h_arena h"
  using assms
proof (induction "unat end - unat cursor" arbitrary: cursor used allocated frees prev
    rule: less_induct)
  case less
  show ?case
  proof (cases "cursor < end")
    case False
    with less.prems show ?thesis by (subst (asm) heap_walk.simps) (intro exI [of _ "[]"], auto)
  next
    case True
    let ?s = "fst (heap_tag m cursor)" and ?i = "snd (heap_tag m cursor)"
    define f where "f = (?i = HEAP_MAGIC OR HEAP_FREE)"
    have g: "HEAP_MIN \<le> ?s" "?s mod HEAP_GRAN = 0" "?s \<le> end - cursor" "?i = heap_info f"
      "heap_tag m (cursor + ?s - HEAP_FTR) = (?s, heap_info f)" "\<not> (prev \<and> f)"
      and rest: "heap_walk m h end (cursor + ?s) (if f then used else used + ?s)
        (if f then allocated else allocated + 1) (if f then frees + 1 else frees) f"
      using less.prems(1) True f_def
      by (auto simp: heap_walk.simps [of m h "end" cursor] Let_def not_less prod_eq_iff split: if_splits)
    have s: "48 \<le> unat ?s" "16 dvd unat ?s" "unat ?s \<le> unat end - unat cursor" "unat cursor < unat end"
      using g(1-3) True by (auto simp: word_order_unat unat_mod unat_diff_nowrap HEAP_MIN_def HEAP_GRAN_def)
    have c: "unat (cursor + ?s) = unat cursor + unat ?s"
      using unat_add_within [of cursor "end" ?s] s by simp
    have ft: "of_nat (unat cursor + unat ?s - 16) = cursor + ?s - HEAP_FTR"
      using s by (simp add: HEAP_FTR_def of_nat_diff)
    have "unat end - unat (cursor + ?s) < unat end - unat cursor" "cursor + ?s \<le> end"
      using s c by (auto simp: word_le_nat_alt)
    from less.hyps [OF this(1) rest this(2)] obtain bs where "heap_blocks_at m (unat (cursor + ?s)) bs"
      "unat (cursor + ?s) + blocks_size bs = unat end" "no_adjacent_free f bs"
      "h_used h = (if f then used else used + ?s) + of_nat (used_size bs)"
      "h_used_blocks h = (if f then allocated else allocated + 1) + of_nat (used_count bs)"
      "h_free_blocks h = (if f then frees + 1 else frees) + of_nat (free_count bs)"
      "h_mapped h = h_arena h" by blast
    moreover have "heap_tag m cursor = (?s, heap_info f)" using g(4) by (simp add: prod_eq_iff)
    ultimately show ?thesis
      using g(5,6) s c unfolding ft [symmetric]
      by (intro exI [of _ "(unat ?s, f) # bs"]) (auto simp del: of_nat_diff simp: add.assoc)
  qed
qed

section \<open>The representation invariant\<close>

text \<open>The arena's place and size, which no operation assigns.\<close>

definition heap_wf :: "heap \<Rightarrow> bool" where
  "heap_wf h \<longleftrightarrow> h_base h = HEAP_BASE \<and> h_arena h = HEAP_ARENA_BYTES"

lemma heap_wf_nat:
  assumes "heap_wf h"
  shows "unat (h_base h) = 18446673704965373952" "unat (h_arena h) = 65536"
    "unat (h_base h + h_arena h) = 18446673704965439488"
  using assms by (simp_all add: heap_wf_def HEAP_BASE_def HEAP_ARENA_BYTES_def)

definition heap_repr :: "heap \<Rightarrow> mem \<Rightarrow> (nat \<times> bool) list \<Rightarrow> bool" where
  "heap_repr h m bs \<longleftrightarrow>
     heap_blocks_at m (unat (h_base h)) bs \<and> blocks_size bs = unat (h_arena h) \<and>
     no_adjacent_free False bs \<and> unat (h_used h) = used_size bs \<and>
     unat (h_used_blocks h) = used_count bs \<and> unat (h_free_blocks h) = free_count bs \<and>
     h_mapped h = h_arena h"

lemma heap_check_iff:
  assumes "heap_wf h"
  shows "heap_check c h m \<longleftrightarrow> foreground c \<and> h_ready h \<and> (\<exists>bs. heap_repr h m bs)"
proof -
  note wf = heap_wf_nat [OF assms]
  let ?e = "h_base h + h_arena h"
  have le: "h_base h \<le> ?e" by (simp add: word_le_nat_alt wf)
  have small: "w = 0 + of_nat k \<longleftrightarrow> unat w = k" if "k \<le> 65536" for w :: u64 and k
    using that by (auto simp: word_unat_eq_iff unat_simps)
  have cnt: "used_size bs \<le> 65536 \<and> used_count bs \<le> 65536 \<and> free_count bs \<le> 65536"
    if "heap_blocks_at m (unat (h_base h)) bs" "blocks_size bs = 65536" for bs
    using heap_blocks_size [OF that(1)] that(2) block_counts_le [of bs] by auto
  have size: "unat (h_base h) + blocks_size bs = unat ?e \<longleftrightarrow> blocks_size bs = 65536" for bs
    by (simp add: wf)
  have "heap_walk m h ?e (h_base h) 0 0 0 False \<longleftrightarrow> (\<exists>bs. heap_repr h m bs)"
  proof
    assume "heap_walk m h ?e (h_base h) 0 0 0 False"
    from heap_walk_sound [OF this le] obtain bs where bs: "heap_blocks_at m (unat (h_base h)) bs"
      "blocks_size bs = 65536" "no_adjacent_free False bs" "h_used h = 0 + of_nat (used_size bs)"
      "h_used_blocks h = 0 + of_nat (used_count bs)" "h_free_blocks h = 0 + of_nat (free_count bs)"
      "h_mapped h = h_arena h" unfolding size by blast
    with cnt [OF bs(1,2)] show "\<exists>bs. heap_repr h m bs"
      unfolding heap_repr_def by (intro exI [of _ bs]) (simp only: small wf)
  next
    assume "\<exists>bs. heap_repr h m bs"
    then obtain bs where bs: "heap_repr h m bs" ..
    then have "heap_blocks_at m (unat (h_base h)) bs" "blocks_size bs = 65536"
      by (auto simp: heap_repr_def wf)
    from cnt [OF this] bs have "h_used h = 0 + of_nat (used_size bs)"
      "h_used_blocks h = 0 + of_nat (used_count bs)" "h_free_blocks h = 0 + of_nat (free_count bs)"
      by (simp_all only: small heap_repr_def)
    with bs show "heap_walk m h ?e (h_base h) 0 0 0 False"
      by (intro heap_walk_complete [of m _ bs]) (auto simp: heap_repr_def wf)
  qed
  then show ?thesis by (simp add: heap_check_def)
qed

section \<open>Placement\<close>

lemma heap_needed_nat:
  assumes "unat sz \<le> 18446744073709551568"
  shows "unat (heap_needed sz) = (unat sz + 15) div 16 * 16 + 32"
proof -
  have m: "HEAP_GRAN - 1 = mask 4" by (simp add: HEAP_GRAN_def mask_eq_exp_minus_1)
  have "unat (sz + HEAP_GRAN - 1) = unat sz + 15"
    using assms by (simp add: HEAP_GRAN_def unat_simps)
  then have r: "unat ((sz + HEAP_GRAN - 1) AND NOT (HEAP_GRAN - 1)) = (unat sz + 15) div 16 * 16"
    unfolding m by (simp add: unat_and_not_mask)
  have "(unat sz + 15) div 16 * 16 \<le> 18446744073709551583" using assms by linarith
  with r show ?thesis
    unfolding heap_needed_def by (simp add: HEAP_HDR_def HEAP_FTR_def unat_simps)
qed

lemma heap_gap_aux:
  assumes "8 \<le> unat align" and "unat align \<le> 4096" and "unat gap < 4144"
  shows "unat (heap_gap align gap) mod unat align = unat gap mod unat align \<and>
    (unat (heap_gap align gap) = 0 \<or> 48 \<le> unat (heap_gap align gap)) \<and>
    (\<forall>x. x mod unat align = unat gap mod unat align \<longrightarrow> x = 0 \<or> 48 \<le> x \<longrightarrow>
      unat gap \<le> x \<longrightarrow> unat (heap_gap align gap) \<le> x)"
  using assms
proof (induction align gap rule: heap_gap.induct)
  case (1 align gap)
  let ?A = "unat align" and ?g = "unat gap"
  have al: "HEAP_ALIGN_MIN \<le> align" "align \<le> HEAP_ALIGN_MAX"
    using "1.prems" by (simp_all add: word_le_nat_alt HEAP_ALIGN_MIN_def HEAP_ALIGN_MAX_def)
  show ?case
  proof (cases "gap \<noteq> 0 \<and> gap < HEAP_MIN")
    case False
    then have "heap_gap align gap = gap" by (subst heap_gap.simps) auto
    with False show ?thesis by (auto simp: word_order_unat HEAP_MIN_def)
  next
    case True
    then have eq: "heap_gap align gap = heap_gap align (gap + align)"
      using al by (subst heap_gap.simps) simp
    from True have g: "0 < ?g" "?g < 48" by (auto simp: word_order_unat HEAP_MIN_def)
    with "1.prems" have u: "unat (gap + align) = ?g + ?A" by (intro unat_add_nowrap) simp
    from "1.IH" True al g u "1.prems" have ih:
      "unat (heap_gap align (gap + align)) mod ?A = (?g + ?A) mod ?A"
      "unat (heap_gap align (gap + align)) = 0 \<or> 48 \<le> unat (heap_gap align (gap + align))"
      "\<And>x. x mod ?A = (?g + ?A) mod ?A \<Longrightarrow> x = 0 \<or> 48 \<le> x \<Longrightarrow> ?g + ?A \<le> x \<Longrightarrow>
        unat (heap_gap align (gap + align)) \<le> x" by auto
    have "?g + ?A \<le> x" if "x mod ?A = ?g mod ?A" "x = 0 \<or> 48 \<le> x" "?g \<le> x" for x
    proof -
      have "?A dvd x - ?g" using that by (metis mod_eq_dvd_iff_nat)
      moreover have "0 < x - ?g" using that g by auto
      ultimately have "?A \<le> x - ?g" by (rule dvd_imp_le)
      with that(3) show ?thesis by simp
    qed
    with ih show ?thesis unfolding eq by simp
  qed
qed

lemma mod_add_left_cancel_nat: "(p + x) mod A = (p + y) mod A \<longleftrightarrow> x mod A = y mod (A :: nat)"
proof (induction x y rule: linorder_wlog)
  case (le x y)
  have "(p + x) mod A = (p + y) mod A \<longleftrightarrow> A dvd (p + y) - (p + x)"
    using mod_eq_dvd_iff_nat [of "p + x" "p + y" A] le by auto
  also have "\<dots> \<longleftrightarrow> x mod A = y mod A" using mod_eq_dvd_iff_nat [of x y A] le by auto
  finally show ?case .
qed auto

lemma padding_dvd:
  assumes "0 < A"
  shows "A dvd P + x \<longleftrightarrow> x mod A = (A - P mod A) mod (A :: nat)"
proof -
  have "(P + (A - P mod A)) mod A = (P mod A + (A - P mod A)) mod A" by (simp add: mod_add_left_eq)
  also have "\<dots> = 0" using assms by (simp add: less_imp_le)
  finally have "A dvd P + x \<longleftrightarrow> (P + x) mod A = (P + (A - P mod A)) mod A"
    by (simp add: dvd_eq_mod_eq_0)
  then show ?thesis by (simp only: mod_add_left_cancel_nat)
qed

text \<open>
  The placement the code computes is the least one: the smallest gap that is empty or holds a
  block, and puts the payload on the alignment.
\<close>

definition heap_places :: "u64 \<Rightarrow> u64 \<Rightarrow> u64 \<Rightarrow> u64 \<Rightarrow> nat \<Rightarrow> bool" where
  "heap_places align needed cur sz x \<longleftrightarrow>
     (x = 0 \<or> 48 \<le> x) \<and> unat align dvd unat cur + 16 + x \<and> x + unat needed \<le> unat sz"

lemma heap_fit_spec:
  assumes A: "8 \<le> unat align" "unat align \<le> 4096" and c: "unat cur + 16 < 2 ^ 64"
  shows "heap_fit align needed cur sz = Some g \<Longrightarrow> heap_places align needed cur sz (unat g)"
    and "heap_fit align needed cur sz = Some g \<Longrightarrow> x = 0 \<or> 48 \<le> x \<Longrightarrow>
      unat align dvd unat cur + 16 + x \<Longrightarrow> unat g \<le> x"
    and "heap_fit align needed cur sz = None \<Longrightarrow> \<not> heap_places align needed cur sz x"
proof -
  let ?A = "unat align" and ?P = "unat cur + 16"
  define g0 where "g0 = (align - block_payload cur mod align) mod align"
  have p: "unat (block_payload cur) = ?P"
    using c by (simp add: block_payload_def HEAP_HDR_def unat_simps)
  have g0: "unat g0 = (?A - ?P mod ?A) mod ?A"
    using A by (simp add: g0_def unat_mod unat_diff_nowrap p less_imp_le)
  then have g0A: "unat g0 < ?A" using A by simp
  have on: "?A dvd ?P + x \<longleftrightarrow> x mod ?A = unat g0 mod ?A" for x
    using padding_dvd [of ?A ?P x] A(1) by (simp add: g0)
  have "unat g0 < 4144" using g0A A(2) by simp
  note aux = heap_gap_aux [OF A this]
  let ?h = "heap_gap align g0"
  have fit: "heap_fit align needed cur sz =
      (if unat sz < unat ?h + unat needed then None else Some ?h)"
    by (auto simp: heap_fit_def Let_def g0_def [symmetric] word_less_nat_alt unat_diff_nowrap not_less)
  show "heap_fit align needed cur sz = Some g \<Longrightarrow> heap_places align needed cur sz (unat g)"
    using aux g0A A(2) fit on [of "unat ?h"]
    by (auto simp: heap_places_def split: if_splits)
  have least: "unat ?h \<le> x" if "x = 0 \<or> 48 \<le> x" "?A dvd ?P + x" for x
  proof -
    from that on have x: "x mod ?A = unat g0 mod ?A" by blast
    then have "unat g0 \<le> x" using g0A mod_less_eq_dividend [of x ?A] by simp
    with that(1) x aux show ?thesis by blast
  qed
  show "heap_fit align needed cur sz = Some g \<Longrightarrow> x = 0 \<or> 48 \<le> x \<Longrightarrow>
      unat align dvd unat cur + 16 + x \<Longrightarrow> unat g \<le> x"
    using least [of x] fit by (auto split: if_splits)
  show "heap_fit align needed cur sz = None \<Longrightarrow> \<not> heap_places align needed cur sz x"
  proof
    assume none: "heap_fit align needed cur sz = None" and pl: "heap_places align needed cur sz x"
    then have "unat ?h \<le> x" by (intro least) (auto simp: heap_places_def)
    with none pl show False by (auto simp: fit heap_places_def split: if_splits)
  qed
qed

section \<open>The scans\<close>

fun first_fit :: "u64 \<Rightarrow> u64 \<Rightarrow> u64 \<Rightarrow> (nat \<times> bool) list \<Rightarrow> (u64 \<times> u64) option" where
  "first_fit align needed cur [] = None"
| "first_fit align needed cur ((s, f) # bs) =
     (case if f then heap_fit align needed cur (of_nat s) else None of
        Some gap \<Rightarrow> Some (cur, gap)
      | None \<Rightarrow> first_fit align needed (cur + of_nat s) bs)"

lemma heap_scan_first_fit:
  assumes "heap_blocks_at m (unat cur) bs" and "unat cur + blocks_size bs = unat end"
    and "length bs < fuel"
  shows "heap_scan fuel m end align needed cur = Some (first_fit align needed cur bs)"
  using assms
proof (induction fuel arbitrary: cur bs)
  case (Suc fuel)
  show ?case
  proof (cases bs)
    case Nil
    with Suc.prems have "\<not> cur < end" by (simp add: word_less_nat_alt)
    with Nil show ?thesis by simp
  next
    case (Cons b bs')
    obtain s f where b: "b = (s, f)" by (cases b)
    note hd = heap_block_head [OF Suc.prems(1,2) [unfolded Cons b]]
    have "heap_scan fuel m end align needed (cur + of_nat s) =
        Some (first_fit align needed (cur + of_nat s) bs')"
      using Suc.prems(3) Cons by (intro Suc.IH hd(7,8)) simp
    then show ?thesis using hd(1) Cons b by (simp add: hd(2) split: option.split)
  qed
qed simp

lemma first_fit_Some:
  assumes "first_fit align needed cur bs = Some (p, g)"
  obtains xs s ys where "bs = xs @ (s, True) # ys" "p = cur + of_nat (blocks_size xs)"
    "heap_fit align needed p (of_nat s) = Some g"
proof -
  have "\<exists>xs s ys. bs = xs @ (s, True) # ys \<and> p = cur + of_nat (blocks_size xs) \<and>
      heap_fit align needed p (of_nat s) = Some g"
    using assms
  proof (induction bs arbitrary: cur)
    case (Cons b bs)
    obtain s f where b: "b = (s, f)" by (cases b)
    show ?case
    proof (cases "if f then heap_fit align needed cur (of_nat s) else None")
      case (Some g')
      with Cons.prems b have "f" "p = cur" "heap_fit align needed cur (of_nat s) = Some g"
        by (auto split: if_splits)
      with b have "b # bs = [] @ (s, True) # bs" "p = cur + of_nat (blocks_size [])"
        "heap_fit align needed p (of_nat s) = Some g" by simp_all
      then show ?thesis by blast
    next
      case None
      with Cons.prems b have "first_fit align needed (cur + of_nat s) bs = Some (p, g)" by simp
      from Cons.IH [OF this] obtain xs s' ys where "bs = xs @ (s', True) # ys"
        "p = cur + of_nat s + of_nat (blocks_size xs)" "heap_fit align needed p (of_nat s') = Some g"
        by blast
      with b have "b # bs = ((s, f) # xs) @ (s', True) # ys"
        "p = cur + of_nat (blocks_size ((s, f) # xs))" "heap_fit align needed p (of_nat s') = Some g"
        by (simp_all add: add.assoc)
      then show ?thesis by blast
    qed
  qed simp
  with that show thesis by blast
qed

lemma first_fit_None:
  assumes "first_fit align needed cur bs = None" and "bs = xs @ (s, True) # ys"
  shows "heap_fit align needed (cur + of_nat (blocks_size xs)) (of_nat s) = None"
  using assms
proof (induction bs arbitrary: cur xs)
  case (Cons b bs)
  obtain k f where b: "b = (k, f)" by (cases b)
  from Cons.prems(1) b have hd: "f \<Longrightarrow> heap_fit align needed cur (of_nat k) = None"
    and tl: "first_fit align needed (cur + of_nat k) bs = None"
    by (auto split: option.splits if_splits)
  show ?case
  proof (cases xs)
    case Nil
    with Cons.prems(2) b hd show ?thesis by simp
  next
    case (Cons x xs')
    with Cons.prems(2) b Cons.IH [OF tl, of xs'] show ?thesis by (auto simp: add.assoc)
  qed
qed simp

lemma heap_seek_spec:
  assumes "heap_blocks_at m (unat cur) bs" and "unat cur + blocks_size bs = unat end"
    and "length bs < fuel" and "target < end"
  shows "\<exists>xs ys. bs = xs @ ys \<and> heap_seek fuel m target cur prev =
      Some (cur + of_nat (blocks_size xs),
        if xs = [] then prev else cur + of_nat (blocks_size (butlast xs))) \<and>
    target \<le> cur + of_nat (blocks_size xs) \<and>
    (xs \<noteq> [] \<longrightarrow> cur + of_nat (blocks_size (butlast xs)) < target)"
  using assms
proof (induction fuel arbitrary: cur bs prev)
  case (Suc fuel)
  show ?case
  proof (cases "cur < target")
    case False
    moreover from this have "target \<le> cur" by simp
    ultimately show ?thesis by - (rule exI [of _ "[]"], rule exI [of _ bs], simp)
  next
    case True
    with Suc.prems have "bs \<noteq> []" by (auto simp: word_less_nat_alt)
    then obtain s f bs' where bs: "bs = (s, f) # bs'" by (cases bs) auto
    note hd = heap_block_head [OF Suc.prems(1,2) [unfolded bs]]
    have "length bs' < fuel" using Suc.prems(3) bs by simp
    from Suc.IH [OF hd(7,8) this Suc.prems(4), of cur] obtain xs ys where
      ih: "bs' = xs @ ys" "heap_seek fuel m target (cur + of_nat s) cur =
        Some (cur + of_nat s + of_nat (blocks_size xs),
          if xs = [] then cur else cur + of_nat s + of_nat (blocks_size (butlast xs)))"
      "target \<le> cur + of_nat s + of_nat (blocks_size xs)"
      "xs \<noteq> [] \<longrightarrow> cur + of_nat s + of_nat (blocks_size (butlast xs)) < target" by blast
    have "bs = ((s, f) # xs) @ ys" using bs ih(1) by simp
    moreover have "heap_seek (Suc fuel) m target cur prev =
        Some (cur + of_nat (blocks_size ((s, f) # xs)),
          cur + of_nat (blocks_size (butlast ((s, f) # xs))))"
      using True hd(2) ih(2) by (simp add: add.assoc)
    moreover have "target \<le> cur + of_nat (blocks_size ((s, f) # xs))"
      using ih(3) by (simp add: add.assoc)
    moreover have "cur + of_nat (blocks_size (butlast ((s, f) # xs))) < target"
      using True ih(4) by (simp add: add.assoc)
    ultimately show ?thesis by - (rule exI [of _ "(s, f) # xs"], rule exI [of _ ys], simp)
  qed
qed simp

section \<open>Live payloads\<close>

text \<open>The block list read back from memory, and the payload ranges handed out.\<close>

fun heap_parse :: "nat \<Rightarrow> mem \<Rightarrow> u64 \<Rightarrow> u64 \<Rightarrow> (nat \<times> bool) list" where
  "heap_parse 0 m end cur = []"
| "heap_parse (Suc fuel) m end cur =
     (if cur < end then
        (unat (fst (heap_tag m cur)), snd (heap_tag m cur) = HEAP_MAGIC OR HEAP_FREE) #
        heap_parse fuel m end (cur + fst (heap_tag m cur))
      else [])"

definition heap_blocks :: "heap \<Rightarrow> mem \<Rightarrow> (nat \<times> bool) list" where
  "heap_blocks h m = heap_parse (heap_fuel h) m (h_base h + h_arena h) (h_base h)"

fun heap_payloads :: "nat \<Rightarrow> (nat \<times> bool) list \<Rightarrow> (nat \<times> nat) list" where
  "heap_payloads a [] = []"
| "heap_payloads a ((s, f) # bs) =
     (if f then heap_payloads (a + s) bs else (a + 16, s - 32) # heap_payloads (a + s) bs)"

definition heap_live :: "heap \<Rightarrow> mem \<Rightarrow> (nat \<times> nat) set" where
  "heap_live h m = set (heap_payloads (unat (h_base h)) (heap_blocks h m))"

lemma heap_parse_blocks:
  assumes "heap_blocks_at m (unat cur) bs" and "unat cur + blocks_size bs = unat end"
    and "length bs < fuel"
  shows "heap_parse fuel m end cur = bs"
  using assms
proof (induction fuel arbitrary: cur bs)
  case (Suc fuel)
  show ?case
  proof (cases bs)
    case Nil
    with Suc.prems have "\<not> cur < end" by (simp add: word_less_nat_alt)
    with Nil show ?thesis by simp
  next
    case (Cons b bs')
    obtain s f where b: "b = (s, f)" by (cases b)
    note hd = heap_block_head [OF Suc.prems(1,2) [unfolded Cons b]]
    have "heap_parse fuel m end (cur + of_nat s) = bs'"
      using Suc.prems(3) Cons by (intro Suc.IH hd(7,8)) simp
    then show ?thesis using hd(1,3) Cons b by (simp add: hd(2))
  qed
qed simp

lemma heap_repr_nat:
  assumes "heap_wf h" and "heap_repr h m bs"
  shows "heap_blocks_at m (unat (h_base h)) bs" "blocks_size bs = 65536"
    "unat (h_base h) + blocks_size bs = unat (h_base h + h_arena h)" "length bs < heap_fuel h"
proof -
  show b: "heap_blocks_at m (unat (h_base h)) bs" and s: "blocks_size bs = 65536"
    using assms heap_wf_nat [OF assms(1)] by (auto simp: heap_repr_def)
  then show "unat (h_base h) + blocks_size bs = unat (h_base h + h_arena h)"
    using heap_wf_nat [OF assms(1)] by simp
  have "48 * length bs \<le> 65536" using heap_blocks_size [OF b] s by simp
  then show "length bs < heap_fuel h"
    using heap_wf_nat [OF assms(1)] unfolding heap_fuel_def by linarith
qed

lemma heap_blocks_repr:
  "heap_wf h \<Longrightarrow> heap_repr h m bs \<Longrightarrow> heap_blocks h m = bs"
  unfolding heap_blocks_def using heap_repr_nat by (intro heap_parse_blocks) auto

lemma heap_payloads_append [simp]:
  "heap_payloads a (xs @ ys) = heap_payloads a xs @ heap_payloads (a + blocks_size xs) ys"
  by (induction xs arbitrary: a) (auto simp: add.assoc)

lemma heap_payloads_bounds:
  assumes "heap_blocks_at m a bs" and "(q, k) \<in> set (heap_payloads a bs)"
  shows "a + 16 \<le> q \<and> q + k + 16 \<le> a + blocks_size bs"
  using assms
proof (induction bs arbitrary: a)
  case (Cons b bs)
  then show ?case by (cases b) (fastforce split: if_splits)
qed simp

lemma heap_payloads_split:
  assumes "(q, k) \<in> set (heap_payloads a bs)" and "heap_blocks_at m a bs"
  obtains xs ys where "bs = xs @ (k + 32, False) # ys" "q = a + blocks_size xs + 16"
proof -
  have "\<exists>xs ys. bs = xs @ (k + 32, False) # ys \<and> q = a + blocks_size xs + 16"
    using assms
  proof (induction bs arbitrary: a)
    case (Cons b bs)
    obtain s f where b: "b = (s, f)" by (cases b)
    show ?case
    proof (cases "\<not> f \<and> (q, k) = (a + 16, s - 32)")
      case True
      with b Cons.prems have "b # bs = [] @ (k + 32, False) # bs" "q = a + blocks_size [] + 16" by auto
      then show ?thesis by blast
    next
      case False
      with Cons.prems b have "(q, k) \<in> set (heap_payloads (a + s) bs)" "heap_blocks_at m (a + s) bs"
        by (auto split: if_splits)
      from Cons.IH [OF this] obtain xs ys where
        "bs = xs @ (k + 32, False) # ys" "q = a + s + blocks_size xs + 16" by blast
      with b have "b # bs = (b # xs) @ (k + 32, False) # ys" "q = a + blocks_size (b # xs) + 16"
        by simp_all
      then show ?thesis by blast
    qed
  qed simp
  with that show thesis by blast
qed

section \<open>Allocation\<close>

abbreviation block_if :: "nat \<Rightarrow> (nat \<times> bool) list" where
  "block_if s \<equiv> (if s = 0 then [] else [(s, True)])"

lemma publish_split:
  fixes b :: nat
  assumes X: "heap_blocks_at m b xs" and Y: "heap_blocks_at m (b + blocks_size xs + (G + U + T)) ys"
    and G: "G = 0 \<or> 48 \<le> G" "16 dvd G" and U: "48 \<le> U" "16 dvd U" and T: "T = 0 \<or> 48 \<le> T" "16 dvd T"
    and e: "b + blocks_size xs + (G + U + T) + blocks_size ys \<le> addr_end"
  defines "a \<equiv> b + blocks_size xs"
  defines "m1 \<equiv> (if G \<noteq> 0 then publish m (of_nat a) (of_nat G) True else m)"
  defines "m2 \<equiv> publish m1 (of_nat (a + G)) (of_nat U) False"
  defines "m3 \<equiv> (if T \<noteq> 0 then publish m2 (of_nat (a + G + U)) (of_nat T) True else m2)"
  shows "heap_blocks_at m3 b (xs @ block_if G @ (U, False) # block_if T @ ys)"
    and "\<And>x. x < a \<or> a + (G + U + T) \<le> x \<Longrightarrow> x < addr_end \<Longrightarrow> m3 (of_nat x) = m (of_nat x)"
proof -
  have m1: "heap_blocks_at m1 b xs" "heap_blocks_at m1 a (block_if G)"
    "heap_blocks_at m1 (a + (G + U + T)) ys"
    using X Y G e by (auto simp: m1_def a_def intro!: publish_frame publish_block simp del: heap_blocks_at.simps(2) of_nat_add)
  have m2: "heap_blocks_at m2 b xs" "heap_blocks_at m2 a (block_if G)"
    "heap_blocks_at m2 (a + G) [(U, False)]" "heap_blocks_at m2 (a + (G + U + T)) ys"
    using m1 U G e unfolding m2_def a_def
    by (auto intro!: publish_frame publish_block simp del: heap_blocks_at.simps(2) of_nat_add)
  have m3: "heap_blocks_at m3 b xs" "heap_blocks_at m3 a (block_if G)"
    "heap_blocks_at m3 (a + G) [(U, False)]" "heap_blocks_at m3 (a + G + U) (block_if T)"
    "heap_blocks_at m3 (a + (G + U + T)) ys"
    using m2 U G T e unfolding m3_def a_def
    by (auto intro!: publish_frame publish_block simp del: heap_blocks_at.simps(2) of_nat_add)
  have "blocks_size (block_if n) = n" for n by simp
  with m3 show "heap_blocks_at m3 b (xs @ block_if G @ (U, False) # block_if T @ ys)"
    by (simp add: heap_blocks_append a_def add.assoc del: of_nat_add of_nat_diff)
  show "\<And>x. x < a \<or> a + (G + U + T) \<le> x \<Longrightarrow> x < addr_end \<Longrightarrow> m3 (of_nat x) = m (of_nat x)"
    using G U T e unfolding m3_def m2_def m1_def a_def
    by (auto simp: publish_bytes simp del: of_nat_add)
qed

text \<open>The arguments \<^verbatim>\<open>heap_alloc\<close> accepts.\<close>

definition heap_request :: "u64 \<Rightarrow> u64 \<Rightarrow> bool" where
  "heap_request sz align \<longleftrightarrow>
     sz \<noteq> 0 \<and> sz \<le> NOT 0 - (HEAP_HDR + HEAP_FTR + HEAP_GRAN - 1) \<and>
     HEAP_ALIGN_MIN \<le> align \<and> align \<le> HEAP_ALIGN_MAX \<and> align AND (align - 1) = 0"

lemma heap_request_nat:
  assumes "heap_request sz align"
  shows "0 < unat sz" "unat sz \<le> 18446744073709551568" "8 \<le> unat align" "unat align \<le> 4096"
    "unat align = 8 \<or> 16 dvd unat align"
    "48 \<le> unat (heap_needed sz)" "16 dvd unat (heap_needed sz)" "unat sz + 32 \<le> unat (heap_needed sz)"
proof -
  show sz: "0 < unat sz" "unat sz \<le> 18446744073709551568" and al: "8 \<le> unat align" "unat align \<le> 4096"
    using assms by (auto simp: heap_request_def word_order_unat HEAP_HDR_def HEAP_FTR_def
        HEAP_GRAN_def HEAP_ALIGN_MIN_def HEAP_ALIGN_MAX_def)
  have "align \<noteq> 0" using al(1) by auto
  then obtain k where k: "unat align = 2 ^ k"
    using word_pow2 [of align] assms by (auto simp: heap_request_def)
  show "unat align = 8 \<or> 16 dvd unat align"
  proof (cases "k \<le> 3")
    case True
    moreover have "\<not> k \<le> 2"
      using al(1) k power_increasing [of k 2 "2 :: nat"] by auto
    ultimately have "k = 3" by simp
    with k show ?thesis by simp
  next
    case False
    then have "(2::nat) ^ 4 dvd 2 ^ k" by (intro le_imp_power_dvd) simp
    with k show ?thesis by simp
  qed
  note n = heap_needed_nat [OF sz(2)]
  show "48 \<le> unat (heap_needed sz)" "16 dvd unat (heap_needed sz)" "unat sz + 32 \<le> unat (heap_needed sz)"
    unfolding n using sz(1) by (auto simp: dvd_add)
qed

text \<open>The block the first-fit scan stops at, in numbers.\<close>

lemma heap_choice:
  assumes wf: "heap_wf h" and repr: "heap_repr h m bs" and req: "heap_request sz align"
    and bs: "bs = xs @ (s, True) # ys" and cur: "cur = h_base h + of_nat (blocks_size xs)"
    and fit: "heap_fit align (heap_needed sz) cur (of_nat s) = Some g"
  shows "unat cur = unat (h_base h) + blocks_size xs" "heap_tag m cur = (of_nat s, HEAP_MAGIC OR HEAP_FREE)"
    "blocks_size xs + s + blocks_size ys = 65536" "unat (of_nat s :: u64) = s"
    "unat g = 0 \<or> 48 \<le> unat g" "unat g + unat (heap_needed sz) \<le> s" "16 dvd unat g" "16 dvd s"
    "unat align dvd unat cur + 16 + unat g"
proof -
  note w = heap_wf_nat [OF wf] and r = heap_repr_nat [OF wf repr] and q = heap_request_nat [OF req]
  show tot: "blocks_size xs + s + blocks_size ys = 65536" using r(2) bs by simp
  show us: "unat (of_nat s :: u64) = s" using tot by (simp add: unat_simps)
  have x: "unat (of_nat (blocks_size xs) :: u64) = blocks_size xs" using tot by (simp add: unat_simps)
  show uc: "unat cur = unat (h_base h) + blocks_size xs"
    unfolding cur using tot w x by (subst unat_add_nowrap) simp_all
  have cur': "cur = of_nat (unat (h_base h) + blocks_size xs)" unfolding cur by simp
  from r(1) bs have at: "heap_blocks_at m (unat (h_base h)) xs"
    "heap_blocks_at m (unat (h_base h) + blocks_size xs) ((s, True) # ys)"
    by (simp_all add: heap_blocks_append del: of_nat_add of_nat_diff)
  then show tag: "heap_tag m cur = (of_nat s, HEAP_MAGIC OR HEAP_FREE)" and ds: "16 dvd s"
    unfolding cur' by (simp_all del: of_nat_add of_nat_diff)
  have cb: "unat cur + 16 < 2 ^ 64" using uc tot w by simp
  from heap_fit_spec(1) [OF q(3,4) cb fit]
  show fits: "unat g = 0 \<or> 48 \<le> unat g" "unat g + unat (heap_needed sz) \<le> s"
    and al: "unat align dvd unat cur + 16 + unat g"
    by (auto simp: heap_places_def us)
  have dc: "16 dvd unat cur + 16" using heap_blocks_dvd [OF at(1)] w uc by (simp add: dvd_add)
  show "16 dvd unat g"
  proof (cases "unat align = 8")
    case True
    then have "unat align dvd unat cur + 16 + 0" using dvd_trans [of 8 16 "unat cur + 16"] dc by simp
    from heap_fit_spec(2) [OF q(3,4) cb fit _ this] show ?thesis by simp
  next
    case False
    then have "16 dvd unat cur + 16 + unat g" using q(5) al dvd_trans by blast
    with dc show ?thesis by (simp add: dvd_add_right_iff)
  qed
qed

lemma heap_alloc_scan:
  assumes wf: "heap_wf h" and repr: "heap_repr h m bs" and fg: "foreground c" "h_ready h"
    and req: "heap_request sz align"
  shows "heap_alloc c h m sz align True =
    (if h_arena h < heap_needed sz then Some (HEAP_OUT_OF_MEMORY, None, h, m)
     else case first_fit align (heap_needed sz) (h_base h) bs of
         None \<Rightarrow> Some (HEAP_OUT_OF_MEMORY, None, h, m)
       | Some (cur, gap) \<Rightarrow> Some (heap_place h m (heap_needed sz) cur gap))"
proof -
  note r = heap_repr_nat [OF wf repr]
  have chk: "heap_check c h m" using heap_check_iff [OF wf] fg repr by blast
  have scan: "heap_scan (heap_fuel h) m (h_base h + h_arena h) align (heap_needed sz) (h_base h) =
      Some (first_fit align (heap_needed sz) (h_base h) bs)"
    using r by (intro heap_scan_first_fit) auto
  have guards: "\<not> (sz = 0 \<or> NOT 0 - (HEAP_HDR + HEAP_FTR + HEAP_GRAN - 1) < sz)"
    "\<not> (align < HEAP_ALIGN_MIN \<or> HEAP_ALIGN_MAX < align \<or> align AND (align - 1) \<noteq> 0)"
    using req by (simp_all only: heap_request_def not_less de_Morgan_disj not_not simp_thms)
  show ?thesis
    unfolding heap_alloc_def Let_def scan using fg chk guards
    by (simp split: option.split)
qed

text \<open>Splitting a free block into gap, used block and tail keeps the counters exact.\<close>

lemma heap_repr_split:
  assumes wf: "heap_wf h" and repr: "heap_repr h m (xs @ (s, True) # ys)" and s: "s = G + U + T"
    and at: "heap_blocks_at m' (unat (h_base h)) (xs @ block_if G @ (U, False) # block_if T @ ys)"
  shows "heap_repr
    (h\<lparr>h_free_blocks := h_free_blocks h - 1 + of_bool (G \<noteq> 0) + of_bool (T \<noteq> 0),
      h_used := h_used h + of_nat U, h_used_blocks := h_used_blocks h + 1\<rparr>)
    m' (xs @ block_if G @ (U, False) # block_if T @ ys)"
proof -
  note r = repr [unfolded heap_repr_def]
  have adj: "no_adjacent_free False (xs @ block_if G @ (U, False) # block_if T @ ys)"
    using r by (auto simp: no_adjacent_free_append intro: no_adjacent_free_mono)
  have cnt: "used_size xs + used_size ys + s \<le> 65536" "length xs + length ys \<le> 65536"
    using block_counts_le(1) [of xs] block_counts_le(1) [of ys] heap_repr_nat(2,4) [OF wf repr]
      heap_wf_nat [OF wf] by (auto simp: heap_fuel_def)
  have len: "used_count xs + free_count xs = length xs" "used_count ys + free_count ys = length ys"
    by (rule block_counts_le)+
  have "unat (of_nat U :: u64) = U" using s cnt by (intro unat_of_nat_small) simp
  then have used: "unat (h_used h + of_nat U) = used_size xs + U + used_size ys"
    using r cnt s by (subst unat_add_nowrap) auto
  have count: "unat (h_used_blocks h + 1) = used_count xs + 1 + used_count ys"
    using r cnt len by (subst unat_add_nowrap) auto
  have "unat (h_free_blocks h - 1) = free_count xs + free_count ys"
    using r by (subst unat_diff_nowrap) auto
  with cnt len r have free: "unat (h_free_blocks h - 1 + of_bool (G \<noteq> 0) + of_bool (T \<noteq> 0)) =
      free_count xs + of_bool (G \<noteq> 0) + of_bool (T \<noteq> 0) + free_count ys"
    by (cases "G = 0"; cases "T = 0") (simp_all add: unat_add_nowrap)
  show ?thesis
    using r at s adj used count free by (simp add: heap_repr_def add.assoc)
qed

text \<open>\<^verbatim>\<open>heap_place\<close> on the chosen block.\<close>

lemma heap_place_spec:
  assumes wf: "heap_wf h" and repr: "heap_repr h m bs" and req: "heap_request sz align"
    and bs: "bs = xs @ (s, True) # ys" and cur: "cur = h_base h + of_nat (blocks_size xs)"
    and fit: "heap_fit align (heap_needed sz) cur (of_nat s) = Some g"
  obtains U T p h' m' where "heap_place h m (heap_needed sz) cur g = (HEAP_OK, Some p, h', m')"
    "s = unat g + U + T" "heap_wf h'" "h_ready h' = h_ready h"
    "heap_repr h' m' (xs @ block_if (unat g) @ (U, False) # block_if T @ ys)"
    "unat p = unat (h_base h) + blocks_size xs + unat g + 16" "unat align dvd unat p" "unat sz + 32 \<le> U"
    "\<And>x. x < unat cur \<or> unat cur + s \<le> x \<Longrightarrow> x < addr_end \<Longrightarrow> m' (of_nat x) = m (of_nat x)"
proof -
  note ch = heap_choice [OF assms] and w = heap_wf_nat [OF wf] and q = heap_request_nat [OF req]
  let ?N = "unat (heap_needed sz)" and ?G = "unat g"
  define t0 where "t0 = of_nat s - g - heap_needed sz"
  have t0: "unat t0 = s - ?G - ?N" using ch(4,6) by (simp add: t0_def unat_diff_nowrap)
  define U T where "U = (if unat t0 < 48 then s - ?G else ?N)" and "T = (if unat t0 < 48 then 0 else unat t0)"
  have s: "s = ?G + U + T" using ch(6) t0 by (auto simp: U_def T_def)
  have dt: "16 dvd unat t0" unfolding t0 using ch(7,8) q(7) by (intro dvd_diff_nat)
  have U: "48 \<le> U" "16 dvd U" "unat sz + 32 \<le> U" and T: "T = 0 \<or> 48 \<le> T" "16 dvd T"
    using ch(6-8) q(6-8) dt by (auto simp: U_def T_def)
  let ?b = "unat (h_base h)"
  let ?a = "?b + blocks_size xs"
  have min: "t0 < HEAP_MIN \<longleftrightarrow> unat t0 < 48" by (simp add: word_less_nat_alt HEAP_MIN_def)
  have used: "(if t0 < HEAP_MIN then heap_needed sz + t0 else heap_needed sz) = of_nat U"
  proof -
    have "heap_needed sz + t0 = of_nat (s - ?G)" using ch(6) by (simp add: t0_def)
    then show ?thesis by (simp add: min U_def)
  qed
  have tail: "(if t0 < HEAP_MIN then 0 else t0) = of_nat T" "of_nat T \<noteq> (0 :: u64) \<longleftrightarrow> T \<noteq> 0"
    by (auto simp: min T_def)
  have cura: "cur = of_nat ?a" and gG: "g = of_nat ?G" "g \<noteq> 0 \<longleftrightarrow> ?G \<noteq> 0"
    using cur by (auto simp: word_unat_eq_iff)
  have chosen: "cur + g = of_nat (?a + ?G)" "of_nat (?a + ?G) + of_nat U = (of_nat (?a + ?G + U) :: u64)"
    unfolding cura by simp_all
  let ?m1 = "if ?G \<noteq> 0 then publish m (of_nat ?a) (of_nat ?G) True else m"
  let ?m2 = "publish ?m1 (of_nat (?a + ?G)) (of_nat U) False"
  let ?m3 = "if T \<noteq> 0 then publish ?m2 (of_nat (?a + ?G + U)) (of_nat T) True else ?m2"
  let ?h = "h\<lparr>h_free_blocks := h_free_blocks h - 1 + of_bool (?G \<noteq> 0) + of_bool (T \<noteq> 0),
    h_used := h_used h + of_nat U, h_used_blocks := h_used_blocks h + 1\<rparr>"
  have place: "heap_place h m (heap_needed sz) cur g =
      (HEAP_OK, Some (of_nat (?a + ?G + 16)), ?h, ?m3)"
  proof -
    have "fst (heap_tag m cur) - g - heap_needed sz = t0" using ch(2) by (simp add: t0_def)
    moreover have "block_payload (of_nat (?a + ?G)) = of_nat (?a + ?G + 16)"
      by (simp add: block_payload_def HEAP_HDR_def)
    ultimately show ?thesis
      unfolding heap_place_def Let_def
      by (simp only: used tail chosen) (simp only: cura gG(2) word_of_nat_unat)
  qed
  from heap_repr_nat(1) [OF wf repr] bs have at: "heap_blocks_at m ?b xs"
    "heap_blocks_at m (?a + (?G + U + T)) ys" and e: "?a + (?G + U + T) + blocks_size ys \<le> addr_end"
    using s ch(3) w by (auto simp: heap_blocks_append add.assoc simp del: of_nat_add of_nat_diff)
  note sp = publish_split [OF at ch(5,7) U(1,2) T e]
  have rep: "heap_repr ?h ?m3 (xs @ block_if ?G @ (U, False) # block_if T @ ys)"
    using wf repr bs s sp(1) by (intro heap_repr_split) auto
  have p: "unat (of_nat (?a + ?G + 16) :: u64) = ?a + ?G + 16"
    using w ch(3) s U(1) by (intro unat_of_nat_small) simp
  show thesis
  proof (rule that [OF place s _ _ rep p])
    show "heap_wf ?h" using wf by (simp add: heap_wf_def)
    show "unat align dvd unat (of_nat (?a + ?G + 16) :: u64)"
      using ch(1,9) unfolding p by (simp add: ac_simps)
    show "?m3 (of_nat x) = m (of_nat x)"
      if "x < unat cur \<or> unat cur + s \<le> x" "x < addr_end" for x
      using sp(2) that ch(1) s by simp
  qed (use U in simp_all)
qed

section \<open>Release\<close>

lemma heap_tag_split:
  assumes wf: "heap_wf h" and repr: "heap_repr h m (xs @ (s, f) # ys)"
  defines "cur \<equiv> h_base h + of_nat (blocks_size xs)"
  shows "unat cur = unat (h_base h) + blocks_size xs" "cur = of_nat (unat (h_base h) + blocks_size xs)"
    "heap_tag m cur = (of_nat s, heap_info f)" "unat (of_nat s :: u64) = s"
    "blocks_size xs + s + blocks_size ys = 65536" "48 \<le> s" "16 dvd s"
proof -
  note w = heap_wf_nat [OF wf] and r = heap_repr_nat [OF wf repr]
  show tot: "blocks_size xs + s + blocks_size ys = 65536" using r(2) by simp
  show "unat (of_nat s :: u64) = s" using tot by (simp add: unat_simps)
  have "unat (of_nat (blocks_size xs) :: u64) = blocks_size xs" using tot by (simp add: unat_simps)
  then show "unat cur = unat (h_base h) + blocks_size xs"
    unfolding cur_def using tot w by (subst unat_add_nowrap) simp_all
  show cur: "cur = of_nat (unat (h_base h) + blocks_size xs)" by (simp add: cur_def)
  from r(1) show "heap_tag m cur = (of_nat s, heap_info f)" "48 \<le> s" "16 dvd s"
    unfolding cur by (simp_all add: heap_blocks_append del: of_nat_add of_nat_diff)
qed

text \<open>The free neighbours a released block is joined with.\<close>

definition join_left :: "(nat \<times> bool) list \<Rightarrow> (nat \<times> bool) list \<times> nat" where
  "join_left xs = (if xs \<noteq> [] \<and> snd (last xs) then (butlast xs, fst (last xs)) else (xs, 0))"

definition join_right :: "(nat \<times> bool) list \<Rightarrow> (nat \<times> bool) list \<times> nat" where
  "join_right ys = (if ys \<noteq> [] \<and> snd (hd ys) then (tl ys, fst (hd ys)) else (ys, 0))"

definition join_blocks :: "(nat \<times> bool) list \<Rightarrow> nat \<Rightarrow> (nat \<times> bool) list \<Rightarrow> (nat \<times> bool) list" where
  "join_blocks xs s ys =
     fst (join_left xs) @ (snd (join_left xs) + s + snd (join_right ys), True) # fst (join_right ys)"

lemma join_left_cases:
  obtains "join_left xs = (xs, 0)" "xs = [] \<or> \<not> snd (last xs)"
    | xs' t where "xs = xs' @ [(t, True)]" "join_left xs = (xs', t)"
proof (cases "xs \<noteq> [] \<and> snd (last xs)")
  case True
  then obtain t where "last xs = (t, True)" by (cases "last xs") auto
  with True have "xs = butlast xs @ [(t, True)]" by (metis append_butlast_last_id)
  with True \<open>last xs = (t, True)\<close> that(2) show thesis by (auto simp: join_left_def)
next
  case False
  with that(1) show thesis by (auto simp: join_left_def)
qed

lemma join_right_cases:
  obtains "join_right ys = (ys, 0)" "ys = [] \<or> \<not> snd (hd ys)"
    | t ys' where "ys = (t, True) # ys'" "join_right ys = (ys', t)"
proof (cases ys)
  case Nil
  with that(1) show thesis by (auto simp: join_right_def)
next
  case (Cons y ys')
  with that show thesis by (cases y) (cases "snd y"; auto simp: join_right_def)
qed

lemma join_blocks_at:
  assumes at: "heap_blocks_at m b (xs @ (s, False) # ys)"
    and e: "b + blocks_size (xs @ (s, False) # ys) \<le> addr_end"
  defines "a \<equiv> b + blocks_size (fst (join_left xs))"
    and "S \<equiv> snd (join_left xs) + s + snd (join_right ys)"
  shows "heap_blocks_at (publish m (of_nat a) (of_nat S) True) b (join_blocks xs s ys)"
    and "48 \<le> S" "a \<le> b + blocks_size xs" "b + blocks_size xs + s \<le> a + S" "a + S \<le> addr_end"
    and "blocks_size (join_blocks xs s ys) = blocks_size (xs @ (s, False) # ys)"
proof -
  have "heap_blocks_at m b (fst (join_left xs)) \<and> 16 dvd snd (join_left xs) \<and>
      blocks_size (fst (join_left xs)) + snd (join_left xs) = blocks_size xs"
    using at by (cases rule: join_left_cases [of xs]) (auto simp: heap_blocks_append)
  moreover have "heap_blocks_at m (b + blocks_size xs + s + snd (join_right ys)) (fst (join_right ys)) \<and>
      16 dvd snd (join_right ys) \<and> blocks_size (fst (join_right ys)) + snd (join_right ys) = blocks_size ys"
    using at by (cases rule: join_right_cases [of ys]) (auto simp: heap_blocks_append)
  moreover have "48 \<le> s" "16 dvd s" using at by (auto simp: heap_blocks_append)
  ultimately have l: "heap_blocks_at m b (fst (join_left xs))"
    and r: "heap_blocks_at m (a + S) (fst (join_right ys))" and S: "48 \<le> S" "16 dvd S"
    and sz: "blocks_size (fst (join_left xs)) + snd (join_left xs) = blocks_size xs"
      "blocks_size (fst (join_right ys)) + snd (join_right ys) = blocks_size ys"
    by (auto simp: a_def S_def ac_simps)
  show "48 \<le> S" "a \<le> b + blocks_size xs" "b + blocks_size xs + s \<le> a + S" "a + S \<le> addr_end"
    using S sz e by (auto simp: a_def S_def)
  show "blocks_size (join_blocks xs s ys) = blocks_size (xs @ (s, False) # ys)"
    using sz by (simp add: join_blocks_def)
  have bound: "a + S + blocks_size (fst (join_right ys)) \<le> addr_end" using sz e by (simp add: a_def S_def)
  let ?m' = "publish m (of_nat a) (of_nat S) True"
  have "heap_blocks_at ?m' b (fst (join_left xs))" "heap_blocks_at ?m' (a + S) (fst (join_right ys))"
    "heap_blocks_at ?m' a [(S, True)]"
    using l r S bound by (auto simp: a_def intro!: publish_frame publish_block simp del: heap_blocks_at.simps(2) of_nat_add)
  then show "heap_blocks_at ?m' b (join_blocks xs s ys)"
    unfolding join_blocks_def S_def [symmetric] heap_blocks_append a_def [symmetric]
    by (simp del: of_nat_add of_nat_diff)
qed

lemma join_blocks_counts:
  assumes "no_adjacent_free False (xs @ (s, False) # ys)"
  shows "no_adjacent_free False (join_blocks xs s ys)"
    and "used_size (join_blocks xs s ys) = used_size xs + used_size ys"
    and "used_count (join_blocks xs s ys) = used_count xs + used_count ys"
    and "free_count (join_blocks xs s ys) + of_bool (fst (join_left xs) \<noteq> xs) +
      of_bool (fst (join_right ys) \<noteq> ys) = free_count xs + free_count ys + 1"
proof -
  have l: "no_adjacent_free False (fst (join_left xs))"
    "fst (join_left xs) = [] \<or> \<not> snd (last (fst (join_left xs)))"
    "used_size (fst (join_left xs)) = used_size xs" "used_count (fst (join_left xs)) = used_count xs"
    "free_count (fst (join_left xs)) + of_bool (fst (join_left xs) \<noteq> xs) = free_count xs"
    using assms by (cases rule: join_left_cases [of xs]; force simp: no_adjacent_free_append)+
  have r: "no_adjacent_free True (fst (join_right ys))"
    "used_size (fst (join_right ys)) = used_size ys" "used_count (fst (join_right ys)) = used_count ys"
    "free_count (fst (join_right ys)) + of_bool (fst (join_right ys) \<noteq> ys) = free_count ys"
    using assms
    by (cases rule: join_right_cases [of ys]; cases ys; force simp: no_adjacent_free_append)+
  show "no_adjacent_free False (join_blocks xs s ys)"
    using l(1,2) r(1) by (auto simp: join_blocks_def no_adjacent_free_append)
  show "used_size (join_blocks xs s ys) = used_size xs + used_size ys"
    "used_count (join_blocks xs s ys) = used_count xs + used_count ys"
    "free_count (join_blocks xs s ys) + of_bool (fst (join_left xs) \<noteq> xs) +
      of_bool (fst (join_right ys) \<noteq> ys) = free_count xs + free_count ys + 1"
    using l r by (simp_all add: join_blocks_def)
qed

text \<open>Two prefixes of the arena that the search cannot tell apart are the same.\<close>

lemma heap_prefix_unique:
  assumes "heap_blocks_at m a bs" and "bs = xs @ ys" and "bs = xs' @ ys'"
    and "blocks_size xs \<le> blocks_size xs'" and "xs' \<noteq> [] \<Longrightarrow> blocks_size (butlast xs') < blocks_size xs"
  shows "xs' = xs"
proof -
  from assms(2,3) obtain zs where "xs = xs' @ zs \<and> zs @ ys = ys' \<or> xs @ zs = xs' \<and> ys = zs @ ys'"
    by (auto simp: append_eq_append_conv2)
  then show ?thesis
  proof
    assume z: "xs = xs' @ zs \<and> zs @ ys = ys'"
    have "zs = []"
    proof (cases zs)
      case (Cons z zs')
      with z assms(1,2) have "48 \<le> fst z" by (cases z) (auto simp: heap_blocks_append)
      with z Cons assms(4) show ?thesis by simp
    qed
    with z show ?thesis by simp
  next
    assume z: "xs @ zs = xs' \<and> ys = zs @ ys'"
    have "zs = []"
    proof (rule ccontr)
      assume "zs \<noteq> []"
      with z have "xs' \<noteq> []" "butlast xs' = xs @ butlast zs" by (auto simp: butlast_append)
      with assms(5) show False by simp
    qed
    with z show ?thesis by simp
  qed
qed

lemma heap_free_seek:
  assumes wf: "heap_wf h" and repr: "heap_repr h m bs"
    and p: "unat (h_base h) + 16 \<le> unat p" "unat p < unat (h_base h) + 65536"
  obtains xs ys where "bs = xs @ ys"
    "heap_seek (heap_fuel h) m (p - HEAP_HDR) (h_base h) 0 = Some (h_base h + of_nat (blocks_size xs),
      if xs = [] then 0 else h_base h + of_nat (blocks_size (butlast xs)))"
    "unat (h_base h + of_nat (blocks_size xs)) = unat (h_base h) + blocks_size xs"
    "unat p \<le> unat (h_base h) + blocks_size xs + 16"
    "xs \<noteq> [] \<Longrightarrow> unat (h_base h) + blocks_size (butlast xs) + 16 < unat p"
proof -
  note w = heap_wf_nat [OF wf] and r = heap_repr_nat [OF wf repr]
  have t: "unat (p - HEAP_HDR) = unat p - 16" using p by (simp add: HEAP_HDR_def unat_diff_nowrap)
  have "p - HEAP_HDR < h_base h + h_arena h" using t p w by (simp add: word_less_nat_alt)
  from heap_seek_spec [OF r(1,3,4) this, of 0] obtain xs ys where sk: "bs = xs @ ys"
    "heap_seek (heap_fuel h) m (p - HEAP_HDR) (h_base h) 0 = Some (h_base h + of_nat (blocks_size xs),
      if xs = [] then 0 else h_base h + of_nat (blocks_size (butlast xs)))"
    "p - HEAP_HDR \<le> h_base h + of_nat (blocks_size xs)"
    "xs \<noteq> [] \<longrightarrow> h_base h + of_nat (blocks_size (butlast xs)) < p - HEAP_HDR" by blast
  have u: "unat (h_base h + of_nat k) = unat (h_base h) + k" if "k \<le> 65536" for k
    using that w by (subst unat_add_nowrap) (auto simp: unat_simps)
  have xs: "blocks_size xs \<le> 65536" using sk(1) r(2) by simp
  have bl: "blocks_size (butlast xs) \<le> 65536" if "xs \<noteq> []"
  proof -
    have "blocks_size xs = blocks_size (butlast xs) + fst (last xs)"
      using that by (metis append_butlast_last_id blocks_size_simps add_0_right)
    with xs show ?thesis by simp
  qed
  show thesis
  proof (rule that [OF sk(1,2) u [OF xs]])
    show "unat p \<le> unat (h_base h) + blocks_size xs + 16"
      using sk(3) u [OF xs] t by (simp add: word_le_nat_alt)
    show "unat (h_base h) + blocks_size (butlast xs) + 16 < unat p" if "xs \<noteq> []"
      using sk(4) u [OF bl] that t by (simp add: word_less_nat_alt)
  qed
qed

lemma heap_next_join:
  assumes wf: "heap_wf h" and repr: "heap_repr h m (xs @ (s, False) # ys)"
  defines "next \<equiv> h_base h + of_nat (blocks_size xs) + of_nat s"
  shows "(next < h_base h + h_arena h \<and> snd (heap_tag m next) = HEAP_MAGIC OR HEAP_FREE) \<longleftrightarrow>
      fst (join_right ys) \<noteq> ys"
    and "fst (join_right ys) \<noteq> ys \<Longrightarrow> fst (heap_tag m next) = of_nat (snd (join_right ys))"
    and "fst (join_right ys) = ys \<Longrightarrow> snd (join_right ys) = 0"
proof -
  note w = heap_wf_nat [OF wf] and r = heap_repr_nat [OF wf repr]
  have nx: "next = h_base h + of_nat (blocks_size (xs @ [(s, False)]))" by (simp add: next_def)
  have "((next < h_base h + h_arena h \<and> snd (heap_tag m next) = HEAP_MAGIC OR HEAP_FREE) \<longleftrightarrow>
      fst (join_right ys) \<noteq> ys) \<and>
    (fst (join_right ys) \<noteq> ys \<longrightarrow> fst (heap_tag m next) = of_nat (snd (join_right ys))) \<and>
    (fst (join_right ys) = ys \<longrightarrow> snd (join_right ys) = 0)"
  proof (cases ys)
    case Nil
    have "blocks_size (xs @ [(s, False)]) = 65536" using r(2) Nil by simp
    then have "next = h_base h + h_arena h" unfolding nx using wf
      by (simp add: heap_wf_def HEAP_ARENA_BYTES_def)
    with Nil show ?thesis by (simp add: join_right_def)
  next
    case (Cons y ys')
    obtain t f where y: "y = (t, f)" by (cases y)
    have "heap_repr h m ((xs @ [(s, False)]) @ (t, f) # ys')" using repr Cons y by simp
    note sp = heap_tag_split [OF wf this, folded nx]
    have "next < h_base h + h_arena h" using sp(1,5,6) w by (simp add: word_less_nat_alt)
    with sp(3) Cons y show ?thesis by (auto simp: join_right_def)
  qed
  then show "(next < h_base h + h_arena h \<and> snd (heap_tag m next) = HEAP_MAGIC OR HEAP_FREE) \<longleftrightarrow>
      fst (join_right ys) \<noteq> ys"
    and "fst (join_right ys) \<noteq> ys \<Longrightarrow> fst (heap_tag m next) = of_nat (snd (join_right ys))"
    and "fst (join_right ys) = ys \<Longrightarrow> snd (join_right ys) = 0" by blast+
qed

lemma heap_prev_join:
  assumes wf: "heap_wf h" and repr: "heap_repr h m (xs @ ys)" and ys: "ys \<noteq> []"
  defines "prev \<equiv> (if xs = [] then 0 else h_base h + of_nat (blocks_size (butlast xs)))"
  shows "(prev \<noteq> 0 \<and> snd (heap_tag m prev) = HEAP_MAGIC OR HEAP_FREE) \<longleftrightarrow> fst (join_left xs) \<noteq> xs"
    and "fst (join_left xs) \<noteq> xs \<Longrightarrow> fst (heap_tag m prev) = of_nat (snd (join_left xs)) \<and>
      prev = h_base h + of_nat (blocks_size (fst (join_left xs)))"
    and "fst (join_left xs) = xs \<Longrightarrow> snd (join_left xs) = 0"
proof -
  have "((prev \<noteq> 0 \<and> snd (heap_tag m prev) = HEAP_MAGIC OR HEAP_FREE) \<longleftrightarrow> fst (join_left xs) \<noteq> xs) \<and>
    (fst (join_left xs) \<noteq> xs \<longrightarrow> fst (heap_tag m prev) = of_nat (snd (join_left xs)) \<and>
      prev = h_base h + of_nat (blocks_size (fst (join_left xs)))) \<and>
    (fst (join_left xs) = xs \<longrightarrow> snd (join_left xs) = 0)"
  proof (cases xs rule: rev_cases)
    case Nil
    then show ?thesis by (simp add: join_left_def prev_def)
  next
    case (snoc xs' x)
    obtain t f where x: "x = (t, f)" by (cases x)
    have prev: "prev = h_base h + of_nat (blocks_size xs')" using snoc by (simp add: prev_def)
    have "heap_repr h m (xs' @ (t, f) # ys)" using repr snoc x by simp
    note sp = heap_tag_split [OF wf this, folded prev]
    have "prev \<noteq> 0" using sp(1) heap_wf_nat(1) [OF wf] by (auto simp: word_unat_eq_iff)
    with sp(3) snoc x prev show ?thesis by (auto simp: join_left_def)
  qed
  then show "(prev \<noteq> 0 \<and> snd (heap_tag m prev) = HEAP_MAGIC OR HEAP_FREE) \<longleftrightarrow> fst (join_left xs) \<noteq> xs"
    and "fst (join_left xs) \<noteq> xs \<Longrightarrow> fst (heap_tag m prev) = of_nat (snd (join_left xs)) \<and>
      prev = h_base h + of_nat (blocks_size (fst (join_left xs)))"
    and "fst (join_left xs) = xs \<Longrightarrow> snd (join_left xs) = 0" by blast+
qed

lemma heap_free_guard:
  assumes "heap_wf h"
  shows "(p < h_base h + HEAP_HDR \<or> h_base h + h_arena h \<le> p \<or> p mod HEAP_GRAN \<noteq> 0) \<longleftrightarrow>
    \<not> (unat (h_base h) + 16 \<le> unat p \<and> unat p < unat (h_base h) + 65536 \<and> 16 dvd unat p)"
proof -
  note w = heap_wf_nat [OF assms]
  have "unat (h_base h + HEAP_HDR) = unat (h_base h) + 16"
    using w by (subst unat_add_nowrap) (simp_all add: HEAP_HDR_def)
  moreover have "p mod HEAP_GRAN \<noteq> 0 \<longleftrightarrow> \<not> 16 dvd unat p"
    by (simp add: word_unat_eq_iff unat_mod HEAP_GRAN_def dvd_eq_mod_eq_0)
  ultimately show ?thesis
    using w by (simp add: word_less_nat_alt word_le_nat_alt) linarith
qed

lemma heap_free_seek_live:
  fixes p :: u64
  assumes wf: "heap_wf h" and repr: "heap_repr h m (xs @ (s, False) # ys)"
    and p: "unat p = unat (h_base h) + blocks_size xs + 16"
  shows "heap_seek (heap_fuel h) m (h_base h + of_nat (blocks_size xs)) (h_base h) 0 =
    Some (h_base h + of_nat (blocks_size xs),
      if xs = [] then 0 else h_base h + of_nat (blocks_size (butlast xs)))"
proof -
  note r = heap_repr_nat [OF wf repr] and sp = heap_tag_split [OF wf repr]
  have bounds: "unat (h_base h) + 16 \<le> unat p" "unat p < unat (h_base h) + 65536" using p sp(5,6) by auto
  have t: "p - HEAP_HDR = h_base h + of_nat (blocks_size xs)"
    using p sp(1) by (simp add: word_unat_eq_iff HEAP_HDR_def unat_diff_nowrap)
  obtain xs' ys' where sk: "xs @ (s, False) # ys = xs' @ ys'"
    "heap_seek (heap_fuel h) m (p - HEAP_HDR) (h_base h) 0 = Some (h_base h + of_nat (blocks_size xs'),
      if xs' = [] then 0 else h_base h + of_nat (blocks_size (butlast xs')))"
    "unat p \<le> unat (h_base h) + blocks_size xs' + 16"
    "xs' \<noteq> [] \<Longrightarrow> unat (h_base h) + blocks_size (butlast xs') + 16 < unat p"
    using heap_free_seek [OF wf repr bounds] by metis
  have "xs' = xs" using heap_prefix_unique [OF r(1) refl sk(1)] sk(3,4) p by simp
  with sk(2) t show ?thesis by simp
qed

lemma heap_free_live:
  assumes wf: "heap_wf h" and repr: "heap_repr h m (xs @ (s, False) # ys)"
    and fg: "foreground c" "h_ready h" and p: "unat p = unat (h_base h) + blocks_size xs + 16"
  obtains h' where "heap_free c h m p = Some (HEAP_OK, h',
      publish m (of_nat (unat (h_base h) + blocks_size (fst (join_left xs))))
        (of_nat (snd (join_left xs) + s + snd (join_right ys))) True)"
    "h' = h\<lparr>h_free_blocks := h_free_blocks h - of_bool (fst (join_right ys) \<noteq> ys) -
        of_bool (fst (join_left xs) \<noteq> xs) + 1,
      h_used_blocks := h_used_blocks h - 1, h_used := h_used h - of_nat s\<rparr>"
proof -
  note w = heap_wf_nat [OF wf] and r = heap_repr_nat [OF wf repr] and sp = heap_tag_split [OF wf repr]
  have "heap_blocks_at m (unat (h_base h)) xs" using r(1) by (simp add: heap_blocks_append)
  then have "16 dvd blocks_size xs" by (rule heap_blocks_dvd)
  then have "16 dvd unat p" using p w by (simp add: dvd_add)
  moreover have bounds: "unat (h_base h) + 16 \<le> unat p" "unat p < unat (h_base h) + 65536" using p sp(5,6) by auto
  ultimately have g: "\<not> (p < h_base h + HEAP_HDR \<or> h_base h + h_arena h \<le> p \<or> p mod HEAP_GRAN \<noteq> 0)"
    using heap_free_guard [OF wf, of p] by blast
  have chk: "heap_check c h m" using heap_check_iff [OF wf] fg repr by blast
  let ?cur = "h_base h + of_nat (blocks_size xs)"
  let ?prev = "if xs = [] then 0 else h_base h + of_nat (blocks_size (butlast xs))"
  have t: "p - HEAP_HDR = ?cur" using p sp(1)
    by (simp add: word_unat_eq_iff HEAP_HDR_def unat_diff_nowrap)
  note seek = heap_free_seek_live [OF wf repr p]
  define cur nxt prev where "cur = ?cur" and "nxt = cur + of_nat s" and "prev = ?prev"
  note nj = heap_next_join [OF wf repr, folded cur_def, folded nxt_def]
    and pj = heap_prev_join [OF wf repr list.simps(3), folded prev_def]
  have info: "snd (heap_tag m cur) = HEAP_MAGIC" "fst (heap_tag m cur) = of_nat s"
    using sp(3) by (simp_all add: cur_def)
  have start: "of_nat (unat (h_base h) + blocks_size (fst (join_left xs))) =
      (if fst (join_left xs) \<noteq> xs then prev else cur)"
    using pj(2) by (simp add: cur_def)
  have free: "heap_free c h m p = Some (HEAP_OK,
      h\<lparr>h_free_blocks := (if fst (join_left xs) \<noteq> xs
            then (if fst (join_right ys) \<noteq> ys then h_free_blocks h - 1 else h_free_blocks h) - 1
            else if fst (join_right ys) \<noteq> ys then h_free_blocks h - 1 else h_free_blocks h) + 1,
        h_used_blocks := h_used_blocks h - 1, h_used := h_used h - of_nat s\<rparr>,
      publish m (if fst (join_left xs) \<noteq> xs then prev else cur)
        (if fst (join_left xs) \<noteq> xs then
          (if fst (join_right ys) \<noteq> ys then of_nat s + fst (heap_tag m nxt) else of_nat s) +
            fst (heap_tag m prev)
         else if fst (join_right ys) \<noteq> ys then of_nat s + fst (heap_tag m nxt) else of_nat s) True)"
    unfolding heap_free_def Let_def t [folded cur_def]
    using fg g chk by (simp only: seek [folded cur_def prev_def] info nj(1) pj(1) nxt_def [symmetric] option.case prod.case simp_thms if_True if_False)
  show thesis
    by (rule that [OF _ refl], unfold free start)
      (cases "fst (join_left xs) = xs"; cases "fst (join_right ys) = ys"; simp add: nj(2,3) pj(2) [THEN conjunct1] pj(3) ac_simps)
qed

text \<open>Joining keeps the counters exact.\<close>

lemma heap_repr_join:
  assumes wf: "heap_wf h" and repr: "heap_repr h m (xs @ (s, False) # ys)"
    and at: "heap_blocks_at m' (unat (h_base h)) (join_blocks xs s ys)"
    and size: "blocks_size (join_blocks xs s ys) = blocks_size (xs @ (s, False) # ys)"
  shows "heap_repr
    (h\<lparr>h_free_blocks := h_free_blocks h - of_bool (fst (join_right ys) \<noteq> ys) -
        of_bool (fst (join_left xs) \<noteq> xs) + 1,
      h_used_blocks := h_used_blocks h - 1, h_used := h_used h - of_nat s\<rparr>)
    m' (join_blocks xs s ys)"
proof -
  note r = repr [unfolded heap_repr_def] and sp = heap_tag_split [OF wf repr]
  note j = join_blocks_counts [of xs s ys]
  have adj: "no_adjacent_free False (xs @ (s, False) # ys)" using r by blast
  have cnt: "unat (h_used h) = used_size xs + s + used_size ys"
    "unat (h_used_blocks h) = used_count xs + 1 + used_count ys"
    "unat (h_free_blocks h) = free_count xs + free_count ys" using r by auto
  have used: "unat (h_used h - of_nat s) = used_size xs + used_size ys"
    "unat (h_used_blocks h - 1) = used_count xs + used_count ys"
    using cnt sp(4) by (auto simp: unat_diff_nowrap)
  have f: "free_count (join_blocks xs s ys) + of_bool (fst (join_left xs) \<noteq> xs) +
      of_bool (fst (join_right ys) \<noteq> ys) = free_count xs + free_count ys + 1"
    using j(4) adj by blast
  have small: "free_count xs + free_count ys \<le> 65536"
    using block_counts_le(2) [of xs] block_counts_le(2) [of ys] heap_repr_nat(4) [OF wf repr]
      heap_wf_nat [OF wf] by (simp add: heap_fuel_def)
  have "1 \<le> free_count (join_blocks xs s ys)" by (simp add: join_blocks_def)
  then have d: "unat (h_free_blocks h - of_bool (fst (join_right ys) \<noteq> ys) - of_bool (fst (join_left xs) \<noteq> xs)) =
      free_count (join_blocks xs s ys) - 1"
    using f cnt(3) by (cases "fst (join_left xs) = xs"; cases "fst (join_right ys) = ys")
      (simp_all add: unat_diff_nowrap)
  have free: "unat (h_free_blocks h - of_bool (fst (join_right ys) \<noteq> ys) - of_bool (fst (join_left xs) \<noteq> xs) + 1) =
      free_count (join_blocks xs s ys)"
    using d f small \<open>1 \<le> _\<close> by (subst unat_add_nowrap) auto
  show ?thesis
    using r at size used free j(1-3) [OF adj] by (simp add: heap_repr_def)
qed

lemma heap_free_ok:
  assumes wf: "heap_wf h" and repr: "heap_repr h m (xs @ (s, False) # ys)"
    and fg: "foreground c" "h_ready h" and p: "unat p = unat (h_base h) + blocks_size xs + 16"
  obtains h' m' where "heap_free c h m p = Some (HEAP_OK, h', m')" "heap_wf h'" "h_ready h'"
    "h_base h' = h_base h" "heap_repr h' m' (join_blocks xs s ys)"
    "\<And>x. x < unat (h_base h) + blocks_size (fst (join_left xs)) \<or>
      unat (h_base h) + blocks_size xs + s + snd (join_right ys) \<le> x \<Longrightarrow> x < addr_end \<Longrightarrow>
      m' (of_nat x) = m (of_nat x)"
proof -
  note w = heap_wf_nat [OF wf] and r = heap_repr_nat [OF wf repr]
  let ?a = "unat (h_base h) + blocks_size (fst (join_left xs))"
  let ?S = "snd (join_left xs) + s + snd (join_right ys)"
  let ?m' = "publish m (of_nat ?a) (of_nat ?S) True"
  obtain h' where h': "heap_free c h m p = Some (HEAP_OK, h', ?m')"
    "h' = h\<lparr>h_free_blocks := h_free_blocks h - of_bool (fst (join_right ys) \<noteq> ys) -
        of_bool (fst (join_left xs) \<noteq> xs) + 1,
      h_used_blocks := h_used_blocks h - 1, h_used := h_used h - of_nat s\<rparr>"
    using heap_free_live [OF assms] by metis
  have "unat (h_base h) + blocks_size (xs @ (s, False) # ys) \<le> addr_end" using r(2) w by simp
  note j = join_blocks_at [OF r(1) this]
  have rep: "heap_repr h' ?m' (join_blocks xs s ys)"
    unfolding h'(2) by (rule heap_repr_join [OF wf repr j(1,6)])
  have "blocks_size (fst (join_left xs)) + snd (join_left xs) = blocks_size xs"
    by (cases rule: join_left_cases [of xs]) auto
  then have frame: "?m' (of_nat x) = m (of_nat x)"
    if "x < ?a \<or> unat (h_base h) + blocks_size xs + s + snd (join_right ys) \<le> x" "x < addr_end" for x
    using that j(2,5) by (intro publish_bytes) auto
  show thesis
    by (rule that [OF h'(1) _ _ _ rep frame]) (use h'(2) wf fg in \<open>simp_all add: heap_wf_def\<close>)
qed

lemma heap_free_refused:
  assumes wf: "heap_wf h" and repr: "heap_repr h m bs" and fg: "foreground c" "h_ready h"
    and p: "\<And>k. (unat p, k) \<notin> set (heap_payloads (unat (h_base h)) bs)"
  obtains e where "e \<noteq> HEAP_OK" "heap_free c h m p = Some (e, h, m)"
proof (cases "unat (h_base h) + 16 \<le> unat p \<and> unat p < unat (h_base h) + 65536 \<and> 16 dvd unat p")
  case False
  then show thesis
    using that heap_free_guard [OF wf, of p] fg by (auto simp: heap_free_def)
next
  case True
  note w = heap_wf_nat [OF wf] and r = heap_repr_nat [OF wf repr]
  have chk: "heap_check c h m" using heap_check_iff [OF wf] fg repr by blast
  from True have g: "\<not> (p < h_base h + HEAP_HDR \<or> h_base h + h_arena h \<le> p \<or> p mod HEAP_GRAN \<noteq> 0)"
    using heap_free_guard [OF wf, of p] by blast
  obtain xs ys where sk: "bs = xs @ ys"
    "heap_seek (heap_fuel h) m (p - HEAP_HDR) (h_base h) 0 = Some (h_base h + of_nat (blocks_size xs),
      if xs = [] then 0 else h_base h + of_nat (blocks_size (butlast xs)))"
    "unat (h_base h + of_nat (blocks_size xs)) = unat (h_base h) + blocks_size xs"
    using heap_free_seek [OF wf repr] True by metis
  have "snd (heap_tag m (p - HEAP_HDR)) \<noteq> HEAP_MAGIC" if eq: "h_base h + of_nat (blocks_size xs) = p - HEAP_HDR"
  proof -
    have up: "unat p = unat (h_base h) + blocks_size xs + 16"
      using sk(3) True unfolding eq by (simp add: HEAP_HDR_def unat_diff_nowrap) linarith
    with True r(2) sk(1) have "ys \<noteq> []" by auto
    then obtain s f ys' where ys: "ys = (s, f) # ys'" by (cases ys) auto
    with p up sk(1) have "f" by (cases f) auto
    with heap_tag_split(3) [of h m xs s f ys'] wf repr sk(1) ys eq show ?thesis by simp
  qed
  then have "heap_free c h m p =
      Some (if h_base h + of_nat (blocks_size xs) \<noteq> p - HEAP_HDR then HEAP_INVALID else HEAP_CORRUPT, h, m)"
    unfolding heap_free_def Let_def using fg g chk
    by (cases "h_base h + of_nat (blocks_size xs) = p - HEAP_HDR")
      (simp_all only: sk(2) option.case prod.case simp_thms if_True if_False)
  then show thesis by (rule that [rotated]) simp
qed

section \<open>Properties\<close>

lemma heap_live_repr:
  "heap_wf h \<Longrightarrow> heap_repr h m bs \<Longrightarrow> heap_live h m = set (heap_payloads (unat (h_base h)) bs)"
  by (simp add: heap_live_def heap_blocks_repr)

lemma heap_payloads_block_if [simp]: "heap_payloads a (block_if s) = []"
  by simp

text \<open>Live payloads on either side of the block at \<open>xs\<close>.\<close>

lemma heap_payloads_apart:
  assumes "heap_blocks_at m b (xs @ (s, f) # ys)"
    and "(q, k) \<in> set (heap_payloads b xs) \<union> set (heap_payloads (b + blocks_size xs + s) ys)"
  shows "q + k + 16 \<le> b + blocks_size xs \<or> b + blocks_size xs + s + 16 \<le> q"
  using assms heap_payloads_bounds [of m b xs q k]
    heap_payloads_bounds [of m "b + blocks_size xs + s" ys q k]
  by (auto simp: heap_blocks_append)

lemma heap_alloc_refused:
  assumes "\<not> heap_request sz align \<or> \<not> out \<or> \<not> foreground c \<or> \<not> h_ready h"
  obtains e where "e \<noteq> HEAP_OK" "heap_alloc c h m sz align out = Some (e, None, h, m)"
proof -
  have "\<exists>e. e \<noteq> HEAP_OK \<and> heap_alloc c h m sz align out = Some (e, None, h, m)"
    using assms unfolding heap_alloc_def heap_request_def by (auto simp: not_le)
  with that show thesis by blast
qed

lemma heap_alloc_cases:
  assumes wf: "heap_wf h" and repr: "heap_repr h m bs" and fg: "foreground c" "h_ready h"
    and req: "heap_request sz align"
  obtains (none) "heap_alloc c h m sz align True = Some (HEAP_OUT_OF_MEMORY, None, h, m)"
      "\<And>xs s ys x. bs = xs @ (s, True) # ys \<Longrightarrow>
        \<not> heap_places align (heap_needed sz) (h_base h + of_nat (blocks_size xs)) (of_nat s) x"
    | (some) xs s ys G U T p h' m' where
      "heap_alloc c h m sz align True = Some (HEAP_OK, Some p, h', m')"
      "bs = xs @ (s, True) # ys" "s = G + U + T" "heap_wf h'" "h_ready h'"
      "heap_repr h' m' (xs @ block_if G @ (U, False) # block_if T @ ys)"
      "unat p = unat (h_base h) + blocks_size xs + G + 16" "unat align dvd unat p" "unat sz + 32 \<le> U"
      "\<And>x. x < unat (h_base h) + blocks_size xs \<or> unat (h_base h) + blocks_size xs + s \<le> x \<Longrightarrow>
        x < addr_end \<Longrightarrow> m' (of_nat x) = m (of_nat x)"
      "heap_places align (heap_needed sz) (h_base h + of_nat (blocks_size xs)) (of_nat s) G"
proof -
  note w = heap_wf_nat [OF wf] and scan = heap_alloc_scan [OF wf repr fg req]
    and q = heap_request_nat [OF req]
  have at: "unat (h_base h + of_nat (blocks_size xs)) + 16 < 2 ^ 64" "unat (of_nat s :: u64) \<le> 65536"
    if "bs = xs @ (s, True) # ys" for xs s ys
    using heap_tag_split [of h m xs s True ys] wf repr that w by auto
  show thesis
  proof (cases "h_arena h < heap_needed sz")
    case True
    have "\<not> heap_places align (heap_needed sz) (h_base h + of_nat (blocks_size xs)) (of_nat s) x"
      if "bs = xs @ (s, True) # ys" for xs s ys x
      using True at(2) [OF that] w by (auto simp: heap_places_def word_less_nat_alt)
    with True scan show thesis by (intro none) auto
  next
    case fits: False
    show thesis
    proof (cases "first_fit align (heap_needed sz) (h_base h) bs")
      case None
      have "\<not> heap_places align (heap_needed sz) (h_base h + of_nat (blocks_size xs)) (of_nat s) x"
        if "bs = xs @ (s, True) # ys" for xs s ys x
        using heap_fit_spec(3) [OF q(3,4) at(1) [OF that] first_fit_None [OF None that]] .
      with None fits scan show thesis by (intro none) auto
    next
      case (Some cg)
      obtain cur g where cg: "cg = (cur, g)" by (cases cg)
      from first_fit_Some [OF Some [unfolded cg]] obtain xs s ys where
        ff: "bs = xs @ (s, True) # ys" "cur = h_base h + of_nat (blocks_size xs)"
        "heap_fit align (heap_needed sz) cur (of_nat s) = Some g" by metis
      obtain U T p h' m' where pl: "heap_place h m (heap_needed sz) cur g = (HEAP_OK, Some p, h', m')"
        "s = unat g + U + T" "heap_wf h'" "h_ready h' = h_ready h"
        "heap_repr h' m' (xs @ block_if (unat g) @ (U, False) # block_if T @ ys)"
        "unat p = unat (h_base h) + blocks_size xs + unat g + 16" "unat align dvd unat p" "unat sz + 32 \<le> U"
        "\<And>x. x < unat cur \<or> unat cur + s \<le> x \<Longrightarrow> x < addr_end \<Longrightarrow> m' (of_nat x) = m (of_nat x)"
        using heap_place_spec [OF wf repr req ff] by metis
      have cur: "unat cur = unat (h_base h) + blocks_size xs"
        using heap_choice(1) [OF wf repr req ff] .
      have al: "heap_alloc c h m sz align True = Some (HEAP_OK, Some p, h', m')"
        using scan fits Some cg pl(1) by simp
      have rdy: "h_ready h'" using pl(4) fg by simp
      have places: "heap_places align (heap_needed sz) (h_base h + of_nat (blocks_size xs)) (of_nat s) (unat g)"
        using heap_fit_spec(1) [OF q(3,4) at(1) [OF ff(1)]] ff by simp
      show thesis
        by (rule some [OF al ff(1) pl(2,3) rdy pl(5-8) pl(9) [unfolded cur] places])
    qed
  qed
qed

lemma heap_live_bound:
  "heap_wf h \<Longrightarrow> heap_repr h m bs \<Longrightarrow> (q, k) \<in> heap_live h m \<Longrightarrow> q + k \<le> unat (h_base h) + 65536"
  using heap_payloads_bounds [of m "unat (h_base h)" bs q k] heap_repr_nat(1,2) [of h m bs]
  by (auto simp: heap_live_repr)

lemma heap_alloc_live:
  assumes wf: "heap_wf h" and repr: "heap_repr h m (xs @ (s, True) # ys)" and s: "s = G + U + T"
    and wf': "heap_wf h'" and repr': "heap_repr h' m' (xs @ block_if G @ (U, False) # block_if T @ ys)"
    and p: "P = unat (h_base h) + blocks_size xs + G + 16" and U: "32 \<le> U"
    and frame: "\<And>x. x < unat (h_base h) + blocks_size xs \<or> unat (h_base h) + blocks_size xs + s \<le> x \<Longrightarrow>
        x < addr_end \<Longrightarrow> m' (of_nat x) = m (of_nat x)"
  shows "heap_live h' m' = insert (P, U - 32) (heap_live h m)"
    and "\<forall>(q, k) \<in> heap_live h m. (q + k \<le> P \<or> P + (U - 32) \<le> q) \<and>
      (\<forall>i < k. m' (of_nat (q + i)) = m (of_nat (q + i)))"
proof -
  have b: "h_base h' = h_base h" using wf wf' by (simp add: heap_wf_def)
  have "blocks_size (block_if n) = n" for n by simp
  then show "heap_live h' m' = insert (P, U - 32) (heap_live h m)"
    by (auto simp: heap_live_repr [OF wf' repr'] heap_live_repr [OF wf repr] b p s ac_simps)
  show "\<forall>(q, k) \<in> heap_live h m. (q + k \<le> P \<or> P + (U - 32) \<le> q) \<and>
      (\<forall>i < k. m' (of_nat (q + i)) = m (of_nat (q + i)))"
  proof clarify
    fix q k assume live: "(q, k) \<in> heap_live h m"
    then have "q + k + 16 \<le> unat (h_base h) + blocks_size xs \<or>
        unat (h_base h) + blocks_size xs + s + 16 \<le> q"
      using heap_payloads_apart [OF heap_repr_nat(1) [OF wf repr], of q k]
      by (simp add: heap_live_repr [OF wf repr])
    then show "(q + k \<le> P \<or> P + (U - 32) \<le> q) \<and>
        (\<forall>i < k. m' (of_nat (q + i)) = m (of_nat (q + i)))"
      using heap_live_bound [OF wf repr live] heap_wf_nat(1) [OF wf] p s U frame
      by (auto simp del: of_nat_add)
  qed
qed

lemma heap_publish_arena_repr:
  assumes "heap_wf h" and "heap_publish_arena h m = (r, h', m')"
  shows "r = HEAP_OK" "heap_wf h'" "h_ready h'" "heap_repr h' m' [(65536, True)]"
proof -
  have b: "HEAP_BASE = of_nat 18446673704965373952" "HEAP_ARENA_BYTES = of_nat 65536"
    by (simp_all add: HEAP_BASE_def HEAP_ARENA_BYTES_def)
  have "heap_blocks_at m' 18446673704965373952 [(65536, True)]"
    using assms(2) publish_block [of 65536 18446673704965373952 m True]
    unfolding heap_publish_arena_def b by simp
  with assms show "r = HEAP_OK" "heap_wf h'" "h_ready h'" "heap_repr h' m' [(65536, True)]"
    by (auto simp: heap_publish_arena_def heap_repr_def heap_wf_def HEAP_BASE_def HEAP_ARENA_BYTES_def
        simp del: heap_blocks_at.simps)
qed

definition heap_started :: "heap \<times> mem" where
  "heap_started = snd (heap_publish_arena heap_static (\<lambda>_. 0))"

lemma heap_started:
  "heap_wf (fst heap_started)" "h_ready (fst heap_started)"
  "heap_repr (fst heap_started) (snd heap_started) [(65536, True)]"
  "foreground c \<Longrightarrow> heap_check c (fst heap_started) (snd heap_started)"
proof -
  obtain r h m where i: "heap_publish_arena heap_static (\<lambda>_. 0) = (r, h, m)" by (cases "heap_publish_arena heap_static (\<lambda>_. 0)")
  have "heap_wf heap_static" by (simp add: heap_wf_def heap_static_def)
  note st = heap_publish_arena_repr [OF this i]
  from i have hm: "fst heap_started = h" "snd heap_started = m" by (simp_all add: heap_started_def)
  show wf: "heap_wf (fst heap_started)" "h_ready (fst heap_started)"
    and rep: "heap_repr (fst heap_started) (snd heap_started) [(65536, True)]"
    using st hm by simp_all
  show "foreground c \<Longrightarrow> heap_check c (fst heap_started) (snd heap_started)"
    using heap_check_iff [OF wf(1)] wf(2) rep by blast
qed

lemma heap_started_places:
  "heap_request 100 64"
  "heap_places 64 (heap_needed 100) (h_base (fst heap_started) + of_nat (blocks_size [])) (of_nat 65536) 48"
proof -
  show "heap_request 100 64"
    by (simp add: heap_request_def HEAP_HDR_def HEAP_FTR_def HEAP_GRAN_def HEAP_ALIGN_MIN_def HEAP_ALIGN_MAX_def)
  have n: "unat (heap_needed 100) = 144" by (simp add: heap_needed_nat)
  have b: "h_base (fst heap_started) = HEAP_BASE" using heap_started(1) by (simp add: heap_wf_def)
  show "heap_places 64 (heap_needed 100) (h_base (fst heap_started) + of_nat (blocks_size [])) (of_nat 65536) 48"
    unfolding heap_places_def n b by (simp add: HEAP_BASE_def)
qed

text \<open>A heap with one live block.\<close>

lemma heap_one_live:
  assumes "foreground c"
  obtains p :: u64 and n h m where "heap_wf h" "heap_check c h m" "(unat p, n) \<in> heap_live h m" "100 \<le> n"
proof (cases rule: heap_alloc_cases [OF heap_started(1,3) assms heap_started(2) heap_started_places(1)])
  case 1
  have "[(65536, True)] = [] @ (65536, True) # ([] :: (nat \<times> bool) list)" by simp
  from 1(2) [OF this] heap_started_places(2) show thesis by blast
next
  case (2 xs s ys G U T p h' m')
  have U: "132 \<le> U" "32 \<le> U" using 2(9) by simp_all
  note live = heap_alloc_live(1) [OF heap_started(1) heap_started(3) [unfolded 2(2)] 2(3,4,6,7) U(2) 2(10)]
  have "heap_check c h' m'" using heap_check_iff [OF 2(4)] assms 2(5,6) by blast
  with 2(4) live U(1) show thesis by (intro that [of h' m' p "U - 32"]) auto
qed

text \<open>
  C7. \<^verbatim>\<open>heap_alloc\<close> on a heap that passes \<^verbatim>\<open>heap_check\<close> always returns. On success the
  pointer is aligned as asked, starts a fresh payload of at least the requested size inside the
  arena, disjoint from every live payload; exactly that payload is added to the live ones, whose
  bytes are untouched. Any other result changes nothing. The heap still passes \<^verbatim>\<open>heap_check\<close>.
\<close>

theorem heap_alloc_sound:
  assumes "heap_wf h" and "heap_check c h m"
  shows "\<exists>r out h' m'. heap_alloc c h m sz align ok = Some (r, out, h', m') \<and>
    heap_wf h' \<and> heap_check c h' m' \<and>
    (if r = HEAP_OK then
       \<exists>p n. out = Some p \<and> unat align dvd unat p \<and> unat sz \<le> n \<and>
         unat (h_base h) \<le> unat p \<and> unat p + n \<le> unat (h_base h) + 65536 \<and>
         heap_live h' m' = insert (unat p, n) (heap_live h m) \<and>
         (\<forall>(q, k) \<in> heap_live h m. (q + k \<le> unat p \<or> unat p + n \<le> q) \<and>
           (\<forall>i < k. m' (of_nat (q + i)) = m (of_nat (q + i))))
     else out = None \<and> h' = h \<and> m' = m)"
proof -
  from assms heap_check_iff [OF assms(1)] obtain bs where
    fg: "foreground c" "h_ready h" and repr: "heap_repr h m bs" by blast
  show ?thesis
  proof (cases "heap_request sz align \<and> ok")
    case False
    then have "\<not> heap_request sz align \<or> \<not> ok \<or> \<not> foreground c \<or> \<not> h_ready h" by blast
    then obtain e where "e \<noteq> HEAP_OK" "heap_alloc c h m sz align ok = Some (e, None, h, m)"
      by (rule heap_alloc_refused)
    with assms show ?thesis by simp
  next
    case True
    then have req: "heap_request sz align" and ok: "ok = True" by simp_all
    show ?thesis
    proof (cases rule: heap_alloc_cases [OF assms(1) repr fg req])
      case 1
      with assms ok show ?thesis by simp
    next
      case (2 xs s ys G U T p h' m')
      have "32 \<le> U" using 2(9) by simp
      note live = heap_alloc_live [OF assms(1) repr [unfolded 2(2)] 2(3,4,6,7) this 2(10)]
      have "blocks_size xs + s \<le> 65536" using heap_repr_nat(2) [OF assms(1) repr] 2(2) by simp
      moreover have "heap_check c h' m'" using heap_check_iff [OF 2(4)] fg 2(5,6) by blast
      ultimately show ?thesis
        using 2(1,3,4,7-9) live ok by (auto intro!: exI [of _ p] exI [of _ "U - 32"])
    qed
  qed
qed

theorem heap_alloc_sound_witness:
  "heap_wf (fst heap_started) \<and>
   heap_check \<lparr>if_disabled = True, in_irq = False\<rparr> (fst heap_started) (snd heap_started) \<and>
   (\<exists>r out h' m'. heap_alloc \<lparr>if_disabled = True, in_irq = False\<rparr> (fst heap_started) (snd heap_started)
      100 64 True = Some (r, out, h', m') \<and>
      heap_check \<lparr>if_disabled = True, in_irq = False\<rparr> h' m')"
proof -
  have c: "heap_check \<lparr>if_disabled = True, in_irq = False\<rparr> (fst heap_started) (snd heap_started)"
    by (rule heap_started) (simp add: foreground_def)
  show ?thesis
    using heap_started(1) c heap_alloc_sound [OF heap_started(1) c, of 100 64 True] by blast
qed

text \<open>
  C8. A valid request on a checked heap succeeds exactly when some free block has a placement for
  it: an offset that is empty or leaves room for a block, that aligns the payload, and after
  which the rounded request with its two tags fits. \<^verbatim>\<open>HEAP_OUT_OF_MEMORY\<close> is never spurious.
\<close>

theorem heap_alloc_complete:
  assumes "heap_wf h" and "heap_check c h m" and "heap_request sz align"
  shows "(\<exists>p h' m'. heap_alloc c h m sz align True = Some (HEAP_OK, Some p, h', m')) \<longleftrightarrow>
    (\<exists>xs s ys x. heap_blocks h m = xs @ (s, True) # ys \<and>
      heap_places align (heap_needed sz) (h_base h + of_nat (blocks_size xs)) (of_nat s) x)"
proof -
  from assms heap_check_iff [OF assms(1)] obtain bs where
    fg: "foreground c" "h_ready h" and repr: "heap_repr h m bs" by blast
  note bs = heap_blocks_repr [OF assms(1) repr]
  show ?thesis
  proof (cases rule: heap_alloc_cases [OF assms(1) repr fg assms(3)])
    case 1
    from 1(1) have "\<not> (\<exists>p h' m'. heap_alloc c h m sz align True = Some (HEAP_OK, Some p, h', m'))" by simp
    with 1(2) show ?thesis unfolding bs by blast
  next
    case (2 xs s ys G U T p h' m')
    from 2(1) have "\<exists>p h' m'. heap_alloc c h m sz align True = Some (HEAP_OK, Some p, h', m')" by blast
    moreover from 2(2,11) have "\<exists>xs s ys x. bs = xs @ (s, True) # ys \<and>
      heap_places align (heap_needed sz) (h_base h + of_nat (blocks_size xs)) (of_nat s) x" by blast
    ultimately show ?thesis unfolding bs by blast
  qed
qed

theorem heap_alloc_complete_witness:
  "heap_request 100 64 \<and>
   (\<exists>p h' m'. heap_alloc \<lparr>if_disabled = True, in_irq = False\<rparr> (fst heap_started) (snd heap_started)
      100 64 True = Some (HEAP_OK, Some p, h', m'))"
proof -
  have c: "heap_check \<lparr>if_disabled = True, in_irq = False\<rparr> (fst heap_started) (snd heap_started)"
    by (rule heap_started) (simp add: foreground_def)
  moreover have "heap_blocks (fst heap_started) (snd heap_started) = [] @ (65536, True) # []"
    using heap_blocks_repr [OF heap_started(1,3)] by simp
  ultimately show ?thesis
    using heap_started_places heap_alloc_complete [OF heap_started(1) c heap_started_places(1)] by blast
qed

lemma heap_payloads_join:
  "heap_payloads b (join_blocks xs s ys) = heap_payloads b xs @ heap_payloads (b + blocks_size xs + s) ys"
  by (cases rule: join_left_cases [of xs]; cases rule: join_right_cases [of ys])
    (simp_all add: join_blocks_def add.assoc)

lemma heap_free_live_set:
  assumes wf: "heap_wf h" and repr: "heap_repr h m (xs @ (k + 32, False) # ys)"
    and wf': "heap_wf h'" and b: "h_base h' = h_base h" and repr': "heap_repr h' m' (join_blocks xs (k + 32) ys)"
    and p: "P = unat (h_base h) + blocks_size xs + 16"
    and frame: "\<And>x. x < unat (h_base h) + blocks_size (fst (join_left xs)) \<or>
        unat (h_base h) + blocks_size xs + (k + 32) + snd (join_right ys) \<le> x \<Longrightarrow> x < addr_end \<Longrightarrow>
        m' (of_nat x) = m (of_nat x)"
  shows "heap_live h' m' = {(q, n) \<in> heap_live h m. q \<noteq> P}"
    and "\<forall>(q, n) \<in> heap_live h' m'. \<forall>i < n. m' (of_nat (q + i)) = m (of_nat (q + i))"
proof -
  let ?b = "unat (h_base h)"
  have live': "heap_live h' m' =
      set (heap_payloads ?b xs) \<union> set (heap_payloads (?b + blocks_size xs + (k + 32)) ys)"
    by (simp add: heap_live_repr [OF wf' repr'] heap_payloads_join b)
  have live: "heap_live h m = insert (P, k) (heap_live h' m')"
    unfolding live' by (simp add: heap_live_repr [OF wf repr] p ac_simps)
  note at = heap_repr_nat(1) [OF wf repr] and at' = heap_repr_nat(1) [OF wf' repr']
  have apart: "q + n + 16 \<le> ?b + blocks_size xs \<or> ?b + blocks_size xs + (k + 32) + 16 \<le> q"
    if "(q, n) \<in> heap_live h' m'" for q n
    using heap_payloads_apart [OF at, of q n] that unfolding live' by simp
  then show "heap_live h' m' = {(q, n) \<in> heap_live h m. q \<noteq> P}"
    unfolding live using p by fastforce
  show "\<forall>(q, n) \<in> heap_live h' m'. \<forall>i < n. m' (of_nat (q + i)) = m (of_nat (q + i))"
  proof clarify
    fix q n i assume q: "(q, n) \<in> heap_live h' m'" and i: "i < n"
    have "(q, n) \<in> set (heap_payloads ?b (join_blocks xs (k + 32) ys))"
      using q heap_live_repr [OF wf' repr'] b by simp
    with heap_payloads_apart [OF at' [unfolded b join_blocks_def], of q n]
    have "q + n \<le> ?b + blocks_size (fst (join_left xs)) \<or>
        ?b + blocks_size (fst (join_left xs)) + (snd (join_left xs) + (k + 32) + snd (join_right ys)) \<le> q"
      by (auto simp: join_blocks_def)
    moreover have "blocks_size (fst (join_left xs)) + snd (join_left xs) = blocks_size xs"
      by (cases rule: join_left_cases [of xs]; simp)
    moreover have "q + n \<le> ?b + 65536" using heap_live_bound [OF wf' repr' q] b by simp
    ultimately show "m' (of_nat (q + i)) = m (of_nat (q + i))"
      using i heap_wf_nat(1) [OF wf] by (intro frame) auto
  qed
qed

lemma heap_free_effect:
  assumes wf: "heap_wf h" and chk: "heap_check c h m" and live: "(unat p, k) \<in> heap_live h m"
  obtains h' m' where "heap_free c h m p = Some (HEAP_OK, h', m')" "heap_wf h'" "heap_check c h' m'"
    "heap_live h' m' = {(q, n) \<in> heap_live h m. q \<noteq> unat p}"
    "\<forall>(q, n) \<in> heap_live h' m'. \<forall>i < n. m' (of_nat (q + i)) = m (of_nat (q + i))"
proof -
  from chk heap_check_iff [OF wf] obtain bs where
    fg: "foreground c" "h_ready h" and repr: "heap_repr h m bs" by blast
  have k: "(unat p, k) \<in> set (heap_payloads (unat (h_base h)) bs)"
    using live by (simp add: heap_live_repr [OF wf repr])
  from heap_payloads_split [OF k heap_repr_nat(1) [OF wf repr]] obtain xs ys where
    bs: "bs = xs @ (k + 32, False) # ys" and p: "unat p = unat (h_base h) + blocks_size xs + 16" by metis
  obtain h' m' where fr: "heap_free c h m p = Some (HEAP_OK, h', m')" "heap_wf h'" "h_ready h'"
    "h_base h' = h_base h" "heap_repr h' m' (join_blocks xs (k + 32) ys)"
    "\<And>x. x < unat (h_base h) + blocks_size (fst (join_left xs)) \<or>
      unat (h_base h) + blocks_size xs + (k + 32) + snd (join_right ys) \<le> x \<Longrightarrow> x < addr_end \<Longrightarrow>
      m' (of_nat x) = m (of_nat x)"
    using heap_free_ok [OF wf repr [unfolded bs] fg p] by metis
  have "heap_check c h' m'" using heap_check_iff [OF fr(2)] fg fr(3,5) by blast
  then show thesis
    by (rule that [OF fr(1,2) _ heap_free_live_set [OF wf repr [unfolded bs] fr(2,4,5) p fr(6)]])
qed

text \<open>
  C9. \<^verbatim>\<open>heap_free\<close> on a checked heap always returns, and succeeds exactly on a pointer that
  starts a live payload. Success removes that payload and no other from the live ones and leaves
  the bytes of the others alone; a refused pointer (never allocated, interior, already freed)
  changes nothing. The heap still passes \<^verbatim>\<open>heap_check\<close>.
\<close>

theorem heap_free_exact:
  assumes "heap_wf h" and "heap_check c h m"
  shows "\<exists>r h' m'. heap_free c h m p = Some (r, h', m') \<and> heap_wf h' \<and> heap_check c h' m' \<and>
    (r = HEAP_OK \<longleftrightarrow> unat p \<in> fst ` heap_live h m) \<and>
    (if r = HEAP_OK then heap_live h' m' = {(q, k) \<in> heap_live h m. q \<noteq> unat p} \<and>
       (\<forall>(q, k) \<in> heap_live h' m'. \<forall>i < k. m' (of_nat (q + i)) = m (of_nat (q + i)))
     else h' = h \<and> m' = m)"
proof -
  from assms heap_check_iff [OF assms(1)] obtain bs where
    fg: "foreground c" "h_ready h" and repr: "heap_repr h m bs" by blast
  note live = heap_live_repr [OF assms(1) repr]
  show ?thesis
  proof (cases "unat p \<in> fst ` heap_live h m")
    case False
    then have "\<And>k. (unat p, k) \<notin> set (heap_payloads (unat (h_base h)) bs)" by (force simp: live)
    then obtain e where "e \<noteq> HEAP_OK" "heap_free c h m p = Some (e, h, m)"
      by (rule heap_free_refused [OF assms(1) repr fg])
    with False assms show ?thesis by simp
  next
    case True
    then obtain k where "(unat p, k) \<in> heap_live h m" by auto
    from heap_free_effect [OF assms this] obtain h' m' where
      "heap_free c h m p = Some (HEAP_OK, h', m')" "heap_wf h'" "heap_check c h' m'"
      "heap_live h' m' = {(q, n) \<in> heap_live h m. q \<noteq> unat p}"
      "\<forall>(q, n) \<in> heap_live h' m'. \<forall>i < n. m' (of_nat (q + i)) = m (of_nat (q + i))" .
    with True show ?thesis by simp
  qed
qed

theorem heap_free_exact_witness:
  "\<exists>h m p. heap_wf h \<and> heap_check \<lparr>if_disabled = True, in_irq = False\<rparr> h m \<and>
    (\<exists>h' m'. heap_free \<lparr>if_disabled = True, in_irq = False\<rparr> h m p = Some (HEAP_OK, h', m') \<and>
      unat p \<notin> fst ` heap_live h' m')"
proof -
  let ?c = "\<lparr>if_disabled = True, in_irq = False\<rparr>"
  have "foreground ?c" by (simp add: foreground_def)
  then obtain p :: u64 and n h m where l: "heap_wf h" "heap_check ?c h m" "(unat p, n) \<in> heap_live h m"
    by (rule heap_one_live)
  from l(3) have p: "unat p \<in> fst ` heap_live h m" by force
  from heap_free_exact [OF l(1,2), of p] obtain r h' m' where "heap_free ?c h m p = Some (r, h', m')"
    "r = HEAP_OK" "heap_live h' m' = {(q, k) \<in> heap_live h m. q \<noteq> unat p}"
    using p by (auto split: if_splits)
  then have "heap_free ?c h m p = Some (HEAP_OK, h', m')" "unat p \<notin> fst ` heap_live h' m'" by auto
  with l show ?thesis by blast
qed

lemma heap_tag_store:
  assumes "x < a \<or> a + 16 \<le> x" and "a + 16 \<le> addr_end" and "x < addr_end"
  shows "heap_tag (m(of_nat x := v)) (of_nat a) = heap_tag m (of_nat a)"
proof -
  have "of_nat a + of_nat i \<noteq> (of_nat x :: u64)" if "i < 16" for i
    using assms that of_nat_inj_word [of "a + i" x, where 'a = 64] by auto
  from this this [of "8 + _"] show ?thesis
    unfolding heap_tag_def by (auto intro!: read64_cong simp: add.assoc)
qed

lemma heap_blocks_store:
  assumes "heap_blocks_at m a bs" and "(q, n) \<in> set (heap_payloads a bs)" and "i < n"
    and "a + blocks_size bs \<le> addr_end"
  shows "heap_blocks_at (m(of_nat (q + i) := v)) a bs"
proof -
  obtain xs ys where bs: "bs = xs @ (n + 32, False) # ys" and q: "q = a + blocks_size xs + 16"
    using heap_payloads_split [OF assms(2,1)] by metis
  have out: "heap_blocks_at (m(of_nat x := v)) b cs"
    if "heap_blocks_at m b cs" "x < b \<or> b + blocks_size cs \<le> x" "b + blocks_size cs \<le> addr_end" "x < addr_end"
    for x b cs
    using that
  proof (induction cs arbitrary: b)
    case (Cons c cs)
    obtain k f where "c = (k, f)" by (cases c)
    with Cons.prems Cons.IH [of "b + k"] show ?case
      by (auto simp: heap_tag_store add.assoc simp del: of_nat_add of_nat_diff fun_upd_apply)
  qed simp
  show ?thesis
    using assms(1,3,4) out [of a xs "q + i"] out [of "a + blocks_size xs + (n + 32)" ys "q + i"]
    unfolding bs q
    by (auto simp: heap_blocks_append heap_tag_store simp del: of_nat_add of_nat_diff fun_upd_apply)
qed

text \<open>
  C10. A store anywhere in a live payload keeps the heap intact: the block list, the live
  payloads and the verdict of \<^verbatim>\<open>heap_check\<close> are those of the heap before the store, so a caller
  that stays inside its payload cannot corrupt the allocator.
\<close>

theorem heap_payload_store:
  assumes "heap_wf h" and "heap_check c h m" and "(q, n) \<in> heap_live h m" and "i < n"
  shows "heap_check c h (m(of_nat (q + i) := v)) \<and>
    heap_blocks h (m(of_nat (q + i) := v)) = heap_blocks h m"
proof -
  from assms heap_check_iff [OF assms(1)] obtain bs where
    fg: "foreground c" "h_ready h" and repr: "heap_repr h m bs" by blast
  note r = heap_repr_nat [OF assms(1) repr] and w = heap_wf_nat [OF assms(1)]
  let ?m' = "m(of_nat (q + i) := v)"
  have "heap_blocks_at ?m' (unat (h_base h)) bs"
    using r(1,2) w assms(3,4) by (intro heap_blocks_store) (auto simp: heap_live_repr [OF assms(1) repr])
  then have repr': "heap_repr h ?m' bs" using repr by (simp add: heap_repr_def)
  then have "heap_check c h ?m'" using heap_check_iff [OF assms(1)] fg by blast
  moreover have "heap_blocks h ?m' = heap_blocks h m"
    by (simp only: heap_blocks_repr [OF assms(1) repr] heap_blocks_repr [OF assms(1) repr'])
  ultimately show ?thesis by blast
qed

theorem heap_payload_store_witness:
  "\<exists>h m q n. heap_wf h \<and> heap_check \<lparr>if_disabled = True, in_irq = False\<rparr> h m \<and>
    (q, n) \<in> heap_live h m \<and> 7 < n \<and>
    heap_check \<lparr>if_disabled = True, in_irq = False\<rparr> h (m(of_nat (q + 7) := 255))"
proof -
  let ?c = "\<lparr>if_disabled = True, in_irq = False\<rparr>"
  have "foreground ?c" by (simp add: foreground_def)
  then obtain p :: u64 and n h m where
    l: "heap_wf h" "heap_check ?c h m" "(unat p, n) \<in> heap_live h m" "100 \<le> n"
    by (rule heap_one_live)
  have n: "7 < n" using l(4) by simp
  show ?thesis
    using l(1-3) n heap_payload_store [OF l(1-3) n, of 255] by blast
qed

end
