(* ===== verification/Pipe.thy ===== *)
theory Pipe
  imports Heap
begin

text \<open>
  The kernel-owned pipe of \<^verbatim>\<open>kernel/core/pipe.c\<close>: one 4096-byte ring in the kernel
  heap between a writer and a reader process. The static variables are the record
  \<open>pipe\<close>; the ring's bytes live in \<open>mem\<close> and its block in the heap of theory \<open>Heap\<close>.
  The process table is read through \<^verbatim>\<open>proc_slot_info\<close> (\<^verbatim>\<open>kernel/core/proc.c\<close>), of
  whose slots the fields it reports are kept. \<^verbatim>\<open>panic\<close> is the outcome \<open>Panics\<close>.
\<close>

section \<open>State\<close>

datatype sys_err =
  SYS_OK | SYS_AGAIN | SYS_INVAL | SYS_NOTFOUND | SYS_MALFORMED | SYS_BADHANDLE | SYS_BUSY |
  SYS_NOMEM | SYS_BADARG | SYS_ALREADY_GONE | SYS_IOERR | SYS_EXISTS | SYS_NOSPC | SYS_END

datatype proc_life = PL_FREE | PL_LOADING | PL_ACTIVE | PL_EXITED | PL_FAULTED | PL_ABORTED

record proc_slot =
  ps_state :: proc_life
  ps_gen :: u64
  ps_stdin_sel :: u32
  ps_stdout_sel :: u32

record proc_table =
  pt_ready :: bool
  pt_slots :: "u32 \<Rightarrow> proc_slot"

definition UAPI_MAX_PROCS :: u32 where "UAPI_MAX_PROCS = 3"
definition STDIN_PIPE :: u32 where "STDIN_PIPE = 2"
definition STDOUT_PIPE :: u32 where "STDOUT_PIPE = 1"
definition PIPE_CAP :: u64 where "PIPE_CAP = 4096"

text \<open>Generation, selectors and liveness of a slot; \<open>None\<close> is the return value 0.\<close>

definition proc_slot_info :: "proc_table \<Rightarrow> u32 \<Rightarrow> (u64 \<times> u32 \<times> u32 \<times> bool) option" where
  "proc_slot_info t slot =
     (if UAPI_MAX_PROCS \<le> slot then None
      else if \<not> pt_ready t then None
      else let s = pt_slots t slot
           in Some (ps_gen s, ps_stdin_sel s, ps_stdout_sel s, ps_state s \<noteq> PL_FREE))"

record pipe =
  pp_live :: bool
  pp_ring :: u64
  pp_rpos :: u64
  pp_wpos :: u64
  pp_count :: u64
  pp_rslot :: u32
  pp_wslot :: u32
  pp_rgen :: u64
  pp_wgen :: u64
  pp_reader_open :: bool
  pp_writer_open :: bool
  pp_full_stalls :: u64
  pp_empty_stalls :: u64
  pp_turns :: u64
  pp_total_written :: u64
  pp_total_read :: u64

text \<open>All statics are zero before the first attach.\<close>

definition pipe_static :: pipe where
  "pipe_static = \<lparr>pp_live = False, pp_ring = 0, pp_rpos = 0, pp_wpos = 0, pp_count = 0,
     pp_rslot = 0, pp_wslot = 0, pp_rgen = 0, pp_wgen = 0, pp_reader_open = False,
     pp_writer_open = False, pp_full_stalls = 0, pp_empty_stalls = 0, pp_turns = 0,
     pp_total_written = 0, pp_total_read = 0\<rparr>"

section \<open>Operations\<close>

definition pipe_allocated :: "pipe \<Rightarrow> bool" where
  "pipe_allocated p = pp_live p"

definition pipe_check :: "cpu_ctx \<Rightarrow> proc_table \<Rightarrow> pipe \<Rightarrow> bool" where
  "pipe_check c t p \<longleftrightarrow>
     if_disabled c \<and> \<not> PIPE_CAP < pp_count p \<and> \<not> (PIPE_CAP \<le> pp_rpos p \<or> PIPE_CAP \<le> pp_wpos p) \<and>
     (if \<not> pp_live p then
        \<not> (pp_ring p \<noteq> 0 \<or> pp_count p \<noteq> 0 \<or> pp_rpos p \<noteq> 0 \<or> pp_wpos p \<noteq> 0) \<and>
        \<not> (pp_reader_open p \<or> pp_writer_open p) \<and> \<not> (pp_rgen p \<noteq> 0 \<or> pp_wgen p \<noteq> 0)
      else
        pp_ring p \<noteq> 0 \<and> \<not> (UAPI_MAX_PROCS \<le> pp_rslot p \<or> UAPI_MAX_PROCS \<le> pp_wslot p) \<and>
        pp_rslot p \<noteq> pp_wslot p \<and>
        (pp_reader_open p \<longrightarrow>
          (case proc_slot_info t (pp_rslot p) of
             None \<Rightarrow> False
           | Some (gen, stdin_sel, _, slot_live) \<Rightarrow>
               slot_live \<and> gen = pp_rgen p \<and> stdin_sel = STDIN_PIPE)) \<and>
        (pp_writer_open p \<longrightarrow>
          (case proc_slot_info t (pp_wslot p) of
             None \<Rightarrow> False
           | Some (gen, _, stdout_sel, slot_live) \<Rightarrow>
               slot_live \<and> gen = pp_wgen p \<and> stdout_sel = STDOUT_PIPE)))"

text \<open>The ring, or \<open>None\<close> for the return value 0; the outer \<open>None\<close> is the heap out of fuel.\<close>

definition pipe_ring_alloc ::
    "cpu_ctx \<Rightarrow> heap \<Rightarrow> mem \<Rightarrow> bool \<Rightarrow> (u64 option \<times> heap \<times> mem) option" where
  "pipe_ring_alloc c h m out =
     (if \<not> foreground c \<or> \<not> out then Some (None, h, m)
      else case heap_alloc c h m PIPE_CAP 8 True of
          None \<Rightarrow> None
        | Some (HEAP_OK, Some p, h', m') \<Rightarrow>
            Some (Some p, h', for_loop (unat PIPE_CAP) (\<lambda>i t. t(p + of_nat i := 0)) m')
        | Some (_, _, h', m') \<Rightarrow> Some (None, h', m'))"

definition pipe_ring_free ::
    "cpu_ctx \<Rightarrow> heap \<Rightarrow> mem \<Rightarrow> u64 \<Rightarrow> (bool \<times> heap \<times> mem) outcome option" where
  "pipe_ring_free c h m ring_ptr =
     (if \<not> foreground c \<or> ring_ptr = 0 then Some (Returns (False, h, m))
      else case heap_free c h m ring_ptr of
          None \<Rightarrow> None
        | Some (r, h', m') \<Rightarrow>
            if r \<noteq> HEAP_OK then Some (Panics ''ring_free'') else Some (Returns (True, h', m')))"

definition pipe_attach ::
    "cpu_ctx \<Rightarrow> proc_table \<Rightarrow> pipe \<Rightarrow> u64 \<Rightarrow> u32 \<Rightarrow> u64 \<Rightarrow> u32 \<Rightarrow> u64 \<Rightarrow> (bool \<times> pipe) outcome" where
  "pipe_attach c t p ring_ptr wslot_in wgen_in rslot_in rgen_in =
     (if \<not> foreground c \<or> ring_ptr = 0 then Returns (False, p)
      else if pp_live p \<or> pp_ring p \<noteq> 0 then Returns (False, p)
      else if UAPI_MAX_PROCS \<le> wslot_in \<or> UAPI_MAX_PROCS \<le> rslot_in then Returns (False, p)
      else if wslot_in = rslot_in \<or> wgen_in = 0 \<or> rgen_in = 0 then Returns (False, p)
      else
        let p' = \<lparr>pp_live = True, pp_ring = ring_ptr, pp_rpos = 0, pp_wpos = 0, pp_count = 0,
          pp_rslot = rslot_in, pp_wslot = wslot_in, pp_rgen = rgen_in, pp_wgen = wgen_in,
          pp_reader_open = True, pp_writer_open = True, pp_full_stalls = 0, pp_empty_stalls = 0,
          pp_turns = 0, pp_total_written = 0, pp_total_read = 0\<rparr>
        in if \<not> pipe_check c t p' then Panics ''attach_check'' else Returns (True, p'))"

text \<open>
  \<^verbatim>\<open>pipe_write\<close> returns the accepted count, \<open>-1\<close> for a closed reader or \<open>-2\<close> for a call it
  refuses. The loop body keeps \<^verbatim>\<open>wpos\<close>, \<^verbatim>\<open>turns\<close> and the memory.
\<close>

definition pipe_write_byte :: "u64 \<Rightarrow> u64 \<Rightarrow> nat \<Rightarrow> u64 \<times> u64 \<times> mem \<Rightarrow> u64 \<times> u64 \<times> mem" where
  "pipe_write_byte ring src i s =
     (case s of (wpos, turns, m) \<Rightarrow>
        let m' = m(ring + wpos := m (src + of_nat i)); wpos' = wpos + 1
        in if wpos' = PIPE_CAP then (0, turns + 1, m') else (wpos', turns, m'))"

definition pipe_write ::
    "cpu_ctx \<Rightarrow> proc_table \<Rightarrow> pipe \<Rightarrow> mem \<Rightarrow> u32 \<Rightarrow> u64 \<Rightarrow> u64 \<Rightarrow> u64 \<Rightarrow> (u64 \<times> pipe \<times> mem) outcome" where
  "pipe_write c t p m slot gen src len =
     (if \<not> foreground c \<or> src = 0 then Returns (- 2, p, m)
      else if \<not> pp_live p \<or> pp_ring p = 0 then Returns (- 2, p, m)
      else if PIPE_CAP < len then Returns (- 2, p, m)
      else if slot \<noteq> pp_wslot p \<or> gen \<noteq> pp_wgen p then Returns (- 2, p, m)
      else if \<not> pp_writer_open p then Returns (- 2, p, m)
      else if \<not> pp_reader_open p then Returns (- 1, p, m)
      else if PIPE_CAP < pp_count p then Returns (- 2, p, m)
      else
        let space = PIPE_CAP - pp_count p in
        if space = 0 \<or> len = 0 then
          if len = 0 then Returns (0, p, m)
          else Returns (0, p\<lparr>pp_full_stalls := pp_full_stalls p + 1\<rparr>, m)
        else
          let n = (if len < space then len else space) in
          case for_loop (unat n) (pipe_write_byte (pp_ring p) src) (pp_wpos p, pp_turns p, m) of
            (wpos', turns', m') \<Rightarrow>
              let p' = p\<lparr>pp_wpos := wpos', pp_turns := turns', pp_count := pp_count p + n,
                    pp_total_written := pp_total_written p + n\<rparr>
              in if \<not> pipe_check c t p' then Panics ''write_check'' else Returns (n, p', m'))"

text \<open>
  \<^verbatim>\<open>pipe_read_stage\<close> returns the result, the value stored in \<^verbatim>\<open>*n\<close> (\<open>None\<close>: untouched), the
  pipe and the memory.
\<close>

definition pipe_read_stage ::
    "cpu_ctx \<Rightarrow> pipe \<Rightarrow> mem \<Rightarrow> u32 \<Rightarrow> u64 \<Rightarrow> u64 \<Rightarrow> u64 \<Rightarrow> bool \<Rightarrow> sys_err \<times> u64 option \<times> pipe \<times> mem" where
  "pipe_read_stage c p m slot gen dst len n =
     (if \<not> foreground c \<or> dst = 0 \<or> \<not> n then (SYS_INVAL, None, p, m)
      else if \<not> pp_live p \<or> pp_ring p = 0 then (SYS_INVAL, None, p, m)
      else if PIPE_CAP < len then (SYS_INVAL, None, p, m)
      else if slot \<noteq> pp_rslot p \<or> gen \<noteq> pp_rgen p then (SYS_INVAL, None, p, m)
      else if \<not> pp_reader_open p then (SYS_INVAL, None, p, m)
      else if PIPE_CAP < pp_count p then (SYS_INVAL, None, p, m)
      else if pp_count p = 0 then
        if pp_writer_open p
        then (SYS_AGAIN, None, p\<lparr>pp_empty_stalls := pp_empty_stalls p + 1\<rparr>, m)
        else (SYS_OK, Some 0, p, m)
      else
        let tk = (if len < pp_count p then len else pp_count p) in
        if tk = 0 then (SYS_AGAIN, None, p\<lparr>pp_empty_stalls := pp_empty_stalls p + 1\<rparr>, m)
        else (SYS_OK, Some tk, p,
          for_loop (unat tk)
            (\<lambda>i t. t(dst + of_nat i := t (pp_ring p + (pp_rpos p + of_nat i) mod PIPE_CAP))) m))"

definition pipe_commit_byte :: "nat \<Rightarrow> u64 \<times> u64 \<Rightarrow> u64 \<times> u64" where
  "pipe_commit_byte i s =
     (case s of (rpos, turns) \<Rightarrow>
        let rpos' = rpos + 1 in if rpos' = PIPE_CAP then (0, turns + 1) else (rpos', turns))"

definition pipe_read_commit :: "cpu_ctx \<Rightarrow> proc_table \<Rightarrow> pipe \<Rightarrow> u64 \<Rightarrow> (bool \<times> pipe) outcome" where
  "pipe_read_commit c t p n =
     (if \<not> foreground c then Returns (False, p)
      else if \<not> pp_live p \<or> pp_ring p = 0 then Returns (False, p)
      else if pp_count p < n \<or> PIPE_CAP < n \<or> PIPE_CAP \<le> pp_rpos p then Returns (False, p)
      else
        case for_loop (unat n) pipe_commit_byte (pp_rpos p, pp_turns p) of
          (rpos', turns') \<Rightarrow>
            let p' = p\<lparr>pp_rpos := rpos', pp_turns := turns', pp_count := pp_count p - n,
                  pp_total_read := pp_total_read p + n\<rparr>
            in if \<not> pipe_check c t p' then Panics ''commit_check'' else Returns (True, p'))"

text \<open>The end of \<^verbatim>\<open>pipe_note_terminal\<close>, once the endpoint flag is cleared.\<close>

definition pipe_settle ::
    "cpu_ctx \<Rightarrow> proc_table \<Rightarrow> pipe \<Rightarrow> heap \<Rightarrow> mem \<Rightarrow> (bool \<times> pipe \<times> heap \<times> mem) outcome option" where
  "pipe_settle c t p h m =
     (if \<not> pp_reader_open p \<and> \<not> pp_writer_open p then
        let p' = p\<lparr>pp_ring := 0, pp_rpos := 0, pp_wpos := 0, pp_count := 0, pp_rgen := 0,
          pp_wgen := 0, pp_live := False\<rparr>
        in case pipe_ring_free c h m (pp_ring p) of
            None \<Rightarrow> None
          | Some (Panics e) \<Rightarrow> Some (Panics e)
          | Some (Returns (ok, h', m')) \<Rightarrow>
              if \<not> ok then Some (Returns (False, p', h', m'))
              else if \<not> pipe_check c t p' then Some (Panics ''close_check'')
              else Some (Returns (True, p', h', m'))
      else if \<not> pipe_check c t p then Some (Panics ''close_check'')
      else Some (Returns (True, p, h, m)))"

definition pipe_note_terminal ::
    "cpu_ctx \<Rightarrow> proc_table \<Rightarrow> pipe \<Rightarrow> heap \<Rightarrow> mem \<Rightarrow> u32 \<Rightarrow> u64 \<Rightarrow>
      (bool \<times> pipe \<times> heap \<times> mem) outcome option" where
  "pipe_note_terminal c t p h m slot gen =
     (if \<not> foreground c then Some (Returns (False, p, h, m))
      else if \<not> pp_live p then Some (Returns (True, p, h, m))
      else if slot = pp_wslot p then
        if gen \<noteq> pp_wgen p then Some (Returns (True, p, h, m))
        else if \<not> pp_writer_open p then Some (Returns (False, p, h, m))
        else pipe_settle c t (p\<lparr>pp_writer_open := False\<rparr>) h m
      else if slot = pp_rslot p then
        if gen \<noteq> pp_rgen p then Some (Returns (True, p, h, m))
        else if \<not> pp_reader_open p then Some (Returns (False, p, h, m))
        else pipe_settle c t (p\<lparr>pp_reader_open := False\<rparr>) h m
      else Some (Returns (True, p, h, m)))"

record pipe_snap =
  sn_allocated :: bool
  sn_count :: u64
  sn_reader_open :: bool
  sn_writer_open :: bool
  sn_reader_slot :: u32
  sn_writer_slot :: u32
  sn_full_stalls :: u64
  sn_empty_stalls :: u64
  sn_turns :: u64
  sn_total_written :: u64
  sn_total_read :: u64

definition pipe_snapshot :: "cpu_ctx \<Rightarrow> pipe \<Rightarrow> bool \<Rightarrow> pipe_snap option" where
  "pipe_snapshot c p out =
     (if \<not> foreground c \<or> \<not> out then None
      else Some \<lparr>sn_allocated = pp_live p, sn_count = pp_count p, sn_reader_open = pp_reader_open p,
        sn_writer_open = pp_writer_open p, sn_reader_slot = pp_rslot p,
        sn_writer_slot = pp_wslot p, sn_full_stalls = pp_full_stalls p,
        sn_empty_stalls = pp_empty_stalls p, sn_turns = pp_turns p,
        sn_total_written = pp_total_written p, sn_total_read = pp_total_read p\<rparr>)"

section \<open>The queue the pipe holds\<close>

definition pipe_items :: "pipe \<Rightarrow> mem \<Rightarrow> u8 list" where
  "pipe_items p m =
     (if pp_live p
      then ring_list (\<lambda>k. m (pp_ring p + of_nat k)) (unat (pp_rpos p)) 4096 (unat (pp_count p))
      else [])"

definition pipe_storage :: "pipe \<Rightarrow> u64 set" where
  "pipe_storage p = (if pp_live p then (\<lambda>k. pp_ring p + of_nat k) ` {..<4096} else {})"

text \<open>
  The invariant: indices in range, the write index \<^verbatim>\<open>count\<close> slots after the read index, and
  the byte counters balanced.
\<close>

definition pipe_wf :: "pipe \<Rightarrow> bool" where
  "pipe_wf p \<longleftrightarrow>
     (pp_live p \<longrightarrow>
       pp_ring p \<noteq> 0 \<and> unat (pp_count p) \<le> 4096 \<and> unat (pp_rpos p) < 4096 \<and>
       unat (pp_wpos p) = (unat (pp_rpos p) + unat (pp_count p)) mod 4096 \<and>
       pp_total_written p = pp_total_read p + pp_count p) \<and>
     (\<not> pp_live p \<longrightarrow> pp_ring p = 0)"

lemma unat_PIPE_CAP [simp]: "unat PIPE_CAP = 4096"
  by (simp add: PIPE_CAP_def)

text \<open>The write and commit loops in closed form.\<close>

lemma ring_index_step:
  fixes k :: nat
  defines "w \<equiv> of_nat (k mod 4096) :: u64"
  shows "w + 1 = PIPE_CAP \<longleftrightarrow> Suc k mod 4096 = 0"
    and "w + 1 \<noteq> PIPE_CAP \<Longrightarrow> w + 1 = of_nat (Suc k mod 4096)"
    and "Suc k mod 4096 = 0 \<Longrightarrow> Suc k div 4096 = Suc (k div 4096)"
    and "Suc k mod 4096 \<noteq> 0 \<Longrightarrow> Suc k div 4096 = k div 4096"
proof -
  have lt: "k mod 4096 < 4096" by simp
  have u: "unat (w + 1) = k mod 4096 + 1"
    unfolding w_def using lt by (subst unat_add_nowrap) (simp_all add: unat_simps)
  show iff: "w + 1 = PIPE_CAP \<longleftrightarrow> Suc k mod 4096 = 0"
    using u by (auto simp: word_unat_eq_iff mod_Suc)
  show "w + 1 = of_nat (Suc k mod 4096)" if "w + 1 \<noteq> PIPE_CAP"
  proof -
    from that iff have "Suc k mod 4096 = k mod 4096 + 1" by (auto simp: mod_Suc split: if_splits)
    then show ?thesis by (simp add: w_def)
  qed
  show "Suc k mod 4096 = 0 \<Longrightarrow> Suc k div 4096 = Suc (k div 4096)"
    and "Suc k mod 4096 \<noteq> 0 \<Longrightarrow> Suc k div 4096 = k div 4096"
    by (auto simp: div_Suc)
qed

lemma pipe_byte_simps:
  "pipe_write_byte ring src i (wpos, turns, m) =
    (if wpos + 1 = PIPE_CAP then (0, turns + 1, m(ring + wpos := m (src + of_nat i)))
     else (wpos + 1, turns, m(ring + wpos := m (src + of_nat i))))"
  "pipe_commit_byte i (rpos, turns) =
    (if rpos + 1 = PIPE_CAP then (0, turns + 1) else (rpos + 1, turns))"
  by (simp_all add: pipe_write_byte_def pipe_commit_byte_def Let_def)

lemma pipe_write_loop:
  assumes "w = of_nat (k mod 4096)"
  shows "for_loop n (pipe_write_byte ring src) (w, turns, m) =
    (of_nat ((k + n) mod 4096), turns + of_nat ((k + n) div 4096 - k div 4096),
     for_loop n (\<lambda>i t. t(ring + of_nat ((k + i) mod 4096) := t (src + of_nat i))) m)"
proof (induction n)
  case 0
  then show ?case using assms by simp
next
  case (Suc n)
  have mono: "k div 4096 \<le> (k + n) div 4096" by (simp add: div_le_mono)
  show ?case
    unfolding for_loop.simps Suc pipe_byte_simps
    using ring_index_step [of "k + n"] mono
    by (cases "Suc (k + n) mod 4096 = 0") (simp_all add: Suc_diff_le del: of_nat_diff fun_upd_apply)
qed

lemma pipe_commit_loop:
  assumes "r = of_nat (k mod 4096)"
  shows "for_loop n pipe_commit_byte (r, turns) =
    (of_nat ((k + n) mod 4096), turns + of_nat ((k + n) div 4096 - k div 4096))"
proof (induction n)
  case 0
  then show ?case using assms by simp
next
  case (Suc n)
  have mono: "k div 4096 \<le> (k + n) div 4096" by (simp add: div_le_mono)
  show ?case
    unfolding for_loop.simps Suc pipe_byte_simps
    using ring_index_step [of "k + n"] mono
    by (cases "Suc (k + n) mod 4096 = 0") (simp_all add: Suc_diff_le del: of_nat_diff)
qed

section \<open>What each operation does to the queue\<close>

definition pipe_apart :: "pipe \<Rightarrow> u64 \<Rightarrow> nat \<Rightarrow> bool" where
  "pipe_apart p a n \<longleftrightarrow> (\<forall>i < n. \<forall>j < 4096. a + of_nat i \<noteq> pp_ring p + of_nat j)"

definition pipe_writable :: "cpu_ctx \<Rightarrow> pipe \<Rightarrow> u32 \<Rightarrow> u64 \<Rightarrow> u64 \<Rightarrow> u64 \<Rightarrow> bool" where
  "pipe_writable c p slot gen src len \<longleftrightarrow>
     foreground c \<and> src \<noteq> 0 \<and> pp_live p \<and> len \<le> PIPE_CAP \<and> slot = pp_wslot p \<and> gen = pp_wgen p \<and>
     pp_writer_open p"

lemma pipe_items_frame:
  "(\<And>a. a \<in> pipe_storage p \<Longrightarrow> m' a = m a) \<Longrightarrow> pipe_items p m' = pipe_items p m"
  unfolding pipe_items_def by (auto simp: pipe_storage_def intro!: ring_list_cong)

lemma pipe_check_written:
  assumes "pipe_check c t p" and "pp_live p" and "unat w < 4096" and "unat k \<le> 4096"
  shows "pipe_check c t (p\<lparr>pp_wpos := w, pp_turns := u, pp_count := k, pp_total_written := n\<rparr>)"
  using assms
  by (auto simp: pipe_check_def word_less_nat_alt word_le_nat_alt not_less not_le split: option.splits)

lemma pipe_check_read:
  assumes "pipe_check c t p" and "pp_live p" and "unat r < 4096" and "unat k \<le> 4096"
  shows "pipe_check c t (p\<lparr>pp_rpos := r, pp_turns := u, pp_count := k, pp_total_read := n\<rparr>)"
  using assms
  by (auto simp: pipe_check_def word_less_nat_alt word_le_nat_alt not_less not_le split: option.splits)

lemma pipe_write_ok:
  assumes wf: "pipe_wf p" and w: "pipe_writable c p slot gen src len" and ro: "pp_reader_open p"
    and len: "len \<noteq> 0" and room: "unat (pp_count p) < 4096"
    and apart: "pipe_apart p src (unat len)"
  defines "n \<equiv> min (unat len) (4096 - unat (pp_count p))"
  obtains p' m' where
    "pipe_write c t p m slot gen src len =
      (if pipe_check c t p' then Returns (of_nat n, p', m') else Panics ''write_check'')"
    "pipe_wf p'" "pipe_items p' m' = pipe_items p m @ bytes_at m src n"
    "\<And>a. a \<notin> pipe_storage p \<Longrightarrow> m' a = m a" "pipe_check c t p \<Longrightarrow> pipe_check c t p'"
    "pp_total_written p' = pp_total_written p + of_nat n"
proof -
  from wf w have inv: "pp_ring p \<noteq> 0" "unat (pp_count p) \<le> 4096" "unat (pp_rpos p) < 4096"
    "unat (pp_wpos p) = (unat (pp_rpos p) + unat (pp_count p)) mod 4096" "pp_live p"
    "pp_total_written p = pp_total_read p + pp_count p"
    by (auto simp: pipe_wf_def pipe_writable_def)
  let ?h = "unat (pp_rpos p)" and ?k = "unat (pp_count p)"
  have space: "unat (PIPE_CAP - pp_count p) = 4096 - ?k"
    using inv(2) by (simp add: unat_diff_nowrap)
  have un: "unat (if len < PIPE_CAP - pp_count p then len else PIPE_CAP - pp_count p) = n"
    by (auto simp: n_def word_less_nat_alt space)
  have wn: "(if len < PIPE_CAP - pp_count p then len else PIPE_CAP - pp_count p) = of_nat n"
    unfolding un [symmetric] by simp
  have un': "unat (of_nat n :: u64) = n" using un unfolding wn .
  have nb: "?k + n \<le> 4096" "n \<le> unat len" using inv(2) by (auto simp: n_def)
  have wp: "pp_wpos p = of_nat ((?h + ?k) mod 4096)" unfolding inv(4) [symmetric] by simp
  let ?m' = "for_loop n (\<lambda>i t. t(pp_ring p + of_nat ((?h + ?k + i) mod 4096) := t (src + of_nat i))) m"
  let ?p' = "p\<lparr>pp_wpos := of_nat ((?h + ?k + n) mod 4096),
    pp_turns := pp_turns p + of_nat ((?h + ?k + n) div 4096 - (?h + ?k) div 4096),
    pp_count := pp_count p + of_nat n, pp_total_written := pp_total_written p + of_nat n\<rparr>"
  have cnt: "unat (pp_count p + of_nat n) = ?k + n"
    using nb by (subst unat_add_nowrap) (simp_all add: unat_simps)
  have nz: "PIPE_CAP - pp_count p \<noteq> 0" using space room by (auto simp: word_unat_eq_iff)
  have eq: "pipe_write c t p m slot gen src len =
      (if pipe_check c t ?p' then Returns (of_nat n, ?p', ?m') else Panics ''write_check'')"
  proof -
    have "\<not> PIPE_CAP < pp_count p" "\<not> PIPE_CAP < len" using inv(2) w
      by (auto simp: word_less_nat_alt pipe_writable_def word_le_nat_alt)
    then show ?thesis
      unfolding pipe_write_def Let_def wn un' wp pipe_write_loop [OF refl]
      using w ro inv(1,5) len nz by (simp add: pipe_writable_def del: of_nat_diff)
  qed
  have wpos: "unat (of_nat ((?h + ?k + n) mod 4096) :: u64) = (?h + ?k + n) mod 4096"
    by (simp add: unat_simps less_trans [OF mod_less_divisor])
  have wf': "pipe_wf ?p'"
    using wf inv nb by (simp add: pipe_wf_def cnt wpos [unfolded add.assoc] add.assoc)
  have sep: "\<forall>i < n. \<forall>j < 4096. src + of_nat i \<noteq> pp_ring p + of_nat j"
    using apart nb(2) by (auto simp: pipe_apart_def)
  have c: "(0 :: nat) < 4096" "(4096 :: nat) < 2 ^ 64" by simp_all
  note wr = ring_write [OF c nb(1) sep, where h = ?h and m = m]
  have items: "pipe_items ?p' ?m' = pipe_items p m @ bytes_at m src n"
    using wr(1) inv(5) by (simp add: pipe_items_def cnt)
  have frame: "?m' a = m a" if "a \<notin> pipe_storage p" for a
    using that inv(5) by (intro wr(2)) (simp add: pipe_storage_def)
  have chk: "pipe_check c t ?p'" if "pipe_check c t p"
    using that inv(5) by (rule pipe_check_written) (use wpos cnt nb(1) in simp_all)
  show thesis by (rule that [OF eq wf' items frame chk]) simp_all
qed

text \<open>A write that accepts nothing.\<close>

lemma pipe_write_none:
  assumes "pipe_wf p" and "\<not> (pipe_writable c p slot gen src len \<and> pp_reader_open p \<and> len \<noteq> 0 \<and>
      unat (pp_count p) < 4096)"
  obtains r s where "pipe_write c t p m slot gen src len = Returns (r, p\<lparr>pp_full_stalls := s\<rparr>, m)"
    "r = - 2 \<or> r = - 1 \<or> r = 0"
    "r = - 2 \<longleftrightarrow> \<not> pipe_writable c p slot gen src len"
    "r = - 1 \<longleftrightarrow> pipe_writable c p slot gen src len \<and> \<not> pp_reader_open p"
proof -
  have same: "p = p\<lparr>pp_full_stalls := pp_full_stalls p\<rparr>" by simp
  have live: "pp_live p \<Longrightarrow> pp_ring p \<noteq> 0" "pp_live p \<Longrightarrow> \<not> PIPE_CAP < pp_count p"
    using assms(1) by (auto simp: pipe_wf_def word_less_nat_alt)
  have room: "PIPE_CAP - pp_count p = 0 \<longleftrightarrow> \<not> unat (pp_count p) < 4096" if "pp_live p"
    using assms(1) that by (auto simp: pipe_wf_def word_unat_eq_iff unat_diff_nowrap)
  have distinct: "(- 2 :: u64) \<noteq> - 1" "(- 2 :: u64) \<noteq> 0" "(- 1 :: u64) \<noteq> 0" by simp_all
  let ?w = "pipe_write c t p m slot gen src len"
  consider (bad) "\<not> pipe_writable c p slot gen src len"
    | (broken) "pipe_writable c p slot gen src len" "\<not> pp_reader_open p"
    | (idle) "pipe_writable c p slot gen src len" "pp_reader_open p" "len = 0"
    | (full) "pipe_writable c p slot gen src len" "pp_reader_open p" "len \<noteq> 0" "\<not> unat (pp_count p) < 4096"
    using assms(2) by blast
  then show thesis
  proof cases
    case bad
    then have "?w = Returns (- 2, p, m)"
      using live by (auto simp: pipe_write_def pipe_writable_def not_le)
    with bad distinct same that [of "- 2" "pp_full_stalls p"] show thesis by simp
  next
    case broken
    then have "?w = Returns (- 1, p, m)"
      using live by (auto simp: pipe_write_def pipe_writable_def not_less)
    with broken distinct same that [of "- 1" "pp_full_stalls p"] show thesis by simp
  next
    case idle
    then have "?w = Returns (0, p, m)"
      using live by (auto simp: pipe_write_def pipe_writable_def Let_def not_less)
    with idle distinct same that [of 0 "pp_full_stalls p"] show thesis by simp
  next
    case full
    then have "?w = Returns (0, p\<lparr>pp_full_stalls := pp_full_stalls p + 1\<rparr>, m)"
      using live room by (auto simp: pipe_write_def pipe_writable_def Let_def not_less)
    with full distinct that [of 0 "pp_full_stalls p + 1"] show thesis by simp
  qed
qed

lemma pipe_wf_stalls [simp]:
  "pipe_wf (p\<lparr>pp_full_stalls := s\<rparr>) = pipe_wf p" "pipe_wf (p\<lparr>pp_empty_stalls := s\<rparr>) = pipe_wf p"
  "pipe_items (p\<lparr>pp_full_stalls := s\<rparr>) m = pipe_items p m"
  "pipe_items (p\<lparr>pp_empty_stalls := s\<rparr>) m = pipe_items p m"
  by (simp_all add: pipe_wf_def pipe_items_def)

definition pipe_readable :: "cpu_ctx \<Rightarrow> pipe \<Rightarrow> u32 \<Rightarrow> u64 \<Rightarrow> u64 \<Rightarrow> u64 \<Rightarrow> bool" where
  "pipe_readable c p slot gen dst len \<longleftrightarrow>
     foreground c \<and> dst \<noteq> 0 \<and> pp_live p \<and> len \<le> PIPE_CAP \<and> slot = pp_rslot p \<and> gen = pp_rgen p \<and>
     pp_reader_open p"

lemma pipe_stage_busy:
  assumes wf: "pipe_wf p" and w: "pipe_readable c p slot gen dst len"
    and apart: "pipe_apart p dst (unat len)" and busy: "pp_count p \<noteq> 0" "len \<noteq> 0"
  obtains m' where "pipe_read_stage c p m slot gen dst len True =
      (SYS_OK, Some (of_nat (min (unat len) (unat (pp_count p)))),
       p\<lparr>pp_empty_stalls := pp_empty_stalls p\<rparr>, m')"
    "bytes_at m' dst (min (unat len) (unat (pp_count p))) =
      take (min (unat len) (unat (pp_count p))) (pipe_items p m)"
    "\<And>a. a \<in> pipe_storage p \<Longrightarrow> m' a = m a"
proof -
  define k where "k = min (unat len) (unat (pp_count p))"
  from wf w have inv: "pp_ring p \<noteq> 0" "unat (pp_count p) \<le> 4096" "unat (pp_rpos p) < 4096" "pp_live p"
    by (auto simp: pipe_wf_def pipe_readable_def)
  have lt: "\<not> PIPE_CAP < pp_count p" "\<not> PIPE_CAP < len" using inv(2) w
    by (auto simp: word_less_nat_alt pipe_readable_def word_le_nat_alt)
  let ?h = "unat (pp_rpos p)"
  let ?m' = "for_loop k (\<lambda>i t. t(dst + of_nat i := t (pp_ring p + of_nat ((?h + i) mod 4096)))) m"
  have uk: "unat (if len < pp_count p then len else pp_count p) = k"
    by (auto simp: k_def word_less_nat_alt)
  have wk: "(if len < pp_count p then len else pp_count p) = of_nat k"
    unfolding uk [symmetric] by simp
  have uk': "unat (of_nat k :: u64) = k" using uk unfolding wk .
  have kb: "k \<le> unat (pp_count p)" "k \<le> 4096" "k \<le> unat len" "k \<noteq> 0"
    using inv(2) busy by (auto simp: k_def min_def word_unat_eq_iff)
  have slot: "(pp_rpos p + of_nat i) mod PIPE_CAP = of_nat ((?h + i) mod 4096)" if "i < k" for i
    using that kb inv(3)
    by (simp add: word_unat_eq_iff unat_mod unat_simps less_trans [OF mod_less_divisor])
  have loop: "for_loop k (\<lambda>i t. t(dst + of_nat i := t (pp_ring p + (pp_rpos p + of_nat i) mod PIPE_CAP))) m = ?m'"
    by (intro for_loop_cong) (simp add: slot)
  have nz: "of_nat k \<noteq> (0 :: u64)" using uk' kb(4) by (metis unsigned_0)
  have "pipe_read_stage c p m slot gen dst len True =
      (SYS_OK, Some (of_nat k), p\<lparr>pp_empty_stalls := pp_empty_stalls p\<rparr>, ?m')"
    using w inv lt busy nz unfolding pipe_read_stage_def Let_def wk uk' loop
    by (auto simp: pipe_readable_def)
  then have eq: "pipe_read_stage c p m slot gen dst len True =
      (SYS_OK, Some (of_nat k), p\<lparr>pp_empty_stalls := pp_empty_stalls p\<rparr>, ?m')" .
  have sep: "\<forall>i < k. \<forall>j < 4096. dst + of_nat i \<noteq> pp_ring p + of_nat j"
    using apart kb(3) by (auto simp: pipe_apart_def)
  have c: "(0 :: nat) < 4096" "(4096 :: nat) < 2 ^ 64" by simp_all
  note rd = ring_read [OF c kb(1,2) sep, where h = ?h and m = m]
  show thesis
  proof (rule that [OF eq [unfolded k_def]], unfold k_def [symmetric])
    show "bytes_at ?m' dst k = take k (pipe_items p m)" using rd(1) inv(4) by (simp add: pipe_items_def)
    show "?m' a = m a" if "a \<in> pipe_storage p" for a
      using that rd(3) inv(4) by (auto simp: pipe_storage_def)
  qed
qed

lemma pipe_stage_spec:
  assumes wf: "pipe_wf p" and apart: "pipe_apart p dst (unat len)"
  defines "k \<equiv> min (unat len) (unat (pp_count p))"
  obtains r v s m' where "pipe_read_stage c p m slot gen dst len True =
      (r, v, p\<lparr>pp_empty_stalls := s\<rparr>, m')"
    "\<forall>a \<in> pipe_storage p. m' a = m a"
    "r = (if \<not> pipe_readable c p slot gen dst len then SYS_INVAL
      else if pipe_items p m = [] \<and> pp_writer_open p then SYS_AGAIN
      else if pipe_items p m \<noteq> [] \<and> len = 0 then SYS_AGAIN else SYS_OK)"
    "r = SYS_OK \<longrightarrow> v = Some (of_nat k) \<and> bytes_at m' dst k = take k (pipe_items p m)"
    "r \<noteq> SYS_OK \<longrightarrow> v = None \<and> m' = m"
proof (cases "pipe_readable c p slot gen dst len")
  case False
  have "pipe_read_stage c p m slot gen dst len True = (SYS_INVAL, None, p\<lparr>pp_empty_stalls := pp_empty_stalls p\<rparr>, m)"
    using False wf by (auto simp: pipe_read_stage_def pipe_readable_def pipe_wf_def not_le)
  with False show thesis by (intro that [of SYS_INVAL None "pp_empty_stalls p" m]) auto
next
  case True
  from wf True have inv: "pp_ring p \<noteq> 0" "unat (pp_count p) \<le> 4096" "unat (pp_rpos p) < 4096" "pp_live p"
    by (auto simp: pipe_wf_def pipe_readable_def)
  have lt: "\<not> PIPE_CAP < pp_count p" "\<not> PIPE_CAP < len" using inv(2) True
    by (auto simp: word_less_nat_alt pipe_readable_def word_le_nat_alt)
  have len_items: "length (pipe_items p m) = unat (pp_count p)" using inv(4) by (simp add: pipe_items_def)
  have nil: "pipe_items p m = [] \<longleftrightarrow> pp_count p = 0"
    using len_items by (metis length_0_conv unat_eq_zero)
  show thesis
  proof (cases "pp_count p = 0 \<or> len = 0")
    case idle: True
    then have k: "k = 0" by (auto simp: k_def)
    show thesis
    proof (cases "pp_count p = 0 \<and> \<not> pp_writer_open p")
      case True
      then have "pipe_read_stage c p m slot gen dst len True =
          (SYS_OK, Some 0, p\<lparr>pp_empty_stalls := pp_empty_stalls p\<rparr>, m)"
        using \<open>pipe_readable c p slot gen dst len\<close> inv lt by (auto simp: pipe_read_stage_def pipe_readable_def)
      with True k nil \<open>pipe_readable c p slot gen dst len\<close> show thesis
        by (intro that [of SYS_OK "Some 0" "pp_empty_stalls p" m]) (auto simp: bytes_at_def)
    next
      case False
      then have "pipe_read_stage c p m slot gen dst len True =
          (SYS_AGAIN, None, p\<lparr>pp_empty_stalls := pp_empty_stalls p + 1\<rparr>, m)"
        using \<open>pipe_readable c p slot gen dst len\<close> inv lt idle
        by (auto simp: pipe_read_stage_def pipe_readable_def Let_def word_gt_0)
      with False idle nil \<open>pipe_readable c p slot gen dst len\<close> show thesis
        by (intro that [of SYS_AGAIN None "pp_empty_stalls p + 1" m]) auto
    qed
  next
    case False
    from pipe_stage_busy [OF wf True apart] False obtain m' where
      "pipe_read_stage c p m slot gen dst len True =
        (SYS_OK, Some (of_nat k), p\<lparr>pp_empty_stalls := pp_empty_stalls p\<rparr>, m')"
      "bytes_at m' dst k = take k (pipe_items p m)" "\<And>a. a \<in> pipe_storage p \<Longrightarrow> m' a = m a"
      unfolding k_def by metis
    with True False nil show thesis
      by (intro that [of SYS_OK "Some (of_nat k)" "pp_empty_stalls p" m']) auto
  qed
qed

lemma pipe_commit_spec:
  assumes wf: "pipe_wf p"
  obtains (no) "pipe_read_commit c t p n = Returns (False, p)"
    | (yes) p' where "pipe_read_commit c t p n =
        (if pipe_check c t p' then Returns (True, p') else Panics ''commit_check'')"
      "foreground c" "pp_live p" "unat n \<le> unat (pp_count p)" "pipe_wf p'"
      "\<And>m. pipe_items p' m = drop (unat n) (pipe_items p m)" "pipe_check c t p \<Longrightarrow> pipe_check c t p'"
      "pp_total_read p' = pp_total_read p + n"
proof (cases "foreground c \<and> pp_live p \<and> unat n \<le> unat (pp_count p)")
  case False
  then have "pipe_read_commit c t p n = Returns (False, p)"
    by (auto simp: pipe_read_commit_def word_less_nat_alt not_le)
  then show thesis by (rule no)
next
  case True
  with wf have inv: "pp_ring p \<noteq> 0" "unat (pp_count p) \<le> 4096" "unat (pp_rpos p) < 4096"
    "unat (pp_wpos p) = (unat (pp_rpos p) + unat (pp_count p)) mod 4096" "pp_live p"
    "pp_total_written p = pp_total_read p + pp_count p" by (auto simp: pipe_wf_def)
  let ?r = "of_nat ((unat (pp_rpos p) + unat n) mod 4096) :: u64"
  let ?p' = "p\<lparr>pp_rpos := ?r,
    pp_turns := pp_turns p + of_nat ((unat (pp_rpos p) + unat n) div 4096 - unat (pp_rpos p) div 4096),
    pp_count := pp_count p - n, pp_total_read := pp_total_read p + n\<rparr>"
  have r: "unat ?r = (unat (pp_rpos p) + unat n) mod 4096"
    by (simp add: unat_simps less_trans [OF mod_less_divisor])
  have cnt: "unat (pp_count p - n) = unat (pp_count p) - unat n" using True by (simp add: unat_diff_nowrap)
  have rp: "pp_rpos p = of_nat (unat (pp_rpos p) mod 4096)" using inv(3) by simp
  have g: "\<not> (pp_count p < n \<or> PIPE_CAP < n \<or> PIPE_CAP \<le> pp_rpos p)"
    using True inv(2,3) by (auto simp: word_less_nat_alt word_le_nat_alt)
  have eq: "pipe_read_commit c t p n =
      (if pipe_check c t ?p' then Returns (True, ?p') else Panics ''commit_check'')"
    using True inv(1) g unfolding pipe_read_commit_def Let_def pipe_commit_loop [OF rp]
    by (simp del: of_nat_diff)
  have "((unat (pp_rpos p) + unat n) mod 4096 + (unat (pp_count p) - unat n)) mod 4096 =
      (unat (pp_rpos p) + unat n + (unat (pp_count p) - unat n)) mod 4096"
    by (rule mod_add_left_eq)
  then have "((unat (pp_rpos p) + unat n) mod 4096 + (unat (pp_count p) - unat n)) mod 4096 =
      (unat (pp_rpos p) + unat (pp_count p)) mod 4096"
    using True by simp
  then have wf': "pipe_wf ?p'" using inv True by (simp add: pipe_wf_def r cnt)
  have items: "pipe_items ?p' m = drop (unat n) (pipe_items p m)" for m
    using True by (simp add: pipe_items_def r cnt ring_list_drop)
  have chk: "pipe_check c t ?p'" if "pipe_check c t p"
    using that inv(5) by (rule pipe_check_read) (use r cnt inv(2) in simp_all)
  show thesis by (rule yes [OF eq _ _ _ wf' items chk]) (use True in simp_all)
qed

lemma pipe_settle_spec:
  assumes "pipe_settle c t p h m = Some (Returns (ok, p', h', m'))" and "pp_live p"
  shows "p' = p \<and> h' = h \<and> m' = m \<and> (pp_reader_open p \<or> pp_writer_open p) \<or>
    \<not> pp_live p' \<and> pp_ring p' = 0 \<and> \<not> pp_reader_open p \<and> \<not> pp_writer_open p"
  using assms
  by (auto simp: pipe_settle_def Let_def split: if_splits option.splits outcome.splits)

section \<open>The pipe as a stream\<close>

text \<open>
  The calls of the interface, a change of the process table, and a store of other code outside
  the ring. Source and destination buffers that meet the ring, and a ring that is not a block of
  addresses, are not calls the kernel makes; such an operation is skipped, as is one that panics.
\<close>

datatype pipe_op =
    PAttach u64 u32 u64 u32 u64
  | PWrite u32 u64 u64 u64
  | PStage u32 u64 u64 u64
  | PCommit u64
  | PTerminal u32 u64
  | PTable proc_table
  | PStore u64 u8

type_synonym pipe_state = "pipe \<times> heap \<times> mem \<times> proc_table"

fun pipe_step :: "cpu_ctx \<Rightarrow> pipe_state \<Rightarrow> pipe_op \<Rightarrow> pipe_state" where
  "pipe_step c (p, h, m, t) (PAttach ring ws wg rs rg) =
     (case pipe_attach c t p ring ws wg rs rg of
        Returns (_, p') \<Rightarrow> (p', h, m, t) | Panics _ \<Rightarrow> (p, h, m, t))"
| "pipe_step c (p, h, m, t) (PWrite slot gen src len) =
     (if \<not> pipe_apart p src (unat len) then (p, h, m, t)
      else case pipe_write c t p m slot gen src len of
        Returns (_, p', m') \<Rightarrow> (p', h, m', t) | Panics _ \<Rightarrow> (p, h, m, t))"
| "pipe_step c (p, h, m, t) (PStage slot gen dst len) =
     (if \<not> pipe_apart p dst (unat len) then (p, h, m, t)
      else case pipe_read_stage c p m slot gen dst len True of (_, _, p', m') \<Rightarrow> (p', h, m', t))"
| "pipe_step c (p, h, m, t) (PCommit n) =
     (case pipe_read_commit c t p n of
        Returns (_, p') \<Rightarrow> (p', h, m, t) | Panics _ \<Rightarrow> (p, h, m, t))"
| "pipe_step c (p, h, m, t) (PTerminal slot gen) =
     (case pipe_note_terminal c t p h m slot gen of
        Some (Returns (_, p', h', m')) \<Rightarrow> (p', h', m', t) | _ \<Rightarrow> (p, h, m, t))"
| "pipe_step c (p, h, m, t) (PTable t') = (p, h, m, t')"
| "pipe_step c (p, h, m, t) (PStore a v) =
     (p, h, if a \<in> pipe_storage p then m else m(a := v), t)"

fun pipe_accepted :: "cpu_ctx \<Rightarrow> pipe_state \<Rightarrow> pipe_op \<Rightarrow> u8 list" where
  "pipe_accepted c (p, h, m, t) (PWrite slot gen src len) =
     (if \<not> pipe_apart p src (unat len) then []
      else case pipe_write c t p m slot gen src len of
        Returns (n, _, _) \<Rightarrow> if n = - 1 \<or> n = - 2 then [] else bytes_at m src (unat n)
      | Panics _ \<Rightarrow> [])"
| "pipe_accepted c s _ = []"

fun pipe_removed :: "cpu_ctx \<Rightarrow> pipe_state \<Rightarrow> pipe_op \<Rightarrow> u8 list" where
  "pipe_removed c (p, h, m, t) (PCommit n) =
     (case pipe_read_commit c t p n of
        Returns (True, _) \<Rightarrow> take (unat n) (pipe_items p m) | _ \<Rightarrow> [])"
| "pipe_removed c (p, h, m, t) (PTerminal slot gen) =
     (case pipe_note_terminal c t p h m slot gen of
        Some (Returns (_, p', _, _)) \<Rightarrow> if pp_live p' then [] else pipe_items p m
      | _ \<Rightarrow> [])"
| "pipe_removed c s _ = []"

definition pipe_queue :: "pipe_state \<Rightarrow> u8 list" where
  "pipe_queue s = (case s of (p, h, m, t) \<Rightarrow> pipe_items p m)"

text \<open>One lemma per operation: the invariant, and the balance of the queue.\<close>

definition pipe_balanced :: "cpu_ctx \<Rightarrow> pipe_state \<Rightarrow> pipe_op \<Rightarrow> bool" where
  "pipe_balanced c s e \<longleftrightarrow>
     pipe_wf (fst (pipe_step c s e)) \<and>
     pipe_queue s @ pipe_accepted c s e = pipe_removed c s e @ pipe_queue (pipe_step c s e)"

lemma pipe_attach_balanced:
  assumes "pipe_wf p"
  shows "pipe_balanced c (p, h, m, t) (PAttach ring ws wg rs rg)"
  using assms
  by (auto simp: pipe_balanced_def pipe_attach_def Let_def pipe_wf_def pipe_queue_def pipe_items_def
      ring_list_def)

lemma pipe_write_balanced:
  assumes wf: "pipe_wf p"
  shows "pipe_balanced c (p, h, m, t) (PWrite slot gen src len)"
proof (cases "pipe_apart p src (unat len)")
  case False
  with wf show ?thesis by (simp add: pipe_balanced_def)
next
  case apart: True
  show ?thesis
  proof (cases "pipe_writable c p slot gen src len \<and> pp_reader_open p \<and> len \<noteq> 0 \<and> unat (pp_count p) < 4096")
    case True
    then obtain p' m' where w: "pipe_write c t p m slot gen src len =
        (if pipe_check c t p' then Returns (of_nat (min (unat len) (4096 - unat (pp_count p))), p', m')
         else Panics ''write_check'')"
      "pipe_wf p'" "pipe_items p' m' = pipe_items p m @ bytes_at m src (min (unat len) (4096 - unat (pp_count p)))"
      using pipe_write_ok [OF wf _ _ _ _ apart, of c slot gen t m] by metis
    let ?n = "min (unat len) (4096 - unat (pp_count p))"
    have "unat (of_nat ?n :: u64) = ?n" by (simp add: unat_simps min.strict_coboundedI1)
    moreover from this have "of_nat ?n \<noteq> (- 1 :: u64)" "of_nat ?n \<noteq> (- 2 :: u64)"
      by (auto simp: word_unat_eq_iff)
    ultimately show ?thesis
      using wf w apart by (auto simp: pipe_balanced_def pipe_queue_def)
  next
    case False
    from pipe_write_none [OF wf this, of t m] obtain r s where
      "pipe_write c t p m slot gen src len = Returns (r, p\<lparr>pp_full_stalls := s\<rparr>, m)"
      "r = - 2 \<or> r = - 1 \<or> r = 0" by metis
    with wf apart show ?thesis by (auto simp: pipe_balanced_def pipe_queue_def bytes_at_def)
  qed
qed

lemma pipe_stage_balanced:
  assumes wf: "pipe_wf p"
  shows "pipe_balanced c (p, h, m, t) (PStage slot gen dst len)"
proof (cases "pipe_apart p dst (unat len)")
  case False
  with wf show ?thesis by (simp add: pipe_balanced_def)
next
  case True
  obtain r v s m' where st: "pipe_read_stage c p m slot gen dst len True = (r, v, p\<lparr>pp_empty_stalls := s\<rparr>, m')"
    "\<forall>a \<in> pipe_storage p. m' a = m a"
    using pipe_stage_spec [OF wf True, where c = c and m = m and slot = slot and gen = gen] by metis
  have "pipe_items p m' = pipe_items p m" by (rule pipe_items_frame) (use st(2) in blast)
  with wf True st(1) show ?thesis by (simp add: pipe_balanced_def pipe_queue_def)
qed

lemma pipe_commit_balanced:
  assumes wf: "pipe_wf p"
  shows "pipe_balanced c (p, h, m, t) (PCommit n)"
  using wf
  by (cases rule: pipe_commit_spec [OF wf, of c t n]) (auto simp: pipe_balanced_def pipe_queue_def)

lemma pipe_terminal_cases:
  assumes "pipe_note_terminal c t p h m slot gen = Some (Returns (ok, p', h', m'))"
  obtains (same) "p' = p" "h' = h" "m' = m"
    | (writer) "pp_live p" "pp_writer_open p" "slot = pp_wslot p" "gen = pp_wgen p"
      "pipe_settle c t (p\<lparr>pp_writer_open := False\<rparr>) h m = Some (Returns (ok, p', h', m'))"
    | (reader) "pp_live p" "pp_reader_open p" "slot = pp_rslot p" "gen = pp_rgen p"
      "pipe_settle c t (p\<lparr>pp_reader_open := False\<rparr>) h m = Some (Returns (ok, p', h', m'))"
proof -
  let ?r = "Some (Returns (ok, p', h', m'))"
  consider "Some (Returns (False, p, h, m)) = ?r \<or> Some (Returns (True, p, h, m)) = ?r"
    | "pp_live p" "slot = pp_wslot p" "gen = pp_wgen p" "pp_writer_open p"
      "pipe_settle c t (p\<lparr>pp_writer_open := False\<rparr>) h m = ?r"
    | "pp_live p" "slot = pp_rslot p" "gen = pp_rgen p" "pp_reader_open p"
      "pipe_settle c t (p\<lparr>pp_reader_open := False\<rparr>) h m = ?r"
    using assms unfolding pipe_note_terminal_def by (metis (full_types))
  then show thesis
  proof cases
    case 1
    then have "p' = p" "h' = h" "m' = m" by auto
    then show thesis by (rule same)
  next
    case 2
    show thesis by (rule writer [OF 2(1,4,2,3,5)])
  next
    case 3
    show thesis by (rule reader [OF 3(1,4,2,3,5)])
  qed
qed

lemma pipe_terminal_balanced:
  assumes wf: "pipe_wf p"
  shows "pipe_balanced c (p, h, m, t) (PTerminal slot gen)"
proof (cases "pipe_note_terminal c t p h m slot gen")
  case None
  with wf show ?thesis by (simp add: pipe_balanced_def)
next
  case (Some o1)
  show ?thesis
  proof (cases o1)
    case (Panics e)
    with Some wf show ?thesis by (simp add: pipe_balanced_def)
  next
    case (Returns x)
    then obtain ok p' h' m' where x: "o1 = Returns (ok, p', h', m')" by (cases x) auto
    have step: "pipe_step c (p, h, m, t) (PTerminal slot gen) = (p', h', m', t)"
      "pipe_removed c (p, h, m, t) (PTerminal slot gen) = (if pp_live p' then [] else pipe_items p m)"
      using Some x by simp_all
    have "pipe_wf p' \<and> pipe_items p m = (if pp_live p' then [] else pipe_items p m) @ pipe_items p' m'"
      using Some [unfolded x]
    proof (cases rule: pipe_terminal_cases)
      case same
      with wf show ?thesis by (simp add: pipe_items_def)
    next
      case writer
      have q: "pp_live (p\<lparr>pp_writer_open := False\<rparr>)" "pipe_wf (p\<lparr>pp_writer_open := False\<rparr>)"
        "pipe_items (p\<lparr>pp_writer_open := False\<rparr>) m = pipe_items p m"
        using writer(1) wf by (simp_all add: pipe_wf_def pipe_items_def)
      from pipe_settle_spec [OF writer(5) q(1)] q show ?thesis
        by (auto simp: pipe_items_def pipe_wf_def)
    next
      case reader
      have q: "pp_live (p\<lparr>pp_reader_open := False\<rparr>)" "pipe_wf (p\<lparr>pp_reader_open := False\<rparr>)"
        "pipe_items (p\<lparr>pp_reader_open := False\<rparr>) m = pipe_items p m"
        using reader(1) wf by (simp_all add: pipe_wf_def pipe_items_def)
      from pipe_settle_spec [OF reader(5) q(1)] q show ?thesis
        by (auto simp: pipe_items_def pipe_wf_def)
    qed
    with step show ?thesis by (simp add: pipe_balanced_def pipe_queue_def)
  qed
qed

lemma pipe_step_balanced:
  assumes "pipe_wf p"
  shows "pipe_balanced c (p, h, m, t) e"
proof (cases e)
  case (PStore a v)
  have "a \<notin> pipe_storage p \<Longrightarrow> pipe_items p (m(a := v)) = pipe_items p m"
    by (rule pipe_items_frame) auto
  with PStore assms show ?thesis by (simp add: pipe_balanced_def pipe_queue_def)
next
  case (PTable t')
  with assms show ?thesis by (simp add: pipe_balanced_def pipe_queue_def)
qed (simp_all add: assms pipe_attach_balanced pipe_write_balanced pipe_stage_balanced
    pipe_commit_balanced pipe_terminal_balanced)

interpretation pq: fifo_stream "\<lambda>s. pipe_wf (fst s)" pipe_queue "pipe_step c" "pipe_accepted c" "pipe_removed c"
proof (unfold_locales, goal_cases)
  case (1 s e)
  then show ?case using pipe_step_balanced [of "fst s" c] by (cases s) (simp add: pipe_balanced_def)
next
  case (2 s e)
  then show ?case using pipe_step_balanced [of "fst s" c] by (cases s) (simp add: pipe_balanced_def)
qed

section \<open>Closing\<close>

text \<open>The endpoint \<open>(slot, gen)\<close> owns and has open, and the state of the other one.\<close>

definition pipe_owns :: "pipe \<Rightarrow> u32 \<Rightarrow> u64 \<Rightarrow> bool" where
  "pipe_owns p slot gen \<longleftrightarrow>
     pp_live p \<and>
     (if slot = pp_wslot p then gen = pp_wgen p \<and> pp_writer_open p
      else slot = pp_rslot p \<and> gen = pp_rgen p \<and> pp_reader_open p)"

definition pipe_other_open :: "pipe \<Rightarrow> u32 \<Rightarrow> bool" where
  "pipe_other_open p slot = (if slot = pp_wslot p then pp_reader_open p else pp_writer_open p)"

definition pipe_close :: "pipe \<Rightarrow> u32 \<Rightarrow> pipe" where
  "pipe_close p slot =
     (if slot = pp_wslot p then p\<lparr>pp_writer_open := False\<rparr> else p\<lparr>pp_reader_open := False\<rparr>)"

lemma pipe_terminal_owner:
  "foreground c \<Longrightarrow> pipe_owns p slot gen \<Longrightarrow>
    pipe_note_terminal c t p h m slot gen = pipe_settle c t (pipe_close p slot) h m"
  by (auto simp: pipe_note_terminal_def pipe_owns_def pipe_close_def split: if_splits)

lemma pipe_terminal_other:
  "\<not> pipe_owns p slot gen \<Longrightarrow>
    \<exists>ok. pipe_note_terminal c t p h m slot gen = Some (Returns (ok, p, h, m))"
  by (auto simp: pipe_note_terminal_def pipe_owns_def split: if_splits)

lemma pipe_close_simps:
  "pp_live (pipe_close p slot) = pp_live p" "pp_ring (pipe_close p slot) = pp_ring p"
  "pipe_items (pipe_close p slot) m = pipe_items p m"
  "pipe_owns p slot gen \<Longrightarrow>
    (pp_reader_open (pipe_close p slot) \<or> pp_writer_open (pipe_close p slot)) = pipe_other_open p slot"
  by (auto simp: pipe_close_def pipe_items_def pipe_owns_def pipe_other_open_def)

lemma pipe_close_check:
  assumes "pipe_check c t p"
  shows "pipe_check c t (pipe_close p slot) \<or> \<not> pp_live p"
  using assms by (auto simp: pipe_check_def pipe_close_def split: option.splits)

lemma pipe_settle_free:
  assumes "pipe_check c t p" and "pp_live p" and "\<not> pp_reader_open p" "\<not> pp_writer_open p"
    and "heap_wf h" and "heap_check c h m" and "(unat (pp_ring p), n) \<in> heap_live h m"
  obtains p' h' m' where "pipe_settle c t p h m = Some (Returns (True, p', h', m'))"
    "p' = p\<lparr>pp_ring := 0, pp_rpos := 0, pp_wpos := 0, pp_count := 0, pp_rgen := 0, pp_wgen := 0,
      pp_live := False\<rparr>"
    "heap_check c h' m'" "heap_live h' m' = {(q, k) \<in> heap_live h m. q \<noteq> unat (pp_ring p)}"
proof -
  let ?p' = "p\<lparr>pp_ring := 0, pp_rpos := 0, pp_wpos := 0, pp_count := 0, pp_rgen := 0, pp_wgen := 0,
    pp_live := False\<rparr>"
  obtain h' m' where fr: "heap_free c h m (pp_ring p) = Some (HEAP_OK, h', m')"
    "heap_wf h'" "heap_check c h' m'" "heap_live h' m' = {(q, k) \<in> heap_live h m. q \<noteq> unat (pp_ring p)}"
    "\<forall>(q, k) \<in> heap_live h' m'. \<forall>i < k. m' (of_nat (q + i)) = m (of_nat (q + i))"
    by (rule heap_free_effect [OF assms(5-7)])
  have fg: "foreground c" using assms(6) by (simp add: heap_check_def)
  then have "pipe_ring_free c h m (pp_ring p) = Some (Returns (True, h', m'))"
    using assms(1,2) fr(1) by (simp add: pipe_ring_free_def pipe_check_def)
  moreover have "pipe_check c t ?p'"
    using assms(1,3,4) by (simp add: pipe_check_def PIPE_CAP_def)
  ultimately have "pipe_settle c t p h m = Some (Returns (True, ?p', h', m'))"
    using assms(3,4) by (simp add: pipe_settle_def Let_def)
  then show thesis by (rule that [OF _ refl fr(3,4)])
qed

section \<open>Properties\<close>

text \<open>A pipe between slot 0 (writer, generation 5) and slot 1 (reader, generation 7).\<close>

definition pipe_demo :: pipe where
  "pipe_demo = pipe_static\<lparr>pp_live := True, pp_ring := 65536, pp_rslot := 1, pp_wslot := 0,
     pp_rgen := 7, pp_wgen := 5, pp_reader_open := True, pp_writer_open := True\<rparr>"

definition procs_demo :: proc_table where
  "procs_demo = \<lparr>pt_ready = True, pt_slots = (\<lambda>i. if i = 0
     then \<lparr>ps_state = PL_ACTIVE, ps_gen = 5, ps_stdin_sel = 0, ps_stdout_sel = 1\<rparr>
     else \<lparr>ps_state = PL_ACTIVE, ps_gen = 7, ps_stdin_sel = 2, ps_stdout_sel = 0\<rparr>)\<rparr>"

lemma pipe_demo:
  "pipe_wf pipe_demo" "pipe_check \<lparr>if_disabled = True, in_irq = False\<rparr> procs_demo pipe_demo"
  by (simp_all add: pipe_wf_def pipe_check_def pipe_demo_def pipe_static_def procs_demo_def
      proc_slot_info_def PIPE_CAP_def UAPI_MAX_PROCS_def STDIN_PIPE_def STDOUT_PIPE_def word_le_nat_alt)

lemma pipe_demo_apart: "pipe_apart pipe_demo 4096 (unat (3 :: u64))"
proof -
  have "(4096 + of_nat i :: u64) \<noteq> 65536 + of_nat j" if "i < 3" "j < 4096" for i j
  proof -
    have "unat (4096 + of_nat i :: u64) = 4096 + i" "unat (65536 + of_nat j :: u64) = 65536 + j"
      using that by (simp_all add: unat_simps)
    with that have "unat (4096 + of_nat i :: u64) \<noteq> unat (65536 + of_nat j :: u64)" by linarith
    then show ?thesis by auto
  qed
  then show ?thesis by (simp add: pipe_apart_def pipe_demo_def)
qed

text \<open>
  C12. The pipe never loses, duplicates, reorders or invents a byte: after any interleaving of
  attach, write, stage, commit and termination calls, process-table changes and stores elsewhere,
  the bytes accepted from writers are exactly the bytes committed to readers (or discarded with
  the ring when both endpoints are gone) followed by the bytes queued, and the invariant holds.
\<close>

theorem pipe_stream_conserved:
  "collect (pipe_step c) (pipe_accepted c) (pipe_static, h, m, t) es =
     collect (pipe_step c) (pipe_removed c) (pipe_static, h, m, t) es @
     pipe_queue (run_ops (pipe_step c) (pipe_static, h, m, t) es) \<and>
   pipe_wf (fst (run_ops (pipe_step c) (pipe_static, h, m, t) es))"
proof -
  have "pipe_wf (fst (pipe_static, h, m, t))" "pipe_queue (pipe_static, h, m, t) = []"
    by (simp_all add: pipe_wf_def pipe_static_def pipe_queue_def pipe_items_def)
  then show ?thesis
    using pq.run_conserves [of "(pipe_static, h, m, t)" c es] pq.run_inv [of "(pipe_static, h, m, t)" c es]
    by simp
qed

text \<open>
  C13. What a write reports. A call without the writer's authority (wrong context, slot,
  generation, length, or a closed writer endpoint) is refused as \<open>-2\<close>; an authorised one reports
  \<open>-1\<close> exactly when the reader endpoint is closed and otherwise accepts as many bytes as fit,
  possibly none, appending exactly that prefix of the source; it writes nothing outside the ring
  and a pipe that passed \<^verbatim>\<open>pipe_check\<close> never panics.
\<close>

theorem pipe_write_reports:
  assumes "pipe_wf p" and "pipe_check c t p" and "pipe_apart p src (unat len)"
  shows "\<exists>r p' m'. pipe_write c t p m slot gen src len = Returns (r, p', m') \<and> pipe_wf p' \<and>
    (if \<not> pipe_writable c p slot gen src len then r = - 2 \<and> pipe_items p' m' = pipe_items p m
     else if \<not> pp_reader_open p then r = - 1 \<and> pipe_items p' m' = pipe_items p m
     else unat r = min (unat len) (4096 - length (pipe_items p m)) \<and>
       pipe_items p' m' = pipe_items p m @ bytes_at m src (unat r)) \<and>
    (\<forall>a. a \<notin> pipe_storage p \<longrightarrow> m' a = m a)"
proof (cases "pipe_writable c p slot gen src len \<and> pp_reader_open p \<and> len \<noteq> 0 \<and> unat (pp_count p) < 4096")
  case True
  then have live: "pp_live p" by (simp add: pipe_writable_def)
  let ?n = "min (unat len) (4096 - unat (pp_count p))"
  obtain p' m' where w: "pipe_write c t p m slot gen src len =
      (if pipe_check c t p' then Returns (of_nat ?n, p', m') else Panics ''write_check'')"
    "pipe_wf p'" "pipe_items p' m' = pipe_items p m @ bytes_at m src ?n"
    "\<And>a. a \<notin> pipe_storage p \<Longrightarrow> m' a = m a" "pipe_check c t p \<Longrightarrow> pipe_check c t p'"
    using pipe_write_ok [OF assms(1) _ _ _ _ assms(3), of c slot gen t m] True by metis
  have "unat (of_nat ?n :: u64) = ?n" by (simp add: unat_simps min.strict_coboundedI1)
  moreover have "length (pipe_items p m) = unat (pp_count p)" using live by (simp add: pipe_items_def)
  ultimately show ?thesis using True w assms(2) by simp
next
  case False
  obtain r s where w: "pipe_write c t p m slot gen src len = Returns (r, p\<lparr>pp_full_stalls := s\<rparr>, m)"
    "r = - 2 \<or> r = - 1 \<or> r = 0" "r = - 2 \<longleftrightarrow> \<not> pipe_writable c p slot gen src len"
    "r = - 1 \<longleftrightarrow> pipe_writable c p slot gen src len \<and> \<not> pp_reader_open p"
    by (rule pipe_write_none [OF assms(1) False])
  have len: "pipe_writable c p slot gen src len \<Longrightarrow> length (pipe_items p m) = unat (pp_count p)"
    by (simp add: pipe_items_def pipe_writable_def)
  show ?thesis
    using False w assms(1) len by (auto simp: bytes_at_def)
qed

theorem pipe_write_reports_witness:
  "pipe_wf pipe_demo \<and> pipe_check \<lparr>if_disabled = True, in_irq = False\<rparr> procs_demo pipe_demo \<and>
   (\<exists>r p' m'. pipe_write \<lparr>if_disabled = True, in_irq = False\<rparr> procs_demo pipe_demo (\<lambda>a. ucast a)
      0 5 4096 3 = Returns (r, p', m') \<and> r = 3 \<and> pipe_items p' m' = [0, 1, 2])"
proof -
  let ?c = "\<lparr>if_disabled = True, in_irq = False\<rparr>"
  have items: "pipe_items pipe_demo m = []" for m
    by (simp add: pipe_items_def pipe_demo_def pipe_static_def ring_list_def)
  have w: "pipe_writable ?c pipe_demo 0 5 4096 3" "pp_reader_open pipe_demo"
    by (simp_all add: pipe_writable_def pipe_demo_def foreground_def PIPE_CAP_def)
  have b: "bytes_at (\<lambda>a. ucast a) 4096 3 = [0, 1, 2]" by (simp add: bytes_at_def upt_rec)
  from pipe_write_reports [OF pipe_demo(1,2) pipe_demo_apart, of "\<lambda>a. ucast a" 0 5] w pipe_demo
  obtain r p' m' where "pipe_write ?c procs_demo pipe_demo (\<lambda>a. ucast a) 0 5 4096 3 = Returns (r, p', m')"
    "unat r = 3" "pipe_items p' m' = bytes_at (\<lambda>a. ucast a) 4096 3"
    by (auto simp: items)
  moreover from this(2) have "r = 3" by (simp add: word_unat_eq_iff)
  ultimately show ?thesis using pipe_demo b by simp
qed

text \<open>
  C14. What a read reports. Staging never dequeues: the queue is the same afterwards whatever the
  result, so a failed publication loses nothing. End of stream (\<^verbatim>\<open>SYS_OK\<close> with 0) is reported
  exactly when the queue is empty and the writer endpoint closed, \<^verbatim>\<open>SYS_AGAIN\<close> when it is empty
  with the writer open and also for a zero-length read of a nonempty queue; otherwise the staged
  bytes are the oldest ones, as many as fit.
\<close>

theorem pipe_read_reports:
  assumes "pipe_wf p" and "pipe_apart p dst (unat len)"
  shows "\<exists>r v p' m'. pipe_read_stage c p m slot gen dst len True = (r, v, p', m') \<and>
    pipe_wf p' \<and> pipe_items p' m' = pipe_items p m \<and>
    (r = SYS_AGAIN \<longleftrightarrow> pipe_readable c p slot gen dst len \<and>
      (if pipe_items p m = [] then pp_writer_open p else len = 0)) \<and>
    (r = SYS_OK \<and> v = Some 0 \<longleftrightarrow> pipe_readable c p slot gen dst len \<and> pipe_items p m = [] \<and>
      \<not> pp_writer_open p) \<and>
    (r = SYS_OK \<longrightarrow> (\<exists>n. v = Some n \<and> unat n = min (unat len) (length (pipe_items p m)) \<and>
      bytes_at m' dst (unat n) = take (unat n) (pipe_items p m))) \<and>
    (r \<noteq> SYS_OK \<longrightarrow> v = None \<and> m' = m)"
proof -
  let ?k = "min (unat len) (unat (pp_count p))"
  obtain r v s m' where st: "pipe_read_stage c p m slot gen dst len True = (r, v, p\<lparr>pp_empty_stalls := s\<rparr>, m')"
    "\<forall>a \<in> pipe_storage p. m' a = m a"
    "r = (if \<not> pipe_readable c p slot gen dst len then SYS_INVAL
      else if pipe_items p m = [] \<and> pp_writer_open p then SYS_AGAIN
      else if pipe_items p m \<noteq> [] \<and> len = 0 then SYS_AGAIN else SYS_OK)"
    "r = SYS_OK \<longrightarrow> v = Some (of_nat ?k) \<and> bytes_at m' dst ?k = take ?k (pipe_items p m)"
    "r \<noteq> SYS_OK \<longrightarrow> v = None \<and> m' = m"
    by (rule pipe_stage_spec [OF assms, where c = c and m = m and slot = slot and gen = gen])
  have items: "pipe_items p m' = pipe_items p m" by (rule pipe_items_frame) (use st(2) in blast)
  have k: "unat (of_nat ?k :: u64) = ?k"
    using unat_lt_u64 [of len] by (intro unat_of_nat_small) (simp add: min_def del: unat_lt_u64)
  have n: "length (pipe_items p m) = unat (pp_count p)" if "pipe_readable c p slot gen dst len"
    using that by (simp add: pipe_items_def pipe_readable_def)
  have z: "of_nat ?k = (0 :: u64) \<longleftrightarrow> ?k = 0" unfolding word_unat_eq_iff k by simp
  have again: "r = SYS_AGAIN \<longleftrightarrow> pipe_readable c p slot gen dst len \<and>
      (if pipe_items p m = [] then pp_writer_open p else len = 0)"
    using st(3) by auto
  have ok: "r = SYS_OK \<Longrightarrow> pipe_readable c p slot gen dst len \<and> v = Some (of_nat ?k) \<and>
      (pipe_items p m = [] \<and> \<not> pp_writer_open p \<or> pipe_items p m \<noteq> [] \<and> len \<noteq> 0)"
    using st(3,4) by (auto split: if_splits)
  have eof: "r = SYS_OK \<and> v = Some 0 \<longleftrightarrow> pipe_readable c p slot gen dst len \<and> pipe_items p m = [] \<and>
      \<not> pp_writer_open p"
  proof
    assume "r = SYS_OK \<and> v = Some 0"
    with ok z n show "pipe_readable c p slot gen dst len \<and> pipe_items p m = [] \<and> \<not> pp_writer_open p"
      by (auto simp: min_def word_unat_eq_iff split: if_splits)
  next
    assume "pipe_readable c p slot gen dst len \<and> pipe_items p m = [] \<and> \<not> pp_writer_open p"
    with st(3,4) n show "r = SYS_OK \<and> v = Some 0" by (auto simp: min_def)
  qed
  have staged: "r = SYS_OK \<longrightarrow> (\<exists>n. v = Some n \<and> unat n = min (unat len) (length (pipe_items p m)) \<and>
      bytes_at m' dst (unat n) = take (unat n) (pipe_items p m))"
    using ok n st(4) k by auto
  show ?thesis
    unfolding st(1) using assms(1) items again eof staged st(5) by simp
qed

theorem pipe_read_reports_witness:
  "pipe_wf pipe_demo \<and> pipe_apart pipe_demo 4096 (unat (3 :: u64)) \<and>
   fst (pipe_read_stage \<lparr>if_disabled = True, in_irq = False\<rparr> pipe_demo (\<lambda>a. 0) 1 7 4096 3 True) = SYS_AGAIN"
proof -
  let ?c = "\<lparr>if_disabled = True, in_irq = False\<rparr>"
  have r: "pipe_readable ?c pipe_demo 1 7 4096 3" "pp_writer_open pipe_demo" "pipe_items pipe_demo (\<lambda>a. 0) = []"
    by (simp_all add: pipe_readable_def pipe_demo_def pipe_static_def foreground_def PIPE_CAP_def
        pipe_items_def ring_list_def)
  show ?thesis
    using pipe_demo(1) pipe_demo_apart r
      pipe_read_reports [OF pipe_demo(1) pipe_demo_apart, where c = ?c and m = "\<lambda>a. 0" and slot = 1 and gen = 7]
    by auto
qed

text \<open>
  C15. When a process ends. If it owns an open endpoint, exactly that endpoint closes: while the
  other one stays open the ring, its bytes and the heap are untouched; when it was the last one
  the ring's block leaves the heap's live payloads, no other block does, and the pipe is free
  again. A process that owns no open endpoint (another slot, a recycled slot with an older
  generation, a second report of the same end) changes nothing. There is no panic.
\<close>

theorem pipe_terminal_closes:
  assumes "pipe_check c t p" and "pp_live p" and "heap_wf h" and "heap_check c h m"
    and "(unat (pp_ring p), n) \<in> heap_live h m"
  shows "\<exists>ok p' h' m'. pipe_note_terminal c t p h m slot gen = Some (Returns (ok, p', h', m')) \<and>
    heap_check c h' m' \<and>
    (if \<not> pipe_owns p slot gen then p' = p \<and> h' = h \<and> m' = m
     else ok \<and> (if pipe_other_open p slot
       then p' = pipe_close p slot \<and> h' = h \<and> m' = m
       else \<not> pp_live p' \<and> pp_ring p' = 0 \<and>
         heap_live h' m' = {(q, k) \<in> heap_live h m. q \<noteq> unat (pp_ring p)}))"
proof (cases "pipe_owns p slot gen")
  case False
  with pipe_terminal_other [OF False, of c t h m] assms(4) show ?thesis by auto
next
  case True
  have fg: "foreground c" using assms(4) by (simp add: heap_check_def)
  note eq = pipe_terminal_owner [OF fg True, of t h m]
  let ?q = "pipe_close p slot"
  have q: "pipe_check c t ?q" "pp_live ?q" "(unat (pp_ring ?q), n) \<in> heap_live h m"
    using pipe_close_check [OF assms(1), of slot] assms(2,5) by (simp_all add: pipe_close_simps)
  note other = pipe_close_simps(4) [OF True]
  show ?thesis
  proof (cases "pipe_other_open p slot")
    case opened: True
    then have "pipe_settle c t ?q h m = Some (Returns (True, ?q, h, m))"
      using q(1) other by (auto simp: pipe_settle_def)
    with eq opened True assms(4) show ?thesis by auto
  next
    case False
    with other have closed: "\<not> pp_reader_open ?q" "\<not> pp_writer_open ?q" by auto
    obtain p' h' m' where "pipe_settle c t ?q h m = Some (Returns (True, p', h', m'))"
      "p' = ?q\<lparr>pp_ring := 0, pp_rpos := 0, pp_wpos := 0, pp_count := 0, pp_rgen := 0, pp_wgen := 0,
        pp_live := False\<rparr>"
      "heap_check c h' m'" "heap_live h' m' = {(x, k) \<in> heap_live h m. x \<noteq> unat (pp_ring ?q)}"
      by (rule pipe_settle_free [OF q(1,2) closed assms(3,4) q(3)])
    with eq False True show ?thesis by (auto simp: pipe_close_simps)
  qed
qed

theorem pipe_terminal_closes_witness:
  "\<exists>h m p. heap_check \<lparr>if_disabled = True, in_irq = False\<rparr> h m \<and> pp_live p \<and> pipe_owns p 0 5 \<and>
    (\<exists>p' h' m'. pipe_note_terminal \<lparr>if_disabled = True, in_irq = False\<rparr> procs_demo p h m 0 5 =
        Some (Returns (True, p', h', m')) \<and> \<not> pp_live p')"
proof -
  let ?c = "\<lparr>if_disabled = True, in_irq = False\<rparr>"
  have "foreground ?c" by (simp add: foreground_def)
  then obtain r :: u64 and n h m where
    l: "heap_wf h" "heap_check ?c h m" "(unat r, n) \<in> heap_live h m" "100 \<le> n"
    by (rule heap_one_live)
  let ?p = "pipe_demo\<lparr>pp_ring := r, pp_reader_open := False\<rparr>"
  from l(1,2) heap_check_iff [OF l(1)] obtain bs where "heap_repr h m bs" by blast
  then have "16 \<le> unat r"
    using l(1,3) heap_payloads_bounds [of m "unat (h_base h)" bs "unat r" n]
    by (auto simp: heap_live_repr heap_repr_nat(1))
  then have r: "r \<noteq> 0" by auto
  have chk: "pipe_check ?c procs_demo ?p"
    using r by (simp add: pipe_check_def pipe_demo_def pipe_static_def procs_demo_def
        proc_slot_info_def PIPE_CAP_def UAPI_MAX_PROCS_def STDIN_PIPE_def STDOUT_PIPE_def word_le_nat_alt)
  have own: "pipe_owns ?p 0 5" "\<not> pipe_other_open ?p 0" "pp_live ?p" "pp_ring ?p = r"
    by (simp_all add: pipe_owns_def pipe_other_open_def pipe_demo_def pipe_static_def)
  from l(3) own(4) have live: "(unat (pp_ring ?p), n) \<in> heap_live h m" by simp
  from pipe_terminal_closes [OF chk own(3) l(1,2) live, where slot = 0 and gen = 5] own(1,2)
  obtain p' h' m' where "pipe_note_terminal ?c procs_demo ?p h m 0 5 = Some (Returns (True, p', h', m'))"
    "\<not> pp_live p'" by auto
  with l(2) own(1,3) show ?thesis by blast
qed

end
