(* ===== verification/Pmm_Map.thy ===== *)
theory Pmm_Map
  imports Prelude
begin

text \<open>
  Normalization of the firmware's memory map (\<^verbatim>\<open>src/kernel/mm/map.c\<close>): the E820 entries the
  boot code hands over become candidate intervals of whole pages, and a boundary
  sweep turns the candidates, which may overlap, into sorted disjoint regions in
  which the most restrictive claim on an address wins.

  Addresses and lengths are naturals. Every sum is formed after the check that
  the entry ends below the physical limit, at most 2 to the 52nd, so none wraps.
  The lemmas show that the regions are exactly the strongest claim on each page,
  and that the region array never overflows.
\<close>

section \<open>Data\<close>

abbreviation PMM_PAGE_SIZE :: nat where
  "PMM_PAGE_SIZE \<equiv> 4096"

definition BOOT_MAP_MAGIC :: u32 where
  "BOOT_MAP_MAGIC = 0x50414d52"

definition BOOT_MAP_CAPACITY :: nat where
  "BOOT_MAP_CAPACITY = 64"

definition PMM_MAX_REGIONS :: nat where
  "PMM_MAX_REGIONS = BOOT_MAP_CAPACITY * 6 + 8"

datatype pmm_kind = PMM_HOLE | PMM_USABLE | PMM_RESERVED | PMM_ACPI_RECLAIM | PMM_ACPI_NVS
  | PMM_BAD | PMM_PERSISTENT | PMM_BOOT_RESERVED | PMM_METADATA

record pmm_region =
  r_base :: nat
  r_end :: nat
  r_kind :: pmm_kind

definition region :: "nat \<Rightarrow> nat \<Rightarrow> pmm_kind \<Rightarrow> pmm_region" where
  "region b e k = \<lparr>r_base = b, r_end = e, r_kind = k\<rparr>"

record boot_memory_entry =
  be_base :: nat
  be_length :: nat
  be_type :: u32
  be_attributes :: u32
  be_returned_size :: u32
  be_reserved :: u32

record boot_memory_map =
  bm_magic :: u32
  bm_version :: u32
  bm_count :: u32
  bm_capacity :: u32
  bm_stride :: u32
  bm_status :: u32
  bm_bytes :: u32
  bm_reserved :: u32
  bm_entries :: "nat \<Rightarrow> boot_memory_entry"

section \<open>Candidates\<close>

definition priority :: "pmm_kind \<Rightarrow> nat" where
  "priority k = (case k of PMM_USABLE \<Rightarrow> 1 | PMM_ACPI_RECLAIM \<Rightarrow> 2 | PMM_PERSISTENT \<Rightarrow> 3
     | PMM_ACPI_NVS \<Rightarrow> 4 | PMM_BAD \<Rightarrow> 6 | _ \<Rightarrow> 5)"

text \<open>\<^verbatim>\<open>x & ~(PMM_PAGE_SIZE - 1)\<close>, and the same after adding \<^verbatim>\<open>PMM_PAGE_SIZE - 1\<close>.\<close>

definition page_down :: "nat \<Rightarrow> nat" where
  "page_down x = x div PMM_PAGE_SIZE * PMM_PAGE_SIZE"

definition page_up :: "nat \<Rightarrow> nat" where
  "page_up x = page_down (x + (PMM_PAGE_SIZE - 1))"

definition valid_header :: "boot_memory_map \<Rightarrow> bool" where
  "valid_header m \<longleftrightarrow> bm_magic m = BOOT_MAP_MAGIC \<and> bm_version m = 1 \<and> bm_status m = 1 \<and>
     unat (bm_capacity m) = BOOT_MAP_CAPACITY \<and> bm_count m \<noteq> 0 \<and> unat (bm_count m) \<le> BOOT_MAP_CAPACITY \<and>
     bm_stride m = 32 \<and> bm_bytes m = 4096 \<and> bm_reserved m = 0"

definition type_kind :: "u32 \<Rightarrow> pmm_kind" where
  "type_kind t = (if t = 1 then PMM_USABLE else if t = 3 then PMM_ACPI_RECLAIM else if t = 4 then PMM_ACPI_NVS
     else if t = 5 then PMM_BAD else if t = 7 then PMM_PERSISTENT else PMM_RESERVED)"

definition entry_kind :: "boot_memory_entry \<Rightarrow> pmm_kind" where
  "entry_kind e = (if be_returned_size e = 24 \<and> be_attributes e AND NOT 1 \<noteq> 0 then PMM_RESERVED
     else type_kind (be_type e))"

text \<open>One iteration of the entry loop: the candidates the entry adds.\<close>

definition entry_candidates :: "nat \<Rightarrow> boot_memory_entry \<Rightarrow> string + pmm_region list" where
  "entry_candidates limit e =
    (if be_returned_size e \<noteq> 20 \<and> be_returned_size e \<noteq> 24 \<or> be_reserved e \<noteq> 0 then Inl ''invalid_entry_size''
     else if be_returned_size e = 24 \<and> be_attributes e AND 1 = 0 then Inr []
     else if be_length e = 0 then Inr []
     else if limit \<le> be_base e \<or> limit - be_base e < be_length e then Inl ''invalid_physical_range''
     else let fin = be_base e + be_length e; low = page_down (be_base e); high = page_up fin in
       if entry_kind e \<noteq> PMM_USABLE then Inr [region low high (entry_kind e)]
       else let start = page_up (be_base e); finish = page_down fin in
         if finish \<le> start then Inr [region low high PMM_RESERVED]
         else Inr ((if low < start then [region low start PMM_RESERVED] else []) @ [region start finish PMM_USABLE] @
                   (if finish < high then [region finish high PMM_RESERVED] else [])))"

fun all_candidates :: "nat \<Rightarrow> boot_memory_entry list \<Rightarrow> string + pmm_region list" where
  "all_candidates limit [] = Inr []"
| "all_candidates limit (e # es) =
    (case entry_candidates limit e of
       Inl msg \<Rightarrow> Inl msg
     | Inr cs \<Rightarrow> (case all_candidates limit es of Inl msg \<Rightarrow> Inl msg | Inr ds \<Rightarrow> Inr (cs @ ds)))"

section \<open>The boundary sweep\<close>

definition next_boundary :: "pmm_region list \<Rightarrow> nat \<Rightarrow> nat \<Rightarrow> nat" where
  "next_boundary cs cursor limit =
    fold (\<lambda>r nxt. let nxt' = (if cursor < r_base r \<and> r_base r < nxt then r_base r else nxt)
                   in if cursor < r_end r \<and> r_end r < nxt' then r_end r else nxt') cs limit"

definition strongest :: "pmm_region list \<Rightarrow> nat \<Rightarrow> pmm_kind \<times> nat" where
  "strongest cs cursor =
    fold (\<lambda>r (kind, rank). if r_base r \<le> cursor \<and> cursor < r_end r \<and> rank < priority (r_kind r)
                             then (r_kind r, priority (r_kind r)) else (kind, rank)) cs (PMM_HOLE, 0)"

definition add_region :: "pmm_region list \<Rightarrow> nat \<Rightarrow> nat \<Rightarrow> pmm_kind \<Rightarrow> string + pmm_region list" where
  "add_region rs cursor nxt kind =
    (if kind = PMM_HOLE then Inr rs
     else if rs \<noteq> [] \<and> r_end (last rs) = cursor \<and> r_kind (last rs) = kind
     then Inr (butlast rs @ [(last rs)\<lparr>r_end := nxt\<rparr>])
     else if PMM_MAX_REGIONS \<le> length rs then Inl ''normalized_map_capacity''
     else Inr (rs @ [region cursor nxt kind]))"

lemma next_boundary_gt: "cursor < limit \<Longrightarrow> cursor < next_boundary cs cursor limit"
proof -
  have "cursor < n \<Longrightarrow> cursor < fold (\<lambda>r nxt. let nxt' = (if cursor < r_base r \<and> r_base r < nxt then r_base r else nxt)
                   in if cursor < r_end r \<and> r_end r < nxt' then r_end r else nxt') cs n" for n
    by (induction cs arbitrary: n) (auto simp: Let_def)
  then show "cursor < limit \<Longrightarrow> ?thesis" by (simp add: next_boundary_def)
qed

function sweep :: "pmm_region list \<Rightarrow> nat \<Rightarrow> nat \<Rightarrow> pmm_region list \<Rightarrow> string + pmm_region list" where
  "sweep cs limit cursor rs =
    (if cursor < limit then
       let nxt = next_boundary cs cursor limit in
       (case add_region rs cursor nxt (fst (strongest cs cursor)) of
          Inl msg \<Rightarrow> Inl msg
        | Inr rs' \<Rightarrow> sweep cs limit nxt rs')
     else Inr rs)"
  by pat_completeness auto
termination
  by (relation "measure (\<lambda>(cs, limit, cursor, rs). limit - cursor)")
     (auto simp: next_boundary_gt diff_less_mono2)

declare sweep.simps [simp del]

definition first_base :: "pmm_region list \<Rightarrow> nat \<Rightarrow> nat" where
  "first_base cs limit = fold (\<lambda>r cursor. if r_base r < cursor then r_base r else cursor) cs limit"

text \<open>The result is the error text \<^verbatim>\<open>pmm_error\<close> reports, or the regions.\<close>

definition pmm_normalize :: "boot_memory_map option \<Rightarrow> nat \<Rightarrow> string + pmm_region list" where
  "pmm_normalize map_arg bits =
    (case map_arg of
       None \<Rightarrow> Inl ''null_map_argument''
     | Some m \<Rightarrow>
         if bits < 32 \<or> 52 < bits then Inl ''physical_address_width''
         else if \<not> valid_header m then Inl ''invalid_handoff_header''
         else let limit = 2 ^ bits in
           (case all_candidates limit (map (bm_entries m) [0..<unat (bm_count m)]) of
              Inl msg \<Rightarrow> Inl msg
            | Inr cs \<Rightarrow> if cs = [] then Inl ''empty_memory_map'' else sweep cs limit (first_base cs limit) []))"

section \<open>Facts about one sweep step\<close>

definition covers :: "pmm_region \<Rightarrow> nat \<Rightarrow> bool" where
  "covers r x \<longleftrightarrow> r_base r \<le> x \<and> x < r_end r"

definition boundaries :: "pmm_region list \<Rightarrow> nat set" where
  "boundaries cs = r_base ` set cs \<union> r_end ` set cs"

lemma region_simps [simp]:
  "r_base (region b e k) = b" "r_end (region b e k) = e" "r_kind (region b e k) = k"
  by (simp_all add: region_def)

lemma priority_pos [simp]: "0 < priority k"
  by (simp add: priority_def split: pmm_kind.split)

lemma page_down_mod [simp]: "page_down x mod 4096 = 0"
  by (simp add: page_down_def)

lemma page_up_mod [simp]: "page_up x mod 4096 = 0"
  by (simp add: page_up_def)

lemma page_down_le: "page_down x \<le> x"
  by (simp add: page_down_def)

lemma page_up_ge: "x \<le> page_up x"
proof -
  have "x + 4095 = page_up x + (x + 4095) mod 4096"
    unfolding page_up_def page_down_def by (simp add: div_mult_mod_eq [symmetric])
  moreover have "(x + 4095) mod 4096 < 4096" by simp
  ultimately show ?thesis by linarith
qed

lemma page_up_le:
  assumes "x \<le> y" "y mod 4096 = 0"
  shows "page_up x \<le> y"
proof -
  from assms(2) obtain q where q: "y = 4096 * q" by auto
  with assms(1) have "(x + 4095) div 4096 \<le> (4096 * q + 4095) div 4096" by (intro div_le_mono) simp
  with q show ?thesis by (simp add: page_up_def page_down_def)
qed

lemma page_down_ge: "y \<le> x \<Longrightarrow> y mod 4096 = 0 \<Longrightarrow> y \<le> page_down x"
proof -
  assume "y \<le> x" "y mod 4096 = 0"
  then have "y div 4096 * 4096 \<le> page_down x" unfolding page_down_def by (simp add: div_le_mono)
  with \<open>y mod 4096 = 0\<close> show ?thesis by (metis add.right_neutral div_mult_mod_eq)
qed

lemma next_boundary_props:
  assumes "cursor < limit"
  shows "next_boundary cs cursor limit \<in> insert limit (boundaries cs)"
    and "next_boundary cs cursor limit \<le> limit"
    and "b \<in> boundaries cs \<Longrightarrow> cursor < b \<Longrightarrow> next_boundary cs cursor limit \<le> b"
proof -
  let ?f = "\<lambda>r nxt. let nxt' = (if cursor < r_base r \<and> r_base r < nxt then r_base r else nxt)
                   in if cursor < r_end r \<and> r_end r < nxt' then r_end r else nxt'"
  have *: "fold ?f cs n \<in> insert n (boundaries cs) \<and> fold ?f cs n \<le> n \<and>
      (\<forall>b \<in> boundaries cs. cursor < b \<longrightarrow> fold ?f cs n \<le> b)" for n
  proof (induction cs rule: rev_induct)
    case Nil
    show ?case by (simp add: boundaries_def)
  next
    case (snoc r cs)
    let ?n = "fold ?f cs n"
    have b: "boundaries (cs @ [r]) = boundaries cs \<union> {r_base r, r_end r}" by (auto simp: boundaries_def)
    have f: "fold ?f (cs @ [r]) n = ?f r ?n" by simp
    have "?f r ?n \<le> ?n" "?f r ?n \<in> {?n, r_base r, r_end r}"
      "cursor < r_base r \<longrightarrow> ?f r ?n \<le> r_base r" "cursor < r_end r \<longrightarrow> ?f r ?n \<le> r_end r"
      by (auto simp: Let_def)
    moreover obtain m where m: "m = ?f r ?n" by simp
    ultimately have "m \<le> ?n" "m \<in> {?n, r_base r, r_end r}"
      "cursor < r_base r \<longrightarrow> m \<le> r_base r" "cursor < r_end r \<longrightarrow> m \<le> r_end r"
      by simp_all
    then have "m \<in> insert n (boundaries cs \<union> {r_base r, r_end r}) \<and> m \<le> n \<and>
        (\<forall>b \<in> boundaries cs \<union> {r_base r, r_end r}. cursor < b \<longrightarrow> m \<le> b)"
      using snoc by (auto intro: le_trans)
    then show ?case unfolding b f m .
  qed
  show "next_boundary cs cursor limit \<in> insert limit (boundaries cs)"
    and "next_boundary cs cursor limit \<le> limit"
    and "b \<in> boundaries cs \<Longrightarrow> cursor < b \<Longrightarrow> next_boundary cs cursor limit \<le> b"
    using * [of limit] by (simp_all add: next_boundary_def)
qed

lemma strongest_spec:
  "(\<nexists>r. r \<in> set cs \<and> covers r x) \<and> strongest cs x = (PMM_HOLE, 0) \<or>
   (\<exists>r \<in> set cs. covers r x \<and> strongest cs x = (r_kind r, priority (r_kind r)) \<and>
     (\<forall>r' \<in> set cs. covers r' x \<longrightarrow> priority (r_kind r') \<le> priority (r_kind r)))"
proof (induction cs rule: rev_induct)
  case Nil
  show ?case by (simp add: strongest_def)
next
  case (snoc r cs)
  have "strongest (cs @ [r]) x = (if covers r x \<and> snd (strongest cs x) < priority (r_kind r)
      then (r_kind r, priority (r_kind r)) else strongest cs x)"
    by (simp add: strongest_def covers_def split: prod.split)
  with snoc show ?case by (cases "covers r x") (auto split: if_splits)
qed

lemma strongest_stable:
  assumes "cursor < limit" "cursor \<le> x" "x < next_boundary cs cursor limit"
  shows "strongest cs x = strongest cs cursor"
proof -
  have "covers r x \<longleftrightarrow> covers r cursor" if "r \<in> set cs" for r
  proof -
    have "r_base r \<in> boundaries cs" "r_end r \<in> boundaries cs" using that by (auto simp: boundaries_def)
    then show ?thesis
      using assms next_boundary_props(3) [OF assms(1), of "r_base r" cs] next_boundary_props(3) [OF assms(1), of "r_end r" cs]
      unfolding covers_def by fastforce
  qed
  then show ?thesis unfolding strongest_def covers_def by (intro fold_cong) (auto simp: fun_eq_iff)
qed

section \<open>The sweep\<close>

definition kind_at :: "pmm_region list \<Rightarrow> nat \<Rightarrow> pmm_kind" where
  "kind_at rs x = (case find (\<lambda>r. covers r x) rs of None \<Rightarrow> PMM_HOLE | Some r \<Rightarrow> r_kind r)"

text \<open>Sorted, disjoint, not empty, and touching regions are of different kinds.\<close>

definition regions_ok :: "pmm_region list \<Rightarrow> bool" where
  "regions_ok rs \<longleftrightarrow> (\<forall>r \<in> set rs. r_base r < r_end r) \<and>
     sorted_wrt (\<lambda>a b. r_end a \<le> r_base b \<and> (r_end a = r_base b \<longrightarrow> r_kind a \<noteq> r_kind b)) rs"

definition swept :: "pmm_region list \<Rightarrow> nat \<Rightarrow> pmm_region list \<Rightarrow> bool" where
  "swept cs cursor rs \<longleftrightarrow> regions_ok rs \<and> (\<forall>r \<in> set rs. r_end r \<le> cursor \<and> r_kind r \<noteq> PMM_HOLE) \<and>
     (\<forall>x < cursor. kind_at rs x = fst (strongest cs x))"

lemma kind_at_outside: "\<forall>r \<in> set rs. \<not> covers r x \<Longrightarrow> kind_at rs x = PMM_HOLE"
  by (auto simp: kind_at_def find_None_iff split: option.split) (metis find_Some_iff nth_mem)

lemma kind_at_snoc:
  assumes "\<forall>r' \<in> set rs. r_end r' \<le> r_base r"
  shows "kind_at (rs @ [r]) x = (if covers r x then r_kind r else kind_at rs x)"
proof -
  have f: "find P (rs @ [r]) = (case find P rs of None \<Rightarrow> find P [r] | Some y \<Rightarrow> Some y)" for P
    by (induction rs) auto
  have "find (\<lambda>r. covers r x) rs = None" if "covers r x"
    using that assms by (auto simp: find_None_iff covers_def)
  then show ?thesis by (auto simp: kind_at_def f split: option.split)
qed

lemma regions_ok_snoc:
  "regions_ok (rs @ [r]) \<longleftrightarrow> regions_ok rs \<and> r_base r < r_end r \<and>
     (\<forall>a \<in> set rs. r_end a \<le> r_base r \<and> (r_end a = r_base r \<longrightarrow> r_kind a \<noteq> r_kind r))"
  by (auto simp: regions_ok_def sorted_wrt_append)

lemma regions_ok_ends:
  assumes "regions_ok (rs @ [r])" "a \<in> set rs"
  shows "r_end a < r_end r"
  using assms unfolding regions_ok_snoc by (metis le_less_trans)

lemma swept_hole:
  assumes "swept cs cursor rs" "cursor < limit" "fst (strongest cs cursor) = PMM_HOLE"
  shows "swept cs (next_boundary cs cursor limit) rs"
proof -
  let ?n = "next_boundary cs cursor limit"
  have n: "cursor < ?n" using assms(2) by (rule next_boundary_gt)
  have "kind_at rs x = fst (strongest cs x)" if "x < ?n" for x
  proof (cases "x < cursor")
    case False
    then have "\<forall>r \<in> set rs. \<not> covers r x" using assms(1) by (auto simp: swept_def covers_def)
    then show ?thesis using strongest_stable [OF assms(2), of x cs] that False assms(3)
      by (simp add: kind_at_outside)
  qed (use assms(1) in \<open>simp add: swept_def\<close>)
  with assms(1) n show ?thesis unfolding swept_def by fastforce
qed

lemma swept_add:
  assumes s: "swept cs cursor rs" and c: "cursor < limit" and k: "fst (strongest cs cursor) = k" "k \<noteq> PMM_HOLE"
    and new: "\<not> (rs \<noteq> [] \<and> r_end (last rs) = cursor \<and> r_kind (last rs) = k)"
  shows "swept cs (next_boundary cs cursor limit) (rs @ [region cursor (next_boundary cs cursor limit) k])"
proof -
  let ?n = "next_boundary cs cursor limit"
  have n: "cursor < ?n" using c by (rule next_boundary_gt)
  have le: "\<forall>r \<in> set rs. r_end r \<le> cursor" using s by (simp add: swept_def)
  have ka: "kind_at (rs @ [region cursor ?n k]) x = (if cursor \<le> x \<and> x < ?n then k else kind_at rs x)" for x
    using le by (subst kind_at_snoc) (simp_all add: covers_def)
  have "r_kind a \<noteq> k" if "a \<in> set rs" "r_end a = cursor" for a
  proof (cases rs rule: rev_cases)
    case (snoc ys y)
    with s have ok: "regions_ok (ys @ [y])" by (simp add: swept_def)
    have "a = y" using that snoc le regions_ok_ends [OF ok, of a] by (auto simp: not_less [symmetric])
    with new snoc that show ?thesis by auto
  qed (use that in simp)
  then have "regions_ok (rs @ [region cursor ?n k])"
    using s le n by (auto simp: regions_ok_snoc swept_def)
  moreover have "kind_at (rs @ [region cursor ?n k]) x = fst (strongest cs x)" if "x < ?n" for x
    using that s strongest_stable [OF c, of x cs] k by (auto simp: ka swept_def not_le)
  moreover have "\<forall>r \<in> set (rs @ [region cursor ?n k]). r_end r \<le> ?n \<and> r_kind r \<noteq> PMM_HOLE"
    using s n k(2) unfolding swept_def by (auto intro: order_trans [of _ cursor])
  ultimately show ?thesis by (simp add: swept_def)
qed

lemma swept_extend:
  assumes s: "swept cs cursor (rs @ [r])" and c: "cursor < limit"
    and k: "fst (strongest cs cursor) = r_kind r" and e: "r_end r = cursor"
  shows "swept cs (next_boundary cs cursor limit) (rs @ [r\<lparr>r_end := next_boundary cs cursor limit\<rparr>])"
proof -
  let ?n = "next_boundary cs cursor limit" and ?r = "r\<lparr>r_end := next_boundary cs cursor limit\<rparr>"
  have n: "cursor < ?n" using c by (rule next_boundary_gt)
  have ok: "regions_ok (rs @ [r])" using s by (simp add: swept_def)
  then have le: "\<forall>a \<in> set rs. r_end a \<le> r_base r" by (simp add: regions_ok_snoc)
  have "regions_ok (rs @ [?r])" using ok n e by (auto simp: regions_ok_snoc)
  moreover have "kind_at (rs @ [?r]) x = fst (strongest cs x)" if "x < ?n" for x
  proof (cases "x < cursor")
    case True
    then have "kind_at (rs @ [?r]) x = kind_at (rs @ [r]) x"
      using le e n by (subst (1 2) kind_at_snoc) (auto simp: covers_def)
    with True s show ?thesis by (simp add: swept_def)
  next
    case False
    then have "covers ?r x" using that ok e by (auto simp: covers_def regions_ok_snoc)
    then show ?thesis using le strongest_stable [OF c, of x cs] that False k
      by (subst kind_at_snoc) auto
  qed
  moreover have "\<forall>a \<in> set (rs @ [?r]). r_end a \<le> ?n \<and> r_kind a \<noteq> PMM_HOLE"
    using s n unfolding swept_def by (auto intro: order_trans [of _ cursor])
  ultimately show ?thesis by (simp add: swept_def)
qed

lemma swept_step:
  assumes "swept cs cursor rs" "cursor < limit"
    and "add_region rs cursor (next_boundary cs cursor limit) (fst (strongest cs cursor)) = Inr rs'"
  shows "swept cs (next_boundary cs cursor limit) rs'"
proof (cases rs rule: rev_cases)
  case Nil
  with assms show ?thesis using swept_hole [OF assms(1,2)] swept_add [OF assms(1,2) refl]
    by (auto simp: add_region_def split: if_splits)
next
  case (snoc ys y)
  with assms show ?thesis
    using swept_hole [OF assms(1,2)] swept_add [OF assms(1,2) refl] swept_extend [of cs cursor ys y limit]
    by (auto simp: add_region_def split: if_splits)
qed

lemma sweep_swept: "sweep cs limit cursor rs = Inr out \<Longrightarrow> swept cs cursor rs \<Longrightarrow> cursor \<le> limit \<Longrightarrow> swept cs limit out"
proof (induction cs limit cursor rs rule: sweep.induct)
  case (1 cs limit cursor rs)
  show ?case
  proof (cases "cursor < limit")
    case True
    let ?n = "next_boundary cs cursor limit"
    from "1.prems"(1) True obtain rs' where a: "add_region rs cursor ?n (fst (strongest cs cursor)) = Inr rs'"
      and r: "sweep cs limit ?n rs' = Inr out"
      by (auto simp: sweep.simps [of cs limit cursor] Let_def split: sum.splits)
    from "1.IH" [OF True refl a r swept_step [OF "1.prems"(2) True a]] next_boundary_props(2) [OF True, of cs]
    show ?thesis by simp
  next
    case False
    with "1.prems" show ?thesis by (auto simp: sweep.simps [of cs limit cursor])
  qed
qed

lemma add_region_ends:
  assumes "add_region rs cursor nxt k = Inr rs'" "cursor \<in> B" "nxt \<in> B" "boundaries rs \<subseteq> B"
  shows "boundaries rs' \<subseteq> B"
  using assms by (cases rs rule: rev_cases) (auto simp: add_region_def boundaries_def image_subset_iff split: if_splits)

lemma sweep_ends:
  assumes "sweep cs limit cursor rs = Inr out" "cursor \<in> B" "limit \<in> B" "boundaries cs \<subseteq> B" "boundaries rs \<subseteq> B"
  shows "boundaries out \<subseteq> B"
  using assms
proof (induction cs limit cursor rs rule: sweep.induct)
  case (1 cs limit cursor rs)
  show ?case
  proof (cases "cursor < limit")
    case True
    let ?n = "next_boundary cs cursor limit"
    from "1.prems"(1) True obtain rs' where a: "add_region rs cursor ?n (fst (strongest cs cursor)) = Inr rs'"
      and r: "sweep cs limit ?n rs' = Inr out"
      by (auto simp: sweep.simps [of cs limit cursor] Let_def split: sum.splits)
    have n: "?n \<in> B" using next_boundary_props(1) [OF True, of cs] "1.prems"(3,4) by auto
    from "1.IH" [OF True refl a r n "1.prems"(3,4) add_region_ends [OF a "1.prems"(2) n "1.prems"(5)]]
    show ?thesis .
  next
    case False
    with "1.prems" show ?thesis by (auto simp: sweep.simps [of cs limit cursor])
  qed
qed

definition ahead :: "pmm_region list \<Rightarrow> nat \<Rightarrow> nat \<Rightarrow> nat" where
  "ahead cs limit cursor = card {b \<in> insert limit (boundaries cs). cursor < b}"

lemma finite_boundaries [simp]: "finite (boundaries cs)"
  by (simp add: boundaries_def)

lemma ahead_step:
  assumes "cursor < limit"
  shows "Suc (ahead cs limit (next_boundary cs cursor limit)) \<le> ahead cs limit cursor"
proof -
  let ?n = "next_boundary cs cursor limit" and ?B = "insert limit (boundaries cs)"
  have n: "cursor < ?n" "?n \<in> ?B" using next_boundary_gt [OF assms] next_boundary_props(1) [OF assms] by auto
  then have "?n \<in> {b \<in> ?B. cursor < b} - {b \<in> ?B. ?n < b}" "{b \<in> ?B. ?n < b} \<subseteq> {b \<in> ?B. cursor < b}" by auto
  then have "{b \<in> ?B. ?n < b} \<subset> {b \<in> ?B. cursor < b}" by blast
  then have "card {b \<in> ?B. ?n < b} < card {b \<in> ?B. cursor < b}" by (intro psubset_card_mono) simp_all
  then show ?thesis by (simp add: ahead_def)
qed

lemma add_region_fits:
  assumes "length rs < PMM_MAX_REGIONS"
  shows "\<exists>rs'. add_region rs cursor nxt k = Inr rs' \<and> length rs' \<le> Suc (length rs)"
  using assms by (auto simp: add_region_def)

lemma sweep_fits:
  "length rs + ahead cs limit cursor \<le> PMM_MAX_REGIONS \<Longrightarrow>
    \<exists>out. sweep cs limit cursor rs = Inr out \<and> length out \<le> length rs + ahead cs limit cursor"
proof (induction cs limit cursor rs rule: sweep.induct)
  case (1 cs limit cursor rs)
  show ?case
  proof (cases "cursor < limit")
    case True
    let ?n = "next_boundary cs cursor limit"
    have s: "Suc (ahead cs limit ?n) \<le> ahead cs limit cursor" by (rule ahead_step [OF True])
    with "1.prems" have "length rs < PMM_MAX_REGIONS" by linarith
    then obtain rs' where a: "add_region rs cursor ?n (fst (strongest cs cursor)) = Inr rs'"
      and l: "length rs' \<le> Suc (length rs)" using add_region_fits by blast
    have "length rs' + ahead cs limit ?n \<le> PMM_MAX_REGIONS" using l s "1.prems" by linarith
    from "1.IH" [OF True refl a this] obtain out where
      o: "sweep cs limit ?n rs' = Inr out" "length out \<le> length rs' + ahead cs limit ?n" by blast
    have "sweep cs limit cursor rs = Inr out" using o(1) a True by (simp add: sweep.simps [of cs limit cursor] Let_def)
    with o(2) l s show ?thesis by (intro exI [of _ out]) linarith
  next
    case False
    then show ?thesis by (simp add: sweep.simps [of cs limit cursor])
  qed
qed

lemma first_base_props:
  shows "first_base cs limit \<in> insert limit (r_base ` set cs)"
    and "first_base cs limit \<le> limit" and "r \<in> set cs \<Longrightarrow> first_base cs limit \<le> r_base r"
proof -
  have "first_base cs limit \<in> insert limit (r_base ` set cs) \<and> first_base cs limit \<le> limit \<and>
      (\<forall>r \<in> set cs. first_base cs limit \<le> r_base r)"
  proof (induction cs rule: rev_induct)
    case (snoc r cs)
    have "first_base (cs @ [r]) limit = (if r_base r < first_base cs limit then r_base r else first_base cs limit)"
      by (simp add: first_base_def)
    with snoc show ?case by (auto intro: le_trans)
  qed (simp add: first_base_def)
  then show "first_base cs limit \<in> insert limit (r_base ` set cs)"
    and "first_base cs limit \<le> limit" and "r \<in> set cs \<Longrightarrow> first_base cs limit \<le> r_base r" by blast+
qed

lemma ahead_bound:
  assumes "cs \<noteq> []" "\<forall>r \<in> set cs. r_base r < limit"
  shows "ahead cs limit (first_base cs limit) \<le> 2 * length cs"
proof -
  let ?f = "first_base cs limit"
  obtain r where r: "r \<in> set cs" using assms(1) by (cases cs) auto
  have "?f < limit" using first_base_props(3) [OF r, of limit] assms(2) r by (meson le_less_trans)
  then have f: "?f \<in> r_base ` set cs" using first_base_props(1) [of cs limit] by simp
  have "card {b \<in> insert limit (boundaries cs). ?f < b} \<le> card (insert limit (boundaries cs - {?f}))"
    by (intro card_mono) auto
  also have "\<dots> \<le> Suc (card (boundaries cs - {?f}))" by (simp add: card_insert_le_m1 card_insert_if)
  also have "\<dots> = card (boundaries cs)"
    using f by (intro card_Suc_Diff1) (auto simp: boundaries_def)
  also have "\<dots> \<le> card (r_base ` set cs) + card (r_end ` set cs)" unfolding boundaries_def by (rule card_Un_le)
  also have "\<dots> \<le> length cs + length cs"
    by (meson add_mono card_image_le card_length finite_set le_trans)
  finally show ?thesis by (simp add: ahead_def)
qed

lemma swept_start: "swept cs (first_base cs limit) []"
proof -
  have "fst (strongest cs x) = PMM_HOLE" if "x < first_base cs limit" for x
    using strongest_spec [of cs x] first_base_props(3) [of _ cs limit] that
    by (fastforce simp: covers_def)
  then show ?thesis by (auto simp: swept_def regions_ok_def kind_at_def)
qed

section \<open>What the firmware claims\<close>

text \<open>
  An entry is enabled unless its extended attributes say it is not, or it is
  empty. The claim of an enabled entry on the page \<open>p\<close> is its kind if it touches the
  page; a usable entry that covers only part of the page reserves it.
\<close>

definition enabled :: "boot_memory_entry \<Rightarrow> bool" where
  "enabled e \<longleftrightarrow> \<not> (be_returned_size e = 24 \<and> be_attributes e AND 1 = 0) \<and> be_length e \<noteq> 0"

definition map_entry_valid :: "nat \<Rightarrow> boot_memory_entry \<Rightarrow> bool" where
  "map_entry_valid limit e \<longleftrightarrow> (be_returned_size e = 20 \<or> be_returned_size e = 24) \<and> be_reserved e = 0 \<and>
     (enabled e \<longrightarrow> be_base e < limit \<and> be_length e \<le> limit - be_base e)"

definition claim_of :: "boot_memory_entry \<Rightarrow> nat \<Rightarrow> pmm_kind option" where
  "claim_of e p =
    (if enabled e \<and> be_base e < p + PMM_PAGE_SIZE \<and> p < be_base e + be_length e
     then Some (if entry_kind e = PMM_USABLE \<and> \<not> (be_base e \<le> p \<and> p + PMM_PAGE_SIZE \<le> be_base e + be_length e)
                then PMM_RESERVED else entry_kind e)
     else None)"

definition entries :: "boot_memory_map \<Rightarrow> boot_memory_entry list" where
  "entries m = map (bm_entries m) [0..<unat (bm_count m)]"

definition claims :: "boot_memory_map \<Rightarrow> nat \<Rightarrow> pmm_kind set" where
  "claims m x = {k. \<exists>e \<in> set (entries m). claim_of e (page_down x) = Some k}"

lemma page_order:
  "page_down b \<le> x \<longleftrightarrow> b < page_down x + 4096" "x < page_up b \<longleftrightarrow> page_down x < b"
  "page_up b \<le> x \<longleftrightarrow> b \<le> page_down x" "x < page_down b \<longleftrightarrow> page_down x + 4096 \<le> b"
proof -
  have down: "y div 4096 * 4096 \<le> x \<longleftrightarrow> y < x div 4096 * 4096 + 4096" for x y :: nat
  proof -
    have "y div 4096 * 4096 \<le> x \<longleftrightarrow> y div 4096 \<le> x div 4096" by (simp add: less_eq_div_iff_mult_less_eq)
    also have "\<dots> \<longleftrightarrow> y div 4096 < Suc (x div 4096)" by auto
    also have "\<dots> \<longleftrightarrow> y < Suc (x div 4096) * 4096" by (simp add: div_less_iff_less_mult)
    finally show ?thesis by (simp add: add.commute)
  qed
  show "page_down b \<le> x \<longleftrightarrow> b < page_down x + 4096" by (simp add: page_down_def down)
  show "page_up b \<le> x \<longleftrightarrow> b \<le> page_down x" by (simp add: page_up_def page_down_def down) auto
  then show "x < page_up b \<longleftrightarrow> page_down x < b" by auto
  have "page_down b \<le> x \<longleftrightarrow> b < page_down x + 4096" by (simp add: page_down_def down)
  then show "x < page_down b \<longleftrightarrow> page_down x + 4096 \<le> b" by auto
qed

lemma claim_of_page:
  "claim_of e (page_down x) =
    (if enabled e \<and> page_down (be_base e) \<le> x \<and> x < page_up (be_base e + be_length e)
     then Some (if entry_kind e = PMM_USABLE \<and> \<not> (page_up (be_base e) \<le> x \<and> x < page_down (be_base e + be_length e))
                then PMM_RESERVED else entry_kind e)
     else None)"
  by (simp add: claim_of_def page_order)

definition candidate_ok :: "nat \<Rightarrow> pmm_region \<Rightarrow> bool" where
  "candidate_ok limit r \<longleftrightarrow> r_base r < r_end r \<and> r_end r \<le> limit \<and> r_base r mod 4096 = 0 \<and> r_end r mod 4096 = 0 \<and>
     r_kind r \<notin> {PMM_HOLE, PMM_BOOT_RESERVED, PMM_METADATA}"

lemma entry_kind_range: "entry_kind e \<notin> {PMM_HOLE, PMM_BOOT_RESERVED, PMM_METADATA}"
  by (simp add: entry_kind_def type_kind_def)

lemma entry_candidates_ok:
  assumes "entry_candidates limit e = Inr cs" "limit mod 4096 = 0"
  shows "length cs \<le> 3" and "\<forall>r \<in> set cs. candidate_ok limit r"
    and "(cs = []) = (\<not> enabled e)"
    and "{k. \<exists>r \<in> set cs. covers r x \<and> r_kind r = k} = set_option (claim_of e (page_down x))"
proof -
  let ?f = "be_base e + be_length e"
  have "be_base e < limit \<Longrightarrow> be_length e \<le> limit - be_base e \<Longrightarrow> page_up ?f \<le> limit"
    by (intro page_up_le assms(2)) auto
  moreover have "be_length e \<noteq> 0 \<Longrightarrow> page_down (be_base e) < page_up ?f"
    using page_down_le [of "be_base e"] page_up_ge [of ?f] by linarith
  moreover have "page_down (be_base e) \<le> be_base e" "be_base e \<le> page_up (be_base e)"
    "page_down ?f \<le> ?f" "?f \<le> page_up ?f" by (rule page_down_le page_up_ge)+
  note le = this
  ultimately show "length cs \<le> 3" and "\<forall>r \<in> set cs. candidate_ok limit r" and "(cs = []) = (\<not> enabled e)"
    using assms(1) entry_kind_range [of e]
    by (auto simp: entry_candidates_def Let_def candidate_ok_def enabled_def split: if_splits)
  show "{k. \<exists>r \<in> set cs. covers r x \<and> r_kind r = k} = set_option (claim_of e (page_down x))"
    using assms(1) le
    by (auto simp: entry_candidates_def Let_def claim_of_page enabled_def covers_def split: if_splits)
qed

lemma entry_candidates_valid:
  "(\<exists>cs. entry_candidates limit e = Inr cs) \<longleftrightarrow> map_entry_valid limit e"
  by (auto simp: entry_candidates_def map_entry_valid_def enabled_def Let_def)

lemma all_candidates_ok:
  assumes "all_candidates limit es = Inr cs" "limit mod 4096 = 0"
  shows "length cs \<le> 3 * length es" and "\<forall>r \<in> set cs. candidate_ok limit r"
    and "(cs = []) = (\<forall>e \<in> set es. \<not> enabled e)"
    and "{k. \<exists>r \<in> set cs. covers r x \<and> r_kind r = k} = {k. \<exists>e \<in> set es. claim_of e (page_down x) = Some k}"
proof -
  have "length cs \<le> 3 * length es \<and> (\<forall>r \<in> set cs. candidate_ok limit r) \<and> (cs = []) = (\<forall>e \<in> set es. \<not> enabled e) \<and>
      {k. \<exists>r \<in> set cs. covers r x \<and> r_kind r = k} = {k. \<exists>e \<in> set es. claim_of e (page_down x) = Some k}"
    using assms(1)
  proof (induction es arbitrary: cs)
    case (Cons e es)
    then obtain a b where c: "entry_candidates limit e = Inr a" "all_candidates limit es = Inr b" "cs = a @ b"
      by (auto split: sum.splits)
    note a = entry_candidates_ok [OF c(1) assms(2)]
    have "{k. \<exists>r \<in> set cs. covers r x \<and> r_kind r = k} =
        {k. \<exists>r \<in> set a. covers r x \<and> r_kind r = k} \<union> {k. \<exists>r \<in> set b. covers r x \<and> r_kind r = k}"
      using c(3) by auto
    with Cons.IH [OF c(2)] a c(3) show ?case by auto
  qed simp
  then show "length cs \<le> 3 * length es" and "\<forall>r \<in> set cs. candidate_ok limit r"
    and "(cs = []) = (\<forall>e \<in> set es. \<not> enabled e)"
    and "{k. \<exists>r \<in> set cs. covers r x \<and> r_kind r = k} = {k. \<exists>e \<in> set es. claim_of e (page_down x) = Some k}" by blast+
qed

lemma all_candidates_valid:
  "(\<exists>cs. all_candidates limit es = Inr cs) \<longleftrightarrow> (\<forall>e \<in> set es. map_entry_valid limit e)"
proof (induction es)
  case (Cons e es)
  then show ?case using entry_candidates_valid [of limit e] by (fastforce split: sum.splits)
qed simp

section \<open>Normalization is exact\<close>

definition map_acceptable :: "boot_memory_map \<Rightarrow> nat \<Rightarrow> bool" where
  "map_acceptable m bits \<longleftrightarrow> 32 \<le> bits \<and> bits \<le> 52 \<and> valid_header m \<and>
     (\<forall>e \<in> set (entries m). map_entry_valid (2 ^ bits) e) \<and> (\<exists>e \<in> set (entries m). enabled e)"

definition map_exact :: "boot_memory_map \<Rightarrow> nat \<Rightarrow> pmm_region list \<Rightarrow> bool" where
  "map_exact m bits rs \<longleftrightarrow> regions_ok rs \<and> length rs \<le> 6 * BOOT_MAP_CAPACITY \<and>
     (\<forall>r \<in> set rs. r_base r mod PMM_PAGE_SIZE = 0 \<and> r_end r mod PMM_PAGE_SIZE = 0 \<and> r_end r \<le> 2 ^ bits) \<and>
     (\<forall>x. if claims m x = {} then kind_at rs x = PMM_HOLE
          else kind_at rs x \<in> claims m x \<and> (\<forall>k \<in> claims m x. priority k \<le> priority (kind_at rs x)))"

lemma pow2_page: "32 \<le> bits \<Longrightarrow> (2::nat) ^ bits mod 4096 = 0"
proof -
  assume "32 \<le> bits"
  then have "(2::nat) ^ 12 dvd 2 ^ bits" by (intro le_imp_power_dvd) simp
  then show ?thesis by simp
qed

lemma normalize_sweeps:
  assumes acc: "map_acceptable m bits"
  obtains cs rs where "all_candidates (2 ^ bits) (entries m) = Inr cs" "cs \<noteq> []"
    "sweep cs (2 ^ bits) (first_base cs (2 ^ bits)) [] = Inr rs" "pmm_normalize (Some m) bits = Inr rs"
    "length rs \<le> 2 * length cs"
proof -
  from acc all_candidates_valid obtain cs where cs: "all_candidates (2 ^ bits) (entries m) = Inr cs"
    unfolding map_acceptable_def by blast
  have pg: "(2::nat) ^ bits mod 4096 = 0" using acc by (simp add: map_acceptable_def pow2_page)
  note ok = all_candidates_ok [OF cs pg]
  have ne: "cs \<noteq> []" using ok(3) acc by (auto simp: map_acceptable_def)
  have n: "length (entries m) \<le> 64"
    using acc by (simp add: map_acceptable_def valid_header_def BOOT_MAP_CAPACITY_def entries_def)
  have a: "ahead cs (2 ^ bits) (first_base cs (2 ^ bits)) \<le> 2 * length cs"
    using ok(2) ne by (intro ahead_bound) (auto simp: candidate_ok_def intro: less_le_trans)
  then have "ahead cs (2 ^ bits) (first_base cs (2 ^ bits)) \<le> PMM_MAX_REGIONS"
    using ok(1) n by (simp add: PMM_MAX_REGIONS_def BOOT_MAP_CAPACITY_def)
  with sweep_fits [of "[]" cs "2 ^ bits" "first_base cs (2 ^ bits)"] a obtain rs where
    rs: "sweep cs (2 ^ bits) (first_base cs (2 ^ bits)) [] = Inr rs" "length rs \<le> 2 * length cs" by auto
  have "pmm_normalize (Some m) bits = Inr rs"
    using acc cs ne rs(1) by (simp add: pmm_normalize_def map_acceptable_def entries_def Let_def)
  with cs ne rs show thesis by (intro that)
qed

lemma normalize_exact:
  assumes acc: "map_acceptable m bits" and n: "pmm_normalize (Some m) bits = Inr rs"
  shows "map_exact m bits rs"
proof -
  let ?l = "2 ^ bits :: nat"
  from normalize_sweeps [OF acc] n obtain cs where cs: "all_candidates ?l (entries m) = Inr cs" "cs \<noteq> []"
    and sw: "sweep cs ?l (first_base cs ?l) [] = Inr rs" and len: "length rs \<le> 2 * length cs" by auto
  have pg: "?l mod 4096 = 0" using acc by (simp add: map_acceptable_def pow2_page)
  note ok = all_candidates_ok [OF cs(1) pg]
  have "length (entries m) \<le> 64"
    using acc by (simp add: map_acceptable_def valid_header_def BOOT_MAP_CAPACITY_def entries_def)
  with ok(1) len have l: "length rs \<le> 6 * BOOT_MAP_CAPACITY" by (simp add: BOOT_MAP_CAPACITY_def)
  have s: "swept cs ?l rs" by (rule sweep_swept [OF sw swept_start first_base_props(2)])
  have bs: "boundaries cs \<subseteq> {x. x mod 4096 = 0}" using ok(2) by (auto simp: boundaries_def candidate_ok_def)
  have "first_base cs ?l \<in> insert ?l (r_base ` set cs)" by (rule first_base_props(1))
  then have "first_base cs ?l mod 4096 = 0" using pg bs by (auto simp: boundaries_def)
  then have "boundaries rs \<subseteq> {x. x mod 4096 = 0}"
    using sweep_ends [OF sw, of "{x. x mod 4096 = 0}"] pg bs by (simp add: boundaries_def)
  then have al: "\<forall>r \<in> set rs. r_base r mod 4096 = 0 \<and> r_end r mod 4096 = 0" by (auto simp: boundaries_def)
  have "kind_at rs x = fst (strongest cs x)" for x
  proof (cases "x < ?l")
    case False
    then have "\<forall>r \<in> set rs. \<not> covers r x" "\<forall>r \<in> set cs. \<not> covers r x"
      using s ok(2) by (auto simp: swept_def covers_def candidate_ok_def)
    with strongest_spec [of cs x] show ?thesis by (auto simp: kind_at_outside)
  qed (use s in \<open>simp add: swept_def\<close>)
  moreover have c: "claims m x = {k. \<exists>r \<in> set cs. covers r x \<and> r_kind r = k}" for x
    unfolding claims_def using ok(4) by simp
  ultimately have "if claims m x = {} then kind_at rs x = PMM_HOLE
      else kind_at rs x \<in> claims m x \<and> (\<forall>k \<in> claims m x. priority k \<le> priority (kind_at rs x))" for x
    using strongest_spec [of cs x] by auto
  with s l al show ?thesis by (auto simp: map_exact_def swept_def)
qed

lemma normalize_accepts:
  assumes "pmm_normalize (Some m) bits = Inr rs"
  shows "map_acceptable m bits"
proof -
  let ?l = "2 ^ bits :: nat"
  from assms obtain cs where b: "32 \<le> bits" "bits \<le> 52" "valid_header m"
    and cs: "all_candidates ?l (entries m) = Inr cs" "cs \<noteq> []"
    by (auto simp: pmm_normalize_def entries_def Let_def split: if_splits sum.splits)
  have "\<forall>e \<in> set (entries m). map_entry_valid ?l e" using all_candidates_valid cs(1) by blast
  moreover have "\<exists>e \<in> set (entries m). enabled e"
    using all_candidates_ok(3) [OF cs(1) pow2_page [OF b(1)]] cs(2) by blast
  ultimately show ?thesis using b by (simp add: map_acceptable_def)
qed

text \<open>
  Normalization accepts exactly the well-formed maps with an enabled entry, so
  the region array never overflows. The regions it returns are sorted, disjoint,
  page-aligned, merged and below the physical limit, and the kind of every address
  is the strongest claim any enabled entry makes on its page, or a hole when no
  entry touches the page. In particular a page is usable only if every entry that
  touches it is usable and contains it whole.
\<close>

theorem pmm_normalize_exact:
  "case pmm_normalize (Some m) bits of
     Inl msg \<Rightarrow> \<not> map_acceptable m bits
   | Inr rs \<Rightarrow> map_acceptable m bits \<and> map_exact m bits rs"
proof (cases "pmm_normalize (Some m) bits")
  case (Inl msg)
  then show ?thesis using normalize_sweeps [of m bits] by (metis Inl_Inr_False sum.simps(5))
next
  case (Inr rs)
  then show ?thesis using normalize_accepts [OF Inr] normalize_exact [OF _ Inr] by simp
qed

end
