(* ===== verification/Pmm.thy ===== *)
theory Pmm
  imports Pmm_Map
begin

text \<open>
  The physical frame allocator (\<^verbatim>\<open>src/kernel/mm/pmm.c\<close>): initialization from the normalized
  memory map, single frames, contiguous runs, release, queries and the self check.
  The bitmap is a function from byte index to byte; bit \<open>i\<close> belongs to the \<open>i\<close>-th
  page of the usable regions in address order.

  Addresses, sizes and indices are naturals; the sums that the code forms before
  it has bounded their operands carry \<open>w64\<close>. What the linker script defines is the
  argument \<open>link_layout\<close>. A pointer argument that the code tests for null is a
  truth value.
\<close>

section \<open>State\<close>

datatype pmm_result = PMM_OK | PMM_NOT_READY | PMM_INVALID | PMM_UNAVAILABLE | PMM_NOT_ALLOCATED
  | PMM_OUT_OF_MEMORY | PMM_WRONG_CONTEXT | PMM_BAD_MAP | PMM_BAD_LAYOUT | PMM_NO_METADATA

datatype pmm_state = PMM_STATE_UNAVAILABLE | PMM_STATE_RESERVED | PMM_STATE_FREE | PMM_STATE_ALLOCATED

record pmm_stats =
  ps_described :: nat
  ps_usable :: nat
  ps_reserved :: nat
  ps_free :: nat
  ps_allocated :: nat
  ps_firmware_usable :: nat
  ps_metadata_base :: nat
  ps_metadata_bytes :: nat

record pmm =
  pm_regions :: "pmm_region list"
  pm_stats :: pmm_stats
  pm_bitmap :: "nat \<Rightarrow> u8"
  pm_frame_count :: nat
  pm_cursor :: nat
  pm_ready :: bool

record link_layout =
  ly_owned :: "(nat \<times> nat) list"
  ly_boot_start :: nat
  ly_boot_end :: nat
  ly_boot_file_size :: nat
  ly_kernel_start :: nat
  ly_payload_end :: nat
  ly_kernel_end :: nat
  ly_kernel_phys_base :: nat
  ly_kernel_mem_max :: nat
  ly_kernel_file_max :: nat
  ly_identity_limit :: nat

definition no_stats :: pmm_stats where
  "no_stats = \<lparr>ps_described = 0, ps_usable = 0, ps_reserved = 0, ps_free = 0, ps_allocated = 0,
     ps_firmware_usable = 0, ps_metadata_base = 0, ps_metadata_bytes = 0\<rparr>"

definition pmm_context :: "cpu_ctx \<Rightarrow> pmm \<Rightarrow> pmm_result" where
  "pmm_context c s = (if \<not> foreground c then PMM_WRONG_CONTEXT else if pm_ready s then PMM_OK else PMM_NOT_READY)"

section \<open>Initialization\<close>

text \<open>
  \<^verbatim>\<open>reserve\<close> splits every usable region that overlaps the interval; \<open>done\<close> are the
  regions already visited. On a full array it stops with the regions split so far.
\<close>

definition split_region :: "nat \<Rightarrow> nat \<Rightarrow> pmm_kind \<Rightarrow> pmm_region \<Rightarrow> pmm_region list" where
  "split_region b e k r =
    (let low = max b (r_base r); high = min e (r_end r) in
     (if r_base r < low then [region (r_base r) low PMM_USABLE] else []) @ [region low high k] @
     (if high < r_end r then [region high (r_end r) PMM_USABLE] else []))"

fun reserve :: "nat \<Rightarrow> nat \<Rightarrow> pmm_kind \<Rightarrow> pmm_region list \<Rightarrow> pmm_region list \<Rightarrow> bool \<times> pmm_region list" where
  "reserve b e k seen [] = (True, seen)"
| "reserve b e k seen (r # rs) =
    (if r_kind r \<noteq> PMM_USABLE \<or> e \<le> r_base r \<or> r_end r \<le> b then reserve b e k (seen @ [r]) rs
     else let pieces = split_region b e k r in
       if PMM_MAX_REGIONS < length seen + length pieces + length rs then (False, seen @ r # rs)
       else reserve b e k (seen @ pieces) rs)"

fun originally_usable :: "pmm_region list \<Rightarrow> nat \<Rightarrow> nat \<Rightarrow> bool" where
  "originally_usable [] b e \<longleftrightarrow> e \<le> b"
| "originally_usable (r # rs) b e \<longleftrightarrow>
    (if e \<le> b then True
     else if r_end r \<le> b then originally_usable rs b e
     else if b < r_base r \<or> r_kind r \<noteq> PMM_USABLE then False
     else originally_usable rs (r_end r) e)"

definition layout_ok :: "link_layout \<Rightarrow> pmm_region list \<Rightarrow> bool" where
  "layout_ok ly rs \<longleftrightarrow>
     (\<forall>(b, e) \<in> set (ly_owned ly). b < e \<and> e \<le> 0x100000 \<and> originally_usable rs b e) \<and>
     w64 (2 ^ 64 + ly_boot_end ly - ly_boot_start ly) = ly_boot_file_size ly"

definition kernel_rounded :: "link_layout \<Rightarrow> nat" where
  "kernel_rounded ly = page_down (w64 (ly_kernel_end ly + (PMM_PAGE_SIZE - 1)))"

definition kernel_ok :: "link_layout \<Rightarrow> pmm_region list \<Rightarrow> bool" where
  "kernel_ok ly rs \<longleftrightarrow>
    \<not> (ly_kernel_start ly \<noteq> ly_kernel_phys_base ly \<or> ly_kernel_end ly \<le> ly_kernel_start ly \<or>
       kernel_rounded ly < ly_kernel_end ly \<or>
       ly_kernel_mem_max ly < ly_kernel_end ly - ly_kernel_start ly \<or>
       ly_kernel_mem_max ly < kernel_rounded ly - ly_kernel_start ly \<or>
       ly_payload_end ly \<le> ly_kernel_start ly \<or> ly_kernel_end ly < ly_payload_end ly \<or>
       ly_kernel_file_max ly < ly_payload_end ly - ly_kernel_start ly \<or>
       \<not> originally_usable rs (ly_kernel_start ly) (kernel_rounded ly))"

definition bytes_of :: "(pmm_kind \<Rightarrow> bool) \<Rightarrow> pmm_region list \<Rightarrow> nat" where
  "bytes_of P rs = sum_list (map (\<lambda>r. if P (r_kind r) then r_end r - r_base r else 0) rs)"

definition frames_of :: "pmm_region list \<Rightarrow> nat" where
  "frames_of rs = sum_list (map (\<lambda>r. if r_kind r = PMM_USABLE then (r_end r - r_base r) div PMM_PAGE_SIZE else 0) rs)"

text \<open>The bitmap goes to the first usable region with room below the identity-mapped limit.\<close>

definition metadata_address :: "nat \<Rightarrow> nat \<Rightarrow> pmm_region list \<Rightarrow> nat" where
  "metadata_address limit bytes rs =
    (case find (\<lambda>r. r_kind r = PMM_USABLE \<and> r_base r < min (r_end r) limit \<and>
                     bytes \<le> min (r_end r) limit - r_base r) rs of
       None \<Rightarrow> 0 | Some r \<Rightarrow> r_base r)"

definition pmm_initialize :: "cpu_ctx \<Rightarrow> link_layout \<Rightarrow> boot_memory_map option \<Rightarrow> nat \<Rightarrow> pmm \<Rightarrow> pmm_result \<times> pmm" where
  "pmm_initialize c ly m bits s =
    (if \<not> foreground c then (PMM_WRONG_CONTEXT, s)
     else if pm_ready s then (PMM_INVALID, s)
     else case pmm_normalize m bits of
       Inl msg \<Rightarrow> (PMM_BAD_MAP, s\<lparr>pm_regions := (if m = None then pm_regions s else [])\<rparr>)
     | Inr rs0 \<Rightarrow>
         if \<not> layout_ok ly rs0 then (PMM_BAD_LAYOUT, s\<lparr>pm_regions := rs0\<rparr>)
         else if \<not> kernel_ok ly rs0 then (PMM_BAD_LAYOUT, s\<lparr>pm_regions := rs0\<rparr>)
         else let st = no_stats\<lparr>ps_firmware_usable := bytes_of (\<lambda>k. k = PMM_USABLE) rs0\<rparr> in
         case reserve 0 0x100000 PMM_BOOT_RESERVED [] rs0 of (ok1, rs1) \<Rightarrow>
         if \<not> ok1 then (PMM_BAD_MAP, s\<lparr>pm_regions := rs1, pm_stats := st\<rparr>)
         else case reserve (ly_kernel_start ly) (kernel_rounded ly) PMM_BOOT_RESERVED [] rs1 of (ok2, rs2) \<Rightarrow>
         if \<not> ok2 then (PMM_BAD_MAP, s\<lparr>pm_regions := rs2, pm_stats := st\<rparr>)
         else let candidates = frames_of rs2; bytes = page_up ((candidates + 7) div 8) in
         if candidates = 0 then (PMM_OUT_OF_MEMORY, s\<lparr>pm_regions := rs2, pm_stats := st\<rparr>)
         else if candidates \<le> bytes div PMM_PAGE_SIZE then (PMM_OUT_OF_MEMORY, s\<lparr>pm_regions := rs2, pm_stats := st\<rparr>)
         else let address = metadata_address (ly_identity_limit ly) bytes rs2 in
         if address = 0 then (PMM_NO_METADATA, s\<lparr>pm_regions := rs2, pm_stats := st\<rparr>)
         else case reserve address (address + bytes) PMM_METADATA [] rs2 of (ok3, rs3) \<Rightarrow>
         if \<not> ok3 then (PMM_BAD_MAP, s\<lparr>pm_regions := rs3, pm_stats := st\<rparr>)
         else let usable = bytes_of (\<lambda>k. k = PMM_USABLE) rs3; reserved = bytes_of (\<lambda>k. k \<noteq> PMM_USABLE) rs3 in
           (PMM_OK, s\<lparr>pm_regions := rs3,
              pm_stats := st\<lparr>ps_metadata_base := address, ps_metadata_bytes := bytes,
                ps_described := usable + reserved, ps_usable := usable, ps_reserved := reserved, ps_free := usable\<rparr>,
              pm_bitmap := (\<lambda>i. if i < bytes then 0 else pm_bitmap s i),
              pm_frame_count := usable div PMM_PAGE_SIZE, pm_cursor := 0, pm_ready := True\<rparr>))"

section \<open>Frames\<close>

definition pmm_bit :: "(nat \<Rightarrow> u8) \<Rightarrow> nat \<Rightarrow> bool" where
  "pmm_bit bits index \<longleftrightarrow> drop_bit (index mod 8) (bits (index div 8)) AND 1 \<noteq> 0"

definition set_bit_at :: "nat \<Rightarrow> (nat \<Rightarrow> u8) \<Rightarrow> (nat \<Rightarrow> u8)" where
  "set_bit_at i bits = bits(i div 8 := bits (i div 8) OR push_bit (i mod 8) 1)"

definition clear_bit_at :: "nat \<Rightarrow> (nat \<Rightarrow> u8) \<Rightarrow> (nat \<Rightarrow> u8)" where
  "clear_bit_at i bits = bits(i div 8 := bits (i div 8) AND NOT (push_bit (i mod 8) 1))"

text \<open>The region and frame index of an address; without an index, only what the address is.\<close>

fun locate :: "(nat \<Rightarrow> u8) \<Rightarrow> pmm_region list \<Rightarrow> nat \<Rightarrow> nat \<Rightarrow> nat option \<times> pmm_state" where
  "locate bits [] offset pa = (None, PMM_STATE_UNAVAILABLE)"
| "locate bits (r # rs) offset pa =
    (if r_base r \<le> pa \<and> pa < r_end r then
       if r_kind r \<noteq> PMM_USABLE then (None, PMM_STATE_RESERVED)
       else let index = offset + (pa - r_base r) div PMM_PAGE_SIZE
            in (Some index, if pmm_bit bits index then PMM_STATE_ALLOCATED else PMM_STATE_FREE)
     else locate bits rs (if r_kind r = PMM_USABLE then offset + (r_end r - r_base r) div PMM_PAGE_SIZE else offset) pa)"

text \<open>The scan \<^verbatim>\<open>while (index < hi && bit(index)) ++index\<close> from \<open>lo\<close>.\<close>

definition first_clear :: "(nat \<Rightarrow> u8) \<Rightarrow> nat \<Rightarrow> nat \<Rightarrow> nat" where
  "first_clear bits lo hi = (case find (\<lambda>i. \<not> pmm_bit bits i) [lo..<hi] of None \<Rightarrow> max lo hi | Some i \<Rightarrow> i)"

fun frame_address :: "pmm_region list \<Rightarrow> nat \<Rightarrow> nat option" where
  "frame_address [] remaining = None"
| "frame_address (r # rs) remaining =
    (if r_kind r \<noteq> PMM_USABLE then frame_address rs remaining
     else let pages = (r_end r - r_base r) div PMM_PAGE_SIZE in
       if pages \<le> remaining then frame_address rs (remaining - pages)
       else Some (r_base r + remaining * PMM_PAGE_SIZE))"

definition pmm_allocate :: "cpu_ctx \<Rightarrow> bool \<Rightarrow> pmm \<Rightarrow> pmm_result \<times> nat option \<times> pmm" where
  "pmm_allocate c out s =
    (if pmm_context c s \<noteq> PMM_OK then (pmm_context c s, None, s)
     else if \<not> out then (PMM_INVALID, None, s)
     else if ps_free (pm_stats s) = 0 then (PMM_OUT_OF_MEMORY, None, s)
     else if pm_frame_count s \<noteq> ps_usable (pm_stats s) div PMM_PAGE_SIZE then (PMM_INVALID, None, s)
     else let s1 = (if pm_frame_count s < pm_cursor s then s\<lparr>pm_cursor := pm_frame_count s\<rparr> else s);
              index0 = first_clear (pm_bitmap s1) (pm_cursor s1) (pm_frame_count s1);
              index = (if index0 = pm_frame_count s1
                       then first_clear (pm_bitmap s1) 0 (min (pm_cursor s1) (pm_frame_count s1)) else index0) in
       if pm_frame_count s1 \<le> index \<or> pmm_bit (pm_bitmap s1) index then (PMM_OUT_OF_MEMORY, None, s1)
       else case frame_address (pm_regions s1) index of
         None \<Rightarrow> (PMM_INVALID, None, s1)
       | Some pa \<Rightarrow> (PMM_OK, Some pa,
           s1\<lparr>pm_bitmap := set_bit_at index (pm_bitmap s1), pm_cursor := index + 1,
              pm_stats := (pm_stats s1)\<lparr>ps_free := ps_free (pm_stats s1) - PMM_PAGE_SIZE,
                                         ps_allocated := ps_allocated (pm_stats s1) + PMM_PAGE_SIZE\<rparr>\<rparr>))"

section \<open>Contiguous runs\<close>

definition run_clear :: "(nat \<Rightarrow> u8) \<Rightarrow> nat \<Rightarrow> nat \<Rightarrow> bool" where
  "run_clear bits start n = list_all (\<lambda>j. \<not> pmm_bit bits (start + j)) [0..<n]"

text \<open>The candidate loop of one region: \<open>k\<close> rises by \<open>step\<close> while \<open>k\<close> is at most \<open>hi\<close>.\<close>

function scan_region :: "(nat \<Rightarrow> u8) \<Rightarrow> nat \<Rightarrow> nat \<Rightarrow> nat \<Rightarrow> nat \<Rightarrow> nat \<Rightarrow> nat option" where
  "scan_region bits offset n step hi k =
    (if step = 0 \<or> hi < k then None
     else if run_clear bits (offset + k) n then Some (offset + k)
     else scan_region bits offset n step hi (k + step))"
  by pat_completeness auto
termination
  by (relation "measure (\<lambda>(bits, offset, n, step, hi, k). Suc hi - k)") auto

declare scan_region.simps [simp del]

definition align_step :: "nat \<Rightarrow> nat" where
  "align_step align = (if align \<le> PMM_PAGE_SIZE then 1 else align div PMM_PAGE_SIZE)"

fun scan_runs :: "(nat \<Rightarrow> u8) \<Rightarrow> nat \<Rightarrow> nat \<Rightarrow> nat \<Rightarrow> nat \<Rightarrow> pmm_region list \<Rightarrow> nat \<Rightarrow> nat option" where
  "scan_runs bits fc n align limit_end [] offset = None"
| "scan_runs bits fc n align limit_end (r # rs) offset =
    (if r_kind r \<noteq> PMM_USABLE then scan_runs bits fc n align limit_end rs offset
     else if r_end r \<le> r_base r \<or> (r_base r OR r_end r) mod PMM_PAGE_SIZE \<noteq> 0 then None
     else let pages = (r_end r - r_base r) div PMM_PAGE_SIZE in
       if pages = 0 \<or> fc < offset \<or> fc - offset < pages then None
       else if limit_end \<noteq> 0 \<and> limit_end \<le> r_base r then scan_runs bits fc n align limit_end rs (offset + pages)
       else let span = (if limit_end \<noteq> 0 then (min limit_end (r_end r) - r_base r) div PMM_PAGE_SIZE else pages);
                miss = r_base r AND (align - 1);
                first = (if 1 < align_step align \<and> miss \<noteq> 0 then (align - miss) div PMM_PAGE_SIZE else 0);
                found = (if n \<le> span then scan_region bits offset n (align_step align) (span - n) first else None) in
         case found of Some i \<Rightarrow> Some i | None \<Rightarrow> scan_runs bits fc n align limit_end rs (offset + pages))"

definition pmm_scan_run :: "pmm_region list \<Rightarrow> (nat \<Rightarrow> u8) \<Rightarrow> nat \<Rightarrow> nat \<Rightarrow> nat \<Rightarrow> nat \<Rightarrow> nat option" where
  "pmm_scan_run rs bits fc n align limit_end =
    (if n = 0 \<or> align = 0 \<or> align AND (align - 1) \<noteq> 0 then None
     else if fc = 0 \<or> fc < n then None
     else scan_runs bits fc n align limit_end rs 0)"

definition pmm_alloc_contiguous :: "cpu_ctx \<Rightarrow> nat \<Rightarrow> nat \<Rightarrow> nat \<Rightarrow> bool \<Rightarrow> pmm \<Rightarrow> pmm_result \<times> nat option \<times> pmm" where
  "pmm_alloc_contiguous c frames align limit_end out s =
    (if pmm_context c s \<noteq> PMM_OK then (pmm_context c s, None, s)
     else if \<not> out then (PMM_INVALID, None, s)
     else if frames = 0 \<or> align = 0 \<or> align AND (align - 1) \<noteq> 0 then (PMM_INVALID, None, s)
     else if pm_frame_count s \<noteq> ps_usable (pm_stats s) div PMM_PAGE_SIZE then (PMM_INVALID, None, s)
     else if pm_frame_count s < frames then (PMM_OUT_OF_MEMORY, None, s)
     else case pmm_scan_run (pm_regions s) (pm_bitmap s) (pm_frame_count s) frames align limit_end of
       None \<Rightarrow> (PMM_OUT_OF_MEMORY, None, s)
     | Some start \<Rightarrow>
         (case frame_address (pm_regions s) start of
            None \<Rightarrow> (PMM_INVALID, None, s)
          | Some pa \<Rightarrow> (PMM_OK, Some pa,
              s\<lparr>pm_bitmap := for_loop frames (\<lambda>j bits. set_bit_at (start + j) bits) (pm_bitmap s),
                pm_stats := (pm_stats s)\<lparr>ps_free := ps_free (pm_stats s) - frames * PMM_PAGE_SIZE,
                                          ps_allocated := ps_allocated (pm_stats s) + frames * PMM_PAGE_SIZE\<rparr>\<rparr>)))"

section \<open>Queries, release and the self check\<close>

definition pmm_query :: "cpu_ctx \<Rightarrow> nat \<Rightarrow> bool \<Rightarrow> pmm \<Rightarrow> pmm_result \<times> pmm_state option" where
  "pmm_query c pa out s =
    (if pmm_context c s \<noteq> PMM_OK then (pmm_context c s, None)
     else if \<not> out \<or> pa mod PMM_PAGE_SIZE \<noteq> 0 then (PMM_INVALID, None)
     else (PMM_OK, Some (snd (locate (pm_bitmap s) (pm_regions s) 0 pa))))"

definition pmm_release :: "cpu_ctx \<Rightarrow> nat \<Rightarrow> pmm \<Rightarrow> pmm_result \<times> pmm" where
  "pmm_release c pa s =
    (if pmm_context c s \<noteq> PMM_OK then (pmm_context c s, s)
     else if pa mod PMM_PAGE_SIZE \<noteq> 0 then (PMM_INVALID, s)
     else case locate (pm_bitmap s) (pm_regions s) 0 pa of
       (None, _) \<Rightarrow> (PMM_UNAVAILABLE, s)
     | (Some index, state) \<Rightarrow>
         if state \<noteq> PMM_STATE_ALLOCATED then (PMM_NOT_ALLOCATED, s)
         else (PMM_OK, s\<lparr>pm_bitmap := clear_bit_at index (pm_bitmap s),
             pm_cursor := (if index < pm_cursor s then index else pm_cursor s),
             pm_stats := (pm_stats s)\<lparr>ps_free := ps_free (pm_stats s) + PMM_PAGE_SIZE,
                                       ps_allocated := ps_allocated (pm_stats s) - PMM_PAGE_SIZE\<rparr>\<rparr>))"

definition pmm_statistics :: "cpu_ctx \<Rightarrow> bool \<Rightarrow> pmm \<Rightarrow> pmm_result \<times> pmm_stats option" where
  "pmm_statistics c out s =
    (if pmm_context c s \<noteq> PMM_OK then (pmm_context c s, None)
     else if \<not> out then (PMM_INVALID, None)
     else (PMM_OK, Some (pm_stats s)))"

text \<open>The region array, when the allocator may be asked for it.\<close>

definition pmm_region_list :: "cpu_ctx \<Rightarrow> pmm \<Rightarrow> pmm_region list option" where
  "pmm_region_list c s = (if pmm_context c s \<noteq> PMM_OK then None else Some (pm_regions s))"

fun regions_checked :: "pmm_region list \<Rightarrow> bool" where
  "regions_checked [] \<longleftrightarrow> True"
| "regions_checked [r] \<longleftrightarrow> r_base r < r_end r \<and> (r_base r OR r_end r) mod PMM_PAGE_SIZE = 0"
| "regions_checked (r # r' # rs) \<longleftrightarrow> r_base r < r_end r \<and> (r_base r OR r_end r) mod PMM_PAGE_SIZE = 0 \<and>
     r_end r \<le> r_base r' \<and> regions_checked (r' # rs)"

definition pmm_check :: "cpu_ctx \<Rightarrow> pmm \<Rightarrow> bool" where
  "pmm_check c s \<longleftrightarrow>
    (if pmm_context c s \<noteq> PMM_OK then False
     else if pm_frame_count s < pm_cursor s \<or> ps_metadata_bytes (pm_stats s) * 8 < pm_frame_count s then False
     else if \<not> regions_checked (pm_regions s) then False
     else if \<exists>i \<in> set [0..<pm_frame_count s]. \<not> pmm_bit (pm_bitmap s) i \<and> i < pm_cursor s then False
     else let used = length (filter (pmm_bit (pm_bitmap s)) [0..<pm_frame_count s]);
              usable = bytes_of (\<lambda>k. k = PMM_USABLE) (pm_regions s);
              reserved = bytes_of (\<lambda>k. k \<noteq> PMM_USABLE) (pm_regions s) in
       usable = ps_usable (pm_stats s) \<and> reserved = ps_reserved (pm_stats s) \<and>
       usable + reserved = ps_described (pm_stats s) \<and> pm_frame_count s = usable div PMM_PAGE_SIZE \<and>
       ps_allocated (pm_stats s) = used * PMM_PAGE_SIZE \<and>
       ps_free (pm_stats s) = (pm_frame_count s - used) * PMM_PAGE_SIZE)"

section \<open>Frames in address order\<close>

text \<open>The pages of the usable regions: bit \<open>i\<close> of the bitmap stands for the \<open>i\<close>-th of them.\<close>

definition region_frames :: "pmm_region \<Rightarrow> nat list" where
  "region_frames r = (if r_kind r = PMM_USABLE
     then map (\<lambda>k. r_base r + k * PMM_PAGE_SIZE) [0..<(r_end r - r_base r) div PMM_PAGE_SIZE] else [])"

definition frames :: "pmm_region list \<Rightarrow> nat list" where
  "frames rs = concat (map region_frames rs)"

definition region_sane :: "pmm_region \<Rightarrow> bool" where
  "region_sane r \<longleftrightarrow> r_base r < r_end r \<and> r_base r mod PMM_PAGE_SIZE = 0 \<and> r_end r mod PMM_PAGE_SIZE = 0"

definition regions_sane :: "pmm_region list \<Rightarrow> bool" where
  "regions_sane rs \<longleftrightarrow> (\<forall>r \<in> set rs. region_sane r) \<and> sorted_wrt (\<lambda>a b. r_end a \<le> r_base b) rs"

lemma frames_simps [simp]:
  "frames [] = []" "frames (r # rs) = region_frames r @ frames rs" "frames (rs @ rs') = frames rs @ frames rs'"
  by (simp_all add: frames_def)

lemma regions_sane_simps [simp]:
  "regions_sane []"
  "regions_sane (r # rs) \<longleftrightarrow> region_sane r \<and> (\<forall>r' \<in> set rs. r_end r \<le> r_base r') \<and> regions_sane rs"
  by (auto simp: regions_sane_def)

lemma region_sane_pages:
  "region_sane r \<Longrightarrow> r_base r + (r_end r - r_base r) div 4096 * 4096 = r_end r"
  unfolding region_sane_def by (auto elim!: dvdE simp: mod_eq_0_iff_dvd algebra_simps div_mult_self_is_m simp flip: diff_mult_distrib2)

lemma set_region_frames:
  assumes "region_sane r"
  shows "set (region_frames r) = {p. r_kind r = PMM_USABLE \<and> covers r p \<and> p mod 4096 = 0}"
proof -
  from assms obtain a b where ab: "r_base r = 4096 * a" "r_end r = 4096 * b" "a < b"
    by (auto simp: region_sane_def mod_eq_0_iff_dvd elim!: dvdE)
  have "(4096 * b - 4096 * a) div 4096 = b - a" by (simp flip: diff_mult_distrib2)
  moreover have "(\<lambda>k. 4096 * a + k * 4096) ` {0..<b - a} = {p. 4096 * a \<le> p \<and> p < 4096 * b \<and> p mod 4096 = 0}"
  proof (intro equalityI subsetI)
    fix p assume "p \<in> {p. 4096 * a \<le> p \<and> p < 4096 * b \<and> p mod 4096 = 0}"
    then obtain q where "p = 4096 * q" "a \<le> q" "q < b" by (auto simp: mod_eq_0_iff_dvd elim!: dvdE)
    then show "p \<in> (\<lambda>k. 4096 * a + k * 4096) ` {0..<b - a}" by (intro image_eqI [of _ _ "q - a"]) auto
  qed auto
  ultimately show ?thesis using ab by (auto simp: region_frames_def covers_def)
qed

lemma set_frames:
  "regions_sane rs \<Longrightarrow> set (frames rs) = {p. p mod 4096 = 0 \<and> (\<exists>r \<in> set rs. r_kind r = PMM_USABLE \<and> covers r p)}"
  by (induction rs) (auto simp: set_region_frames)

lemma frames_sorted: "regions_sane rs \<Longrightarrow> sorted_wrt (<) (frames rs)"
proof (induction rs)
  case (Cons r rs)
  have "sorted_wrt (<) (region_frames r)" by (auto simp: region_frames_def sorted_wrt_iff_nth_less)
  moreover have "a < b" if "a \<in> set (region_frames r)" "b \<in> set (frames rs)" for a b
    using that Cons.prems by (fastforce simp: set_region_frames set_frames covers_def)
  ultimately show ?case using Cons by (auto simp: sorted_wrt_append)
qed simp

lemma frames_distinct: "regions_sane rs \<Longrightarrow> distinct (frames rs)"
  using frames_sorted strict_sorted_iff by blast

lemma frame_address_nth: "frame_address rs i = (if i < length (frames rs) then Some (frames rs ! i) else None)"
  by (induction rs arbitrary: i) (auto simp: region_frames_def nth_append Let_def)

lemma length_frames: "frames_of rs = length (frames rs)"
  by (induction rs) (auto simp: frames_of_def region_frames_def)

lemma usable_bytes_frames: "regions_sane rs \<Longrightarrow> bytes_of (\<lambda>k. k = PMM_USABLE) rs = length (frames rs) * 4096"
proof (induction rs)
  case (Cons r rs)
  then show ?case using region_sane_pages [of r]
    by (auto simp: bytes_of_def region_frames_def algebra_simps)
qed (simp add: bytes_of_def)

lemma locate_spec:
  assumes "regions_sane rs" "pa mod 4096 = 0"
  shows "case locate bits rs off pa of
      (Some j, st) \<Rightarrow> off \<le> j \<and> j - off < length (frames rs) \<and> frames rs ! (j - off) = pa \<and>
        st = (if pmm_bit bits j then PMM_STATE_ALLOCATED else PMM_STATE_FREE)
    | (None, st) \<Rightarrow> pa \<notin> set (frames rs) \<and>
        st = (if \<exists>r \<in> set rs. covers r pa then PMM_STATE_RESERVED else PMM_STATE_UNAVAILABLE)"
  using assms
proof (induction rs arbitrary: off)
  case (Cons r rs)
  have sane: "region_sane r" "regions_sane rs" "\<forall>r' \<in> set rs. r_end r \<le> r_base r'" using Cons.prems by auto
  show ?case
  proof (cases "covers r pa")
    case True
    then have out: "pa \<notin> set (frames rs)" "\<not> (\<exists>r' \<in> set rs. covers r' pa)"
      using sane by (auto simp: set_frames covers_def)
    have "(pa - r_base r) div 4096 < (r_end r - r_base r) div 4096 \<and> r_base r + (pa - r_base r) div 4096 * 4096 = pa"
    proof -
      from sane(1) Cons.prems(2) obtain a b q where "r_base r = 4096 * a" "r_end r = 4096 * b" "pa = 4096 * q"
        by (auto simp: region_sane_def mod_eq_0_iff_dvd elim!: dvdE)
      with True show ?thesis by (auto simp: covers_def simp flip: diff_mult_distrib2)
    qed
    then show ?thesis using True out sane(1)
      by (auto simp: covers_def region_frames_def nth_append Let_def)
  next
    case False
    let ?n = "length (region_frames r)"
    have n: "(if r_kind r = PMM_USABLE then off + (r_end r - r_base r) div 4096 else off) = off + ?n"
      by (simp add: region_frames_def)
    have l: "locate bits (r # rs) off pa = locate bits rs (off + ?n) pa"
      using False unfolding locate.simps n by (auto simp: covers_def)
    have "pa \<notin> set (region_frames r)" using False sane(1) by (simp add: set_region_frames)
    with Cons.IH [OF sane(2) Cons.prems(2), of "off + ?n"] False show ?thesis
      unfolding l by (auto simp: nth_append split: prod.splits option.splits)
  qed
qed simp

end
