(* ===== verification/Pmm_Inv.thy ===== *)
theory Pmm_Inv
  imports Pmm
begin

text \<open>
  The invariant of the frame allocator and what every operation does to the set
  of owned frames. \<^verbatim>\<open>pmm_check\<close> decides exactly the invariant. \<open>pool\<close> is the set of all
  frames the allocator manages and \<open>owned\<close> the set of those handed out; single
  allocation returns the lowest frame that is not owned, and release removes exactly
  one frame or is refused.
\<close>

section \<open>The bitmap\<close>

lemma pmm_bit_iff: "pmm_bit bits i \<longleftrightarrow> bit (bits (i div 8)) (i mod 8)"
  by (simp add: pmm_bit_def bit_iff_and_drop_bit_eq_1 and_one_eq odd_iff_mod_2_eq_one)

lemma same_bit: "i div 8 = j div 8 \<Longrightarrow> i mod 8 = j mod 8 \<longleftrightarrow> i = (j::nat)"
  by (metis div_mult_mod_eq)

lemma pmm_bit_set [simp]: "pmm_bit (set_bit_at i bits) j \<longleftrightarrow> j = i \<or> pmm_bit bits j"
proof (cases "i div 8 = j div 8")
  case True
  have "bit (push_bit (i mod 8) 1 :: u8) (j mod 8) \<longleftrightarrow> i mod 8 = j mod 8"
    by (auto simp: bit_exp_iff)
  with True same_bit [OF True] show ?thesis by (auto simp: pmm_bit_iff set_bit_at_def bit_or_iff)
qed (auto simp: pmm_bit_iff set_bit_at_def)

lemma pmm_bit_clear [simp]: "pmm_bit (clear_bit_at i bits) j \<longleftrightarrow> j \<noteq> i \<and> pmm_bit bits j"
  using same_bit [of i j] bit_imp_le_length [of "bits (j div 8)" "j mod 8"]
  by (auto simp: pmm_bit_iff clear_bit_at_def bit_simps)

lemma pmm_bit_run [simp]:
  "pmm_bit (for_loop n (\<lambda>j bits. set_bit_at (start + j) bits) bits) i \<longleftrightarrow> start \<le> i \<and> i < start + n \<or> pmm_bit bits i"
  by (induction n) auto

lemma first_clear_spec:
  assumes "lo \<le> hi"
  shows "lo \<le> first_clear bits lo hi" and "first_clear bits lo hi \<le> hi"
    and "first_clear bits lo hi < hi \<Longrightarrow> \<not> pmm_bit bits (first_clear bits lo hi)"
    and "lo \<le> i \<Longrightarrow> i < first_clear bits lo hi \<Longrightarrow> pmm_bit bits i"
proof -
  have "lo \<le> first_clear bits lo hi \<and> first_clear bits lo hi \<le> hi \<and>
      (first_clear bits lo hi < hi \<longrightarrow> \<not> pmm_bit bits (first_clear bits lo hi)) \<and>
      (\<forall>i. lo \<le> i \<and> i < first_clear bits lo hi \<longrightarrow> pmm_bit bits i)"
  proof (cases "find (\<lambda>i. \<not> pmm_bit bits i) [lo..<hi]")
    case None
    then have "\<forall>i \<in> set [lo..<hi]. pmm_bit bits i" by (simp only: find_None_iff) blast
    with None assms show ?thesis by (simp add: first_clear_def)
  next
    case (Some a)
    then obtain n where n: "n < hi - lo" "a = lo + n" "\<not> pmm_bit bits a" "\<forall>j < n. pmm_bit bits (lo + j)"
      by (auto simp: find_Some_iff)
    have "pmm_bit bits i" if "lo \<le> i" "i < a" for i using n(2,4) that by (auto simp: le_iff_add)
    with Some n(1-3) show ?thesis by (simp add: first_clear_def)
  qed
  then show "lo \<le> first_clear bits lo hi" and "first_clear bits lo hi \<le> hi"
    and "first_clear bits lo hi < hi \<Longrightarrow> \<not> pmm_bit bits (first_clear bits lo hi)"
    and "lo \<le> i \<Longrightarrow> i < first_clear bits lo hi \<Longrightarrow> pmm_bit bits i" by blast+
qed

section \<open>The invariant\<close>

definition used :: "pmm \<Rightarrow> nat set" where
  "used s = {i. i < pm_frame_count s \<and> pmm_bit (pm_bitmap s) i}"

definition pmm_inv :: "pmm \<Rightarrow> bool" where
  "pmm_inv s \<longleftrightarrow> pm_ready s \<and> regions_sane (pm_regions s) \<and>
     pm_frame_count s = length (frames (pm_regions s)) \<and> pm_cursor s \<le> pm_frame_count s \<and>
     pm_frame_count s \<le> ps_metadata_bytes (pm_stats s) * 8 \<and>
     (\<forall>i < pm_cursor s. pmm_bit (pm_bitmap s) i) \<and>
     ps_usable (pm_stats s) = pm_frame_count s * PMM_PAGE_SIZE \<and>
     ps_reserved (pm_stats s) = bytes_of (\<lambda>k. k \<noteq> PMM_USABLE) (pm_regions s) \<and>
     ps_described (pm_stats s) = ps_usable (pm_stats s) + ps_reserved (pm_stats s) \<and>
     ps_allocated (pm_stats s) = card (used s) * PMM_PAGE_SIZE \<and>
     ps_free (pm_stats s) = (pm_frame_count s - card (used s)) * PMM_PAGE_SIZE"

lemma or_page: "(a OR b) mod 4096 = (0::nat) \<longleftrightarrow> a mod 4096 = 0 \<and> b mod 4096 = 0"
proof -
  have t: "x mod 4096 = take_bit 12 x" for x :: nat by (simp add: take_bit_eq_mod)
  show ?thesis unfolding t take_bit_or by (simp add: or_eq_0_iff)
qed

lemma regions_checked_sane: "regions_checked rs \<longleftrightarrow> regions_sane rs"
proof (induction rs rule: regions_checked.induct)
  case (3 r r' rs)
  have "region_sane r \<and> r_end r \<le> r_base r' \<and> regions_sane (r' # rs) \<longleftrightarrow> regions_sane (r # r' # rs)"
    by (auto simp: region_sane_def)
  with 3 show ?case by (auto simp: region_sane_def or_page)
qed (auto simp: region_sane_def or_page)

lemma card_used: "card (used s) = length (filter (pmm_bit (pm_bitmap s)) [0..<pm_frame_count s])"
proof -
  have "used s = set (filter (pmm_bit (pm_bitmap s)) [0..<pm_frame_count s])" by (auto simp: used_def)
  then show ?thesis by (metis distinct_card distinct_filter distinct_upt)
qed

lemma used_bound [simp]: "finite (used s)" "card (used s) \<le> pm_frame_count s"
proof -
  have "used s \<subseteq> {..<pm_frame_count s}" by (auto simp: used_def)
  then show "finite (used s)" "card (used s) \<le> pm_frame_count s"
    by (simp_all add: finite_subset subset_eq_atLeast0_lessThan_card lessThan_atLeast0)
qed

lemma pmm_check_iff: "foreground c \<Longrightarrow> pmm_check c s \<longleftrightarrow> pmm_inv s"
proof (cases "pm_ready s \<and> regions_sane (pm_regions s)")
  case True
  assume "foreground c"
  with True show ?thesis
    unfolding pmm_check_def pmm_inv_def regions_checked_sane card_used [symmetric] Let_def
    by (simp add: pmm_context_def usable_bytes_frames) (use True in fastforce)
next
  case False
  then show ?thesis unfolding pmm_check_def pmm_inv_def regions_checked_sane pmm_context_def
    by (cases "pm_ready s") simp_all
qed

section \<open>Owned frames\<close>

definition pool :: "pmm \<Rightarrow> nat set" where
  "pool s = set (frames (pm_regions s))"

definition owned :: "pmm \<Rightarrow> nat set" where
  "owned s = (\<lambda>i. frames (pm_regions s) ! i) ` used s"

text \<open>The regions and the place of the bitmap, which no call after initialization changes.\<close>

definition same_map :: "pmm \<Rightarrow> pmm \<Rightarrow> bool" where
  "same_map s s' \<longleftrightarrow> pm_regions s' = pm_regions s \<and>
     ps_metadata_base (pm_stats s') = ps_metadata_base (pm_stats s) \<and>
     ps_metadata_bytes (pm_stats s') = ps_metadata_bytes (pm_stats s)"

lemma owned_pool: "pmm_inv s \<Longrightarrow> owned s \<subseteq> pool s"
  by (auto simp: owned_def pool_def used_def pmm_inv_def)

lemma pool_aligned: "pmm_inv s \<Longrightarrow> p \<in> pool s \<Longrightarrow> p mod 4096 = 0"
  by (simp add: pmm_inv_def pool_def set_frames)

lemma owned_nth:
  assumes "pmm_inv s" "i < pm_frame_count s"
  shows "frames (pm_regions s) ! i \<in> owned s \<longleftrightarrow> pmm_bit (pm_bitmap s) i"
  using assms frames_distinct [of "pm_regions s"]
  by (auto simp: owned_def used_def pmm_inv_def nth_eq_iff_index_eq)

lemma frames_mono:
  assumes "regions_sane rs" "i < j" "j < length (frames rs)"
  shows "frames rs ! i < frames rs ! j"
  using sorted_wrt_nth_less [OF frames_sorted [OF assms(1)] assms(2,3)] .

text \<open>Setting the bits of a set of free frames, and clearing one.\<close>

lemma owned_update:
  assumes "pm_regions s' = pm_regions s" "used s' = (used s \<union> A) - B" "B \<subseteq> {..<pm_frame_count s}"
    "A \<subseteq> {..<pm_frame_count s}" "pmm_inv s"
  shows "owned s' = (owned s \<union> (!) (frames (pm_regions s)) ` A) - (!) (frames (pm_regions s)) ` B"
proof -
  have "inj_on ((!) (frames (pm_regions s))) {..<pm_frame_count s}"
    using assms(5) by (auto simp: pmm_inv_def intro!: inj_onI simp: nth_eq_iff_index_eq frames_distinct)
  moreover have "used s \<union> A \<subseteq> {..<pm_frame_count s}" using assms(4) by (auto simp: used_def)
  ultimately have "(!) (frames (pm_regions s)) ` ((used s \<union> A) - B) =
      (!) (frames (pm_regions s)) ` (used s \<union> A) - (!) (frames (pm_regions s)) ` B"
    using assms(3) by (intro inj_on_image_set_diff) auto
  then show ?thesis unfolding owned_def assms(1,2) image_Un .
qed

lemma inv_update:
  assumes "pmm_inv s" "pm_regions s' = pm_regions s" "pm_frame_count s' = pm_frame_count s" "pm_ready s'"
    and "pm_stats s' = (pm_stats s)\<lparr>ps_free := f, ps_allocated := a\<rparr>"
    and "a = card (used s') * 4096" "f = (pm_frame_count s - card (used s')) * 4096"
    and "pm_cursor s' \<le> pm_frame_count s" "\<forall>i < pm_cursor s'. pmm_bit (pm_bitmap s') i"
  shows "pmm_inv s'"
  using assms by (simp add: pmm_inv_def)

lemma inv_counts:
  assumes "pmm_inv s"
  shows "ps_allocated (pm_stats s) = card (used s) * 4096"
    and "ps_free (pm_stats s) = (pm_frame_count s - card (used s)) * 4096"
    and "pm_cursor s \<le> pm_frame_count s" and "i < pm_cursor s \<Longrightarrow> pmm_bit (pm_bitmap s) i"
    and "pm_ready s" and "pm_frame_count s = length (frames (pm_regions s))" and "regions_sane (pm_regions s)"
    and "ps_usable (pm_stats s) = pm_frame_count s * 4096"
  using assms by (simp_all add: pmm_inv_def)

lemma allocate_spec:
  assumes inv: "pmm_inv s" and c: "foreground c"
  shows "pmm_allocate c True s = (PMM_OUT_OF_MEMORY, None, s) \<and> owned s = pool s \<or>
    (\<exists>pa s'. pmm_allocate c True s = (PMM_OK, Some pa, s') \<and> pa \<in> pool s - owned s \<and>
       (\<forall>p \<in> pool s - owned s. pa \<le> p) \<and> pmm_inv s' \<and> owned s' = insert pa (owned s) \<and> same_map s s')"
proof (cases "card (used s) = pm_frame_count s")
  case True
  then have "used s = {..<pm_frame_count s}"
    by (intro card_subset_eq) (auto simp: used_def)
  then have "owned s = pool s" using inv by (auto simp: owned_def pool_def pmm_inv_def in_set_conv_nth)
  moreover have "pmm_allocate c True s = (PMM_OUT_OF_MEMORY, None, s)"
    using True inv c by (simp add: pmm_allocate_def pmm_context_def pmm_inv_def)
  ultimately show ?thesis by blast
next
  case False
  let ?fc = "pm_frame_count s" and ?b = "pm_bitmap s"
  let ?i = "first_clear ?b (pm_cursor s) ?fc"
  have lt: "card (used s) < ?fc" using False used_bound(2) [of s] by linarith
  have cu: "pm_cursor s \<le> ?fc" using inv by (simp add: pmm_inv_def)
  note fc = first_clear_spec [OF cu, where bits = ?b]
  have below: "pmm_bit ?b i" if "i < ?i" for i
    using that fc(4) [of i] inv by (cases "i < pm_cursor s") (auto simp: pmm_inv_def)
  have i: "?i < ?fc"
  proof (rule ccontr)
    assume "\<not> ?i < ?fc"
    with below have "used s = {..<?fc}" by (auto simp: used_def)
    with False show False by simp
  qed
  then have nb: "\<not> pmm_bit ?b ?i" by (rule fc(3))
  define pa where "pa = frames (pm_regions s) ! ?i"
  define s' where "s' = s\<lparr>pm_bitmap := set_bit_at ?i ?b, pm_cursor := ?i + 1,
      pm_stats := (pm_stats s)\<lparr>ps_free := ps_free (pm_stats s) - 4096, ps_allocated := ps_allocated (pm_stats s) + 4096\<rparr>\<rparr>"
  have a: "pmm_allocate c True s = (PMM_OK, Some pa, s')"
    using inv c lt i nb cu by (simp add: pmm_allocate_def pmm_context_def pmm_inv_def Let_def frame_address_nth pa_def s'_def)
  have u: "used s' = insert ?i (used s)" using i by (auto simp: used_def s'_def)
  have cd: "card (used s') = Suc (card (used s))" using nb unfolding u by (subst card_insert_disjoint) (auto simp: used_def)
  have "pmm_inv s'"
  proof (rule inv_update [OF inv])
    show "ps_free (pm_stats s) - 4096 = (pm_frame_count s - card (used s')) * 4096"
      "ps_allocated (pm_stats s) + 4096 = card (used s') * 4096"
      using inv_counts(1,2) [OF inv] cd by simp_all
    show "\<forall>i < pm_cursor s'. pmm_bit (pm_bitmap s') i" using below by (auto simp: s'_def less_Suc_eq)
  qed (use i inv in \<open>simp_all add: s'_def inv_counts(5)\<close>)
  moreover have "owned s' = insert pa (owned s)" unfolding owned_def u by (auto simp: s'_def pa_def)
  moreover have "pa \<in> pool s - owned s" using i inv nb owned_nth [OF inv i]
    by (auto simp: pool_def pa_def pmm_inv_def)
  moreover have "pa \<le> p" if "p \<in> pool s - owned s" for p
  proof -
    from that inv obtain j where j: "j < ?fc" "p = frames (pm_regions s) ! j"
      by (auto simp: pool_def in_set_conv_nth pmm_inv_def)
    with that have "\<not> pmm_bit ?b j" using owned_nth [OF inv j(1)] by simp
    with below have "?i \<le> j" by (meson not_le)
    then show ?thesis using j inv frames_mono [of "pm_regions s" ?i j] by (cases "?i = j") (auto simp: pa_def pmm_inv_def)
  qed
  moreover have "same_map s s'" by (simp add: same_map_def s'_def)
  ultimately show ?thesis using a by blast
qed

lemma locate_pool:
  assumes inv: "pmm_inv s" and al: "pa mod 4096 = 0" and p: "pa \<in> pool s"
  obtains i where "i < pm_frame_count s" "frames (pm_regions s) ! i = pa"
    "locate (pm_bitmap s) (pm_regions s) 0 pa =
       (Some i, if pa \<in> owned s then PMM_STATE_ALLOCATED else PMM_STATE_FREE)"
proof (cases "locate (pm_bitmap s) (pm_regions s) 0 pa")
  case (Pair j st)
  have sane: "regions_sane (pm_regions s)" using inv by (simp add: pmm_inv_def)
  from locate_spec [OF sane al, where bits = "pm_bitmap s" and off = 0] Pair p obtain i where
    "j = Some i" "i < length (frames (pm_regions s))" "frames (pm_regions s) ! i = pa"
    "st = (if pmm_bit (pm_bitmap s) i then PMM_STATE_ALLOCATED else PMM_STATE_FREE)"
    by (cases j) (auto simp: pool_def)
  with Pair that inv owned_nth [OF inv, of i] show thesis by (auto simp: pmm_inv_def)
qed

lemma locate_outside:
  assumes inv: "pmm_inv s" and al: "pa mod 4096 = 0" and p: "pa \<notin> pool s"
  shows "locate (pm_bitmap s) (pm_regions s) 0 pa =
    (None, if \<exists>r \<in> set (pm_regions s). covers r pa then PMM_STATE_RESERVED else PMM_STATE_UNAVAILABLE)"
proof (cases "locate (pm_bitmap s) (pm_regions s) 0 pa")
  case (Pair j st)
  have sane: "regions_sane (pm_regions s)" using inv by (simp add: pmm_inv_def)
  from locate_spec [OF sane al, where bits = "pm_bitmap s" and off = 0] Pair p show ?thesis
    by (cases j) (auto simp: pool_def)
qed

definition frame_state :: "pmm \<Rightarrow> nat \<Rightarrow> pmm_state" where
  "frame_state s pa =
    (if pa \<in> owned s then PMM_STATE_ALLOCATED else if pa \<in> pool s then PMM_STATE_FREE
     else if \<exists>r \<in> set (pm_regions s). covers r pa then PMM_STATE_RESERVED else PMM_STATE_UNAVAILABLE)"

lemma query_spec:
  assumes inv: "pmm_inv s" and c: "foreground c"
  shows "pmm_query c pa True s = (if pa mod 4096 = 0 then (PMM_OK, Some (frame_state s pa)) else (PMM_INVALID, None))"
proof (cases "pa mod 4096 = 0 \<and> pa \<in> pool s")
  case True
  with inv obtain i where "locate (pm_bitmap s) (pm_regions s) 0 pa =
       (Some i, if pa \<in> owned s then PMM_STATE_ALLOCATED else PMM_STATE_FREE)" by (meson locate_pool)
  with True inv c show ?thesis by (simp add: pmm_query_def pmm_context_def pmm_inv_def frame_state_def)
next
  case False
  then show ?thesis using inv c locate_outside [OF inv] owned_pool [OF inv]
    by (auto simp: pmm_query_def pmm_context_def pmm_inv_def frame_state_def)
qed

lemma release_spec:
  assumes inv: "pmm_inv s" and c: "foreground c" and o: "pa \<in> owned s"
  shows "\<exists>s'. pmm_release c pa s = (PMM_OK, s') \<and> pmm_inv s' \<and> owned s' = owned s - {pa} \<and> same_map s s'"
proof -
  have p: "pa \<in> pool s" using owned_pool [OF inv] o by blast
  have al: "pa mod 4096 = 0" by (rule pool_aligned [OF inv p])
  obtain i where i: "i < pm_frame_count s" "frames (pm_regions s) ! i = pa"
    "locate (pm_bitmap s) (pm_regions s) 0 pa = (Some i, PMM_STATE_ALLOCATED)"
    using locate_pool [OF inv al p] o by auto
  define s' where "s' = s\<lparr>pm_bitmap := clear_bit_at i (pm_bitmap s),
      pm_cursor := (if i < pm_cursor s then i else pm_cursor s),
      pm_stats := (pm_stats s)\<lparr>ps_free := ps_free (pm_stats s) + 4096, ps_allocated := ps_allocated (pm_stats s) - 4096\<rparr>\<rparr>"
  have r: "pmm_release c pa s = (PMM_OK, s')"
    using inv c al i by (simp add: pmm_release_def pmm_context_def pmm_inv_def s'_def)
  have iu: "i \<in> used s" using i o owned_nth [OF inv i(1)] by (simp add: used_def)
  have u: "used s' = used s - {i}" by (auto simp: used_def s'_def)
  have cd: "card (used s) = Suc (card (used s'))" unfolding u using card_Suc_Diff1 [OF used_bound(1) iu] by simp
  have "pmm_inv s'"
  proof (rule inv_update [OF inv])
    have "Suc (card (used s')) \<le> pm_frame_count s" using cd used_bound(2) [of s] by simp
    then show "ps_free (pm_stats s) + 4096 = (pm_frame_count s - card (used s')) * 4096"
      "ps_allocated (pm_stats s) - 4096 = card (used s') * 4096"
      using inv_counts(1,2) [OF inv] cd by (auto simp: le_iff_add)
    show "\<forall>j < pm_cursor s'. pmm_bit (pm_bitmap s') j"
      using inv_counts(4) [OF inv] by (auto simp: s'_def)
  qed (use i(1) inv inv_counts(3) [OF inv] in \<open>simp_all add: s'_def inv_counts(5)\<close>)
  moreover have "owned s' = owned s - {pa}"
    using owned_update [of s' s "{}" "{i}"] u i inv by (auto simp: s'_def)
  moreover have "same_map s s'" by (simp add: same_map_def s'_def)
  ultimately show ?thesis using r by blast
qed

lemma release_refused:
  assumes inv: "pmm_inv s" and c: "foreground c" and o: "pa \<notin> owned s"
  shows "pmm_release c pa s =
    (if pa mod 4096 \<noteq> 0 then PMM_INVALID else if pa \<in> pool s then PMM_NOT_ALLOCATED else PMM_UNAVAILABLE, s)"
proof (cases "pa mod 4096 = 0 \<and> pa \<in> pool s")
  case True
  then have "pa mod 4096 = 0" "pa \<in> pool s" by auto
  from locate_pool [OF inv this] o obtain i where "locate (pm_bitmap s) (pm_regions s) 0 pa = (Some i, PMM_STATE_FREE)"
    by (metis (full_types))
  with True inv c show ?thesis by (simp add: pmm_release_def pmm_context_def pmm_inv_def)
next
  case False
  then show ?thesis using inv_counts(5) [OF inv] c locate_outside [OF inv, of pa]
    by (auto simp: pmm_release_def pmm_context_def)
qed

end
