(* ===== verification/Pmm_Run.thy ===== *)
theory Pmm_Run
  imports Pmm_Inv
begin

text \<open>
  Contiguous allocation and initialization of the frame allocator. The run scan
  finds the lowest run of free frames of one usable region with the wanted length,
  alignment and upper limit, and fails only if there is none. Initialization
  establishes the invariant with no frame owned, and the frames it manages are
  exactly the usable pages of the normalized map outside the first mebibyte, the
  kernel image and the bitmap.
\<close>

section \<open>The scan of one region\<close>

lemma run_clear_iff: "run_clear bits i n \<longleftrightarrow> (\<forall>j < n. \<not> pmm_bit bits (i + j))"
  by (auto simp: run_clear_def list_all_iff)

lemma step_split:
  fixes d j k :: nat
  assumes "0 < d" "d dvd j - k" "k \<le> j"
  shows "j = k \<or> k + d \<le> j \<and> d dvd j - (k + d)"
proof (cases "j = k")
  case False
  obtain q where q: "j - k = d * q" using assms(2) by auto
  with False assms(3) have "q \<noteq> 0" by (metis diff_is_0_eq le_antisym mult_0_right)
  then obtain q' where "q = Suc q'" by (cases q) auto
  then have "j = k + d + d * q'" using q assms(3) by simp
  then show ?thesis by simp
qed simp

definition on_step :: "nat \<Rightarrow> nat \<Rightarrow> nat \<Rightarrow> bool" where
  "on_step first step k \<longleftrightarrow> first \<le> k \<and> step dvd k - first"

lemma scan_region_spec:
  "0 < step \<Longrightarrow>
    (case scan_region bits off n step hi k of
       None \<Rightarrow> \<forall>j \<le> hi. on_step k step j \<longrightarrow> \<not> run_clear bits (off + j) n
     | Some i \<Rightarrow> \<exists>j \<le> hi. i = off + j \<and> on_step k step j \<and> run_clear bits (off + j) n \<and>
         (\<forall>l < j. on_step k step l \<longrightarrow> \<not> run_clear bits (off + l) n))"
proof (induction bits off n step hi k rule: scan_region.induct)
  case (1 bits off n step hi k)
  note unf = scan_region.simps [of bits off n step hi k]
  have later: "on_step k step j \<longleftrightarrow> j = k \<or> on_step (k + step) step j" for j
  proof
    assume "on_step k step j"
    then show "j = k \<or> on_step (k + step) step j" using step_split [OF "1.prems", of j k] by (auto simp: on_step_def)
  next
    assume "j = k \<or> on_step (k + step) step j"
    then show "on_step k step j"
    proof
      assume j: "on_step (k + step) step j"
      then have "j - k = (j - (k + step)) + step" "step dvd j - (k + step)" "k \<le> j" by (auto simp: on_step_def)
      then show ?thesis by (simp only: on_step_def dvd_add_triv_right_iff simp_thms)
    qed (simp add: on_step_def)
  qed
  consider "hi < k" | "k \<le> hi" "run_clear bits (off + k) n" | "k \<le> hi" "\<not> run_clear bits (off + k) n" by linarith
  then show ?case
  proof cases
    case 1
    then show ?thesis using "1.prems" unf by (auto simp: on_step_def)
  next
    case 2
    then have "scan_region bits off n step hi k = Some (off + k)" using "1.prems" unf by simp
    then show ?thesis using 2 by (auto simp: on_step_def)
  next
    case 3
    then have s: "scan_region bits off n step hi k = scan_region bits off n step hi (k + step)" using "1.prems" unf by simp
    have "case scan_region bits off n step hi (k + step) of
       None \<Rightarrow> \<forall>j \<le> hi. on_step (k + step) step j \<longrightarrow> \<not> run_clear bits (off + j) n
     | Some i \<Rightarrow> \<exists>j \<le> hi. i = off + j \<and> on_step (k + step) step j \<and> run_clear bits (off + j) n \<and>
         (\<forall>l < j. on_step (k + step) step l \<longrightarrow> \<not> run_clear bits (off + l) n)"
      using 3 "1.prems" by (intro "1.IH") auto
    then show ?thesis unfolding s later using 3(2) by (auto split: option.splits)
  qed
qed

text \<open>Which pages of a region have an aligned address.\<close>

lemma aligned_pages:
  fixes a t k :: nat
  assumes "0 < t"
  defines "first \<equiv> if a mod t \<noteq> 0 then t - a mod t else 0"
  shows "t dvd a + k \<longleftrightarrow> on_step first t k"
proof (cases "a mod t = 0")
  case True
  then have "t dvd a" by (simp add: dvd_eq_mod_eq_0)
  with True show ?thesis by (simp add: on_step_def first_def dvd_add_right_iff)
next
  case False
  have m: "a mod t < t" using assms(1) by simp
  have f: "first = t - a mod t" using False by (simp add: first_def)
  have fa: "t dvd a + first"
  proof -
    have "a + first = a div t * t + t" using m by (simp add: f minus_mod_eq_div_mult [symmetric])
    then show ?thesis by simp
  qed
  show ?thesis
  proof (cases "first \<le> k")
    case True
    then have "a + k = (a + first) + (k - first)" by simp
    with fa True show ?thesis unfolding on_step_def by (metis dvd_add_right_iff)
  next
    case le: False
    have "a = a div t * t + a mod t" by (rule div_mult_mod_eq [symmetric])
    moreover have "0 < a mod t" "k < t - a mod t" using False le by (simp_all add: f)
    ultimately have "a div t * t < a + k" "a + k < a div t * t + t" by linarith+
    then have "a div t * t < a + k" "a + k < Suc (a div t) * t" by simp_all
    have "\<not> t dvd a + k"
    proof
      assume "t dvd a + k"
      then obtain q where q: "a + k = q * t" by (metis dvd_def mult.commute)
      with \<open>a div t * t < a + k\<close> \<open>a + k < Suc (a div t) * t\<close> have "a div t < q" "q < Suc (a div t)"
        by (simp_all only: mult_less_cancel2)
      then show False by simp
    qed
    with le show ?thesis by (simp add: on_step_def)
  qed
qed

lemma pow2_align:
  assumes "0 < align" "align AND (align - 1) = (0::nat)"
  obtains m where "align = 2 ^ m" "\<And>x. x AND (align - 1) = x mod align"
proof -
  obtain m where m: "align = 2 ^ m" using nat_pow2_and [OF assms] by blast
  have "x AND (align - 1) = x mod align" for x
    unfolding m by (simp only: mask_eq_exp_minus_1 [symmetric] take_bit_eq_mask [symmetric] take_bit_eq_mod)
  with m show thesis using that by blast
qed

definition run_first :: "nat \<Rightarrow> nat \<Rightarrow> nat" where
  "run_first align base = (let miss = base AND (align - 1) in
     if 1 < align_step align \<and> miss \<noteq> 0 then (align - miss) div 4096 else 0)"

lemma align_step_aligned:
  assumes "0 < align" "align AND (align - 1) = (0::nat)" "base mod 4096 = 0"
  shows "0 < align_step align" and "align dvd base + k * 4096 \<longleftrightarrow> on_step (run_first align base) (align_step align) k"
proof -
  obtain m where m: "align = 2 ^ m" and an: "\<And>x. x AND (align - 1) = x mod align" using pow2_align [OF assms(1,2)] by blast
  obtain a where a: "base = 4096 * a" using assms(3) by auto
  have small: "align \<le> 4096 \<Longrightarrow> align dvd 4096"
  proof -
    assume "align \<le> 4096"
    then have "2 ^ m \<le> (2::nat) ^ 12" using m by simp
    then have "m \<le> 12" by (subst (asm) power_increasing_iff) simp_all
    then have "2 ^ m dvd (2::nat) ^ 12" by (rule le_imp_power_dvd)
    then show ?thesis using m by simp
  qed
  have big: "4096 < align \<Longrightarrow> align = 4096 * (align div 4096) \<and> 1 < align div 4096"
  proof -
    assume "4096 < align"
    then have "(2::nat) ^ 12 < 2 ^ m" using m by simp
    then have "12 < m" by (subst (asm) power_strict_increasing_iff) simp_all
    then obtain d where "m = 12 + Suc d" by (metis add_Suc_right less_imp_Suc_add)
    then have "align = 4096 * (2 * 2 ^ d)" using m by (simp add: power_add)
    moreover have "(1::nat) < 2 * 2 ^ d" using one_le_power [of "2::nat" d] by linarith
    ultimately show ?thesis by (metis nonzero_mult_div_cancel_left zero_neq_numeral)
  qed
  show "0 < align_step align" using big by (auto simp: align_step_def)
  show "align dvd base + k * 4096 \<longleftrightarrow> on_step (run_first align base) (align_step align) k"
  proof (cases "align \<le> 4096")
    case True
    then have "align dvd base + k * 4096" using small a by (simp add: dvd_mult2 dvd_mult)
    with True show ?thesis by (simp add: align_step_def run_first_def on_step_def)
  next
    case False
    define t where "t = align div 4096"
    have t: "align = 4096 * t" "1 < t" using big False by (auto simp: t_def)
    have st: "align_step align = t" using False by (simp add: align_step_def t_def)
    have "base AND (align - 1) = 4096 * (a mod t)" unfolding an unfolding a t(1) by (rule mult_mod_right [symmetric])
    then have "run_first align base = (if a mod t \<noteq> 0 then t - a mod t else 0)"
      using t st by (simp add: run_first_def Let_def flip: diff_mult_distrib2)
    moreover have "align dvd base + k * 4096 \<longleftrightarrow> t dvd a + k"
    proof -
      have "base + k * 4096 = 4096 * (a + k)" by (simp add: a)
      then show ?thesis using nat_mult_dvd_cancel_disj [of 4096 t "a + k"] by (simp only: t(1)) simp
    qed
    ultimately show ?thesis using aligned_pages [of t a k] t(2) st by simp
  qed
qed

section \<open>Runs over the regions\<close>

text \<open>The run of \<open>n\<close> free frames that starts at bitmap index \<open>i\<close>, in a region whose first index is \<open>off\<close>.\<close>

definition run_here :: "(nat \<Rightarrow> u8) \<Rightarrow> nat \<Rightarrow> nat \<Rightarrow> nat \<Rightarrow> pmm_region \<Rightarrow> nat \<Rightarrow> nat \<Rightarrow> bool" where
  "run_here bits n align limit r off i \<longleftrightarrow> r_kind r = PMM_USABLE \<and> off \<le> i \<and>
     r_base r + (i - off + n) * 4096 \<le> r_end r \<and> align dvd r_base r + (i - off) * 4096 \<and>
     (limit = 0 \<or> r_base r + (i - off + n) * 4096 \<le> limit) \<and> run_clear bits i n"

fun run_in :: "(nat \<Rightarrow> u8) \<Rightarrow> nat \<Rightarrow> nat \<Rightarrow> nat \<Rightarrow> pmm_region list \<Rightarrow> nat \<Rightarrow> nat \<Rightarrow> bool" where
  "run_in bits n align limit [] off i \<longleftrightarrow> False"
| "run_in bits n align limit (r # rs) off i \<longleftrightarrow>
    run_here bits n align limit r off i \<or> run_in bits n align limit rs (off + length (region_frames r)) i"

lemma run_in_ge: "run_in bits n align limit rs off i \<Longrightarrow> off \<le> i"
  by (induction rs arbitrary: off) (fastforce simp: run_here_def)+

lemma run_here_bound:
  assumes "run_here bits n align limit r off i" "region_sane r"
  shows "i + n \<le> off + length (region_frames r)"
proof -
  have "r_base r + (i - off + n) * 4096 \<le> r_base r + (r_end r - r_base r) div 4096 * 4096"
    using assms(1) region_sane_pages [OF assms(2)] unfolding run_here_def by presburger
  then have "i - off + n \<le> (r_end r - r_base r) div 4096" by simp
  then show ?thesis using assms(1) by (simp add: run_here_def region_frames_def)
qed

text \<open>What the body of the region loop finds in one usable region.\<close>

definition region_found :: "(nat \<Rightarrow> u8) \<Rightarrow> nat \<Rightarrow> nat \<Rightarrow> nat \<Rightarrow> pmm_region \<Rightarrow> nat \<Rightarrow> nat option" where
  "region_found bits n align limit r off =
    (let span = (if limit \<noteq> 0 then (min limit (r_end r) - r_base r) div 4096 else (r_end r - r_base r) div 4096) in
     if limit \<noteq> 0 \<and> limit \<le> r_base r then None
     else if n \<le> span then scan_region bits off n (align_step align) (span - n) (run_first align (r_base r)) else None)"

lemma region_found_spec:
  assumes sane: "region_sane r" and u: "r_kind r = PMM_USABLE" and n: "0 < n"
    and al: "0 < align" "align AND (align - 1) = (0::nat)"
  shows "case region_found bits n align limit r off of
      None \<Rightarrow> \<forall>i. \<not> run_here bits n align limit r off i
    | Some i \<Rightarrow> run_here bits n align limit r off i \<and> (\<forall>j < i. \<not> run_here bits n align limit r off j)"
proof -
  let ?span = "if limit \<noteq> 0 then (min limit (r_end r) - r_base r) div 4096 else (r_end r - r_base r) div 4096"
  have b: "r_base r mod 4096 = 0" using sane by (simp add: region_sane_def)
  note st = align_step_aligned [OF al b]
  have fit: "r_base r + m * 4096 \<le> e \<longleftrightarrow> m \<le> (e - r_base r) div 4096" if "0 < m" for m e
    using that by (simp add: less_eq_div_iff_mult_less_eq le_diff_conv2 add.commute) auto
  have here: "run_here bits n align limit r off (off + k) \<longleftrightarrow> \<not> (limit \<noteq> 0 \<and> limit \<le> r_base r) \<and> k + n \<le> ?span \<and>
      on_step (run_first align (r_base r)) (align_step align) k \<and> run_clear bits (off + k) n" for k
    using n u st(2) [of k] fit [of "k + n" "r_end r"] fit [of "k + n" limit] fit [of "k + n" "min limit (r_end r)"]
    by (auto simp: run_here_def)
  define sp where "sp = ?span"
  let ?over = "limit \<noteq> 0 \<and> limit \<le> r_base r"
  note here = here [folded sp_def]
  have f: "region_found bits n align limit r off = (if ?over then None else if n \<le> sp
      then scan_region bits off n (align_step align) (sp - n) (run_first align (r_base r)) else None)"
    unfolding region_found_def Let_def sp_def by (rule refl)
  have ex: "\<exists>k. i = off + k" if "run_here bits n align limit r off i" for i
    using that by (intro exI [of _ "i - off"]) (simp add: run_here_def)
  show ?thesis
  proof (cases "\<not> ?over \<and> n \<le> sp")
    case True
    have "k + n \<le> sp \<longleftrightarrow> k \<le> sp - n" for k using True by auto
    then have iff: "run_here bits n align limit r off (off + k) \<longleftrightarrow> k \<le> sp - n \<and>
      on_step (run_first align (r_base r)) (align_step align) k \<and> run_clear bits (off + k) n" for k
      using here [of k] True by blast
    have f': "region_found bits n align limit r off = scan_region bits off n (align_step align) (sp - n) (run_first align (r_base r))"
      using True unfolding f by (simp only: simp_thms if_True if_False)
    note spec = scan_region_spec [OF st(1), where bits = bits and off = off and n = n and hi = "sp - n"
        and k = "run_first align (r_base r)", folded f']
    show ?thesis
    proof (cases "region_found bits n align limit r off")
      case None
      with spec iff have "\<not> run_here bits n align limit r off (off + k)" for k by auto
      with None ex show ?thesis by auto
    next
      case (Some i)
      with spec obtain k where k: "i = off + k" "run_here bits n align limit r off (off + k)"
        "\<forall>l < k. \<not> run_here bits n align limit r off (off + l)" using iff by fastforce
      have "\<not> run_here bits n align limit r off j" if "j < i" for j using ex [of j] k(1,3) that by auto
      with Some k show ?thesis by simp
    qed
  next
    case False
    then have "region_found bits n align limit r off = None" unfolding f by auto
    moreover have "\<not> run_here bits n align limit r off i" for i using False here ex [of i] by fastforce
    ultimately show ?thesis by simp
  qed
qed

lemma scan_runs_spec:
  assumes "regions_sane rs" "0 < n" "0 < align" "align AND (align - 1) = (0::nat)" "off + length (frames rs) \<le> fc"
  shows "case scan_runs bits fc n align limit rs off of
      None \<Rightarrow> \<forall>i. \<not> run_in bits n align limit rs off i
    | Some i \<Rightarrow> run_in bits n align limit rs off i \<and> (\<forall>j < i. \<not> run_in bits n align limit rs off j)"
  using assms
proof (induction rs arbitrary: off)
  case (Cons r rs)
  have sane: "region_sane r" "regions_sane rs" using Cons.prems(1) by auto
  let ?off = "off + length (region_frames r)"
  note IH = Cons.IH [OF sane(2) Cons.prems(2-4), of ?off]
  show ?case
  proof (cases "r_kind r = PMM_USABLE")
    case False
    then have "region_frames r = []" "\<not> run_here bits n align limit r off i" for i
      by (auto simp: region_frames_def run_here_def)
    then show ?thesis using IH Cons.prems(5) False by (auto split: option.splits)
  next
    case True
    let ?p = "(r_end r - r_base r) div 4096"
    have p: "length (region_frames r) = ?p" "0 < ?p"
      using True sane(1) region_sane_pages [OF sane(1)] by (auto simp: region_frames_def region_sane_def intro: ccontr)
    have ok: "\<not> (r_end r \<le> r_base r \<or> (r_base r OR r_end r) mod 4096 \<noteq> 0)" "\<not> (?p = 0 \<or> fc < off \<or> fc - off < ?p)"
      using sane(1) p Cons.prems(5) by (auto simp: region_sane_def or_page)
    have s: "scan_runs bits fc n align limit (r # rs) off =
        (case region_found bits n align limit r off of Some i \<Rightarrow> Some i | None \<Rightarrow> scan_runs bits fc n align limit rs ?off)"
      unfolding scan_runs.simps Let_def region_found_def run_first_def p(1)
      using True ok by (auto split: option.split)
    have later: "\<not> run_in bits n align limit rs ?off j" if "j < ?off" for j using run_in_ge that by (meson not_le)
    show ?thesis
    proof (cases "region_found bits n align limit r off")
      case None
      then show ?thesis using region_found_spec [OF sane(1) True Cons.prems(2-4), of bits limit off] IH Cons.prems(5)
        unfolding s by (auto split: option.splits)
    next
      case (Some i)
      then have h: "run_here bits n align limit r off i" "\<forall>j < i. \<not> run_here bits n align limit r off j"
        using region_found_spec [OF sane(1) True Cons.prems(2-4), of bits limit off] by simp_all
      have "i < ?off" using run_here_bound [OF h(1) sane(1)] Cons.prems(2) by simp
      then show ?thesis using Some h later unfolding s by auto
    qed
  qed
qed simp

section \<open>Contiguous allocation\<close>

text \<open>A run of \<open>n\<close> free frames at the address \<open>pa\<close>: inside one usable region, aligned, below the limit.\<close>

definition run_at :: "pmm \<Rightarrow> nat \<Rightarrow> nat \<Rightarrow> nat \<Rightarrow> nat \<Rightarrow> bool" where
  "run_at s n align limit pa \<longleftrightarrow> pa mod 4096 = 0 \<and> align dvd pa \<and> (limit = 0 \<or> pa + n * 4096 \<le> limit) \<and>
     (\<exists>r \<in> set (pm_regions s). r_kind r = PMM_USABLE \<and> r_base r \<le> pa \<and> pa + n * 4096 \<le> r_end r) \<and>
     (\<forall>j < n. pa + j * 4096 \<notin> owned s)"

lemma run_in_split:
  "run_in bits n align limit rs off i \<longleftrightarrow>
    (\<exists>as r bs. rs = as @ r # bs \<and> run_here bits n align limit r (off + length (frames as)) i)"
proof (induction rs arbitrary: off)
  case (Cons r rs)
  show ?case
  proof
    assume "run_in bits n align limit (r # rs) off i"
    then consider "run_here bits n align limit r off i" | "run_in bits n align limit rs (off + length (region_frames r)) i" by auto
    then show "\<exists>as r' bs. r # rs = as @ r' # bs \<and> run_here bits n align limit r' (off + length (frames as)) i"
    proof cases
      case 1
      then show ?thesis by (intro exI [of _ "[]"] exI [of _ r] exI [of _ rs]) simp
    next
      case 2
      with Cons.IH obtain as r' bs where "rs = as @ r' # bs"
        "run_here bits n align limit r' (off + length (region_frames r) + length (frames as)) i" by blast
      then show ?thesis by (intro exI [of _ "r # as"] exI [of _ r'] exI [of _ bs]) (simp add: add.assoc)
    qed
  next
    assume "\<exists>as r' bs. r # rs = as @ r' # bs \<and> run_here bits n align limit r' (off + length (frames as)) i"
    then obtain as r' bs where s: "r # rs = as @ r' # bs" "run_here bits n align limit r' (off + length (frames as)) i" by blast
    then show "run_in bits n align limit (r # rs) off i" using Cons.IH [of "off + length (region_frames r)"]
      by (cases as) (auto simp: add.assoc)
  qed
qed simp

lemma frames_in_region:
  assumes "r_kind r = PMM_USABLE" "k < length (region_frames r)"
  shows "frames (as @ r # bs) ! (length (frames as) + k) = r_base r + k * 4096"
  using assms by (simp add: nth_append region_frames_def)

lemma run_in_address:
  assumes inv: "pmm_inv s" and n: "0 < n" and run: "run_in (pm_bitmap s) n align limit (pm_regions s) 0 i"
  shows "i + n \<le> pm_frame_count s" and "run_at s n align limit (frames (pm_regions s) ! i)"
    and "j < n \<Longrightarrow> frames (pm_regions s) ! (i + j) = frames (pm_regions s) ! i + j * 4096"
proof -
  from run obtain as r bs where rs: "pm_regions s = as @ r # bs"
    and h: "run_here (pm_bitmap s) n align limit r (length (frames as)) i" by (auto simp: run_in_split)
  let ?o = "length (frames as)"
  have sane: "region_sane r" using inv_counts(7) [OF inv] rs by (simp add: regions_sane_def)
  have u: "r_kind r = PMM_USABLE" "?o \<le> i" using h by (simp_all add: run_here_def)
  have b: "i + n \<le> ?o + length (region_frames r)" by (rule run_here_bound [OF h sane])
  then show le: "i + n \<le> pm_frame_count s" using inv_counts(6) [OF inv] rs by simp
  have fr: "frames (pm_regions s) ! (i + k) = r_base r + (i - ?o + k) * 4096" if "k < n" for k
    using frames_in_region [OF u(1), of "i - ?o + k" as bs] b u(2) that by (simp add: rs)
  then show eq: "frames (pm_regions s) ! (i + j) = frames (pm_regions s) ! i + j * 4096" if "j < n" for j
    using fr [OF that] fr [OF n] by (simp add: add_mult_distrib)
  have free: "frames (pm_regions s) ! i + j * 4096 \<notin> owned s" if "j < n" for j
    using owned_nth [OF inv, of "i + j"] eq [OF that] le that h by (simp add: run_here_def run_clear_iff)
  have "frames (pm_regions s) ! i \<in> pool s" using le n inv_counts(6) [OF inv] by (simp add: pool_def)
  then show "run_at s n align limit (frames (pm_regions s) ! i)"
    using pool_aligned [OF inv] free h fr [OF n] u rs unfolding run_at_def run_here_def
    by (auto simp: add_mult_distrib algebra_simps)
qed

lemma run_at_index:
  assumes inv: "pmm_inv s" and n: "0 < n" and run: "run_at s n align limit pa"
  shows "\<exists>i. run_in (pm_bitmap s) n align limit (pm_regions s) 0 i \<and> frames (pm_regions s) ! i = pa"
proof -
  from run obtain r where r: "r \<in> set (pm_regions s)" "r_kind r = PMM_USABLE" "r_base r \<le> pa" "pa + n * 4096 \<le> r_end r"
    by (auto simp: run_at_def)
  then obtain as bs where rs: "pm_regions s = as @ r # bs" by (meson split_list)
  let ?o = "length (frames as)" and ?k = "(pa - r_base r) div 4096"
  have sane: "region_sane r" using inv_counts(7) [OF inv] r(1) by (simp add: regions_sane_def)
  have "4096 dvd r_base r" "4096 dvd pa" using sane run by (auto simp: region_sane_def run_at_def)
  then have pa: "r_base r + ?k * 4096 = pa" using r(3) by simp
  have sz: "r_base r + (?k + n) * 4096 \<le> r_end r" using pa r(4) by (simp add: add_mult_distrib)
  then have lt: "?k + j < length (region_frames r)" if "j < n" for j
  proof -
    have "r_base r + (?k + n) * 4096 \<le> r_base r + (r_end r - r_base r) div 4096 * 4096"
      using sz region_sane_pages [OF sane] by presburger
    then have "?k + n \<le> (r_end r - r_base r) div 4096" by simp
    then show ?thesis using r(2) that by (simp add: region_frames_def)
  qed
  have fr: "frames (pm_regions s) ! (?o + (?k + j)) = pa + j * 4096" if "j < n" for j
    using frames_in_region [OF r(2) lt [OF that], of as bs] pa unfolding rs by (simp add: add_mult_distrib)
  have clear: "\<not> pmm_bit (pm_bitmap s) (?o + ?k + j)" if "j < n" for j
  proof -
    have "?o + (?k + j) < pm_frame_count s" using lt [OF that] inv_counts(6) [OF inv] by (simp add: rs)
    then show ?thesis using owned_nth [OF inv, of "?o + (?k + j)"] fr [OF that] run that
      by (simp add: run_at_def add.assoc)
  qed
  have "run_here (pm_bitmap s) n align limit r ?o (?o + ?k)"
  proof -
    have "r_base r + (?k * 4096 + n * 4096) = pa + n * 4096" using pa by linarith
    then have "limit = 0 \<or> r_base r + (?k * 4096 + n * 4096) \<le> limit" using run by (simp only: run_at_def)
    then show ?thesis using r(2) sz pa run clear by (simp add: run_here_def run_clear_iff run_at_def)
  qed
  then have "run_in (pm_bitmap s) n align limit (pm_regions s) 0 (?o + ?k)" unfolding run_in_split rs by auto
  moreover have "frames (pm_regions s) ! (?o + ?k) = pa" using fr [OF n] by simp
  ultimately show ?thesis by blast
qed

lemma contiguous_spec:
  assumes inv: "pmm_inv s" and c: "foreground c" and n: "0 < n" and al: "0 < align" "align AND (align - 1) = (0::nat)"
  shows "pmm_alloc_contiguous c n align limit True s = (PMM_OUT_OF_MEMORY, None, s) \<and> (\<forall>pa. \<not> run_at s n align limit pa) \<or>
    (\<exists>pa s'. pmm_alloc_contiguous c n align limit True s = (PMM_OK, Some pa, s') \<and> run_at s n align limit pa \<and>
       (\<forall>p. run_at s n align limit p \<longrightarrow> pa \<le> p) \<and> pmm_inv s' \<and>
       owned s' = owned s \<union> (\<lambda>j. pa + j * 4096) ` {..<n} \<and> same_map s s')"
proof -
  let ?in = "run_in (pm_bitmap s) n align limit (pm_regions s) 0"
  let ?scan = "pmm_scan_run (pm_regions s) (pm_bitmap s) (pm_frame_count s) n align limit"
  note cnt = inv_counts [OF inv]
  have spec: "case ?scan of None \<Rightarrow> \<forall>i. \<not> ?in i | Some i \<Rightarrow> ?in i \<and> (\<forall>j < i. \<not> ?in j)"
  proof (cases "pm_frame_count s < n")
    case True
    then have "?scan = None" by (simp add: pmm_scan_run_def)
    moreover have "\<not> ?in i" for i using run_in_address(1) [OF inv n, of align limit i] True by auto
    ultimately show ?thesis by simp
  next
    case False
    then have "?scan = scan_runs (pm_bitmap s) (pm_frame_count s) n align limit (pm_regions s) 0"
      using n al by (simp add: pmm_scan_run_def)
    then show ?thesis using scan_runs_spec [OF cnt(7) n al, of 0 "pm_frame_count s" "pm_bitmap s" limit] cnt(6) by simp
  qed
  have ctx: "pmm_context c s = PMM_OK" using cnt(5) c by (simp add: pmm_context_def)
  show ?thesis
  proof (cases ?scan)
    case None
    then have "\<not> run_at s n align limit pa" for pa using spec run_at_index [OF inv n, of align limit pa] by auto
    moreover have "pmm_alloc_contiguous c n align limit True s = (PMM_OUT_OF_MEMORY, None, s)"
      using None n al ctx cnt(8) by (simp add: pmm_alloc_contiguous_def)
    ultimately show ?thesis by blast
  next
    case (Some i)
    with spec have i: "?in i" "\<forall>j < i. \<not> ?in j" by auto
    note a = run_in_address [OF inv n i(1)]
    define pa where "pa = frames (pm_regions s) ! i"
    define s' where "s' = s\<lparr>pm_bitmap := for_loop n (\<lambda>j bits. set_bit_at (i + j) bits) (pm_bitmap s),
        pm_stats := (pm_stats s)\<lparr>ps_free := ps_free (pm_stats s) - n * 4096, ps_allocated := ps_allocated (pm_stats s) + n * 4096\<rparr>\<rparr>"
    have r: "pmm_alloc_contiguous c n align limit True s = (PMM_OK, Some pa, s')"
      using Some n al ctx cnt(6,8) a(1) by (simp add: pmm_alloc_contiguous_def frame_address_nth pa_def s'_def)
    have clear: "\<not> pmm_bit (pm_bitmap s) j" if "i \<le> j" "j < i + n" for j
    proof -
      define k where "k = j - i"
      have k: "j = i + k" "k < n" using that by (simp_all add: k_def)
      have "pa + k * 4096 \<notin> owned s" using a(2) k(2) by (simp add: run_at_def pa_def)
      then show ?thesis using owned_nth [OF inv, of j] a(1,3) k by (simp add: pa_def)
    qed
    have u: "used s' = used s \<union> {i..<i + n}" using a(1) by (auto simp: used_def s'_def)
    have "used s \<inter> {i..<i + n} = {}" using clear by (auto simp: used_def)
    then have cd: "card (used s') = card (used s) + n" unfolding u by (simp add: card_Un_disjoint)
    have "pmm_inv s'"
    proof (rule inv_update [OF inv])
      show "ps_free (pm_stats s) - n * 4096 = (pm_frame_count s - card (used s')) * 4096"
        "ps_allocated (pm_stats s) + n * 4096 = card (used s') * 4096"
        unfolding cnt(1,2) cd by (simp_all add: diff_mult_distrib add_mult_distrib)
      show "\<forall>j < pm_cursor s'. pmm_bit (pm_bitmap s') j" using cnt(4) by (simp add: s'_def)
    qed (use cnt(3,5) in \<open>simp_all add: s'_def\<close>)
    moreover have "owned s' = owned s \<union> (\<lambda>j. pa + j * 4096) ` {..<n}"
    proof -
      have "owned s' = owned s \<union> (!) (frames (pm_regions s)) ` {i..<i + n}"
      proof -
        have "pm_regions s' = pm_regions s" "{i..<i + n} \<subseteq> {..<pm_frame_count s}" using a(1) by (auto simp: s'_def)
        then show ?thesis using owned_update [of s' s "{i..<i + n}" "{}"] u inv by simp
      qed
      moreover have "{i..<i + n} = (+) i ` {..<n}" by (simp add: lessThan_atLeast0 add.commute)
      ultimately show ?thesis using a(3) by (simp add: image_image pa_def cong: image_cong_simp)
    qed
    moreover have "pa \<le> p" if "run_at s n align limit p" for p
    proof -
      from run_at_index [OF inv n that] obtain j where j: "?in j" "frames (pm_regions s) ! j = p" by blast
      with i(2) have "i \<le> j" by (meson not_le)
      then show ?thesis using frames_mono [OF cnt(7), of i j] run_in_address(1) [OF inv n j(1)] j(2) n cnt(6)
        by (cases "i = j") (auto simp: pa_def)
    qed
    moreover have "same_map s s'" by (simp add: same_map_def s'_def)
    ultimately show ?thesis using r a(2) unfolding pa_def by blast
  qed
qed

end
