(* ===== verification/Pmm_Init.thy ===== *)
theory Pmm_Init
  imports Pmm_Run
begin

text \<open>
  Initialization of the frame allocator: what is left of the usable regions after the
  low megabyte, the kernel image and the bitmap are cut out, and that a successful
  initialization establishes the invariant with every remaining frame free.
\<close>

section \<open>Cutting an interval out of the usable regions\<close>

definition usable_at :: "pmm_region list \<Rightarrow> nat \<Rightarrow> bool" where
  "usable_at rs x \<longleftrightarrow> (\<exists>r \<in> set rs. r_kind r = PMM_USABLE \<and> covers r x)"

definition reserved_of :: "nat \<Rightarrow> nat \<Rightarrow> pmm_kind \<Rightarrow> pmm_region \<Rightarrow> pmm_region list" where
  "reserved_of b e k r =
    (if r_kind r \<noteq> PMM_USABLE \<or> e \<le> r_base r \<or> r_end r \<le> b then [r] else split_region b e k r)"

lemma reserve_closed: "reserve b e k seen rs = (True, out) \<Longrightarrow> out = seen @ concat (map (reserved_of b e k) rs)"
proof (induction rs arbitrary: seen)
  case (Cons r rs)
  from Cons.prems have "reserve b e k (seen @ reserved_of b e k r) rs = (True, out)"
    by (auto simp: reserved_of_def Let_def split: if_splits)
  from Cons.IH [OF this] show ?case by simp
qed simp

lemma regions_sane_append [simp]:
  "regions_sane (xs @ ys) \<longleftrightarrow> regions_sane xs \<and> regions_sane ys \<and> (\<forall>x \<in> set xs. \<forall>y \<in> set ys. r_end x \<le> r_base y)"
  by (auto simp: regions_sane_def sorted_wrt_append)

lemma reserved_of_within: "q \<in> set (reserved_of b e k r) \<Longrightarrow> r_base r \<le> r_base q \<and> r_end q \<le> r_end r"
  by (auto simp: reserved_of_def split_region_def Let_def split: if_splits)

lemma reserved_of_sane:
  assumes "region_sane r" "b < e" "b mod 4096 = 0" "e mod 4096 = 0"
  shows "regions_sane (reserved_of b e k r)"
  using assms by (auto simp: reserved_of_def split_region_def Let_def region_sane_def max_def min_def)

lemma reserve_sane:
  assumes "reserve b e k [] rs = (True, out)" "regions_sane rs" "b < e" "b mod 4096 = 0" "e mod 4096 = 0"
  shows "regions_sane out"
proof -
  have "regions_sane (concat (map (reserved_of b e k) rs))" using assms(2)
  proof (induction rs)
    case (Cons r rs)
    have "r_end q \<le> r_base q'" if "q \<in> set (reserved_of b e k r)" "r' \<in> set rs" "q' \<in> set (reserved_of b e k r')" for q r' q'
      using reserved_of_within [OF that(1)] reserved_of_within [OF that(3)] Cons.prems that(2)
      by (meson le_trans regions_sane_simps(2))
    then show ?case using Cons reserved_of_sane [OF _ assms(3-5), of r k] by auto
  qed simp
  then show ?thesis using reserve_closed [OF assms(1)] by simp
qed

lemma reserved_of_usable:
  assumes "k \<noteq> PMM_USABLE" "b < e"
  shows "usable_at (reserved_of b e k r) x \<longleftrightarrow> usable_at [r] x \<and> \<not> (b \<le> x \<and> x < e)"
  using assms by (auto simp: usable_at_def reserved_of_def split_region_def Let_def covers_def)

lemma reserve_usable:
  assumes "reserve b e k [] rs = (True, out)" "k \<noteq> PMM_USABLE" "b < e"
  shows "usable_at out x \<longleftrightarrow> usable_at rs x \<and> \<not> (b \<le> x \<and> x < e)"
proof -
  have "usable_at (concat (map (reserved_of b e k) rs)) x \<longleftrightarrow> (\<exists>r \<in> set rs. usable_at (reserved_of b e k r) x)"
    by (auto simp: usable_at_def)
  also have "\<dots> \<longleftrightarrow> usable_at rs x \<and> \<not> (b \<le> x \<and> x < e)"
    unfolding reserved_of_usable [OF assms(2,3)] by (auto simp: usable_at_def)
  finally show ?thesis using reserve_closed [OF assms(1)] by simp
qed

lemma frames_usable_at: "regions_sane rs \<Longrightarrow> p \<in> set (frames rs) \<longleftrightarrow> p mod 4096 = 0 \<and> usable_at rs p"
  by (auto simp: set_frames usable_at_def covers_def)

section \<open>Initialization\<close>

text \<open>The pages a successful initialization manages: usable in the map, outside what it reserves.\<close>

definition free_page :: "link_layout \<Rightarrow> boot_memory_map \<Rightarrow> pmm_stats \<Rightarrow> nat \<Rightarrow> bool" where
  "free_page ly m st p \<longleftrightarrow> p mod 4096 = 0 \<and> claims m p = {PMM_USABLE} \<and> 0x100000 \<le> p \<and>
     \<not> (ly_kernel_start ly \<le> p \<and> p < kernel_rounded ly) \<and>
     \<not> (ps_metadata_base st \<le> p \<and> p < ps_metadata_base st + ps_metadata_bytes st)"

lemma regions_ok_sane:
  assumes "map_exact m bits rs"
  shows "regions_sane rs"
proof -
  have "sorted_wrt (\<lambda>a b. r_end a \<le> r_base b) rs"
    using assms by (auto simp: map_exact_def regions_ok_def elim: sorted_wrt_mono_rel [rotated])
  then show ?thesis using assms by (auto simp: map_exact_def regions_ok_def regions_sane_def region_sane_def)
qed

lemma kind_at_usable: "regions_sane rs \<Longrightarrow> usable_at rs p \<longleftrightarrow> kind_at rs p = PMM_USABLE"
proof (induction rs)
  case (Cons r rs)
  have "\<not> usable_at rs p" if "covers r p"
    using that Cons.prems by (fastforce simp: usable_at_def covers_def)
  moreover have "usable_at (r # rs) p \<longleftrightarrow> covers r p \<and> r_kind r = PMM_USABLE \<or> usable_at rs p" by (auto simp: usable_at_def)
  moreover have "kind_at (r # rs) p = (if covers r p then r_kind r else kind_at rs p)" by (simp add: kind_at_def)
  ultimately show ?case using Cons by auto
qed (simp add: usable_at_def kind_at_def)

lemma priority_usable: "priority k \<le> priority PMM_USABLE \<longleftrightarrow> k = PMM_USABLE"
  by (cases k) (simp_all add: priority_def)

lemma map_exact_usable:
  assumes "map_exact m bits rs"
  shows "usable_at rs p \<longleftrightarrow> claims m p = {PMM_USABLE}"
proof -
  have "if claims m p = {} then kind_at rs p = PMM_HOLE
      else kind_at rs p \<in> claims m p \<and> (\<forall>k \<in> claims m p. priority k \<le> priority (kind_at rs p))"
    using assms unfolding map_exact_def by blast
  then have "kind_at rs p = PMM_USABLE \<longleftrightarrow> claims m p = {PMM_USABLE}"
    by (cases "claims m p = {}") (auto simp: priority_usable)
  then show ?thesis using kind_at_usable [OF regions_ok_sane [OF assms]] by simp
qed

lemma initialize_ready:
  assumes "pmm_initialize c ly m bits s = (r, s')" "r \<noteq> PMM_OK"
  shows "pm_ready s' = pm_ready s"
  using assms by (auto simp: pmm_initialize_def Let_def split: if_splits sum.splits prod.splits)

lemma initialize_steps:
  assumes "pmm_initialize c ly m bits s = (PMM_OK, s')"
  obtains m' rs0 rs1 rs2 rs3 bytes where "m = Some m'" "pmm_normalize m bits = Inr rs0" "kernel_ok ly rs0"
    "reserve 0 0x100000 PMM_BOOT_RESERVED [] rs0 = (True, rs1)"
    "reserve (ly_kernel_start ly) (kernel_rounded ly) PMM_BOOT_RESERVED [] rs1 = (True, rs2)"
    "bytes = page_up ((frames_of rs2 + 7) div 8)" "frames_of rs2 \<noteq> 0"
    "metadata_address (ly_identity_limit ly) bytes rs2 \<noteq> 0"
    "reserve (metadata_address (ly_identity_limit ly) bytes rs2) (metadata_address (ly_identity_limit ly) bytes rs2 + bytes) PMM_METADATA [] rs2 = (True, rs3)"
    "s' = s\<lparr>pm_regions := rs3, pm_stats := no_stats\<lparr>ps_firmware_usable := bytes_of (\<lambda>k. k = PMM_USABLE) rs0,
        ps_metadata_base := metadata_address (ly_identity_limit ly) bytes rs2, ps_metadata_bytes := bytes,
        ps_described := bytes_of (\<lambda>k. k = PMM_USABLE) rs3 + bytes_of (\<lambda>k. k \<noteq> PMM_USABLE) rs3,
        ps_usable := bytes_of (\<lambda>k. k = PMM_USABLE) rs3, ps_reserved := bytes_of (\<lambda>k. k \<noteq> PMM_USABLE) rs3,
        ps_free := bytes_of (\<lambda>k. k = PMM_USABLE) rs3\<rparr>,
        pm_bitmap := (\<lambda>i. if i < bytes then 0 else pm_bitmap s i),
        pm_frame_count := bytes_of (\<lambda>k. k = PMM_USABLE) rs3 div 4096, pm_cursor := 0, pm_ready := True\<rparr>"
  using assms by (cases m) (auto simp: pmm_initialize_def pmm_normalize_def Let_def split: if_splits sum.splits prod.splits)

lemma metadata_address_aligned:
  assumes "regions_sane rs"
  shows "metadata_address limit bytes rs mod 4096 = 0"
proof (cases "find (\<lambda>r. r_kind r = PMM_USABLE \<and> r_base r < min (r_end r) limit \<and>
                     bytes \<le> min (r_end r) limit - r_base r) rs")
  case (Some r)
  then have "r \<in> set rs" by (auto simp: find_Some_iff)
  then have "region_sane r" using assms by (simp add: regions_sane_def)
  then show ?thesis using Some by (simp add: metadata_address_def region_sane_def)
qed (simp add: metadata_address_def)

text \<open>
  The metadata is carved out of usable memory below the identity-mapped limit, so the
  bitmap the code clears at that address is memory it owns.
\<close>

lemma metadata_address_usable:
  assumes "metadata_address limit bytes rs \<noteq> 0" "metadata_address limit bytes rs \<le> x"
    "x < metadata_address limit bytes rs + bytes"
  shows "usable_at rs x \<and> x < limit"
proof (cases "find (\<lambda>r. r_kind r = PMM_USABLE \<and> r_base r < min (r_end r) limit \<and>
                     bytes \<le> min (r_end r) limit - r_base r) rs")
  case (Some r)
  then have "r \<in> set rs" "r_kind r = PMM_USABLE" "r_base r < min (r_end r) limit" "bytes \<le> min (r_end r) limit - r_base r"
    by (auto simp: find_Some_iff)
  moreover have "metadata_address limit bytes rs = r_base r" using Some by (simp add: metadata_address_def)
  ultimately show ?thesis using assms(2,3) by (auto simp: usable_at_def covers_def)
qed (use assms(1) in \<open>simp add: metadata_address_def\<close>)

lemma initialize_spec:
  assumes init: "pmm_initialize c ly (Some m) bits s = (PMM_OK, s')" and al: "ly_kernel_start ly mod 4096 = 0"
  shows "pmm_inv s' \<and> owned s' = {} \<and> map_acceptable m bits \<and> (\<forall>p. p \<in> pool s' \<longleftrightarrow> free_page ly m (pm_stats s') p) \<and>
    (\<forall>x. ps_metadata_base (pm_stats s') \<le> x \<and> x < ps_metadata_base (pm_stats s') + ps_metadata_bytes (pm_stats s') \<longrightarrow>
       claims m x = {PMM_USABLE} \<and> x < ly_identity_limit ly)"
proof -
  from init obtain rs0 rs1 rs2 rs3 bytes where n: "pmm_normalize (Some m) bits = Inr rs0" and k: "kernel_ok ly rs0"
    and r1: "reserve 0 0x100000 PMM_BOOT_RESERVED [] rs0 = (True, rs1)"
    and r2: "reserve (ly_kernel_start ly) (kernel_rounded ly) PMM_BOOT_RESERVED [] rs1 = (True, rs2)"
    and b: "bytes = page_up ((frames_of rs2 + 7) div 8)" "frames_of rs2 \<noteq> 0"
    and a0: "metadata_address (ly_identity_limit ly) bytes rs2 \<noteq> 0"
    and r3: "reserve (metadata_address (ly_identity_limit ly) bytes rs2) (metadata_address (ly_identity_limit ly) bytes rs2 + bytes) PMM_METADATA [] rs2 = (True, rs3)"
    and s': "s' = s\<lparr>pm_regions := rs3, pm_stats := no_stats\<lparr>ps_firmware_usable := bytes_of (\<lambda>k. k = PMM_USABLE) rs0,
        ps_metadata_base := metadata_address (ly_identity_limit ly) bytes rs2, ps_metadata_bytes := bytes,
        ps_described := bytes_of (\<lambda>k. k = PMM_USABLE) rs3 + bytes_of (\<lambda>k. k \<noteq> PMM_USABLE) rs3,
        ps_usable := bytes_of (\<lambda>k. k = PMM_USABLE) rs3, ps_reserved := bytes_of (\<lambda>k. k \<noteq> PMM_USABLE) rs3,
        ps_free := bytes_of (\<lambda>k. k = PMM_USABLE) rs3\<rparr>,
        pm_bitmap := (\<lambda>i. if i < bytes then 0 else pm_bitmap s i),
        pm_frame_count := bytes_of (\<lambda>k. k = PMM_USABLE) rs3 div 4096, pm_cursor := 0, pm_ready := True\<rparr>"
    by (rule initialize_steps) blast
  define base where "base = metadata_address (ly_identity_limit ly) bytes rs2"
  note acc = normalize_accepts [OF n]
  note ex = normalize_exact [OF acc n]
  have kr: "ly_kernel_start ly < kernel_rounded ly" "kernel_rounded ly mod 4096 = 0"
    using k by (auto simp: kernel_ok_def kernel_rounded_def)
  have sane2: "regions_sane rs2"
    using reserve_sane [OF r2 reserve_sane [OF r1 regions_ok_sane [OF ex]] kr(1) al kr(2)] by simp
  have bt: "0 < bytes" "bytes mod 4096 = 0" "frames_of rs2 \<le> bytes * 8"
    using page_up_ge [of "(frames_of rs2 + 7) div 8"] b by auto
  have base: "base mod 4096 = 0" "(base + bytes) mod 4096 = 0"
    using metadata_address_aligned [OF sane2] bt(2) by (auto simp: base_def intro: mod_add_cong [of _ _ 0, simplified])
  have sane3: "regions_sane rs3" by (rule reserve_sane [OF r3 [folded base_def] sane2]) (use bt base in simp_all)
  have u2: "usable_at rs2 x \<longleftrightarrow> claims m x = {PMM_USABLE} \<and> 0x100000 \<le> x \<and> \<not> (ly_kernel_start ly \<le> x \<and> x < kernel_rounded ly)" for x
  proof -
    have "usable_at rs1 x \<longleftrightarrow> usable_at rs0 x \<and> \<not> (0 \<le> x \<and> x < 0x100000)" by (rule reserve_usable [OF r1]) simp_all
    moreover have "usable_at rs2 x \<longleftrightarrow> usable_at rs1 x \<and> \<not> (ly_kernel_start ly \<le> x \<and> x < kernel_rounded ly)"
      by (rule reserve_usable [OF r2 _ kr(1)]) simp
    ultimately show ?thesis using map_exact_usable [OF ex, of x] by (simp add: not_less)
  qed
  have u3: "usable_at rs3 x \<longleftrightarrow> usable_at rs2 x \<and> \<not> (base \<le> x \<and> x < base + bytes)" for x
    by (rule reserve_usable [OF r3 [folded base_def]]) (use bt(1) in simp_all)
  have "set (frames rs3) \<subseteq> set (frames rs2)"
    using u3 frames_usable_at [OF sane2] frames_usable_at [OF sane3] by blast
  then have "card (set (frames rs3)) \<le> card (set (frames rs2))" by (simp add: card_mono)
  then have "length (frames rs3) \<le> length (frames rs2)"
    using distinct_card [OF frames_distinct [OF sane2]] distinct_card [OF frames_distinct [OF sane3]] by simp
  then have fc: "length (frames rs3) \<le> bytes * 8" using bt(3) by (simp add: length_frames)
  note ub = usable_bytes_frames [OF sane3]
  have st: "pm_regions s' = rs3" "pm_frame_count s' = length (frames rs3)" "ps_metadata_base (pm_stats s') = base"
    "ps_metadata_bytes (pm_stats s') = bytes" unfolding s' by (simp_all add: ub base_def)
  have "pmm_bit (pm_bitmap s') i \<longleftrightarrow> False" if "i < length (frames rs3)" for i
  proof -
    have "i div 8 < bytes" using that fc by (simp add: div_less_iff_less_mult)
    then show ?thesis unfolding s' by (simp add: pmm_bit_def)
  qed
  then have used: "used s' = {}" using st(2) by (simp add: used_def)
  have "pmm_inv s'" using sane3 fc st used unfolding pmm_inv_def s' by (simp add: ub no_stats_def)
  moreover have "p \<in> pool s' \<longleftrightarrow> free_page ly m (pm_stats s') p" for p
    unfolding pool_def st free_page_def frames_usable_at [OF sane3] u3 u2 by auto
  moreover have "claims m x = {PMM_USABLE} \<and> x < ly_identity_limit ly" if "base \<le> x \<and> x < base + bytes" for x
    using metadata_address_usable [OF a0, of x] that u2 [of x] by (simp add: base_def)
  ultimately show ?thesis using acc used unfolding st(3,4) by (simp add: owned_def)
qed

end
