(* ===== verification/Pmm_Pool.thy ===== *)
theory Pmm_Pool
  imports Pmm_Init "HOL-Library.Code_Target_Nat"
begin

text \<open>
  The frame allocator over time. The contract \<open>frame_pool\<close> is what its clients rely on: a
  call grants only frames of the pool that nobody owns, and only a release ends the
  ownership. It follows that a frame that is not released is never granted a second
  time, and that the pool itself never changes.
\<close>

section \<open>The contract\<close>

locale frame_pool =
  fixes inv :: "'s \<Rightarrow> bool"
    and own :: "'s \<Rightarrow> nat set"
    and all :: "'s \<Rightarrow> nat set"
    and step :: "'s \<Rightarrow> 'o \<Rightarrow> 's"
    and granted :: "'s \<Rightarrow> 'o \<Rightarrow> nat set"
    and released :: "'s \<Rightarrow> 'o \<Rightarrow> nat set"
  assumes step_inv: "inv s \<Longrightarrow> inv (step s e)"
    and step_all: "inv s \<Longrightarrow> all (step s e) = all s"
    and step_own: "inv s \<Longrightarrow> own (step s e) = (own s \<union> granted s e) - released s e"
    and granted_free: "inv s \<Longrightarrow> granted s e \<subseteq> all s - own s"
    and released_owned: "inv s \<Longrightarrow> released s e \<subseteq> own s"
begin

lemma run_inv: "inv s \<Longrightarrow> inv (run_ops step s es)"
  by (induction es arbitrary: s) (auto simp: step_inv)

lemma run_all: "inv s \<Longrightarrow> all (run_ops step s es) = all s"
  by (induction es arbitrary: s) (auto simp: step_inv step_all)

lemma run_keeps:
  "inv s \<Longrightarrow> p \<in> own s \<Longrightarrow> (\<And>es1 e es2. es = es1 @ e # es2 \<Longrightarrow> p \<notin> released (run_ops step s es1) e) \<Longrightarrow>
    p \<in> own (run_ops step s es)"
proof (induction es arbitrary: s)
  case (Cons e es)
  have "p \<notin> released s e" using Cons.prems(3) [of "[]" e es] by simp
  then have "p \<in> own (step s e)" using Cons.prems(1,2) step_own by simp
  moreover have "p \<notin> released (run_ops step (step s e) es1) e'" if "es = es1 @ e' # es2" for es1 e' es2
    using Cons.prems(3) [of "e # es1" e' es2] that by simp
  ultimately show ?case using Cons.IH [OF step_inv [OF Cons.prems(1)]] by simp
qed simp

lemma granted_once:
  assumes "inv s" and "p \<in> own s" and "\<And>es1 e es2. es = es1 @ e # es2 \<Longrightarrow> p \<notin> released (run_ops step s es1) e"
  shows "p \<in> own (run_ops step s es)" and "p \<notin> granted (run_ops step s es) e"
proof -
  show own: "p \<in> own (run_ops step s es)" by (rule run_keeps) (use assms in auto)
  show "p \<notin> granted (run_ops step s es) e" using own granted_free [OF run_inv [OF assms(1)]] by blast
qed

lemma run_within: "inv s \<Longrightarrow> own s \<subseteq> all s \<Longrightarrow> own (run_ops step s es) \<subseteq> all s"
proof (induction es arbitrary: s)
  case (Cons e es)
  then have "own (step s e) \<subseteq> all (step s e)" using step_own [of s e] step_all [of s e] granted_free [of s e] by blast
  then show ?case using Cons.IH [OF step_inv [OF Cons.prems(1)]] step_all [OF Cons.prems(1)] by simp
qed simp

end

section \<open>The allocator's calls\<close>

datatype pmm_call = Allocate | Contiguous nat nat nat | Release nat

definition pmm_step :: "cpu_ctx \<Rightarrow> pmm \<Rightarrow> pmm_call \<Rightarrow> pmm" where
  "pmm_step c s e = (case e of
      Allocate \<Rightarrow> snd (snd (pmm_allocate c True s))
    | Contiguous n align limit \<Rightarrow> snd (snd (pmm_alloc_contiguous c n align limit True s))
    | Release pa \<Rightarrow> snd (pmm_release c pa s))"

definition frames_granted :: "cpu_ctx \<Rightarrow> pmm \<Rightarrow> pmm_call \<Rightarrow> nat set" where
  "frames_granted c s e = (case e of
      Allocate \<Rightarrow> set_option (fst (snd (pmm_allocate c True s)))
    | Contiguous n align limit \<Rightarrow>
        (case fst (snd (pmm_alloc_contiguous c n align limit True s)) of
           None \<Rightarrow> {} | Some pa \<Rightarrow> (\<lambda>j. pa + j * PMM_PAGE_SIZE) ` {..<n})
    | Release pa \<Rightarrow> {})"

definition frames_released :: "cpu_ctx \<Rightarrow> pmm \<Rightarrow> pmm_call \<Rightarrow> nat set" where
  "frames_released c s e = (case e of Release pa \<Rightarrow> if fst (pmm_release c pa s) = PMM_OK then {pa} else {} | _ \<Rightarrow> {})"

lemma same_map_pool: "same_map s s' \<Longrightarrow> pool s' = pool s"
  by (simp add: same_map_def pool_def)

text \<open>The five laws for one call, from the specification of each operation.\<close>

definition lawful :: "cpu_ctx \<Rightarrow> pmm \<Rightarrow> pmm_call \<Rightarrow> bool" where
  "lawful c s e \<longleftrightarrow> pmm_inv (pmm_step c s e) \<and> pool (pmm_step c s e) = pool s \<and>
     owned (pmm_step c s e) = (owned s \<union> frames_granted c s e) - frames_released c s e \<and>
     frames_granted c s e \<subseteq> pool s - owned s \<and> frames_released c s e \<subseteq> owned s"

lemma refused_lawful:
  assumes "pmm_inv s" "pmm_step c s e = s" "frames_granted c s e = {}" "frames_released c s e = {}"
  shows "lawful c s e"
  using assms by (simp add: lawful_def)

lemma allocate_lawful:
  assumes inv: "pmm_inv s" and c: "foreground c"
  shows "lawful c s Allocate"
  using allocate_spec [OF inv c]
proof
  assume "\<exists>pa s'. pmm_allocate c True s = (PMM_OK, Some pa, s') \<and> pa \<in> pool s - owned s \<and>
       (\<forall>p \<in> pool s - owned s. pa \<le> p) \<and> pmm_inv s' \<and> owned s' = insert pa (owned s) \<and> same_map s s'"
  then show ?thesis
    by (auto simp: lawful_def pmm_step_def frames_granted_def frames_released_def same_map_pool)
qed (auto intro!: refused_lawful simp: inv pmm_step_def frames_granted_def frames_released_def)

lemma run_at_pool:
  assumes inv: "pmm_inv s" and "run_at s n align limit pa" and "j < n"
  shows "pa + j * 4096 \<in> pool s - owned s"
proof -
  from assms obtain r where r: "r \<in> set (pm_regions s)" "r_kind r = PMM_USABLE" "r_base r \<le> pa" "pa + n * 4096 \<le> r_end r"
    and al: "pa mod 4096 = 0" and free: "pa + j * 4096 \<notin> owned s" by (auto simp: run_at_def)
  have "pa + j * 4096 < pa + n * 4096" using \<open>j < n\<close> by simp
  then have "covers r (pa + j * 4096)" using r(3,4) by (simp add: covers_def)
  moreover have "(pa + j * 4096) mod 4096 = 0" using al by simp
  ultimately show ?thesis using r(1,2) free inv_counts(7) [OF inv] by (auto simp: pool_def set_frames)
qed

lemma contiguous_lawful:
  assumes inv: "pmm_inv s" and c: "foreground c"
  shows "lawful c s (Contiguous n align limit)"
proof (cases "n = 0 \<or> align = 0 \<or> align AND (align - 1) \<noteq> 0")
  case True
  then have "pmm_alloc_contiguous c n align limit True s = (PMM_INVALID, None, s)"
    using c inv_counts(5) [OF inv] by (auto simp: pmm_alloc_contiguous_def pmm_context_def)
  then show ?thesis by (auto intro!: refused_lawful simp: inv pmm_step_def frames_granted_def frames_released_def)
next
  case False
  then have "0 < n" "0 < align" "align AND (align - 1) = 0" by auto
  from contiguous_spec [OF inv c this, of limit] show ?thesis
  proof
    assume "\<exists>pa s'. pmm_alloc_contiguous c n align limit True s = (PMM_OK, Some pa, s') \<and> run_at s n align limit pa \<and>
       (\<forall>p. run_at s n align limit p \<longrightarrow> pa \<le> p) \<and> pmm_inv s' \<and>
       owned s' = owned s \<union> (\<lambda>j. pa + j * 4096) ` {..<n} \<and> same_map s s'"
    then obtain pa s' where r: "pmm_alloc_contiguous c n align limit True s = (PMM_OK, Some pa, s')"
      "run_at s n align limit pa" "pmm_inv s'" "owned s' = owned s \<union> (\<lambda>j. pa + j * 4096) ` {..<n}" "same_map s s'" by blast
    have "(\<lambda>j. pa + j * 4096) ` {..<n} \<subseteq> pool s - owned s" using run_at_pool [OF inv r(2)] by blast
    with r show ?thesis
      by (simp add: lawful_def pmm_step_def frames_granted_def frames_released_def same_map_pool)
  qed (auto intro!: refused_lawful simp: inv pmm_step_def frames_granted_def frames_released_def)
qed

lemma release_lawful:
  assumes inv: "pmm_inv s" and c: "foreground c"
  shows "lawful c s (Release pa)"
proof (cases "pa \<in> owned s")
  case True
  from release_spec [OF inv c True] obtain s' where "pmm_release c pa s = (PMM_OK, s')" "pmm_inv s'"
    "owned s' = owned s - {pa}" "same_map s s'" by blast
  then show ?thesis
    using True by (simp add: lawful_def pmm_step_def frames_granted_def frames_released_def same_map_pool)
next
  case False
  then show ?thesis using inv
    by (intro refused_lawful) (simp_all add: release_refused [OF inv c] pmm_step_def frames_granted_def frames_released_def)
qed

lemma context_lawful:
  assumes inv: "pmm_inv s" and c: "\<not> foreground c"
  shows "lawful c s e"
  using c by (cases e; intro refused_lawful)
    (simp_all add: inv pmm_step_def frames_granted_def frames_released_def pmm_allocate_def
      pmm_alloc_contiguous_def pmm_release_def pmm_context_def)

lemma step_lawful: "pmm_inv s \<Longrightarrow> lawful c s e"
  by (cases "foreground c"; cases e)
    (simp_all add: allocate_lawful contiguous_lawful release_lawful context_lawful)

interpretation fp: frame_pool pmm_inv owned pool "pmm_step c" "frames_granted c" "frames_released c"
  by unfold_locales (use step_lawful in \<open>simp_all add: lawful_def\<close>)

text \<open>
  From a successful initialization on, whatever is called: the self check passes, only
  pages that are free memory of the map are owned, and no call grants a frame that is
  owned.
\<close>

lemma initialized_history:
  assumes init: "pmm_initialize c ly (Some m) bits s0 = (PMM_OK, s)" and al: "ly_kernel_start ly mod 4096 = 0"
    and c: "foreground c" and p: "p \<in> owned (run_ops (pmm_step c) s es)"
  shows "pmm_check c (run_ops (pmm_step c) s es)" and "free_page ly m (pm_stats s) p"
    and "p \<notin> frames_granted c (run_ops (pmm_step c) s es) e"
proof -
  note i = initialize_spec [OF init al]
  then have inv: "pmm_inv s" by blast
  show "pmm_check c (run_ops (pmm_step c) s es)" using fp.run_inv [OF inv] pmm_check_iff [OF c] by blast
  show "free_page ly m (pm_stats s) p" using fp.run_within [OF inv owned_pool [OF inv], of c es] p i by blast
  show "p \<notin> frames_granted c (run_ops (pmm_step c) s es) e"
    using fp.granted_free [OF fp.run_inv [OF inv]] p by blast
qed

section \<open>A boot\<close>

text \<open>
  One usable entry of 16 megabytes and a kernel image at 2 megabytes: initialization succeeds,
  puts the bitmap above the low megabyte, and the self check passes from then on.
\<close>

definition frames_demo_map :: boot_memory_map where
  "frames_demo_map = \<lparr>bm_magic = BOOT_MAP_MAGIC, bm_version = 1, bm_count = 1, bm_capacity = 64, bm_stride = 32, bm_status = 1,
     bm_bytes = 4096, bm_reserved = 0,
     bm_entries = (\<lambda>_. \<lparr>be_base = 0, be_length = 0x1000000, be_type = 1, be_attributes = 1, be_returned_size = 24, be_reserved = 0\<rparr>)\<rparr>"

definition frames_demo_layout :: link_layout where
  "frames_demo_layout = \<lparr>ly_owned = [(0x1000, 0x7000), (0x500, 0x600), (0x600, 0x700), (0x7000, 0x7c00), (0x7c00, 0x7e00),
       (0x8000, 0x9000), (0x90000, 0x94000)], ly_boot_start = 0x8000, ly_boot_end = 0x9000, ly_boot_file_size = 0x1000,
     ly_kernel_start = 0x200000, ly_payload_end = 0x280000, ly_kernel_end = 0x2f0123, ly_kernel_phys_base = 0x200000,
     ly_kernel_mem_max = 0x200000, ly_kernel_file_max = 0x100000, ly_identity_limit = 0x800000\<rparr>"

definition frames_demo_cpu :: cpu_ctx where
  "frames_demo_cpu = \<lparr>if_disabled = True, in_irq = False\<rparr>"

definition frames_demo_boot :: pmm where
  "frames_demo_boot = \<lparr>pm_regions = [], pm_stats = no_stats, pm_bitmap = (\<lambda>_. 0), pm_frame_count = 0, pm_cursor = 0, pm_ready = False\<rparr>"

lemma frames_demo_initializes: "fst (pmm_initialize frames_demo_cpu frames_demo_layout (Some frames_demo_map) 36 frames_demo_boot) = PMM_OK"
  by code_simp

lemma frames_demo_regions:
  "pm_regions (snd (pmm_initialize frames_demo_cpu frames_demo_layout (Some frames_demo_map) 36 frames_demo_boot)) =
    [region 0 0x100000 PMM_BOOT_RESERVED, region 0x100000 0x101000 PMM_METADATA, region 0x101000 0x200000 PMM_USABLE,
     region 0x200000 0x2f1000 PMM_BOOT_RESERVED, region 0x2f1000 0x1000000 PMM_USABLE]"
  by code_simp

lemma frames_demo_checked:
  "pmm_check frames_demo_cpu (run_ops (pmm_step frames_demo_cpu) (snd (pmm_initialize frames_demo_cpu frames_demo_layout (Some frames_demo_map) 36 frames_demo_boot)) es)"
proof -
  obtain s where s: "pmm_initialize frames_demo_cpu frames_demo_layout (Some frames_demo_map) 36 frames_demo_boot = (PMM_OK, s)"
    using frames_demo_initializes by (metis prod.collapse)
  have al: "ly_kernel_start frames_demo_layout mod 4096 = 0" by (simp add: frames_demo_layout_def)
  have inv: "pmm_inv s" by (rule conjunct1 [OF initialize_spec [OF s al]])
  have "foreground frames_demo_cpu" by (simp add: frames_demo_cpu_def foreground_def)
  then show ?thesis unfolding s snd_conv using fp.run_inv [OF inv] pmm_check_iff by blast
qed

end
