(* ===== verification/Rl_Lex.thy ===== *)
theory Rl_Lex
  imports Prelude
begin

text \<open>
  The RynorLang lexer, \<^verbatim>\<open>src/user/shell/rl_lex.c\<close> and
  \<^verbatim>\<open>rl_lex.h\<close>. A source text is the list of the \<^verbatim>\<open>len\<close> bytes the C code may
  read; positions and lengths are natural numbers, with the casts to
  \<^verbatim>\<open>unsigned short\<close> of \<^verbatim>\<open>rl_emit\<close> written as \<open>mod 2 ^ 16\<close>. The string scratch
  is the array \<^verbatim>\<open>base\<close> points to, and a pointer into it is its offset.

  The lemmas show that the lexer makes progress inside the text, that the textual
  overflow test is the comparison of the decimal value with the largest 64-bit integer,
  and that a quoted byte string is decoded to itself.
\<close>

section \<open>Tokens\<close>

datatype rl_tkind =
    RLT_EOF | RLT_IDENT | RLT_INT | RLT_STR | RLT_TRUE | RLT_FALSE | RLT_LET | RLT_FN
  | RLT_IF | RLT_ELSE | RLT_WHILE | RLT_RETURN | RLT_INT_T | RLT_BOOL_T | RLT_STR_T
  | RLT_PLUS | RLT_MINUS | RLT_STAR | RLT_SLASH | RLT_PERCENT | RLT_BANG | RLT_EQUAL
  | RLT_EQEQ | RLT_BANGEQ | RLT_LESS | RLT_GREATER | RLT_LESSEQ | RLT_GREATEREQ
  | RLT_ANDAND | RLT_OROR | RLT_ARROW | RLT_PIPEGT | RLT_LPAREN | RLT_RPAREN
  | RLT_LBRACE | RLT_RBRACE | RLT_SEMI | RLT_COMMA | RLT_COLON

datatype rl_lexrc = RLL_OK | RLL_BADCHAR | RLL_INTOFLOW | RLL_UNTERM | RLL_BADESC

record rl_tok =
  t_kind :: rl_tkind
  t_off :: nat
  t_len :: nat
  t_vlen :: nat
  t_val :: nat

record rl_lex =
  lx_src :: string
  lx_pos :: nat

record rl_strscratch =
  ss_base :: "nat \<Rightarrow> char"
  ss_cap :: nat
  ss_used :: nat

section \<open>Character classes and keywords\<close>

abbreviation byte_of :: "char \<Rightarrow> nat" where
  "byte_of c \<equiv> of_char c"

abbreviation NL :: char where "NL \<equiv> CHR 0x0A"

abbreviation CR :: char where "CR \<equiv> CHR 0x0D"

abbreviation TAB :: char where "TAB \<equiv> CHR 0x09"

abbreviation QUOTE :: char where "QUOTE \<equiv> CHR 0x22"

abbreviation BACKSLASH :: char where "BACKSLASH \<equiv> CHR 0x5C"

definition non_ascii :: "char \<Rightarrow> bool" where
  "non_ascii c = (127 < byte_of c)"

definition rl_is_alpha :: "char \<Rightarrow> bool" where
  "rl_is_alpha c =
    (c = CHR ''_'' \<or> (65 \<le> byte_of c \<and> byte_of c \<le> 90) \<or> (97 \<le> byte_of c \<and> byte_of c \<le> 122))"

definition rl_is_digit :: "char \<Rightarrow> bool" where
  "rl_is_digit c = (48 \<le> byte_of c \<and> byte_of c \<le> 57)"

definition rl_is_alnum :: "char \<Rightarrow> bool" where
  "rl_is_alnum c = (rl_is_alpha c \<or> rl_is_digit c)"

definition rl_keyword :: "string \<Rightarrow> rl_tkind" where
  "rl_keyword w =
    (if length w = 2 then
       if w = ''fn'' then RLT_FN else if w = ''if'' then RLT_IF else RLT_IDENT
     else if length w = 3 then
       if w = ''let'' then RLT_LET else if w = ''int'' then RLT_INT_T
       else if w = ''str'' then RLT_STR_T else RLT_IDENT
     else if length w = 4 then
       if w = ''true'' then RLT_TRUE else if w = ''else'' then RLT_ELSE
       else if w = ''bool'' then RLT_BOOL_T else RLT_IDENT
     else if length w = 5 then
       if w = ''while'' then RLT_WHILE else if w = ''false'' then RLT_FALSE else RLT_IDENT
     else if length w = 6 then
       if w = ''return'' then RLT_RETURN else RLT_IDENT
     else RLT_IDENT)"

section \<open>Positions\<close>

definition rl_lex_init :: "string \<Rightarrow> rl_lex" where
  "rl_lex_init src = \<lparr>lx_src = src, lx_pos = 0\<rparr>"

definition rl_lex_mark :: "rl_lex \<Rightarrow> nat" where
  "rl_lex_mark lx = lx_pos lx"

definition rl_lex_rewind :: "rl_lex \<Rightarrow> nat \<Rightarrow> rl_lex" where
  "rl_lex_rewind lx mark = (if mark \<le> length (lx_src lx) then lx\<lparr>lx_pos := mark\<rparr> else lx)"

section \<open>The textual overflow test\<close>

definition RL_I64_MAX_TXT :: string where
  "RL_I64_MAX_TXT = ''9223372036854775807''"

fun digits_above :: "string \<Rightarrow> string \<Rightarrow> bool" where
  "digits_above (a # s) (b # t) = (if a \<noteq> b then byte_of b < byte_of a else digits_above s t)"
| "digits_above _ _ = False"

definition rl_int_overflow :: "string \<Rightarrow> bool" where
  "rl_int_overflow s =
    (let s' = dropWhile (\<lambda>c. c = CHR ''0'') s in
     if s' = [] then False
     else if 19 < length s' then True
     else if length s' < 19 then False
     else digits_above s' RL_I64_MAX_TXT)"

section \<open>The scanner\<close>

definition rl_emit :: "rl_tkind \<Rightarrow> nat \<Rightarrow> nat \<Rightarrow> rl_tok" where
  "rl_emit kind off len =
    \<lparr>t_kind = kind, t_off = off mod 65536, t_len = len mod 65536, t_vlen = 0, t_val = 0\<rparr>"

function skip_comment :: "string \<Rightarrow> nat \<Rightarrow> nat \<times> bool" where
  "skip_comment s p =
    (if p < length s \<and> s ! p \<noteq> NL
     then if non_ascii (s ! p) then (p, True) else skip_comment s (p + 1)
     else (p, False))"
  by pat_completeness auto
termination by (relation "measure (\<lambda>(s, p). length s - p)") auto

declare skip_comment.simps [simp del]

lemma skip_comment_mono: "p \<le> fst (skip_comment s p)"
  by (induction s p rule: skip_comment.induct) (subst skip_comment.simps, auto)

datatype rl_skipped = SkipEnd nat | SkipBad nat | SkipTok nat

function rl_skip :: "string \<Rightarrow> nat \<Rightarrow> rl_skipped" where
  "rl_skip s p =
    (if length s \<le> p then SkipEnd p
     else if non_ascii (s ! p) then SkipBad p
     else if s ! p = CHR '' '' \<or> s ! p = TAB \<or> s ! p = CR \<or> s ! p = NL then rl_skip s (p + 1)
     else if s ! p = CHR ''/'' \<and> p + 1 < length s \<and> s ! (p + 1) = CHR ''/'' then
       if snd (skip_comment s (p + 2)) then SkipBad (fst (skip_comment s (p + 2)))
       else rl_skip s (fst (skip_comment s (p + 2)))
     else SkipTok p)"
  by pat_completeness auto
termination
proof (relation "measure (\<lambda>(s, p). length s - p)", goal_cases)
  case (3 s p)
  then show ?case using skip_comment_mono [of "p + 2" s] by auto
qed auto

declare rl_skip.simps [simp del]

function scan_while :: "(char \<Rightarrow> bool) \<Rightarrow> string \<Rightarrow> nat \<Rightarrow> nat" where
  "scan_while f s p = (if p < length s \<and> f (s ! p) then scan_while f s (p + 1) else p)"
  by pat_completeness auto
termination by (relation "measure (\<lambda>(f, s, p). length s - p)") auto

declare scan_while.simps [simp del]

definition rl_escape :: "char \<Rightarrow> char option" where
  "rl_escape e =
    (if e = BACKSLASH then Some BACKSLASH
     else if e = QUOTE then Some QUOTE
     else if e = CHR ''n'' then Some NL
     else if e = CHR ''t'' then Some TAB
     else None)"

definition ss_put :: "nat \<Rightarrow> nat \<Rightarrow> char \<Rightarrow> (nat \<Rightarrow> char) \<Rightarrow> nat \<Rightarrow> char" where
  "ss_put cap w v b = (if w < cap then b(w := v) else b)"

text \<open>
  The result of the string loop: the closing quote was passed, at the new position and
  write index, or a failure with its code, the offset it is reported at and the position
  the loop stopped at. The scratch bytes are part of both.
\<close>

datatype rl_strres =
    StrDone nat nat "nat \<Rightarrow> char"
  | StrFail rl_lexrc nat nat "nat \<Rightarrow> char"

function rl_strloop ::
  "string \<Rightarrow> nat \<Rightarrow> nat \<Rightarrow> nat \<Rightarrow> nat \<Rightarrow> (nat \<Rightarrow> char) \<Rightarrow> rl_strres" where
  "rl_strloop s off cap p w b =
    (if length s \<le> p then StrFail RLL_UNTERM off p b
     else if s ! p = QUOTE then StrDone (p + 1) w b
     else if non_ascii (s ! p) then StrFail RLL_BADCHAR p p b
     else if s ! p = CR \<or> s ! p = NL then StrFail RLL_UNTERM off p b
     else if s ! p = BACKSLASH then
       if length s \<le> p + 1 then StrFail RLL_UNTERM off (p + 1) b
       else (case rl_escape (s ! (p + 1)) of
           None \<Rightarrow> StrFail RLL_BADESC p (p + 1) b
         | Some v \<Rightarrow>
             if cap < w + 1 then StrFail RLL_UNTERM off (p + 2) (ss_put cap w v b)
             else rl_strloop s off cap (p + 2) (w + 1) (ss_put cap w v b))
     else if cap < w + 1 then StrFail RLL_UNTERM off (p + 1) (ss_put cap w (s ! p) b)
     else rl_strloop s off cap (p + 1) (w + 1) (ss_put cap w (s ! p) b))"
  by pat_completeness auto
termination by (relation "measure (\<lambda>(s, off, cap, p, w, b). length s - p)") auto

declare rl_strloop.simps [simp del]

definition rl_op2 :: "char \<Rightarrow> char \<Rightarrow> rl_tkind option" where
  "rl_op2 c d =
    (if c = CHR ''='' \<and> d = CHR ''='' then Some RLT_EQEQ
     else if c = CHR ''!'' \<and> d = CHR ''='' then Some RLT_BANGEQ
     else if c = CHR ''<'' \<and> d = CHR ''='' then Some RLT_LESSEQ
     else if c = CHR ''>'' \<and> d = CHR ''='' then Some RLT_GREATEREQ
     else if c = CHR ''&'' \<and> d = CHR ''&'' then Some RLT_ANDAND
     else if c = CHR ''|'' \<and> d = CHR ''|'' then Some RLT_OROR
     else if c = CHR ''-'' \<and> d = CHR ''>'' then Some RLT_ARROW
     else if c = CHR ''|'' \<and> d = CHR ''>'' then Some RLT_PIPEGT
     else None)"

definition rl_op1 :: "char \<Rightarrow> rl_tkind option" where
  "rl_op1 c =
    (if c = CHR ''+'' then Some RLT_PLUS
     else if c = CHR ''-'' then Some RLT_MINUS
     else if c = CHR ''*'' then Some RLT_STAR
     else if c = CHR ''/'' then Some RLT_SLASH
     else if c = CHR ''%'' then Some RLT_PERCENT
     else if c = CHR ''!'' then Some RLT_BANG
     else if c = CHR ''='' then Some RLT_EQUAL
     else if c = CHR ''<'' then Some RLT_LESS
     else if c = CHR ''>'' then Some RLT_GREATER
     else if c = CHR ''('' then Some RLT_LPAREN
     else if c = CHR '')'' then Some RLT_RPAREN
     else if c = CHR ''{'' then Some RLT_LBRACE
     else if c = CHR ''}'' then Some RLT_RBRACE
     else if c = CHR '';'' then Some RLT_SEMI
     else if c = CHR '','' then Some RLT_COMMA
     else if c = CHR '':'' then Some RLT_COLON
     else None)"

definition rl_op_at :: "string \<Rightarrow> nat \<Rightarrow> (rl_tkind \<times> nat) option" where
  "rl_op_at s p =
    (case (if p + 1 < length s then rl_op2 (s ! p) (s ! (p + 1)) else None) of
       Some k \<Rightarrow> Some (k, 2)
     | None \<Rightarrow> (case rl_op1 (s ! p) of Some k \<Rightarrow> Some (k, 1) | None \<Rightarrow> None))"

type_synonym lex_result = "rl_lex \<times> rl_strscratch \<times> rl_tok \<times> rl_lexrc"

definition rl_token_at :: "rl_lex \<Rightarrow> rl_strscratch \<Rightarrow> nat \<Rightarrow> lex_result" where
  "rl_token_at lx ss off =
    (let s = lx_src lx; c = s ! off in
     if rl_is_alpha c then
       let p = scan_while rl_is_alnum s (off + 1) in
       (lx\<lparr>lx_pos := p\<rparr>, ss,
        rl_emit (rl_keyword (take (p - off) (drop off s))) off (p - off), RLL_OK)
     else if rl_is_digit c then
       let p = scan_while rl_is_digit s (off + 1) in
       if rl_int_overflow (take (p - off) (drop off s))
       then (lx\<lparr>lx_pos := p\<rparr>, ss, rl_emit RLT_EOF off 0, RLL_INTOFLOW)
       else (lx\<lparr>lx_pos := p\<rparr>, ss, rl_emit RLT_INT off (p - off), RLL_OK)
     else if c = QUOTE then
       (case rl_strloop s off (ss_cap ss) (off + 1) (ss_used ss) (ss_base ss) of
          StrFail rc at p b \<Rightarrow> (lx\<lparr>lx_pos := p\<rparr>, ss\<lparr>ss_base := b\<rparr>, rl_emit RLT_EOF at 0, rc)
        | StrDone p w b \<Rightarrow>
            (lx\<lparr>lx_pos := p\<rparr>, ss\<lparr>ss_base := b, ss_used := w\<rparr>,
             (rl_emit RLT_STR off (p - off))
               \<lparr>t_val := ss_used ss, t_vlen := (w - ss_used ss) mod 65536\<rparr>, RLL_OK))
     else (case rl_op_at s off of
         Some (k, n) \<Rightarrow> (lx\<lparr>lx_pos := off + n\<rparr>, ss, rl_emit k off n, RLL_OK)
       | None \<Rightarrow> (lx\<lparr>lx_pos := off\<rparr>, ss, rl_emit RLT_EOF off 0, RLL_BADCHAR)))"

definition rl_lex_next :: "rl_lex \<Rightarrow> rl_strscratch \<Rightarrow> lex_result" where
  "rl_lex_next lx ss =
    (case rl_skip (lx_src lx) (lx_pos lx) of
       SkipEnd p \<Rightarrow> (lx\<lparr>lx_pos := p\<rparr>, ss, rl_emit RLT_EOF (length (lx_src lx)) 0, RLL_OK)
     | SkipBad p \<Rightarrow> (lx\<lparr>lx_pos := p\<rparr>, ss, rl_emit RLT_EOF p 0, RLL_BADCHAR)
     | SkipTok p \<Rightarrow> rl_token_at lx ss p)"

section \<open>Progress\<close>

lemma skip_comment_le: "p \<le> length s \<Longrightarrow> fst (skip_comment s p) \<le> length s"
  by (induction s p rule: skip_comment.induct) (subst skip_comment.simps, auto)

lemma skip_comment_bad:
  "snd (skip_comment s p) \<Longrightarrow> fst (skip_comment s p) < length s"
proof (induction s p rule: skip_comment.induct)
  case (1 s p)
  then show ?case by (auto simp: skip_comment.simps [of s p] split: if_splits)
qed

fun skip_pos :: "rl_skipped \<Rightarrow> nat" where
  "skip_pos (SkipEnd p) = p"
| "skip_pos (SkipBad p) = p"
| "skip_pos (SkipTok p) = p"

lemma rl_skip_mono: "p \<le> skip_pos (rl_skip s p)"
proof (induction s p rule: rl_skip.induct)
  case (1 s p)
  show ?case
    using "1.IH" skip_comment_mono [of "p + 2" s]
    by (subst rl_skip.simps) (auto intro: order_trans)
qed

lemma rl_skip_le: "p \<le> length s \<Longrightarrow> skip_pos (rl_skip s p) \<le> length s"
proof (induction s p rule: rl_skip.induct)
  case (1 s p)
  then show ?case
    using skip_comment_le [of "p + 2" s] by (subst rl_skip.simps) auto
qed

lemma rl_skip_end: "rl_skip s p = SkipEnd q \<Longrightarrow> length s \<le> q"
proof (induction s p rule: rl_skip.induct)
  case (1 s p)
  then show ?case by (auto simp: rl_skip.simps [of s p] split: if_splits)
qed

lemma rl_skip_tok: "rl_skip s p = SkipTok q \<Longrightarrow> q < length s \<and> \<not> non_ascii (s ! q)"
proof (induction s p rule: rl_skip.induct)
  case (1 s p)
  then show ?case by (auto simp: rl_skip.simps [of s p] split: if_splits)
qed

lemma scan_while_mono: "p \<le> scan_while f s p"
  by (induction f s p rule: scan_while.induct) (subst scan_while.simps, auto)

lemma scan_while_le: "p \<le> length s \<Longrightarrow> scan_while f s p \<le> length s"
  by (induction f s p rule: scan_while.induct) (subst scan_while.simps, auto)

lemma scan_while_all: "p \<le> i \<Longrightarrow> i < scan_while f s p \<Longrightarrow> f (s ! i)"
proof (induction f s p rule: scan_while.induct)
  case (1 f s p)
  then show ?case
    by (cases "i = p") (auto simp: scan_while.simps [of f s p] split: if_splits)
qed

lemma rl_strloop_fail:
  "rl_strloop s off cap p w b = StrFail rc at q b' \<Longrightarrow> p \<le> length s \<Longrightarrow>
    rc \<noteq> RLL_OK \<and> p \<le> q \<and> q \<le> length s"
proof (induction "length s - p" arbitrary: p w b rc rule: less_induct)
  case less
  note IH = less.hyps [rotated]
  from less.prems show ?case
    by (subst (asm) rl_strloop.simps) (auto split: if_splits option.splits dest!: IH)
qed

lemma rl_strloop_done:
  "rl_strloop s off cap p w b = StrDone q w' b' \<Longrightarrow> w \<le> cap \<Longrightarrow>
    p < q \<and> q \<le> length s \<and> w \<le> w' \<and> w' \<le> cap \<and> w' + p + 1 \<le> w + q
    \<and> (\<forall>i < w. b' i = b i)"
proof (induction "length s - p" arbitrary: p w b rule: less_induct)
  case less
  note IH = less.hyps [rotated]
  from less.prems show ?case
    by (subst (asm) rl_strloop.simps)
      (auto split: if_splits option.splits simp: ss_put_def dest!: IH)
qed

lemma rl_strloop_pos:
  "rl_strloop s off cap p w b = StrDone q w' b' \<Longrightarrow> p < q \<and> q \<le> length s"
proof (induction "length s - p" arbitrary: p w b rule: less_induct)
  case less
  note IH = less.hyps [rotated]
  from less.prems show ?case
    by (subst (asm) rl_strloop.simps) (auto split: if_splits option.splits dest!: IH)
qed

lemma rl_op_at_len: "rl_op_at s p = Some (k, n) \<Longrightarrow> p < length s \<Longrightarrow>
    0 < n \<and> p + n \<le> length s \<and> k \<noteq> RLT_EOF \<and> k \<noteq> RLT_STR"
  by (auto simp: rl_op_at_def rl_op2_def rl_op1_def split: if_splits option.splits)

lemma rl_keyword_kind: "rl_keyword w \<noteq> RLT_EOF \<and> rl_keyword w \<noteq> RLT_STR"
  by (simp add: rl_keyword_def)

text \<open>What one call of the lexer does to the position and the scratch.\<close>

definition lex_advances :: "rl_lex \<Rightarrow> rl_strscratch \<Rightarrow> lex_result \<Rightarrow> bool" where
  "lex_advances lx ss r =
    (case r of (lx', ss', t, rc) \<Rightarrow>
       lx_src lx' = lx_src lx \<and> lx_pos lx \<le> lx_pos lx' \<and> lx_pos lx' \<le> length (lx_src lx)
     \<and> ss_cap ss' = ss_cap ss \<and> ss_used ss \<le> ss_used ss' \<and> ss_used ss' \<le> ss_cap ss
     \<and> ss_used ss' + lx_pos lx \<le> ss_used ss + lx_pos lx'
     \<and> (t_kind t \<noteq> RLT_STR \<or> rc \<noteq> RLL_OK \<longrightarrow> ss_used ss' = ss_used ss)
     \<and> (rc = RLL_OK \<and> t_kind t = RLT_EOF \<longrightarrow> lx_pos lx' = length (lx_src lx))
     \<and> (rc = RLL_OK \<and> t_kind t \<noteq> RLT_EOF \<longrightarrow> lx_pos lx < lx_pos lx')
     \<and> (rc \<noteq> RLL_OK \<longrightarrow> t_kind t = RLT_EOF))"

lemma rl_token_at_advances:
  assumes "off < length (lx_src lx)" "lx_pos lx \<le> off" "ss_used ss \<le> ss_cap ss"
  shows "lex_advances lx ss (rl_token_at lx ss off)"
proof -
  let ?s = "lx_src lx"
  have scan: "off + 1 \<le> scan_while f ?s (off + 1)" "scan_while f ?s (off + 1) \<le> length ?s" for f
    using scan_while_mono [of "off + 1" f ?s] scan_while_le [of "off + 1" ?s f] assms(1) by auto
  note strd = rl_strloop_done [OF _ assms(3)]
  note strf = rl_strloop_fail [where s = ?s]
  consider (alpha) "rl_is_alpha (?s ! off)"
    | (digit) "\<not> rl_is_alpha (?s ! off)" "rl_is_digit (?s ! off)"
    | (str) "\<not> rl_is_alpha (?s ! off)" "\<not> rl_is_digit (?s ! off)" "?s ! off = QUOTE"
    | (other) "\<not> rl_is_alpha (?s ! off)" "\<not> rl_is_digit (?s ! off)" "?s ! off \<noteq> QUOTE" by blast
  then show ?thesis
  proof cases
    case alpha
    then show ?thesis using scan [of rl_is_alnum] assms rl_keyword_kind
      by (simp add: rl_token_at_def Let_def lex_advances_def rl_emit_def)
  next
    case digit
    then show ?thesis using scan [of rl_is_digit] assms
      by (simp add: rl_token_at_def Let_def lex_advances_def rl_emit_def)
  next
    case str
    then show ?thesis using assms
      by (auto simp: rl_token_at_def Let_def lex_advances_def rl_emit_def
          split: rl_strres.splits dest!: strd strf)
  next
    case other
    then show ?thesis using assms
      by (auto simp: rl_token_at_def Let_def lex_advances_def rl_emit_def
          split: option.splits dest: rl_op_at_len)
  qed
qed

lemma rl_lex_next_advances:
  assumes "lx_pos lx \<le> length (lx_src lx)" "ss_used ss \<le> ss_cap ss"
  shows "lex_advances lx ss (rl_lex_next lx ss)"
proof (cases "rl_skip (lx_src lx) (lx_pos lx)")
  case (SkipEnd p)
  then show ?thesis
    using rl_skip_end [OF SkipEnd] rl_skip_le [OF assms(1)] rl_skip_mono [of "lx_pos lx" "lx_src lx"]
      assms(2)
    by (simp add: rl_lex_next_def lex_advances_def rl_emit_def)
next
  case (SkipBad p)
  then show ?thesis
    using rl_skip_le [OF assms(1)] rl_skip_mono [of "lx_pos lx" "lx_src lx"] assms(2)
    by (simp add: rl_lex_next_def lex_advances_def rl_emit_def)
next
  case (SkipTok p)
  then show ?thesis
    using rl_skip_tok [OF SkipTok] rl_skip_mono [of "lx_pos lx" "lx_src lx"]
      rl_token_at_advances [of p lx ss] assms(2)
    by (simp add: rl_lex_next_def)
qed

text \<open>Whatever the scratch, a token other than end of file ends inside the text, past its start.\<close>

lemma rl_lex_next_token:
  assumes "rl_lex_next lx ss = (lx', ss', t, rc)" "t_kind t \<noteq> RLT_EOF"
  shows "rc = RLL_OK \<and> lx_pos lx < lx_pos lx' \<and> lx_pos lx' \<le> length (lx_src lx)"
proof (cases "rl_skip (lx_src lx) (lx_pos lx)")
  case (SkipTok p)
  let ?s = "lx_src lx"
  have p: "lx_pos lx \<le> p" "p < length ?s"
    using rl_skip_mono [of "lx_pos lx" ?s] rl_skip_tok [OF SkipTok] SkipTok by auto
  have scan: "p + 1 \<le> scan_while f ?s (p + 1)" "scan_while f ?s (p + 1) \<le> length ?s" for f
    using scan_while_mono [of "p + 1" f ?s] scan_while_le [of "p + 1" ?s f] p by auto
  show ?thesis
    using assms SkipTok p scan [of rl_is_alnum] scan [of rl_is_digit]
    by (auto simp: rl_lex_next_def rl_token_at_def Let_def rl_emit_def
        split: if_splits rl_strres.splits option.splits dest!: rl_strloop_pos rl_op_at_len)
qed (use assms in \<open>auto simp: rl_lex_next_def rl_emit_def\<close>)

lemma rl_lex_next_src: "rl_lex_next lx ss = (lx', ss', t, rc) \<Longrightarrow>
    lx_src lx' = lx_src lx \<and> ss_cap ss' = ss_cap ss"
  by (auto simp: rl_lex_next_def rl_token_at_def Let_def
      split: rl_skipped.splits if_splits rl_strres.splits option.splits)

lemma rl_token_at_mono:
  assumes "rl_token_at lx ss off = (lx', ss', t, rc)" "off < length (lx_src lx)"
  shows "off \<le> lx_pos lx'"
  using assms scan_while_mono [of "off + 1" _ "lx_src lx"]
  by (fastforce simp: rl_token_at_def Let_def split: if_splits rl_strres.splits option.splits
      dest!: rl_strloop_pos rl_strloop_fail dest: Suc_leD)

lemma rl_lex_next_mono:
  assumes "rl_lex_next lx ss = (lx', ss', t, rc)"
  shows "lx_pos lx \<le> lx_pos lx'"
proof (cases "rl_skip (lx_src lx) (lx_pos lx)")
  case (SkipTok p)
  then have "lx_pos lx \<le> p" "p < length (lx_src lx)"
    using rl_skip_mono [of "lx_pos lx" "lx_src lx"] rl_skip_tok [OF SkipTok] by auto
  with rl_token_at_mono [of lx ss p] SkipTok assms show ?thesis by (auto simp: rl_lex_next_def)
qed (use assms rl_skip_mono [of "lx_pos lx" "lx_src lx"] in \<open>auto simp: rl_lex_next_def\<close>)

lemma rl_lex_next_le:
  assumes "rl_lex_next lx ss = (lx', ss', t, rc)" "lx_pos lx \<le> length (lx_src lx)"
  shows "lx_pos lx' \<le> length (lx_src lx)"
proof (cases "rl_skip (lx_src lx) (lx_pos lx)")
  case (SkipTok p)
  let ?s = "lx_src lx"
  have p: "p < length ?s" using rl_skip_tok [OF SkipTok] by simp
  have scan: "scan_while f ?s (p + 1) \<le> length ?s" for f
    using scan_while_le [of "p + 1" ?s f] p by simp
  show ?thesis
    using assms SkipTok p scan [of rl_is_alnum] scan [of rl_is_digit]
    by (auto simp: rl_lex_next_def rl_token_at_def Let_def
        split: if_splits rl_strres.splits option.splits
        dest!: rl_strloop_pos rl_strloop_fail rl_op_at_len)
qed (use assms rl_skip_le [OF assms(2)] in \<open>auto simp: rl_lex_next_def\<close>)

section \<open>Decimal values\<close>

text \<open>The number a string of decimal digits denotes.\<close>

fun dec_value :: "string \<Rightarrow> nat" where
  "dec_value [] = 0"
| "dec_value (c # s) = (byte_of c - 48) * 10 ^ length s + dec_value s"

lemma dec_value_lt: "list_all rl_is_digit s \<Longrightarrow> dec_value s < 10 ^ length s"
proof (induction s)
  case (Cons c s)
  then have "byte_of c - 48 \<le> 9" "dec_value s < 10 ^ length s" by (auto simp: rl_is_digit_def)
  then have "(byte_of c - 48) * 10 ^ length s + dec_value s < 9 * 10 ^ length s + 10 ^ length s"
    by (intro add_le_less_mono mult_le_mono1)
  then show ?case by simp
qed simp

lemma dec_value_drop_zeros:
  "dec_value (dropWhile (\<lambda>c. c = CHR ''0'') s) = dec_value s"
  by (induction s) simp_all

lemma dec_value_ge:
  assumes "list_all rl_is_digit (c # s)" "c \<noteq> CHR ''0''"
  shows "10 ^ length s \<le> dec_value (c # s)"
proof -
  have "byte_of c \<noteq> byte_of (CHR ''0'')" using assms(2) by (metis char_of_char)
  then have "1 \<le> byte_of c - 48" using assms(1) by (auto simp: rl_is_digit_def)
  then have "1 * 10 ^ length s \<le> (byte_of c - 48) * 10 ^ length s" by (rule mult_le_mono1)
  then show ?thesis by (simp only: mult_1 dec_value.simps trans_le_add1)
qed

lemma digits_above_value:
  "length s = length t \<Longrightarrow> list_all rl_is_digit s \<Longrightarrow> list_all rl_is_digit t \<Longrightarrow>
    digits_above s t = (dec_value t < dec_value s)"
proof (induction s t rule: list_induct2)
  case (Cons a s b t)
  then have lt: "dec_value s < 10 ^ length s" "dec_value t < 10 ^ length s"
    using dec_value_lt [of s] dec_value_lt [of t] by simp_all
  have d: "48 \<le> byte_of a" "48 \<le> byte_of b" using Cons.prems by (simp_all add: rl_is_digit_def)
  have gap: "x * 10 ^ length s + u < y * 10 ^ length s + v"
    if "x < y" "u < 10 ^ length s" for x y u v :: nat
  proof -
    have "x * 10 ^ length s + u < Suc x * 10 ^ length s" using that(2) by simp
    also have "\<dots> \<le> y * 10 ^ length s" using that(1) by (intro mult_le_mono1) simp
    finally show ?thesis by simp
  qed
  consider "a = b" | "byte_of b < byte_of a" "a \<noteq> b" | "byte_of a < byte_of b" "a \<noteq> b"
    by (metis char_of_char linorder_neqE_nat)
  then show ?case
  proof cases
    case 1
    then show ?thesis using Cons by simp
  next
    case 2
    then show ?thesis
      using gap [of "byte_of b - 48" "byte_of a - 48" "dec_value t" "dec_value s"] lt d Cons(1)
      by simp
  next
    case 3
    then have "byte_of a - 48 < byte_of b - 48" using d by simp
    from gap [OF this lt(1), of "dec_value t"] 3 show ?thesis using Cons(1) by simp
  qed
qed simp

lemma i64_max_txt: "dec_value RL_I64_MAX_TXT = 2 ^ 63 - 1" "list_all rl_is_digit RL_I64_MAX_TXT"
  "length RL_I64_MAX_TXT = 19"
  by (simp_all add: RL_I64_MAX_TXT_def rl_is_digit_def)

lemma rl_int_overflow_value:
  assumes "list_all rl_is_digit s"
  shows "rl_int_overflow s = (2 ^ 63 - 1 < dec_value s)"
proof -
  define s' where "s' = dropWhile (\<lambda>c. c = CHR ''0'') s"
  have dig: "list_all rl_is_digit s'"
    using assms unfolding s'_def by (auto simp: list_all_iff dest: set_dropWhileD)
  have val: "dec_value s = dec_value s'" by (simp add: s'_def dec_value_drop_zeros)
  show ?thesis
  proof (cases s')
    case Nil
    then show ?thesis by (simp add: rl_int_overflow_def val s'_def [symmetric])
  next
    case (Cons c u)
    then have "c \<noteq> CHR ''0''" using hd_dropWhile [of "\<lambda>c. c = CHR ''0''" s] s'_def by auto
    then have ge: "10 ^ length u \<le> dec_value s'" using dec_value_ge dig Cons by simp
    have lt: "dec_value s' < 10 ^ length s'" by (rule dec_value_lt [OF dig])
    consider "19 < length s'" | "length s' < 19" | "length s' = 19" by linarith
    then show ?thesis
    proof cases
      case 1
      then have "(10::nat) ^ 19 \<le> 10 ^ length u" using Cons by (intro power_increasing) auto
      with 1 ge Cons show ?thesis by (simp add: rl_int_overflow_def val s'_def [symmetric])
    next
      case 2
      then have "(10::nat) ^ length s' \<le> 10 ^ 18" by (intro power_increasing) auto
      with 2 lt Cons show ?thesis by (simp add: rl_int_overflow_def val s'_def [symmetric])
    next
      case 3
      then show ?thesis
        using digits_above_value [of s' RL_I64_MAX_TXT] dig Cons i64_max_txt
        by (simp add: rl_int_overflow_def val s'_def [symmetric])
    qed
  qed
qed

section \<open>Quoted strings\<close>

text \<open>How a byte string is written as a RynorLang literal.\<close>

definition rl_quote_char :: "char \<Rightarrow> string" where
  "rl_quote_char c =
    (if c = BACKSLASH then [BACKSLASH, BACKSLASH]
     else if c = QUOTE then [BACKSLASH, QUOTE]
     else if c = NL then [BACKSLASH, CHR ''n'']
     else if c = TAB then [BACKSLASH, CHR ''t'']
     else [c])"

definition rl_quote :: "string \<Rightarrow> string" where
  "rl_quote v = QUOTE # concat (map rl_quote_char v) @ [QUOTE]"

definition quotable :: "string \<Rightarrow> bool" where
  "quotable v = list_all (\<lambda>c. \<not> non_ascii c \<and> c \<noteq> CR) v"

lemma rl_strloop_char:
  assumes "\<not> non_ascii c" "c \<noteq> CR" "w < cap"
  shows "rl_strloop (u @ rl_quote_char c @ r) off cap (length u) w b =
    rl_strloop (u @ rl_quote_char c @ r) off cap (length (u @ rl_quote_char c)) (w + 1) (b(w := c))"
proof -
  have [simp]: "(u @ x # y # r) ! Suc (length u) = y" for x y
    using nth_append_length_plus [of u "x # y # r" 1] by simp
  have "\<not> non_ascii BACKSLASH" by (simp add: non_ascii_def)
  then show ?thesis using assms
    by (subst rl_strloop.simps) (simp add: rl_quote_char_def rl_escape_def ss_put_def)
qed

lemma rl_strloop_quoted:
  "quotable v \<Longrightarrow> w + length v \<le> cap \<Longrightarrow>
    rl_strloop (u @ concat (map rl_quote_char v) @ QUOTE # r) off cap (length u) w b =
    StrDone (length u + length (concat (map rl_quote_char v)) + 1) (w + length v)
      (\<lambda>i. if w \<le> i \<and> i < w + length v then v ! (i - w) else b i)"
proof (induction v arbitrary: u w b)
  case Nil
  have "(\<lambda>i. if w \<le> i \<and> i < w then [] ! (i - w) else b i) = b" by (rule ext) auto
  then show ?case by (subst rl_strloop.simps) simp
next
  case (Cons c v)
  have upd: "(\<lambda>i. if w + 1 \<le> i \<and> i < w + 1 + length v then v ! (i - (w + 1)) else (b(w := c)) i)
      = (\<lambda>i. if w \<le> i \<and> i < w + length (c # v) then (c # v) ! (i - w) else b i)"
    by (rule ext) (auto simp: nth_Cons')
  from Cons.prems Cons.IH [of "w + 1" "u @ rl_quote_char c" "b(w := c)", unfolded upd] show ?case
    using rl_strloop_char [of c w cap u "concat (map rl_quote_char v) @ QUOTE # r" off b]
    by (simp add: quotable_def add.assoc fun_upd_def)
qed

lemma rl_lex_next_quoted:
  assumes "quotable v" "ss_used ss + length v \<le> ss_cap ss"
  shows "rl_lex_next \<lparr>lx_src = u @ rl_quote v @ r, lx_pos = length u\<rparr> ss =
    (\<lparr>lx_src = u @ rl_quote v @ r, lx_pos = length u + length (rl_quote v)\<rparr>,
     ss\<lparr>ss_base := (\<lambda>i. if ss_used ss \<le> i \<and> i < ss_used ss + length v
          then v ! (i - ss_used ss) else ss_base ss i),
        ss_used := ss_used ss + length v\<rparr>,
     \<lparr>t_kind = RLT_STR, t_off = length u mod 65536, t_len = length (rl_quote v) mod 65536,
      t_vlen = length v mod 65536, t_val = ss_used ss\<rparr>, RLL_OK)"
proof -
  have skip: "rl_skip (u @ QUOTE # x) (length u) = SkipTok (length u)" for x
    by (subst rl_skip.simps) (simp add: non_ascii_def)
  have "\<not> rl_is_alpha QUOTE" "\<not> rl_is_digit QUOTE"
    by (simp_all add: rl_is_alpha_def rl_is_digit_def)
  then show ?thesis
    using rl_strloop_quoted [OF assms, of "u @ [QUOTE]" r "length u" "ss_base ss"]
    by (simp add: rl_lex_next_def skip rl_token_at_def rl_quote_def rl_emit_def Let_def)
qed

section \<open>Properties\<close>

text \<open>
  Progress. On a position inside the text and a scratch within its capacity, every
  call of \<^verbatim>\<open>rl_lex_next\<close> keeps the text, moves the position forward and never past the
  end, moves it strictly when it returns a token other than end of file, and reports end
  of file with success only at the very end. The decoded bytes stay within the scratch
  capacity, at most one per consumed source byte, and only a string token adds any.
\<close>
theorem rl_lex_next_progress:
  assumes "lx_pos lx \<le> length (lx_src lx)" and "ss_used ss \<le> ss_cap ss"
    and "rl_lex_next lx ss = (lx', ss', t, rc)"
  shows "lx_src lx' = lx_src lx \<and> lx_pos lx \<le> lx_pos lx' \<and> lx_pos lx' \<le> length (lx_src lx)
    \<and> ss_cap ss' = ss_cap ss \<and> ss_used ss \<le> ss_used ss' \<and> ss_used ss' \<le> ss_cap ss
    \<and> ss_used ss' - ss_used ss \<le> lx_pos lx' - lx_pos lx
    \<and> (t_kind t \<noteq> RLT_STR \<longrightarrow> ss_used ss' = ss_used ss)
    \<and> (rc = RLL_OK \<and> t_kind t = RLT_EOF \<longrightarrow> lx_pos lx' = length (lx_src lx))
    \<and> (rc = RLL_OK \<and> t_kind t \<noteq> RLT_EOF \<longrightarrow> lx_pos lx < lx_pos lx')
    \<and> (rc \<noteq> RLL_OK \<longrightarrow> t_kind t = RLT_EOF)"
  using rl_lex_next_advances [OF assms(1,2)] assms(3) by (auto simp: lex_advances_def)

theorem rl_lex_next_progress_witness:
  "\<exists>lx' ss' t rc. rl_lex_next (rl_lex_init '' a'') \<lparr>ss_base = \<lambda>_. NL, ss_cap = 4, ss_used = 0\<rparr>
      = (lx', ss', t, rc) \<and> rc = RLL_OK \<and> t_kind t = RLT_IDENT \<and> 0 < lx_pos lx'"
proof -
  let ?ss = "\<lparr>ss_base = \<lambda>_. NL, ss_cap = 4, ss_used = 0\<rparr>"
  obtain lx' ss' t rc where r: "rl_lex_next (rl_lex_init '' a'') ?ss = (lx', ss', t, rc)"
    by (metis prod_cases4)
  then have "rc = RLL_OK \<and> t_kind t = RLT_IDENT"
    by (auto simp: rl_lex_next_def rl_lex_init_def rl_skip.simps [of "'' a''" 0]
        rl_skip.simps [of "'' a''" 1] rl_skip.simps [of "'' a''" "Suc 0"] non_ascii_def
        rl_token_at_def rl_is_alpha_def rl_keyword_def rl_emit_def scan_while.simps)
  with rl_lex_next_progress [OF _ _ r] r show ?thesis by (simp add: rl_lex_init_def)
qed

text \<open>
  (C24) The overflow test of decimal literals, which compares text and does no arithmetic,
  is exact: a string of digits of any length is refused just when its value is larger
  than \<open>2 ^ 63 - 1\<close>, leading zeros notwithstanding.
\<close>
theorem rl_int_overflow_exact:
  assumes "list_all rl_is_digit s"
  shows "rl_int_overflow s \<longleftrightarrow> 2 ^ 63 - 1 < dec_value s"
  by (rule rl_int_overflow_value [OF assms])

theorem rl_int_overflow_exact_witness:
  "rl_int_overflow ''009223372036854775808'' \<and> \<not> rl_int_overflow ''09223372036854775807''"
proof -
  have "list_all rl_is_digit ''009223372036854775808''" "list_all rl_is_digit ''09223372036854775807''"
    by (simp_all add: rl_is_digit_def)
  note this [THEN rl_int_overflow_exact]
  then show ?thesis by simp
qed

text \<open>
  (C23) Literals round trip. Wherever it stands in a text, the literal written for a byte
  string of ASCII bytes other than carriage return is read as one string token that spans
  exactly the literal, and the decoded bytes it points to in the scratch are that string,
  provided it fits the scratch.
\<close>
theorem rl_string_roundtrip:
  assumes "quotable v" and "ss_used ss + length v \<le> ss_cap ss" and "length v < 65536"
    and "rl_lex_next \<lparr>lx_src = u @ rl_quote v @ r, lx_pos = length u\<rparr> ss = (lx', ss', t, rc)"
  shows "rc = RLL_OK \<and> t_kind t = RLT_STR \<and> lx_pos lx' = length (u @ rl_quote v)
    \<and> ss_used ss' = t_val t + t_vlen t \<and> t_val t = ss_used ss
    \<and> map (ss_base ss') [t_val t ..< t_val t + t_vlen t] = v"
proof -
  have "map (\<lambda>i. if n \<le> i \<and> i < n + length v then v ! (i - n) else b i) [n ..< n + length v] = v"
    for n and b :: "nat \<Rightarrow> char"
    by (rule nth_equalityI) auto
  with rl_lex_next_quoted [OF assms(1,2), of u r] assms(3,4) show ?thesis by auto
qed

theorem rl_string_roundtrip_witness:
  "\<exists>lx' ss' t rc. rl_lex_next \<lparr>lx_src = ''x='' @ rl_quote [QUOTE, CHR ''a'', NL] @ '';'',
        lx_pos = length ''x=''\<rparr>
      \<lparr>ss_base = \<lambda>_. NL, ss_cap = 4, ss_used = 1\<rparr> = (lx', ss', t, rc)
    \<and> rc = RLL_OK \<and> map (ss_base ss') [t_val t ..< t_val t + t_vlen t] = [QUOTE, CHR ''a'', NL]"
proof -
  let ?ss = "\<lparr>ss_base = \<lambda>_. NL, ss_cap = 4, ss_used = 1\<rparr>"
  let ?lx = "\<lparr>lx_src = ''x='' @ rl_quote [QUOTE, CHR ''a'', NL] @ '';'', lx_pos = length ''x=''\<rparr>"
  obtain lx' ss' t rc where r: "rl_lex_next ?lx ?ss = (lx', ss', t, rc)" by (metis prod_cases4)
  have q: "quotable [QUOTE, CHR ''a'', NL]" by (simp add: quotable_def non_ascii_def)
  have "ss_used ?ss + length [QUOTE, CHR ''a'', NL] \<le> ss_cap ?ss"
    and "length [QUOTE, CHR ''a'', NL] < 65536" by simp_all
  from rl_string_roundtrip [OF q this r] r show ?thesis
    by (elim conjE) (intro exI conjI; assumption)
qed

end
