(* ===== verification/Rl_Node.thy ===== *)
theory Rl_Node
  imports Rl_Lex
begin

text \<open>
  The data the RynorLang parser, analyzer and evaluator share:
  \<^verbatim>\<open>src/user/shell/rl_parse.h\<close> (nodes) and \<^verbatim>\<open>rl_sem.h\<close> (values, symbols), and
  \<^verbatim>\<open>rl_render\<close> of \<^verbatim>\<open>rl_sem.c\<close>.

  The tagged struct \<^verbatim>\<open>rl_val\<close> is a datatype with one constructor per tag. A string value
  points into one of two byte arrays, the decoded bytes of the submission or the session
  arena, so its address is the array's name and an offset. Node indices are natural
  numbers with \<^verbatim>\<open>0xFFFF\<close> for none; the 16- and 32-bit fields of a node are naturals and
  the source's casts are written out where they are applied.
\<close>

datatype rl_nkind =
    RLN_INT | RLN_BOOL | RLN_STR | RLN_VAR | RLN_UNOP | RLN_BINOP | RLN_CALL | RLN_CMD
  | RLN_PIPE | RLN_LET | RLN_WORD | RLN_LEN

datatype rl_vtype = RLV_UNKNOWN | RLV_INT | RLV_BOOL | RLV_STR | RLV_UNIT

text \<open>\<open>RLOP_NONE\<close> is the byte \<open>0\<close> a fresh node carries.\<close>

datatype rl_op =
    RLOP_NONE | RLOP_NEG | RLOP_NOT | RLOP_ADD | RLOP_SUB | RLOP_MUL | RLOP_DIV | RLOP_MOD
  | RLOP_EQ | RLOP_NE | RLOP_LT | RLOP_GT | RLOP_LE | RLOP_GE | RLOP_AND | RLOP_OR

definition RL_NONODE :: nat where
  "RL_NONODE = 0xFFFF"

definition RL_POOL_MAX :: nat where
  "RL_POOL_MAX = 256"

definition RL_DEPTH_MAX :: nat where
  "RL_DEPTH_MAX = 64"

record rl_node =
  n_kind :: rl_nkind
  n_vtype :: rl_vtype
  n_op :: rl_op
  n_aux :: nat
  n_e1 :: nat
  n_e2 :: nat
  n_k1 :: nat
  n_k2 :: nat

type_synonym rl_pool = "nat \<Rightarrow> rl_node"

datatype rl_ptr = PScratch nat | PSession nat

datatype rl_val = VInt u64 | VBool u64 | VStr rl_ptr nat | VUnit

fun v_type :: "rl_val \<Rightarrow> rl_vtype" where
  "v_type (VInt _) = RLV_INT"
| "v_type (VBool _) = RLV_BOOL"
| "v_type (VStr _ _) = RLV_STR"
| "v_type VUnit = RLV_UNIT"

record rl_sym =
  sy_name_off :: nat
  sy_name_len :: nat
  sy_type :: rl_vtype
  sy_flags :: nat
  sy_str_len :: nat
  sy_pay :: u64

section \<open>Rendering a value\<close>

text \<open>
  The bytes written to the buffer of size \<open>cap\<close>; the C function returns their number, and
  \<open>0\<close> when it refuses. \<open>load\<close> reads the bytes of a string value. The digit loop runs while
  the temporary array of 21 bytes has room; the list holds the digits in the order the
  second loop copies them out.
\<close>

fun render_digits :: "nat \<Rightarrow> u64 \<Rightarrow> string \<Rightarrow> u64 \<times> string" where
  "render_digits 0 mag tmp = (mag, tmp)"
| "render_digits (Suc room) mag tmp =
    (if mag = 0 then (mag, tmp)
     else render_digits room (mag div 10) (char_of (48 + unat (mag mod 10)) # tmp))"

definition rl_render :: "(rl_ptr \<Rightarrow> nat \<Rightarrow> string) \<Rightarrow> rl_val \<Rightarrow> nat \<Rightarrow> string" where
  "rl_render load v cap =
    (if cap = 0 then []
     else case v of
       VBool a \<Rightarrow>
         let s = (if a \<noteq> 0 then ''true'' else ''false'') in if cap < length s then [] else s
     | VStr p n \<Rightarrow> if cap < n then [] else load p n
     | VUnit \<Rightarrow> []
     | VInt a \<Rightarrow>
         let neg = (a AND 0x8000000000000000 \<noteq> 0); mag = (if neg then 0 - a else a) in
         if mag = 0 then ''0''
         else
           let (rest, tmp) = render_digits 21 mag [] in
           if rest \<noteq> 0 then []
           else if neg then if cap < length tmp + 1 then [] else CHR ''-'' # tmp
           else if cap < length tmp then [] else tmp)"

text \<open>
  The digits written are those of the number, and twenty-one places are enough for every
  64-bit magnitude.
\<close>

lemma unat_mod10: "unat ((m :: u64) mod 10) = unat m mod 10" "unat (m div 10) = unat m div 10"
  by (simp_all add: unat_mod unat_div)

lemma render_digits_spec:
  "unat mag < 10 ^ room \<Longrightarrow>
    \<exists>ds. render_digits room mag tmp = (0, ds @ tmp) \<and> list_all rl_is_digit ds
      \<and> dec_value ds = unat mag \<and> (mag \<noteq> 0 \<longrightarrow> ds \<noteq> []) \<and> length ds \<le> room"
proof (induction room arbitrary: mag tmp)
  case 0
  then have "mag = 0" by (simp add: unat_eq_zero)
  then show ?case by simp
next
  case (Suc room)
  show ?case
  proof (cases "mag = 0")
    case False
    let ?d = "char_of (48 + unat (mag mod 10)) :: char"
    have "unat (mag div 10) < 10 ^ room" using Suc.prems by (simp add: unat_mod10 less_mult_imp_div_less mult.commute)
    from Suc.IH [OF this, of "?d # tmp"] obtain ds where
      ds: "render_digits room (mag div 10) (?d # tmp) = (0, ds @ ?d # tmp)" "list_all rl_is_digit ds"
        "dec_value ds = unat (mag div 10)" "length ds \<le> room" by auto
    have r: "unat (mag mod 10) < 10" by (simp add: unat_mod10)
    then have bd: "byte_of ?d = 48 + unat (mag mod 10)" by (simp add: of_char_of)
    have app: "dec_value (xs @ [c]) = dec_value xs * 10 + (byte_of c - 48)" for xs c
      by (induction xs) (simp_all add: algebra_simps)
    have "dec_value (ds @ [?d]) = unat mag"
      by (simp add: app bd ds(3) unat_mod10)
    moreover have "list_all rl_is_digit (ds @ [?d])"
      using ds(2) bd r by (simp add: rl_is_digit_def)
    ultimately show ?thesis using False ds(1,4)
      by - (rule exI [of _ "ds @ [?d]"], simp)
  qed simp
qed

lemma rl_render_int:
  obtains ds where "list_all rl_is_digit ds" "ds \<noteq> []" "length ds \<le> 20"
    "dec_value ds = nat \<bar>sint a\<bar>"
    "rl_render load (VInt a) 24 = (if sint a < 0 then CHR ''-'' # ds else ds)"
proof -
  let ?neg = "a AND 0x8000000000000000 \<noteq> 0"
  define mag where "mag = (if ?neg then 0 - a else a)"
  have abs: "unat mag = nat \<bar>sint a\<bar>" unfolding mag_def by (rule unat_abs_u64)
  have neg: "?neg = (sint a < 0)" by (rule signbit_sint)
  show thesis
  proof (cases "mag = 0")
    case True
    then have "sint a = 0" using abs by simp
    then show thesis using that [of "''0''"] True neg
      by (simp add: rl_render_def mag_def rl_is_digit_def Let_def)
  next
    case False
    have "unat mag < 10 ^ 20" using unat_lt_u64 [of mag] by (simp del: unat_lt_u64)
    from render_digits_spec [OF this, of "[]"] obtain ds where
      ds: "render_digits 20 mag [] = (0, ds)" "list_all rl_is_digit ds" "dec_value ds = unat mag"
        "ds \<noteq> []" "length ds \<le> 20" using False by auto
    have more: "render_digits (Suc room) m t = (0, u) " if "render_digits room m t = (0, u)" for room m t u
      using that by (induction room m t rule: render_digits.induct) (auto split: if_splits)
    have "render_digits 21 mag [] = (0, ds)" using more [OF ds(1)] by simp
    moreover have "(if sint a < 0 then 0 - a else a) = mag" using neg by (simp only: mag_def)
    ultimately have "rl_render load (VInt a) 24 = (if sint a < 0 then CHR ''-'' # ds else ds)"
      using False ds(5) by (simp only: rl_render_def rl_val.case neg Let_def) simp
    then show thesis using that [OF ds(2,4,5)] ds(3) abs by simp
  qed
qed

section \<open>Property\<close>

text \<open>
  (C26) Rendering an integer is exact for every 64-bit value, the most negative one
  included: in the 24-byte buffer the callers use it never refuses, and what it writes is a
  minus sign just for negative values, followed by at most twenty decimal digits that
  denote the magnitude of the signed value.
\<close>
theorem rl_render_int_exact:
  "\<exists>ds. list_all rl_is_digit ds \<and> 1 \<le> length ds \<and> length ds \<le> 20
    \<and> int (dec_value ds) = \<bar>sint a\<bar>
    \<and> rl_render load (VInt a) 24 = (if sint a < 0 then CHR ''-'' # ds else ds)"
proof -
  obtain ds where "list_all rl_is_digit ds" "ds \<noteq> []" "length ds \<le> 20"
    "dec_value ds = nat \<bar>sint a\<bar>"
    "rl_render load (VInt a) 24 = (if sint a < 0 then CHR ''-'' # ds else ds)"
    by (rule rl_render_int [of a load])
  then show ?thesis
    by - (rule exI [of _ ds], simp add: Suc_le_eq)
qed

end
