(* ===== verification/Rl_Parse.thy ===== *)
theory Rl_Parse
  imports Rl_Node
begin

text \<open>
  The RynorLang parser, \<^verbatim>\<open>src/user/shell/rl_parse.c\<close>: one-token lookahead over the
  lexer, a shunting-yard expression parser with explicit operator and value stacks,
  command disambiguation with save and restore, two-stage pipelines and \<^verbatim>\<open>let\<close>.

  The parser state is the record \<open>rlp\<close>; the pool is the array of nodes with its capacity
  and fill, the argument vector an array likewise. \<^verbatim>\<open>p_cur\<close> returns a pointer to the
  cached token of the state, so a token the source reads through that pointer after the
  next \<^verbatim>\<open>p_cur\<close> is the new token. The words that \<^verbatim>\<open>rly_op\<close> packs for the operator stack are a
  datatype: a constructor per kind, the precedence and the auxiliary field as arguments.
  Stacks are lists with the top first.
\<close>

datatype rlp_rc = RLP_OK | RLP_SYNTAX | RLP_TOODEEP | RLP_NOMEM

record rlp =
  r_lx :: rl_lex
  r_ss :: rl_strscratch
  r_cur :: rl_tok
  r_lrc :: rl_lexrc
  r_have :: bool
  r_nodes :: rl_pool
  r_cap :: nat
  r_used :: nat
  r_args :: "nat \<Rightarrow> nat"
  r_acap :: nat
  r_aused :: nat
  r_ocap :: nat
  r_vcap :: nat
  r_depth :: nat
  r_err :: rlp_rc

abbreviation r_src :: "rlp \<Rightarrow> string" where
  "r_src p \<equiv> lx_src (r_lx p)"

abbreviation r_kind :: "rlp \<Rightarrow> rl_tkind" where
  "r_kind p \<equiv> t_kind (r_cur p)"

definition p_init ::
  "string \<Rightarrow> rl_pool \<Rightarrow> nat \<Rightarrow> rl_strscratch \<Rightarrow> (nat \<Rightarrow> nat) \<Rightarrow> nat \<Rightarrow> nat \<Rightarrow> nat \<Rightarrow> rlp" where
  "p_init src nodes cap ss args acap ocap vcap =
    \<lparr>r_lx = rl_lex_init src, r_ss = ss, r_cur = rl_emit RLT_EOF 0 0, r_lrc = RLL_OK, r_have = False,
     r_nodes = nodes, r_cap = cap, r_used = 0, r_args = args, r_acap = acap, r_aused = 0,
     r_ocap = ocap, r_vcap = vcap, r_depth = 0, r_err = RLP_OK\<rparr>"

section \<open>Tokens\<close>

definition p_cur :: "rlp \<Rightarrow> rlp" where
  "p_cur p =
    (if r_have p then p
     else case rl_lex_next (r_lx p) (r_ss p) of (lx, ss, t, rc) \<Rightarrow>
       p\<lparr>r_lx := lx, r_ss := ss, r_cur := t, r_lrc := rc, r_have := True,
         r_err := (if rc \<noteq> RLL_OK then RLP_SYNTAX else r_err p)\<rparr>)"

definition p_next :: "rlp \<Rightarrow> rlp" where
  "p_next p = p\<lparr>r_have := False\<rparr>"

definition p_fail :: "rlp_rc \<Rightarrow> rlp \<Rightarrow> rlp" where
  "p_fail e p = p\<lparr>r_err := e\<rparr>"

definition fresh_node :: "rl_nkind \<Rightarrow> rl_node" where
  "fresh_node kind = \<lparr>n_kind = kind, n_vtype = RLV_UNKNOWN, n_op = RLOP_NONE, n_aux = 0,
     n_e1 = 0, n_e2 = 0, n_k1 = RL_NONODE, n_k2 = RL_NONODE\<rparr>"

definition p_mknode :: "rlp \<Rightarrow> rl_nkind \<Rightarrow> rlp \<times> nat" where
  "p_mknode p kind =
    (if r_err p \<noteq> RLP_OK then (p, RL_NONODE)
     else if r_cap p \<le> r_used p then (p_fail RLP_NOMEM p, RL_NONODE)
     else (p\<lparr>r_nodes := (r_nodes p)(r_used p := fresh_node kind), r_used := r_used p + 1\<rparr>,
           r_used p mod 65536))"

definition p_set :: "nat \<Rightarrow> (rl_node \<Rightarrow> rl_node) \<Rightarrow> rlp \<Rightarrow> rlp" where
  "p_set i f p = p\<lparr>r_nodes := (r_nodes p)(i := f (r_nodes p i))\<rparr>"

definition p_enter :: "rlp \<Rightarrow> rlp \<times> bool" where
  "p_enter p =
    (if r_err p \<noteq> RLP_OK then (p, False)
     else let p' = p\<lparr>r_depth := r_depth p + 1\<rparr> in
       if RL_DEPTH_MAX < r_depth p' then (p_fail RLP_TOODEEP p', False) else (p', True))"

definition p_leave :: "rlp \<Rightarrow> rlp" where
  "p_leave p = p\<lparr>r_depth := r_depth p - 1\<rparr>"

definition p_at :: "rlp \<Rightarrow> rl_tkind \<Rightarrow> rlp \<times> bool" where
  "p_at p kind =
    (if r_err p \<noteq> RLP_OK then (p, False) else (p_cur p, r_kind (p_cur p) = kind))"

text \<open>
  The lookahead restores every field; only the scratch bytes past the fill that a peeked
  string was decoded into stay overwritten.
\<close>

definition p_peek :: "rlp \<Rightarrow> rlp \<times> rl_tok option" where
  "p_peek p =
    (case (if r_have p then (r_lx p, r_ss p, r_cur p, r_lrc p)
           else rl_lex_next (r_lx p) (r_ss p)) of
       (lx1, ss1, t1, rc1) \<Rightarrow>
         let back = (\<lambda>ss. p\<lparr>r_ss := (r_ss p)\<lparr>ss_base := ss_base ss\<rparr>\<rparr>) in
         if rc1 \<noteq> RLL_OK then (back ss1, None)
         else case rl_lex_next lx1 ss1 of
           (lx2, ss2, t2, rc2) \<Rightarrow> (back ss2, if rc2 = RLL_OK then Some t2 else None))"

record rl_psave =
  s_pos :: nat
  s_ss_used :: nat
  s_pool_used :: nat
  s_arg_used :: nat
  s_depth :: nat
  s_have :: bool
  s_cur :: rl_tok
  s_lrc :: rl_lexrc

definition p_save :: "rlp \<Rightarrow> rl_psave" where
  "p_save p = \<lparr>s_pos = rl_lex_mark (r_lx p), s_ss_used = ss_used (r_ss p), s_pool_used = r_used p,
     s_arg_used = r_aused p, s_depth = r_depth p, s_have = r_have p, s_cur = r_cur p, s_lrc = r_lrc p\<rparr>"

definition p_restore :: "rlp \<Rightarrow> rl_psave \<Rightarrow> rlp" where
  "p_restore p s =
    p\<lparr>r_lx := rl_lex_rewind (r_lx p) (s_pos s), r_ss := (r_ss p)\<lparr>ss_used := s_ss_used s\<rparr>,
      r_used := s_pool_used s, r_aused := s_arg_used s, r_depth := s_depth s, r_have := s_have s,
      r_cur := s_cur s, r_lrc := s_lrc s,
      r_err := (if r_err p = RLP_SYNTAX \<or> r_err p = RLP_TOODEEP then RLP_OK else r_err p)\<rparr>"

definition p_is_binop :: "rl_tkind \<Rightarrow> (nat \<times> rl_op) option" where
  "p_is_binop kind =
    (case kind of
       RLT_OROR \<Rightarrow> Some (1, RLOP_OR)
     | RLT_ANDAND \<Rightarrow> Some (2, RLOP_AND)
     | RLT_EQEQ \<Rightarrow> Some (3, RLOP_EQ)
     | RLT_BANGEQ \<Rightarrow> Some (3, RLOP_NE)
     | RLT_LESS \<Rightarrow> Some (4, RLOP_LT)
     | RLT_GREATER \<Rightarrow> Some (4, RLOP_GT)
     | RLT_LESSEQ \<Rightarrow> Some (4, RLOP_LE)
     | RLT_GREATEREQ \<Rightarrow> Some (4, RLOP_GE)
     | RLT_PLUS \<Rightarrow> Some (5, RLOP_ADD)
     | RLT_MINUS \<Rightarrow> Some (5, RLOP_SUB)
     | RLT_STAR \<Rightarrow> Some (6, RLOP_MUL)
     | RLT_SLASH \<Rightarrow> Some (6, RLOP_DIV)
     | RLT_PERCENT \<Rightarrow> Some (6, RLOP_MOD)
     | _ \<Rightarrow> None)"

definition p_tou64 :: "string \<Rightarrow> nat \<Rightarrow> nat \<Rightarrow> u64" where
  "p_tou64 src off len =
    foldl (\<lambda>v c. v * 10 + of_int (int (byte_of c) - 48)) 0 (take len (drop off src))"

definition p_is_len_call :: "string \<Rightarrow> nat \<Rightarrow> nat \<Rightarrow> bool" where
  "p_is_len_call src off len = (len = 3 \<and> take 3 (drop off src) = ''len'')"

definition p_atom :: "rlp \<Rightarrow> rlp \<times> nat" where
  "p_atom p0 =
    (let p = p_cur p0; t = r_cur p in
     if r_err p \<noteq> RLP_OK then (p, RL_NONODE)
     else if t_kind t = RLT_IDENT then
       let (p1, i) = p_mknode p RLN_VAR in
       if r_err p1 \<noteq> RLP_OK then (p1, RL_NONODE)
       else (p_next (p_set i (\<lambda>nd. nd\<lparr>n_e1 := t_off t, n_e2 := t_len t\<rparr>) p1), i)
     else if t_kind t = RLT_INT then
       let v = p_tou64 (r_src p) (t_off t) (t_len t); (p1, i) = p_mknode p RLN_INT in
       if r_err p1 \<noteq> RLP_OK then (p1, RL_NONODE)
       else (p_next (p_set i (\<lambda>nd. nd\<lparr>n_e1 := unat v mod 2 ^ 32, n_e2 := unat v div 2 ^ 32\<rparr>) p1), i)
     else if t_kind t = RLT_STR then
       let (p1, i) = p_mknode p RLN_STR in
       if r_err p1 \<noteq> RLP_OK then (p1, RL_NONODE)
       else (p_next (p_set i (\<lambda>nd. nd\<lparr>n_e1 := t_val t, n_e2 := t_vlen t\<rparr>) p1), i)
     else if t_kind t = RLT_TRUE \<or> t_kind t = RLT_FALSE then
       let (p1, i) = p_mknode p RLN_BOOL in
       if r_err p1 \<noteq> RLP_OK then (p1, RL_NONODE)
       else (p_next (p_set i (\<lambda>nd. nd\<lparr>n_aux := of_bool (t_kind t = RLT_TRUE)\<rparr>) p1), i)
     else (p_fail RLP_SYNTAX p, RL_NONODE))"

section \<open>Expressions\<close>

datatype rly = YBinop nat rl_op | YUnop rl_op | YLparen | YCall nat

record yd =
  y_p :: rlp
  y_ops :: "rly list"
  y_vals :: "nat list"
  y_parens :: nat
  y_unpend :: nat
  y_expect :: bool
  y_have :: bool

definition yd_fail :: "rlp_rc \<Rightarrow> yd \<Rightarrow> yd" where
  "yd_fail e s = s\<lparr>y_p := p_fail e (y_p s)\<rparr>"

definition yd_bad :: "yd \<Rightarrow> bool" where
  "yd_bad s = (r_err (y_p s) \<noteq> RLP_OK)"

text \<open>
  Push a node index on the value stack, and the reduction of the top operator, which the
  source writes out in four places: pop the operator, pop its operands, make the node,
  push it. A failure is left in the error field of the parser.
\<close>

definition yd_pushval :: "nat \<Rightarrow> yd \<Rightarrow> yd" where
  "yd_pushval i s =
    (if r_vcap (y_p s) \<le> length (y_vals s) then yd_fail RLP_NOMEM s
     else s\<lparr>y_vals := i # y_vals s\<rparr>)"

definition yd_mk :: "rl_nkind \<Rightarrow> (rl_node \<Rightarrow> rl_node) \<Rightarrow> yd \<Rightarrow> yd" where
  "yd_mk kind f s =
    (let (p, i) = p_mknode (y_p s) kind in
     if r_err p \<noteq> RLP_OK then s\<lparr>y_p := p\<rparr>
     else yd_pushval i (s\<lparr>y_p := p_set i f p\<rparr>))"

definition yd_reduce :: "yd \<Rightarrow> yd" where
  "yd_reduce s =
    (case y_ops s of
       YBinop pr op # os \<Rightarrow>
         (case y_vals s of
            r # l # vs \<Rightarrow>
              yd_mk RLN_BINOP (\<lambda>nd. nd\<lparr>n_op := op, n_k1 := l, n_k2 := r\<rparr>)
                (s\<lparr>y_ops := os, y_vals := vs\<rparr>)
          | _ \<Rightarrow> yd_fail RLP_SYNTAX (s\<lparr>y_ops := os\<rparr>))
     | YUnop op # os \<Rightarrow>
         (case y_vals s of
            l # vs \<Rightarrow>
              yd_mk RLN_UNOP (\<lambda>nd. nd\<lparr>n_op := op, n_k1 := l\<rparr>)
                (s\<lparr>y_ops := os, y_vals := vs, y_unpend := y_unpend s - 1\<rparr>)
          | _ \<Rightarrow> yd_fail RLP_SYNTAX (s\<lparr>y_ops := os, y_unpend := y_unpend s - 1\<rparr>))
     | _ \<Rightarrow> yd_fail RLP_SYNTAX s)"

fun is_unop :: "rly \<Rightarrow> bool" where
  "is_unop (YUnop _) = True"
| "is_unop _ = False"

fun is_mark :: "rly \<Rightarrow> bool" where
  "is_mark YLparen = True"
| "is_mark (YCall _) = True"
| "is_mark _ = False"

fun rly_prec :: "rly \<Rightarrow> nat" where
  "rly_prec (YBinop pr _) = pr"
| "rly_prec (YUnop _) = 7"
| "rly_prec _ = 0"

lemma yd_fail_simps [simp]:
  "y_ops (yd_fail e s) = y_ops s" "y_vals (yd_fail e s) = y_vals s"
  "y_parens (yd_fail e s) = y_parens s" "y_unpend (yd_fail e s) = y_unpend s"
  by (simp_all add: yd_fail_def)

lemma yd_pushval_ops [simp]: "y_ops (yd_pushval i s) = y_ops s"
  by (simp add: yd_pushval_def)

lemma yd_mk_ops [simp]: "y_ops (yd_mk k f s) = y_ops s"
  by (simp add: yd_mk_def split: prod.splits)

lemma yd_reduce_ops: "y_ops s = x # os \<Longrightarrow> \<not> is_mark x \<Longrightarrow> y_ops (yd_reduce s) = os"
  by (cases x) (auto simp: yd_reduce_def split: list.splits)

text \<open>
  Reduce while the state is good and the top operator satisfies a test: the pending prefix
  operators after an operand, the operators that bind at least as tight as the next binary
  one, those above the innermost open parenthesis, and all of them at the end.
\<close>

function yd_while :: "(rly \<Rightarrow> bool) \<Rightarrow> yd \<Rightarrow> yd" where
  "yd_while f s =
    (if yd_bad s then s
     else case y_ops s of
       [] \<Rightarrow> s
     | x # os \<Rightarrow> if f x \<and> \<not> is_mark x then yd_while f (yd_reduce s) else s)"
  by pat_completeness auto
termination by (relation "measure (\<lambda>(f, s). length (y_ops s))") (auto simp: yd_reduce_ops)

declare yd_while.simps [simp del]

datatype yd_next = YCont yd | YBreak yd | YFail yd

definition yd_cont :: "yd \<Rightarrow> yd_next" where
  "yd_cont s = (if yd_bad s then YFail s else YCont s)"

definition yd_pushop :: "rly \<Rightarrow> yd \<Rightarrow> yd" where
  "yd_pushop x s =
    (let now = y_parens s + y_unpend s + 1 in
     if RL_DEPTH_MAX < now then yd_fail RLP_TOODEEP s
     else if r_ocap (y_p s) \<le> length (y_ops s) then yd_fail RLP_NOMEM s
     else s\<lparr>y_ops := x # y_ops s\<rparr>)"

definition yd_adv :: "yd \<Rightarrow> yd" where
  "yd_adv s = s\<lparr>y_p := p_next (y_p s)\<rparr>"

definition yd_operand :: "yd \<Rightarrow> yd_next" where
  "yd_operand s =
    (let k = r_kind (y_p s) in
     if k = RLT_MINUS \<or> k = RLT_BANG then
       let s1 = yd_pushop (YUnop (if k = RLT_MINUS then RLOP_NEG else RLOP_NOT)) s in
       if yd_bad s1 then YFail s1 else YCont (yd_adv (s1\<lparr>y_unpend := y_unpend s1 + 1\<rparr>))
     else if k = RLT_LPAREN then
       let s1 = yd_pushop (if y_have s then YCall 0 else YLparen) s in
       if yd_bad s1 then YFail s1
       else YCont (yd_adv (s1\<lparr>y_parens := y_parens s1 + 1, y_have := False\<rparr>))
     else if k \<in> {RLT_IDENT, RLT_INT, RLT_STR, RLT_TRUE, RLT_FALSE} then
       let (p, i) = p_atom (y_p s) in
       if r_err p \<noteq> RLP_OK then YFail (s\<lparr>y_p := p\<rparr>)
       else
         let s1 = yd_pushval i (s\<lparr>y_p := p\<rparr>); s2 = yd_while is_unop s1 in
         yd_cont (s2\<lparr>y_expect := False, y_have := True\<rparr>)
     else YFail (yd_fail RLP_SYNTAX s))"

definition yd_infix :: "nat \<Rightarrow> rl_op \<Rightarrow> yd \<Rightarrow> yd_next" where
  "yd_infix prec op s =
    (let s1 = yd_while (\<lambda>x. prec \<le> rly_prec x) s in
     if yd_bad s1 then YFail s1
     else if r_ocap (y_p s1) \<le> length (y_ops s1) then YFail (yd_fail RLP_NOMEM s1)
     else YCont (yd_adv (s1\<lparr>y_ops := YBinop prec op # y_ops s1, y_expect := True, y_have := False\<rparr>)))"

definition yd_callopen :: "yd \<Rightarrow> yd_next" where
  "yd_callopen s =
    (let s1 = yd_pushop (YCall 0) s in
     if yd_bad s1 then YFail s1
     else YCont (yd_adv (s1\<lparr>y_parens := y_parens s1 + 1, y_expect := True, y_have := False\<rparr>)))"

definition yd_comma :: "yd \<Rightarrow> yd_next" where
  "yd_comma s =
    (case y_ops s of
       YCall n # os \<Rightarrow> YCont (yd_adv (s\<lparr>y_ops := YCall (n + 1) # os, y_expect := True, y_have := False\<rparr>))
     | _ \<Rightarrow> YFail (yd_fail RLP_SYNTAX s))"

definition yd_mkcall :: "nat \<Rightarrow> yd \<Rightarrow> yd" where
  "yd_mkcall argc s =
    (if length (y_vals s) < argc + 1 then yd_fail RLP_SYNTAX s
     else
       let arg1 = (if 0 < argc then y_vals s ! (argc - 1) else RL_NONODE);
           callee = y_vals s ! argc;
           nd = r_nodes (y_p s) callee;
           aux = (if 255 < argc then 255 else argc);
           s1 = s\<lparr>y_vals := drop (argc + 1) (y_vals s)\<rparr> in
       if callee \<noteq> RL_NONODE \<and> callee < r_cap (y_p s) \<and> n_kind nd = RLN_VAR
          \<and> p_is_len_call (r_src (y_p s)) (n_e1 nd) (n_e2 nd)
       then yd_mk RLN_LEN (\<lambda>nd. nd\<lparr>n_k1 := arg1, n_k2 := RL_NONODE, n_aux := aux\<rparr>) s1
       else yd_mk RLN_CALL (\<lambda>nd. nd\<lparr>n_k1 := arg1, n_k2 := callee, n_aux := aux\<rparr>) s1)"

definition yd_close :: "yd \<Rightarrow> yd_next" where
  "yd_close s =
    (case y_ops s of
       m # os \<Rightarrow>
         let s1 = yd_adv (s\<lparr>y_ops := os, y_parens := y_parens s - 1\<rparr>);
             s2 = (case m of
                 YCall n \<Rightarrow>
                   let commas = n mod 65536 in
                   if y_expect s then
                     if 0 < commas then yd_fail RLP_SYNTAX s1 else yd_mkcall 0 s1
                   else yd_mkcall (commas + 1) s1
               | _ \<Rightarrow> if y_expect s then yd_fail RLP_SYNTAX s1 else s1) in
         yd_cont (s2\<lparr>y_expect := False, y_have := True\<rparr>)
     | [] \<Rightarrow> YFail (yd_fail RLP_SYNTAX s))"

definition yd_separator :: "yd \<Rightarrow> yd_next" where
  "yd_separator s =
    (if \<not> list_ex is_mark (y_ops s) then YFail (yd_fail RLP_SYNTAX s)
     else
       let s1 = yd_while (\<lambda>_. True) s in
       if yd_bad s1 then YFail s1
       else if r_kind (y_p s) = RLT_COMMA then yd_comma s1 else yd_close s1)"

definition yd_step :: "yd \<Rightarrow> yd_next" where
  "yd_step s0 =
    (if yd_bad s0 then YFail s0
     else
       let s = s0\<lparr>y_p := p_cur (y_p s0)\<rparr>; k = r_kind (y_p s) in
       if y_expect s then yd_operand s
       else case p_is_binop k of
         Some (prec, op) \<Rightarrow> yd_infix prec op s
       | None \<Rightarrow>
           if k = RLT_LPAREN \<and> y_have s then yd_callopen s
           else if k = RLT_COMMA \<or> k = RLT_RPAREN then yd_separator s
           else YBreak s)"

section \<open>Input left\<close>

text \<open>
  The bytes a state has not consumed, the cached token counted as one. Looking at a token
  never raises the number, consuming one lowers it, and nothing else changes it.
\<close>

definition p_left :: "rlp \<Rightarrow> nat" where
  "p_left p = length (r_src p) - lx_pos (r_lx p) + of_bool (r_have p \<and> r_kind p \<noteq> RLT_EOF)"

lemma p_left_cur: "p_left (p_cur p) \<le> p_left p"
proof (cases "r_have p")
  case False
  obtain lx ss t rc where l: "rl_lex_next (r_lx p) (r_ss p) = (lx, ss, t, rc)" by (metis prod_cases4)
  show ?thesis
    using False rl_lex_next_token [OF l] rl_lex_next_src [OF l] rl_lex_next_mono [OF l]
    by (auto simp: p_cur_def l p_left_def)
qed (simp add: p_cur_def)

lemma p_left_next: "r_have p \<Longrightarrow> r_kind p \<noteq> RLT_EOF \<Longrightarrow> p_left (p_next p) < p_left p"
  by (simp add: p_left_def p_next_def)

lemma p_left_next_le: "p_left (p_next p) \<le> p_left p"
  by (simp add: p_left_def p_next_def)

lemma p_cur_have [simp]: "r_have (p_cur p)"
  by (simp add: p_cur_def split: prod.splits)

lemma p_cur_idem [simp]: "p_cur (p_cur p) = p_cur p"
  by (simp add: p_cur_def [of "p_cur p"])

definition same_lex :: "rlp \<Rightarrow> rlp \<Rightarrow> bool" where
  "same_lex p q \<longleftrightarrow> r_lx q = r_lx p \<and> r_have q = r_have p \<and> r_cur q = r_cur p"

lemma same_lex_left: "same_lex p q \<Longrightarrow> p_left q = p_left p"
  by (simp add: same_lex_def p_left_def)

lemma same_lex_refl [simp]: "same_lex p p"
  by (simp add: same_lex_def)

lemma same_lex_trans [trans]: "same_lex p q \<Longrightarrow> same_lex q r \<Longrightarrow> same_lex p r"
  by (simp add: same_lex_def)

lemma same_lex_simps [simp]:
  "same_lex p (p_fail e q) = same_lex p q" "same_lex p (p_set i f q) = same_lex p q"
  "same_lex (p_fail e p) q = same_lex p q" "same_lex (p_set i f p) q = same_lex p q"
  by (simp_all add: same_lex_def p_fail_def p_set_def)

lemma same_lex_mknode: "p_mknode p k = (q, i) \<Longrightarrow> same_lex p q"
  by (auto simp: p_mknode_def same_lex_def p_fail_def split: if_splits)

lemma same_lex_pushval: "same_lex (y_p s) (y_p (yd_pushval i s))"
  by (simp add: yd_pushval_def yd_fail_def)

lemma same_lex_mk: "same_lex (y_p s) (y_p (yd_mk k f s))"
proof -
  obtain p i where p: "p_mknode (y_p s) k = (p, i)" by fastforce
  from same_lex_mknode [OF p] same_lex_pushval [of "s\<lparr>y_p := p_set i f p\<rparr>" i]
  show ?thesis by (auto simp: yd_mk_def p intro: same_lex_trans)
qed

lemma same_lex_reduce: "same_lex (y_p s) (y_p (yd_reduce s))"
proof -
  have *: "same_lex (y_p s) (y_p (yd_mk k f (s\<lparr>y_ops := os, y_vals := vs\<rparr>)))" for k f os vs
    using same_lex_mk [of "s\<lparr>y_ops := os, y_vals := vs\<rparr>" k f] by simp
  have **: "same_lex (y_p s) (y_p (yd_mk k f (s\<lparr>y_ops := os, y_vals := vs, y_unpend := n\<rparr>)))"
    for k f os vs n
    using same_lex_mk [of "s\<lparr>y_ops := os, y_vals := vs, y_unpend := n\<rparr>" k f] by simp
  show ?thesis
    by (auto simp: yd_reduce_def yd_fail_def * ** split: list.splits rly.splits)
qed

lemma same_lex_while: "same_lex (y_p s) (y_p (yd_while f s))"
proof (induction f s rule: yd_while.induct)
  case (1 f s)
  then show ?case
    by (subst yd_while.simps) (auto split: list.splits intro: same_lex_trans [OF same_lex_reduce])
qed

lemma same_lex_pushop: "same_lex (y_p s) (y_p (yd_pushop x s))"
  by (simp add: yd_pushop_def yd_fail_def Let_def)

lemma same_lex_mkcall: "same_lex (y_p s) (y_p (yd_mkcall n s))"
  using same_lex_mk [of "s\<lparr>y_vals := drop (n + 1) (y_vals s)\<rparr>"]
  by (auto simp: yd_mkcall_def yd_fail_def Let_def)

lemma p_atom_left:
  assumes "p_atom p = (q, i)" "r_have p" "r_kind p \<noteq> RLT_EOF" "r_err q = RLP_OK"
  shows "p_left q < p_left p"
proof -
  have cur: "p_cur p = p" using assms(2) by (simp add: p_cur_def)
  have *: "p_left (p_next (p_set j f q')) < p_left p" if "p_mknode p k = (q', j)" for q' j f k
  proof -
    have sl: "same_lex p (p_set j f q')" using same_lex_mknode [OF that] by simp
    then have "r_have (p_set j f q')" "r_kind (p_set j f q') \<noteq> RLT_EOF"
      using assms(2,3) by (simp_all add: same_lex_def)
    from p_left_next [OF this] show ?thesis by (simp only: same_lex_left [OF sl])
  qed
  show ?thesis
    using assms(1,4) *
    by (auto simp: p_atom_def cur Let_def p_fail_def split: if_splits prod.splits)
qed

section \<open>The expression loop\<close>

lemma yd_adv_left:
  assumes "same_lex (y_p s) (y_p t)" "r_have (y_p s)" "r_kind (y_p s) \<noteq> RLT_EOF"
  shows "p_left (y_p (yd_adv t)) < p_left (y_p s)"
proof -
  have "r_have (y_p t)" "r_kind (y_p t) \<noteq> RLT_EOF" using assms by (simp_all add: same_lex_def)
  from p_left_next [OF this] show ?thesis by (simp add: yd_adv_def same_lex_left [OF assms(1)])
qed

lemma yd_adv_upd [simp]:
  "y_p (yd_adv (s\<lparr>y_ops := a, y_expect := b, y_have := c\<rparr>)) = y_p (yd_adv s)"
  "y_p (yd_adv (s\<lparr>y_parens := n, y_have := c\<rparr>)) = y_p (yd_adv s)"
  "y_p (yd_adv (s\<lparr>y_parens := n, y_expect := b, y_have := c\<rparr>)) = y_p (yd_adv s)"
  "y_p (yd_adv (s\<lparr>y_unpend := n\<rparr>)) = y_p (yd_adv s)"
  "y_p (yd_adv (s\<lparr>y_ops := a, y_parens := n\<rparr>)) = y_p (yd_adv s)"
  by (simp_all add: yd_adv_def)

lemma yd_operand_left:
  assumes "yd_operand s = YCont s'" "r_have (y_p s)"
  shows "p_left (y_p s') < p_left (y_p s)"
proof -
  let ?k = "r_kind (y_p s)"
  have op: "p_left (y_p (yd_adv (yd_pushop x s))) < p_left (y_p s)" if "?k \<noteq> RLT_EOF" for x
    using yd_adv_left [OF same_lex_pushop assms(2) that] .
  have atom: "p_left (y_p (yd_while is_unop (yd_pushval i (s\<lparr>y_p := q\<rparr>)))) < p_left (y_p s)"
    if "p_atom (y_p s) = (q, i)" "?k \<noteq> RLT_EOF" "r_err q = RLP_OK" for q i
  proof -
    have "same_lex q (y_p (yd_while is_unop (yd_pushval i (s\<lparr>y_p := q\<rparr>))))"
      using same_lex_trans [OF same_lex_pushval [of "s\<lparr>y_p := q\<rparr>" i] same_lex_while] by simp
    with p_atom_left [OF that(1) assms(2) that(2,3)] show ?thesis by (simp add: same_lex_left)
  qed
  show ?thesis
    using assms(1) op atom
    by (auto simp: yd_operand_def Let_def yd_cont_def split: if_splits prod.splits)
qed

lemma yd_infix_left:
  assumes "yd_infix prec op s = YCont s'" "r_have (y_p s)" "r_kind (y_p s) \<noteq> RLT_EOF"
  shows "p_left (y_p s') < p_left (y_p s)"
  using assms(1) yd_adv_left [OF same_lex_while assms(2,3)]
  by (auto simp: yd_infix_def Let_def split: if_splits)

lemma yd_callopen_left:
  assumes "yd_callopen s = YCont s'" "r_have (y_p s)" "r_kind (y_p s) \<noteq> RLT_EOF"
  shows "p_left (y_p s') < p_left (y_p s)"
  using assms(1) yd_adv_left [OF same_lex_pushop assms(2,3)]
  by (auto simp: yd_callopen_def Let_def split: if_splits)

lemma yd_close_left:
  assumes "yd_close t = YCont s'" "same_lex (y_p s) (y_p t)" "r_have (y_p s)" "r_kind (y_p s) \<noteq> RLT_EOF"
  shows "p_left (y_p s') < p_left (y_p s)"
proof -
  have adv: "p_left (y_p (yd_adv t)) < p_left (y_p s)" by (rule yd_adv_left [OF assms(2-4)])
  have call: "p_left (y_p (yd_mkcall n (yd_adv (t\<lparr>y_ops := a, y_parens := b\<rparr>)))) < p_left (y_p s)" for n a b
    using same_lex_mkcall [of "yd_adv (t\<lparr>y_ops := a, y_parens := b\<rparr>)" n] adv
    by (simp add: same_lex_left)
  show ?thesis
    using assms(1) adv call
    by (auto simp: yd_close_def yd_cont_def yd_bad_def yd_fail_def p_fail_def Let_def
        split: list.splits rly.splits if_splits)
qed

lemma yd_separator_left:
  assumes "yd_separator s = YCont s'" "r_have (y_p s)" "r_kind (y_p s) \<noteq> RLT_EOF"
  shows "p_left (y_p s') < p_left (y_p s)"
proof -
  note w = same_lex_while [of s "\<lambda>_. True"]
  show ?thesis
    using assms(1) yd_close_left [OF _ w assms(2,3)] yd_adv_left [OF w assms(2,3)]
    by (auto simp: yd_separator_def yd_comma_def Let_def split: if_splits list.splits rly.splits)
qed

lemma p_is_binop_eof: "p_is_binop k = Some x \<Longrightarrow> k \<noteq> RLT_EOF"
  by (auto simp: p_is_binop_def)

lemma yd_step_left:
  assumes "yd_step s = YCont s'"
  shows "p_left (y_p s') < p_left (y_p s)"
proof -
  let ?s = "s\<lparr>y_p := p_cur (y_p s)\<rparr>"
  have "p_left (y_p s') < p_left (y_p ?s)"
    using assms yd_operand_left [of ?s s'] yd_infix_left [of _ _ ?s s'] yd_callopen_left [of ?s s']
      yd_separator_left [of ?s s']
    by (auto simp: yd_step_def Let_def split: if_splits option.splits dest: p_is_binop_eof)
  also have "\<dots> \<le> p_left (y_p s)" using p_left_cur by simp
  finally show ?thesis .
qed

function yd_loop :: "yd \<Rightarrow> yd" where
  "yd_loop s = (case yd_step s of YCont s' \<Rightarrow> yd_loop s' | YBreak s' \<Rightarrow> s' | YFail s' \<Rightarrow> s')"
  by pat_completeness auto
termination by (relation "measure (\<lambda>s. p_left (y_p s))") (simp_all add: yd_step_left)

declare yd_loop.simps [simp del]

definition yd_finish :: "yd \<Rightarrow> rlp \<times> nat" where
  "yd_finish s =
    (let s1 = yd_while (\<lambda>_. True) s in
     if yd_bad s1 then (y_p s1, RL_NONODE)
     else if y_ops s1 \<noteq> [] then (p_fail RLP_SYNTAX (y_p s1), RL_NONODE)
     else case y_vals s1 of
       [v] \<Rightarrow> if y_unpend s1 \<noteq> 0 then (p_fail RLP_SYNTAX (y_p s1), RL_NONODE) else (y_p s1, v)
     | _ \<Rightarrow> (p_fail RLP_SYNTAX (y_p s1), RL_NONODE))"

definition p_expr_yd :: "rlp \<Rightarrow> rlp \<times> nat" where
  "p_expr_yd p = yd_finish (yd_loop \<lparr>y_p = p, y_ops = [], y_vals = [], y_parens = 0, y_unpend = 0,
     y_expect = True, y_have = False\<rparr>)"

section \<open>Commands\<close>

definition p_arg_starter :: "rlp \<Rightarrow> rlp \<times> bool" where
  "p_arg_starter p =
    (if r_err p \<noteq> RLP_OK then (p, False)
     else (p_cur p, r_kind (p_cur p) \<in> {RLT_IDENT, RLT_MINUS, RLT_INT, RLT_STR, RLT_TRUE, RLT_FALSE,
       RLT_GREATER}))"

definition p_lone_follow :: "rl_tkind \<Rightarrow> bool" where
  "p_lone_follow k = (k \<in> {RLT_PIPEGT, RLT_SEMI, RLT_EOF, RLT_RBRACE, RLT_RPAREN, RLT_COMMA})"

definition p_adjacent :: "rl_tok \<Rightarrow> rl_tok \<Rightarrow> bool" where
  "p_adjacent a b = (t_off a + t_len a = t_off b)"

definition p_arg_push :: "rlp \<Rightarrow> nat \<Rightarrow> rlp \<times> bool" where
  "p_arg_push p i =
    (if r_acap p \<le> r_aused p then (p_fail RLP_NOMEM p, False)
     else (p\<lparr>r_args := (r_args p)(r_aused p := i), r_aused := r_aused p + 1\<rparr>, True))"

definition p_redirect_ok :: "rlp \<Rightarrow> rlp \<times> bool" where
  "p_redirect_ok p =
    (let back = (\<lambda>ss. p\<lparr>r_ss := (r_ss p)\<lparr>ss_base := ss_base ss\<rparr>\<rparr>) in
     case rl_lex_next (r_lx p) (r_ss p) of (lx1, ss1, first, rc1) \<Rightarrow>
       if rc1 \<noteq> RLL_OK \<or> t_kind first \<noteq> RLT_GREATER then (back ss1, False)
       else case rl_lex_next lx1 ss1 of (lx2, ss2, after, rc2) \<Rightarrow>
         if rc2 \<noteq> RLL_OK then (back ss2, False)
         else if t_kind after = RLT_STR then (back ss2, True)
         else if t_kind after = RLT_GREATER \<and> t_off after = t_off first + 1 then
           (case rl_lex_next lx2 ss2 of (lx3, ss3, after2, rc3) \<Rightarrow>
              (back ss3, rc3 = RLL_OK \<and> t_kind after2 = RLT_STR))
         else (back ss2, False))"

datatype cmd_arg = ArgNone rlp | ArgEnd rlp | ArgNode rlp nat

text \<open>
  A redirect: past the first \<^verbatim>\<open>>\<close>, the test for a second one compares the offset of the
  current token with the offset read through \<^verbatim>\<open>t\<close>, a pointer to that same token.
\<close>

definition cmd_redirect :: "rlp \<Rightarrow> cmd_arg" where
  "cmd_redirect p =
    (let (p1, gt) = p_at (p_next p) RLT_GREATER;
         dbl = (gt \<and> t_off (r_cur p1) = t_off (r_cur p1) + 1);
         (p2, str) = p_at (if dbl then p_next p1 else p1) RLT_STR in
     if \<not> str then ArgNone p2
     else
       let tgt = r_cur p2; (p3, aid) = p_mknode p2 RLN_STR in
       if r_err p3 \<noteq> RLP_OK then ArgNone p3
       else ArgNode (p_next (p_set aid (\<lambda>nd. nd\<lparr>n_e1 := t_val tgt, n_e2 := t_vlen tgt,
          n_aux := (if dbl then 3 else 2)\<rparr>) p3)) aid)"

definition cmd_dash :: "rlp \<Rightarrow> cmd_arg" where
  "cmd_dash p0 =
    (let t = r_cur p0; (p, pk) = p_peek p0 in
     case pk of
       None \<Rightarrow> ArgNone p
     | Some fl \<Rightarrow>
         if t_kind fl = RLT_IDENT \<and> p_adjacent t fl then
           let (p1, aid) = p_mknode (p_next p) RLN_WORD in
           if r_err p1 \<noteq> RLP_OK then ArgNone p1
           else
             let p2 = p_cur p1; w = r_cur p2 in
             ArgNode (p_next (p_set aid (\<lambda>nd. nd\<lparr>n_e1 := t_off w, n_e2 := t_len w, n_aux := 1\<rparr>) p2)) aid
         else if t_kind fl = RLT_INT \<and> p_adjacent t fl then
           let (p1, lit) = p_atom (p_next p) in
           if r_err p1 \<noteq> RLP_OK then ArgNone p1
           else
             let (p2, aid) = p_mknode p1 RLN_UNOP in
             if r_err p2 \<noteq> RLP_OK then ArgNone p2
             else ArgNode (p_set aid (\<lambda>nd. nd\<lparr>n_op := RLOP_NEG, n_k1 := lit\<rparr>) p2) aid
         else ArgNone p)"

definition cmd_arg :: "rlp \<Rightarrow> cmd_arg" where
  "cmd_arg p0 =
    (let p = p_cur p0; t = r_cur p in
     if r_err p \<noteq> RLP_OK then ArgNone p
     else if t_kind t = RLT_IDENT then
       let (p1, aid) = p_mknode p RLN_WORD in
       if r_err p1 \<noteq> RLP_OK then ArgNone p1
       else ArgNode (p_next (p_set aid (\<lambda>nd. nd\<lparr>n_e1 := t_off t, n_e2 := t_len t\<rparr>) p1)) aid
     else if t_kind t \<in> {RLT_INT, RLT_STR, RLT_TRUE, RLT_FALSE} then
       let (p1, aid) = p_atom p in
       if r_err p1 \<noteq> RLP_OK then ArgNone p1 else ArgNode p1 aid
     else if t_kind t = RLT_MINUS then cmd_dash p
     else if t_kind t = RLT_GREATER then cmd_redirect p
     else ArgEnd p)"

lemma p_left_peek: "p_peek p = (q, r) \<Longrightarrow> p_left q = p_left p \<and> same_lex p q"
  by (auto simp: p_peek_def Let_def p_left_def same_lex_def split: prod.splits if_splits)

lemma p_left_at: "p_at p k = (q, b) \<Longrightarrow> p_left q \<le> p_left p"
  by (auto simp: p_at_def p_left_cur split: if_splits)

lemma p_atom_left_le:
  assumes "p_atom p = (q, i)"
  shows "p_left q \<le> p_left p"
proof -
  have *: "p_left (p_next (p_set j f q')) \<le> p_left p" "p_left q' \<le> p_left p"
    if "p_mknode (p_cur p) k = (q', j)" for q' j f k
  proof -
    have "same_lex (p_cur p) (p_set j f q')" "same_lex (p_cur p) q'" using same_lex_mknode [OF that] by simp_all
    then have "p_left (p_set j f q') \<le> p_left p" "p_left q' \<le> p_left p"
      using p_left_cur [of p] by (simp_all add: same_lex_left)
    then show "p_left (p_next (p_set j f q')) \<le> p_left p" "p_left q' \<le> p_left p"
      using p_left_next_le [of "p_set j f q'"] by simp_all
  qed
  have fail: "p_left (p_fail e q') = p_left q'" for e q' by (simp add: p_left_def p_fail_def)
  show ?thesis
    using assms * p_left_cur [of p]
    by (auto simp: p_atom_def Let_def fail split: if_splits prod.splits)
qed

lemma p_left_mknode: "p_mknode p k = (q, i) \<Longrightarrow> p_left q = p_left p"
  by (rule same_lex_left [OF same_lex_mknode])

lemma p_left_set [simp]: "p_left (p_set i f p) = p_left p"
  by (simp add: p_left_def p_set_def)

lemma cmd_redirect_left:
  assumes "cmd_redirect p = ArgNode q aid" "r_have p" "r_kind p \<noteq> RLT_EOF"
  shows "p_left q < p_left p"
proof -
  obtain p1 gt p2 str p3 i f where steps: "p_at (p_next p) RLT_GREATER = (p1, gt)"
    "p_at p1 RLT_STR = (p2, str)" "p_mknode p2 RLN_STR = (p3, i)" "q = p_next (p_set i f p3)"
    using assms(1)
    by (auto simp: cmd_redirect_def Let_def split: prod.splits if_splits)
  have "p_left q \<le> p_left p2"
    using steps(3,4) p_left_next_le [of "p_set i f p3"] by (simp add: p_left_mknode)
  also have "\<dots> \<le> p_left (p_next p)" using p_left_at [OF steps(1)] p_left_at [OF steps(2)] by simp
  also have "\<dots> < p_left p" by (rule p_left_next [OF assms(2,3)])
  finally show ?thesis .
qed

lemma cmd_dash_left:
  assumes "cmd_dash p = ArgNode q aid" "r_have p" "r_kind p \<noteq> RLT_EOF"
  shows "p_left q < p_left p"
proof -
  obtain p' pk where pk: "p_peek p = (p', pk)" by fastforce
  from p_left_peek [OF pk] assms(2,3) have start: "p_left (p_next p') < p_left p"
    using p_left_next [of p'] by (simp add: same_lex_def)
  have word: "p_left (p_next (p_set i f (p_cur p1))) \<le> p_left (p_next p')"
    if "p_mknode (p_next p') k = (p1, i)" for p1 i f k
    using p_left_next_le [of "p_set i f (p_cur p1)"] p_left_cur [of p1] p_left_mknode [OF that] by simp
  have int: "p_left p2 \<le> p_left (p_next p')"
    if "p_atom (p_next p') = (p1, i)" "p_mknode p1 k = (p2, j)" for p1 p2 i j k
    using p_atom_left_le [OF that(1)] p_left_mknode [OF that(2)] by simp
  have "p_left q \<le> p_left (p_next p')"
    using assms(1) word int
    by (auto simp: cmd_dash_def pk Let_def split: prod.splits if_splits option.splits)
  with start show ?thesis by simp
qed

lemma cmd_arg_left:
  assumes "cmd_arg p = ArgNode q aid"
  shows "p_left q < p_left p"
proof -
  let ?p = "p_cur p"
  have word: "p_left (p_next (p_set i f p1)) < p_left ?p"
    if "p_mknode ?p k = (p1, i)" "r_kind ?p \<noteq> RLT_EOF" for p1 i f k
  proof -
    have "same_lex ?p (p_set i f p1)" using same_lex_mknode [OF that(1)] by simp
    then have "r_have (p_set i f p1)" "r_kind (p_set i f p1) \<noteq> RLT_EOF" "p_left (p_set i f p1) = p_left ?p"
      using that(2) same_lex_left by (simp_all add: same_lex_def p_left_def)
    then show ?thesis using p_left_next [of "p_set i f p1"] by simp
  qed
  have "p_left q < p_left ?p"
    using assms word p_atom_left [of ?p] cmd_dash_left [of ?p] cmd_redirect_left [of ?p]
    by (auto simp: cmd_arg_def Let_def split: prod.splits if_splits)
  also have "\<dots> \<le> p_left p" by (rule p_left_cur)
  finally show ?thesis .
qed

lemma p_arg_push_left: "p_arg_push p i = (q, b) \<Longrightarrow> p_left q = p_left p"
  by (auto simp: p_arg_push_def p_left_def p_fail_def split: if_splits)

function p_cmd_args :: "rlp \<Rightarrow> nat \<Rightarrow> rlp \<times> nat option" where
  "p_cmd_args p nargs =
    (case cmd_arg p of
       ArgNone q \<Rightarrow> (q, None)
     | ArgEnd q \<Rightarrow> (q, Some nargs)
     | ArgNode q aid \<Rightarrow>
         (case p_arg_push q aid of (q', pushed) \<Rightarrow>
            if \<not> pushed then (q', None)
            else if 250 < nargs + 1 then (p_fail RLP_NOMEM q', None)
            else p_cmd_args q' (nargs + 1)))"
  by pat_completeness auto
termination
proof (relation "measure (\<lambda>(p, nargs). p_left p)", goal_cases)
  case 2
  then show ?case by (auto dest!: cmd_arg_left p_arg_push_left [OF sym])
qed simp

declare p_cmd_args.simps [simp del]

definition p_mkcmd :: "rlp \<Rightarrow> rl_tok \<Rightarrow> nat \<Rightarrow> nat \<Rightarrow> rlp \<times> nat" where
  "p_mkcmd p name base nargs =
    (let (p1, ok) = p_enter p in
     if \<not> ok then (p1, RL_NONODE)
     else
       let (p2, i) = p_mknode p1 RLN_CMD; p3 = p_leave p2 in
       if r_err p3 \<noteq> RLP_OK then (p3, RL_NONODE)
       else (p_set i (\<lambda>nd. nd\<lparr>n_e1 := t_off name + t_len name * 65536,
          n_e2 := nargs mod 256 + base * 256, n_aux := (if 255 < nargs then 255 else nargs)\<rparr>) p3, i))"

definition p_cmd_first :: "rlp \<Rightarrow> rlp \<times> bool" where
  "p_cmd_first p =
    (let nxt = r_cur p;
         (p1, ok) = (if t_kind nxt = RLT_MINUS then
             let (q, pk) = p_peek p in
             (q, case pk of None \<Rightarrow> False
               | Some after \<Rightarrow> (t_kind after = RLT_IDENT \<or> t_kind after = RLT_INT) \<and> p_adjacent nxt after)
           else (p, True)) in
     if \<not> ok then (p1, False)
     else if t_kind nxt = RLT_GREATER then p_redirect_ok p1
     else (p1, True))"

definition p_cmd :: "rlp \<Rightarrow> rlp \<times> nat" where
  "p_cmd p0 =
    (if r_err p0 \<noteq> RLP_OK then (p0, RL_NONODE)
     else
       let p = p_cur p0; name = r_cur p; (p1, starts) = p_arg_starter (p_next p) in
       if \<not> starts then (p1, RL_NONODE)
       else
         let (p2, ok) = p_cmd_first (p_cur p1) in
         if \<not> ok then (p2, RL_NONODE)
         else
           let base = r_aused p2 mod 65536; (p3, res) = p_cmd_args p2 0 in
           case res of
             None \<Rightarrow> (p3, RL_NONODE)
           | Some nargs \<Rightarrow>
               if nargs = 0 then (p3, RL_NONODE)
               else if 255 < base \<or> 255 < nargs then (p_fail RLP_NOMEM p3, RL_NONODE)
               else p_mkcmd p3 name base nargs)"

section \<open>Stages, pipelines, let\<close>

definition p_cmd_or_expr :: "rlp \<Rightarrow> rlp \<times> nat" where
  "p_cmd_or_expr p0 =
    (if r_err p0 \<noteq> RLP_OK then (p0, RL_NONODE)
     else
       let p = p_cur p0 in
       if r_kind p \<noteq> RLT_IDENT then p_expr_yd p
       else
         let sv = p_save p; (q, r) = p_cmd p in
         if r_err q = RLP_NOMEM then (q, RL_NONODE)
         else if r_err q \<noteq> RLP_OK then p_expr_yd (p_restore q sv)
         else if r \<noteq> RL_NONODE then (q, r)
         else p_expr_yd (p_restore q sv))"

definition p_stage :: "rlp \<Rightarrow> rlp \<times> nat" where
  "p_stage p0 =
    (if r_err p0 \<noteq> RLP_OK then (p0, RL_NONODE)
     else
       let p = p_cur p0;
           (p1, lone) = (if r_kind p = RLT_IDENT then
               let (q, pk) = p_peek p in
               (q, case pk of None \<Rightarrow> False | Some nxt \<Rightarrow> p_lone_follow (t_kind nxt))
             else (p, False)) in
       if lone then
         let name = r_cur p1; (p2, ok) = p_enter (p_next p1) in
         if \<not> ok then (p2, RL_NONODE)
         else
           let (p3, i) = p_mknode p2 RLN_CMD; p4 = p_leave p3 in
           if r_err p4 \<noteq> RLP_OK then (p4, RL_NONODE)
           else (p_set i (\<lambda>nd. nd\<lparr>n_e1 := t_off name + t_len name * 65536, n_e2 := 0, n_aux := 0,
              n_k1 := RL_NONODE\<rparr>) p4, i)
       else p_cmd_or_expr p1)"

function p_pipe_loop :: "rlp \<Rightarrow> nat \<Rightarrow> nat \<Rightarrow> rlp \<times> nat" where
  "p_pipe_loop p left stages =
    (let (p1, eof) = p_at (p_next p) RLT_EOF in
     if eof then (p_fail RLP_SYNTAX p1, RL_NONODE)
     else
       let (p2, st) = p_stage p1 in
       if r_err p2 \<noteq> RLP_OK then (p2, RL_NONODE)
       else if 2 < stages + 1 then (p_fail RLP_SYNTAX p2, RL_NONODE)
       else
         let (p3, i) = p_mknode p2 RLN_PIPE in
         if r_err p3 \<noteq> RLP_OK then (p3, RL_NONODE)
         else
           let (p4, more) = p_at (p_set i (\<lambda>nd. nd\<lparr>n_k1 := left, n_k2 := st\<rparr>) p3) RLT_PIPEGT in
           if \<not> more then (p4, i) else p_pipe_loop p4 i (stages + 1))"
  by pat_completeness auto
termination by (relation "measure (\<lambda>(p, left, stages). 2 - stages)") auto

declare p_pipe_loop.simps [simp del]

definition p_pipeline :: "rlp \<Rightarrow> rlp \<times> nat" where
  "p_pipeline p =
    (let (p1, left) = p_stage p in
     if r_err p1 \<noteq> RLP_OK then (p1, RL_NONODE)
     else
       let (p2, more) = p_at p1 RLT_PIPEGT in
       if \<not> more then (p2, left) else p_pipe_loop p2 left 1)"

definition rlv_of_token :: "rl_tkind \<Rightarrow> rl_vtype option" where
  "rlv_of_token k =
    (if k = RLT_INT_T then Some RLV_INT else if k = RLT_BOOL_T then Some RLV_BOOL
     else if k = RLT_STR_T then Some RLV_STR else None)"

fun rlv_code :: "rl_vtype \<Rightarrow> nat" where
  "rlv_code RLV_UNKNOWN = 0"
| "rlv_code RLV_INT = 1"
| "rlv_code RLV_BOOL = 2"
| "rlv_code RLV_STR = 3"
| "rlv_code RLV_UNIT = 4"

definition p_let :: "rlp \<Rightarrow> rlp \<times> nat" where
  "p_let p =
    (let (p1, ident) = p_at (p_next p) RLT_IDENT in
     if \<not> ident then (p_fail RLP_SYNTAX p1, RL_NONODE)
     else
       let name = r_cur p1; (p2, colon) = p_at (p_next p1) RLT_COLON in
       if \<not> colon then (p_fail RLP_SYNTAX p2, RL_NONODE)
       else
         let p3 = p_cur (p_next p2) in
         case rlv_of_token (r_kind p3) of
           None \<Rightarrow> (p_fail RLP_SYNTAX p3, RL_NONODE)
         | Some dt \<Rightarrow>
             let (p4, eq) = p_at (p_next p3) RLT_EQUAL in
             if \<not> eq then (p_fail RLP_SYNTAX p4, RL_NONODE)
             else
               let (p5, init) = p_pipeline (p_next p4) in
               if r_err p5 \<noteq> RLP_OK then (p5, RL_NONODE)
               else
                 let (p6, i) = p_mknode p5 RLN_LET in
                 if r_err p6 \<noteq> RLP_OK then (p6, RL_NONODE)
                 else (p_set i (\<lambda>nd. nd\<lparr>n_e1 := t_off name, n_e2 := t_len name,
                    n_aux := rlv_code dt, n_k1 := init\<rparr>) p6, i))"

text \<open>
  The whole part: the final parser state, the outcome, and the root, none unless the
  outcome is success. The caller's string scratch moves only on success.
\<close>

definition p_part :: "rlp \<Rightarrow> rlp \<times> rlp_rc \<times> nat" where
  "p_part p0 =
    (let (p1, islet) = p_at p0 RLT_LET;
         (p2, root) = (if islet then p_let p1 else p_pipeline p1) in
     if r_err p2 \<noteq> RLP_OK then (p2, r_err p2, RL_NONODE)
     else
       let (p3, eof) = p_at p2 RLT_EOF in
       if \<not> eof then (p3, RLP_SYNTAX, RL_NONODE) else (p3, RLP_OK, root))"

definition rl_parse_part ::
  "string \<Rightarrow> rl_pool \<Rightarrow> nat \<Rightarrow> rl_strscratch \<Rightarrow> (nat \<Rightarrow> nat) \<Rightarrow> nat \<Rightarrow> nat \<Rightarrow> nat
    \<Rightarrow> rlp \<times> rl_strscratch \<times> rlp_rc \<times> nat" where
  "rl_parse_part src nodes cap ss args acap ocap vcap =
    (case p_part (p_init src nodes cap ss args acap ocap vcap) of (p, rc, root) \<Rightarrow>
       (p, (if rc = RLP_OK then r_ss p else ss\<lparr>ss_base := ss_base (r_ss p)\<rparr>), rc, root))"

end
