(* ===== verification/Rl_Eval.thy ===== *)
theory Rl_Eval
  imports Rl_Node "HOL-Library.Signed_Division"
begin

text \<open>
  The RynorLang evaluator, \<^verbatim>\<open>src/user/shell/rl_eval.c\<close>: an iterative post-order walk
  over the node pool with an explicit walk stack of indices tagged in bit 15 and a
  stack of values. Both stacks are lists with the top first, bounded by the capacities
  of the context; a null pointer of the context is \<open>None\<close>. The bytes given to the print
  sink are the list of emitted strings.

  The loop is shown to stop on every pool, also a cyclic one, because the walk stack is
  bounded, and to compute the same as a recursive evaluator of expression trees.
\<close>

section \<open>Arithmetic on 64-bit words\<close>

definition RL_MASK64 :: u64 where
  "RL_MASK64 = 0xFFFFFFFFFFFFFFFF"

definition RL_SIGNBIT :: u64 where
  "RL_SIGNBIT = 0x8000000000000000"

definition RL_INT_MIN :: u64 where
  "RL_INT_MIN = 0x8000000000000000"

definition rl_uadd :: "u64 \<Rightarrow> u64 \<Rightarrow> u64" where
  "rl_uadd a b = (a + b) AND RL_MASK64"

definition rl_usub :: "u64 \<Rightarrow> u64 \<Rightarrow> u64" where
  "rl_usub a b = (a - b) AND RL_MASK64"

definition rl_umul :: "u64 \<Rightarrow> u64 \<Rightarrow> u64" where
  "rl_umul a b = (a * b) AND RL_MASK64"

definition rl_uneg :: "u64 \<Rightarrow> u64" where
  "rl_uneg a = (0 - a) AND RL_MASK64"

definition rl_udivmag :: "u64 \<Rightarrow> u64 \<Rightarrow> u64" where
  "rl_udivmag ma mb = (if mb = 0 then 0 else ma div mb)"

definition rl_slt :: "u64 \<Rightarrow> u64 \<Rightarrow> bool" where
  "rl_slt a b = (a XOR RL_SIGNBIT < b XOR RL_SIGNBIT)"

definition rl_memeq :: "string \<Rightarrow> string \<Rightarrow> nat \<Rightarrow> bool" where
  "rl_memeq a b n = list_all (\<lambda>i. a ! i = b ! i) [0 ..< n]"

definition rl_vint :: "u64 \<Rightarrow> rl_val" where
  "rl_vint bits = VInt (bits AND RL_MASK64)"

definition rl_vbool :: "u64 \<Rightarrow> rl_val" where
  "rl_vbool b = VBool (if b \<noteq> 0 then 1 else 0)"

section \<open>The context\<close>

text \<open>
  A stack buffer of the context is its capacity, \<open>None\<close> for a null pointer; \<open>ev_emit\<close> says
  whether there is a print sink.
\<close>

record rl_eval_ctx =
  ev_pool :: "rl_pool option"
  ev_strbase :: "(nat \<Rightarrow> char) option"
  ev_syms :: "(nat \<Rightarrow> rl_sym) option"
  ev_nsyms :: nat
  ev_arena :: "(nat \<Rightarrow> char) option"
  ev_walk :: "nat option"
  ev_vstack :: "nat option"
  ev_emit :: bool

fun ev_load :: "rl_eval_ctx \<Rightarrow> rl_ptr \<Rightarrow> nat \<Rightarrow> string" where
  "ev_load c (PScratch o') n =
    (case ev_strbase c of None \<Rightarrow> [] | Some b \<Rightarrow> map b [o' ..< o' + n])"
| "ev_load c (PSession o') n =
    (case ev_arena c of None \<Rightarrow> [] | Some b \<Rightarrow> map b [o' ..< o' + n])"

datatype rl_evres = EvOk rl_val | EvTrap | EvInternal

section \<open>One node\<close>

definition rl_leaf :: "rl_eval_ctx \<Rightarrow> rl_node \<Rightarrow> rl_evres" where
  "rl_leaf c nd =
    (case n_kind nd of
       RLN_INT \<Rightarrow> EvOk (rl_vint (push_bit 32 (of_nat (n_e2 nd)) OR of_nat (n_e1 nd)))
     | RLN_BOOL \<Rightarrow> EvOk (rl_vbool (of_nat (n_aux nd)))
     | RLN_STR \<Rightarrow> (case ev_strbase c of
           None \<Rightarrow> EvInternal
         | Some _ \<Rightarrow> EvOk (VStr (PScratch (n_e1 nd)) (n_e2 nd)))
     | RLN_VAR \<Rightarrow> (case ev_syms c of
           None \<Rightarrow> EvInternal
         | Some syms \<Rightarrow>
             let s = n_k2 nd in
             if ev_nsyms c \<le> s then EvInternal
             else (case sy_type (syms s) of
                 RLV_INT \<Rightarrow> EvOk (rl_vint (sy_pay (syms s)))
               | RLV_BOOL \<Rightarrow> EvOk (rl_vbool (sy_pay (syms s)))
               | RLV_STR \<Rightarrow> (case ev_arena c of
                     None \<Rightarrow> EvInternal
                   | Some _ \<Rightarrow> EvOk (VStr (PSession (unat (sy_pay (syms s)))) (sy_str_len (syms s))))
               | _ \<Rightarrow> EvInternal))
     | _ \<Rightarrow> EvInternal)"

definition rl_unop :: "rl_op \<Rightarrow> rl_val \<Rightarrow> rl_evres" where
  "rl_unop op a =
    (case op of
       RLOP_NEG \<Rightarrow> (case a of VInt x \<Rightarrow> EvOk (rl_vint (rl_uneg x)) | _ \<Rightarrow> EvInternal)
     | RLOP_NOT \<Rightarrow> (case a of VBool x \<Rightarrow> EvOk (rl_vbool (if x = 0 then 1 else 0)) | _ \<Rightarrow> EvInternal)
     | _ \<Rightarrow> EvInternal)"

definition rl_divmod :: "rl_op \<Rightarrow> u64 \<Rightarrow> u64 \<Rightarrow> rl_evres" where
  "rl_divmod op a b =
    (if b = 0 \<or> (a = RL_INT_MIN \<and> b = RL_MASK64) then EvTrap
     else
       let nega = (a AND RL_SIGNBIT \<noteq> 0); negb = (b AND RL_SIGNBIT \<noteq> 0);
           ma = (if nega then rl_uneg a else a); mb = (if negb then rl_uneg b else b);
           q = rl_udivmag ma mb; negq = (nega \<noteq> negb) in
       if op = RLOP_DIV then EvOk (rl_vint (if negq then rl_uneg q else q))
       else EvOk (rl_vint (rl_usub a (rl_umul (if negq then rl_uneg q else q) b))))"

definition rl_equal :: "rl_eval_ctx \<Rightarrow> rl_val \<Rightarrow> rl_val \<Rightarrow> bool option" where
  "rl_equal c a b =
    (case (a, b) of
       (VStr p n, VStr q m) \<Rightarrow> Some (n = m \<and> rl_memeq (ev_load c p n) (ev_load c q m) n)
     | (VInt x, VInt y) \<Rightarrow> Some (x = y)
     | (VBool x, VBool y) \<Rightarrow> Some (x = y)
     | _ \<Rightarrow> None)"

definition ints :: "(u64 \<Rightarrow> u64 \<Rightarrow> rl_evres) \<Rightarrow> rl_val \<Rightarrow> rl_val \<Rightarrow> rl_evres" where
  "ints f a b = (case (a, b) of (VInt x, VInt y) \<Rightarrow> f x y | _ \<Rightarrow> EvInternal)"

definition bools :: "(bool \<Rightarrow> bool \<Rightarrow> bool) \<Rightarrow> rl_val \<Rightarrow> rl_val \<Rightarrow> rl_evres" where
  "bools f a b = (case (a, b) of
     (VBool x, VBool y) \<Rightarrow> EvOk (rl_vbool (of_bool (f (x \<noteq> 0) (y \<noteq> 0)))) | _ \<Rightarrow> EvInternal)"

definition rl_binop :: "rl_eval_ctx \<Rightarrow> rl_op \<Rightarrow> rl_val \<Rightarrow> rl_val \<Rightarrow> rl_evres" where
  "rl_binop c op a b =
    (case op of
       RLOP_ADD \<Rightarrow> ints (\<lambda>x y. EvOk (rl_vint (rl_uadd x y))) a b
     | RLOP_SUB \<Rightarrow> ints (\<lambda>x y. EvOk (rl_vint (rl_usub x y))) a b
     | RLOP_MUL \<Rightarrow> ints (\<lambda>x y. EvOk (rl_vint (rl_umul x y))) a b
     | RLOP_DIV \<Rightarrow> ints (rl_divmod op) a b
     | RLOP_MOD \<Rightarrow> ints (rl_divmod op) a b
     | RLOP_EQ \<Rightarrow> (case rl_equal c a b of
           None \<Rightarrow> EvInternal | Some eq \<Rightarrow> EvOk (rl_vbool (of_bool eq)))
     | RLOP_NE \<Rightarrow> (case rl_equal c a b of
           None \<Rightarrow> EvInternal | Some eq \<Rightarrow> EvOk (rl_vbool (of_bool (\<not> eq))))
     | RLOP_LT \<Rightarrow> ints (\<lambda>x y. EvOk (rl_vbool (of_bool (rl_slt x y)))) a b
     | RLOP_GT \<Rightarrow> ints (\<lambda>x y. EvOk (rl_vbool (of_bool (rl_slt y x)))) a b
     | RLOP_LE \<Rightarrow> ints (\<lambda>x y. EvOk (rl_vbool (of_bool (\<not> rl_slt y x)))) a b
     | RLOP_GE \<Rightarrow> ints (\<lambda>x y. EvOk (rl_vbool (of_bool (\<not> rl_slt x y)))) a b
     | RLOP_AND \<Rightarrow> bools (\<and>) a b
     | RLOP_OR \<Rightarrow> bools (\<or>) a b
     | _ \<Rightarrow> EvInternal)"

definition rl_print :: "rl_eval_ctx \<Rightarrow> rl_val \<Rightarrow> rl_evres \<times> string list" where
  "rl_print c a =
    (case a of
       VUnit \<Rightarrow> (EvInternal, [])
     | VStr p n \<Rightarrow> (EvOk VUnit, if ev_emit c then [ev_load c p n] else [])
     | _ \<Rightarrow>
         let rbuf = rl_render (ev_load c) a 24 in
         if rbuf = [] then (EvInternal, [])
         else (EvOk VUnit, if ev_emit c then [rbuf] else []))"

definition rl_len :: "rl_val \<Rightarrow> rl_evres" where
  "rl_len a = (case a of VStr _ n \<Rightarrow> EvOk (rl_vint (of_nat n)) | _ \<Rightarrow> EvInternal)"

section \<open>The walk\<close>

text \<open>
  One turn of the loop: either the new walk stack, value stack and output, or the
  result the function returns with what was emitted before.
\<close>

datatype rl_turn = EvGo "nat list" "rl_val list" "string list" | EvStop rl_evres "string list"

definition ev_push ::
  "nat \<Rightarrow> nat list \<Rightarrow> rl_evres \<times> string list \<Rightarrow> rl_val list \<Rightarrow> string list \<Rightarrow> rl_turn" where
  "ev_push vcap w r vs out =
    (case r of
       (EvOk v, em) \<Rightarrow>
         if vcap \<le> length vs then EvStop EvInternal (out @ em) else EvGo w (v # vs) (out @ em)
     | (r', em) \<Rightarrow> EvStop r' (out @ em))"

abbreviation VISITED :: nat where "VISITED \<equiv> 32768"

definition ev_enter ::
  "rl_eval_ctx \<Rightarrow> rl_pool \<Rightarrow> nat \<Rightarrow> nat \<Rightarrow> nat \<Rightarrow> nat list \<Rightarrow> rl_val list \<Rightarrow> string list \<Rightarrow> rl_turn" where
  "ev_enter c pool wcap vcap i w vs out =
    (let nd = pool i in
     case n_kind nd of
       RLN_INT \<Rightarrow> ev_push vcap w (rl_leaf c nd, []) vs out
     | RLN_BOOL \<Rightarrow> ev_push vcap w (rl_leaf c nd, []) vs out
     | RLN_STR \<Rightarrow> ev_push vcap w (rl_leaf c nd, []) vs out
     | RLN_VAR \<Rightarrow> ev_push vcap w (rl_leaf c nd, []) vs out
     | RLN_BINOP \<Rightarrow>
         if n_k1 nd = RL_NONODE \<or> n_k2 nd = RL_NONODE then EvStop EvInternal out
         else if wcap < length w + 3 then EvStop EvInternal out
         else EvGo (n_k1 nd # n_k2 nd # (i + VISITED) # w) vs out
     | RLN_UNOP \<Rightarrow>
         if n_k1 nd = RL_NONODE then EvStop EvInternal out
         else if wcap < length w + 2 then EvStop EvInternal out
         else EvGo (n_k1 nd # (i + VISITED) # w) vs out
     | RLN_CALL \<Rightarrow>
         if n_k1 nd = RL_NONODE then EvStop EvInternal out
         else if wcap < length w + 2 then EvStop EvInternal out
         else EvGo (n_k1 nd # (i + VISITED) # w) vs out
     | RLN_LEN \<Rightarrow>
         if n_k1 nd = RL_NONODE then EvStop EvInternal out
         else if wcap < length w + 2 then EvStop EvInternal out
         else EvGo (n_k1 nd # (i + VISITED) # w) vs out
     | _ \<Rightarrow> EvStop EvInternal out)"

definition ev_leave ::
  "rl_eval_ctx \<Rightarrow> rl_pool \<Rightarrow> nat \<Rightarrow> nat \<Rightarrow> nat list \<Rightarrow> rl_val list \<Rightarrow> string list \<Rightarrow> rl_turn" where
  "ev_leave c pool vcap i w vs out =
    (let nd = pool i in
     case n_kind nd of
       RLN_UNOP \<Rightarrow> (case vs of
           a # vs' \<Rightarrow> ev_push vcap w (rl_unop (n_op nd) a, []) vs' out
         | _ \<Rightarrow> EvStop EvInternal out)
     | RLN_BINOP \<Rightarrow> (case vs of
           b # a # vs' \<Rightarrow> ev_push vcap w (rl_binop c (n_op nd) a b, []) vs' out
         | _ \<Rightarrow> EvStop EvInternal out)
     | RLN_CALL \<Rightarrow> (case vs of
           a # vs' \<Rightarrow> ev_push vcap w (rl_print c a) vs' out
         | _ \<Rightarrow> EvStop EvInternal out)
     | RLN_LEN \<Rightarrow> (case vs of
           a # vs' \<Rightarrow> ev_push vcap w (rl_len a, []) vs' out
         | _ \<Rightarrow> EvStop EvInternal out)
     | _ \<Rightarrow> EvStop EvInternal out)"

definition ev_turn ::
  "rl_eval_ctx \<Rightarrow> rl_pool \<Rightarrow> nat \<Rightarrow> nat \<Rightarrow> nat \<Rightarrow> nat list \<Rightarrow> rl_val list \<Rightarrow> string list \<Rightarrow> rl_turn" where
  "ev_turn c pool wcap vcap e w vs out =
    (let i = e mod VISITED; vis = e div VISITED mod 2 in
     if RL_POOL_MAX \<le> i then EvStop EvInternal out
     else if vis = 0 then ev_enter c pool wcap vcap i w vs out
     else ev_leave c pool vcap i w vs out)"

text \<open>
  The weight of a walk stack: an entry still to be entered counts \<open>3 ^ (wcap - h)\<close> at
  height \<open>h\<close>, an entry to be left counts one. Every turn of the loop lowers the sum.
\<close>

fun walk_weight :: "nat \<Rightarrow> nat list \<Rightarrow> nat" where
  "walk_weight wcap [] = 0"
| "walk_weight wcap (e # w) =
    (if e div VISITED mod 2 = 0 then 3 ^ (wcap - length w) else 1) + walk_weight wcap w"

lemma ev_push_walk: "ev_push vcap w r vs out = EvGo w' vs' out' \<Longrightarrow> w' = w"
  by (auto simp: ev_push_def split: prod.splits rl_evres.splits if_splits)

lemma enter_shapes:
  "ev_enter c pool wcap vcap i w vs out = EvGo w' vs' out' \<Longrightarrow>
    w' = w \<or> (\<exists>e. w' = e # (i + VISITED) # w \<and> length w + 2 \<le> wcap)
    \<or> (\<exists>e f. w' = e # f # (i + VISITED) # w \<and> length w + 3 \<le> wcap)"
  unfolding ev_enter_def Let_def
  by (cases "n_kind (pool i)") (auto split: if_splits dest: ev_push_walk)

lemma pow3_two:
  assumes "n + 2 \<le> m" shows "3 ^ (m - (n + 1)) + 1 < (3::nat) ^ (m - n)"
proof -
  obtain k where k: "m = n + 2 + k" using assms le_Suc_ex by blast
  have e: "m - (n + 1) = Suc k" "m - n = Suc (Suc k)" using k by simp_all
  have "(1::nat) \<le> 3 ^ k" by simp
  then show ?thesis by (simp only: e power_Suc)
qed

lemma pow3_three:
  assumes "n + 3 \<le> m"
  shows "3 ^ (m - (n + 2)) + (3 ^ (m - (n + 1)) + 1) < (3::nat) ^ (m - n)"
proof -
  obtain k where k: "m = n + 3 + k" using assms le_Suc_ex by blast
  have e: "m - (n + 2) = Suc k" "m - (n + 1) = Suc (Suc k)" "m - n = Suc (Suc (Suc k))"
    using k by simp_all
  have "(1::nat) \<le> 3 ^ k" by simp
  then show ?thesis by (simp only: e power_Suc)
qed

lemma walk_weight_le: "walk_weight wcap (e # w) \<le> 3 ^ (wcap - length w) + walk_weight wcap w"
  by simp

lemma ev_enter_weight:
  assumes "ev_enter c pool wcap vcap i w vs out = EvGo w' vs' out'" and "i < RL_POOL_MAX"
  shows "walk_weight wcap w' < 3 ^ (wcap - length w) + walk_weight wcap w"
proof -
  have vis: "(i + VISITED) div VISITED mod 2 \<noteq> 0" using assms(2) by (simp add: RL_POOL_MAX_def)
  then have v: "walk_weight wcap ((i + VISITED) # w) = 1 + walk_weight wcap w" by simp
  from enter_shapes [OF assms(1)] show ?thesis
  proof (elim disjE exE conjE)
    assume "w' = w"
    then show ?thesis by simp
  next
    fix e assume "w' = e # (i + VISITED) # w" "length w + 2 \<le> wcap"
    then show ?thesis
      using walk_weight_le [of wcap e "(i + VISITED) # w"] pow3_two [of "length w" wcap] v
      by simp
  next
    fix e f assume "w' = e # f # (i + VISITED) # w" "length w + 3 \<le> wcap"
    then show ?thesis
      using walk_weight_le [of wcap e "f # (i + VISITED) # w"]
        walk_weight_le [of wcap f "(i + VISITED) # w"] pow3_three [of "length w" wcap] v
      by simp
  qed
qed

lemma ev_turn_weight:
  assumes "ev_turn c pool wcap vcap e w vs out = EvGo w' vs' out'"
  shows "walk_weight wcap w' < walk_weight wcap (e # w)"
proof (cases "e div VISITED mod 2 = 0")
  case True
  then show ?thesis
    using assms ev_enter_weight [of c pool wcap vcap "e mod VISITED" w vs out w' vs' out']
    by (auto simp: ev_turn_def Let_def split: if_splits)
next
  case False
  then have "w' = w"
    using assms unfolding ev_turn_def ev_leave_def Let_def
    by (auto split: if_splits rl_nkind.splits list.splits dest: ev_push_walk)
  then show ?thesis using False by simp
qed

function ev_loop ::
  "rl_eval_ctx \<Rightarrow> rl_pool \<Rightarrow> nat \<Rightarrow> nat \<Rightarrow> nat list \<Rightarrow> rl_val list \<Rightarrow> string list
    \<Rightarrow> rl_evres \<times> string list" where
  "ev_loop c pool wcap vcap [] vs out =
    (case vs of [v] \<Rightarrow> (EvOk v, out) | _ \<Rightarrow> (EvInternal, out))"
| "ev_loop c pool wcap vcap (e # w) vs out =
    (case ev_turn c pool wcap vcap e w vs out of
       EvStop r out' \<Rightarrow> (r, out')
     | EvGo w' vs' out' \<Rightarrow> ev_loop c pool wcap vcap w' vs' out')"
  by pat_completeness auto
termination
  by (relation "measure (\<lambda>(c, pool, wcap, vcap, w, vs, out). walk_weight wcap w)")
    (simp_all only: wf_measure in_measure case_prod_conv ev_turn_weight)

declare ev_loop.simps(2) [simp del]

definition rl_eval :: "rl_eval_ctx \<Rightarrow> nat \<Rightarrow> rl_evres \<times> string list" where
  "rl_eval c root =
    (case (ev_pool c, ev_walk c, ev_vstack c) of
       (Some pool, Some wcap, Some vcap) \<Rightarrow>
         if root = RL_NONODE \<or> RL_POOL_MAX \<le> root then (EvInternal, [])
         else if wcap = 0 \<or> vcap = 0 then (EvInternal, [])
         else ev_loop c pool wcap vcap [root] [] []
     | _ \<Rightarrow> (EvInternal, []))"

section \<open>Expression trees and the recursive evaluator\<close>

text \<open>
  The tree a node index stands for, when every child was made before its parent: the
  shape the parser builds. Command, pipeline, let and word nodes are no expressions.
\<close>

datatype rl_exp =
    ELeaf rl_node
  | EUn rl_op rl_exp
  | EBin rl_op rl_exp rl_exp
  | EPrint rl_exp
  | ELen rl_exp

definition leaf_kinds :: "rl_nkind list" where
  "leaf_kinds = [RLN_INT, RLN_BOOL, RLN_STR, RLN_VAR]"

function exp_at :: "rl_pool \<Rightarrow> nat \<Rightarrow> rl_exp option" where
  "exp_at pool i =
    (let nd = pool i in
     case n_kind nd of
       RLN_UNOP \<Rightarrow> if n_k1 nd < i then map_option (EUn (n_op nd)) (exp_at pool (n_k1 nd)) else None
     | RLN_CALL \<Rightarrow> if n_k1 nd < i then map_option EPrint (exp_at pool (n_k1 nd)) else None
     | RLN_LEN \<Rightarrow> if n_k1 nd < i then map_option ELen (exp_at pool (n_k1 nd)) else None
     | RLN_BINOP \<Rightarrow>
         if n_k1 nd < i \<and> n_k2 nd < i then
           case (exp_at pool (n_k1 nd), exp_at pool (n_k2 nd)) of
             (Some l, Some r) \<Rightarrow> Some (EBin (n_op nd) l r) | _ \<Rightarrow> None
         else None
     | _ \<Rightarrow> if n_kind nd \<in> set leaf_kinds then Some (ELeaf nd) else None)"
  by pat_completeness auto
termination by (relation "measure snd") auto

declare exp_at.simps [simp del]

text \<open>
  The evaluator the walk is compared with recurses over the tree. Its two extra arguments
  are the room left on the walk stack and on the value stack, which every node checks as
  the loop does.
\<close>

definition ev_then ::
  "rl_evres \<times> string list \<Rightarrow> (rl_val \<Rightarrow> rl_evres \<times> string list) \<Rightarrow> rl_evres \<times> string list" where
  "ev_then r f = (case r of (EvOk v, out) \<Rightarrow> (case f v of (r', out') \<Rightarrow> (r', out @ out')) | _ \<Rightarrow> r)"

fun eval_exp :: "rl_eval_ctx \<Rightarrow> nat \<Rightarrow> nat \<Rightarrow> rl_exp \<Rightarrow> rl_evres \<times> string list" where
  "eval_exp c wr vr (ELeaf nd) =
    (case rl_leaf c nd of
       EvOk v \<Rightarrow> if vr = 0 then (EvInternal, []) else (EvOk v, [])
     | r \<Rightarrow> (r, []))"
| "eval_exp c wr vr (EUn op t) =
    (if wr < 2 then (EvInternal, [])
     else ev_then (eval_exp c (wr - 1) vr t) (\<lambda>a. (rl_unop op a, [])))"
| "eval_exp c wr vr (EBin op l r) =
    (if wr < 3 then (EvInternal, [])
     else ev_then (eval_exp c (wr - 2) vr l) (\<lambda>a.
          ev_then (eval_exp c (wr - 1) (vr - 1) r) (\<lambda>b. (rl_binop c op a b, []))))"
| "eval_exp c wr vr (EPrint t) =
    (if wr < 2 then (EvInternal, [])
     else ev_then (eval_exp c (wr - 1) vr t) (rl_print c))"
| "eval_exp c wr vr (ELen t) =
    (if wr < 2 then (EvInternal, [])
     else ev_then (eval_exp c (wr - 1) vr t) (\<lambda>a. (rl_len a, [])))"

lemma eval_exp_room: "eval_exp c wr vr t = (EvOk v, out) \<Longrightarrow> 0 < vr"
  by (induction t arbitrary: wr v out)
    (auto simp: ev_then_def split: rl_evres.splits if_splits prod.splits)

definition ev_continue ::
  "rl_eval_ctx \<Rightarrow> rl_pool \<Rightarrow> nat \<Rightarrow> nat \<Rightarrow> nat list \<Rightarrow> rl_val list \<Rightarrow> string list
    \<Rightarrow> rl_evres \<times> string list \<Rightarrow> rl_evres \<times> string list" where
  "ev_continue c pool wcap vcap w vs out r =
    (case r of
       (EvOk v, em) \<Rightarrow> ev_loop c pool wcap vcap w (v # vs) (out @ em)
     | (r', em) \<Rightarrow> (r', out @ em))"

lemma ev_loop_push:
  assumes "ev_turn c pool wcap vcap e w vs out = ev_push vcap w r vs' out" "length vs' < vcap"
  shows "ev_loop c pool wcap vcap (e # w) vs out = ev_continue c pool wcap vcap w vs' out r"
  using assms
  by (auto simp: ev_loop.simps ev_push_def ev_continue_def split: prod.splits rl_evres.splits)

lemma leave_turn: "i < RL_POOL_MAX \<Longrightarrow>
    ev_turn c pool wcap vcap (i + VISITED) w vs out = ev_leave c pool vcap i w vs out"
proof -
  assume "i < RL_POOL_MAX"
  then have "i < VISITED" by (simp add: RL_POOL_MAX_def)
  then have "(i + VISITED) div VISITED = 1" "(i + VISITED) mod VISITED = i" by (simp_all add: div_nat_eqI)
  with \<open>i < RL_POOL_MAX\<close> show ?thesis by (simp add: ev_turn_def)
qed

lemma enter_turn: "i < RL_POOL_MAX \<Longrightarrow>
    ev_turn c pool wcap vcap i w vs out = ev_enter c pool wcap vcap i w vs out"
  by (simp add: ev_turn_def RL_POOL_MAX_def)

lemma ev_continue_then:
  "ev_continue c pool wcap vcap w vs (out @ em) (f v) =
    ev_continue c pool wcap vcap w vs out (ev_then (EvOk v, em) f)"
  by (simp add: ev_continue_def ev_then_def split: prod.splits rl_evres.splits)

lemma ev_loop_unary:
  assumes "n_kind (pool i) \<in> {RLN_UNOP, RLN_CALL, RLN_LEN}" "n_k1 (pool i) < i" "i < RL_POOL_MAX"
    and leave: "\<And>a vs out. ev_leave c pool vcap i w (a # vs) out = ev_push vcap w (f a) vs out"
    and IH: "\<And>w vs out. ev_loop c pool wcap vcap (n_k1 (pool i) # w) vs out =
      ev_continue c pool wcap vcap w vs out (eval_exp c (wcap - length w) (vcap - length vs) t)"
  shows "ev_loop c pool wcap vcap (i # w) vs out = ev_continue c pool wcap vcap w vs out
    (if wcap - length w < 2 then (EvInternal, [])
     else ev_then (eval_exp c (wcap - length w - 1) (vcap - length vs) t) f)"
proof (cases "wcap - length w < 2")
  case True
  then show ?thesis using assms(1-3)
    by (auto simp: ev_loop.simps enter_turn ev_enter_def ev_continue_def Let_def)
next
  case False
  let ?r = "eval_exp c (wcap - length w - 1) (vcap - length vs) t"
  have "ev_loop c pool wcap vcap (i # w) vs out
      = ev_loop c pool wcap vcap (n_k1 (pool i) # (i + VISITED) # w) vs out"
    using assms(1-3) False
    by (auto simp: ev_loop.simps(2) [of c pool wcap vcap i] enter_turn ev_enter_def RL_NONODE_def
        RL_POOL_MAX_def)
  also have "\<dots> = ev_continue c pool wcap vcap ((i + VISITED) # w) vs out ?r"
    by (simp add: IH)
  also have "\<dots> = ev_continue c pool wcap vcap w vs out (ev_then ?r f)"
  proof (cases "\<exists>v em. ?r = (EvOk v, em)")
    case True
    then obtain v em where r: "?r = (EvOk v, em)" by blast
    from eval_exp_room [OF r] have "length vs < vcap" by simp
    moreover have "ev_turn c pool wcap vcap (i + VISITED) w (v # vs) (out @ em)
        = ev_push vcap w (f v) vs (out @ em)"
      by (simp add: leave_turn assms(3) leave)
    ultimately have "ev_loop c pool wcap vcap ((i + VISITED) # w) (v # vs) (out @ em)
        = ev_continue c pool wcap vcap w vs (out @ em) (f v)" by (intro ev_loop_push)
    then show ?thesis using r by (simp add: ev_continue_then) (simp add: ev_continue_def)
  next
    case False
    then show ?thesis
      by (cases ?r) (auto simp: ev_continue_def ev_then_def split: rl_evres.splits)
  qed
  finally show ?thesis using False by simp
qed

lemma ev_loop_binary:
  assumes "n_kind (pool i) = RLN_BINOP" "n_k1 (pool i) < i" "n_k2 (pool i) < i" "i < RL_POOL_MAX"
    and IH1: "\<And>w vs out. ev_loop c pool wcap vcap (n_k1 (pool i) # w) vs out =
      ev_continue c pool wcap vcap w vs out (eval_exp c (wcap - length w) (vcap - length vs) l)"
    and IH2: "\<And>w vs out. ev_loop c pool wcap vcap (n_k2 (pool i) # w) vs out =
      ev_continue c pool wcap vcap w vs out (eval_exp c (wcap - length w) (vcap - length vs) r)"
  shows "ev_loop c pool wcap vcap (i # w) vs out = ev_continue c pool wcap vcap w vs out
    (eval_exp c (wcap - length w) (vcap - length vs) (EBin (n_op (pool i)) l r))"
proof (cases "wcap - length w < 3")
  case True
  then show ?thesis using assms(1-4)
    by (auto simp: ev_loop.simps enter_turn ev_enter_def ev_continue_def Let_def)
next
  case False
  let ?l = "eval_exp c (wcap - length w - 2) (vcap - length vs) l"
  let ?r = "eval_exp c (wcap - length w - 1) (vcap - length vs - 1) r"
  have start: "ev_loop c pool wcap vcap (i # w) vs out
      = ev_continue c pool wcap vcap (n_k2 (pool i) # (i + VISITED) # w) vs out ?l"
    using assms(1-4) False
    by (auto simp: ev_loop.simps(2) [of c pool wcap vcap i] enter_turn ev_enter_def RL_NONODE_def
        RL_POOL_MAX_def IH1 Let_def)
  show ?thesis
  proof (cases "\<exists>a em. ?l = (EvOk a, em)")
    case True
    then obtain a em where l: "?l = (EvOk a, em)" by blast
    have second: "ev_loop c pool wcap vcap (i # w) vs out
        = ev_continue c pool wcap vcap ((i + VISITED) # w) (a # vs) (out @ em) ?r"
      unfolding start l by (simp add: ev_continue_def [of _ _ _ _ "_ # _ # _"] IH2)
    show ?thesis
    proof (cases "\<exists>b em'. ?r = (EvOk b, em')")
      case True
      then obtain b em' where r: "?r = (EvOk b, em')" by blast
      from eval_exp_room [OF r] have "length vs < vcap" by simp
      moreover have "ev_turn c pool wcap vcap (i + VISITED) w (b # a # vs) (out @ em @ em')
          = ev_push vcap w (rl_binop c (n_op (pool i)) a b, []) vs (out @ em @ em')"
        using assms(1,4) by (simp add: leave_turn ev_leave_def)
      ultimately have "ev_loop c pool wcap vcap ((i + VISITED) # w) (b # a # vs) (out @ em @ em')
          = ev_continue c pool wcap vcap w vs (out @ em @ em') (rl_binop c (n_op (pool i)) a b, [])"
        by (intro ev_loop_push)
      then show ?thesis using second r l False
        by (simp add: ev_then_def ev_continue_def split: rl_evres.splits)
    next
      case rf: False
      then show ?thesis using second l False
        by (cases ?r) (auto simp: ev_continue_def ev_then_def split: rl_evres.splits)
    qed
  next
    case lf: False
    then show ?thesis using start False
      by (cases ?l) (auto simp: ev_continue_def ev_then_def split: rl_evres.splits)
  qed
qed

lemma exp_at_cases:
  assumes "exp_at pool i = Some t"
  obtains (leaf) nd where "t = ELeaf nd" "nd = pool i" "n_kind nd \<in> set leaf_kinds"
  | (un) op t1 where "t = EUn op t1" "n_kind (pool i) = RLN_UNOP" "op = n_op (pool i)"
      "n_k1 (pool i) < i" "exp_at pool (n_k1 (pool i)) = Some t1"
  | (bin) op l r where "t = EBin op l r" "n_kind (pool i) = RLN_BINOP" "op = n_op (pool i)"
      "n_k1 (pool i) < i" "n_k2 (pool i) < i" "exp_at pool (n_k1 (pool i)) = Some l"
      "exp_at pool (n_k2 (pool i)) = Some r"
  | (print) t1 where "t = EPrint t1" "n_kind (pool i) = RLN_CALL"
      "n_k1 (pool i) < i" "exp_at pool (n_k1 (pool i)) = Some t1"
  | (len) t1 where "t = ELen t1" "n_kind (pool i) = RLN_LEN"
      "n_k1 (pool i) < i" "exp_at pool (n_k1 (pool i)) = Some t1"
  using assms
  by (cases "n_kind (pool i)")
    (auto simp: exp_at.simps [of pool i] Let_def leaf_kinds_def split: if_splits option.splits)

lemma ev_loop_exp:
  assumes "exp_at pool i = Some t" "i < RL_POOL_MAX"
  shows "ev_loop c pool wcap vcap (i # w) vs out =
    ev_continue c pool wcap vcap w vs out (eval_exp c (wcap - length w) (vcap - length vs) t)"
  using assms
proof (induction i arbitrary: t w vs out rule: less_induct)
  case (less i)
  from less.prems(1) show ?case
  proof (cases rule: exp_at_cases)
    case (leaf nd)
    then show ?thesis using less.prems(2)
      by (auto simp: ev_loop.simps enter_turn ev_enter_def leaf_kinds_def ev_push_def
          ev_continue_def split: rl_evres.splits)
  next
    case (un op t1)
    note IH = less.IH [OF un(4,5)]
    show ?thesis unfolding un(1) eval_exp.simps
      using un(2-4) less.prems(2) IH
      by (intro ev_loop_unary) (auto simp: ev_leave_def)
  next
    case (bin op l r)
    note IH1 = less.IH [OF bin(4,6)] and IH2 = less.IH [OF bin(5,7)]
    show ?thesis unfolding bin(1,3)
      using bin(2,4,5) less.prems(2) IH1 IH2
      by (intro ev_loop_binary) auto
  next
    case (print t1)
    note IH = less.IH [OF print(3,4)]
    show ?thesis unfolding print(1) eval_exp.simps
      using print(2,3) less.prems(2) IH
      by (intro ev_loop_unary) (auto simp: ev_leave_def)
  next
    case (len t1)
    note IH = less.IH [OF len(3,4)]
    show ?thesis unfolding len(1) eval_exp.simps
      using len(2,3) less.prems(2) IH
      by (intro ev_loop_unary) (auto simp: ev_leave_def)
  qed
qed

lemma rl_eval_exp:
  assumes "ev_pool c = Some pool" "ev_walk c = Some wcap" "ev_vstack c = Some vcap"
    and "0 < wcap" "0 < vcap" "exp_at pool i = Some t" "i < RL_POOL_MAX"
  shows "rl_eval c i = eval_exp c wcap vcap t"
proof -
  have "rl_eval c i = ev_loop c pool wcap vcap [i] [] []"
    using assms by (simp add: rl_eval_def RL_NONODE_def RL_POOL_MAX_def)
  also have "\<dots> = eval_exp c wcap vcap t"
    using ev_loop_exp [OF assms(6,7), of c wcap vcap "[]" "[]" "[]"]
    by (auto simp: ev_continue_def split: prod.splits rl_evres.splits)
  finally show ?thesis .
qed

section \<open>Stack room\<close>

text \<open>How many entries of the two stacks a tree needs, and its value when there is room.\<close>

fun vneed :: "rl_exp \<Rightarrow> nat" where
  "vneed (ELeaf _) = 1"
| "vneed (EUn _ t) = vneed t"
| "vneed (EBin _ l r) = max (vneed l) (vneed r + 1)"
| "vneed (EPrint t) = vneed t"
| "vneed (ELen t) = vneed t"

fun wneed :: "rl_exp \<Rightarrow> nat" where
  "wneed (ELeaf _) = 1"
| "wneed (EUn _ t) = wneed t + 1"
| "wneed (EBin _ l r) = max (wneed l + 2) (wneed r + 1)"
| "wneed (EPrint t) = wneed t + 1"
| "wneed (ELen t) = wneed t + 1"

fun eval_tree :: "rl_eval_ctx \<Rightarrow> rl_exp \<Rightarrow> rl_evres \<times> string list" where
  "eval_tree c (ELeaf nd) = (rl_leaf c nd, [])"
| "eval_tree c (EUn op t) = ev_then (eval_tree c t) (\<lambda>a. (rl_unop op a, []))"
| "eval_tree c (EBin op l r) =
    ev_then (eval_tree c l) (\<lambda>a. ev_then (eval_tree c r) (\<lambda>b. (rl_binop c op a b, [])))"
| "eval_tree c (EPrint t) = ev_then (eval_tree c t) (rl_print c)"
| "eval_tree c (ELen t) = ev_then (eval_tree c t) (\<lambda>a. (rl_len a, []))"

lemma vneed_pos: "0 < vneed t"
  by (induction t) auto

lemma wneed_pos: "0 < wneed t"
  by (induction t) auto

lemma eval_exp_tree: "wneed t \<le> wr \<Longrightarrow> vneed t \<le> vr \<Longrightarrow> eval_exp c wr vr t = eval_tree c t"
proof (induction t arbitrary: wr vr)
  case (EUn op t)
  then show ?case using wneed_pos [of t] by simp
next
  case (EBin op l r)
  then have "wneed l + 2 \<le> wr" "wneed r + 1 \<le> wr" "vneed l \<le> vr" "vneed r + 1 \<le> vr"
    by (simp_all only: wneed.simps vneed.simps max.bounded_iff)
  then show ?case using EBin.IH wneed_pos [of l] by simp
next
  case (EPrint t)
  then show ?case using wneed_pos [of t] by simp
next
  case (ELen t)
  then show ?case using wneed_pos [of t] by simp
qed (auto split: rl_evres.splits)

text \<open>Without the room, a tree that would have a value makes the walk give up.\<close>

lemma ev_then_Ok: "fst (ev_then r f) = EvOk v \<Longrightarrow> \<exists>a out. r = (EvOk a, out) \<and> fst (f a) = EvOk v"
  by (auto simp: ev_then_def split: prod.splits rl_evres.splits)

lemma ev_then_internal: "fst r = EvInternal \<Longrightarrow> fst (ev_then r f) = EvInternal"
  by (cases r) (simp add: ev_then_def)

lemma eval_exp_overflow:
  "wneed t \<le> wr \<Longrightarrow> vr < vneed t \<Longrightarrow> fst (eval_tree c t) = EvOk v \<Longrightarrow>
    fst (eval_exp c wr vr t) = EvInternal"
proof (induction t arbitrary: wr vr v)
  case (EBin op l r)
  obtain a out where l: "eval_tree c l = (EvOk a, out)"
    and rest: "fst (ev_then (eval_tree c r) (\<lambda>b. (rl_binop c op a b, []))) = EvOk v"
    using ev_then_Ok EBin.prems(3) by fastforce
  from ev_then_Ok [OF rest] obtain b where r: "fst (eval_tree c r) = EvOk b" by auto
  have w: "wneed l \<le> wr - 2" "wneed r \<le> wr - 1" "\<not> wr < 3"
    using EBin.prems(1) wneed_pos [of l] by auto
  show ?case
  proof (cases "vr < vneed l")
    case True
    then show ?thesis using EBin.IH(1) [OF w(1) True, of a] l w(3) by (simp add: ev_then_internal)
  next
    case False
    then have "vr - 1 < vneed r" using EBin.prems(2) vneed_pos [of l] by auto
    from EBin.IH(2) [OF w(2) this r] False w l show ?thesis
      by (auto simp: eval_exp_tree ev_then_def split: prod.splits rl_evres.splits)
  qed
qed (use wneed_pos in \<open>auto dest!: ev_then_Ok intro!: ev_then_internal split: rl_evres.splits\<close>)

lemma eval_exp_or_internal: "fst (eval_exp c wr vr t) = EvInternal \<or> eval_exp c wr vr t = eval_tree c t"
proof (induction t arbitrary: wr vr)
  case (EBin op l r)
  show ?case
    using EBin.IH(1) [of "wr - 2" vr] EBin.IH(2) [of "wr - 1" "vr - 1"]
    by (auto simp: ev_then_def split: prod.splits rl_evres.splits)
next
  case (EUn op t)
  show ?case using EUn.IH [of "wr - 1" vr] by (auto simp: ev_then_internal)
next
  case (EPrint t)
  show ?case using EPrint.IH [of "wr - 1" vr] by (auto simp: ev_then_internal)
next
  case (ELen t)
  show ?case using ELen.IH [of "wr - 1" vr] by (auto simp: ev_then_internal)
qed (auto split: rl_evres.splits)

lemma exp_at_wneed: "exp_at pool i = Some t \<Longrightarrow> wneed t \<le> 2 * i + 1"
proof (induction i arbitrary: t rule: less_induct)
  case (less i)
  from less.prems show ?case
    by (cases rule: exp_at_cases) (use less.IH in fastforce)+
qed

section \<open>Integer semantics\<close>

lemma and_mask64 [simp]: "a AND RL_MASK64 = a"
proof -
  have m: "RL_MASK64 = - 1" by (simp add: RL_MASK64_def)
  show ?thesis by (subst m) simp
qed

lemma rl_vint_eq [simp]: "rl_vint b = VInt b"
  by (simp add: rl_vint_def)

lemma rl_slt_sint: "rl_slt a b = (sint a < sint b)"
proof -
  have "(if 2 ^ 63 \<le> x then x - 2 ^ 63 else x + 2 ^ 63) < (if 2 ^ 63 \<le> y then y - 2 ^ 63 else y + 2 ^ 63)
      \<longleftrightarrow> (if 2 ^ 63 \<le> x then int x - 2 ^ 64 else int x) < (if 2 ^ 63 \<le> y then int y - 2 ^ 64 else int y)"
    if "x < 2 ^ 64" "y < 2 ^ 64" for x y :: nat
    using that by auto
  moreover have "unat a < 2 ^ 64" "unat b < 2 ^ 64" by simp_all
  ultimately show ?thesis
    by (simp only: rl_slt_def RL_SIGNBIT_def word_less_nat_alt xor_signbit sint_u64)
qed

lemma word_of_sint: "(a :: u64) = word_of_int (sint a)"
  by simp

lemma rl_uneg_eq: "rl_uneg a = 0 - a"
  by (simp add: rl_uneg_def)

text \<open>The quotient of the magnitudes, with its sign restored, is the truncated quotient.\<close>

lemma rl_divmod_quotient:
  assumes "b \<noteq> 0"
  shows "(if (a AND RL_SIGNBIT \<noteq> 0) \<noteq> (b AND RL_SIGNBIT \<noteq> 0)
     then rl_uneg (rl_udivmag (if a AND RL_SIGNBIT \<noteq> 0 then rl_uneg a else a)
       (if b AND RL_SIGNBIT \<noteq> 0 then rl_uneg b else b))
     else rl_udivmag (if a AND RL_SIGNBIT \<noteq> 0 then rl_uneg a else a)
       (if b AND RL_SIGNBIT \<noteq> 0 then rl_uneg b else b)) = word_of_int (sint a sdiv sint b)"
proof -
  have sgn: "x AND RL_SIGNBIT \<noteq> 0 \<longleftrightarrow> sint x < 0" for x
    unfolding RL_SIGNBIT_def by (rule signbit_sint)
  have mag: "uint (if sint x < 0 then rl_uneg x else x) = \<bar>sint x\<bar>" for x
    using unat_abs_u64 [of x] by (simp only: uint_nat signbit_sint rl_uneg_eq)
  have sb: "sint b \<noteq> 0" using assms by (simp add: signed_eq_0_iff)
  then have "(if sint b < 0 then rl_uneg b else b) \<noteq> 0" using mag [of b] by (auto simp: uint_0_iff)
  then have q: "rl_udivmag (if sint a < 0 then rl_uneg a else a) (if sint b < 0 then rl_uneg b else b)
      = word_of_int (\<bar>sint a\<bar> div \<bar>sint b\<bar>)"
    by (simp only: rl_udivmag_def word_div_def mag if_False)
  show ?thesis
  proof (cases "sint a = 0")
    case True
    then show ?thesis unfolding sgn q by (simp add: rl_uneg_eq)
  next
    case False
    then show ?thesis unfolding sgn q using sb
      by (auto simp: rl_uneg_eq signed_divide_int_def sgn_if)
  qed
qed

lemma rl_divmod_eq:
  assumes "b \<noteq> 0" "\<not> (a = RL_INT_MIN \<and> b = RL_MASK64)"
  shows "rl_divmod RLOP_DIV a b = EvOk (VInt (word_of_int (sint a sdiv sint b)))"
    and "rl_divmod RLOP_MOD a b = EvOk (VInt (word_of_int (sint a smod sint b)))"
proof -
  have trap: "(b = 0 \<or> (a = RL_INT_MIN \<and> b = RL_MASK64)) = False" using assms by simp
  note eq = rl_divmod_def Let_def trap if_False rl_divmod_quotient [OF assms(1)] rl_vint_eq
  show "rl_divmod RLOP_DIV a b = EvOk (VInt (word_of_int (sint a sdiv sint b)))"
    by (simp only: eq) simp
  have "rl_usub a (rl_umul (word_of_int (sint a sdiv sint b)) b)
      = word_of_int (sint a) - word_of_int (sint a sdiv sint b) * word_of_int (sint b)"
    by (simp add: rl_usub_def rl_umul_def)
  also have "\<dots> = word_of_int (sint a - sint a sdiv sint b * sint b)"
    by (simp only: of_int_diff of_int_mult)
  also have "sint a - sint a sdiv sint b * sint b = sint a smod sint b"
    using sdiv_mult_smod_eq [of "sint a" "sint b"] by simp
  finally show "rl_divmod RLOP_MOD a b = EvOk (VInt (word_of_int (sint a smod sint b)))"
    by (simp only: eq) simp
qed

section \<open>Properties\<close>

text \<open>
  (C17) The iterative walk is the recursive evaluator. On a context whose pool holds an
  expression tree at the root, \<^verbatim>\<open>rl_eval\<close> returns and emits what the recursion over the
  tree returns and emits, where each node finds the room the two bounded stacks leave it;
  when the stacks have the room the tree needs, the capacities do not matter at all.
\<close>
theorem rl_eval_recursive:
  assumes "ev_pool c = Some pool" and "ev_walk c = Some wcap" and "ev_vstack c = Some vcap"
    and "0 < wcap" and "0 < vcap" and "exp_at pool root = Some t" and "root < RL_POOL_MAX"
  shows "rl_eval c root = eval_exp c wcap vcap t
    \<and> (wneed t \<le> wcap \<and> vneed t \<le> vcap \<longrightarrow> rl_eval c root = eval_tree c t)"
  using rl_eval_exp [OF assms] by (simp add: eval_exp_tree)

definition demo_node :: "rl_nkind \<Rightarrow> rl_op \<Rightarrow> nat \<Rightarrow> nat \<Rightarrow> nat \<Rightarrow> rl_node" where
  "demo_node k op e1 k1 k2 = \<lparr>n_kind = k, n_vtype = RLV_UNKNOWN, n_op = op, n_aux = 0, n_e1 = e1,
     n_e2 = 0, n_k1 = k1, n_k2 = k2\<rparr>"

definition demo_pool :: rl_pool where
  "demo_pool i = (if i = 0 then demo_node RLN_INT RLOP_NONE 7 RL_NONODE RL_NONODE
     else if i = 1 then demo_node RLN_UNOP RLOP_NEG 0 0 RL_NONODE
     else demo_node RLN_BINOP RLOP_SUB 0 1 0)"

definition demo_ctx :: "nat \<Rightarrow> rl_eval_ctx" where
  "demo_ctx vcap = \<lparr>ev_pool = Some demo_pool, ev_strbase = None, ev_syms = None, ev_nsyms = 0,
     ev_arena = None, ev_walk = Some 8, ev_vstack = Some vcap, ev_emit = False\<rparr>"

theorem rl_eval_recursive_witness:
  "rl_eval (demo_ctx 2) 2 = (EvOk (VInt (- 14)), [])"
proof -
  have t: "exp_at demo_pool 2 = Some (EBin RLOP_SUB (EUn RLOP_NEG (ELeaf (demo_pool 0)))
      (ELeaf (demo_pool 0)))"
    by (simp add: exp_at.simps demo_pool_def demo_node_def leaf_kinds_def)
  have "rl_eval (demo_ctx 2) 2 = eval_tree (demo_ctx 2)
      (EBin RLOP_SUB (EUn RLOP_NEG (ELeaf (demo_pool 0))) (ELeaf (demo_pool 0)))"
    using rl_eval_recursive [OF _ _ _ _ _ t, of "demo_ctx 2" 8 2, THEN conjunct2]
    by (simp add: demo_ctx_def RL_POOL_MAX_def)
  then show ?thesis
    by (simp add: ev_then_def demo_pool_def demo_node_def rl_leaf_def rl_unop_def rl_binop_def
        ints_def rl_uneg_def rl_usub_def)
qed

text \<open>
  (C18) The integer operators, which use unsigned arithmetic only, have the signed
  semantics the contract freezes: addition, subtraction and multiplication wrap to 64 bits,
  comparisons are signed, division truncates toward zero and the remainder takes the sign
  of the dividend, and division traps exactly on a zero divisor and on the most negative
  integer divided by minus one.
\<close>
theorem rl_int_semantics:
  "rl_binop c RLOP_ADD (VInt a) (VInt b) = EvOk (VInt (word_of_int (sint a + sint b)))
   \<and> rl_binop c RLOP_SUB (VInt a) (VInt b) = EvOk (VInt (word_of_int (sint a - sint b)))
   \<and> rl_binop c RLOP_MUL (VInt a) (VInt b) = EvOk (VInt (word_of_int (sint a * sint b)))
   \<and> rl_binop c RLOP_LT (VInt a) (VInt b) = EvOk (VBool (of_bool (sint a < sint b)))
   \<and> rl_binop c RLOP_GT (VInt a) (VInt b) = EvOk (VBool (of_bool (sint b < sint a)))
   \<and> rl_binop c RLOP_LE (VInt a) (VInt b) = EvOk (VBool (of_bool (sint a \<le> sint b)))
   \<and> rl_binop c RLOP_GE (VInt a) (VInt b) = EvOk (VBool (of_bool (sint b \<le> sint a)))
   \<and> rl_binop c RLOP_DIV (VInt a) (VInt b) =
      (if sint b = 0 \<or> (sint a = - (2 ^ 63) \<and> sint b = - 1) then EvTrap
       else EvOk (VInt (word_of_int (sint a sdiv sint b))))
   \<and> rl_binop c RLOP_MOD (VInt a) (VInt b) =
      (if sint b = 0 \<or> (sint a = - (2 ^ 63) \<and> sint b = - 1) then EvTrap
       else EvOk (VInt (word_of_int (sint a smod sint b))))"
proof -
  have bool: "rl_vbool (of_bool P) = VBool (of_bool P)" for P by (simp add: rl_vbool_def)
  have trap: "(sint b = 0 \<or> (sint a = - (2 ^ 63) \<and> sint b = - 1))
      = (b = 0 \<or> (a = RL_INT_MIN \<and> b = RL_MASK64))"
  proof -
    have "sint RL_INT_MIN = - (2 ^ 63)" "sint RL_MASK64 = - 1"
      by (simp_all add: RL_INT_MIN_def RL_MASK64_def sint_u64)
    moreover have "sint x = sint y \<longleftrightarrow> x = y" for x y :: u64
      by (metis word_of_sint)
    ultimately have "(sint a = - (2 ^ 63)) = (a = RL_INT_MIN)" "(sint b = - 1) = (b = RL_MASK64)"
      by metis+
    then show ?thesis by (simp add: signed_eq_0_iff)
  qed
  show ?thesis
    unfolding trap
    using rl_divmod_eq [of b a]
    by (auto simp: rl_binop_def ints_def rl_uadd_def rl_usub_def rl_umul_def rl_slt_sint bool
        not_less rl_divmod_def [of _ _ 0] rl_divmod_def [of _ RL_INT_MIN RL_MASK64])
qed

text \<open>
  (C25) The walk always ends. Whatever the pool holds, also cycles and dangling indices, no
  sequence of turns of the evaluator's loop is infinite, because an entry is only replaced
  by entries that stand higher on the bounded walk stack.
\<close>
theorem rl_walk_terminates:
  "wf {((w', vs', out'), (e # w, vs, out)) | w' vs' out' e w vs out.
    ev_turn c pool wcap vcap e w vs out = EvGo w' vs' out'}"
proof (rule wf_subset [of "measure (\<lambda>(w, vs, out). walk_weight wcap w)"])
  show "{((w', vs', out'), (e # w, vs, out)) | w' vs' out' e w vs out.
      ev_turn c pool wcap vcap e w vs out = EvGo w' vs' out'}
    \<subseteq> measure (\<lambda>(w, vs, out). walk_weight wcap w)"
    using ev_turn_weight by fastforce
qed simp


text \<open>
  (C22) The value stack is exact. For a tree whose evaluation succeeds and whose walk fits,
  \<^verbatim>\<open>rl_eval\<close> returns the value exactly when the value stack holds one entry per nested right
  operand; with a shorter stack it reports an internal error on this legal expression. The
  need is not bounded by the nesting of parentheses, since every binary operator with a
  right operand still to come keeps its left value on the stack.
\<close>
theorem rl_value_stack_exact:
  assumes "ev_pool c = Some pool" and "ev_walk c = Some wcap" and "ev_vstack c = Some vcap"
    and "0 < vcap" and "exp_at pool root = Some t" and "root < RL_POOL_MAX"
    and "wneed t \<le> wcap" and "fst (eval_tree c t) = EvOk v"
  shows "fst (rl_eval c root) = (if vneed t \<le> vcap then EvOk v else EvInternal)"
proof -
  have "0 < wcap" using wneed_pos [of t] assms(7) by simp
  from rl_eval_exp [OF assms(1-3) this assms(4-6)] show ?thesis
    using eval_exp_tree [OF assms(7), of vcap c] eval_exp_overflow [OF assms(7) _ assms(8), of vcap] assms(8)
    by (simp add: not_le)
qed

text \<open>
  A right-nested sum of 66 additions of the literal one, evaluated with the 512 walk entries
  and 66 value entries that \<^verbatim>\<open>rl_submit\<close> provides.
\<close>

definition spine_pool :: rl_pool where
  "spine_pool i = (if i = 0 then demo_node RLN_INT RLOP_NONE 1 RL_NONODE RL_NONODE
     else demo_node RLN_BINOP RLOP_ADD 0 0 (i - 1))"

definition spine_ctx :: rl_eval_ctx where
  "spine_ctx = (demo_ctx 66)\<lparr>ev_pool := Some spine_pool, ev_walk := Some 512\<rparr>"

primrec spine :: "nat \<Rightarrow> rl_exp" where
  "spine 0 = ELeaf (spine_pool 0)"
| "spine (Suc n) = EBin RLOP_ADD (ELeaf (spine_pool 0)) (spine n)"

lemma exp_at_spine: "exp_at spine_pool n = Some (spine n)"
proof (induction n)
  case 0
  have "n_kind (spine_pool 0) = RLN_INT" by (simp add: spine_pool_def demo_node_def)
  then show ?case by (simp add: exp_at.simps [of spine_pool 0] leaf_kinds_def)
next
  case (Suc n)
  have "n_kind (spine_pool 0) = RLN_INT" by (simp add: spine_pool_def demo_node_def)
  then have "exp_at spine_pool 0 = Some (ELeaf (spine_pool 0))"
    by (simp add: exp_at.simps [of spine_pool 0] leaf_kinds_def)
  moreover have "spine_pool (Suc n) = demo_node RLN_BINOP RLOP_ADD 0 0 n" by (simp add: spine_pool_def)
  ultimately show ?case using Suc
    by (simp add: exp_at.simps [of spine_pool "Suc n"] demo_node_def)
qed

lemma spine_value: "fst (eval_tree spine_ctx (spine n)) = EvOk (VInt (of_nat n + 1))"
proof (induction n)
  case 0
  show ?case by (simp add: spine_pool_def demo_node_def rl_leaf_def)
next
  case (Suc n)
  have "eval_tree spine_ctx (ELeaf (spine_pool 0)) = (EvOk (VInt 1), [])"
    by (simp add: spine_pool_def demo_node_def rl_leaf_def)
  then show ?case using Suc
    by (auto simp: ev_then_def rl_binop_def ints_def rl_uadd_def algebra_simps split: prod.splits rl_evres.splits)
qed

lemma spine_needs: "vneed (spine n) = n + 1" "wneed (spine n) \<le> n + 3"
  by (induction n) auto

theorem rl_value_stack_exact_witness:
  "fst (rl_eval spine_ctx 66) = EvInternal \<and> fst (rl_eval spine_ctx 65) = EvOk (VInt 66)"
proof -
  have "fst (rl_eval spine_ctx n) = (if vneed (spine n) \<le> 66 then EvOk (VInt (of_nat n + 1)) else EvInternal)"
    if "n < 256" for n
    using spine_needs(2) [of n] that
    by (intro rl_value_stack_exact [where wcap = 512, OF _ _ _ _ exp_at_spine _ _ spine_value])
      (simp_all add: spine_ctx_def demo_ctx_def RL_POOL_MAX_def)
  from this [of 66] this [of 65] show ?thesis by (simp add: spine_needs)
qed

end
