(* ===== verification/Rl_Check.thy ===== *)
theory Rl_Check
  imports Rl_Eval
begin

text \<open>
  The RynorLang analyzer, \<^verbatim>\<open>rl_an_sub\<close> and the name helpers of
  \<^verbatim>\<open>src/user/shell/rl_sem.c\<close>. The analyzer walks the pool like the evaluator, writes a
  type per node, resolves every variable to its row of the symbol table (in the node's
  second child field) and turns a lone command word into a variable. It returns a type, or
  a diagnostic class.

  The main lemma is type soundness: an expression the analyzer accepts evaluates to a
  value of the type it was given, or traps on a division, and is never refused inside the
  evaluator for a reason other than its bounded stacks.
\<close>

section \<open>Diagnostic classes\<close>

definition RL_D_SEM_UNDECLARED :: string where "RL_D_SEM_UNDECLARED = ''SEM_UNDECLARED''"
definition RL_D_SEM_DUPLICATE :: string where "RL_D_SEM_DUPLICATE = ''SEM_DUPLICATE''"
definition RL_D_SEM_TYPE :: string where "RL_D_SEM_TYPE = ''SEM_TYPE_MISMATCH''"
definition RL_D_SEM_ARITY :: string where "RL_D_SEM_ARITY = ''SEM_ARITY_MISMATCH''"
definition RL_D_SEM_UNKNOWN_FN :: string where "RL_D_SEM_UNKNOWN_FN = ''SEM_UNKNOWN_FUNCTION''"
definition RL_D_SEM_LIMIT :: string where "RL_D_SEM_LIMIT = ''SEM_LIMIT_EXCEEDED''"
definition RL_D_SH_REDIRECT :: string where "RL_D_SH_REDIRECT = ''SHELL_REDIRECT_ERROR''"
definition RL_D_INTERNAL :: string where "RL_D_INTERNAL = ''RL_INTERNAL''"
definition RL_D_PIPELINE_STAGE :: string where "RL_D_PIPELINE_STAGE = ''RL_PIPELINE_STAGE''"
definition RL_D_ARENA_FULL :: string where "RL_D_ARENA_FULL = ''RL_ARENA_FULL''"

lemmas rl_diags = RL_D_SEM_UNDECLARED_def RL_D_SEM_DUPLICATE_def RL_D_SEM_TYPE_def
  RL_D_SEM_ARITY_def RL_D_SEM_UNKNOWN_FN_def RL_D_SEM_LIMIT_def RL_D_SH_REDIRECT_def
  RL_D_INTERNAL_def RL_D_PIPELINE_STAGE_def RL_D_ARENA_FULL_def

section \<open>Names\<close>

text \<open>A pointer into a text is the rest of the text from there.\<close>

definition rl_name_eq :: "string \<Rightarrow> nat \<Rightarrow> string \<Rightarrow> nat \<Rightarrow> bool" where
  "rl_name_eq a alen b blen = (alen = blen \<and> rl_memeq a b alen)"

definition rl_reserved :: "string \<Rightarrow> nat \<Rightarrow> bool" where
  "rl_reserved s n =
    ((n = 5 \<and> take 5 s = ''print'') \<or> (n = 6 \<and> take 6 s = ''status''))"

definition rl_is_print :: "string \<Rightarrow> nat \<Rightarrow> bool" where
  "rl_is_print s n = (n = 5 \<and> take 5 s = ''print'')"

fun lookup_from :: "nat \<Rightarrow> nat \<Rightarrow> (nat \<Rightarrow> rl_sym) \<Rightarrow> string \<Rightarrow> string \<Rightarrow> nat \<Rightarrow> nat option" where
  "lookup_from i 0 tab sess nm nlen = None"
| "lookup_from i (Suc n) tab sess nm nlen =
    (if rl_name_eq (drop (sy_name_off (tab i)) sess) (sy_name_len (tab i)) nm nlen then Some i
     else lookup_from (i + 1) n tab sess nm nlen)"

definition rl_lookup :: "(nat \<Rightarrow> rl_sym) \<Rightarrow> nat \<Rightarrow> string \<Rightarrow> string \<Rightarrow> nat \<Rightarrow> nat option" where
  "rl_lookup tab ntab sess nm nlen = lookup_from 0 ntab tab sess nm nlen"

section \<open>The analyzer\<close>

record rl_an_ctx =
  an_text :: string
  an_tab :: "nat \<Rightarrow> rl_sym"
  an_ntab :: nat
  an_sess :: string
  an_args :: "nat \<Rightarrow> nat"
  an_argcap :: nat
  an_walkcap :: nat
  an_typecap :: nat

type_synonym rl_types = "nat \<Rightarrow> rl_vtype"

datatype rl_anturn = AnGo "nat list" rl_pool rl_types | AnStop string

definition an_name :: "rl_an_ctx \<Rightarrow> nat \<Rightarrow> nat \<Rightarrow> nat option" where
  "an_name x off len =
    (if rl_reserved (drop off (an_text x)) len then None
     else rl_lookup (an_tab x) (an_ntab x) (an_sess x) (drop off (an_text x)) len)"

fun an_cmdargs :: "rl_an_ctx \<Rightarrow> rl_pool \<Rightarrow> nat \<Rightarrow> nat \<Rightarrow> string option" where
  "an_cmdargs x pool j 0 = None"
| "an_cmdargs x pool j (Suc n) =
    (if an_argcap x \<le> j then Some RL_D_INTERNAL
     else let a = an_args x j in
       if RL_POOL_MAX \<le> a then Some RL_D_INTERNAL
       else if n_kind (pool a) = RLN_STR \<and> (n_aux (pool a) = 2 \<or> n_aux (pool a) = 3)
       then Some RL_D_SH_REDIRECT
       else an_cmdargs x pool (j + 1) n)"

definition an_call_enter :: "rl_an_ctx \<Rightarrow> nat \<Rightarrow> nat \<Rightarrow> nat list \<Rightarrow> rl_pool \<Rightarrow> rl_types \<Rightarrow> rl_anturn" where
  "an_call_enter x k1 i w pool types =
    (if an_walkcap x < length w + 2 then AnStop RL_D_ARENA_FULL
     else if k1 \<noteq> RL_NONODE then
       if RL_POOL_MAX \<le> k1 then AnStop RL_D_INTERNAL
       else AnGo (k1 # (i + VISITED) # w) pool types
     else AnGo ((i + VISITED) # w) pool types)"

definition an_enter :: "rl_an_ctx \<Rightarrow> nat \<Rightarrow> nat list \<Rightarrow> rl_pool \<Rightarrow> rl_types \<Rightarrow> rl_anturn" where
  "an_enter x i w pool types =
    (let nd = pool i in
     case n_kind nd of
       RLN_INT \<Rightarrow> AnGo w pool (types(i := RLV_INT))
     | RLN_BOOL \<Rightarrow> AnGo w pool (types(i := RLV_BOOL))
     | RLN_STR \<Rightarrow>
         if 4096 < n_e2 nd then AnStop RL_D_SEM_LIMIT else AnGo w pool (types(i := RLV_STR))
     | RLN_VAR \<Rightarrow> (case an_name x (n_e1 nd) (n_e2 nd) of
           None \<Rightarrow> AnStop RL_D_SEM_UNDECLARED
         | Some f \<Rightarrow> AnGo w (pool(i := nd\<lparr>n_k2 := f mod 65536\<rparr>)) (types(i := sy_type (an_tab x f))))
     | RLN_CMD \<Rightarrow>
         if n_aux nd = 0 then
           (case an_name x (n_e1 nd mod 65536) (n_e1 nd div 65536 mod 65536) of
              None \<Rightarrow> AnStop RL_D_SEM_UNDECLARED
            | Some f \<Rightarrow> AnGo w (pool(i := nd\<lparr>n_kind := RLN_VAR, n_k2 := f mod 65536\<rparr>))
                (types(i := sy_type (an_tab x f))))
         else (case an_cmdargs x pool (n_e2 nd div 256 mod 65536) (n_aux nd) of
             Some d \<Rightarrow> AnStop d
           | None \<Rightarrow> AnGo w pool (types(i := RLV_UNIT)))
     | RLN_PIPE \<Rightarrow>
         if n_k1 nd = RL_NONODE \<or> n_k2 nd = RL_NONODE \<or> RL_POOL_MAX \<le> n_k1 nd \<or> RL_POOL_MAX \<le> n_k2 nd
         then AnStop RL_D_INTERNAL
         else if n_kind (pool (n_k1 nd)) \<noteq> RLN_CMD \<or> n_kind (pool (n_k2 nd)) \<noteq> RLN_CMD
         then AnStop RL_D_PIPELINE_STAGE
         else AnGo w pool (types(i := RLV_UNIT))
     | RLN_UNOP \<Rightarrow>
         if n_k1 nd = RL_NONODE \<or> RL_POOL_MAX \<le> n_k1 nd then AnStop RL_D_INTERNAL
         else if an_walkcap x < length w + 2 then AnStop RL_D_ARENA_FULL
         else AnGo (n_k1 nd # (i + VISITED) # w) pool types
     | RLN_BINOP \<Rightarrow>
         if n_k1 nd = RL_NONODE \<or> n_k2 nd = RL_NONODE \<or> RL_POOL_MAX \<le> n_k1 nd \<or> RL_POOL_MAX \<le> n_k2 nd
         then AnStop RL_D_INTERNAL
         else if an_walkcap x < length w + 3 then AnStop RL_D_ARENA_FULL
         else AnGo (n_k1 nd # n_k2 nd # (i + VISITED) # w) pool types
     | RLN_CALL \<Rightarrow> an_call_enter x (n_k1 nd) i w pool types
     | RLN_LEN \<Rightarrow> an_call_enter x (n_k1 nd) i w pool types
     | _ \<Rightarrow> AnStop RL_D_INTERNAL)"

definition ty_unop :: "rl_op \<Rightarrow> rl_vtype \<Rightarrow> string + rl_vtype" where
  "ty_unop op ct =
    (if ct = RLV_UNKNOWN then Inl RL_D_INTERNAL
     else case op of
       RLOP_NEG \<Rightarrow> if ct \<noteq> RLV_INT then Inl RL_D_SEM_TYPE else Inr RLV_INT
     | RLOP_NOT \<Rightarrow> if ct \<noteq> RLV_BOOL then Inl RL_D_SEM_TYPE else Inr RLV_BOOL
     | _ \<Rightarrow> Inl RL_D_INTERNAL)"

definition ty_binop :: "rl_op \<Rightarrow> rl_vtype \<Rightarrow> rl_vtype \<Rightarrow> string + rl_vtype" where
  "ty_binop op lt rt =
    (if lt = RLV_UNKNOWN \<or> rt = RLV_UNKNOWN then Inl RL_D_INTERNAL
     else if lt = RLV_UNIT \<or> rt = RLV_UNIT then Inl RL_D_SEM_TYPE
     else if op \<in> {RLOP_ADD, RLOP_SUB, RLOP_MUL, RLOP_DIV, RLOP_MOD} then
       if lt \<noteq> RLV_INT \<or> rt \<noteq> RLV_INT then Inl RL_D_SEM_TYPE else Inr RLV_INT
     else if op = RLOP_EQ \<or> op = RLOP_NE then
       if lt \<noteq> rt \<or> (lt \<noteq> RLV_INT \<and> lt \<noteq> RLV_BOOL \<and> lt \<noteq> RLV_STR) then Inl RL_D_SEM_TYPE
       else Inr RLV_BOOL
     else if op \<in> {RLOP_LT, RLOP_GT, RLOP_LE, RLOP_GE} then
       if lt \<noteq> RLV_INT \<or> rt \<noteq> RLV_INT then Inl RL_D_SEM_TYPE else Inr RLV_BOOL
     else if op = RLOP_AND \<or> op = RLOP_OR then
       if lt \<noteq> RLV_BOOL \<or> rt \<noteq> RLV_BOOL then Inl RL_D_SEM_TYPE else Inr RLV_BOOL
     else Inl RL_D_INTERNAL)"

definition ty_call :: "rl_an_ctx \<Rightarrow> rl_pool \<Rightarrow> rl_node \<Rightarrow> rl_types \<Rightarrow> string + rl_vtype" where
  "ty_call x pool nd types =
    (if n_k2 nd = RL_NONODE \<or> RL_POOL_MAX \<le> n_k2 nd then Inl RL_D_SEM_UNKNOWN_FN
     else let callee = pool (n_k2 nd) in
       if n_kind callee \<noteq> RLN_VAR then Inl RL_D_SEM_UNKNOWN_FN
       else if \<not> rl_is_print (drop (n_e1 callee) (an_text x)) (n_e2 callee) then Inl RL_D_SEM_UNKNOWN_FN
       else if n_aux nd \<noteq> 1 then Inl RL_D_SEM_ARITY
       else if n_k1 nd = RL_NONODE \<or> RL_POOL_MAX \<le> n_k1 nd then Inl RL_D_INTERNAL
       else let at = types (n_k1 nd) in
         if at = RLV_UNKNOWN then Inl RL_D_INTERNAL
         else if at \<noteq> RLV_INT \<and> at \<noteq> RLV_BOOL \<and> at \<noteq> RLV_STR then Inl RL_D_SEM_TYPE
         else Inr RLV_UNIT)"

definition ty_len :: "rl_node \<Rightarrow> rl_types \<Rightarrow> string + rl_vtype" where
  "ty_len nd types =
    (if n_aux nd \<noteq> 1 then Inl RL_D_SEM_ARITY
     else if n_k1 nd = RL_NONODE \<or> RL_POOL_MAX \<le> n_k1 nd then Inl RL_D_INTERNAL
     else let at = types (n_k1 nd) in
       if at = RLV_UNKNOWN then Inl RL_D_INTERNAL
       else if at \<noteq> RLV_STR then Inl RL_D_SEM_TYPE
       else Inr RLV_INT)"

definition an_leave :: "rl_an_ctx \<Rightarrow> nat \<Rightarrow> nat list \<Rightarrow> rl_pool \<Rightarrow> rl_types \<Rightarrow> rl_anturn" where
  "an_leave x i w pool types =
    (let nd = pool i in
     case (case n_kind nd of
         RLN_UNOP \<Rightarrow> ty_unop (n_op nd) (types (n_k1 nd))
       | RLN_BINOP \<Rightarrow> ty_binop (n_op nd) (types (n_k1 nd)) (types (n_k2 nd))
       | RLN_CALL \<Rightarrow> ty_call x pool nd types
       | RLN_LEN \<Rightarrow> ty_len nd types
       | _ \<Rightarrow> Inl RL_D_INTERNAL) of
       Inl d \<Rightarrow> AnStop d
     | Inr t \<Rightarrow> AnGo w pool (types(i := t)))"

definition an_turn :: "rl_an_ctx \<Rightarrow> nat \<Rightarrow> nat list \<Rightarrow> rl_pool \<Rightarrow> rl_types \<Rightarrow> rl_anturn" where
  "an_turn x e w pool types =
    (let i = e mod VISITED; vis = e div VISITED mod 2 in
     if RL_POOL_MAX \<le> i \<or> an_typecap x \<le> i then AnStop RL_D_INTERNAL
     else if vis = 0 then an_enter x i w pool types
     else an_leave x i w pool types)"

lemma an_enter_shapes:
  "an_enter x i w pool types = AnGo w' pool' types' \<Longrightarrow>
    w' = w \<or> (\<exists>e. w' = e # (i + VISITED) # w \<and> length w + 2 \<le> an_walkcap x)
    \<or> (\<exists>e f. w' = e # f # (i + VISITED) # w \<and> length w + 3 \<le> an_walkcap x)
    \<or> (w' = (i + VISITED) # w \<and> length w + 2 \<le> an_walkcap x)"
  unfolding an_enter_def Let_def an_call_enter_def
  by (cases "n_kind (pool i)") (auto split: if_splits option.splits)

lemma an_enter_weight:
  assumes "an_enter x i w pool types = AnGo w' pool' types'" and "i < RL_POOL_MAX"
  shows "walk_weight (an_walkcap x) w' < 3 ^ (an_walkcap x - length w) + walk_weight (an_walkcap x) w"
proof -
  let ?c = "an_walkcap x"
  have vis: "(i + VISITED) div VISITED mod 2 \<noteq> 0" using assms(2) by (simp add: RL_POOL_MAX_def)
  then have v: "walk_weight ?c ((i + VISITED) # w) = 1 + walk_weight ?c w" by simp
  from an_enter_shapes [OF assms(1)] show ?thesis
  proof (elim disjE exE conjE)
    assume "w' = w"
    then show ?thesis by simp
  next
    fix e assume "w' = e # (i + VISITED) # w" "length w + 2 \<le> ?c"
    then show ?thesis
      using walk_weight_le [of ?c e "(i + VISITED) # w"] pow3_two [of "length w" ?c] v by simp
  next
    fix e f assume "w' = e # f # (i + VISITED) # w" "length w + 3 \<le> ?c"
    then show ?thesis
      using walk_weight_le [of ?c e "f # (i + VISITED) # w"]
        walk_weight_le [of ?c f "(i + VISITED) # w"] pow3_three [of "length w" ?c] v
      by simp
  next
    assume "w' = (i + VISITED) # w" "length w + 2 \<le> ?c"
    then show ?thesis using pow3_two [of "length w" ?c] v by simp
  qed
qed

lemma an_turn_weight:
  assumes "an_turn x e w pool types = AnGo w' pool' types'"
  shows "walk_weight (an_walkcap x) w' < walk_weight (an_walkcap x) (e # w)"
proof (cases "e div VISITED mod 2 = 0")
  case True
  then show ?thesis
    using assms an_enter_weight [of x "e mod VISITED" w pool types w' pool' types']
    by (auto simp: an_turn_def Let_def split: if_splits)
next
  case False
  then have "w' = w"
    using assms unfolding an_turn_def an_leave_def Let_def
    by (auto split: if_splits sum.splits)
  then show ?thesis using False by simp
qed

text \<open>The result: the pool as resolved, and a type or a diagnostic class.\<close>

function an_loop ::
  "rl_an_ctx \<Rightarrow> nat \<Rightarrow> nat list \<Rightarrow> rl_pool \<Rightarrow> rl_types \<Rightarrow> rl_pool \<times> (string + rl_vtype)" where
  "an_loop x root [] pool types = (pool, Inr (types root))"
| "an_loop x root (e # w) pool types =
    (case an_turn x e w pool types of
       AnStop d \<Rightarrow> (pool, Inl d)
     | AnGo w' pool' types' \<Rightarrow> an_loop x root w' pool' types')"
  by pat_completeness auto
termination
  by (relation "measure (\<lambda>(x, root, w, pool, types). walk_weight (an_walkcap x) w)")
    (simp_all only: wf_measure in_measure case_prod_conv an_turn_weight)

declare an_loop.simps(2) [simp del]

definition rl_an_sub ::
  "rl_an_ctx \<Rightarrow> rl_pool \<Rightarrow> rl_types \<Rightarrow> nat \<Rightarrow> rl_pool \<times> (string + rl_vtype)" where
  "rl_an_sub x pool types root =
    (if root = RL_NONODE \<or> RL_POOL_MAX \<le> root then (pool, Inl RL_D_INTERNAL)
     else an_loop x root [root] pool types)"

section \<open>Typing\<close>

lemma lookup_from_bounds: "lookup_from i n tab sess nm nlen = Some f \<Longrightarrow> i \<le> f \<and> f < i + n"
  by (induction i n tab sess nm nlen rule: lookup_from.induct) (auto split: if_splits)

lemma an_name_bound: "an_name x off len = Some f \<Longrightarrow> f < an_ntab x"
  by (auto simp: an_name_def rl_lookup_def split: if_splits dest: lookup_from_bounds)

text \<open>The type of a resolved tree, by recursion over the node indices.\<close>

function ty_at :: "rl_an_ctx \<Rightarrow> rl_pool \<Rightarrow> nat \<Rightarrow> rl_vtype option" where
  "ty_at x pool i =
    (let nd = pool i; sub = (\<lambda>k. if k < i then ty_at x pool k else None) in
     case n_kind nd of
       RLN_INT \<Rightarrow> Some RLV_INT
     | RLN_BOOL \<Rightarrow> Some RLV_BOOL
     | RLN_STR \<Rightarrow> Some RLV_STR
     | RLN_VAR \<Rightarrow> (case an_name x (n_e1 nd) (n_e2 nd) of
           None \<Rightarrow> None
         | Some f \<Rightarrow> if n_k2 nd = f mod 65536 then Some (sy_type (an_tab x f)) else None)
     | RLN_UNOP \<Rightarrow> (case sub (n_k1 nd) of
           None \<Rightarrow> None
         | Some t \<Rightarrow> (case ty_unop (n_op nd) t of Inl _ \<Rightarrow> None | Inr u \<Rightarrow> Some u))
     | RLN_BINOP \<Rightarrow> (case (sub (n_k1 nd), sub (n_k2 nd)) of
           (Some l, Some r) \<Rightarrow> (case ty_binop (n_op nd) l r of Inl _ \<Rightarrow> None | Inr u \<Rightarrow> Some u)
         | _ \<Rightarrow> None)
     | RLN_CALL \<Rightarrow> (case sub (n_k1 nd) of
           None \<Rightarrow> None
         | Some t \<Rightarrow> if t \<in> {RLV_INT, RLV_BOOL, RLV_STR} then Some RLV_UNIT else None)
     | RLN_LEN \<Rightarrow> (case sub (n_k1 nd) of
           None \<Rightarrow> None
         | Some t \<Rightarrow> if t = RLV_STR then Some RLV_INT else None)
     | _ \<Rightarrow> None)"
  by pat_completeness auto
termination by (relation "measure (\<lambda>(x, pool, i). i)") (auto split: if_splits)

declare ty_at.simps [simp del]

text \<open>How the analyzer changes the pool: variables get the row they resolve to.\<close>

definition resolves :: "rl_an_ctx \<Rightarrow> rl_pool \<Rightarrow> rl_pool \<Rightarrow> bool" where
  "resolves x pool pool' \<longleftrightarrow>
    (\<forall>j. pool' j = pool j \<or> (n_kind (pool j) = RLN_VAR
      \<and> (\<exists>f. an_name x (n_e1 (pool j)) (n_e2 (pool j)) = Some f
        \<and> pool' j = (pool j)\<lparr>n_k2 := f mod 65536\<rparr>)))"

lemma resolves_refl: "resolves x pool pool"
  by (simp add: resolves_def)

lemma resolves_trans:
  assumes "resolves x p q" "resolves x q r"
  shows "resolves x p r"
  unfolding resolves_def
proof (rule allI)
  fix j
  from assms [unfolded resolves_def, THEN spec, of j]
  show "r j = p j \<or> (n_kind (p j) = RLN_VAR
      \<and> (\<exists>f. an_name x (n_e1 (p j)) (n_e2 (p j)) = Some f \<and> r j = (p j)\<lparr>n_k2 := f mod 65536\<rparr>))"
    by (elim disjE conjE exE) auto
qed

lemma resolves_fields:
  assumes "resolves x pool pool'"
  shows "n_kind (pool' j) = n_kind (pool j)" "n_k1 (pool' j) = n_k1 (pool j)"
    "n_op (pool' j) = n_op (pool j)" "n_aux (pool' j) = n_aux (pool j)"
    "n_e1 (pool' j) = n_e1 (pool j)" "n_e2 (pool' j) = n_e2 (pool j)"
    "n_kind (pool j) \<noteq> RLN_VAR \<Longrightarrow> pool' j = pool j"
  using assms [unfolded resolves_def, THEN spec, of j] by auto

lemma ty_at_resolves:
  "resolves x pool pool' \<Longrightarrow> ty_at x pool i = Some t \<Longrightarrow> ty_at x pool' i = Some t"
proof (induction i arbitrary: t rule: less_induct)
  case (less i)
  note IH = less.IH [OF _ less.prems(1)]
  show ?case
  proof (cases "n_kind (pool i) = RLN_VAR")
    case True
    then show ?thesis
      using less.prems(2) less.prems(1) [unfolded resolves_def, THEN spec, of i]
      by (auto simp: ty_at.simps [of x pool i] ty_at.simps [of x pool' i] split: option.splits if_splits)
  next
    case False
    then have "pool' i = pool i" using resolves_fields(7) [OF less.prems(1)] by blast
    then show ?thesis using less.prems(2) False
      by (cases "n_kind (pool i)")
        (auto simp: ty_at.simps [of x pool i] ty_at.simps [of x pool' i] Let_def IH
          split: option.splits if_splits sum.splits)
  qed
qed

lemma exp_at_resolves:
  "resolves x pool pool' \<Longrightarrow> exp_at pool i = Some e
    \<Longrightarrow> \<exists>e'. exp_at pool' i = Some e' \<and> wneed e' = wneed e \<and> vneed e' = vneed e"
proof (induction i arbitrary: e rule: less_induct)
  case (less i)
  note IH = less.IH [OF _ less.prems(1)]
  show ?case
  proof (cases "n_kind (pool i) = RLN_VAR")
    case True
    then show ?thesis using resolves_fields(1) [OF less.prems(1), of i] less.prems(2)
      by (auto simp: exp_at.simps [of pool i] exp_at.simps [of pool' i] Let_def leaf_kinds_def)
  next
    case False
    then have "pool' i = pool i" using resolves_fields(7) [OF less.prems(1)] by blast
    then show ?thesis using less.prems(2) False
      by (cases "n_kind (pool i)")
        (auto simp: exp_at.simps [of pool i] exp_at.simps [of pool' i] Let_def
          split: option.splits if_splits dest!: IH)
  qed
qed

text \<open>One subtree on top of the walk stack: a diagnostic, or the rest with the subtree typed.\<close>

definition an_typed :: "rl_an_ctx \<Rightarrow> nat \<Rightarrow> rl_pool \<Rightarrow> rl_types \<Rightarrow> rl_pool \<Rightarrow> rl_types \<Rightarrow> bool" where
  "an_typed x i pool types pool' types' \<longleftrightarrow>
    resolves x pool pool' \<and> ty_at x pool' i = Some (types' i)
    \<and> (\<forall>j. types' j = types j \<or> ty_at x pool' j = Some (types' j))"

definition an_subtree ::
  "rl_an_ctx \<Rightarrow> nat \<Rightarrow> nat \<Rightarrow> nat list \<Rightarrow> rl_pool \<Rightarrow> rl_types \<Rightarrow> bool" where
  "an_subtree x root i w pool types \<longleftrightarrow>
    (\<exists>pool' d. an_loop x root (i # w) pool types = (pool', Inl d))
    \<or> (\<exists>pool' types'. an_loop x root (i # w) pool types = an_loop x root w pool' types'
        \<and> an_typed x i pool types pool' types')"

lemma an_enter_turn: "i < RL_POOL_MAX \<Longrightarrow> i < an_typecap x \<Longrightarrow>
    an_turn x i w pool types = an_enter x i w pool types"
  by (simp add: an_turn_def RL_POOL_MAX_def)

lemma an_leave_turn:
  assumes "i < RL_POOL_MAX" "i < an_typecap x"
  shows "an_turn x (i + VISITED) w pool types = an_leave x i w pool types"
proof -
  have "i < VISITED" using assms by (simp add: RL_POOL_MAX_def)
  then have "(i + VISITED) div VISITED = 1" "(i + VISITED) mod VISITED = i" by (simp_all add: div_nat_eqI)
  with assms show ?thesis by (simp add: an_turn_def)
qed

lemma an_typed_leaf:
  assumes "resolves x pool pool'" "ty_at x pool' i = Some t"
  shows "an_typed x i pool types pool' (types(i := t))"
  using assms by (simp add: an_typed_def)

lemma resolves_var:
  assumes "n_kind (pool i) = RLN_VAR" "an_name x (n_e1 (pool i)) (n_e2 (pool i)) = Some f"
  shows "resolves x pool (pool(i := (pool i)\<lparr>n_k2 := f mod 65536\<rparr>))"
  using assms by (simp add: resolves_def)

lemma an_enter_leaf:
  assumes "n_kind (pool i) \<in> set leaf_kinds" "an_enter x i w pool types = AnGo w' pool' types'"
  shows "w' = w \<and> an_typed x i pool types pool' types'"
proof (cases "n_kind (pool i) = RLN_VAR")
  case True
  then obtain f where f: "an_name x (n_e1 (pool i)) (n_e2 (pool i)) = Some f" "w' = w"
    "pool' = pool(i := (pool i)\<lparr>n_k2 := f mod 65536\<rparr>)" "types' = types(i := sy_type (an_tab x f))"
    using assms(2) by (auto simp: an_enter_def Let_def split: option.splits)
  have "ty_at x pool' i = Some (sy_type (an_tab x f))"
    using True f(1) by (subst ty_at.simps) (simp add: f(3))
  moreover have "resolves x pool pool'" unfolding f(3) using True f(1) by (rule resolves_var)
  ultimately show ?thesis using an_typed_leaf f(2,4) by blast
next
  case False
  then have "w' = w \<and> pool' = pool \<and> (\<exists>t. types' = types(i := t) \<and> ty_at x pool i = Some t)"
    using assms
    by (cases "n_kind (pool i)")
      (auto simp: an_enter_def Let_def leaf_kinds_def ty_at.simps [of x _ i] split: if_splits)
  then show ?thesis using an_typed_leaf [OF resolves_refl] by blast
qed

lemma an_subtree_leaf:
  assumes "n_kind (pool i) \<in> set leaf_kinds" "i < RL_POOL_MAX" "i < an_typecap x"
  shows "an_subtree x root i w pool types"
proof (cases "an_enter x i w pool types")
  case (AnStop d)
  then show ?thesis using assms by (simp add: an_loop.simps an_enter_turn an_subtree_def)
next
  case (AnGo w' pool' types')
  then show ?thesis
    using an_enter_leaf [OF assms(1) AnGo] assms(2,3)
    by (auto simp: an_loop.simps an_enter_turn an_subtree_def)
qed

text \<open>Leaving a node whose children are typed.\<close>

lemma ty_call_Inr: "ty_call x pool nd types = Inr t \<Longrightarrow>
    t = RLV_UNIT \<and> types (n_k1 nd) \<in> {RLV_INT, RLV_BOOL, RLV_STR}"
  by (auto simp: ty_call_def Let_def split: if_splits)

lemma ty_len_Inr: "ty_len nd types = Inr t \<Longrightarrow> t = RLV_INT \<and> types (n_k1 nd) = RLV_STR"
  by (auto simp: ty_len_def Let_def split: if_splits)

lemma an_leave_Go:
  assumes "an_leave x i w pool types = AnGo w' pool' types'"
  obtains t where "w' = w" "pool' = pool" "types' = types(i := t)"
    "(case n_kind (pool i) of
         RLN_UNOP \<Rightarrow> ty_unop (n_op (pool i)) (types (n_k1 (pool i)))
       | RLN_BINOP \<Rightarrow> ty_binop (n_op (pool i)) (types (n_k1 (pool i))) (types (n_k2 (pool i)))
       | RLN_CALL \<Rightarrow> ty_call x pool (pool i) types
       | RLN_LEN \<Rightarrow> ty_len (pool i) types
       | _ \<Rightarrow> Inl RL_D_INTERNAL) = Inr t"
  using assms unfolding an_leave_def Let_def by (auto split: sum.splits)

lemma an_leave_typed:
  assumes go: "an_leave x i w pool types = AnGo w' pool' types'"
    and kid1: "n_k1 (pool i) < i" "ty_at x pool (n_k1 (pool i)) = Some (types (n_k1 (pool i)))"
    and kid2: "n_kind (pool i) = RLN_BINOP \<longrightarrow>
      n_k2 (pool i) < i \<and> ty_at x pool (n_k2 (pool i)) = Some (types (n_k2 (pool i)))"
  shows "w' = w \<and> pool' = pool \<and> (\<exists>t. types' = types(i := t) \<and> ty_at x pool i = Some t)"
proof -
  obtain t where t: "w' = w" "pool' = pool" "types' = types(i := t)"
    "(case n_kind (pool i) of
         RLN_UNOP \<Rightarrow> ty_unop (n_op (pool i)) (types (n_k1 (pool i)))
       | RLN_BINOP \<Rightarrow> ty_binop (n_op (pool i)) (types (n_k1 (pool i))) (types (n_k2 (pool i)))
       | RLN_CALL \<Rightarrow> ty_call x pool (pool i) types
       | RLN_LEN \<Rightarrow> ty_len (pool i) types
       | _ \<Rightarrow> Inl RL_D_INTERNAL) = Inr t"
    using go by (rule an_leave_Go)
  have "ty_at x pool i = Some t"
    using t(4) kid1 kid2
    by (cases "n_kind (pool i)")
      (simp_all add: ty_at.simps [of x pool i] Let_def, (drule ty_call_Inr ty_len_Inr, simp)+)
  with t show ?thesis by blast
qed

lemma an_typed_step:
  assumes "an_typed x k pool types pool' types'" "ty_at x pool' i = Some t"
  shows "an_typed x i pool types pool' (types'(i := t))"
  using assms by (auto simp: an_typed_def)

lemma an_typed_kid:
  assumes "an_typed x k pool types pool' types'" "ty_at x pool j = Some (types j)"
  shows "ty_at x pool' j = Some (types' j)"
  using assms by (metis an_typed_def ty_at_resolves)

lemma an_typed_trans:
  assumes "an_typed x k p0 t0 p1 t1" "an_typed x l p1 t1 p2 t2"
  shows "an_typed x l p0 t0 p2 t2"
  using assms unfolding an_typed_def by (metis resolves_trans ty_at_resolves)

lemma an_finish:
  assumes "i < RL_POOL_MAX" "i < an_typecap x"
    and loop: "an_loop x root (i # w) pool types = an_loop x root ((i + VISITED) # w) pool' types'"
    and typed: "an_typed x k pool types pool' types'" and var: "n_kind (pool i) \<noteq> RLN_VAR"
    and kid1: "n_k1 (pool i) < i" "ty_at x pool' (n_k1 (pool i)) = Some (types' (n_k1 (pool i)))"
    and kid2: "n_kind (pool i) = RLN_BINOP \<longrightarrow>
      n_k2 (pool i) < i \<and> ty_at x pool' (n_k2 (pool i)) = Some (types' (n_k2 (pool i)))"
  shows "an_subtree x root i w pool types"
proof -
  have same: "pool' i = pool i"
    using typed var resolves_fields(7) by (auto simp: an_typed_def)
  show ?thesis
  proof (cases "an_leave x i w pool' types'")
    case (AnStop d)
    then show ?thesis using assms(1,2) loop
      by (simp add: an_loop.simps an_leave_turn an_subtree_def)
  next
    case (AnGo w'' pool'' types'')
    from an_leave_typed [OF this] obtain t where
      "w'' = w" "pool'' = pool'" "types'' = types'(i := t)" "ty_at x pool' i = Some t"
      using kid1 kid2 same by auto
    with AnGo have "an_loop x root (i # w) pool types = an_loop x root w pool' (types'(i := t))"
      using assms(1,2) unfolding loop by (simp add: an_loop.simps an_leave_turn)
    moreover have "an_typed x i pool types pool' (types'(i := t))"
      using an_typed_step [OF typed] \<open>ty_at x pool' i = Some t\<close> by blast
    ultimately show ?thesis unfolding an_subtree_def by blast
  qed
qed

lemma an_subtree_unary:
  assumes "n_kind (pool i) \<in> {RLN_UNOP, RLN_CALL, RLN_LEN}" "n_k1 (pool i) < i"
    and "i < RL_POOL_MAX" "i < an_typecap x"
    and IH: "\<And>w. an_subtree x root (n_k1 (pool i)) w pool types"
  shows "an_subtree x root i w pool types"
proof (cases "an_enter x i w pool types")
  case (AnStop d)
  then show ?thesis using assms(3,4) by (simp add: an_loop.simps an_enter_turn an_subtree_def)
next
  case (AnGo w' pool' types')
  then have go: "an_loop x root (i # w) pool types
      = an_loop x root (n_k1 (pool i) # (i + VISITED) # w) pool types"
    using assms(1-4)
    by (auto simp: an_loop.simps(2) [of x root i] an_enter_turn an_enter_def an_call_enter_def Let_def
        RL_NONODE_def RL_POOL_MAX_def split: if_splits)
  from IH [of "(i + VISITED) # w"] show ?thesis
    unfolding an_subtree_def [of x root "n_k1 (pool i)"]
  proof (elim disjE exE conjE)
    fix pool' d assume "an_loop x root (n_k1 (pool i) # (i + VISITED) # w) pool types = (pool', Inl d)"
    then show ?thesis using go by (auto simp: an_subtree_def)
  next
    fix pool' types'
    assume l: "an_loop x root (n_k1 (pool i) # (i + VISITED) # w) pool types =
        an_loop x root ((i + VISITED) # w) pool' types'"
      and t: "an_typed x (n_k1 (pool i)) pool types pool' types'"
    show ?thesis
      using assms(1-4) go l t
      by (intro an_finish [of i x root w pool types pool' types'] t) (auto simp: an_typed_def)
  qed
qed

lemma an_subtree_binary:
  assumes "n_kind (pool i) = RLN_BINOP" "n_k1 (pool i) < i" "n_k2 (pool i) < i"
    and "i < RL_POOL_MAX" "i < an_typecap x" "exp_at pool (n_k2 (pool i)) \<noteq> None"
    and IH1: "\<And>w. an_subtree x root (n_k1 (pool i)) w pool types"
    and IH2: "\<And>w pool' types'. exp_at pool' (n_k2 (pool i)) \<noteq> None \<Longrightarrow>
      an_subtree x root (n_k2 (pool i)) w pool' types'"
  shows "an_subtree x root i w pool types"
proof (cases "an_enter x i w pool types")
  case (AnStop d)
  then show ?thesis using assms(4,5) by (simp add: an_loop.simps an_enter_turn an_subtree_def)
next
  case (AnGo w' pool' types')
  let ?k1 = "n_k1 (pool i)" and ?k2 = "n_k2 (pool i)" and ?w = "(i + VISITED) # w"
  have go: "an_loop x root (i # w) pool types = an_loop x root (?k1 # ?k2 # ?w) pool types"
    using AnGo assms(1-5)
    by (auto simp: an_loop.simps(2) [of x root i] an_enter_turn an_enter_def Let_def
        RL_NONODE_def RL_POOL_MAX_def split: if_splits)
  from IH1 [of "?k2 # ?w"] show ?thesis
    unfolding an_subtree_def [of x root ?k1]
  proof (elim disjE exE conjE)
    fix p d assume "an_loop x root (?k1 # ?k2 # ?w) pool types = (p, Inl d)"
    then show ?thesis using go by (auto simp: an_subtree_def)
  next
    fix p1 t1
    assume l1: "an_loop x root (?k1 # ?k2 # ?w) pool types = an_loop x root (?k2 # ?w) p1 t1"
      and t1: "an_typed x ?k1 pool types p1 t1"
    have "exp_at p1 ?k2 \<noteq> None" using t1 assms(6) exp_at_resolves [of x pool p1]
      by (fastforce simp: an_typed_def)
    from IH2 [OF this, of ?w t1] show ?thesis
      unfolding an_subtree_def [of x root ?k2]
    proof (elim disjE exE conjE)
      fix p d assume "an_loop x root (?k2 # ?w) p1 t1 = (p, Inl d)"
      then show ?thesis using go l1 by (auto simp: an_subtree_def)
    next
      fix p2 t2
      assume l2: "an_loop x root (?k2 # ?w) p1 t1 = an_loop x root ?w p2 t2"
        and t2: "an_typed x ?k2 p1 t1 p2 t2"
      have "ty_at x p2 ?k1 = Some (t2 ?k1)" using an_typed_kid [OF t2] t1 by (simp add: an_typed_def)
      moreover have "ty_at x p2 ?k2 = Some (t2 ?k2)" using t2 by (simp add: an_typed_def)
      ultimately show ?thesis
        using assms(1-5) go l1 l2 an_typed_trans [OF t1 t2]
        by (intro an_finish [of i x root w pool types p2 t2]) auto
    qed
  qed
qed

lemma an_subtree_exp:
  "exp_at pool i \<noteq> None \<Longrightarrow> i < RL_POOL_MAX \<Longrightarrow> i < an_typecap x \<Longrightarrow>
    an_subtree x root i w pool types"
proof (induction i arbitrary: w pool types rule: less_induct)
  case (less i w pool types)
  then obtain t where t: "exp_at pool i = Some t" by blast
  have sub: "k < i \<Longrightarrow> k < RL_POOL_MAX \<and> k < an_typecap x" for k using less.prems(2,3) by simp
  have IH: "an_subtree x root k w' p ty" if "k < i" "exp_at p k \<noteq> None" for k w' p ty
    using less.IH [OF that] sub [OF that(1)] by blast
  from t show ?case
  proof (cases rule: exp_at_cases)
    case (leaf nd)
    then show ?thesis using less.prems an_subtree_leaf by blast
  next
    case (un op t1)
    have "exp_at pool (n_k1 (pool i)) \<noteq> None" using un(5) by simp
    from an_subtree_unary [OF _ un(4) less.prems(2,3) IH [OF un(4) this]] un(2) show ?thesis by simp
  next
    case (bin op l r)
    have "exp_at pool (n_k1 (pool i)) \<noteq> None" "exp_at pool (n_k2 (pool i)) \<noteq> None"
      using bin(6,7) by simp_all
    from an_subtree_binary [OF bin(2,4,5) less.prems(2,3) this(2) IH [OF bin(4) this(1)] IH [OF bin(5)]]
    show ?thesis .
  next
    case (print t1)
    have "exp_at pool (n_k1 (pool i)) \<noteq> None" using print(4) by simp
    from an_subtree_unary [OF _ print(3) less.prems(2,3) IH [OF print(3) this]] print(2) show ?thesis by simp
  next
    case (len t1)
    have "exp_at pool (n_k1 (pool i)) \<noteq> None" using len(4) by simp
    from an_subtree_unary [OF _ len(3) less.prems(2,3) IH [OF len(3) this]] len(2) show ?thesis by simp
  qed
qed

lemma rl_an_sub_typed:
  assumes "rl_an_sub x pool types root = (pool', Inr t)" "exp_at pool root \<noteq> None"
    and "RL_POOL_MAX \<le> an_typecap x"
  shows "resolves x pool pool' \<and> ty_at x pool' root = Some t \<and> root < RL_POOL_MAX"
proof -
  have r: "root < RL_POOL_MAX" and l: "an_loop x root [root] pool types = (pool', Inr t)"
    using assms(1) by (auto simp: rl_an_sub_def split: if_splits)
  have "root < an_typecap x" using r assms(3) by simp
  from an_subtree_exp [OF assms(2) r this, of root "[]" types] l r show ?thesis
    by (auto simp: an_subtree_def an_typed_def)
qed

section \<open>Accepted expressions evaluate\<close>

text \<open>The evaluator's context that goes with an analysis, and a table of committed rows.\<close>

definition ev_matches :: "rl_an_ctx \<Rightarrow> rl_eval_ctx \<Rightarrow> bool" where
  "ev_matches x c \<longleftrightarrow> ev_syms c = Some (an_tab x) \<and> ev_nsyms c = an_ntab x
    \<and> ev_strbase c \<noteq> None \<and> ev_arena c \<noteq> None"

definition tab_typed :: "rl_an_ctx \<Rightarrow> bool" where
  "tab_typed x \<longleftrightarrow> an_ntab x \<le> 65536
    \<and> list_all (\<lambda>f. sy_type (an_tab x f) \<in> {RLV_INT, RLV_BOOL, RLV_STR}) [0 ..< an_ntab x]"

definition sound_result :: "rl_vtype \<Rightarrow> rl_evres \<Rightarrow> bool" where
  "sound_result t r \<longleftrightarrow> r = EvTrap \<or> (\<exists>v. r = EvOk v \<and> v_type v = t)"

lemma v_type_rl_vbool [simp]: "v_type (rl_vbool b) = RLV_BOOL"
  by (simp add: rl_vbool_def)

lemma leaf_sound:
  assumes "ev_matches x c" "tab_typed x" "n_kind (pool i) \<in> set leaf_kinds" "ty_at x pool i = Some t"
  shows "sound_result t (rl_leaf c (pool i))"
proof (cases "n_kind (pool i) = RLN_VAR")
  case True
  with assms(4) obtain f where f: "an_name x (n_e1 (pool i)) (n_e2 (pool i)) = Some f"
    "n_k2 (pool i) = f mod 65536" "t = sy_type (an_tab x f)"
    by (auto simp: ty_at.simps [of x pool i] Let_def split: option.splits if_splits)
  from an_name_bound [OF f(1)] assms(2) have "f < an_ntab x" "n_k2 (pool i) = f"
    "t \<in> {RLV_INT, RLV_BOOL, RLV_STR}"
    using f(2,3) by (auto simp: tab_typed_def list_all_iff)
  then show ?thesis using True assms(1) f(3)
    by (auto simp: rl_leaf_def ev_matches_def sound_result_def Let_def split: option.splits)
next
  case False
  then show ?thesis using assms
    by (auto simp: leaf_kinds_def ty_at.simps [of x pool i] rl_leaf_def ev_matches_def
        sound_result_def Let_def split: option.splits)
qed

lemma unop_sound: "ty_unop op (v_type a) = Inr t \<Longrightarrow> sound_result t (rl_unop op a)"
  by (cases op; cases a) (auto simp: ty_unop_def rl_unop_def sound_result_def split: if_splits)

lemma divmod_sound: "sound_result RLV_INT (rl_divmod op a b)"
  by (simp add: rl_divmod_def sound_result_def Let_def)

lemma binop_sound: "ty_binop op (v_type a) (v_type b) = Inr t \<Longrightarrow> sound_result t (rl_binop c op a b)"
  using divmod_sound
  by (cases op; cases a; cases b)
    (auto simp: ty_binop_def rl_binop_def ints_def bools_def rl_equal_def sound_result_def)

lemma print_sound:
  assumes "v_type a \<in> {RLV_INT, RLV_BOOL, RLV_STR}"
  shows "\<exists>out. rl_print c a = (EvOk VUnit, out)"
proof (cases a)
  case (VInt w)
  obtain ds where ds: "list_all rl_is_digit ds" "ds \<noteq> []" "length ds \<le> 20"
    "dec_value ds = nat \<bar>sint w\<bar>"
    "rl_render (ev_load c) (VInt w) 24 = (if sint w < 0 then CHR ''-'' # ds else ds)"
    by (rule rl_render_int)
  then have "rl_render (ev_load c) (VInt w) 24 \<noteq> []" by simp
  then show ?thesis using VInt by (simp add: rl_print_def Let_def)
qed (use assms in \<open>auto simp: rl_print_def rl_render_def Let_def\<close>)

lemma ev_then_sound:
  assumes "sound_result t (fst r)" "\<And>v. v_type v = t \<Longrightarrow> sound_result u (fst (f v))"
  shows "sound_result u (fst (ev_then r f))"
proof (cases "\<exists>v out. r = (EvOk v, out)")
  case True
  then obtain v out where "r = (EvOk v, out)" by blast
  then show ?thesis using assms(1) assms(2) [of v]
    by (cases "f v") (auto simp: sound_result_def ev_then_def)
next
  case False
  with assms(1) show ?thesis by (cases r) (auto simp: sound_result_def ev_then_def)
qed

lemma eval_tree_sound:
  assumes "ev_matches x c" "tab_typed x"
  shows "exp_at pool i = Some e \<Longrightarrow> ty_at x pool i = Some t \<Longrightarrow> sound_result t (fst (eval_tree c e))"
proof (induction i arbitrary: e t rule: less_induct)
  case (less i)
  from less.prems(1) show ?case
  proof (cases rule: exp_at_cases)
    case (leaf nd)
    then show ?thesis using leaf_sound [OF assms, of pool i t] less.prems(2) by simp
  next
    case (un op e1)
    then obtain u where u: "ty_at x pool (n_k1 (pool i)) = Some u" "ty_unop op u = Inr t"
      using less.prems(2) by (auto simp: ty_at.simps [of x pool i] Let_def split: option.splits sum.splits)
    show ?thesis unfolding un(1) eval_tree.simps
      by (rule ev_then_sound [OF less.IH [OF un(4,5) u(1)]]) (simp add: u(2) unop_sound)
  next
    case (bin op l r)
    then obtain u v where u: "ty_at x pool (n_k1 (pool i)) = Some u"
      "ty_at x pool (n_k2 (pool i)) = Some v" "ty_binop op u v = Inr t"
      using less.prems(2) by (auto simp: ty_at.simps [of x pool i] Let_def split: option.splits sum.splits)
    show ?thesis unfolding bin(1) eval_tree.simps
      by (rule ev_then_sound [OF less.IH [OF bin(4,6) u(1)]],
          rule ev_then_sound [OF less.IH [OF bin(5,7) u(2)]]) (simp add: u(3) binop_sound)
  next
    case (print e1)
    then obtain u where u: "ty_at x pool (n_k1 (pool i)) = Some u" "u \<in> {RLV_INT, RLV_BOOL, RLV_STR}"
      "t = RLV_UNIT"
      using less.prems(2)
      by (auto simp: ty_at.simps [of x pool i] Let_def split: option.splits if_splits)
    show ?thesis unfolding print(1) eval_tree.simps
    proof (rule ev_then_sound [OF less.IH [OF print(3,4) u(1)]])
      fix v assume "v_type v = u"
      with print_sound [of v c] u(2,3) show "sound_result t (fst (rl_print c v))"
        by (auto simp: sound_result_def)
    qed
  next
    case (len e1)
    then have u: "ty_at x pool (n_k1 (pool i)) = Some RLV_STR" "t = RLV_INT"
      using less.prems(2)
      by (auto simp: ty_at.simps [of x pool i] Let_def split: option.splits if_splits)
    show ?thesis unfolding len(1) eval_tree.simps
    proof (rule ev_then_sound [OF less.IH [OF len(3,4) u(1)]])
      fix v assume "v_type v = RLV_STR"
      with u(2) show "sound_result t (fst (rl_len v, []))"
        by (cases v) (auto simp: sound_result_def rl_len_def)
    qed
  qed
qed

lemma rl_accepted_sound:
  assumes "rl_an_sub x pool types root = (pool', Inr t)" and "exp_at pool root = Some e"
    and "RL_POOL_MAX \<le> an_typecap x" and "tab_typed x" and "ev_matches x c"
    and "ev_pool c = Some pool'" and "ev_walk c = Some wcap" and "ev_vstack c = Some vcap"
    and "wneed e \<le> wcap" and "vneed e \<le> vcap"
  shows "\<exists>e'. exp_at pool' root = Some e' \<and> rl_eval c root = eval_tree c e'
    \<and> sound_result t (fst (rl_eval c root))"
proof -
  have "exp_at pool root \<noteq> None" using assms(2) by simp
  note typed = rl_an_sub_typed [OF assms(1) this assms(3)]
  then obtain e' where e': "exp_at pool' root = Some e'" "wneed e' \<le> wcap" "vneed e' \<le> vcap"
    using exp_at_resolves [OF _ assms(2)] assms(9,10) by fastforce
  have "0 < wcap" "0 < vcap" using e'(2,3) wneed_pos [of e'] vneed_pos [of e'] by auto
  from rl_eval_exp [OF assms(6-8) this e'(1)] typed e'(2,3)
  have "rl_eval c root = eval_tree c e'" by (simp add: eval_exp_tree)
  with eval_tree_sound [OF assms(5,4) e'(1)] typed e'(1) show ?thesis by simp
qed

section \<open>Property\<close>

text \<open>
  (C19) Type soundness. When the analyzer gives an expression tree a type, over a table of
  integer, boolean and string rows, the pool it leaves still holds an expression tree at
  the root, and the evaluator, started on that pool with the same table and stacks that
  have room for the tree, returns a value of exactly that type or traps on a division; it
  never reports an internal error.
\<close>
theorem rl_accepted_evaluates:
  assumes "rl_an_sub x pool types root = (pool', Inr t)" and "exp_at pool root = Some e"
    and "RL_POOL_MAX \<le> an_typecap x" and "tab_typed x" and "ev_matches x c"
    and "ev_pool c = Some pool'" and "ev_walk c = Some wcap" and "ev_vstack c = Some vcap"
    and "wneed e \<le> wcap" and "vneed e \<le> vcap"
  shows "exp_at pool' root \<noteq> None \<and> sound_result t (fst (rl_eval c root))"
  using rl_accepted_sound [OF assms] by blast

definition demo_an_ctx :: rl_an_ctx where
  "demo_an_ctx = \<lparr>an_text = ''n'',
     an_tab = (\<lambda>_. \<lparr>sy_name_off = 4, sy_name_len = 1, sy_type = RLV_INT, sy_flags = 0,
       sy_str_len = 0, sy_pay = 5\<rparr>),
     an_ntab = 1, an_sess = ''let n: int = 5'', an_args = (\<lambda>_. 0), an_argcap = 128,
     an_walkcap = 512, an_typecap = 256\<rparr>"

definition demo_var_pool :: rl_pool where
  "demo_var_pool i = (if i = 0
     then (demo_node RLN_VAR RLOP_NONE 0 RL_NONODE RL_NONODE)\<lparr>n_e2 := 1\<rparr>
     else demo_node RLN_BINOP RLOP_DIV 0 0 0)"

definition demo_var_ctx :: "rl_pool \<Rightarrow> rl_eval_ctx" where
  "demo_var_ctx pool = \<lparr>ev_pool = Some pool, ev_strbase = Some (\<lambda>_. NL),
     ev_syms = Some (an_tab demo_an_ctx), ev_nsyms = 1, ev_arena = Some (\<lambda>_. NL),
     ev_walk = Some 512, ev_vstack = Some 66, ev_emit = True\<rparr>"

lemma demo_name: "an_name demo_an_ctx 0 1 = Some 0"
  by (simp add: an_name_def demo_an_ctx_def rl_reserved_def rl_lookup_def rl_name_eq_def rl_memeq_def)

lemma demo_analysis:
  "rl_an_sub demo_an_ctx demo_var_pool (\<lambda>_. RLV_UNKNOWN) 1 =
    (demo_var_pool(0 := (demo_var_pool 0)\<lparr>n_k2 := 0\<rparr>), Inr RLV_INT)"
proof -
  have cap: "an_walkcap demo_an_ctx = 512" "an_typecap demo_an_ctx = 256"
    "sy_type (an_tab demo_an_ctx 0) = RLV_INT" by (simp_all add: demo_an_ctx_def)
  show ?thesis
    by (simp add: rl_an_sub_def an_loop.simps an_turn_def an_enter_def an_leave_def ty_binop_def
        demo_var_pool_def demo_node_def RL_POOL_MAX_def RL_NONODE_def demo_name [unfolded One_nat_def] cap Let_def)
qed

theorem rl_accepted_evaluates_witness:
  "exp_at (demo_var_pool(0 := (demo_var_pool 0)\<lparr>n_k2 := 0\<rparr>)) 1 \<noteq> None
    \<and> sound_result RLV_INT
        (fst (rl_eval (demo_var_ctx (demo_var_pool(0 := (demo_var_pool 0)\<lparr>n_k2 := 0\<rparr>))) 1))"
proof (rule rl_accepted_evaluates [OF demo_analysis])
  show "exp_at demo_var_pool 1 = Some (EBin RLOP_DIV (ELeaf (demo_var_pool 0)) (ELeaf (demo_var_pool 0)))"
    by (simp add: exp_at.simps demo_var_pool_def demo_node_def leaf_kinds_def)
qed (simp_all add: demo_an_ctx_def demo_var_ctx_def RL_POOL_MAX_def tab_typed_def ev_matches_def, linarith+)

end
