(* ===== verification/Rl_Shape.thy ===== *)
theory Rl_Shape
  imports Rl_Parse Rl_Check
begin

text \<open>
  What the parser builds. Every node is made after its children, so the pool holds finite
  trees: the root of an accepted part is a let, a two-stage pipeline, a command or an
  expression tree in the sense of the evaluator. The parser needs no more nodes, stack
  entries and arguments than the part has bytes.
\<close>

section \<open>Well-formed pools\<close>

definition node_ok :: "rl_pool \<Rightarrow> nat \<Rightarrow> bool" where
  "node_ok nodes j =
    (case n_kind (nodes j) of
       RLN_CMD \<Rightarrow> True
     | RLN_WORD \<Rightarrow> True
     | RLN_PIPE \<Rightarrow> n_k1 (nodes j) < j \<and> n_k2 (nodes j) < j
     | RLN_LET \<Rightarrow> n_k1 (nodes j) < j
     | RLN_STR \<Rightarrow> n_aux (nodes j) \<noteq> 3
     | _ \<Rightarrow> exp_at nodes j \<noteq> None)"

definition pool_ok :: "rlp \<Rightarrow> bool" where
  "pool_ok p \<longleftrightarrow> r_used p \<le> r_cap p \<and> r_cap p \<le> RL_POOL_MAX
    \<and> (\<forall>j < r_used p. node_ok (r_nodes p) j)"

definition extends :: "rlp \<Rightarrow> rlp \<Rightarrow> bool" where
  "extends p q \<longleftrightarrow> r_used p \<le> r_used q \<and> r_cap q = r_cap p
    \<and> (\<forall>j < r_used p. r_nodes q j = r_nodes p j)"

definition grows :: "rlp \<Rightarrow> rlp \<Rightarrow> bool" where
  "grows p q \<longleftrightarrow> pool_ok q \<and> extends p q"

lemma exp_at_cong: "(\<And>j. j \<le> i \<Longrightarrow> p j = q j) \<Longrightarrow> exp_at p i = exp_at q i"
proof (induction i rule: less_induct)
  case (less i)
  have "exp_at p k = exp_at q k" if "k < i" for k using less that by simp
  moreover have "p i = q i" using less.prems by simp
  ultimately show ?case
    by (cases "n_kind (q i)") (simp_all add: exp_at.simps [of p i] exp_at.simps [of q i] Let_def)
qed

lemma node_ok_cong: "(\<And>k. k \<le> j \<Longrightarrow> p k = q k) \<Longrightarrow> node_ok p j = node_ok q j"
  using exp_at_cong [of j p q] by (cases "n_kind (q j)") (simp_all add: node_ok_def)

lemma extends_refl [simp]: "extends p p"
  by (simp add: extends_def)

lemma extends_trans: "extends p q \<Longrightarrow> extends q r \<Longrightarrow> extends p r"
  by (auto simp: extends_def)

lemma grows_refl: "pool_ok p \<Longrightarrow> grows p p"
  by (simp add: grows_def)

lemma grows_trans: "grows p q \<Longrightarrow> grows q r \<Longrightarrow> grows p r"
  by (auto simp: grows_def intro: extends_trans)

definition same_pool :: "rlp \<Rightarrow> rlp \<Rightarrow> bool" where
  "same_pool p q \<longleftrightarrow> r_nodes q = r_nodes p \<and> r_used q = r_used p \<and> r_cap q = r_cap p"

lemma same_pool_refl [simp]: "same_pool p p"
  by (simp add: same_pool_def)

lemma same_pool_trans: "same_pool p q \<Longrightarrow> same_pool q r \<Longrightarrow> same_pool p r"
  by (simp add: same_pool_def)

lemma same_pool_grows: "pool_ok p \<Longrightarrow> same_pool p q \<Longrightarrow> grows p q"
  by (simp add: same_pool_def grows_def pool_ok_def extends_def)

lemma grows_same: "grows p q \<Longrightarrow> same_pool q r \<Longrightarrow> grows p r"
  by (auto simp: same_pool_def grows_def pool_ok_def extends_def)

lemma same_pool_ops [simp]:
  "same_pool p (p_cur p)" "same_pool p (p_next p)" "same_pool p (p_fail e p)" "same_pool p (p_leave p)"
  by (auto simp: same_pool_def p_cur_def p_next_def p_fail_def p_leave_def split: prod.splits)

lemma same_pool_at: "p_at p k = (q, b) \<Longrightarrow> same_pool p q"
  by (auto simp: p_at_def split: if_splits)

lemma same_pool_peek: "p_peek p = (q, r) \<Longrightarrow> same_pool p q"
  by (auto simp: p_peek_def Let_def same_pool_def split: prod.splits if_splits)

lemma same_pool_enter: "p_enter p = (q, b) \<Longrightarrow> same_pool p q"
  by (auto simp: p_enter_def Let_def same_pool_def p_fail_def split: if_splits)

lemma same_pool_redirect_ok: "p_redirect_ok p = (q, b) \<Longrightarrow> same_pool p q"
  by (auto simp: p_redirect_ok_def Let_def same_pool_def split: prod.splits if_splits)

lemma same_pool_push: "p_arg_push p i = (q, b) \<Longrightarrow> same_pool p q"
  by (auto simp: p_arg_push_def same_pool_def p_fail_def split: if_splits)

text \<open>A new node on top of a well-formed pool.\<close>

lemma mknode_fail: "p_mknode p k = (q, i) \<Longrightarrow> r_err q \<noteq> RLP_OK \<Longrightarrow> same_pool p q"
  by (auto simp: p_mknode_def same_pool_def p_fail_def split: if_splits)

lemma mknode_ok:
  assumes "p_mknode p k = (q, i)" "r_err q = RLP_OK" "pool_ok p"
  shows "i = r_used p \<and> r_used q = r_used p + 1 \<and> r_used p < r_cap p \<and> r_cap q = r_cap p
    \<and> r_nodes q = (r_nodes p)(i := fresh_node k)"
  using assms
  by (auto simp: p_mknode_def p_fail_def pool_ok_def RL_POOL_MAX_def split: if_splits)

lemma new_node:
  assumes "p_mknode p k = (q, i)" "r_err q = RLP_OK" "pool_ok p"
    and "node_ok ((r_nodes p)(r_used p := f (fresh_node k))) (r_used p)"
  shows "grows p (p_set i f q) \<and> i = r_used p \<and> r_used (p_set i f q) = r_used p + 1
    \<and> r_nodes (p_set i f q) = (r_nodes p)(r_used p := f (fresh_node k))"
proof -
  note mk = mknode_ok [OF assms(1-3)]
  let ?n = "(r_nodes p)(r_used p := f (fresh_node k))"
  have nodes: "r_nodes (p_set i f q) = ?n" using mk by (simp add: p_set_def)
  have old: "node_ok ?n j" if "j < r_used p" for j
    using node_ok_cong [of j ?n "r_nodes p"] assms(3) that by (simp add: pool_ok_def)
  have "\<forall>j < r_used p + 1. node_ok ?n j"
    using old assms(4) by (auto simp: less_Suc_eq)
  then have "pool_ok (p_set i f q)"
    using mk assms(3) nodes by (simp add: pool_ok_def p_set_def)
  moreover have "extends p (p_set i f q)" using mk nodes by (simp add: extends_def p_set_def)
  ultimately show ?thesis using mk nodes by (simp add: grows_def p_set_def)
qed

definition expr_root :: "rlp \<Rightarrow> nat \<Rightarrow> bool" where
  "expr_root p i \<longleftrightarrow> i < r_used p \<and> exp_at (r_nodes p) i \<noteq> None"

lemma expr_root_extends: "extends p q \<Longrightarrow> expr_root p i \<Longrightarrow> expr_root q i"
  using exp_at_cong [of i "r_nodes q" "r_nodes p"] by (auto simp: extends_def expr_root_def)

lemma expr_root_same: "same_pool p q \<Longrightarrow> expr_root q i = expr_root p i"
  by (simp add: same_pool_def expr_root_def)

lemma exp_at_old: "expr_root p i \<Longrightarrow> exp_at ((r_nodes p)(r_used p := nd)) i \<noteq> None"
  using exp_at_cong [of i "(r_nodes p)(r_used p := nd)" "r_nodes p"] by (simp add: expr_root_def)

lemma exp_at_leaf: "n_kind (nodes i) \<in> set leaf_kinds \<Longrightarrow> exp_at nodes i \<noteq> None"
  by (auto simp: exp_at.simps [of nodes i] leaf_kinds_def)

section \<open>Atoms\<close>

lemma p_atom_grows:
  assumes "p_atom p = (q, i)" "pool_ok p"
  shows "grows p q \<and> (r_err q = RLP_OK \<longrightarrow> expr_root q i)"
proof -
  let ?p = "p_cur p"
  have ok: "pool_ok ?p" using assms(2) same_pool_grows [OF assms(2), of ?p] by (simp add: grows_def)
  have start: "grows p ?p" by (rule same_pool_grows [OF assms(2)]) simp
  have fail: "grows p q'" if "p_mknode ?p k = (q', j)" "r_err q' \<noteq> RLP_OK" for q' j k
    by (rule grows_same [OF start mknode_fail [OF that]])
  have mk: "grows p (p_next (p_set j f q')) \<and> expr_root (p_next (p_set j f q')) j"
    if "p_mknode ?p k = (q', j)" "r_err q' = RLP_OK" "k \<in> set leaf_kinds"
      and "n_kind (f (fresh_node k)) = k" "k = RLN_STR \<longrightarrow> n_aux (f (fresh_node k)) \<noteq> 3" for q' j k f
  proof -
    let ?n = "(r_nodes ?p)(r_used ?p := f (fresh_node k))"
    have e: "exp_at ?n (r_used ?p) \<noteq> None" by (rule exp_at_leaf) (simp add: that(3,4))
    then have "node_ok ?n (r_used ?p)"
      using that(3-5) by (auto simp: node_ok_def leaf_kinds_def)
    from new_node [where f = f, OF that(1,2) ok this] have
      n: "grows ?p (p_set j f q')" "expr_root (p_set j f q') j" using e by (auto simp: expr_root_def)
    then show ?thesis
      using grows_same [OF grows_trans [OF start n(1)], of "p_next (p_set j f q')"]
        expr_root_same [of "p_set j f q'" "p_next (p_set j f q')" j] by simp
  qed
  have "grows p (p_fail e ?p)" for e by (rule grows_same [OF start]) simp
  moreover have "r_err (p_fail RLP_SYNTAX ?p) \<noteq> RLP_OK" by (simp add: p_fail_def)
  moreover have kinds: "{RLN_VAR, RLN_INT, RLN_STR, RLN_BOOL} \<subseteq> set leaf_kinds" by (simp add: leaf_kinds_def)
  ultimately show ?thesis
    using assms(1) start fail mk
    by (auto simp: p_atom_def Let_def fresh_node_def split: if_splits prod.splits)
qed

section \<open>Expressions\<close>

definition yd_ok :: "rlp \<Rightarrow> yd \<Rightarrow> bool" where
  "yd_ok p0 s \<longleftrightarrow> grows p0 (y_p s) \<and> list_all (expr_root (y_p s)) (y_vals s)"

lemma yd_ok_upd [simp]:
  "yd_ok p0 (s\<lparr>y_ops := a\<rparr>) = yd_ok p0 s" "yd_ok p0 (s\<lparr>y_unpend := n\<rparr>) = yd_ok p0 s"
  "yd_ok p0 (s\<lparr>y_parens := n\<rparr>) = yd_ok p0 s" "yd_ok p0 (s\<lparr>y_expect := b\<rparr>) = yd_ok p0 s"
  "yd_ok p0 (s\<lparr>y_have := b\<rparr>) = yd_ok p0 s"
  by (simp_all add: yd_ok_def)

lemma yd_ok_same:
  assumes "yd_ok p0 s" "same_pool (y_p s) q"
  shows "yd_ok p0 (s\<lparr>y_p := q\<rparr>)"
  using assms expr_root_same [OF assms(2)] by (auto simp: yd_ok_def list_all_iff intro: grows_same)

lemma yd_ok_fail: "yd_ok p0 s \<Longrightarrow> yd_ok p0 (yd_fail e s)"
  using yd_ok_same [of p0 s "p_fail e (y_p s)"] by (simp add: yd_fail_def)

lemma yd_ok_adv: "yd_ok p0 s \<Longrightarrow> yd_ok p0 (yd_adv s)"
  using yd_ok_same [of p0 s "p_next (y_p s)"] by (simp add: yd_adv_def)

lemma yd_ok_pushval:
  assumes "yd_ok p0 s" "expr_root (y_p s) i"
  shows "yd_ok p0 (yd_pushval i s)"
  using assms yd_ok_fail by (simp add: yd_pushval_def) (simp add: yd_ok_def)

lemma yd_ok_mk:
  assumes "yd_ok p0 s"
    and "exp_at ((r_nodes (y_p s))(r_used (y_p s) := f (fresh_node k))) (r_used (y_p s)) \<noteq> None"
    and "n_kind (f (fresh_node k)) \<in> {RLN_UNOP, RLN_BINOP, RLN_CALL, RLN_LEN}"
  shows "yd_ok p0 (yd_mk k f s)"
proof -
  let ?p = "y_p s"
  have ok: "pool_ok ?p" using assms(1) by (simp add: yd_ok_def grows_def)
  obtain q i where q: "p_mknode ?p k = (q, i)" by fastforce
  show ?thesis
  proof (cases "r_err q = RLP_OK")
    case True
    have "node_ok ((r_nodes ?p)(r_used ?p := f (fresh_node k))) (r_used ?p)"
      using assms(2,3) by (auto simp: node_ok_def)
    from new_node [where f = f, OF q True ok this] have n: "grows ?p (p_set i f q)" "expr_root (p_set i f q) i"
      using assms(2) by (auto simp: expr_root_def)
    have "list_all (expr_root (p_set i f q)) (y_vals s)"
      using assms(1) n(1) expr_root_extends by (auto simp: yd_ok_def grows_def list_all_iff)
    with n have "yd_ok p0 (s\<lparr>y_p := p_set i f q\<rparr>)"
      using assms(1) grows_trans by (auto simp: yd_ok_def)
    then show ?thesis using yd_ok_pushval n(2) True by (simp add: yd_mk_def q)
  next
    case False
    then show ?thesis using yd_ok_same [OF assms(1) mknode_fail [OF q False]] by (simp add: yd_mk_def q)
  qed
qed

lemma exp_at_un:
  assumes "expr_root p l" "n_kind nd \<in> {RLN_UNOP, RLN_CALL, RLN_LEN}" "n_k1 nd = l"
  shows "exp_at ((r_nodes p)(r_used p := nd)) (r_used p) \<noteq> None"
  using assms exp_at_old [OF assms(1), of nd]
  by (auto simp: exp_at.simps [of "(r_nodes p)(r_used p := nd)" "r_used p"] expr_root_def)

lemma exp_at_bin:
  assumes "expr_root p l" "expr_root p r" "n_kind nd = RLN_BINOP" "n_k1 nd = l" "n_k2 nd = r"
  shows "exp_at ((r_nodes p)(r_used p := nd)) (r_used p) \<noteq> None"
  using assms exp_at_old [OF assms(1), of nd] exp_at_old [OF assms(2), of nd]
  by (auto simp: exp_at.simps [of "(r_nodes p)(r_used p := nd)" "r_used p"] expr_root_def)

lemma yd_ok_vals: "yd_ok p0 s \<Longrightarrow> set vs \<subseteq> set (y_vals s) \<Longrightarrow> yd_ok p0 (s\<lparr>y_vals := vs\<rparr>)"
  by (auto simp: yd_ok_def list_all_iff)

lemma yd_ok_vals' [simp]:
  "yd_ok p0 (s\<lparr>y_ops := a, y_vals := vs\<rparr>) = yd_ok p0 (s\<lparr>y_vals := vs\<rparr>)"
  "yd_ok p0 (s\<lparr>y_ops := a, y_vals := vs, y_unpend := n\<rparr>) = yd_ok p0 (s\<lparr>y_vals := vs\<rparr>)"
  by (simp_all add: yd_ok_def)

lemma yd_ok_reduce:
  assumes "yd_ok p0 s"
  shows "yd_ok p0 (yd_reduce s)"
proof -
  have bin: "yd_ok p0 (yd_mk RLN_BINOP (\<lambda>nd. nd\<lparr>n_op := op, n_k1 := l, n_k2 := r\<rparr>)
      (s\<lparr>y_ops := os, y_vals := vs\<rparr>))" if "y_vals s = r # l # vs" for op l r os vs
    using assms that yd_ok_vals [OF assms, of vs]
    by (intro yd_ok_mk exp_at_bin) (auto simp: yd_ok_def fresh_node_def)
  have un: "yd_ok p0 (yd_mk RLN_UNOP (\<lambda>nd. nd\<lparr>n_op := op, n_k1 := l\<rparr>)
      (s\<lparr>y_ops := os, y_vals := vs, y_unpend := n\<rparr>))" if "y_vals s = l # vs" for op l os vs n
    using assms that yd_ok_vals [OF assms, of vs]
    by (intro yd_ok_mk exp_at_un) (auto simp: yd_ok_def fresh_node_def)
  show ?thesis
    using assms bin un yd_ok_fail
    by (auto simp: yd_reduce_def split: list.splits rly.splits)
qed

lemma yd_ok_while: "yd_ok p0 s \<Longrightarrow> yd_ok p0 (yd_while f s)"
proof (induction f s rule: yd_while.induct)
  case (1 f s)
  then show ?case by (subst yd_while.simps) (auto simp: yd_ok_reduce split: list.splits)
qed

lemma yd_ok_pushop: "yd_ok p0 s \<Longrightarrow> yd_ok p0 (yd_pushop x s)"
  by (simp add: yd_pushop_def Let_def yd_ok_fail)

fun yd_next_state :: "yd_next \<Rightarrow> yd" where
  "yd_next_state (YCont s) = s"
| "yd_next_state (YBreak s) = s"
| "yd_next_state (YFail s) = s"

lemma yd_ok_cont: "yd_ok p0 s \<Longrightarrow> yd_ok p0 (yd_next_state (yd_cont s))"
  by (simp add: yd_cont_def)

lemma yd_ok_operand:
  assumes "yd_ok p0 s"
  shows "yd_ok p0 (yd_next_state (yd_operand s))"
proof -
  have atom: "yd_ok p0 (s\<lparr>y_p := q\<rparr>) \<and> (r_err q = RLP_OK \<longrightarrow> expr_root q i)"
    if "p_atom (y_p s) = (q, i)" for q i
  proof -
    have "pool_ok (y_p s)" using assms by (simp add: yd_ok_def grows_def)
    from p_atom_grows [OF that this] assms show ?thesis
      by (auto simp: yd_ok_def list_all_iff intro: grows_trans expr_root_extends simp: grows_def
          intro: extends_trans)
  qed
  have val: "yd_ok p0 (yd_while is_unop (yd_pushval i (s\<lparr>y_p := q\<rparr>)))"
    if "p_atom (y_p s) = (q, i)" "r_err q = RLP_OK" for q i
    using atom [OF that(1)] that(2) by (intro yd_ok_while yd_ok_pushval) auto
  show ?thesis
    using assms atom val
    by (auto simp: yd_operand_def Let_def yd_ok_pushop yd_ok_adv yd_ok_fail yd_ok_cont
        split: prod.splits)
qed

lemma yd_ok_mkcall:
  assumes "yd_ok p0 s" "0 < argc"
  shows "yd_ok p0 (yd_mkcall argc s)"
proof (cases "length (y_vals s) < argc + 1")
  case True
  then show ?thesis using assms by (simp add: yd_mkcall_def yd_ok_fail)
next
  case False
  let ?s = "s\<lparr>y_vals := drop (argc + 1) (y_vals s)\<rparr>" and ?a = "y_vals s ! (argc - 1)"
  have a: "expr_root (y_p s) ?a"
    using False assms by (auto simp: yd_ok_def list_all_length)
  have s: "yd_ok p0 ?s" by (rule yd_ok_vals [OF assms(1)]) (simp add: set_drop_subset)
  have mk: "yd_ok p0 (yd_mk k f ?s)"
    if "n_kind (f (fresh_node k)) \<in> {RLN_CALL, RLN_LEN}" "n_k1 (f (fresh_node k)) = ?a" for k f
    using exp_at_un [OF a _ that(2)] that s by (intro yd_ok_mk) auto
  show ?thesis
    using False assms(2) mk by (auto simp: yd_mkcall_def Let_def fresh_node_def)
qed

lemma yd_ok_close:
  assumes "yd_ok p0 s" "\<not> y_expect s"
  shows "yd_ok p0 (yd_next_state (yd_close s))"
  using assms
  by (auto simp: yd_close_def Let_def yd_ok_fail yd_ok_adv yd_ok_mkcall yd_ok_cont
      split: list.splits rly.splits)

lemma yd_fail_expect [simp]: "y_expect (yd_fail e s) = y_expect s"
  by (simp add: yd_fail_def)

lemma yd_mk_expect [simp]: "y_expect (yd_mk k f s) = y_expect s"
  by (simp add: yd_mk_def yd_pushval_def yd_fail_def split: prod.splits)

lemma yd_reduce_expect [simp]: "y_expect (yd_reduce s) = y_expect s"
  by (auto simp: yd_reduce_def split: list.splits rly.splits)

lemma yd_while_expect [simp]: "y_expect (yd_while f s) = y_expect s"
proof (induction f s rule: yd_while.induct)
  case (1 f s)
  then show ?case by (subst yd_while.simps) (auto split: list.splits)
qed

lemma yd_ok_step:
  assumes "yd_ok p0 s"
  shows "yd_ok p0 (yd_next_state (yd_step s))"
proof -
  let ?s = "s\<lparr>y_p := p_cur (y_p s)\<rparr>"
  have s: "yd_ok p0 ?s" by (rule yd_ok_same [OF assms]) simp
  have "yd_ok p0 (yd_next_state (yd_infix prec op ?s))" for prec op
    using yd_ok_while [OF s] by (auto simp: yd_infix_def Let_def intro!: yd_ok_fail yd_ok_adv)
  moreover have "yd_ok p0 (yd_next_state (yd_callopen ?s))"
    using yd_ok_pushop [OF s] by (auto simp: yd_callopen_def Let_def intro!: yd_ok_adv)
  moreover have "yd_ok p0 (yd_next_state (yd_separator ?s))" if "\<not> y_expect ?s"
    using yd_ok_while [OF s, of "\<lambda>_. True"] s that
    by (auto simp: yd_separator_def yd_comma_def Let_def split: list.splits rly.splits
        intro!: yd_ok_close yd_ok_fail yd_ok_adv)
  ultimately show ?thesis
    using assms s yd_ok_operand [OF s]
    by (auto simp: yd_step_def Let_def split: option.splits)
qed

lemma yd_ok_loop: "yd_ok p0 s \<Longrightarrow> yd_ok p0 (yd_loop s)"
proof (induction s rule: yd_loop.induct)
  case (1 s)
  from yd_ok_step [OF "1.prems"] "1.IH" show ?case
    by (subst yd_loop.simps) (auto split: yd_next.splits)
qed

lemma p_expr_yd_grows:
  assumes "p_expr_yd p = (q, i)" "pool_ok p"
  shows "grows p q \<and> (r_err q = RLP_OK \<longrightarrow> expr_root q i)"
proof -
  let ?s = "yd_while (\<lambda>_. True) (yd_loop \<lparr>y_p = p, y_ops = [], y_vals = [], y_parens = 0,
    y_unpend = 0, y_expect = True, y_have = False\<rparr>)"
  have "yd_ok p ?s"
    using grows_refl [OF assms(2)] by (intro yd_ok_while yd_ok_loop) (simp add: yd_ok_def)
  then have s: "grows p (y_p ?s)" "\<forall>v \<in> set (y_vals ?s). expr_root (y_p ?s) v"
    by (auto simp: yd_ok_def list_all_iff)
  have "grows p (p_fail e (y_p ?s))" for e by (rule grows_same [OF s(1)]) simp
  then show ?thesis
    using assms(1) s
    by (auto simp: p_expr_yd_def yd_finish_def Let_def yd_bad_def p_fail_def
        split: if_splits list.splits)
qed

section \<open>Commands, stages, parts\<close>

text \<open>A new node of a kind without expression children.\<close>

lemma new_plain:
  assumes "p_mknode p k = (q, i)" "r_err q = RLP_OK" "pool_ok p"
    and "n_kind (f (fresh_node k)) \<in> {RLN_CMD, RLN_WORD, RLN_STR}"
    and "n_kind (f (fresh_node k)) = RLN_STR \<longrightarrow> n_aux (f (fresh_node k)) \<noteq> 3"
  shows "grows p (p_set i f q) \<and> i < r_used (p_set i f q)
    \<and> r_nodes (p_set i f q) i = f (fresh_node k)"
proof -
  have "node_ok ((r_nodes p)(r_used p := f (fresh_node k))) (r_used p)"
    using assms(4,5) by (auto simp: node_ok_def)
  from new_node [where f = f, OF assms(1-3) this]
  have n: "grows p (p_set i f q)" "i = r_used p" "r_used (p_set i f q) = r_used p + 1"
    "r_nodes (p_set i f q) = (r_nodes p)(r_used p := f (fresh_node k))" by blast+
  show ?thesis unfolding n(3,4) using n(1,2) by simp
qed

lemma grows_ops:
  assumes "grows p q"
  shows "grows p (p_next q)" "grows p (p_fail e q)" "grows p (p_cur q)" "grows p (p_leave q)"
  using grows_same [OF assms] by simp_all

fun arg_state :: "cmd_arg \<Rightarrow> rlp" where
  "arg_state (ArgNone p) = p"
| "arg_state (ArgEnd p) = p"
| "arg_state (ArgNode p _) = p"

lemma pool_ok_grows: "grows p q \<Longrightarrow> pool_ok q"
  by (simp add: grows_def)

lemma grows_mkfail: "grows p q \<Longrightarrow> p_mknode q k = (r, i) \<Longrightarrow> r_err r \<noteq> RLP_OK \<Longrightarrow> grows p r"
  by (rule grows_same [OF _ mknode_fail])

lemma cmd_redirect_grows:
  assumes "pool_ok p"
  shows "grows p (arg_state (cmd_redirect p))"
proof -
  obtain p1 gt where p1: "p_at (p_next p) RLT_GREATER = (p1, gt)" by fastforce
  obtain p2 str where p2: "p_at p1 RLT_STR = (p2, str)" by fastforce
  obtain p3 i where p3: "p_mknode p2 RLN_STR = (p3, i)" by fastforce
  have g: "grows p p2"
    using same_pool_grows [OF assms] same_pool_trans [OF same_pool_trans [OF _ same_pool_at [OF p1]]
        same_pool_at [OF p2], of p] by simp
  have new: "grows p (p_next (p_set i (\<lambda>nd. nd\<lparr>n_e1 := a, n_e2 := b, n_aux := 2\<rparr>) p3))"
    if "r_err p3 = RLP_OK" for a b
  proof (rule grows_ops(1), rule grows_trans [OF g])
    show "grows p2 (p_set i (\<lambda>nd. nd\<lparr>n_e1 := a, n_e2 := b, n_aux := 2\<rparr>) p3)"
      using new_plain [where f = "\<lambda>nd. nd\<lparr>n_e1 := a, n_e2 := b, n_aux := 2\<rparr>", OF p3 that pool_ok_grows [OF g]]
      by (simp add: fresh_node_def)
  qed
  have fail: "r_err p3 \<noteq> RLP_OK \<Longrightarrow> grows p p3" by (rule grows_mkfail [OF g p3])
  show ?thesis
    using g fail new by (simp add: cmd_redirect_def p1 p2 p3 Let_def)
qed

lemma cmd_dash_grows:
  assumes "pool_ok p"
  shows "grows p (arg_state (cmd_dash p))"
proof -
  obtain q pk where pk: "p_peek p = (q, pk)" by fastforce
  have g: "grows p (p_next q)" "grows p q"
    using same_pool_grows [OF assms] same_pool_peek [OF pk] same_pool_trans [OF same_pool_peek [OF pk]]
    by simp_all
  have word: "grows p (p_next (p_set i (\<lambda>nd. nd\<lparr>n_e1 := a, n_e2 := b, n_aux := 1\<rparr>) (p_cur p1)))"
    if "p_mknode (p_next q) RLN_WORD = (p1, i)" "r_err p1 = RLP_OK" for p1 i a b
  proof -
    let ?f = "\<lambda>nd. nd\<lparr>n_e1 := a, n_e2 := b, n_aux := 1\<rparr>"
    have "grows (p_next q) (p_set i ?f p1)"
      using new_plain [where f = ?f, OF that pool_ok_grows [OF g(1)]] by (simp add: fresh_node_def)
    moreover have "same_pool (p_set i ?f p1) (p_next (p_set i ?f (p_cur p1)))"
      by (auto simp: same_pool_def p_set_def p_next_def p_cur_def split: prod.splits)
    ultimately show ?thesis using g(1) grows_trans grows_same by blast
  qed
  have int: "grows p p1 \<and> (r_err p1 = RLP_OK \<longrightarrow> expr_root p1 lit)"
    if "p_atom (p_next q) = (p1, lit)" for p1 lit
    using p_atom_grows [OF that pool_ok_grows [OF g(1)]] grows_trans [OF g(1)] by blast
  have neg: "grows p (p_set i (\<lambda>nd. nd\<lparr>n_op := RLOP_NEG, n_k1 := lit\<rparr>) p2)"
    if "p_atom (p_next q) = (p1, lit)" "r_err p1 = RLP_OK" "p_mknode p1 RLN_UNOP = (p2, i)"
      "r_err p2 = RLP_OK" for p1 lit p2 i
  proof -
    let ?f = "\<lambda>nd. nd\<lparr>n_op := RLOP_NEG, n_k1 := lit\<rparr>"
    have ok: "pool_ok p1" "expr_root p1 lit" using int [OF that(1)] that(2) by (auto simp: grows_def)
    have "exp_at ((r_nodes p1)(r_used p1 := ?f (fresh_node RLN_UNOP))) (r_used p1) \<noteq> None"
      by (rule exp_at_un [OF ok(2)]) (simp_all add: fresh_node_def)
    then have "node_ok ((r_nodes p1)(r_used p1 := ?f (fresh_node RLN_UNOP))) (r_used p1)"
      by (simp add: node_ok_def fresh_node_def)
    from new_node [where f = ?f, OF that(3,4) ok(1) this] int [OF that(1)] show ?thesis
      using grows_trans by blast
  qed
  show ?thesis
    using g word int neg grows_mkfail [OF g(1)] grows_mkfail [of p]
    by (auto simp: cmd_dash_def pk Let_def split: option.splits prod.splits)
qed

lemma cmd_arg_grows:
  assumes "pool_ok p"
  shows "grows p (arg_state (cmd_arg p))"
proof -
  have g: "grows p (p_cur p)" by (rule same_pool_grows [OF assms]) simp
  note ok = pool_ok_grows [OF g]
  have word: "grows p (p_next (p_set i (\<lambda>nd. nd\<lparr>n_e1 := a, n_e2 := b\<rparr>) p1))"
    if "p_mknode (p_cur p) RLN_WORD = (p1, i)" "r_err p1 = RLP_OK" for p1 i a b
  proof (rule grows_ops(1), rule grows_trans [OF g])
    show "grows (p_cur p) (p_set i (\<lambda>nd. nd\<lparr>n_e1 := a, n_e2 := b\<rparr>) p1)"
      using new_plain [where f = "\<lambda>nd. nd\<lparr>n_e1 := a, n_e2 := b\<rparr>", OF that ok]
      by (simp add: fresh_node_def)
  qed
  have atom: "grows p p1" if "p_atom (p_cur p) = (p1, i)" for p1 i
    using p_atom_grows [OF that ok] grows_trans [OF g] by blast
  have dash: "grows p (arg_state (cmd_dash (p_cur p)))"
    and redirect: "grows p (arg_state (cmd_redirect (p_cur p)))"
    by (rule grows_trans [OF g cmd_dash_grows [OF ok]], rule grows_trans [OF g cmd_redirect_grows [OF ok]])
  have fail: "grows p p1" if "p_mknode (p_cur p) k = (p1, i)" "r_err p1 \<noteq> RLP_OK" for k p1 i
    by (rule grows_mkfail [OF g that])
  show ?thesis
    using g word atom fail dash redirect
    by (auto simp: cmd_arg_def Let_def split: prod.splits)
qed

lemma p_cmd_args_grows: "pool_ok p \<Longrightarrow> grows p (fst (p_cmd_args p n))"
proof (induction p n rule: p_cmd_args.induct)
  case (1 p n)
  have g: "grows p (arg_state (cmd_arg p))" by (rule cmd_arg_grows [OF "1.prems"])
  show ?case
  proof (cases "cmd_arg p")
    case (ArgNode q aid)
    obtain q' b where q': "p_arg_push q aid = (q', b)" by fastforce
    have gq: "grows p q'" using grows_same [OF _ same_pool_push [OF q'], of p] g ArgNode by simp
    have "grows p (p_fail e q')" for e by (rule grows_same [OF gq]) simp
    then show ?thesis
      using "1.IH" [OF ArgNode q' [symmetric]] grows_trans [OF gq] gq pool_ok_grows [OF gq] ArgNode q'
      by (subst p_cmd_args.simps) auto
  qed (use g in \<open>subst p_cmd_args.simps, simp\<close>)+
qed

definition stage_root :: "rl_pool \<Rightarrow> nat \<Rightarrow> bool" where
  "stage_root nodes i \<longleftrightarrow> n_kind (nodes i) = RLN_CMD \<or> exp_at nodes i \<noteq> None"

definition pipe_root :: "rl_pool \<Rightarrow> nat \<Rightarrow> bool" where
  "pipe_root nodes i \<longleftrightarrow> stage_root nodes i
    \<or> (n_kind (nodes i) = RLN_PIPE \<and> n_k1 (nodes i) < i \<and> n_k2 (nodes i) < i
      \<and> stage_root nodes (n_k1 (nodes i)) \<and> stage_root nodes (n_k2 (nodes i)))"

definition part_root :: "rl_pool \<Rightarrow> nat \<Rightarrow> bool" where
  "part_root nodes i \<longleftrightarrow> pipe_root nodes i
    \<or> (n_kind (nodes i) = RLN_LET \<and> n_k1 (nodes i) < i \<and> pipe_root nodes (n_k1 (nodes i)))"

lemma stage_root_cong: "(\<And>j. j \<le> i \<Longrightarrow> p j = q j) \<Longrightarrow> stage_root p i = stage_root q i"
  using exp_at_cong [of i p q] by (simp add: stage_root_def)

lemma pipe_root_cong:
  assumes "\<And>j. j \<le> i \<Longrightarrow> p j = q j"
  shows "pipe_root p i = pipe_root q i"
proof -
  have "stage_root p k = stage_root q k" if "k \<le> i" for k
    by (rule stage_root_cong) (use assms that in simp)
  then show ?thesis using assms [of i] by (auto simp: pipe_root_def)
qed

text \<open>The result of a parsing function: a grown pool, and on success a root of a given form.\<close>

definition parsed :: "(rl_pool \<Rightarrow> nat \<Rightarrow> bool) \<Rightarrow> rlp \<Rightarrow> rlp \<times> nat \<Rightarrow> bool" where
  "parsed R p r \<longleftrightarrow> grows p (fst r)
    \<and> (r_err (fst r) = RLP_OK \<longrightarrow> snd r < r_used (fst r) \<and> R (r_nodes (fst r)) (snd r))"

lemma parsed_fail: "grows p q \<Longrightarrow> r_err q \<noteq> RLP_OK \<Longrightarrow> parsed R p (q, i)"
  by (simp add: parsed_def)

lemma parsed_grows: "grows p q \<Longrightarrow> parsed R q r \<Longrightarrow> parsed R p r"
  using grows_trans by (auto simp: parsed_def)

lemma p_mkcmd_parsed:
  assumes "pool_ok p" "p_mkcmd p name base nargs = (q, i)"
  shows "parsed stage_root p (q, i)"
proof -
  define f :: "rl_node \<Rightarrow> rl_node" where f: "f = (\<lambda>nd. nd\<lparr>n_e1 := t_off name + t_len name * 65536,
    n_e2 := nargs mod 256 + base * 256, n_aux := (if 255 < nargs then 255 else nargs)\<rparr>)"
  have kind: "n_kind (f (fresh_node RLN_CMD)) = RLN_CMD" by (simp add: f fresh_node_def)
  obtain p1 ok where p1: "p_enter p = (p1, ok)" by fastforce
  obtain p2 j where p2: "p_mknode p1 RLN_CMD = (p2, j)" by fastforce
  have g: "grows p p1" by (rule same_pool_grows [OF assms(1) same_pool_enter [OF p1]])
  have bad: "r_err p1 \<noteq> RLP_OK" if "\<not> ok"
    using p1 that by (auto simp: p_enter_def Let_def p_fail_def split: if_splits)
  have new: "grows p (p_set j f p2) \<and> j < r_used (p_set j f p2) \<and> n_kind (r_nodes (p_set j f p2) j) = RLN_CMD"
    if "r_err p2 = RLP_OK"
    using new_plain [where f = f, OF p2 that pool_ok_grows [OF g]] grows_trans [OF g] kind by auto
  have leave: "same_pool (p_set j f p2) (p_set j f (p_leave p2))" "r_err (p_leave p2) = r_err p2"
    by (simp_all add: same_pool_def p_set_def p_leave_def)
  have "parsed stage_root p (p_set j f (p_leave p2), j)" if "r_err p2 = RLP_OK"
    using new [OF that] grows_same [OF _ leave(1)] leave(1)
    by (simp add: parsed_def stage_root_def same_pool_def)
  moreover have "parsed stage_root p (p_leave p2, k)" if "r_err p2 \<noteq> RLP_OK" for k
    using grows_ops(4) [OF grows_mkfail [OF g p2 that]] that leave(2) by (simp add: parsed_def)
  moreover have "parsed stage_root p (p1, k)" if "\<not> ok" for k
    using g bad [OF that] by (simp add: parsed_def)
  ultimately show ?thesis
    using assms(2) leave(2) unfolding p_mkcmd_def p1 p2 Let_def prod.case f [symmetric]
    by (auto split: if_splits)
qed

lemma restore_grows:
  assumes "pool_ok p" "extends p q"
  shows "grows p (p_restore q (p_save p))"
proof -
  have "node_ok (r_nodes q) j = node_ok (r_nodes p) j" if "j < r_used p" for j
    by (rule node_ok_cong) (use assms(2) that in \<open>simp add: extends_def\<close>)
  then show ?thesis
    using assms by (simp add: grows_def pool_ok_def extends_def p_restore_def p_save_def)
qed

lemma p_cmd_first_same: "p_cmd_first p = (q, b) \<Longrightarrow> same_pool p q"
  by (auto simp: p_cmd_first_def Let_def split: if_splits prod.splits
      dest!: same_pool_peek same_pool_redirect_ok intro: same_pool_trans)

lemma p_arg_starter_same: "p_arg_starter p = (q, b) \<Longrightarrow> same_pool p q"
  by (auto simp: p_arg_starter_def split: if_splits)

lemma p_cmd_grows:
  assumes "p_cmd p = (q, r)" "pool_ok p"
  shows "grows p q \<and> (r_err q = RLP_OK \<longrightarrow> r \<noteq> RL_NONODE \<longrightarrow> r < r_used q \<and> stage_root (r_nodes q) r)"
proof -
  let ?p = "p_next (p_cur p)"
  obtain p1 st where p1: "p_arg_starter ?p = (p1, st)" by fastforce
  obtain p2 ok where p2: "p_cmd_first (p_cur p1) = (p2, ok)" by fastforce
  obtain p3 res where p3: "p_cmd_args p2 0 = (p3, res)" by fastforce
  have g1: "grows p p1"
    using grows_same [OF grows_ops(1) [OF same_pool_grows [OF assms(2)]] p_arg_starter_same [OF p1]] by simp
  have g2: "grows p p2" by (rule grows_same [OF grows_ops(3) [OF g1] p_cmd_first_same [OF p2]])
  have g3: "grows p p3"
    using grows_trans [OF g2 p_cmd_args_grows [OF pool_ok_grows [OF g2], of 0]] p3 by simp
  have mk: "parsed stage_root p (q', i)" if "p_mkcmd p3 nm b n = (q', i)" for nm b n q' i
    by (rule parsed_grows [OF g3 p_mkcmd_parsed [OF pool_ok_grows [OF g3] that]])
  have nomem: "grows p (p_fail RLP_NOMEM p3)" by (rule grows_ops(2) [OF g3])
  show ?thesis
    using assms(1) g1 g2 g3 nomem mk [of _ _ _ q r] grows_refl [OF assms(2)]
    unfolding p_cmd_def Let_def p1 p2 p3 prod.case
    by (auto simp: parsed_def p_fail_def split: if_splits option.splits)
qed

lemma p_expr_parsed: "pool_ok p \<Longrightarrow> parsed stage_root p (p_expr_yd p)"
  using p_expr_yd_grows [of p "fst (p_expr_yd p)" "snd (p_expr_yd p)"]
  by (auto simp: parsed_def expr_root_def stage_root_def)

lemma p_cmd_or_expr_parsed:
  assumes "pool_ok p"
  shows "parsed stage_root p (p_cmd_or_expr p)"
proof (cases "r_err p = RLP_OK")
  case True
  let ?p = "p_cur p"
  have g: "grows p ?p" by (rule same_pool_grows [OF assms]) simp
  note ok = pool_ok_grows [OF g]
  obtain q r where q: "p_cmd ?p = (q, r)" by fastforce
  note c = p_cmd_grows [OF q ok]
  have "grows ?p (p_restore q (p_save ?p))" using c ok by (intro restore_grows) (auto simp: grows_def)
  then have restored: "parsed stage_root p (p_expr_yd (p_restore q (p_save ?p)))"
    using p_expr_parsed pool_ok_grows g grows_trans parsed_grows by blast
  have cmd: "grows p q" using c g grows_trans by blast
  have expr: "parsed stage_root p (p_expr_yd ?p)" by (rule parsed_grows [OF g p_expr_parsed [OF ok]])
  show ?thesis
    using True c cmd restored expr unfolding p_cmd_or_expr_def Let_def q prod.case
    by (auto simp: parsed_def)
qed (use assms in \<open>simp add: p_cmd_or_expr_def parsed_def grows_refl\<close>)

lemma p_stage_parsed:
  assumes "pool_ok p"
  shows "parsed stage_root p (p_stage p)"
proof (cases "r_err p = RLP_OK")
  case True
  let ?p = "p_cur p"
  have g: "grows p ?p" by (rule same_pool_grows [OF assms]) simp
  obtain q pk where q: "p_peek ?p = (q, pk)" by fastforce
  have gq: "grows p q" by (rule grows_same [OF g same_pool_peek [OF q]])
  have other: "parsed stage_root p (p_cmd_or_expr q)" "parsed stage_root p (p_cmd_or_expr ?p)"
    by (rule parsed_grows [OF gq p_cmd_or_expr_parsed [OF pool_ok_grows [OF gq]]],
        rule parsed_grows [OF g p_cmd_or_expr_parsed [OF pool_ok_grows [OF g]]])
  define f :: "rl_node \<Rightarrow> rl_node" where f: "f = (\<lambda>nd. nd\<lparr>n_e1 := t_off (r_cur q) + t_len (r_cur q) * 65536,
    n_e2 := 0, n_aux := 0, n_k1 := RL_NONODE\<rparr>)"
  have kind: "n_kind (f (fresh_node RLN_CMD)) = RLN_CMD" by (simp add: f fresh_node_def)
  obtain p2 ok where p2: "p_enter (p_next q) = (p2, ok)" by fastforce
  obtain p3 i where p3: "p_mknode p2 RLN_CMD = (p3, i)" by fastforce
  have g2: "grows p p2" by (rule grows_same [OF grows_ops(1) [OF gq] same_pool_enter [OF p2]])
  have bad: "r_err p2 \<noteq> RLP_OK" if "\<not> ok"
    using p2 that by (auto simp: p_enter_def Let_def p_fail_def split: if_splits)
  have leave: "same_pool (p_set i f p3) (p_set i f (p_leave p3))" "r_err (p_leave p3) = r_err p3"
    by (simp_all add: same_pool_def p_set_def p_leave_def)
  have "grows p (p_set i f p3) \<and> i < r_used (p_set i f p3) \<and> n_kind (r_nodes (p_set i f p3) i) = RLN_CMD"
    if "r_err p3 = RLP_OK"
    using new_plain [where f = f, OF p3 that pool_ok_grows [OF g2]] grows_trans [OF g2] kind by auto
  then have "parsed stage_root p (p_set i f (p_leave p3), i)" if "r_err p3 = RLP_OK"
    using that grows_same [OF _ leave(1)] leave(1)
    by (simp add: parsed_def stage_root_def same_pool_def)
  moreover have "parsed stage_root p (p_leave p3, k)" if "r_err p3 \<noteq> RLP_OK" for k
    using grows_ops(4) [OF grows_mkfail [OF g2 p3 that]] that leave(2) by (simp add: parsed_def)
  moreover have "parsed stage_root p (p2, k)" if "\<not> ok" for k
    using g2 bad [OF that] by (simp add: parsed_def)
  ultimately show ?thesis
    using True other leave(2) unfolding p_stage_def Let_def q prod.case p2 p3 f [symmetric]
    by (auto simp: p2 p3 f [symmetric] q split: prod.splits option.splits)
qed (use assms in \<open>simp add: p_stage_def parsed_def grows_refl\<close>)

lemma stage_root_extends:
  assumes "extends p q" "i < r_used p" "stage_root (r_nodes p) i"
  shows "stage_root (r_nodes q) i"
proof -
  have "stage_root (r_nodes q) i = stage_root (r_nodes p) i"
    by (rule stage_root_cong) (use assms(1,2) in \<open>simp add: extends_def\<close>)
  with assms(3) show ?thesis by simp
qed

lemma pipe_loop_start:
  assumes "pool_ok p" "p_at (p_next p) RLT_EOF = (p1, eof)" "p_stage p1 = (p2, st)"
  shows "grows p p1 \<and> grows p p2
    \<and> (r_err p2 = RLP_OK \<longrightarrow> st < r_used p2 \<and> stage_root (r_nodes p2) st)"
proof -
  have g1: "grows p p1"
    using grows_same [OF grows_ops(1) [OF grows_refl [OF assms(1)]] same_pool_at [OF assms(2)]] .
  from p_stage_parsed [OF pool_ok_grows [OF g1]] assms(3)
  have "grows p1 p2" "r_err p2 = RLP_OK \<longrightarrow> st < r_used p2 \<and> stage_root (r_nodes p2) st"
    by (simp_all add: parsed_def)
  with g1 grows_trans show ?thesis by blast
qed

text \<open>A third stage is always an error.\<close>

lemma p_pipe_loop_third:
  assumes "pool_ok p" "2 \<le> stages" "p_pipe_loop p left stages = (q, i)"
  shows "grows p q \<and> r_err q \<noteq> RLP_OK"
proof -
  obtain p1 eof where p1: "p_at (p_next p) RLT_EOF = (p1, eof)" by fastforce
  obtain p2 st where p2: "p_stage p1 = (p2, st)" by fastforce
  note g = pipe_loop_start [OF assms(1) p1 p2]
  have "grows p (p_fail RLP_SYNTAX p1)" "grows p (p_fail RLP_SYNTAX p2)" using g grows_ops(2) by blast+
  then show ?thesis
    using assms(2,3) g unfolding p_pipe_loop.simps [of p] Let_def p1 p2 prod.case
    by (auto simp: p_fail_def split: if_splits)
qed

lemma p_pipe_loop_parsed:
  assumes "pool_ok p" "left < r_used p" "stage_root (r_nodes p) left"
  shows "parsed pipe_root p (p_pipe_loop p left 1)"
proof -
  obtain p1 eof where p1: "p_at (p_next p) RLT_EOF = (p1, eof)" by fastforce
  obtain p2 st where p2: "p_stage p1 = (p2, st)" by fastforce
  obtain p3 i where p3: "p_mknode p2 RLN_PIPE = (p3, i)" by fastforce
  define f :: "rl_node \<Rightarrow> rl_node" where f: "f = (\<lambda>nd. nd\<lparr>n_k1 := left, n_k2 := st\<rparr>)"
  obtain p4 more where p4: "p_at (p_set i f p3) RLT_PIPEGT = (p4, more)" by fastforce
  note g = pipe_loop_start [OF assms(1) p1 p2]
  then have fails: "grows p (p_fail e p1)" "grows p (p_fail e p2)" for e using grows_ops(2) by blast+
  have fail3: "grows p p3" if "r_err p3 \<noteq> RLP_OK" using g grows_mkfail p3 that by blast
  have good: "grows p p4 \<and> i < r_used p4 \<and> pipe_root (r_nodes p4) i"
    if "r_err p2 = RLP_OK" "r_err p3 = RLP_OK"
  proof -
    let ?n = "(r_nodes p2)(r_used p2 := f (fresh_node RLN_PIPE))"
    have st: "st < r_used p2" "stage_root (r_nodes p2) st" and g2: "grows p p2" using g that(1) by auto
    have l: "left < r_used p2" "stage_root (r_nodes p2) left"
      using g2 assms(2,3) stage_root_extends [of p p2 left] by (auto simp: grows_def extends_def)
    have nd: "n_kind (f (fresh_node RLN_PIPE)) = RLN_PIPE" "n_k1 (f (fresh_node RLN_PIPE)) = left"
      "n_k2 (f (fresh_node RLN_PIPE)) = st" by (simp_all add: f fresh_node_def)
    have "node_ok ?n (r_used p2)" using l st by (simp add: node_ok_def nd)
    from new_node [where f = f, OF p3 that(2) pool_ok_grows [OF g2] this]
    have n: "grows p2 (p_set i f p3)" "i = r_used p2" "r_used (p_set i f p3) = r_used p2 + 1"
      "r_nodes (p_set i f p3) = ?n" by blast+
    have "stage_root ?n k" if "k < r_used p2" "stage_root (r_nodes p2) k" for k
    proof -
      have "stage_root ?n k = stage_root (r_nodes p2) k" by (rule stage_root_cong) (use that in simp)
      with that show ?thesis by simp
    qed
    then have "pipe_root ?n i" using l st n(2) by (simp add: pipe_root_def nd)
    moreover have "grows p p4"
      using grows_same [OF grows_trans [OF g2 n(1)] same_pool_at [OF p4]] .
    ultimately show ?thesis
      using same_pool_at [OF p4] n by (simp add: same_pool_def)
  qed
  have third: "parsed pipe_root p (p_pipe_loop p4 i 2)" if "r_err p2 = RLP_OK" "r_err p3 = RLP_OK"
  proof -
    obtain q j where q: "p_pipe_loop p4 i 2 = (q, j)" by fastforce
    from p_pipe_loop_third [OF pool_ok_grows _ q] good [OF that] have "grows p4 q" "r_err q \<noteq> RLP_OK"
      by auto
    with good [OF that] grows_trans have "grows p q" by blast
    with \<open>r_err q \<noteq> RLP_OK\<close> show ?thesis by (simp add: parsed_def q)
  qed
  show ?thesis
    using g fails fail3 good third
    unfolding p_pipe_loop.simps [of p] Let_def p1 p2 p3 prod.case f [symmetric] p4
    by (auto simp: parsed_def p_fail_def numeral_2_eq_2)
qed

lemma p_pipeline_parsed:
  assumes "pool_ok p"
  shows "parsed pipe_root p (p_pipeline p)"
proof -
  obtain p1 left where p1: "p_stage p = (p1, left)" by fastforce
  obtain p2 more where p2: "p_at p1 RLT_PIPEGT = (p2, more)" by fastforce
  from p_stage_parsed [OF assms] p1 have g1: "grows p p1"
    and s: "r_err p1 = RLP_OK \<longrightarrow> left < r_used p1 \<and> stage_root (r_nodes p1) left"
    by (simp_all add: parsed_def)
  have g2: "grows p p2" by (rule grows_same [OF g1 same_pool_at [OF p2]])
  have s2: "r_err p1 = RLP_OK \<longrightarrow> left < r_used p2 \<and> stage_root (r_nodes p2) left"
    using s same_pool_at [OF p2] by (simp add: same_pool_def)
  have "parsed pipe_root p (p_pipe_loop p2 left 1)" if "r_err p1 = RLP_OK"
    using parsed_grows [OF g2 p_pipe_loop_parsed [OF pool_ok_grows [OF g2]]] s2 that by blast
  then show ?thesis
    using g1 g2 s2 unfolding p_pipeline_def Let_def p1 p2 prod.case
    by (auto simp: parsed_def pipe_root_def)
qed

lemma p_let_parsed:
  assumes "pool_ok p"
  shows "parsed part_root p (p_let p)"
proof -
  obtain p1 b1 where p1: "p_at (p_next p) RLT_IDENT = (p1, b1)" by fastforce
  obtain p2 b2 where p2: "p_at (p_next p1) RLT_COLON = (p2, b2)" by fastforce
  let ?p3 = "p_cur (p_next p2)"
  obtain p4 b4 where p4: "p_at (p_next ?p3) RLT_EQUAL = (p4, b4)" by fastforce
  obtain p5 init where p5: "p_pipeline (p_next p4) = (p5, init)" by fastforce
  obtain p6 i where p6: "p_mknode p5 RLN_LET = (p6, i)" by fastforce
  have g1: "grows p p1" by (rule grows_same [OF grows_ops(1) [OF grows_refl [OF assms]] same_pool_at [OF p1]])
  have g2: "grows p p2" by (rule grows_same [OF grows_ops(1) [OF g1] same_pool_at [OF p2]])
  have g3: "grows p ?p3" by (rule grows_ops(3) [OF grows_ops(1) [OF g2]])
  have g4: "grows p p4" by (rule grows_same [OF grows_ops(1) [OF g3] same_pool_at [OF p4]])
  have "parsed pipe_root p (p5, init)"
    using parsed_grows [OF grows_ops(1) [OF g4] p_pipeline_parsed [OF pool_ok_grows [OF grows_ops(1) [OF g4]]]] p5
    by simp
  then have g5: "grows p p5"
    and r5: "r_err p5 = RLP_OK \<longrightarrow> init < r_used p5 \<and> pipe_root (r_nodes p5) init"
    by (simp_all add: parsed_def)
  have fails: "grows p (p_fail e p1)" "grows p (p_fail e p2)" "grows p (p_fail e ?p3)" "grows p (p_fail e p4)" for e
    using g1 g2 g3 g4 grows_ops(2) by blast+
  have fail6: "grows p p6" if "r_err p6 \<noteq> RLP_OK" by (rule grows_mkfail [OF g5 p6 that])
  have good: "parsed part_root p (p_set i f p6, i)"
    if "r_err p5 = RLP_OK" "r_err p6 = RLP_OK" "n_kind (f (fresh_node RLN_LET)) = RLN_LET"
      "n_k1 (f (fresh_node RLN_LET)) = init" for f
  proof -
    let ?n = "(r_nodes p5)(r_used p5 := f (fresh_node RLN_LET))"
    have r: "init < r_used p5" "pipe_root (r_nodes p5) init" using r5 that(1) by auto
    have "node_ok ?n (r_used p5)" using r(1) that(3,4) by (simp add: node_ok_def)
    from new_node [where f = f, OF p6 that(2) pool_ok_grows [OF g5] this]
    have n: "grows p5 (p_set i f p6)" "i = r_used p5" "r_used (p_set i f p6) = r_used p5 + 1"
      "r_nodes (p_set i f p6) = ?n" by blast+
    have "pipe_root ?n init = pipe_root (r_nodes p5) init" by (rule pipe_root_cong) (use r(1) in simp)
    then have "part_root ?n i" using r that(3,4) n(2) by (simp add: part_root_def)
    then show ?thesis using grows_trans [OF g5 n(1)] n by (simp add: parsed_def)
  qed
  show ?thesis
    using g5 fails fail6 good
    unfolding p_let_def Let_def p1 p2 p4 p5 p6 prod.case
    by (auto simp: parsed_def p_fail_def fresh_node_def split: option.splits)
qed

lemma p_part_shape:
  assumes "p_part p = (q, RLP_OK, root)" "pool_ok p"
  shows "grows p q \<and> root < r_used q \<and> part_root (r_nodes q) root"
proof -
  obtain p1 islet where p1: "p_at p RLT_LET = (p1, islet)" by fastforce
  define body where "body = (if islet then p_let p1 else p_pipeline p1)"
  obtain p2 r where p2: "body = (p2, r)" by fastforce
  obtain p3 eof where p3: "p_at p2 RLT_EOF = (p3, eof)" by fastforce
  have g1: "grows p p1" by (rule same_pool_grows [OF assms(2) same_pool_at [OF p1]])
  have "parsed part_root p1 body"
    using p_let_parsed [OF pool_ok_grows [OF g1]] p_pipeline_parsed [OF pool_ok_grows [OF g1]]
    by (auto simp: body_def parsed_def part_root_def)
  then have b: "grows p1 p2" "r_err p2 = RLP_OK \<longrightarrow> r < r_used p2 \<and> part_root (r_nodes p2) r"
    by (simp_all add: parsed_def p2)
  have "q = p3" "r_err p2 = RLP_OK" "root = r"
    using assms(1) unfolding p_part_def Let_def p1 prod.case body_def [symmetric] p2 p3
    by (auto split: if_splits)
  with b same_pool_at [OF p3] grows_trans [OF g1 grows_same [OF b(1) same_pool_at [OF p3]]] show ?thesis
    by (simp add: same_pool_def)
qed

lemma rl_parse_part_shape:
  assumes "rl_parse_part src nodes cap ss args acap ocap vcap = (p, ss', RLP_OK, root)"
    and "cap \<le> RL_POOL_MAX"
  shows "pool_ok p \<and> r_cap p = cap \<and> root < r_used p \<and> part_root (r_nodes p) root"
proof -
  let ?p = "p_init src nodes cap ss args acap ocap vcap"
  have "p_part ?p = (p, RLP_OK, root)"
    using assms(1) by (auto simp: rl_parse_part_def split: prod.splits)
  moreover have "pool_ok ?p" "r_cap ?p = cap" using assms(2) by (simp_all add: pool_ok_def p_init_def)
  ultimately show ?thesis using p_part_shape [of ?p] by (auto simp: grows_def extends_def)
qed

end
