(* ===== verification/Rl_Bound.thy ===== *)
theory Rl_Bound
  imports Rl_Parse
begin

text \<open>
  The parser's memory bound. Every node, stack entry and argument is paid for by a token of
  the part, so a part no longer than the capacities never runs out of them: the error
  \<^verbatim>\<open>RLP_NOMEM\<close> is then unreachable.
\<close>

section \<open>Credit\<close>

text \<open>
  \<open>room K p\<close>: the capacities are at least \<open>K\<close> and memory has not run out.
  \<open>spends K a b p q\<close>: on the way from \<open>p\<close> to \<open>q\<close>, what is used and what is left to read
  together leave \<open>a\<close> unspent nodes and \<open>b\<close> unspent arguments.
\<close>

definition room :: "nat \<Rightarrow> rlp \<Rightarrow> bool" where
  "room K p \<longleftrightarrow> lx_pos (r_lx p) \<le> length (r_src p) \<and> K \<le> r_cap p \<and> K \<le> r_ocap p \<and> K \<le> r_vcap p
    \<and> K \<le> r_acap p \<and> r_err p \<noteq> RLP_NOMEM"

definition funded :: "nat \<Rightarrow> rlp \<Rightarrow> bool" where
  "funded K p \<longleftrightarrow> room K p \<and> r_used p + p_left p \<le> K \<and> r_aused p + p_left p \<le> K"

definition spends :: "nat \<Rightarrow> nat \<Rightarrow> nat \<Rightarrow> rlp \<Rightarrow> rlp \<Rightarrow> bool" where
  "spends K a b p q \<longleftrightarrow> room K q \<and> r_src q = r_src p
    \<and> r_used q + p_left q + a \<le> r_used p + p_left p
    \<and> r_aused q + p_left q + b \<le> r_aused p + p_left p"

lemma spends_refl: "room K p \<Longrightarrow> spends K 0 0 p p"
  by (simp add: spends_def)

lemma spends_trans: "spends K a b p q \<Longrightarrow> spends K a' b' q r \<Longrightarrow> spends K (a + a') (b + b') p r"
  by (simp add: spends_def)

lemma spends_weaken: "spends K a b p q \<Longrightarrow> a' \<le> a \<Longrightarrow> b' \<le> b \<Longrightarrow> spends K a' b' p q"
  by (simp add: spends_def)

lemma spends_funded: "funded K p \<Longrightarrow> spends K a b p q \<Longrightarrow> funded K q"
  by (simp add: spends_def funded_def)

text \<open>Operations that neither read input nor fill a table.\<close>

definition idle :: "rlp \<Rightarrow> rlp \<Rightarrow> bool" where
  "idle q r \<longleftrightarrow> same_lex q r \<and> r_used r = r_used q \<and> r_aused r = r_aused q \<and> r_cap r = r_cap q
    \<and> r_ocap r = r_ocap q \<and> r_vcap r = r_vcap q \<and> r_acap r = r_acap q
    \<and> (r_err r = RLP_NOMEM \<longrightarrow> r_err q = RLP_NOMEM)"

lemma idle_left: "idle q r \<Longrightarrow> p_left r = p_left q"
  by (simp add: idle_def same_lex_left)

lemma idle_refl [simp]: "idle q q"
  by (simp add: idle_def)

lemma idle_trans: "idle p q \<Longrightarrow> idle q r \<Longrightarrow> idle p r"
  by (auto simp: idle_def same_lex_def)

lemma spends_idle: "spends K a b p q \<Longrightarrow> idle q r \<Longrightarrow> spends K a b p r"
  using idle_left [of q r] by (auto simp: spends_def room_def idle_def same_lex_def)

lemma idle_ops [simp]:
  "e \<noteq> RLP_NOMEM \<Longrightarrow> idle p (p_fail e p)" "idle p (p_set i f p)" "idle p (p_leave p)"
  by (simp_all add: idle_def same_lex_def p_fail_def p_set_def p_leave_def)

lemma idle_enter: "p_enter p = (q, b) \<Longrightarrow> idle p q"
  by (auto simp: p_enter_def Let_def idle_def same_lex_def p_fail_def split: if_splits)

lemma idle_peek: "p_peek p = (q, r) \<Longrightarrow> idle p q"
  by (auto simp: p_peek_def Let_def idle_def same_lex_def split: prod.splits if_splits)

lemma idle_redirect_ok: "p_redirect_ok p = (q, r) \<Longrightarrow> idle p q"
  by (auto simp: p_redirect_ok_def Let_def idle_def same_lex_def split: prod.splits if_splits)

lemma spends_cur: "spends K a b p q \<Longrightarrow> spends K a b p (p_cur q)"
proof -
  assume q: "spends K a b p q"
  obtain lx ss t rc where l: "rl_lex_next (r_lx q) (r_ss q) = (lx, ss, t, rc)" by (metis prod_cases4)
  have "lx_pos (r_lx (p_cur q)) \<le> length (r_src (p_cur q))" "r_src (p_cur q) = r_src q"
    using q rl_lex_next_le [OF l] rl_lex_next_src [OF l] by (auto simp: p_cur_def l spends_def room_def)
  moreover have "r_used (p_cur q) = r_used q" "r_aused (p_cur q) = r_aused q" "r_cap (p_cur q) = r_cap q"
    "r_ocap (p_cur q) = r_ocap q" "r_vcap (p_cur q) = r_vcap q" "r_acap (p_cur q) = r_acap q"
    "r_err (p_cur q) = RLP_NOMEM \<longrightarrow> r_err q = RLP_NOMEM"
    by (simp_all add: p_cur_def l)
  ultimately show ?thesis using q p_left_cur [of q] by (auto simp: spends_def room_def)
qed

lemma spends_next_le: "spends K a b p q \<Longrightarrow> spends K a b p (p_next q)"
  using p_left_next_le [of q] by (auto simp: spends_def room_def p_next_def)

lemma spends_next:
  assumes "spends K a b p q" "r_have q" "r_kind q \<noteq> RLT_EOF"
  shows "spends K (a + 1) (b + 1) p (p_next q)"
  using assms(1) p_left_next [OF assms(2,3)] by (auto simp: spends_def room_def p_next_def)

lemma spends_at: "spends K a b p q \<Longrightarrow> p_at q k = (r, x) \<Longrightarrow> spends K a b p r"
  by (auto simp: p_at_def split: if_splits intro: spends_cur)

lemma p_at_true: "p_at q k = (r, True) \<Longrightarrow> r_have r \<and> r_kind r = k"
  by (auto simp: p_at_def split: if_splits)

lemma spends_mknode:
  assumes "spends K (a + 1) b p q" "funded K p" "p_mknode q k = (r, i)"
  shows "spends K a b p r"
proof -
  have "r_used q < r_cap q" using assms(1,2) by (auto simp: spends_def funded_def room_def)
  moreover have "p_left r = p_left q" by (rule p_left_mknode [OF assms(3)])
  ultimately show ?thesis using assms
    by (auto simp: p_mknode_def spends_def room_def split: if_splits)
qed

lemma spends_push:
  assumes "spends K a (b + 1) p q" "funded K p" "p_arg_push q i = (r, x)"
  shows "spends K a b p r \<and> r_aused r = r_aused q + 1 \<and> x"
proof -
  have "r_aused q < r_acap q" using assms(1,2) by (auto simp: spends_def funded_def room_def)
  then show ?thesis using assms(1,3) p_arg_push_left [OF assms(3)]
    by (auto simp: p_arg_push_def spends_def room_def split: if_splits)
qed

text \<open>A node made for the current token before the token is consumed.\<close>

lemma spends_mk_next:
  assumes "spends K a b p q" "funded K p" "r_have q" "r_kind q \<noteq> RLT_EOF" "p_mknode q k = (r, i)"
  shows "(r_err r = RLP_OK \<longrightarrow> spends K a (b + 1) p (p_next (p_set i f r)))
    \<and> (r_err r \<noteq> RLP_OK \<longrightarrow> spends K a b p r)"
proof -
  have left: "0 < p_left q" using assms(3,4) by (simp add: p_left_def)
  then have used: "r_used q < r_cap q" using assms(1,2) by (auto simp: spends_def funded_def room_def)
  have sl: "same_lex q (p_set i f r)" using same_lex_mknode [OF assms(5)] by simp
  have "r_have (p_set i f r)" "r_kind (p_set i f r) \<noteq> RLT_EOF"
    using sl assms(3,4) by (simp_all add: same_lex_def)
  from p_left_next [OF this] have nx: "p_left (p_next (p_set i f r)) < p_left q"
    by (simp only: same_lex_left [OF sl])
  show ?thesis
    using assms(1,5) used nx
    by (auto simp: p_mknode_def spends_def room_def p_next_def p_set_def split: if_splits)
qed

lemma spends_atom:
  assumes "spends K a b p q" "funded K p" "p_atom q = (r, i)"
  shows "spends K a b p r \<and> (r_err r = RLP_OK \<longrightarrow> spends K a (b + 1) p r)"
proof -
  note cur = spends_cur [OF assms(1)]
  have syn: "spends K a b p (p_fail RLP_SYNTAX (p_cur q))" by (rule spends_idle [OF cur]) simp
  have mk: "spends K a b p (p_next (p_set j f q')) \<and> spends K a (b + 1) p (p_next (p_set j f q'))"
    if "p_mknode (p_cur q) k = (q', j)" "r_kind (p_cur q) \<noteq> RLT_EOF" "r_err q' = RLP_OK" for q' j f k
    using spends_mk_next [where f = f, OF cur assms(2) p_cur_have that(2,1)] that(3)
    by (auto intro: spends_weaken)
  have fail: "spends K a b p q'"
    if "p_mknode (p_cur q) k = (q', j)" "r_kind (p_cur q) \<noteq> RLT_EOF" "r_err q' \<noteq> RLP_OK" for q' j k
    using spends_mk_next [OF cur assms(2) p_cur_have that(2,1)] that(3) by auto
  show ?thesis
    using assms(3) cur syn mk fail
    by (auto simp: p_atom_def Let_def p_fail_def split: if_splits prod.splits)
qed

section \<open>Expressions\<close>

definition yd_funded :: "nat \<Rightarrow> rlp \<Rightarrow> yd \<Rightarrow> bool" where
  "yd_funded K p s \<longleftrightarrow> spends K (length (y_ops s)) 0 p (y_p s)
    \<and> length (y_vals s) + length (y_ops s) + p_left (y_p s) \<le> K"

lemma yd_funded_upd [simp]:
  "yd_funded K p (s\<lparr>y_unpend := n\<rparr>) = yd_funded K p s" "yd_funded K p (s\<lparr>y_parens := n\<rparr>) = yd_funded K p s"
  "yd_funded K p (s\<lparr>y_expect := b\<rparr>) = yd_funded K p s" "yd_funded K p (s\<lparr>y_have := b\<rparr>) = yd_funded K p s"
  by (simp_all add: yd_funded_def)

lemma yd_funded_idle: "yd_funded K p s \<Longrightarrow> idle (y_p s) q \<Longrightarrow> yd_funded K p (s\<lparr>y_p := q\<rparr>)"
  by (auto simp: yd_funded_def idle_left intro: spends_idle)

lemma yd_funded_fail: "yd_funded K p s \<Longrightarrow> e \<noteq> RLP_NOMEM \<Longrightarrow> yd_funded K p (yd_fail e s)"
  by (simp add: yd_fail_def yd_funded_idle)

text \<open>Making a node with the credit of one operator.\<close>

lemma yd_funded_mk:
  assumes "spends K (length (y_ops s) + 1) 0 p (y_p s)" "funded K p"
    and "length (y_vals s) + length (y_ops s) + p_left (y_p s) + 1 \<le> K"
  shows "yd_funded K p (yd_mk k f s)"
proof -
  obtain q i where q: "p_mknode (y_p s) k = (q, i)" by fastforce
  have s: "spends K (length (y_ops s)) 0 p q" by (rule spends_mknode [OF assms(1,2) q])
  then have s': "spends K (length (y_ops s)) 0 p (p_set i f q)" by (rule spends_idle) simp
  have l: "p_left q = p_left (y_p s)" by (rule p_left_mknode [OF q])
  have "length (y_vals s) < r_vcap (p_set i f q)" using s' assms(3) by (simp add: spends_def room_def)
  then show ?thesis
    using s s' l assms(3) by (simp add: yd_mk_def q yd_pushval_def yd_funded_def)
qed

lemma yd_funded_reduce:
  assumes "yd_funded K p s" "funded K p"
  shows "yd_funded K p (yd_reduce s)"
proof -
  have bin: "yd_funded K p (yd_mk k f (s\<lparr>y_ops := os, y_vals := vs\<rparr>))"
    if "y_ops s = x # os" "y_vals s = r # l # vs" for k f x os r l vs
    using assms that by (intro yd_funded_mk) (simp_all add: yd_funded_def)
  have un: "yd_funded K p (yd_mk k f (s\<lparr>y_ops := os, y_vals := vs, y_unpend := n\<rparr>))"
    if "y_ops s = x # os" "y_vals s = l # vs" for k f x os l vs n
    using assms that by (intro yd_funded_mk) (simp_all add: yd_funded_def)
  have pop: "yd_funded K p (s\<lparr>y_ops := os\<rparr>)" if "y_ops s = x # os" for x os
    using assms(1) that by (auto simp: yd_funded_def intro: spends_weaken)
  show ?thesis
    using assms(1) bin un pop
    by (auto simp: yd_reduce_def intro!: yd_funded_fail split: list.splits rly.splits)
qed

lemma yd_funded_while: "yd_funded K p s \<Longrightarrow> funded K p \<Longrightarrow> yd_funded K p (yd_while f s)"
proof (induction f s rule: yd_while.induct)
  case (1 f s)
  then show ?case by (subst yd_while.simps) (auto simp: yd_funded_reduce split: list.splits)
qed

text \<open>Pushing an operator for the current token and consuming it.\<close>

lemma yd_funded_pushed:
  assumes "yd_funded K p s" "funded K p" "same_lex (y_p s) (y_p t)" "y_p t = y_p s"
    and "y_ops t = x # y_ops s" "y_vals t = y_vals s" "r_have (y_p s)" "r_kind (y_p s) \<noteq> RLT_EOF"
  shows "yd_funded K p (yd_adv t)"
proof -
  have "spends K (length (y_ops s) + 1) (0 + 1) p (p_next (y_p s))"
    using assms(1,7,8) by (intro spends_next) (simp_all add: yd_funded_def)
  moreover have "p_left (p_next (y_p s)) < p_left (y_p s)" by (rule p_left_next [OF assms(7,8)])
  ultimately show ?thesis
    using assms(1,4-6) by (auto simp: yd_funded_def yd_adv_def intro: spends_weaken)
qed

lemma yd_funded_pushop:
  assumes "yd_funded K p s" "funded K p" "r_have (y_p s)" "r_kind (y_p s) \<noteq> RLT_EOF"
  shows "if yd_bad (yd_pushop x s) then yd_funded K p (yd_pushop x s) \<or> yd_bad s
    else yd_funded K p (yd_adv (yd_pushop x s))"
proof -
  have left: "0 < p_left (y_p s)" using assms(3,4) by (simp add: p_left_def)
  then have "length (y_ops s) < r_ocap (y_p s)"
    using assms(1) by (auto simp: yd_funded_def spends_def room_def)
  moreover have "yd_funded K p (yd_adv (s\<lparr>y_ops := x # y_ops s\<rparr>))"
    by (rule yd_funded_pushed [OF assms(1,2)]) (simp_all add: assms(3,4))
  ultimately show ?thesis
    using assms(1) yd_funded_fail [OF assms(1), of RLP_TOODEEP]
    by (auto simp: yd_pushop_def Let_def yd_bad_def yd_fail_def p_fail_def)
qed


definition yd_safe :: "nat \<Rightarrow> rlp \<Rightarrow> yd_next \<Rightarrow> bool" where
  "yd_safe K p n =
    (case n of YCont s \<Rightarrow> yd_funded K p s | YBreak s \<Rightarrow> yd_funded K p s
     | YFail s \<Rightarrow> spends K 0 0 p (y_p s))"

lemma yd_funded_spends: "yd_funded K p s \<Longrightarrow> spends K 0 0 p (y_p s)"
  by (auto simp: yd_funded_def intro: spends_weaken)

lemma yd_safe_cont: "yd_funded K p s \<Longrightarrow> yd_safe K p (yd_cont s)"
  by (simp add: yd_cont_def yd_safe_def yd_funded_spends)

lemma yd_safe_fail: "yd_funded K p s \<Longrightarrow> e \<noteq> RLP_NOMEM \<Longrightarrow> yd_safe K p (YFail (yd_fail e s))"
  by (simp add: yd_safe_def yd_funded_spends yd_funded_fail)

lemma yd_safe_push:
  assumes "yd_funded K p s" "funded K p" "r_have (y_p s)" "r_kind (y_p s) \<noteq> RLT_EOF" "\<not> yd_bad s"
    and "y_p (g (yd_pushop x s)) = y_p (yd_pushop x s)" "y_ops (g (yd_pushop x s)) = y_ops (yd_pushop x s)"
    and "y_vals (g (yd_pushop x s)) = y_vals (yd_pushop x s)"
  shows "yd_safe K p (if yd_bad (yd_pushop x s) then YFail (yd_pushop x s)
    else YCont (yd_adv (g (yd_pushop x s))))"
  using yd_funded_pushop [OF assms(1-4), of x] assms(5-8)
  by (auto simp: yd_safe_def yd_funded_spends yd_funded_def yd_adv_def split: if_splits)

lemma yd_safe_operand:
  assumes "yd_funded K p s" "funded K p" "r_have (y_p s)" "\<not> yd_bad s"
  shows "yd_safe K p (yd_operand s)"
proof -
  let ?k = "r_kind (y_p s)"
  have atom: "spends K 0 0 p q \<and> (r_err q = RLP_OK \<longrightarrow>
      yd_safe K p (yd_cont ((yd_while is_unop (yd_pushval i (s\<lparr>y_p := q\<rparr>)))\<lparr>y_expect := False, y_have := True\<rparr>)))"
    if at: "p_atom (y_p s) = (q, i)" and ne: "?k \<noteq> RLT_EOF" for q i
  proof -
    have "spends K (length (y_ops s)) 0 p (y_p s)" using assms(1) by (simp add: yd_funded_def)
    note a = spends_atom [OF this assms(2) at]
    have "yd_funded K p (yd_pushval i (s\<lparr>y_p := q\<rparr>))" if ok: "r_err q = RLP_OK"
    proof -
      have "p_left q < p_left (y_p s)" by (rule p_atom_left [OF at assms(3) ne ok])
      then show ?thesis
        using a assms(1) by (auto simp: yd_pushval_def yd_funded_def spends_def room_def)
    qed
    then show ?thesis
      using a assms(2) yd_funded_while by (auto intro!: yd_safe_cont intro: spends_weaken)
  qed
  have unop: "yd_safe K p (if yd_bad (yd_pushop x s) then YFail (yd_pushop x s)
      else YCont (yd_adv ((yd_pushop x s)\<lparr>y_unpend := y_unpend (yd_pushop x s) + 1\<rparr>)))"
    if "?k \<noteq> RLT_EOF" for x
    by (rule yd_safe_push [where g = "\<lambda>t. t\<lparr>y_unpend := y_unpend t + 1\<rparr>", OF assms(1-3) that assms(4)]) simp_all
  have paren: "yd_safe K p (if yd_bad (yd_pushop x s) then YFail (yd_pushop x s)
      else YCont (yd_adv ((yd_pushop x s)\<lparr>y_parens := y_parens (yd_pushop x s) + 1, y_have := False\<rparr>)))"
    if "?k \<noteq> RLT_EOF" for x
    by (rule yd_safe_push [where g = "\<lambda>t. t\<lparr>y_parens := y_parens t + 1, y_have := False\<rparr>",
          OF assms(1-3) that assms(4)]) simp_all
  have failed: "yd_safe K p (YFail (yd_fail RLP_SYNTAX s))" using yd_safe_fail assms(1) by simp
  consider (u) "?k = RLT_MINUS \<or> ?k = RLT_BANG" | (l) "?k = RLT_LPAREN"
    | (a) "?k \<in> {RLT_IDENT, RLT_INT, RLT_STR, RLT_TRUE, RLT_FALSE}"
    | (f) "?k \<notin> {RLT_MINUS, RLT_BANG, RLT_LPAREN, RLT_IDENT, RLT_INT, RLT_STR, RLT_TRUE, RLT_FALSE}"
    by auto
  then show ?thesis
  proof cases
    case u
    then have "?k \<noteq> RLT_EOF" by auto
    from unop [OF this] u show ?thesis by (simp only: yd_operand_def Let_def if_True)
  next
    case l
    then have "?k \<noteq> RLT_EOF" by auto
    from paren [OF this] l show ?thesis
      by (simp only: yd_operand_def Let_def rl_tkind.distinct simp_thms if_True if_False)
  next
    case a
    obtain q i where at: "p_atom (y_p s) = (q, i)" by fastforce
    from a have "?k \<noteq> RLT_EOF" by auto
    then show ?thesis using a atom [OF at] by (auto simp: yd_operand_def at yd_safe_def [of _ _ "YFail _"])
  next
    case f
    then show ?thesis using failed by (simp add: yd_operand_def Let_def)
  qed
qed

lemma yd_safe_infix:
  assumes "yd_funded K p s" "funded K p" "r_have (y_p s)" "r_kind (y_p s) \<noteq> RLT_EOF"
  shows "yd_safe K p (yd_infix prec op s)"
proof -
  let ?s = "yd_while (\<lambda>x. prec \<le> rly_prec x) s"
  have f: "yd_funded K p ?s" by (rule yd_funded_while [OF assms(1,2)])
  have sl: "same_lex (y_p s) (y_p ?s)" by (rule same_lex_while)
  then have h: "r_have (y_p ?s)" "r_kind (y_p ?s) \<noteq> RLT_EOF" using assms(3,4) by (simp_all add: same_lex_def)
  then have "0 < p_left (y_p ?s)" by (simp add: p_left_def)
  then have "length (y_ops ?s) < r_ocap (y_p ?s)" using f by (auto simp: yd_funded_def spends_def room_def)
  moreover have "yd_funded K p (yd_adv (?s\<lparr>y_ops := YBinop prec op # y_ops ?s, y_expect := True, y_have := False\<rparr>))"
    by (rule yd_funded_pushed [OF f assms(2)]) (simp_all add: h)
  ultimately show ?thesis
    using yd_funded_spends [OF f] by (simp add: yd_infix_def Let_def yd_safe_def)
qed

lemma yd_funded_mkcall:
  assumes "spends K (length (y_ops s) + 1) 0 p (y_p s)" "funded K p"
    and "length (y_vals s) + length (y_ops s) + p_left (y_p s) + 1 \<le> K"
  shows "yd_funded K p (yd_mkcall argc s)"
proof -
  have "yd_funded K p (yd_mk k f (s\<lparr>y_vals := drop (argc + 1) (y_vals s)\<rparr>))" for k f
    using assms by (intro yd_funded_mk) simp_all
  moreover have "yd_funded K p s" using assms by (auto simp: yd_funded_def intro: spends_weaken)
  ultimately show ?thesis by (auto simp: yd_mkcall_def Let_def intro: yd_funded_fail)
qed

lemma yd_safe_close:
  assumes "yd_funded K p s" "funded K p" "r_have (y_p s)" "r_kind (y_p s) \<noteq> RLT_EOF"
  shows "yd_safe K p (yd_close s)"
proof (cases "y_ops s")
  case Nil
  then show ?thesis using yd_safe_fail [OF assms(1)] by (simp add: yd_close_def)
next
  case (Cons m os)
  let ?s = "yd_adv (s\<lparr>y_ops := os, y_parens := y_parens s - 1\<rparr>)"
  have "spends K (length (y_ops s) + 1) (0 + 1) p (p_next (y_p s))"
    using assms(1,3,4) by (intro spends_next) (simp_all add: yd_funded_def)
  then have sp: "spends K (length (y_ops ?s) + 1) 0 p (y_p ?s)"
    using Cons by (auto simp: yd_adv_def intro: spends_weaken)
  have "p_left (p_next (y_p s)) < p_left (y_p s)" by (rule p_left_next [OF assms(3,4)])
  then have len: "length (y_vals ?s) + length (y_ops ?s) + p_left (y_p ?s) + 1 \<le> K"
    using assms(1) Cons by (simp add: yd_adv_def yd_funded_def)
  have f: "yd_funded K p ?s" using sp len by (auto simp: yd_funded_def intro: spends_weaken)
  note call = yd_funded_mkcall [OF sp assms(2) len]
  show ?thesis
    using Cons f call yd_funded_fail [OF f]
    by (auto simp: yd_close_def Let_def intro!: yd_safe_cont split: rly.splits)
qed

lemma yd_safe_comma:
  assumes "yd_funded K p s" "r_have (y_p s)" "r_kind (y_p s) \<noteq> RLT_EOF"
  shows "yd_safe K p (yd_comma s)"
proof -
  have "spends K (length (y_ops s) + 1) (0 + 1) p (p_next (y_p s))"
    using assms by (intro spends_next) (simp_all add: yd_funded_def)
  then have sp: "spends K (length (y_ops s)) 0 p (p_next (y_p s))" by (rule spends_weaken) simp_all
  have "yd_safe K p (YCont (yd_adv (s\<lparr>y_ops := YCall (n + 1) # os, y_expect := True, y_have := False\<rparr>)))"
    if "y_ops s = YCall n # os" for n os
    using sp assms(1) that p_left_next_le [of "y_p s"]
    by (simp add: yd_safe_def yd_funded_def yd_adv_def)
  then show ?thesis
    using yd_safe_fail [OF assms(1)] by (auto simp: yd_comma_def split: list.splits rly.splits)
qed

lemma yd_safe_step:
  assumes "yd_funded K p s" "funded K p"
  shows "yd_safe K p (yd_step s)"
proof (cases "yd_bad s")
  case True
  then show ?thesis using yd_funded_spends [OF assms(1)] by (simp add: yd_step_def yd_safe_def)
next
  case False
  let ?s = "s\<lparr>y_p := p_cur (y_p s)\<rparr>"
  have f: "yd_funded K p ?s"
    using assms(1) spends_cur p_left_cur [of "y_p s"] by (auto simp: yd_funded_def intro: spends_cur)
  have h: "r_have (y_p ?s)" by simp
  have ok: "\<not> yd_bad ?s" if "r_kind (y_p ?s) \<noteq> RLT_EOF"
  proof -
    obtain lx ss t rc where l: "rl_lex_next (r_lx (y_p s)) (r_ss (y_p s)) = (lx, ss, t, rc)"
      by (metis prod_cases4)
    from that False rl_lex_next_token [OF l] show ?thesis
      by (auto simp: yd_bad_def p_cur_def l split: if_splits)
  qed
  have eof: "yd_safe K p (yd_operand ?s)" if "r_kind (y_p ?s) = RLT_EOF"
    using that yd_safe_fail [OF f] by (simp add: yd_operand_def)
  have operand: "yd_safe K p (yd_operand ?s)"
    using eof yd_safe_operand [OF f assms(2) h] ok by blast
  have binop: "yd_safe K p (yd_infix prec op ?s)" if "p_is_binop (r_kind (y_p ?s)) = Some (prec, op)" for prec op
    by (rule yd_safe_infix [OF f assms(2) h p_is_binop_eof [OF that]])
  have call: "yd_safe K p (yd_callopen ?s)" if "r_kind (y_p ?s) \<noteq> RLT_EOF"
    using yd_safe_push [where g = "\<lambda>t. t\<lparr>y_parens := y_parens t + 1, y_expect := True, y_have := False\<rparr>",
        OF f assms(2) h that ok [OF that], of "YCall 0"]
    by (simp add: yd_callopen_def Let_def)
  have sep: "yd_safe K p (yd_separator ?s)" if "r_kind (y_p ?s) \<noteq> RLT_EOF"
  proof -
    let ?t = "yd_while (\<lambda>_. True) ?s"
    have ft: "yd_funded K p ?t" by (rule yd_funded_while [OF f assms(2)])
    have "same_lex (y_p ?s) (y_p ?t)" by (rule same_lex_while)
    then have ht: "r_have (y_p ?t)" "r_kind (y_p ?t) \<noteq> RLT_EOF" using that by (simp_all add: same_lex_def)
    show ?thesis
      using yd_safe_fail [OF f] yd_funded_spends [OF ft] yd_safe_close [OF ft assms(2) ht]
        yd_safe_comma [OF ft ht]
      by (simp add: yd_separator_def Let_def yd_safe_def [of _ _ "YFail ?t"])
  qed
  have brk: "yd_safe K p (YBreak ?s)" using f by (simp add: yd_safe_def)
  show ?thesis
    using False operand binop call sep brk
    by (auto simp: yd_step_def Let_def simp del: split_paired_All split: option.splits)
qed


lemma yd_step_fail: "yd_step s = YFail t \<Longrightarrow> yd_bad t"
  by (auto simp: yd_step_def yd_operand_def yd_infix_def yd_callopen_def yd_separator_def yd_comma_def
      yd_close_def yd_cont_def Let_def yd_bad_def yd_fail_def p_fail_def
      split: if_splits prod.splits option.splits list.splits rly.splits)

lemma yd_loop_funded:
  assumes "yd_funded K p s" "funded K p"
  shows "yd_funded K p (yd_loop s) \<or> yd_bad (yd_loop s) \<and> spends K 0 0 p (y_p (yd_loop s))"
  using assms
proof (induction s rule: yd_loop.induct)
  case (1 s)
  show ?case
    using 1 yd_safe_step [OF "1.prems"] yd_step_fail [of s]
    by (subst (1 2 3) yd_loop.simps) (auto simp: yd_safe_def split: yd_next.splits)
qed

lemma spends_expr:
  assumes "funded K p" "p_expr_yd p = (q, i)"
  shows "spends K 0 0 p q"
proof -
  define s where "s = yd_loop \<lparr>y_p = p, y_ops = [], y_vals = [], y_parens = 0, y_unpend = 0,
    y_expect = True, y_have = False\<rparr>"
  define t where "t = yd_while (\<lambda>_. True) s"
  have "yd_funded K p \<lparr>y_p = p, y_ops = [], y_vals = [], y_parens = 0, y_unpend = 0,
    y_expect = True, y_have = False\<rparr>"
    using assms(1) by (simp add: yd_funded_def spends_refl funded_def)
  then have "yd_funded K p s \<or> yd_bad s \<and> spends K 0 0 p (y_p s)"
    unfolding s_def by (rule yd_loop_funded [OF _ assms(1)])
  moreover have "spends K 0 0 p (y_p t)" if "yd_funded K p s"
    unfolding t_def by (rule yd_funded_spends [OF yd_funded_while [OF that assms(1)]])
  moreover have "t = s" if "yd_bad s" using that by (simp add: t_def yd_while.simps [of _ s])
  ultimately have t: "spends K 0 0 p (y_p t)" by auto
  have "idle (y_p t) q"
    using assms(2) unfolding p_expr_yd_def s_def [symmetric] yd_finish_def t_def [symmetric] Let_def
    by (auto split: if_splits list.splits)
  with t show ?thesis by (rule spends_idle)
qed

section \<open>Commands\<close>

lemma aused_ops:
  "r_aused (p_cur p) = r_aused p" "r_aused (p_next p) = r_aused p" "r_aused (p_set i f p) = r_aused p"
  "r_aused (p_fail e p) = r_aused p"
  by (simp_all add: p_cur_def p_next_def p_set_def p_fail_def split: prod.split)

lemma aused_mknode: "p_mknode p k = (q, i) \<Longrightarrow> r_aused q = r_aused p"
  by (auto simp: p_mknode_def p_fail_def split: if_splits)

lemma aused_peek: "p_peek p = (q, r) \<Longrightarrow> r_aused q = r_aused p"
  by (drule idle_peek) (simp add: idle_def)

definition arg_safe :: "nat \<Rightarrow> nat \<Rightarrow> nat \<Rightarrow> rlp \<Rightarrow> cmd_arg \<Rightarrow> bool" where
  "arg_safe K a b p r = (case r of ArgNone q \<Rightarrow> spends K a b p q | ArgEnd q \<Rightarrow> spends K a b p q
     | ArgNode q aid \<Rightarrow> spends K a (b + 1) p q)"

lemma arg_safe_redirect:
  assumes "spends K a b p q" "funded K p" "r_have q" "r_kind q \<noteq> RLT_EOF"
  shows "arg_safe K a b p (cmd_redirect q)"
proof -
  obtain p1 gt where p1: "p_at (p_next q) RLT_GREATER = (p1, gt)" by fastforce
  obtain p2 str where p2: "p_at p1 RLT_STR = (p2, str)" by fastforce
  obtain p3 i where p3: "p_mknode p2 RLN_STR = (p3, i)" by fastforce
  have s2: "spends K (a + 1) (b + 1) p p2"
    by (rule spends_at [OF spends_at [OF spends_next [OF assms(1,3,4)] p1] p2])
  then have s3: "spends K a (b + 1) p p3" by (rule spends_mknode [OF _ assms(2) p3])
  then have "spends K a (b + 1) p (p_next (p_set i f p3))" for f
    by (intro spends_next_le spends_idle [OF s3]) simp
  moreover have "spends K a b p p2" "spends K a b p p3" using s2 s3 by (auto intro: spends_weaken)
  ultimately show ?thesis by (simp add: cmd_redirect_def p1 p2 p3 arg_safe_def Let_def)
qed

lemma arg_safe_dash:
  assumes "spends K a b p q" "funded K p" "r_have q" "r_kind q \<noteq> RLT_EOF"
  shows "arg_safe K a b p (cmd_dash q)"
proof -
  obtain q' pk where pk: "p_peek q = (q', pk)" by fastforce
  have s: "spends K a b p q'" by (rule spends_idle [OF assms(1) idle_peek [OF pk]])
  have "r_have q'" "r_kind q' \<noteq> RLT_EOF"
    using p_left_peek [OF pk] assms(3,4) by (simp_all add: same_lex_def)
  note n = spends_next [OF s this]
  obtain p1 i where p1: "p_mknode (p_next q') RLN_WORD = (p1, i)" by fastforce
  have s1: "spends K a (b + 1) p p1" by (rule spends_mknode [OF n assms(2) p1])
  have word: "spends K a (b + 1) p (p_next (p_set i f (p_cur p1)))" for f
    by (intro spends_next_le spends_idle [OF spends_cur [OF s1]]) simp
  obtain l1 lit where l1: "p_atom (p_next q') = (l1, lit)" by fastforce
  have sl: "spends K (a + 1) (b + 1) p l1" using spends_atom [OF n assms(2) l1] by simp
  obtain l2 j where l2: "p_mknode l1 RLN_UNOP = (l2, j)" by fastforce
  have s2: "spends K a (b + 1) p l2" by (rule spends_mknode [OF sl assms(2) l2])
  then have neg: "spends K a (b + 1) p (p_set j f l2)" for f by (rule spends_idle) simp
  have "spends K a b p p1" "spends K a b p l1" "spends K a b p l2"
    using s1 sl s2 by (auto intro: spends_weaken)
  then show ?thesis
    using s word neg by (simp add: cmd_dash_def pk p1 l1 l2 arg_safe_def Let_def split: option.splits)
qed

lemma arg_safe_arg:
  assumes "spends K a b p q" "funded K p"
  shows "arg_safe K a b p (cmd_arg q)"
proof -
  let ?q = "p_cur q"
  have s: "spends K a b p ?q" by (rule spends_cur [OF assms(1)])
  obtain p1 i where p1: "p_mknode ?q RLN_WORD = (p1, i)" by fastforce
  obtain p2 j where p2: "p_atom ?q = (p2, j)" by fastforce
  note atom = spends_atom [OF s assms(2) p2]
  note mk = spends_mk_next [OF s assms(2) p_cur_have _ p1]
  have word: "arg_safe K a b p (let (p1, aid) = p_mknode ?q RLN_WORD in
       if r_err p1 \<noteq> RLP_OK then ArgNone p1
       else ArgNode (p_next (p_set aid f p1)) aid)" if "r_kind ?q \<noteq> RLT_EOF" for f
    using mk [OF that, of f] by (simp add: p1 arg_safe_def)
  have other: "arg_safe K a b p (cmd_dash ?q)" "arg_safe K a b p (cmd_redirect ?q)" if "r_kind ?q \<noteq> RLT_EOF"
    using arg_safe_dash [OF s assms(2) p_cur_have that] arg_safe_redirect [OF s assms(2) p_cur_have that] .
  show ?thesis
    using s word other atom unfolding cmd_arg_def Let_def [of "p_cur q"] Let_def [of "r_cur ?q"]
    by (auto simp: p2 arg_safe_def [of _ _ _ _ "ArgNone _"] arg_safe_def [of _ _ _ _ "ArgEnd _"]
        arg_safe_def [of _ _ _ _ "ArgNode p2 _"])
qed

lemma p_atom_aused: "p_atom p = (q, i) \<Longrightarrow> r_aused q = r_aused p"
  by (auto simp: p_atom_def Let_def aused_ops split: if_splits prod.splits dest!: aused_mknode)

lemma cmd_arg_aused: "cmd_arg p = ArgNode q aid \<Longrightarrow> r_aused p \<le> r_aused q"
  by (auto simp: cmd_arg_def cmd_dash_def cmd_redirect_def p_at_def Let_def aused_ops
      split: if_splits prod.splits option.splits
      dest!: p_atom_aused aused_mknode aused_peek)

lemma spends_args:
  assumes "spends K a b p q" "funded K p" "K \<le> 250" "n \<le> r_aused q" "p_cmd_args q n = (r, res)"
  shows "spends K a b p r \<and> (\<forall>m. res = Some m \<longrightarrow> m \<le> r_aused r)"
  using assms
proof (induction q n rule: p_cmd_args.induct)
  case (1 q n)
  note safe = arg_safe_arg [OF "1.prems"(1,2)]
  show ?case
  proof (cases "cmd_arg q")
    case (ArgNone q1)
    then show ?thesis using safe "1.prems"(5) by (auto simp: p_cmd_args.simps [of q n] arg_safe_def)
  next
    case (ArgEnd q1)
    then have "r_aused q1 = r_aused q"
      by (auto simp: cmd_arg_def cmd_dash_def cmd_redirect_def p_cur_def Let_def
          split: if_splits prod.splits option.splits)
    then show ?thesis
      using ArgEnd safe "1.prems"(4,5) by (auto simp: p_cmd_args.simps [of q n] arg_safe_def)
  next
    case (ArgNode q1 aid)
    obtain q2 pushed where q2: "p_arg_push q1 aid = (q2, pushed)" by fastforce
    have s1: "spends K a (b + 1) p q1" using safe ArgNode by (simp add: arg_safe_def)
    note push = spends_push [OF s1 "1.prems"(2) q2]
    have "r_aused q \<le> r_aused q1" by (rule cmd_arg_aused [OF ArgNode])
    then have n: "n + 1 \<le> r_aused q2" using push "1.prems"(4) by simp
    moreover have "r_aused q2 \<le> K" using push "1.prems"(2) by (auto simp: spends_def funded_def)
    ultimately have "\<not> 250 < n + 1" using "1.prems"(3) by simp
    then show ?thesis
      using "1.IH" [OF ArgNode q2 [symmetric]] push "1.prems"(2,3,5) n ArgNode q2
      by (simp add: p_cmd_args.simps [of q n])
  qed
qed


section \<open>Stages, pipelines, let\<close>

lemma spends_mkcmd:
  assumes "spends K (a + 1) b p q" "funded K p" "p_mkcmd q name base n = (r, i)"
  shows "spends K a b p r"
proof -
  obtain q1 ok where q1: "p_enter q = (q1, ok)" by fastforce
  obtain q2 j where q2: "p_mknode q1 RLN_CMD = (q2, j)" by fastforce
  have s1: "spends K (a + 1) b p q1" by (rule spends_idle [OF assms(1) idle_enter [OF q1]])
  have "spends K a b p q2" by (rule spends_mknode [OF s1 assms(2) q2])
  then have s3: "spends K a b p (p_leave q2)" by (rule spends_idle) simp
  have s4: "spends K a b p (p_set j f (p_leave q2))" for f by (rule spends_idle [OF s3]) simp
  have "spends K a b p q1" using s1 by (rule spends_weaken) simp_all
  then show ?thesis using assms(3) s3 s4 by (auto simp: p_mkcmd_def q1 q2 Let_def split: if_splits)
qed

lemma idle_cmd_first: "p_cmd_first p = (q, b) \<Longrightarrow> idle p q"
  by (auto simp: p_cmd_first_def Let_def split: if_splits prod.splits
      dest: idle_peek idle_redirect_ok intro: idle_trans)

lemma spends_cmd:
  assumes "funded K p" "K \<le> 250" "r_kind (p_cur p) \<noteq> RLT_EOF" "p_cmd p = (q, i)"
  shows "spends K 0 0 p q"
proof -
  have refl: "spends K 0 0 p p" using assms(1) by (simp add: spends_refl funded_def)
  have s: "spends K (0 + 1) (0 + 1) p (p_next (p_cur p))"
    by (rule spends_next [OF spends_cur [OF refl] p_cur_have assms(3)])
  obtain p1 starts where p1: "p_arg_starter (p_next (p_cur p)) = (p1, starts)" by fastforce
  have s1: "spends K 1 1 p p1" using s p1 by (auto simp: p_arg_starter_def intro: spends_cur split: if_splits)
  obtain p2 ok where p2: "p_cmd_first (p_cur p1) = (p2, ok)" by fastforce
  have s2: "spends K 1 1 p p2" by (rule spends_idle [OF spends_cur [OF s1] idle_cmd_first [OF p2]])
  obtain p3 res where p3: "p_cmd_args p2 0 = (p3, res)" by fastforce
  note args = spends_args [OF s2 assms(1,2) le0 p3]
  have base: "r_aused p2 \<le> 250" using s2 assms(1,2) by (auto simp: spends_def funded_def)
  have nargs: "m \<le> 250" if "res = Some m" for m
    using args assms(1,2) that by (auto simp: spends_def funded_def)
  have cmd: "spends K 0 1 p r" if "p_mkcmd p3 name base n = (r, j)" for name base n r j
    by (rule spends_mkcmd [OF _ assms(1) that]) (use args in simp)
  have weak: "spends K 0 0 p r" if "spends K a 1 p r" for r a using that by (rule spends_weaken) simp_all
  have *: "spends K 0 0 p p1" "spends K 0 0 p p2" "spends K 0 0 p p3"
    using weak [OF s1] weak [OF s2] weak [OF conjunct1 [OF args]] .
  have "\<not> 255 < r_aused p2 mod 65536" using base by simp
  then show ?thesis
    using assms(4) refl * nargs weak [OF cmd]
    by (auto simp: p_cmd_def p1 p2 p3 Let_def split: if_splits option.splits)
qed

lemma restore_save:
  assumes "spends K 0 0 p q" "lx_pos (r_lx p) \<le> length (r_src p)"
  shows "spends K 0 0 p (p_restore q (p_save p))"
  using assms
  by (auto simp: spends_def room_def p_restore_def p_save_def p_left_def rl_lex_rewind_def rl_lex_mark_def)

lemma spends_cmd_or_expr:
  assumes "funded K p" "K \<le> 250" "p_cmd_or_expr p = (q, i)"
  shows "spends K 0 0 p q"
proof -
  have refl: "spends K 0 0 p p" using assms(1) by (simp add: spends_refl funded_def)
  let ?p = "p_cur p"
  have s: "spends K 0 0 p ?p" by (rule spends_cur [OF refl])
  have f: "funded K ?p" by (rule spends_funded [OF assms(1) s])
  have expr: "spends K 0 0 p r" if "p_expr_yd p' = (r, j)" "spends K 0 0 p p'" for p' r j
    using spends_trans [OF that(2) spends_expr [OF spends_funded [OF assms(1) that(2)] that(1)]] by simp
  obtain r j where r: "p_cmd ?p = (r, j)" by fastforce
  have cmd: "spends K 0 0 p r" "spends K 0 0 p (p_restore r (p_save ?p))" if "r_kind ?p = RLT_IDENT"
  proof -
    have pr: "spends K 0 0 ?p r" by (rule spends_cmd [OF f assms(2) _ r]) (simp add: that)
    then have "spends K 0 0 ?p (p_restore r (p_save ?p))"
      using f by (intro restore_save) (simp_all add: funded_def room_def)
    with pr show "spends K 0 0 p r" "spends K 0 0 p (p_restore r (p_save ?p))"
      using spends_trans [OF s] by fastforce+
  qed
  show ?thesis
    using assms(3) refl s expr cmd by (auto simp: p_cmd_or_expr_def r Let_def split: if_splits)
qed

lemma spends_stage:
  assumes "funded K p" "K \<le> 250" "p_stage p = (q, i)"
  shows "spends K 0 0 p q"
proof -
  have refl: "spends K 0 0 p p" using assms(1) by (simp add: spends_refl funded_def)
  let ?p = "p_cur p"
  have s: "spends K 0 0 p ?p" by (rule spends_cur [OF refl])
  have other: "spends K 0 0 p r" if "p_cmd_or_expr p' = (r, j)" "spends K 0 0 p p'" for p' r j
    using spends_trans [OF that(2) spends_cmd_or_expr [OF spends_funded [OF assms(1) that(2)] assms(2) that(1)]]
    by simp
  obtain p1 pk where p1: "p_peek ?p = (p1, pk)" by fastforce
  have s1: "spends K 0 0 p p1" by (rule spends_idle [OF s idle_peek [OF p1]])
  obtain p2 ok where p2: "p_enter (p_next p1) = (p2, ok)" by fastforce
  obtain p3 j where p3: "p_mknode p2 RLN_CMD = (p3, j)" by fastforce
  have lone: "spends K 0 0 p p2 \<and> spends K 0 0 p (p_leave p3) \<and> spends K 0 0 p (p_set j f (p_leave p3))"
    if "r_kind ?p = RLT_IDENT" for f
  proof -
    have "r_have p1" "r_kind p1 \<noteq> RLT_EOF" using p_left_peek [OF p1] that by (simp_all add: same_lex_def)
    from spends_idle [OF spends_next [OF s1 this] idle_enter [OF p2]]
    have s2: "spends K (0 + 1) (0 + 1) p p2" .
    then have "spends K 0 0 p p2" by (rule spends_weaken) simp_all
    moreover have "spends K 0 0 p p3" by (rule spends_weaken [OF spends_mknode [OF s2 assms(1) p3]]) simp_all
    then have "spends K 0 0 p (p_leave p3)" by (rule spends_idle) simp
    moreover from this have "spends K 0 0 p (p_set j f (p_leave p3))" by (rule spends_idle) simp
    ultimately show ?thesis by simp
  qed
  show ?thesis
    using assms(3) refl s s1 other lone
    by (auto simp: p_stage_def p1 p2 p3 Let_def split: if_splits)
qed


lemma spends_pipe_loop:
  assumes "funded K p" "K \<le> 250" "r_have p" "r_kind p = RLT_PIPEGT" "p_pipe_loop p left n = (q, i)"
  shows "spends K 0 0 p q"
  using assms
proof (induction p left n rule: p_pipe_loop.induct)
  case (1 p left n)
  have r0: "spends K 0 0 p p" using "1.prems"(1) by (simp add: spends_refl funded_def)
  obtain p1 eof where p1: "p_at (p_next p) RLT_EOF = (p1, eof)" by fastforce
  have "spends K (0 + 1) (0 + 1) p (p_next p)" using "1.prems"(3,4) by (intro spends_next [OF r0]) simp_all
  note s1 = spends_at [OF this p1]
  obtain p2 st where p2: "p_stage p1 = (p2, st)" by fastforce
  have "spends K 0 0 p1 p2" by (rule spends_stage [OF spends_funded [OF "1.prems"(1) s1] "1.prems"(2) p2])
  from spends_trans [OF s1 this] have s2: "spends K (0 + 1) 1 p p2" by simp
  obtain p3 j where p3: "p_mknode p2 RLN_PIPE = (p3, j)" by fastforce
  note s3 = spends_mknode [OF s2 "1.prems"(1) p3]
  let ?f = "\<lambda>nd. nd\<lparr>n_k1 := left, n_k2 := st\<rparr>"
  obtain p4 more where p4: "p_at (p_set j ?f p3) RLT_PIPEGT = (p4, more)" by fastforce
  have "spends K 0 1 p (p_set j ?f p3)" by (rule spends_idle [OF s3]) simp
  from spends_at [OF this p4] have s4: "spends K 0 0 p p4" by (rule spends_weaken) simp_all
  have loop: "spends K 0 0 p q" if "p_pipe_loop p4 j (n + 1) = (q, i)" "more"
    "\<not> eof" "r_err p2 = RLP_OK" "\<not> 2 < n + 1" "r_err p3 = RLP_OK"
  proof -
    have "spends K 0 0 p4 q"
      using p_at_true [of "p_set j ?f p3" RLT_PIPEGT p4] p4 that
      by (intro "1.IH" [OF p1 [symmetric] refl _ p2 [symmetric] refl _ _ p3 [symmetric] refl _ p4 [symmetric] refl _
            spends_funded [OF "1.prems"(1) s4] "1.prems"(2)]) simp_all
    from spends_trans [OF s4 this] show ?thesis by simp
  qed
  have "idle p1 (p_fail RLP_SYNTAX p1)" "idle p2 (p_fail RLP_SYNTAX p2)" by simp_all
  then have *: "spends K 0 0 p (p_fail RLP_SYNTAX p1)" "spends K 0 0 p (p_fail RLP_SYNTAX p2)"
    "spends K 0 0 p p2" "spends K 0 0 p p3"
    using s1 s2 s3 by (auto intro: spends_idle spends_weaken)
  show ?case
    using "1.prems"(5) * s4 loop
    by (subst (asm) p_pipe_loop.simps) (auto simp: p1 p2 p3 p4 split: if_splits)
qed

lemma spends_pipeline:
  assumes "funded K p" "K \<le> 250" "p_pipeline p = (q, i)"
  shows "spends K 0 0 p q"
proof -
  obtain p1 st where p1: "p_stage p = (p1, st)" by fastforce
  note s1 = spends_stage [OF assms(1,2) p1]
  obtain p2 more where p2: "p_at p1 RLT_PIPEGT = (p2, more)" by fastforce
  note s2 = spends_at [OF s1 p2]
  have "spends K 0 0 p q" if "p_pipe_loop p2 st 1 = (q, i)" "more"
  proof -
    have "r_have p2 \<and> r_kind p2 = RLT_PIPEGT" using p2 that(2) p_at_true by simp
    then have "spends K 0 0 p2 q"
      using spends_pipe_loop [OF spends_funded [OF assms(1) s2] assms(2) _ _ that(1)] by simp
    from spends_trans [OF s2 this] show ?thesis by simp
  qed
  then show ?thesis using assms(3) s1 s2 by (auto simp: p_pipeline_def p1 p2 split: if_splits)
qed

lemma spends_let:
  assumes "funded K p" "K \<le> 250" "r_have p" "r_kind p = RLT_LET" "p_let p = (q, i)"
  shows "spends K 0 0 p q"
proof -
  have r0: "spends K 0 0 p p" using assms(1) by (simp add: spends_refl funded_def)
  have s0: "spends K (0 + 1) (0 + 1) p (p_next p)" using assms(3,4) by (intro spends_next [OF r0]) simp_all
  obtain p1 b1 where p1: "p_at (p_next p) RLT_IDENT = (p1, b1)" by fastforce
  note s1 = spends_at [OF s0 p1]
  obtain p2 b2 where p2: "p_at (p_next p1) RLT_COLON = (p2, b2)" by fastforce
  note s2 = spends_at [OF spends_next_le [OF s1] p2]
  note s3 = spends_cur [OF spends_next_le [OF s2]]
  obtain p4 b4 where p4: "p_at (p_next (p_cur (p_next p2))) RLT_EQUAL = (p4, b4)" by fastforce
  note s4 = spends_at [OF spends_next_le [OF s3] p4]
  note s4' = spends_next_le [OF s4]
  obtain p5 j where p5: "p_pipeline (p_next p4) = (p5, j)" by fastforce
  from spends_trans [OF s4' spends_pipeline [OF spends_funded [OF assms(1) s4'] assms(2) p5]]
  have s5: "spends K (0 + 1) 1 p p5" by simp
  obtain p6 k where p6: "p_mknode p5 RLN_LET = (p6, k)" by fastforce
  note s6 = spends_mknode [OF s5 assms(1) p6]
  have set6: "spends K 0 0 p (p_set k f p6)" for f
    by (rule spends_weaken [OF spends_idle [OF s6]]) simp_all
  have weak: "spends K 0 0 p r" "spends K 0 0 p (p_fail RLP_SYNTAX r)" if "spends K a b p r" for a b r
    using spends_weaken [OF that, of 0 0] spends_idle [of K 0 0 p r "p_fail RLP_SYNTAX r"] by simp_all
  note * = weak [OF s1] weak [OF s2] weak [OF s3] weak [OF s4] weak [OF s5] weak [OF s6]
  show ?thesis
    using assms(5) * set6
    by (auto simp: p_let_def p1 p2 p4 p5 p6 Let_def split: if_splits option.splits)
qed

lemma p_part_room:
  assumes "funded K p" "K \<le> 250" "p_part p = (q, rc, root)"
  shows "rc \<noteq> RLP_NOMEM"
proof -
  have r0: "spends K 0 0 p p" using assms(1) by (simp add: spends_refl funded_def)
  obtain p1 islet where p1: "p_at p RLT_LET = (p1, islet)" by fastforce
  have f1: "funded K p1" by (rule spends_funded [OF assms(1) spends_at [OF r0 p1]])
  obtain p2 rt where p2: "(if islet then p_let p1 else p_pipeline p1) = (p2, rt)" by fastforce
  have "spends K 0 0 p1 p2"
    using p2 p1 p_at_true [of p RLT_LET p1] spends_let [OF f1 assms(2)] spends_pipeline [OF f1 assms(2)]
    by (simp split: if_splits)
  then have "r_err p2 \<noteq> RLP_NOMEM" by (simp add: spends_def room_def)
  then show ?thesis
    using assms(3) p2 by (auto simp: p_part_def p1 split: if_splits prod.splits)
qed

lemma part_budget:
  "length src \<le> cap \<Longrightarrow> length src \<le> acap \<Longrightarrow> length src \<le> ocap \<Longrightarrow> length src \<le> vcap
    \<Longrightarrow> funded (length src) (p_init src nodes cap ss args acap ocap vcap)"
  by (simp add: funded_def room_def p_init_def p_left_def rl_lex_init_def)

section \<open>The claim\<close>

text \<open>
  (C21) Memory bound. When the node pool, the argument list and both expression stacks hold
  at least as many entries as the part has bytes, and the part has at most 250 bytes, the
  parser never reports \<^verbatim>\<open>RLP_NOMEM\<close>, whatever the bytes are.
\<close>

theorem rl_parse_within_room:
  assumes "length src \<le> cap" "length src \<le> acap" "length src \<le> ocap" "length src \<le> vcap"
    and "length src \<le> 250"
  shows "fst (snd (snd (rl_parse_part src nodes cap ss args acap ocap vcap))) \<noteq> RLP_NOMEM"
  using p_part_room [OF part_budget [OF assms(1-4)] assms(5)]
  by (auto simp: rl_parse_part_def split: prod.splits)

theorem rl_parse_within_room_witness:
  "fst (snd (snd (rl_parse_part ''ls > x | y'' (\<lambda>_. fresh_node RLN_INT) 10
     \<lparr>ss_base = \<lambda>_. NL, ss_cap = 0, ss_used = 0\<rparr> (\<lambda>_. 0) 10 10 10))) \<noteq> RLP_NOMEM"
  by (rule rl_parse_within_room) simp_all

end
