(* ===== verification/Rl_Front.thy ===== *)
theory Rl_Front
  imports Rl_Shape Rl_Bound "HOL-Library.Code_Target_Nat"
begin

text \<open>
  From text to value: what the parser, the analyzer and the evaluator guarantee together.
  The parser's result has the shape the analyzer walks, and an analyzed expression evaluates
  to a value of its type within the walk stack that a submission provides.
\<close>

section \<open>A sample part\<close>

definition demo_scratch :: rl_strscratch where
  "demo_scratch = \<lparr>ss_base = \<lambda>_. NL, ss_cap = 256, ss_used = 0\<rparr>"

definition demo_parse :: "string \<Rightarrow> rlp \<times> rl_strscratch \<times> rlp_rc \<times> nat" where
  "demo_parse src = rl_parse_part src (\<lambda>_. fresh_node RLN_WORD) 256 demo_scratch (\<lambda>_. 0) 128 256 256"

definition demo_div_ctx :: rl_an_ctx where
  "demo_div_ctx = demo_an_ctx\<lparr>an_text := ''n/n''\<rparr>"

lemma demo_div:
  "case demo_parse ''n/n'' of (p, ss, rc, root) \<Rightarrow>
     rc = RLP_OK \<and> root = 2 \<and> n_kind (r_nodes p 2) = RLN_BINOP
     \<and> snd (rl_an_sub demo_div_ctx (r_nodes p) (\<lambda>_. RLV_UNKNOWN) 2) = Inr RLV_INT"
  by code_simp

lemma demo_div_parsed:
  obtains p ss pool' where "rl_parse_part ''n/n'' (\<lambda>_. fresh_node RLN_WORD) 256 demo_scratch (\<lambda>_. 0)
      128 256 256 = (p, ss, RLP_OK, 2)" "n_kind (r_nodes p 2) = RLN_BINOP"
    "rl_an_sub demo_div_ctx (r_nodes p) (\<lambda>_. RLV_UNKNOWN) 2 = (pool', Inr RLV_INT)"
  using demo_div unfolding demo_parse_def by (auto simp: prod_eq_iff split: prod.splits)

lemma demo_redirect:
  "case demo_parse (''ls a >'' @ rl_quote ''f'') of (p, ss, rc, root) \<Rightarrow>
     rc = RLP_OK \<and> root = 2 \<and> r_used p = 3 \<and> n_kind (r_nodes p 1) = RLN_STR \<and> n_aux (r_nodes p 1) = 2"
  by code_simp

section \<open>Properties\<close>

text \<open>
  (C20) What an accepted part is. The root lies among the nodes in use, which fit the pool,
  and it is a command, an expression tree, a pipeline of exactly two such stages, or a let
  of one of these; children always have smaller indices than their parent.
\<close>
theorem rl_parse_shape:
  assumes "rl_parse_part src nodes cap ss args acap ocap vcap = (p, ss', RLP_OK, root)"
    and "cap \<le> RL_POOL_MAX"
  shows "root < r_used p \<and> r_used p \<le> cap \<and> part_root (r_nodes p) root"
  using rl_parse_part_shape [OF assms] by (auto simp: pool_ok_def)

theorem rl_parse_shape_witness:
  "\<exists>p ss'. rl_parse_part ''n/n'' (\<lambda>_. fresh_node RLN_WORD) 256 demo_scratch (\<lambda>_. 0) 128 256 256
      = (p, ss', RLP_OK, 2) \<and> 2 < r_used p \<and> r_used p \<le> 256 \<and> part_root (r_nodes p) 2"
proof -
  obtain p ss pool' where p: "rl_parse_part ''n/n'' (\<lambda>_. fresh_node RLN_WORD) 256 demo_scratch (\<lambda>_. 0)
      128 256 256 = (p, ss, RLP_OK, 2)" by (rule demo_div_parsed)
  with rl_parse_shape [OF p] show ?thesis by (auto simp: RL_POOL_MAX_def)
qed

text \<open>
  (C27) The append redirect does not exist. No accepted part contains a string node in
  append mode (mode 3): the parser compares the second \<^verbatim>\<open>>\<close> with itself, so the pair \<^verbatim>\<open>>>\<close> is
  never joined, although the grammar documents it.
\<close>
theorem rl_append_never_built:
  assumes "rl_parse_part src nodes cap ss args acap ocap vcap = (p, ss', RLP_OK, root)"
    and "cap \<le> RL_POOL_MAX" and "j < r_used p" and "n_kind (r_nodes p j) = RLN_STR"
  shows "n_aux (r_nodes p j) \<noteq> 3"
  using rl_parse_part_shape [OF assms(1,2)] assms(3,4) by (auto simp: pool_ok_def node_ok_def)

theorem rl_append_never_built_witness:
  "\<exists>p ss'. rl_parse_part (''ls a >'' @ rl_quote ''f'') (\<lambda>_. fresh_node RLN_WORD) 256 demo_scratch (\<lambda>_. 0)
      128 256 256 = (p, ss', RLP_OK, 2) \<and> n_kind (r_nodes p 1) = RLN_STR \<and> n_aux (r_nodes p 1) \<noteq> 3"
proof -
  obtain p ss where p: "rl_parse_part (''ls a >'' @ rl_quote ''f'') (\<lambda>_. fresh_node RLN_WORD) 256
      demo_scratch (\<lambda>_. 0) 128 256 256 = (p, ss, RLP_OK, 2)" "r_used p = 3" "n_kind (r_nodes p 1) = RLN_STR"
    using demo_redirect unfolding demo_parse_def by (auto split: prod.splits)
  with rl_append_never_built [OF p(1), of 1] show ?thesis by (auto simp: RL_POOL_MAX_def)
qed

text \<open>
  (C16) From text to value. Let a part parse, its root be neither a command, a pipeline nor
  a let, and the analyzer give the root a type. Then the parsed pool holds an expression
  tree there, and evaluation with the 512-entry walk stack returns a value of that type or
  traps on a division whenever the value stack holds the tree's need; with a smaller value
  stack it stops with the trap or with the internal error, never with a value.
\<close>
theorem rl_text_evaluates:
  assumes "rl_parse_part src nodes cap ss args acap ocap vcap = (p, ss', RLP_OK, root)"
    and "cap \<le> RL_POOL_MAX" and "n_kind (r_nodes p root) \<notin> {RLN_CMD, RLN_PIPE, RLN_LET}"
    and "rl_an_sub x (r_nodes p) types root = (pool', Inr t)"
    and "RL_POOL_MAX \<le> an_typecap x" and "tab_typed x" and "ev_matches x c"
    and "ev_pool c = Some pool'" and "ev_walk c = Some 512" and "ev_vstack c = Some slots" and "0 < slots"
  shows "\<exists>e. exp_at (r_nodes p) root = Some e \<and>
    (if vneed e \<le> slots then sound_result t (fst (rl_eval c root))
     else fst (rl_eval c root) \<in> {EvTrap, EvInternal})"
proof -
  note shape = rl_parse_part_shape [OF assms(1,2)]
  then obtain e where e: "exp_at (r_nodes p) root = Some e"
    using assms(3) by (auto simp: part_root_def pipe_root_def stage_root_def)
  have root: "root < RL_POOL_MAX" using shape by (auto simp: pool_ok_def)
  have w: "wneed e \<le> 512" using exp_at_wneed [OF e] root by (simp add: RL_POOL_MAX_def)
  have "exp_at (r_nodes p) root \<noteq> None" using e by simp
  note typed = rl_an_sub_typed [OF assms(4) this assms(5)]
  then obtain e' where e': "exp_at pool' root = Some e'" "wneed e' = wneed e" "vneed e' = vneed e"
    using exp_at_resolves [OF _ e] by fastforce
  have sound: "sound_result t (fst (eval_tree c e'))"
    using eval_tree_sound [OF assms(7,6) e'(1)] typed by simp
  have run: "rl_eval c root = eval_exp c 512 slots e'"
    by (rule rl_eval_exp [OF assms(8-10) _ assms(11) e'(1) root]) simp
  show ?thesis
  proof (cases "vneed e \<le> slots")
    case True
    then have "rl_eval c root = eval_tree c e'" using run w e'(2,3) by (simp add: eval_exp_tree)
    then show ?thesis using e True sound by auto
  next
    case False
    then have "fst (eval_exp c 512 slots e') = EvInternal" if "fst (eval_tree c e') = EvOk v" for v
      using eval_exp_overflow [OF _ _ that] w e'(2,3) by simp
    then have "fst (rl_eval c root) \<in> {EvTrap, EvInternal}"
      using eval_exp_or_internal [of c 512 slots e'] sound run by (auto simp: sound_result_def)
    then show ?thesis using e False by auto
  qed
qed

theorem rl_text_evaluates_witness:
  "\<exists>p ss' pool' e. rl_parse_part ''n/n'' (\<lambda>_. fresh_node RLN_WORD) 256 demo_scratch (\<lambda>_. 0) 128 256 256
      = (p, ss', RLP_OK, 2)
    \<and> exp_at (r_nodes p) 2 = Some e
    \<and> (if vneed e \<le> 66 then sound_result RLV_INT (fst (rl_eval (demo_var_ctx pool') 2))
       else fst (rl_eval (demo_var_ctx pool') 2) \<in> {EvTrap, EvInternal})"
proof -
  obtain p ss pool' where p: "rl_parse_part ''n/n'' (\<lambda>_. fresh_node RLN_WORD) 256 demo_scratch (\<lambda>_. 0)
      128 256 256 = (p, ss, RLP_OK, 2)" "n_kind (r_nodes p 2) = RLN_BINOP"
    "rl_an_sub demo_div_ctx (r_nodes p) (\<lambda>_. RLV_UNKNOWN) 2 = (pool', Inr RLV_INT)"
    by (rule demo_div_parsed)
  have "\<exists>e. exp_at (r_nodes p) 2 = Some e \<and>
    (if vneed e \<le> 66 then sound_result RLV_INT (fst (rl_eval (demo_var_ctx pool') 2))
     else fst (rl_eval (demo_var_ctx pool') 2) \<in> {EvTrap, EvInternal})"
    by (rule rl_text_evaluates [OF p(1) _ _ p(3)])
      (simp_all add: p(2) RL_POOL_MAX_def demo_div_ctx_def demo_an_ctx_def demo_var_ctx_def tab_typed_def
        ev_matches_def)
  with p(1) show ?thesis by blast
qed

end
