(* ===== verification/Rl_Session.thy ===== *)
theory Rl_Session
  imports Rl_Shape
begin

text \<open>
  The RynorLang session, \<^verbatim>\<open>src/user/shell/rl_sem.c\<close> and \<^verbatim>\<open>rl_mem.h\<close>: the submission arena,
  the accepted source with its symbol table, and \<^verbatim>\<open>rl_submit\<close>, which re-analyzes the whole
  accepted source, analyzes and evaluates one part, and commits a \<^verbatim>\<open>let\<close> only when all of it
  succeeds.

  The record \<open>rl_sess\<close> holds the two statics \<^verbatim>\<open>rl_sess\<close> and \<^verbatim>\<open>rl_sub\<close>. The accepted source is
  the list of its \<^verbatim>\<open>srclen\<close> bytes. The carved regions of the submission arena (nodes,
  decoded bytes, argument indices) are arrays of their own, since a carve succeeds only on
  the empty arena and then always yields the same disjoint regions. The type array of the
  analyzer overlays other scratch memory, so its contents before each analysis are a
  parameter, \<open>stale\<close>, numbered by the item. The output of a submission is the list of the
  strings passed to the \<^verbatim>\<open>emit\<close> callback.
\<close>

section \<open>The submission arena\<close>

record rl_arena =
  ar_base :: bool
  ar_cap :: nat
  ar_used :: nat
  ar_high :: nat

definition rl_arena_init :: "nat \<Rightarrow> rl_arena" where
  "rl_arena_init cap = \<lparr>ar_base = True, ar_cap = cap, ar_used = 0, ar_high = 0\<rparr>"

definition rl_arena_mark :: "rl_arena \<Rightarrow> nat" where
  "rl_arena_mark a = ar_used a"

definition rl_arena_bump :: "rl_arena \<Rightarrow> nat \<Rightarrow> rl_arena \<times> nat option" where
  "rl_arena_bump a n0 =
    (let n = (n0 + 3) mod 2 ^ 32 div 4 * 4 in
     if \<not> ar_base a then (a, None)
     else if ar_cap a < n \<or> ar_cap a - n < ar_used a then (a, None)
     else
       let used = ar_used a + n in
       (a\<lparr>ar_used := used, ar_high := (if ar_high a < used then used else ar_high a)\<rparr>, Some (ar_used a)))"

definition rl_arena_reset_to :: "nat \<Rightarrow> rl_arena \<Rightarrow> rl_arena" where
  "rl_arena_reset_to mark a = (if mark \<le> ar_used a then a\<lparr>ar_used := mark\<rparr> else a)"

definition rl_arena_reset :: "rl_arena \<Rightarrow> rl_arena" where
  "rl_arena_reset a = a\<lparr>ar_used := 0\<rparr>"

section \<open>Session state\<close>

definition RL_SESS_MAX :: nat where "RL_SESS_MAX = 8192"
definition RL_SYM_MAX :: nat where "RL_SYM_MAX = 128"
definition RL_SESS_ARENA :: nat where "RL_SESS_ARENA = 4608"
definition RL_SUB_ARENA :: nat where "RL_SUB_ARENA = 6688"
definition RL_SUB_POOL_NODES :: nat where "RL_SUB_POOL_NODES = 256"
definition RL_SUB_STRB :: nat where "RL_SUB_STRB = 256"
definition RL_SUB_ARGS :: nat where "RL_SUB_ARGS = 128"
definition RL_SUB_AUX :: nat where "RL_SUB_AUX = 2080"
definition RL_SUB_WALK :: nat where "RL_SUB_WALK = 512"
definition RL_SUB_VCAP :: nat where "RL_SUB_VCAP = 66"
definition RL_SUB_OPS :: nat where "RL_SUB_OPS = 256"
definition RL_SUB_PVALS :: nat where "RL_SUB_PVALS = 256"

definition RL_D_PAR_LEX :: string where "RL_D_PAR_LEX = ''PAR_LEX_ERROR''"
definition RL_D_OWNFAIL :: string where "RL_D_OWNFAIL = ''RL_OWNERSHIP_FAIL''"
definition RL_D_SESSION_LIMIT :: string where "RL_D_SESSION_LIMIT = ''RL_SESSION_LIMIT''"
definition RL_D_SYMBOL_LIMIT :: string where "RL_D_SYMBOL_LIMIT = ''RL_SYMBOL_LIMIT''"
definition RL_D_EVAL_TRAP :: string where "RL_D_EVAL_TRAP = ''RL_EVAL_TRAP''"

definition RL_PARTNAME :: nat where "RL_PARTNAME = 2"
definition RL_SPTR :: nat where "RL_SPTR = 4"

datatype rl_sub_kind =
    RL_SUB_OK | RL_SUB_SYNTAX | RL_SUB_REJECT | RL_SUB_NOTIMPL | RL_SUB_TRAP | RL_SUB_ARENAFULL
  | RL_SUB_OWNFAIL | RL_SUB_INTERNAL

record rl_outcome =
  oc_kind :: rl_sub_kind
  oc_diag :: string
  oc_val :: rl_val

record rl_sess =
  se_src :: string
  se_syms :: "nat \<Rightarrow> rl_sym"
  se_nsyms :: nat
  se_cand :: "nat \<Rightarrow> rl_sym"
  se_arena :: "nat \<Rightarrow> char"
  se_used :: nat
  se_high :: nat
  se_sub :: rl_arena
  sb_nodes :: rl_pool
  sb_strb :: "nat \<Rightarrow> char"
  sb_args :: "nat \<Rightarrow> nat"
  se_emit :: bool

definition rl_sess_init :: "bool \<Rightarrow> rl_sess \<Rightarrow> rl_sess" where
  "rl_sess_init emit s =
    s\<lparr>se_src := [], se_nsyms := 0, se_arena := (\<lambda>_. CHR 0x00), se_used := 0, se_high := 0,
      se_sub := rl_arena_init RL_SUB_ARENA, se_emit := emit\<rparr>"

definition rl_sub_reset :: "rl_sess \<Rightarrow> rl_sess" where
  "rl_sub_reset s = s\<lparr>se_sub := rl_arena_reset (se_sub s)\<rparr>"

text \<open>The four offsets of the carve, or none when one of the bumps failed.\<close>

definition rl_carve :: "rl_sess \<Rightarrow> rl_sess \<times> (nat \<times> nat \<times> nat \<times> nat) option" where
  "rl_carve s =
    (let (a1, pool) = rl_arena_bump (se_sub s) (RL_SUB_POOL_NODES * 16);
         (a2, strb) = rl_arena_bump a1 RL_SUB_STRB;
         (a3, args) = rl_arena_bump a2 (RL_SUB_ARGS * 2);
         (a4, aux) = rl_arena_bump a3 RL_SUB_AUX in
     (s\<lparr>se_sub := a4\<rparr>,
      case (pool, strb, args, aux) of
        (Some p, Some t, Some a, Some x) \<Rightarrow> Some (p, t, a, x)
      | _ \<Rightarrow> None))"

definition rl_declared :: "rl_sess \<Rightarrow> string \<Rightarrow> bool" where
  "rl_declared s nm = (nm \<noteq> [] \<and> rl_lookup (se_syms s) (se_nsyms s) (se_src s) nm (length nm) \<noteq> None)"

record rl_stats =
  st_sess_live :: nat
  st_sess_high :: nat
  st_sub_live :: nat
  st_sub_high :: nat
  st_nsyms :: nat
  st_srclen :: nat

definition rl_stats_of :: "rl_sess \<Rightarrow> rl_stats" where
  "rl_stats_of s = \<lparr>st_sess_live = se_used s, st_sess_high = se_high s, st_sub_live = ar_used (se_sub s),
     st_sub_high = ar_high (se_sub s), st_nsyms = se_nsyms s, st_srclen = length (se_src s)\<rparr>"

definition own_row :: "rl_sym \<Rightarrow> nat \<Rightarrow> bool" where
  "own_row r used =
    (if sy_type r \<noteq> RLV_STR then True
     else if sy_flags r AND (RL_PARTNAME OR RL_SPTR) \<noteq> 0 then False
     else if used \<le> unat (sy_pay r) then False
     else \<not> used - unat (sy_pay r) < sy_str_len r)"

fun rl_own_check_tab :: "(nat \<Rightarrow> rl_sym) \<Rightarrow> nat \<Rightarrow> nat \<Rightarrow> bool" where
  "rl_own_check_tab tab 0 used = True"
| "rl_own_check_tab tab (Suc n) used = (rl_own_check_tab tab n used \<and> own_row (tab n) used)"

section \<open>Helpers\<close>

definition rl_is_ws :: "char \<Rightarrow> bool" where
  "rl_is_ws c = (c = CHR '' '' \<or> c = TAB \<or> c = CR \<or> c = NL)"

text \<open>The canonical text with its final newline, and the width of the leading trim.\<close>

definition rl_canon :: "string \<Rightarrow> nat \<Rightarrow> (string \<times> nat) option" where
  "rl_canon part cap =
    (let a = length (takeWhile rl_is_ws part);
         body = rev (dropWhile rl_is_ws (rev (drop a part))) in
     if cap < length body + 1 then None else Some (body @ [NL], a))"

fun hd_nul :: "string \<Rightarrow> char" where
  "hd_nul [] = CHR 0x00"
| "hd_nul (c # cs) = c"

primrec streq_loop :: "nat \<Rightarrow> string \<Rightarrow> string \<Rightarrow> bool" where
  "streq_loop 0 a b = (hd_nul a = hd_nul b)"
| "streq_loop (Suc n) a b =
    (if hd_nul a \<noteq> CHR 0x00 \<and> hd_nul b \<noteq> CHR 0x00 then
       if hd_nul a \<noteq> hd_nul b then False else streq_loop n (tl a) (tl b)
     else hd_nul a = hd_nul b)"

definition rl_streq :: "string \<Rightarrow> string \<Rightarrow> bool" where
  "rl_streq a b = streq_loop 64 a b"

text \<open>A null diagnostic becomes the internal class, also for a success.\<close>

definition rl_fail :: "rl_sub_kind \<Rightarrow> string option \<Rightarrow> rl_outcome" where
  "rl_fail kind diag = \<lparr>oc_kind = kind,
     oc_diag = (case diag of None \<Rightarrow> RL_D_INTERNAL | Some d \<Rightarrow> d), oc_val = VUnit\<rparr>"

type_synonym rl_submitted = "rl_sess \<times> rl_outcome \<times> string list"

abbreviation sub_fail :: "rl_sess \<Rightarrow> rl_sub_kind \<Rightarrow> string \<Rightarrow> string list \<Rightarrow> rl_submitted" where
  "sub_fail s kind diag out \<equiv> (rl_sub_reset s, rl_fail kind (Some diag), out)"

definition an_refused :: "string \<Rightarrow> rl_sub_kind" where
  "an_refused diag =
    (let k = (if rl_streq diag RL_D_ARENA_FULL \<or> rl_streq diag RL_D_INTERNAL then RL_SUB_ARENAFULL
              else RL_SUB_REJECT) in
     if rl_streq diag RL_D_INTERNAL then RL_SUB_INTERNAL else k)"

definition sub_an_ctx :: "rl_sess \<Rightarrow> string \<Rightarrow> nat \<Rightarrow> (nat \<Rightarrow> nat) \<Rightarrow> (nat \<Rightarrow> rl_sym) \<Rightarrow> rl_an_ctx" where
  "sub_an_ctx s text ncand args cand = \<lparr>an_text = text, an_tab = cand, an_ntab = ncand,
     an_sess = se_src s, an_args = args, an_argcap = RL_SUB_ARGS, an_walkcap = RL_SUB_WALK,
     an_typecap = RL_SUB_POOL_NODES\<rparr>"

definition sub_ev_ctx :: "rl_sess \<Rightarrow> nat \<Rightarrow> rl_eval_ctx" where
  "sub_ev_ctx s ncand = \<lparr>ev_pool = Some (sb_nodes s), ev_strbase = Some (sb_strb s),
     ev_syms = Some (se_cand s), ev_nsyms = ncand, ev_arena = Some (se_arena s),
     ev_walk = Some RL_SUB_WALK, ev_vstack = Some RL_SUB_VCAP, ev_emit = se_emit s\<rparr>"

section \<open>Rebuilding the candidate table\<close>

record rl_rebuild =
  rb_nodes :: rl_pool
  rb_ss :: rl_strscratch
  rb_args :: "nat \<Rightarrow> nat"
  rb_cand :: "nat \<Rightarrow> rl_sym"
  rb_ncand :: nat
  rb_ridx :: nat

definition rl_item ::
  "(nat \<Rightarrow> rl_types) \<Rightarrow> rl_sess \<Rightarrow> nat \<Rightarrow> string \<Rightarrow> rl_rebuild \<Rightarrow> rl_rebuild \<times> bool" where
  "rl_item stale s rpos item b =
    (case rl_parse_part item (rb_nodes b) RL_SUB_POOL_NODES (rb_ss b) (rb_args b) RL_SUB_ARGS
        RL_SUB_OPS RL_SUB_PVALS of (p, ss, rc, root) \<Rightarrow>
     let b1 = b\<lparr>rb_nodes := r_nodes p, rb_ss := ss, rb_args := r_args p\<rparr>; iroot = r_nodes p root in
     if rc \<noteq> RLP_OK \<or> RL_POOL_MAX \<le> root then (b1, False)
     else if n_kind iroot \<noteq> RLN_LET then (b1, False)
     else if n_k1 iroot = RL_NONODE then (b1, False)
     else
       case rl_an_sub (sub_an_ctx s (drop rpos (se_src s)) (rb_ncand b) (r_args p) (rb_cand b))
           (r_nodes p) (stale (rb_ridx b)) (n_k1 iroot) of
         (pool, Inl diag) \<Rightarrow> (b1\<lparr>rb_nodes := pool\<rparr>, False)
       | (pool, Inr t) \<Rightarrow>
           let b2 = b1\<lparr>rb_nodes := pool\<rparr> in
           if t = RLV_UNKNOWN \<or> rlv_code t \<noteq> n_aux iroot then (b2, False)
           else if rl_lookup (rb_cand b) (rb_ncand b) (se_src s)
               (drop (rpos + n_e1 (pool root)) (se_src s)) (n_e2 (pool root)) \<noteq> None then (b2, False)
           else if se_nsyms s \<le> rb_ridx b \<or> RL_SYM_MAX \<le> rb_ncand b then (b2, False)
           else (b2\<lparr>rb_cand := (rb_cand b)(rb_ncand b := se_syms s (rb_ridx b)),
                    rb_ncand := rb_ncand b + 1, rb_ridx := rb_ridx b + 1,
                    rb_ss := ss\<lparr>ss_used := ss_used (rb_ss b)\<rparr>\<rparr>, True))"

function rl_rebuild_loop ::
  "(nat \<Rightarrow> rl_types) \<Rightarrow> rl_sess \<Rightarrow> nat \<Rightarrow> rl_rebuild \<Rightarrow> rl_rebuild \<times> bool" where
  "rl_rebuild_loop stale s rpos b =
    (if length (se_src s) \<le> rpos then (b, True)
     else
       let item = takeWhile (\<lambda>c. c \<noteq> NL) (drop rpos (se_src s));
           e = rpos + length item;
           e' = (if e < length (se_src s) then e + 1 else e) in
       if item = [] then rl_rebuild_loop stale s e' b
       else case rl_item stale s rpos item b of
         (b', ok) \<Rightarrow> if \<not> ok then (b', False) else rl_rebuild_loop stale s e' b')"
  by pat_completeness auto
termination
  by (relation "measure (\<lambda>(stale, s, rpos, b). length (se_src s) - rpos)") (auto simp: Let_def)

declare rl_rebuild_loop.simps [simp del]

section \<open>The candidate\<close>

text \<open>
  The staged row of a \<^verbatim>\<open>let\<close>. For a string its \<^verbatim>\<open>pay\<close> field holds the address of the
  evaluated bytes until the commit, which is the second component here.
\<close>

fun rlv_of_code :: "nat \<Rightarrow> rl_vtype" where
  "rlv_of_code c = (if c = 1 then RLV_INT else if c = 2 then RLV_BOOL else if c = 3 then RLV_STR
     else if c = 4 then RLV_UNIT else RLV_UNKNOWN)"

declare rlv_of_code.simps [simp del]

definition rl_stage :: "rl_sess \<Rightarrow> rl_node \<Rightarrow> nat \<Rightarrow> rl_val \<Rightarrow> rl_sym \<times> ((rl_sub_kind \<times> string) + rl_ptr)" where
  "rl_stage s root_nd dt ev =
    (let row = \<lparr>sy_name_off = n_e1 root_nd mod 65536, sy_name_len = n_e2 root_nd mod 65536,
                sy_type = rlv_of_code dt, sy_flags = RL_PARTNAME, sy_str_len = 0, sy_pay = 0\<rparr>;
         bad = (row, Inl (RL_SUB_INTERNAL, RL_D_INTERNAL)) in
     if dt = rlv_code RLV_INT then
       (case ev of VInt a \<Rightarrow> (row\<lparr>sy_pay := a\<rparr>, Inr (PScratch 0)) | _ \<Rightarrow> bad)
     else if dt = rlv_code RLV_BOOL then
       (case ev of VBool a \<Rightarrow> (row\<lparr>sy_pay := a\<rparr>, Inr (PScratch 0)) | _ \<Rightarrow> bad)
     else if dt = rlv_code RLV_STR then
       (case ev of VStr sp sl \<Rightarrow>
          if RL_SESS_ARENA < se_used s \<or> RL_SESS_ARENA - se_used s < sl
          then (row, Inl (RL_SUB_ARENAFULL, RL_D_ARENA_FULL))
          else (row\<lparr>sy_str_len := sl, sy_flags := RL_PARTNAME OR RL_SPTR\<rparr>, Inr sp)
        | _ \<Rightarrow> bad)
     else bad)"

primrec promote :: "(nat \<Rightarrow> char) \<Rightarrow> rl_ptr \<Rightarrow> nat \<Rightarrow> nat \<Rightarrow> (nat \<Rightarrow> char) \<Rightarrow> (nat \<Rightarrow> char)" where
  "promote strb sp dst 0 ar = ar"
| "promote strb sp dst (Suc k) ar =
    (let ar' = promote strb sp dst k ar in
     ar'(dst + k := (case sp of PScratch off \<Rightarrow> strb (off + k) | PSession off \<Rightarrow> ar' (off + k))))"

definition rl_commit ::
  "string \<Rightarrow> nat \<Rightarrow> nat \<Rightarrow> rl_sym \<Rightarrow> rl_ptr \<Rightarrow> rl_sess \<Rightarrow> rl_sess \<times> rl_outcome" where
  "rl_commit canon trim ncand row sp s =
    (let old_src = se_src s; old_used = se_used s;
         s1 = (if sy_type row = RLV_STR then
                 let used = old_used + sy_str_len row in
                 s\<lparr>se_arena := promote (sb_strb s) sp old_used (sy_str_len row) (se_arena s), se_used := used,
                   se_high := (if se_high s < used then used else se_high s)\<rparr>
               else s);
         row1 = (if sy_type row = RLV_STR then row\<lparr>sy_pay := of_nat old_used\<rparr> else row);
         row2 = row1\<lparr>sy_name_off :=
             nat ((int (length old_src) + (int (sy_name_off row1) - int trim)) mod 65536), sy_flags := 0\<rparr>;
         s2 = s1\<lparr>se_cand := (se_cand s1)(ncand - 1 := row2), se_src := old_src @ canon\<rparr> in
     if \<not> rl_own_check_tab (se_cand s2) ncand (se_used s2) then
       (rl_sub_reset (s2\<lparr>se_src := old_src, se_used := old_used\<rparr>), rl_fail RL_SUB_OWNFAIL (Some RL_D_OWNFAIL))
     else
       (rl_sub_reset (s2\<lparr>se_syms := (\<lambda>k. if k < ncand then se_cand s2 k else se_syms s2 k), se_nsyms := ncand\<rparr>),
        rl_fail RL_SUB_OK None))"

definition rl_let :: "rl_types \<Rightarrow> string \<Rightarrow> nat \<Rightarrow> string \<Rightarrow> nat \<Rightarrow> nat \<Rightarrow> rl_sess \<Rightarrow> rl_submitted" where
  "rl_let types part root canon trim ncand s =
    (let root_nd = sb_nodes s root; init = n_k1 root_nd; dt = n_aux root_nd in
     if init = RL_NONODE then sub_fail s RL_SUB_INTERNAL RL_D_INTERNAL []
     else
       case rl_an_sub (sub_an_ctx s part ncand (sb_args s) (se_cand s)) (sb_nodes s) types init of
         (pool, Inl diag) \<Rightarrow> sub_fail (s\<lparr>sb_nodes := pool\<rparr>) (an_refused diag) diag []
       | (pool, Inr itype) \<Rightarrow>
           let s1 = s\<lparr>sb_nodes := pool\<rparr>; nd = pool root; nm = drop (n_e1 nd) part; nl = n_e2 nd in
           if itype = RLV_UNKNOWN then sub_fail s1 RL_SUB_INTERNAL RL_D_INTERNAL []
           else if itype = RLV_UNIT then sub_fail s1 RL_SUB_REJECT RL_D_SEM_TYPE []
           else if rlv_code itype \<noteq> dt then sub_fail s1 RL_SUB_REJECT RL_D_SEM_TYPE []
           else if rl_reserved nm nl then sub_fail s1 RL_SUB_REJECT RL_D_SEM_DUPLICATE []
           else if rl_lookup (se_cand s) ncand (se_src s) nm nl \<noteq> None then
             sub_fail s1 RL_SUB_REJECT RL_D_SEM_DUPLICATE []
           else if RL_SYM_MAX \<le> se_nsyms s then sub_fail s1 RL_SUB_REJECT RL_D_SYMBOL_LIMIT []
           else
             case rl_eval (sub_ev_ctx s1 ncand) init of
               (EvTrap, out) \<Rightarrow> sub_fail s1 RL_SUB_TRAP RL_D_EVAL_TRAP out
             | (EvInternal, out) \<Rightarrow> sub_fail s1 RL_SUB_INTERNAL RL_D_INTERNAL out
             | (EvOk ev, out) \<Rightarrow>
                 if RL_SYM_MAX \<le> ncand then sub_fail s1 RL_SUB_INTERNAL RL_D_INTERNAL out
                 else
                   case rl_stage s1 nd dt ev of
                     (row, Inl (kind, diag)) \<Rightarrow>
                       sub_fail (s1\<lparr>se_cand := (se_cand s1)(ncand := row)\<rparr>) kind diag out
                   | (row, Inr sp) \<Rightarrow>
                       case rl_commit canon trim (ncand + 1) row sp s1 of (s2, oc) \<Rightarrow> (s2, oc, out))"

definition rl_bare :: "rl_types \<Rightarrow> string \<Rightarrow> nat \<Rightarrow> nat \<Rightarrow> rl_sess \<Rightarrow> rl_submitted" where
  "rl_bare types part root ncand s =
    (case rl_an_sub (sub_an_ctx s part ncand (sb_args s) (se_cand s)) (sb_nodes s) types root of
       (pool, Inl diag) \<Rightarrow> sub_fail (s\<lparr>sb_nodes := pool\<rparr>) (an_refused diag) diag []
     | (pool, Inr t) \<Rightarrow>
         let s1 = s\<lparr>sb_nodes := pool\<rparr>; c = sub_ev_ctx s1 ncand in
         if t = RLV_UNKNOWN then sub_fail s1 RL_SUB_INTERNAL RL_D_INTERNAL []
         else case rl_eval c root of
           (EvTrap, out) \<Rightarrow> sub_fail s1 RL_SUB_TRAP RL_D_EVAL_TRAP out
         | (EvInternal, out) \<Rightarrow> sub_fail s1 RL_SUB_INTERNAL RL_D_INTERNAL out
         | (EvOk ev, out) \<Rightarrow>
             let text = rl_render (ev_load c) ev 24;
                 say = (\<lambda>bytes. if se_emit s then out @ [bytes] else out);
                 ok = (\<lambda>out'. (rl_sub_reset s1, rl_fail RL_SUB_OK None, out')) in
             case ev of
               VStr p n \<Rightarrow> ok (say (ev_load c p n))
             | VUnit \<Rightarrow> ok out
             | _ \<Rightarrow> if text = [] then sub_fail s1 RL_SUB_INTERNAL RL_D_INTERNAL out else ok (say text))"

section \<open>Submission\<close>

definition let_shaped :: "string \<Rightarrow> bool" where
  "let_shaped part =
    (3 \<le> length part \<and> take 3 part = ''let''
     \<and> (length part = 3 \<or> \<not> rl_is_alpha (part ! 3) \<and> \<not> rl_is_digit (part ! 3)))"

definition session_room :: "rl_sess \<Rightarrow> (string \<times> nat) option \<Rightarrow> bool" where
  "session_room s canon =
    (case canon of None \<Rightarrow> False
     | Some (text, trim) \<Rightarrow> length text \<le> RL_SESS_MAX \<and> length (se_src s) \<le> RL_SESS_MAX - length text)"

definition rl_candidate :: "rl_types \<Rightarrow> string \<Rightarrow> nat \<Rightarrow> rl_strscratch \<Rightarrow> rl_sess \<Rightarrow> rl_submitted" where
  "rl_candidate types part ncand ss s =
    (case rl_parse_part part (sb_nodes s) RL_SUB_POOL_NODES ss (sb_args s) RL_SUB_ARGS RL_SUB_OPS
        RL_SUB_PVALS of (p, ss', rc, root) \<Rightarrow>
     let s1 = s\<lparr>sb_nodes := r_nodes p, sb_strb := ss_base ss', sb_args := r_args p\<rparr> in
     if rc \<noteq> RLP_OK \<or> RL_POOL_MAX \<le> root then
       if rc = RLP_NOMEM then sub_fail s1 RL_SUB_ARENAFULL RL_D_ARENA_FULL []
       else sub_fail s1 RL_SUB_SYNTAX RL_D_PAR_LEX []
     else if n_kind (r_nodes p root) \<noteq> RLN_LET then rl_bare types part root ncand s1
     else case rl_canon part 514 of
       None \<Rightarrow> sub_fail s1 RL_SUB_REJECT RL_D_SESSION_LIMIT []
     | Some (canon, trim) \<Rightarrow>
         if \<not> session_room s (Some (canon, trim)) then sub_fail s1 RL_SUB_REJECT RL_D_SESSION_LIMIT []
         else rl_let types part root canon trim ncand s1)"

definition rl_submit :: "(nat \<Rightarrow> rl_types) \<Rightarrow> string \<Rightarrow> rl_sess \<Rightarrow> rl_submitted" where
  "rl_submit stale part s =
    (if part = [] \<or> 512 < length part then sub_fail s RL_SUB_SYNTAX RL_D_PAR_LEX []
     else case rl_carve s of
       (s1, None) \<Rightarrow> sub_fail s1 RL_SUB_ARENAFULL RL_D_ARENA_FULL []
     | (s1, Some offs) \<Rightarrow>
         if let_shaped part \<and> \<not> session_room s1 (rl_canon part 514) then
           sub_fail s1 RL_SUB_REJECT RL_D_SESSION_LIMIT []
         else
           case rl_rebuild_loop stale s1 0 \<lparr>rb_nodes = sb_nodes s1,
               rb_ss = \<lparr>ss_base = sb_strb s1, ss_cap = RL_SUB_STRB, ss_used = 0\<rparr>,
               rb_args = sb_args s1, rb_cand = se_cand s1, rb_ncand = 0, rb_ridx = 0\<rparr> of (b, ok) \<Rightarrow>
           let s2 = s1\<lparr>sb_nodes := rb_nodes b, sb_strb := ss_base (rb_ss b), sb_args := rb_args b,
                        se_cand := rb_cand b\<rparr> in
           if \<not> ok \<or> rb_ridx b \<noteq> se_nsyms s1 then sub_fail s2 RL_SUB_INTERNAL RL_D_INTERNAL []
           else rl_candidate (stale (rb_ridx b)) part (rb_ncand b) ((rb_ss b)\<lparr>ss_used := 0\<rparr>) s2)"

section \<open>What persists\<close>

text \<open>
  \<open>kept s s'\<close>: the committed session is the same in both: source, rows, arena fill and
  the arena bytes below it. \<open>committed s s' row text\<close>: one row and its source text were
  added and everything committed before is unchanged.
\<close>

definition kept :: "rl_sess \<Rightarrow> rl_sess \<Rightarrow> bool" where
  "kept s s' \<longleftrightarrow> se_src s' = se_src s \<and> se_syms s' = se_syms s \<and> se_nsyms s' = se_nsyms s
    \<and> se_used s' = se_used s \<and> (\<forall>k < se_used s. se_arena s' k = se_arena s k)
    \<and> se_high s \<le> se_high s' \<and> se_emit s' = se_emit s"

definition committed :: "rl_sess \<Rightarrow> rl_sess \<Rightarrow> rl_sym \<Rightarrow> string \<Rightarrow> bool" where
  "committed s s' row text \<longleftrightarrow> se_src s' = se_src s @ text \<and> se_nsyms s' = se_nsyms s + 1
    \<and> se_syms s' = (se_syms s)(se_nsyms s := row)
    \<and> se_used s' = se_used s + (if sy_type row = RLV_STR then sy_str_len row else 0)
    \<and> (\<forall>k < se_used s. se_arena s' k = se_arena s k) \<and> se_high s \<le> se_high s' \<and> se_emit s' = se_emit s"

lemma kept_refl: "kept s s"
  by (simp add: kept_def)

lemma kept_trans: "kept s t \<Longrightarrow> kept t u \<Longrightarrow> kept s u"
  by (auto simp: kept_def)

lemma kept_scratch:
  "kept s (rl_sub_reset s)" "kept s (s\<lparr>sb_nodes := a\<rparr>)" "kept s (s\<lparr>sb_strb := b\<rparr>)"
  "kept s (s\<lparr>sb_args := c\<rparr>)" "kept s (s\<lparr>se_cand := d\<rparr>)" "kept s (s\<lparr>se_sub := e\<rparr>)"
  by (simp_all add: kept_def rl_sub_reset_def)

lemma reset_used [simp]: "ar_used (se_sub (rl_sub_reset s)) = 0"
  by (simp add: rl_sub_reset_def rl_arena_reset_def)

lemma promote_below: "k < dst \<Longrightarrow> promote strb sp dst n ar k = ar k"
  by (induction n) (auto simp: Let_def)

text \<open>A carve succeeds exactly on the empty arena, and then fills it.\<close>

lemma rl_carve_kept: "rl_carve s = (s', r) \<Longrightarrow> kept s s' \<and> se_cand s' = se_cand s \<and> se_arena s' = se_arena s"
  by (auto simp: rl_carve_def kept_def split: prod.splits)

section \<open>Rebuild\<close>

text \<open>A successful rebuild reproduces the committed table.\<close>

definition rebuilt :: "rl_sess \<Rightarrow> rl_rebuild \<Rightarrow> bool" where
  "rebuilt s b \<longleftrightarrow> rb_ncand b = rb_ridx b \<and> rb_ncand b \<le> RL_SYM_MAX \<and> rb_ncand b \<le> se_nsyms s
    \<and> (\<forall>k < rb_ncand b. rb_cand b k = se_syms s k)"

lemma rebuilt_item:
  assumes "rl_item stale s rpos item b = (b', True)" "rebuilt s b"
  shows "rebuilt s b'"
  using assms
  by (auto simp: rl_item_def rebuilt_def Let_def less_Suc_eq split: prod.splits if_splits sum.splits)

lemma rebuilt_loop:
  "rl_rebuild_loop stale s rpos b = (b', True) \<Longrightarrow> rebuilt s b \<Longrightarrow> rebuilt s b'"
proof (induction stale s rpos b rule: rl_rebuild_loop.induct)
  case (1 stale s rpos b)
  then show ?case
    by (subst (asm) (3) rl_rebuild_loop.simps)
      (auto simp: Let_def split: if_splits prod.splits dest: rebuilt_item)
qed

section \<open>Commit\<close>

lemma rl_commit_kind: "rl_commit canon trim n row sp s = (s', oc) \<Longrightarrow>
    oc_kind oc \<in> {RL_SUB_OK, RL_SUB_OWNFAIL} \<and> ar_used (se_sub s') = 0"
  by (auto simp: rl_commit_def Let_def rl_fail_def split: if_splits)

lemma rl_commit_refused:
  assumes "rl_commit canon trim n row sp s = (s', oc)" "oc_kind oc \<noteq> RL_SUB_OK"
  shows "kept s s'"
  using assms by (auto simp: rl_commit_def Let_def rl_fail_def kept_def rl_sub_reset_def promote_below split: if_splits)

definition commit_row :: "rl_sess \<Rightarrow> nat \<Rightarrow> rl_sym \<Rightarrow> rl_sym" where
  "commit_row s trim row = row\<lparr>sy_flags := 0,
     sy_pay := (if sy_type row = RLV_STR then of_nat (se_used s) else sy_pay row),
     sy_name_off := nat ((int (length (se_src s)) + (int (sy_name_off row) - int trim)) mod 65536)\<rparr>"

definition commit_arena :: "rl_sym \<Rightarrow> rl_ptr \<Rightarrow> rl_sess \<Rightarrow> rl_sess" where
  "commit_arena row sp s =
    (if sy_type row = RLV_STR then
       s\<lparr>se_arena := promote (sb_strb s) sp (se_used s) (sy_str_len row) (se_arena s),
         se_used := se_used s + sy_str_len row,
         se_high := (if se_high s < se_used s + sy_str_len row then se_used s + sy_str_len row else se_high s)\<rparr>
     else s)"

lemma commit_arena_fields [simp]:
  "se_src (commit_arena row sp s) = se_src s" "se_syms (commit_arena row sp s) = se_syms s"
  "se_cand (commit_arena row sp s) = se_cand s" "se_sub (commit_arena row sp s) = se_sub s"
  "se_emit (commit_arena row sp s) = se_emit s"
  "se_used (commit_arena row sp s) = se_used s + (if sy_type row = RLV_STR then sy_str_len row else 0)"
  "se_high (commit_arena row sp s) =
    (if sy_type row = RLV_STR then max (se_high s) (se_used s + sy_str_len row) else se_high s)"
  by (simp_all add: commit_arena_def max_def)

lemma rl_commit_eq:
  "rl_commit canon trim (n + 1) row sp s =
    (let s1 = commit_arena row sp s; cand = (se_cand s)(n := commit_row s trim row) in
     if \<not> rl_own_check_tab cand (n + 1) (se_used s1)
     then (rl_sub_reset (s1\<lparr>se_cand := cand, se_src := se_src s @ canon, se_src := se_src s, se_used := se_used s\<rparr>),
       rl_fail RL_SUB_OWNFAIL (Some RL_D_OWNFAIL))
     else (rl_sub_reset (s1\<lparr>se_cand := cand, se_src := se_src s @ canon,
         se_syms := (\<lambda>k. if k < n + 1 then cand k else se_syms s k), se_nsyms := n + 1\<rparr>),
       rl_fail RL_SUB_OK None))"
proof -
  have row: "commit_row s trim row = (if sy_type row = RLV_STR then row\<lparr>sy_pay := of_nat (se_used s)\<rparr> else row)
      \<lparr>sy_name_off := nat ((int (length (se_src s)) + (int (sy_name_off row) - int trim)) mod 65536),
        sy_flags := 0\<rparr>"
    by (simp add: commit_row_def)
  show ?thesis
    by (cases "sy_type row = RLV_STR")
      (simp_all add: rl_commit_def Let_def commit_arena_def row split del: if_split cong: if_cong)
qed

lemma rl_commit_done:
  assumes "rl_commit canon trim (n + 1) row sp s = (s', oc)" "oc_kind oc = RL_SUB_OK"
    and "n = se_nsyms s" "\<forall>k < n. se_cand s k = se_syms s k"
  shows "committed s s' (commit_row s trim row) canon"
    and "rl_own_check_tab (se_syms s') (n + 1) (se_used s')"
    and "sy_type row = RLV_STR \<Longrightarrow>
      se_arena s' = promote (sb_strb s) sp (se_used s) (sy_str_len row) (se_arena s)"
    and "se_high s' = (if sy_type row = RLV_STR then max (se_high s) (se_used s') else se_high s)"
    and "se_sub s' = rl_arena_reset (se_sub s)"
proof -
  define cand where "cand = (se_cand s)(n := commit_row s trim row)"
  define s1 where "s1 = commit_arena row sp s"
  have own: "rl_own_check_tab cand (n + 1) (se_used s1)"
    and s': "s' = rl_sub_reset (s1\<lparr>se_cand := cand, se_src := se_src s @ canon,
      se_syms := (\<lambda>k. if k < n + 1 then cand k else se_syms s k), se_nsyms := n + 1\<rparr>)"
    using assms(1,2) unfolding rl_commit_eq Let_def cand_def [symmetric] s1_def [symmetric]
    by (auto simp: rl_fail_def split: if_splits)
  have syms: "(\<lambda>k. if k < n + 1 then cand k else se_syms s k) = (se_syms s)(n := commit_row s trim row)"
    using assms(4) by (auto simp: cand_def fun_eq_iff)
  have type: "sy_type (commit_row s trim row) = sy_type row" "sy_str_len (commit_row s trim row) = sy_str_len row"
    by (simp_all add: commit_row_def)
  have arena: "se_arena s1 k = se_arena s k" if "k < se_used s" for k
    using that by (simp add: s1_def commit_arena_def promote_below)
  show "committed s s' (commit_row s trim row) canon"
    unfolding committed_def s' syms using arena assms(3) by (auto simp: rl_sub_reset_def s1_def type)
  have cong: "rl_own_check_tab t m u = rl_own_check_tab t' m u" if "\<forall>k < m. t k = t' k" for t t' m u
    using that by (induction m) auto
  show "rl_own_check_tab (se_syms s') (n + 1) (se_used s')"
    using own cong [of "n + 1" "se_syms s'" cand "se_used s1"] by (simp add: s' rl_sub_reset_def)
  show "se_arena s' = promote (sb_strb s) sp (se_used s) (sy_str_len row) (se_arena s)" if "sy_type row = RLV_STR"
    using that by (simp add: s' s1_def commit_arena_def rl_sub_reset_def)
  show "se_high s' = (if sy_type row = RLV_STR then max (se_high s) (se_used s') else se_high s)"
    by (simp add: s' s1_def rl_sub_reset_def)
  show "se_sub s' = rl_arena_reset (se_sub s)"
    by (simp add: s' s1_def rl_sub_reset_def)
qed

section \<open>Lets, bare parts, submissions\<close>

lemma fail_kind [simp]: "oc_kind (rl_fail k d) = k"
  by (simp add: rl_fail_def)

lemma an_refused_kind [simp]: "an_refused d \<noteq> RL_SUB_OK"
  by (simp add: an_refused_def Let_def)

lemma rl_stage_kind: "rl_stage s nd dt ev = (row, Inl (k, d)) \<Longrightarrow> k \<noteq> RL_SUB_OK"
  by (auto simp: rl_stage_def Let_def split: if_splits rl_val.splits)

lemma rl_stage_row:
  assumes "rl_stage s nd dt ev = (row, Inr sp)"
  shows "sy_type row = v_type ev" "sy_type row \<in> {RLV_INT, RLV_BOOL, RLV_STR}"
    and "sy_type row = RLV_STR \<Longrightarrow> ev = VStr sp (sy_str_len row) \<and> se_used s + sy_str_len row \<le> RL_SESS_ARENA"
    and "sy_type row = RLV_INT \<Longrightarrow> ev = VInt (sy_pay row)" "sy_type row = RLV_BOOL \<Longrightarrow> ev = VBool (sy_pay row)"
    and "sy_name_off row = n_e1 nd mod 65536" "sy_name_len row = n_e2 nd mod 65536"
  using assms
  by (auto simp: rl_stage_def Let_def rlv_of_code.simps split: if_splits rl_val.splits)

definition let_run :: "rl_types \<Rightarrow> string \<Rightarrow> nat \<Rightarrow> string \<Rightarrow> nat \<Rightarrow> nat \<Rightarrow> rl_sess \<Rightarrow> rl_pool \<Rightarrow> rl_val
    \<Rightarrow> rl_sym \<Rightarrow> rl_ptr \<Rightarrow> rl_submitted \<Rightarrow> bool" where
  "let_run types part root canon trim ncand s pool ev row sp r \<longleftrightarrow>
    (\<exists>itype. rl_an_sub (sub_an_ctx s part ncand (sb_args s) (se_cand s)) (sb_nodes s) types (n_k1 (sb_nodes s root))
        = (pool, Inr itype) \<and> rlv_code itype = n_aux (sb_nodes s root))
    \<and> \<not> rl_reserved (drop (n_e1 (pool root)) part) (n_e2 (pool root))
    \<and> rl_lookup (se_cand s) ncand (se_src s) (drop (n_e1 (pool root)) part) (n_e2 (pool root)) = None
    \<and> se_nsyms s < RL_SYM_MAX \<and> ncand < RL_SYM_MAX
    \<and> rl_eval (sub_ev_ctx (s\<lparr>sb_nodes := pool\<rparr>) ncand) (n_k1 (sb_nodes s root)) = (EvOk ev, snd (snd r))
    \<and> rl_stage (s\<lparr>sb_nodes := pool\<rparr>) (pool root) (n_aux (sb_nodes s root)) ev = (row, Inr sp)
    \<and> rl_commit canon trim (ncand + 1) row sp (s\<lparr>sb_nodes := pool\<rparr>) = (fst r, fst (snd r))"

definition dropped :: "rl_sess \<Rightarrow> rl_sess \<Rightarrow> bool" where
  "dropped s s' \<longleftrightarrow> kept s s' \<and> se_sub s' = rl_arena_reset (se_sub s)"

lemma dropped_scratch [simp]:
  "dropped s (rl_sub_reset s)" "dropped s (rl_sub_reset (s\<lparr>sb_nodes := a\<rparr>))"
  "dropped s (rl_sub_reset (s\<lparr>sb_nodes := a, se_cand := d\<rparr>))"
  by (simp_all add: dropped_def kept_def rl_sub_reset_def)

lemma dropped_kept: "dropped s s' \<Longrightarrow> kept t s \<Longrightarrow> se_sub s = se_sub t \<Longrightarrow> dropped t s'"
  by (auto simp: dropped_def intro: kept_trans)

lemma rl_commit_dropped:
  assumes "rl_commit canon trim n row sp s = (s', oc)" "oc_kind oc \<noteq> RL_SUB_OK"
  shows "dropped s s'"
  using rl_commit_refused [OF assms] assms
  by (auto simp: dropped_def rl_commit_def Let_def rl_sub_reset_def split: if_splits)

lemma rl_let_cases:
  assumes "rl_let types part root canon trim ncand s = r"
  shows "(oc_kind (fst (snd r)) \<noteq> RL_SUB_OK \<and> dropped s (fst r))
    \<or> (\<exists>pool ev row sp. let_run types part root canon trim ncand s pool ev row sp r)"
proof -
  obtain pool res where an: "rl_an_sub (sub_an_ctx s part ncand (sb_args s) (se_cand s)) (sb_nodes s) types
      (n_k1 (sb_nodes s root)) = (pool, res)" by fastforce
  obtain er out where er: "rl_eval (sub_ev_ctx (s\<lparr>sb_nodes := pool\<rparr>) ncand) (n_k1 (sb_nodes s root)) = (er, out)"
    by fastforce
  show ?thesis
  proof (cases res)
    case (Inl d)
    then show ?thesis using assms by (auto simp: rl_let_def an Let_def split: if_splits)
  next
    case (Inr itype)
    show ?thesis
    proof (cases er)
      case (EvOk ev)
      obtain row st where st: "rl_stage (s\<lparr>sb_nodes := pool\<rparr>) (pool root) (n_aux (sb_nodes s root)) ev = (row, st)"
        by fastforce
      show ?thesis
        using assms Inr EvOk st
        by (auto simp: rl_let_def let_run_def an er Let_def dest: rl_stage_kind
            split: if_splits sum.splits prod.splits)
    qed (use assms Inr in \<open>auto simp: rl_let_def an er Let_def split: if_splits\<close>)
  qed
qed

lemma rl_bare_dropped: "dropped s (fst (rl_bare types part root ncand s))"
  by (auto simp: rl_bare_def Let_def split: prod.splits sum.splits rl_evres.splits rl_val.splits)

text \<open>
  Every submission either leaves the committed session alone, or it is a successful \<^verbatim>\<open>let\<close>:
  the part parses to a \<^verbatim>\<open>let\<close> node, its canonical text fits, and the staged row is committed
  on top of the committed table.
\<close>

definition sub_idle :: "rl_sess \<Rightarrow> rl_sess \<Rightarrow> bool" where
  "sub_idle s s' \<longleftrightarrow> ar_base (se_sub s') = ar_base (se_sub s) \<and> ar_cap (se_sub s') = ar_cap (se_sub s)
    \<and> ar_used (se_sub s') = 0"

text \<open>
  The state the rebuild of a submission leaves its scratch memory in, and the parse of the
  part over that scratch: both depend only on the session before the submission.
\<close>

definition sub_rebuild :: "(nat \<Rightarrow> rl_types) \<Rightarrow> rl_sess \<Rightarrow> rl_rebuild \<times> bool" where
  "sub_rebuild stale s =
    (let s1 = fst (rl_carve s) in
     rl_rebuild_loop stale s1 0 \<lparr>rb_nodes = sb_nodes s1,
       rb_ss = \<lparr>ss_base = sb_strb s1, ss_cap = RL_SUB_STRB, ss_used = 0\<rparr>,
       rb_args = sb_args s1, rb_cand = se_cand s1, rb_ncand = 0, rb_ridx = 0\<rparr>)"

type_synonym rl_parsed = "rlp \<times> rl_strscratch \<times> rlp_rc \<times> nat"

definition sub_parse :: "(nat \<Rightarrow> rl_types) \<Rightarrow> string \<Rightarrow> rl_sess \<Rightarrow> rl_parsed" where
  "sub_parse stale part s =
    (let b = fst (sub_rebuild stale s) in
     rl_parse_part part (rb_nodes b) RL_SUB_POOL_NODES ((rb_ss b)\<lparr>ss_used := 0\<rparr>) (rb_args b) RL_SUB_ARGS
       RL_SUB_OPS RL_SUB_PVALS)"

text \<open>The session holds the tree and the decoded bytes of a parse whose root is a \<^verbatim>\<open>let\<close>.\<close>

definition let_parsed :: "rl_parsed \<Rightarrow> nat \<Rightarrow> rl_sess \<Rightarrow> bool" where
  "let_parsed parse root s \<longleftrightarrow>
    (\<exists>p ss'. parse = (p, ss', RLP_OK, root)
      \<and> sb_nodes s = r_nodes p \<and> sb_strb s = ss_base ss' \<and> sb_args s = r_args p
      \<and> n_kind (r_nodes p root) = RLN_LET)"

definition let_committed :: "rl_types \<Rightarrow> rl_parsed \<Rightarrow> string \<Rightarrow> rl_sess \<Rightarrow> rl_submitted \<Rightarrow> rl_sess \<Rightarrow> nat \<Rightarrow> rl_pool
    \<Rightarrow> rl_val \<Rightarrow> rl_sym \<Rightarrow> rl_ptr \<Rightarrow> string \<Rightarrow> nat \<Rightarrow> bool" where
  "let_committed types parse part s r s2 root pool ev row sp canon trim \<longleftrightarrow>
    rl_canon part 514 = Some (canon, trim) \<and> session_room s (Some (canon, trim)) \<and> kept s s2
    \<and> sub_idle s (rl_sub_reset s2) \<and> se_arena s2 = se_arena s
    \<and> (\<forall>k < se_nsyms s. se_cand s2 k = se_syms s k) \<and> let_parsed parse root s2
    \<and> let_run types part root canon trim (se_nsyms s) s2 pool ev row sp r
    \<and> oc_kind (fst (snd r)) = RL_SUB_OK"

lemma rl_arena_bump_shape: "rl_arena_bump a n = (b, r) \<Longrightarrow> ar_base b = ar_base a \<and> ar_cap b = ar_cap a"
  by (auto simp: rl_arena_bump_def Let_def split: if_splits)

lemma rl_carve_idle: "rl_carve s = (s', r) \<Longrightarrow> sub_idle s (rl_sub_reset s')"
  by (auto simp: rl_carve_def sub_idle_def rl_sub_reset_def rl_arena_reset_def
      split: prod.splits dest!: rl_arena_bump_shape)

lemma kept_idle_dropped: "dropped s2 s' \<Longrightarrow> kept s s2 \<Longrightarrow> sub_idle s (rl_sub_reset s2) \<Longrightarrow> kept s s' \<and> sub_idle s s'"
  by (auto simp: dropped_def sub_idle_def rl_sub_reset_def intro: kept_trans)

lemma rl_candidate_cases:
  assumes "rl_candidate types part (se_nsyms s) ss s2 = r" "kept s s2" "sub_idle s (rl_sub_reset s2)"
    and "\<forall>k < se_nsyms s. se_cand s2 k = se_syms s k" "se_arena s2 = se_arena s"
    and "parse = rl_parse_part part (sb_nodes s2) RL_SUB_POOL_NODES ss (sb_args s2) RL_SUB_ARGS RL_SUB_OPS RL_SUB_PVALS"
  shows "(kept s (fst r) \<and> sub_idle s (fst r))
    \<or> (\<exists>s3 root pool ev row sp canon trim. let_committed types parse part s r s3 root pool ev row sp canon trim)"
proof -
  obtain p ss' rc root where p: "rl_parse_part part (sb_nodes s2) RL_SUB_POOL_NODES ss (sb_args s2) RL_SUB_ARGS
      RL_SUB_OPS RL_SUB_PVALS = (p, ss', rc, root)" by (metis prod_cases4)
  define s1 where "s1 = s2\<lparr>sb_nodes := r_nodes p, sb_strb := ss_base ss', sb_args := r_args p\<rparr>"
  have fields: "se_src s1 = se_src s2" "se_sub s1 = se_sub s2" "se_cand s1 = se_cand s2" by (simp_all add: s1_def)
  have k1: "kept s s1" using assms(2) by (simp add: kept_def s1_def)
  have i1: "sub_idle s (rl_sub_reset s1)" using assms(3) by (simp add: sub_idle_def rl_sub_reset_def fields)
  have drop1: "kept s s' \<and> sub_idle s s'" if "dropped s1 s'" for s' using kept_idle_dropped [OF that k1 i1] .
  note eq = assms(1) [unfolded rl_candidate_def p prod.case Let_def, folded s1_def]
  show ?thesis
  proof (cases "rc = RLP_OK \<and> root < RL_POOL_MAX \<and> n_kind (r_nodes p root) = RLN_LET")
    case False
    then have "dropped s1 (fst r)"
      using eq rl_bare_dropped [of s1 types part root "se_nsyms s"] by (auto split: if_splits)
    then show ?thesis using drop1 by blast
  next
    case True
    show ?thesis
    proof (cases "rl_canon part 514")
      case None
      then have "dropped s1 (fst r)" using eq True by auto
      then show ?thesis using drop1 by blast
    next
      case (Some ct)
      obtain canon trim where ct: "ct = (canon, trim)" by fastforce
      show ?thesis
      proof (cases "session_room s2 (Some (canon, trim))")
        case False
        then have "dropped s1 (fst r)" using eq True Some ct by auto
        then show ?thesis using drop1 by blast
      next
        case room: True
        have "rl_let types part root canon trim (se_nsyms s) s1 = r" using eq True Some ct room by simp
        from rl_let_cases [OF this] consider "dropped s1 (fst r)"
          | pool ev row sp where "let_run types part root canon trim (se_nsyms s) s1 pool ev row sp r" by blast
        then show ?thesis
        proof cases
          case 1
          then show ?thesis using drop1 by blast
        next
          case 2
          show ?thesis
          proof (cases "oc_kind (fst (snd r)) = RL_SUB_OK")
            case True
            have "let_parsed parse root s1"
              unfolding let_parsed_def s1_def assms(6) using p \<open>rc = RLP_OK \<and> _\<close>
              by (intro exI [of _ p] exI [of _ ss']) simp
            moreover have "session_room s (Some (canon, trim))"
              using room assms(2) by (simp add: session_room_def kept_def)
            moreover have "se_arena s1 = se_arena s" using assms(5) by (simp add: s1_def)
            ultimately have "let_committed types parse part s r s1 root pool ev row sp canon trim"
              unfolding let_committed_def using 2 True Some ct k1 i1 assms(4) fields by simp
            then show ?thesis by blast
          next
            case False
            have "rl_commit canon trim (se_nsyms s + 1) row sp (s1\<lparr>sb_nodes := pool\<rparr>) = (fst r, fst (snd r))"
              using 2 by (simp add: let_run_def)
            from rl_commit_dropped [OF this False] have "dropped (s1\<lparr>sb_nodes := pool\<rparr>) (fst r)" .
            then have "dropped s1 (fst r)" by (rule dropped_kept) (simp_all add: kept_def)
            then show ?thesis using drop1 by blast
          qed
        qed
      qed
    qed
  qed
qed

lemma rl_submit_cases:
  assumes "rl_submit stale part s = r"
  shows "(kept s (fst r) \<and> sub_idle s (fst r))
    \<or> (\<exists>s3 root pool ev row sp canon trim.
        let_committed (stale (se_nsyms s)) (sub_parse stale part s) part s r s3 root pool ev row sp canon trim)"
proof -
  obtain s1 offs where c: "rl_carve s = (s1, offs)" by fastforce
  have k1: "kept s s1" "se_cand s1 = se_cand s" "se_arena s1 = se_arena s" using rl_carve_kept [OF c] by auto
  have i1: "sub_idle s (rl_sub_reset s1)" by (rule rl_carve_idle [OF c])
  define b0 where "b0 = \<lparr>rb_nodes = sb_nodes s1,
      rb_ss = \<lparr>ss_base = sb_strb s1, ss_cap = RL_SUB_STRB, ss_used = 0\<rparr>,
      rb_args = sb_args s1, rb_cand = se_cand s1, rb_ncand = 0, rb_ridx = 0\<rparr>"
  obtain b ok where b: "rl_rebuild_loop stale s1 0 b0 = (b, ok)" by fastforce
  define s2 where "s2 = s1\<lparr>sb_nodes := rb_nodes b, sb_strb := ss_base (rb_ss b), sb_args := rb_args b,
      se_cand := rb_cand b\<rparr>"
  have k2: "kept s s2" "se_sub s2 = se_sub s1" "se_arena s2 = se_arena s" using k1 by (simp_all add: kept_def s2_def)
  have parse: "sub_parse stale part s = rl_parse_part part (sb_nodes s2) RL_SUB_POOL_NODES ((rb_ss b)\<lparr>ss_used := 0\<rparr>)
      (sb_args s2) RL_SUB_ARGS RL_SUB_OPS RL_SUB_PVALS"
    using b by (simp add: sub_parse_def sub_rebuild_def c b0_def s2_def)
  have i0: "sub_idle s (rl_sub_reset s)" by (simp add: sub_idle_def rl_sub_reset_def rl_arena_reset_def)
  have i2: "sub_idle s (rl_sub_reset s2)" using i1 k2(2) by (simp add: sub_idle_def rl_sub_reset_def)
  note eq = assms [unfolded rl_submit_def c prod.case Let_def, folded b0_def, unfolded b prod.case, folded s2_def]
  show ?thesis
  proof (cases "part \<noteq> [] \<and> length part \<le> 512 \<and> offs \<noteq> None
      \<and> \<not> (let_shaped part \<and> \<not> session_room s1 (rl_canon part 514)) \<and> ok \<and> rb_ridx b = se_nsyms s1")
    case True
    then have cand: "rl_candidate (stale (rb_ridx b)) part (rb_ncand b) ((rb_ss b)\<lparr>ss_used := 0\<rparr>) s2 = r"
      using eq by auto
    have "rebuilt s1 b0" by (simp add: rebuilt_def b0_def)
    then have "rebuilt s1 b" using rebuilt_loop b True by auto
    then have n: "rb_ncand b = se_nsyms s" and tab: "\<forall>k < se_nsyms s. se_cand s2 k = se_syms s k"
      using True k1 by (auto simp: rebuilt_def s2_def kept_def)
    have "rb_ridx b = se_nsyms s" using True k1 by (simp add: kept_def)
    with rl_candidate_cases [OF cand [unfolded n] k2(1) i2 tab k2(3) parse] show ?thesis by simp
  next
    case False
    let ?bad = "part = [] \<or> 512 < length part"
    let ?limit = "let_shaped part \<and> \<not> session_room s1 (rl_canon part 514)"
    let ?wedged = "\<not> ok \<or> rb_ridx b \<noteq> se_nsyms s1"
    from False have "?bad \<or> offs = None \<or> ?limit \<or> ?wedged" by (simp only: not_less [symmetric]) blast
    moreover have "fst r = rl_sub_reset s" if ?bad
      using eq [symmetric] that by (simp only: simp_thms if_True fst_conv)
    moreover have "fst r = rl_sub_reset s1" if "\<not> ?bad" "offs = None"
      using eq [symmetric] that by (simp only: simp_thms if_False option.case fst_conv)
    moreover have "fst r = rl_sub_reset s1" if "\<not> ?bad" "offs = Some x" ?limit for x
      using eq [symmetric] that by (simp only: simp_thms if_False if_True option.case fst_conv)
    moreover have "fst r = rl_sub_reset s2" if "\<not> ?bad" "offs = Some x" "\<not> ?limit" ?wedged for x
      using eq [symmetric] that by (simp only: simp_thms if_False if_True option.case fst_conv)
    ultimately have "fst r = rl_sub_reset s \<or> fst r = rl_sub_reset s1 \<or> fst r = rl_sub_reset s2"
      by (cases offs) blast+
    moreover have "kept s (rl_sub_reset s)" by (rule kept_scratch)
    moreover have "kept s (rl_sub_reset s1)" by (rule kept_trans [OF k1(1) kept_scratch(1)])
    moreover have "kept s (rl_sub_reset s2)" by (rule kept_trans [OF k2(1) kept_scratch(1)])
    ultimately have "kept s (fst r) \<and> sub_idle s (fst r)" using i0 i1 i2 by (elim disjE) simp_all
    then show ?thesis ..
  qed
qed

end
