(* ===== verification/Rl_Name.thy ===== *)
theory Rl_Name
  imports Rl_Session
begin

text \<open>
  What a committed \<^verbatim>\<open>let\<close> is made of: its canonical text, the name it declares, and the
  evaluation of its initializer. The analyzer and the evaluator read only the live rows of
  the table, so running them on the candidate table is running them on the committed one;
  the name of a \<^verbatim>\<open>let\<close> is an identifier token of the part, so it lies inside the text that
  trimming keeps.
\<close>

section \<open>Canonical text\<close>

definition part_text :: "string \<Rightarrow> string" where
  "part_text part = rev (dropWhile rl_is_ws (rev (dropWhile rl_is_ws part))) @ [NL]"

lemma rl_canon_text:
  assumes "rl_canon part cap = Some (canon, trim)"
  shows "canon = part_text part" "trim = length (takeWhile rl_is_ws part)"
  using assms by (auto simp: rl_canon_def part_text_def Let_def dropWhile_eq_drop split: if_splits)

lemma part_split:
  obtains pre body post where "part = pre @ body @ post" "part_text part = body @ [NL]"
    "length pre = length (takeWhile rl_is_ws part)" "list_all rl_is_ws pre" "list_all rl_is_ws post"
proof -
  let ?ys = "dropWhile rl_is_ws part"
  let ?post = "rev (takeWhile rl_is_ws (rev ?ys))"
  have "rev (takeWhile rl_is_ws (rev ?ys) @ dropWhile rl_is_ws (rev ?ys)) = ?ys" by (simp only: takeWhile_dropWhile_id) simp
  then have ys: "?ys = rev (dropWhile rl_is_ws (rev ?ys)) @ ?post" by (simp only: rev_append)
  have "part = takeWhile rl_is_ws part @ ?ys" by simp
  also note ys
  finally have "part = takeWhile rl_is_ws part @ rev (dropWhile rl_is_ws (rev ?ys)) @ ?post" .
  moreover have "list_all rl_is_ws (takeWhile rl_is_ws part)" "list_all rl_is_ws ?post"
    by (auto simp: list_all_iff dest: set_takeWhileD)
  moreover have "part_text part = rev (dropWhile rl_is_ws (rev ?ys)) @ [NL]" by (simp add: part_text_def)
  ultimately show thesis using that by blast
qed

text \<open>A range of the part without white space is kept by the trim.\<close>

lemma part_text_range:
  assumes "0 < n" "off + n \<le> length part" "\<And>k. off \<le> k \<Longrightarrow> k < off + n \<Longrightarrow> \<not> rl_is_ws (part ! k)"
  shows "length (takeWhile rl_is_ws part) \<le> off"
    and "take n (drop (off - length (takeWhile rl_is_ws part)) (part_text part)) = take n (drop off part)"
proof -
  obtain pre body post where p: "part = pre @ body @ post" "part_text part = body @ [NL]"
    "length pre = length (takeWhile rl_is_ws part)" "list_all rl_is_ws pre" "list_all rl_is_ws post"
    by (rule part_split)
  have a: "length pre \<le> off"
  proof (rule ccontr)
    assume "\<not> length pre \<le> off"
    then have "rl_is_ws (part ! off)" using p(1,4) by (simp add: nth_append list_all_length)
    with assms(3) [of off] assms(1) show False by simp
  qed
  have b: "off + n \<le> length pre + length body"
  proof (rule ccontr)
    let ?k = "off + n - 1"
    assume *: "\<not> off + n \<le> length pre + length body"
    then have k: "\<not> ?k < length pre" "\<not> ?k - length pre < length body" "?k - length pre - length body < length post"
      using a assms(1,2) p(1) by auto
    then have "rl_is_ws (part ! ?k)" using p(1,5) by (simp add: nth_append list_all_length)
    with assms(3) [of ?k] assms(1) show False by simp
  qed
  show "length (takeWhile rl_is_ws part) \<le> off" using a p(3) by simp
  have "take n (drop (off - length pre) (body @ xs)) = take n (drop (off - length pre) body)" for xs
    using a b by simp
  moreover have "drop off part = drop (off - length pre) (body @ post)" using a p(1) by simp
  ultimately show "take n (drop (off - length (takeWhile rl_is_ws part)) (part_text part)) = take n (drop off part)"
    unfolding p(2) p(3) [symmetric] by metis
qed

section \<open>The declared name\<close>

lemma alnum_not_ws: "rl_is_alnum c \<Longrightarrow> \<not> rl_is_ws c"
  by (auto simp: rl_is_alnum_def rl_is_alpha_def rl_is_digit_def rl_is_ws_def)

lemma rl_op_not_ident: "rl_op_at s p = Some (k, n) \<Longrightarrow> k \<noteq> RLT_IDENT"
  by (auto simp: rl_op_at_def rl_op1_def rl_op2_def split: option.splits if_splits)

lemma ident_token:
  assumes "rl_lex_next lx ss = (lx', ss', t, rc)" "t_kind t = RLT_IDENT" "length (lx_src lx) < 65536"
  shows "0 < t_len t \<and> t_off t + t_len t \<le> length (lx_src lx)
    \<and> (\<forall>k. t_off t \<le> k \<and> k < t_off t + t_len t \<longrightarrow> rl_is_alnum (lx_src lx ! k))"
proof (cases "rl_skip (lx_src lx) (lx_pos lx)")
  case (SkipTok p)
  let ?s = "lx_src lx" and ?q = "scan_while rl_is_alnum (lx_src lx) (p + 1)"
  have p: "p < length ?s" using rl_skip_tok [OF SkipTok] by simp
  have q: "p + 1 \<le> ?q" "?q \<le> length ?s" using scan_while_mono scan_while_le [of "p + 1" ?s] p by auto
  have al: "rl_is_alpha (?s ! p)" and t: "t_off t = p mod 65536" "t_len t = (?q - p) mod 65536"
    using assms(1,2) SkipTok rl_op_not_ident
    by (auto simp: rl_lex_next_def rl_token_at_def Let_def rl_emit_def split: if_splits rl_strres.splits option.splits)
  have "p < 65536" "?q - p < 65536" using p q assms(3) by auto
  then have t': "t_off t = p" "t_len t = ?q - p" using t by simp_all
  have "rl_is_alnum (?s ! k)" if "p \<le> k" "k < ?q" for k
    using al that scan_while_all [of "p + 1" k rl_is_alnum ?s] by (cases "k = p") (auto simp: rl_is_alnum_def)
  then show ?thesis using q unfolding t' by auto
qed (use assms in \<open>auto simp: rl_lex_next_def rl_emit_def\<close>)

lemma r_src_at: "p_at p k = (q, b) \<Longrightarrow> r_src q = r_src p"
  by (auto simp: p_at_def p_cur_def split: if_splits prod.splits dest: rl_lex_next_src)

lemma nodes_at: "p_at p k = (q, b) \<Longrightarrow> r_nodes q = r_nodes p"
  by (auto simp: p_at_def p_cur_def split: if_splits prod.splits)

lemma p_let_name:
  assumes "p_let p = (q, i)" "r_err q = RLP_OK"
  shows "\<exists>lx ss lx' ss' t rc. rl_lex_next lx ss = (lx', ss', t, rc) \<and> lx_src lx = r_src p \<and> t_kind t = RLT_IDENT
    \<and> n_e1 (r_nodes q i) = t_off t \<and> n_e2 (r_nodes q i) = t_len t"
proof -
  obtain p1 b1 where p1: "p_at (p_next p) RLT_IDENT = (p1, b1)" by fastforce
  obtain p2 b2 where p2: "p_at (p_next p1) RLT_COLON = (p2, b2)" by fastforce
  obtain p4 b4 where p4: "p_at (p_next (p_cur (p_next p2))) RLT_EQUAL = (p4, b4)" by fastforce
  obtain p5 init where p5: "p_pipeline (p_next p4) = (p5, init)" by fastforce
  obtain p6 k where p6: "p_mknode p5 RLN_LET = (p6, k)" by fastforce
  have ident: b1 and node: "n_e1 (r_nodes q i) = t_off (r_cur p1)" "n_e2 (r_nodes q i) = t_len (r_cur p1)"
    using assms unfolding p_let_def Let_def p1 p2 p4 p5 p6 prod.case
    by (auto simp: p_fail_def p_set_def split: if_splits option.splits)
  obtain lx ss t rc where l: "rl_lex_next (r_lx p) (r_ss p) = (lx, ss, t, rc)" by (metis prod_cases4)
  have "t_kind t = RLT_IDENT" "r_cur p1 = t"
    using p1 ident l by (auto simp: p_at_def p_cur_def p_next_def split: if_splits)
  then show ?thesis using l node by blast
qed

lemma let_name_inside:
  assumes "rl_parse_part part nodes cap ss args acap ocap vcap = (p, ss', RLP_OK, root)" "n_kind (r_nodes p root) = RLN_LET"
    and "cap \<le> RL_POOL_MAX" "length part < 65536"
  shows "0 < n_e2 (r_nodes p root)" "n_e1 (r_nodes p root) + n_e2 (r_nodes p root) \<le> length part"
    and "\<And>k. n_e1 (r_nodes p root) \<le> k \<Longrightarrow> k < n_e1 (r_nodes p root) + n_e2 (r_nodes p root) \<Longrightarrow> \<not> rl_is_ws (part ! k)"
proof -
  let ?p0 = "p_init part nodes cap ss args acap ocap vcap"
  obtain p1 islet where p1: "p_at ?p0 RLT_LET = (p1, islet)" by fastforce
  obtain p2 r where p2: "(if islet then p_let p1 else p_pipeline p1) = (p2, r)" by fastforce
  obtain p3 eof where p3: "p_at p2 RLT_EOF = (p3, eof)" by fastforce
  have q: "p = p3" "root = r" "r_err p2 = RLP_OK"
    using assms(1) p1 p2 p3 by (auto simp: rl_parse_part_def p_part_def Let_def split: if_splits prod.splits)
  have nodes: "r_nodes p = r_nodes p2" using nodes_at [OF p3] q(1) by simp
  have src: "r_src p1 = part" using r_src_at [OF p1] by (simp add: p_init_def rl_lex_init_def)
  have "pool_ok ?p0" using assms(3) by (simp add: pool_ok_def p_init_def)
  then have ok: "pool_ok p1" using same_pool_grows same_pool_at [OF p1] pool_ok_grows by blast
  have islet
  proof (rule ccontr)
    assume "\<not> islet"
    then have "pipe_root (r_nodes p2) r" using p_pipeline_parsed [OF ok] p2 q(3) by (simp add: parsed_def)
    then show False using assms(2) nodes q(2)
      by (auto simp: pipe_root_def stage_root_def exp_at.simps [of _ r] Let_def leaf_kinds_def split: if_splits)
  qed
  then have "p_let p1 = (p2, r)" using p2 by simp
  from p_let_name [OF this q(3)] obtain lx s1 lx' s2 t rc where t: "rl_lex_next lx s1 = (lx', s2, t, rc)"
    "lx_src lx = part" "t_kind t = RLT_IDENT" "n_e1 (r_nodes p root) = t_off t" "n_e2 (r_nodes p root) = t_len t"
    using src nodes q(2) by auto
  note id = ident_token [OF t(1,3), unfolded t(2), OF assms(4)]
  show "0 < n_e2 (r_nodes p root)" "n_e1 (r_nodes p root) + n_e2 (r_nodes p root) \<le> length part"
    using id by (simp_all add: t)
  show "\<not> rl_is_ws (part ! k)" if "n_e1 (r_nodes p root) \<le> k" "k < n_e1 (r_nodes p root) + n_e2 (r_nodes p root)" for k
    using id that alnum_not_ws by (simp add: t)
qed

section \<open>Only the live rows matter\<close>

lemma lookup_from_cong:
  "(\<And>k. i \<le> k \<Longrightarrow> k < i + n \<Longrightarrow> tab' k = tab k) \<Longrightarrow> lookup_from i n tab' sess nm l = lookup_from i n tab sess nm l"
  by (induction i n tab sess nm l rule: lookup_from.induct) auto

definition live_rows :: "rl_an_ctx \<Rightarrow> (nat \<Rightarrow> rl_sym) \<Rightarrow> bool" where
  "live_rows x tab \<longleftrightarrow> (\<forall>k < an_ntab x. tab k = an_tab x k)"

lemma an_name_live: "live_rows x tab \<Longrightarrow> an_name (x\<lparr>an_tab := tab\<rparr>) off len = an_name x off len"
  using lookup_from_cong [of 0 "an_ntab x" tab "an_tab x"]
  by (simp add: an_name_def rl_lookup_def live_rows_def)

lemma an_cmdargs_live: "an_cmdargs (x\<lparr>an_tab := tab\<rparr>) pool j n = an_cmdargs x pool j n"
  by (induction x pool j n rule: an_cmdargs.induct) (auto simp: Let_def)

lemma an_turn_live:
  assumes "live_rows x tab"
  shows "an_turn (x\<lparr>an_tab := tab\<rparr>) e w pool types = an_turn x e w pool types"
proof -
  have row: "tab f = an_tab x f" if "an_name x off len = Some f" for off len f
    using an_name_bound [OF that] assms by (simp add: live_rows_def)
  have "an_enter (x\<lparr>an_tab := tab\<rparr>) i w pool types = an_enter x i w pool types" for i
    unfolding an_enter_def Let_def
    by (cases "n_kind (pool i)")
      (auto simp: an_name_live [OF assms] an_cmdargs_live an_call_enter_def row split: option.splits)
  moreover have "an_leave (x\<lparr>an_tab := tab\<rparr>) i w pool types = an_leave x i w pool types" for i
  proof -
    have "ty_call (x\<lparr>an_tab := tab\<rparr>) pool nd types = ty_call x pool nd types" for nd by (simp add: ty_call_def Let_def)
    then show ?thesis by (simp only: an_leave_def Let_def)
  qed
  ultimately show ?thesis by (simp add: an_turn_def Let_def)
qed

lemma an_loop_live:
  "live_rows x tab \<Longrightarrow> an_loop (x\<lparr>an_tab := tab\<rparr>) root w pool types = an_loop x root w pool types"
proof (induction x root w pool types rule: an_loop.induct)
  case (2 x root e w pool types)
  then show ?case by (simp add: an_loop.simps(2) an_turn_live split: rl_anturn.split)
qed simp

lemma rl_an_sub_live:
  "live_rows x tab \<Longrightarrow> rl_an_sub (x\<lparr>an_tab := tab\<rparr>) pool types root = rl_an_sub x pool types root"
  by (simp add: rl_an_sub_def an_loop_live)

lemma an_turn_names:
  "an_turn x e w pool types = AnGo w' pool' types' \<Longrightarrow> n_e1 (pool' i) = n_e1 (pool i) \<and> n_e2 (pool' i) = n_e2 (pool i)"
  unfolding an_turn_def an_leave_def an_enter_def Let_def an_call_enter_def
  by (cases "n_kind (pool (e mod VISITED))") (auto split: if_splits option.splits sum.splits)

lemma an_loop_names:
  "an_loop x root w pool types = (pool', r) \<Longrightarrow> n_e1 (pool' i) = n_e1 (pool i) \<and> n_e2 (pool' i) = n_e2 (pool i)"
proof (induction x root w pool types rule: an_loop.induct)
  case (2 x root e w pool types)
  then show ?case by (auto simp: an_loop.simps(2) split: rl_anturn.splits dest: an_turn_names)
qed auto

lemma rl_an_sub_names:
  "rl_an_sub x pool types root = (pool', r) \<Longrightarrow> n_e1 (pool' i) = n_e1 (pool i) \<and> n_e2 (pool' i) = n_e2 (pool i)"
  by (auto simp: rl_an_sub_def split: if_splits dest: an_loop_names)

lemma ev_load_syms [simp]: "ev_load (c\<lparr>ev_syms := a\<rparr>) p n = ev_load c p n"
  by (cases p) simp_all

lemma ev_turn_live:
  assumes "ev_syms c = Some tab" "\<forall>k < ev_nsyms c. tab' k = tab k"
  shows "ev_turn (c\<lparr>ev_syms := Some tab'\<rparr>) pool wcap vcap e w vs out = ev_turn c pool wcap vcap e w vs out"
proof -
  let ?c = "c\<lparr>ev_syms := Some tab'\<rparr>"
  have load: "ev_load ?c = ev_load c" by (intro ext) simp
  have leaf: "rl_leaf ?c nd = rl_leaf c nd" for nd
  proof (cases "n_kind nd = RLN_VAR \<and> \<not> ev_nsyms c \<le> n_k2 nd")
    case True
    then have "tab' (n_k2 nd) = tab (n_k2 nd)" using assms(2) by simp
    with True assms(1) show ?thesis by (simp add: rl_leaf_def Let_def split: rl_vtype.split option.split)
  next
    case False
    with assms(1) show ?thesis by (cases "n_kind nd") (auto simp: rl_leaf_def Let_def)
  qed
  have "rl_equal ?c a b = rl_equal c a b" for a b by (cases a; cases b) (simp_all add: rl_equal_def)
  then have binop: "rl_binop ?c op a b = rl_binop c op a b" for op a b by (simp only: rl_binop_def)
  have "rl_print ?c a = rl_print c a" for a by (cases a) (simp_all add: rl_print_def load Let_def)
  then show ?thesis by (simp only: ev_turn_def Let_def ev_enter_def ev_leave_def leaf binop)
qed

lemma ev_loop_live:
  "ev_syms c = Some tab \<Longrightarrow> \<forall>k < ev_nsyms c. tab' k = tab k \<Longrightarrow>
    ev_loop (c\<lparr>ev_syms := Some tab'\<rparr>) pool wcap vcap w vs out = ev_loop c pool wcap vcap w vs out"
proof (induction c pool wcap vcap w vs out rule: ev_loop.induct)
  case (2 c pool wcap vcap e w vs out)
  then show ?case by (simp add: ev_loop.simps(2) ev_turn_live split: rl_turn.split)
qed simp

lemma rl_eval_live:
  assumes "ev_syms c = Some tab" "\<forall>k < ev_nsyms c. tab' k = tab k"
  shows "rl_eval (c\<lparr>ev_syms := Some tab'\<rparr>) root = rl_eval c root"
  using ev_loop_live [OF assms] by (simp add: rl_eval_def split: option.split)

end
