(* ===== verification/Rl_Commit.thy ===== *)
theory Rl_Commit
  imports Rl_Name "HOL-Library.Code_Target_Nat"
begin

text \<open>
  What a RynorLang session guarantees across submissions: the well-formedness of the
  committed table and arena, and that a committed variable has the value its initializer
  evaluated to.
\<close>

section \<open>Values the evaluator returns\<close>

text \<open>
  A string value points into the decoded bytes or into live session bytes, and a boolean is
  zero or one, for every pool and table whose string rows pass the ownership check.
\<close>

fun sane :: "nat \<Rightarrow> rl_val \<Rightarrow> bool" where
  "sane used (VStr (PSession off) n) = (off + n \<le> used)"
| "sane used (VStr (PScratch off) n) = True"
| "sane used (VBool a) = (a = 0 \<or> a = 1)"
| "sane used (VInt a) = True"
| "sane used VUnit = True"

lemma own_check_row: "rl_own_check_tab tab n used \<Longrightarrow> k < n \<Longrightarrow> own_row (tab k) used"
  by (induction n) (auto simp: less_Suc_eq)

definition rows_owned :: "rl_eval_ctx \<Rightarrow> nat \<Rightarrow> bool" where
  "rows_owned c used \<longleftrightarrow> (\<forall>tab. ev_syms c = Some tab \<longrightarrow> (\<forall>k < ev_nsyms c. own_row (tab k) used))"

lemma sane_vbool [simp]: "sane used (rl_vbool b)"
  by (simp add: rl_vbool_def)

lemma rows_owned_str:
  assumes "rows_owned c used" "ev_syms c = Some tab" "\<not> ev_nsyms c \<le> k" "sy_type (tab k) = RLV_STR"
  shows "unat (sy_pay (tab k)) + sy_str_len (tab k) \<le> used"
proof -
  have "own_row (tab k) used" using assms(1-3) by (simp add: rows_owned_def)
  then show ?thesis using assms(4) by (auto simp: own_row_def split: if_splits)
qed

lemma sane_leaf: "rows_owned c used \<Longrightarrow> rl_leaf c nd = EvOk v \<Longrightarrow> sane used v"
  by (cases "n_kind nd")
    (auto simp: rl_leaf_def rl_vint_def Let_def rows_owned_str split: option.splits rl_vtype.splits if_splits)

lemma sane_unop: "rl_unop op a = EvOk v \<Longrightarrow> sane used v"
  by (auto simp: rl_unop_def rl_vint_def split: rl_op.splits rl_val.splits)

lemma sane_binop: "rl_binop c op a b = EvOk v \<Longrightarrow> sane used v"
  by (cases op; cases a; cases b)
    (auto simp: rl_binop_def ints_def bools_def rl_divmod_def rl_vint_def rl_equal_def Let_def split: if_splits)

lemma sane_print: "rl_print c a = (EvOk v, out) \<Longrightarrow> sane used v"
  by (auto simp: rl_print_def Let_def split: rl_val.splits if_splits)

lemma sane_len: "rl_len a = EvOk v \<Longrightarrow> sane used v"
  by (auto simp: rl_len_def rl_vint_def split: rl_val.splits)

lemma sane_push:
  "ev_push vcap w r vs out = EvGo w' vs' out' \<Longrightarrow> (\<And>v. fst r = EvOk v \<Longrightarrow> sane used v)
    \<Longrightarrow> list_all (sane used) vs \<Longrightarrow> list_all (sane used) vs'"
  by (auto simp: ev_push_def split: prod.splits rl_evres.splits if_splits)

lemma ev_push_stop: "ev_push vcap w r vs out = EvStop r' out' \<Longrightarrow> r' \<noteq> EvOk v"
  by (auto simp: ev_push_def split: prod.splits rl_evres.splits if_splits)

lemma ev_turn_stop: "ev_turn c pool wcap vcap e w vs out = EvStop r out' \<Longrightarrow> r \<noteq> EvOk v"
  unfolding ev_turn_def Let_def
  by (cases "n_kind (pool (e mod VISITED))")
    (auto simp: ev_enter_def ev_leave_def Let_def split: if_splits list.splits dest: ev_push_stop)

lemma sane_turn:
  assumes "ev_turn c pool wcap vcap e w vs out = EvGo w' vs' out'" "rows_owned c used" "list_all (sane used) vs"
  shows "list_all (sane used) vs'"
proof -
  have tail: "list_all (sane used) us" if "vs = a # us" for a us using assms(3) that by simp
  have leaf: "\<And>v nd. rl_leaf c nd = EvOk v \<Longrightarrow> sane used v" using sane_leaf [OF assms(2)] .
  have prt: "\<And>v a. fst (rl_print c a) = EvOk v \<Longrightarrow> sane used v" using sane_print by (metis prod.collapse)
  have push: "list_all (sane used) vs'"
    if "ev_push vcap w r us out = EvGo w' vs' out'" "\<And>v. fst r = EvOk v \<Longrightarrow> sane used v" "list_all (sane used) us"
    for r us by (rule sane_push [OF that])
  show ?thesis
    using assms(1,3) unfolding ev_turn_def Let_def
    by (cases "n_kind (pool (e mod VISITED))")
      (auto simp: ev_enter_def ev_leave_def Let_def split: if_splits list.splits
        elim!: push dest: leaf prt sane_unop sane_binop sane_len)
qed

lemma sane_loop:
  "ev_loop c pool wcap vcap w vs out = (EvOk v, out') \<Longrightarrow> rows_owned c used \<Longrightarrow> list_all (sane used) vs
    \<Longrightarrow> sane used v"
proof (induction c pool wcap vcap w vs out rule: ev_loop.induct)
  case (1 c pool wcap vcap vs out)
  then show ?case by (auto split: list.splits)
next
  case (2 c pool wcap vcap e w vs out)
  then show ?case
    by (auto simp: ev_loop.simps(2) split: rl_turn.splits dest: sane_turn ev_turn_stop)
qed

lemma sane_eval: "rl_eval c root = (EvOk v, out) \<Longrightarrow> rows_owned c used \<Longrightarrow> sane used v"
  by (auto simp: rl_eval_def split: option.splits if_splits dest: sane_loop)

section \<open>The committed state\<close>

definition sess_ok :: "rl_sess \<Rightarrow> bool" where
  "sess_ok s \<longleftrightarrow> length (se_src s) \<le> RL_SESS_MAX \<and> se_nsyms s \<le> RL_SYM_MAX
    \<and> se_used s \<le> RL_SESS_ARENA \<and> rl_own_check_tab (se_syms s) (se_nsyms s) (se_used s)
    \<and> (\<forall>k < se_nsyms s. sy_type (se_syms s k) \<in> {RLV_INT, RLV_BOOL, RLV_STR} \<and> sy_flags (se_syms s k) = 0)
    \<and> ar_base (se_sub s) \<and> ar_cap (se_sub s) = RL_SUB_ARENA \<and> ar_used (se_sub s) = 0"

lemma sess_ok_init: "sess_ok (rl_sess_init emit s)"
  by (simp add: sess_ok_def rl_sess_init_def rl_arena_init_def)

lemma sess_ok_kept: "kept s s' \<Longrightarrow> sub_idle s s' \<Longrightarrow> sess_ok s \<Longrightarrow> sess_ok s'"
  by (auto simp: sess_ok_def kept_def sub_idle_def)

lemma let_committed_facts:
  assumes "let_committed types parse part s (s', oc, out) s2 root pool ev row sp canon trim"
  shows "committed s s' (commit_row s trim row) canon" "sub_idle s s'" "se_nsyms s < RL_SYM_MAX"
    and "rl_own_check_tab (se_syms s') (se_nsyms s + 1) (se_used s')"
    and "rl_stage (s2\<lparr>sb_nodes := pool\<rparr>) (pool root) (n_aux (sb_nodes s2 root)) ev = (row, Inr sp)"
    and "sy_type row = RLV_STR \<Longrightarrow>
      se_arena s' = promote (sb_strb s2) sp (se_used s) (sy_str_len row) (se_arena s2)"
    and "rl_eval (sub_ev_ctx (s2\<lparr>sb_nodes := pool\<rparr>) (se_nsyms s)) (n_k1 (sb_nodes s2 root)) = (EvOk ev, out)"
    and "kept s s2" "\<forall>k < se_nsyms s. se_cand s2 k = se_syms s k" "let_parsed parse root s2"
    and "rl_canon part 514 = Some (canon, trim)" "session_room s (Some (canon, trim))"
    and "\<exists>itype. rl_an_sub (sub_an_ctx s2 part (se_nsyms s) (sb_args s2) (se_cand s2)) (sb_nodes s2) types
      (n_k1 (sb_nodes s2 root)) = (pool, Inr itype)"
    and "se_arena s2 = se_arena s"
proof -
  let ?t = "s2\<lparr>sb_nodes := pool\<rparr>"
  from assms have run: "let_run types part root canon trim (se_nsyms s) s2 pool ev row sp (s', oc, out)"
    and k: "kept s s2" and idle: "sub_idle s (rl_sub_reset s2)"
    and tab: "\<forall>k < se_nsyms s. se_cand s2 k = se_syms s k"
    and rest: "let_parsed parse root s2" "se_arena s2 = se_arena s" "rl_canon part 514 = Some (canon, trim)" "session_room s (Some (canon, trim))"
    and ok: "oc_kind oc = RL_SUB_OK"
    by (simp_all add: let_committed_def)
  from run have commit: "rl_commit canon trim (se_nsyms s + 1) row sp ?t = (s', oc)"
    and stage: "rl_stage ?t (pool root) (n_aux (sb_nodes s2 root)) ev = (row, Inr sp)"
    and eval: "rl_eval (sub_ev_ctx ?t (se_nsyms s)) (n_k1 (sb_nodes s2 root)) = (EvOk ev, out)"
    and n: "se_nsyms s2 < RL_SYM_MAX"
    by (simp_all add: let_run_def)
  have nt: "se_nsyms s = se_nsyms ?t" "\<forall>k < se_nsyms s. se_cand ?t k = se_syms ?t k"
    using k tab by (simp_all add: kept_def)
  note fin = rl_commit_done [OF commit ok nt]
  have "commit_row ?t trim row = commit_row s trim row" using k by (simp add: commit_row_def kept_def)
  then show "committed s s' (commit_row s trim row) canon"
    using fin(1) k by (auto simp: committed_def kept_def)
  show "sub_idle s s'" using fin(5) idle by (simp add: sub_idle_def rl_sub_reset_def)
  show "se_nsyms s < RL_SYM_MAX" using n k by (simp add: kept_def)
  show "rl_own_check_tab (se_syms s') (se_nsyms s + 1) (se_used s')" by (rule fin(2))
  show "se_arena s' = promote (sb_strb s2) sp (se_used s) (sy_str_len row) (se_arena s2)" if "sy_type row = RLV_STR"
    using fin(3) [OF that] k by (simp add: kept_def)
  show "rl_stage (s2\<lparr>sb_nodes := pool\<rparr>) (pool root) (n_aux (sb_nodes s2 root)) ev = (row, Inr sp)" by (rule stage)
  show "rl_eval (sub_ev_ctx (s2\<lparr>sb_nodes := pool\<rparr>) (se_nsyms s)) (n_k1 (sb_nodes s2 root)) = (EvOk ev, out)"
    by (rule eval)
  show "kept s s2" by (rule k)
  show "\<forall>k < se_nsyms s. se_cand s2 k = se_syms s k" by (rule tab)
  show "let_parsed parse root s2" "se_arena s2 = se_arena s" "rl_canon part 514 = Some (canon, trim)"
    "session_room s (Some (canon, trim))" by (rule rest)+
  show "\<exists>itype. rl_an_sub (sub_an_ctx s2 part (se_nsyms s) (sb_args s2) (se_cand s2)) (sb_nodes s2) types
      (n_k1 (sb_nodes s2 root)) = (pool, Inr itype)"
    using run by (auto simp: let_run_def)
qed

lemma sess_ok_submit:
  assumes "sess_ok s" "rl_submit stale part s = (s', oc, out)"
  shows "sess_ok s'"
  using rl_submit_cases [OF assms(2)]
proof
  assume "kept s (fst (s', oc, out)) \<and> sub_idle s (fst (s', oc, out))"
  then show ?thesis using sess_ok_kept assms(1) by auto
next
  assume "\<exists>s3 root pool ev row sp canon trim. let_committed (stale (se_nsyms s)) (sub_parse stale part s) part s (s', oc, out) s3 root pool ev row sp canon trim"
  then obtain s2 root pool ev row sp canon trim
    where c: "let_committed (stale (se_nsyms s)) (sub_parse stale part s) part s (s', oc, out) s2 root pool ev row sp canon trim" by blast
  note f = let_committed_facts [OF c]
  note r = rl_stage_row [OF f(5)]
  have row: "sy_type (commit_row s trim row) = sy_type row" "sy_flags (commit_row s trim row) = 0"
    "sy_str_len (commit_row s trim row) = sy_str_len row"
    by (simp_all add: commit_row_def)
  have "length canon \<le> RL_SESS_MAX - length (se_src s)"
    using f(12) assms(1) by (auto simp: session_room_def sess_ok_def)
  then have "length (se_src s') \<le> RL_SESS_MAX"
    using f(1) assms(1) by (auto simp: committed_def sess_ok_def)
  moreover have "se_used s' \<le> RL_SESS_ARENA"
    using f(1,8) r(3) assms(1) row by (auto simp: committed_def sess_ok_def kept_def)
  moreover have "\<forall>k < se_nsyms s'. sy_type (se_syms s' k) \<in> {RLV_INT, RLV_BOOL, RLV_STR} \<and> sy_flags (se_syms s' k) = 0"
    using f(1) r(2) row assms(1) by (auto simp: committed_def sess_ok_def less_Suc_eq)
  moreover have "ar_base (se_sub s') \<and> ar_cap (se_sub s') = RL_SUB_ARENA \<and> ar_used (se_sub s') = 0"
    using f(2) assms(1) by (simp add: sub_idle_def sess_ok_def)
  ultimately show ?thesis using f(1,3,4) by (simp add: sess_ok_def committed_def)
qed

section \<open>Reading a committed variable\<close>

definition val_eq :: "rl_eval_ctx \<Rightarrow> rl_val \<Rightarrow> rl_eval_ctx \<Rightarrow> rl_val \<Rightarrow> bool" where
  "val_eq c v c' v' =
    (case v of
       VStr p n \<Rightarrow> (case v' of VStr p' n' \<Rightarrow> n' = n \<and> ev_load c' p' n' = ev_load c p n | _ \<Rightarrow> False)
     | _ \<Rightarrow> v' = v)"

lemma promote_at:
  assumes "k < n" "\<And>off. sp = PSession off \<Longrightarrow> off + n \<le> dst"
  shows "promote strb sp dst n ar (dst + k) =
    (case sp of PScratch off \<Rightarrow> strb (off + k) | PSession off \<Rightarrow> ar (off + k))"
  using assms
proof (induction n)
  case (Suc n)
  then show ?case by (auto simp: Let_def less_Suc_eq promote_below split: rl_ptr.splits)
qed simp

lemma promote_load:
  assumes "sane used (VStr sp n)" "ev_strbase c = Some strb" "ev_arena c = Some ar"
    and "ev_arena c' = Some (promote strb sp used n ar)"
  shows "ev_load c' (PSession used) n = ev_load c sp n"
proof -
  have "promote strb sp used n ar (used + k) =
      (case sp of PScratch off \<Rightarrow> strb (off + k) | PSession off \<Rightarrow> ar (off + k))" if "k < n" for k
    by (rule promote_at [OF that]) (use assms(1) in auto)
  then show ?thesis using assms(2-4) by (cases sp) (auto intro!: nth_equalityI)
qed

abbreviation committed_ctx :: "rl_sess \<Rightarrow> rl_eval_ctx" where
  "committed_ctx s \<equiv> sub_ev_ctx (s\<lparr>se_cand := se_syms s\<rparr>) (se_nsyms s)"

abbreviation var_node :: "nat \<Rightarrow> rl_node" where
  "var_node k \<equiv> (fresh_node RLN_VAR)\<lparr>n_k2 := k\<rparr>"

lemma let_committed_value:
  assumes "sess_ok s" and c: "let_committed types parse part s (s', oc, out) s2 root pool ev row sp canon trim"
  shows "\<exists>v. rl_leaf (committed_ctx s') (var_node (se_nsyms s)) = EvOk v
    \<and> val_eq (sub_ev_ctx (s2\<lparr>sb_nodes := pool\<rparr>) (se_nsyms s)) ev (committed_ctx s') v"
proof -
  note f = let_committed_facts [OF c] note r = rl_stage_row [OF f(5)]
  let ?c = "sub_ev_ctx (s2\<lparr>sb_nodes := pool\<rparr>) (se_nsyms s)"
  have "rows_owned ?c (se_used s)"
    using f(9) assms(1) own_check_row by (auto simp: rows_owned_def sub_ev_ctx_def sess_ok_def)
  then have sane: "sane (se_used s) ev" using sane_eval [OF f(7)] by blast
  have row: "se_syms s' (se_nsyms s) = commit_row s trim row" "se_nsyms s' = se_nsyms s + 1"
    using f(1) by (simp_all add: committed_def)
  have used: "unat (of_nat (se_used s) :: u64) = se_used s"
    using assms(1) by (simp add: unat_of_nat sess_ok_def RL_SESS_ARENA_def)
  consider "sy_type row = RLV_INT" | "sy_type row = RLV_BOOL" | "sy_type row = RLV_STR" using r(2) by auto
  then show ?thesis
  proof cases
    case 1
    then show ?thesis using r(4) row
      by (simp add: rl_leaf_def fresh_node_def sub_ev_ctx_def commit_row_def rl_vint_def val_eq_def)
  next
    case 2
    then have "sy_pay row = 0 \<or> sy_pay row = 1" using r(5) sane by simp
    then show ?thesis using r(5) [OF 2] row 2
      by (auto simp: rl_leaf_def fresh_node_def sub_ev_ctx_def commit_row_def rl_vbool_def val_eq_def)
  next
    case 3
    have ev: "ev = VStr sp (sy_str_len row)" using r(3) [OF 3] by simp
    have load: "ev_load (committed_ctx s') (PSession (se_used s)) (sy_str_len row) = ev_load ?c sp (sy_str_len row)"
      by (rule promote_load [OF sane [unfolded ev]]) (simp_all add: sub_ev_ctx_def f(6) [OF 3])
    show ?thesis using row 3 ev load used
      by (simp add: rl_leaf_def fresh_node_def commit_row_def val_eq_def Let_def)
         (simp add: sub_ev_ctx_def)
  qed
qed

text \<open>
  What a submission of a \<^verbatim>\<open>let\<close> computes from the session before it: the context its
  initializer is evaluated in, the initializer's node, and the name the part declares. The tree
  is the parse of the part, resolved by the analyzer against the committed table, and variables
  and strings are read from the committed table and arena.
\<close>

definition let_init :: "(nat \<Rightarrow> rl_types) \<Rightarrow> string \<Rightarrow> rl_sess \<Rightarrow> rl_eval_ctx \<times> nat \<times> string" where
  "let_init stale part s =
    (case sub_parse stale part s of (p, ss, rc, root) \<Rightarrow>
     let nd = r_nodes p root;
         pool = fst (rl_an_sub (sub_an_ctx s part (se_nsyms s) (r_args p) (se_syms s)) (r_nodes p)
           (stale (se_nsyms s)) (n_k1 nd)) in
     ((committed_ctx s)\<lparr>ev_pool := Some pool, ev_strbase := Some (ss_base ss)\<rparr>, n_k1 nd,
      take (n_e2 nd) (drop (n_e1 nd) part)))"

definition row_name :: "rl_sess \<Rightarrow> nat \<Rightarrow> string" where
  "row_name s k = take (sy_name_len (se_syms s k)) (drop (sy_name_off (se_syms s k)) (se_src s))"

lemma let_committed_context:
  assumes c: "let_committed (stale (se_nsyms s)) (sub_parse stale part s) part s r s2 root pool ev row sp canon trim"
    and init: "let_init stale part s = (c, i, name)"
  shows "c = (sub_ev_ctx (s2\<lparr>sb_nodes := pool\<rparr>) (se_nsyms s))\<lparr>ev_syms := Some (se_syms s)\<rparr>"
    and "i = n_k1 (sb_nodes s2 root)"
    and "name = take (n_e2 (sb_nodes s2 root)) (drop (n_e1 (sb_nodes s2 root)) part)"
proof -
  obtain s' oc out where r: "r = (s', oc, out)" by (metis prod_cases3)
  note f = let_committed_facts [OF c [unfolded r]]
  from f(10) obtain p ss where p: "sub_parse stale part s = (p, ss, RLP_OK, root)"
    "sb_nodes s2 = r_nodes p" "sb_strb s2 = ss_base ss" "sb_args s2 = r_args p"
    by (auto simp: let_parsed_def)
  have ctx: "sub_an_ctx s part n args (se_syms s) = (sub_an_ctx s2 part n args (se_cand s2))\<lparr>an_tab := se_syms s\<rparr>" for n args
    using f(8) by (simp add: sub_an_ctx_def kept_def)
  have "live_rows (sub_an_ctx s2 part (se_nsyms s) args (se_cand s2)) (se_syms s)" for args
    using f(9) by (simp add: live_rows_def sub_an_ctx_def)
  then have "fst (rl_an_sub (sub_an_ctx s part (se_nsyms s) (r_args p) (se_syms s)) (r_nodes p)
      (stale (se_nsyms s)) (n_k1 (r_nodes p root))) = pool"
    using f(13) p unfolding ctx by (auto simp: rl_an_sub_live)
  then show "c = (sub_ev_ctx (s2\<lparr>sb_nodes := pool\<rparr>) (se_nsyms s))\<lparr>ev_syms := Some (se_syms s)\<rparr>"
    and "i = n_k1 (sb_nodes s2 root)"
    and "name = take (n_e2 (sb_nodes s2 root)) (drop (n_e1 (sb_nodes s2 root)) part)"
    using init f(8,14) p by (auto simp: let_init_def Let_def sub_ev_ctx_def kept_def)
qed

lemma let_committed_name:
  assumes ok: "sess_ok s" and len: "length part \<le> 512"
    and c: "let_committed (stale (se_nsyms s)) (sub_parse stale part s) part s (s', oc, out) s2 root pool ev row sp canon trim"
  shows "row_name s' (se_nsyms s) = take (n_e2 (sb_nodes s2 root)) (drop (n_e1 (sb_nodes s2 root)) part)"
proof -
  note f = let_committed_facts [OF c] note r = rl_stage_row [OF f(5)]
  let ?o = "n_e1 (sb_nodes s2 root)" and ?n = "n_e2 (sb_nodes s2 root)"
  from f(10) obtain p ss where p: "sub_parse stale part s = (p, ss, RLP_OK, root)"
    "sb_nodes s2 = r_nodes p" "n_kind (r_nodes p root) = RLN_LET"
    by (auto simp: let_parsed_def)
  have cap: "RL_SUB_POOL_NODES \<le> RL_POOL_MAX" by (simp add: RL_SUB_POOL_NODES_def RL_POOL_MAX_def)
  note inside = let_name_inside [OF p(1) [unfolded sub_parse_def Let_def] p(3) cap, folded p(2)]
  have i: "0 < ?n" "?o + ?n \<le> length part" using inside(1,2) len by simp_all
  have ws: "\<not> rl_is_ws (part ! k)" if "?o \<le> k" "k < ?o + ?n" for k using inside(3) [of k] len that by simp
  note rng = part_text_range [OF i ws]
  have canon: "canon = part_text part" "trim = length (takeWhile rl_is_ws part)"
    using rl_canon_text [OF f(11)] by auto
  from f(13) obtain itype where "rl_an_sub (sub_an_ctx s2 part (se_nsyms s) (sb_args s2) (se_cand s2)) (sb_nodes s2)
      (stale (se_nsyms s)) (n_k1 (sb_nodes s2 root)) = (pool, Inr itype)" by blast
  from rl_an_sub_names [OF this, of root] have nm: "sy_name_off row = ?o" "sy_name_len row = ?n"
    using r(6,7) i len by simp_all
  have "int (length (se_src s)) + (int ?o - int trim) = int (length (se_src s) + (?o - trim))"
    using rng(1) canon(2) by simp
  moreover have "length (se_src s) + (?o - trim) < 65536"
    using ok i len by (simp add: sess_ok_def RL_SESS_MAX_def) linarith
  ultimately have off: "sy_name_off (commit_row s trim row) = length (se_src s) + (?o - trim)"
    by (simp add: commit_row_def nm zmod_int [symmetric] del: of_nat_add)
  have "row_name s' (se_nsyms s) = take ?n (drop (?o - trim) canon)"
    using f(1) off by (simp add: row_name_def committed_def) (simp add: commit_row_def nm)
  then show ?thesis using rng(2) canon by simp
qed

section \<open>A sample session\<close>

definition blank_row :: rl_sym where
  "blank_row = \<lparr>sy_name_off = 0, sy_name_len = 0, sy_type = RLV_UNKNOWN, sy_flags = 0, sy_str_len = 0, sy_pay = 0\<rparr>"

definition demo_sess :: rl_sess where
  "demo_sess = rl_sess_init True \<lparr>se_src = [], se_syms = (\<lambda>_. blank_row), se_nsyms = 0,
     se_cand = (\<lambda>_. blank_row), se_arena = (\<lambda>_. CHR 0x00), se_used = 0, se_high = 0,
     se_sub = rl_arena_init 0, sb_nodes = (\<lambda>_. fresh_node RLN_WORD), sb_strb = (\<lambda>_. CHR 0x00),
     sb_args = (\<lambda>_. 0), se_emit = False\<rparr>"

definition demo_stale :: "nat \<Rightarrow> rl_types" where
  "demo_stale = (\<lambda>_ _. RLV_UNKNOWN)"

lemma demo_let:
  "case rl_submit demo_stale (''let s: str = '' @ rl_quote ''ab'') demo_sess of (s', oc, out) \<Rightarrow>
     se_nsyms s' = 1 \<and> sy_type (se_syms s' 0) = RLV_STR"
  by code_simp

lemma demo_binding:
  "case rl_submit demo_stale (''let s: str = '' @ rl_quote ''ab'') demo_sess of (s', oc, out) \<Rightarrow>
     se_nsyms s' = 1 \<and> ev_load (committed_ctx s') (PSession 0) 2 = ''ab'' \<and> row_name s' 0 = ''s''"
  by code_simp

lemma demo_empty:
  "oc_kind (fst (snd (rl_submit demo_stale (''let s: str = '' @ rl_quote []) demo_sess))) = RL_SUB_OWNFAIL"
  by code_simp

lemma demo_committed:
  obtains s' oc out where "rl_submit demo_stale (''let s: str = '' @ rl_quote ''ab'') demo_sess = (s', oc, out)"
    "se_nsyms s' \<noteq> se_nsyms demo_sess" "sy_type (se_syms s' (se_nsyms demo_sess)) = RLV_STR"
proof -
  have "se_nsyms demo_sess = 0" by (simp add: demo_sess_def rl_sess_init_def)
  with demo_let that show thesis by (auto split: prod.splits)
qed

lemma demo_sess_ok: "sess_ok demo_sess"
  unfolding demo_sess_def by (rule sess_ok_init)

section \<open>Properties\<close>

text \<open>
  (C28) Submissions are transactions. Whatever the part and whatever the stale scratch bytes,
  a submission ends with the submission arena empty and either leaves the committed source,
  rows and string bytes as they were, or succeeds and appends exactly one row and, as its
  source, the part without the white space around it and with a final newline, leaving every
  earlier row and string byte as it was.
\<close>
theorem rl_submit_atomic:
  "case rl_submit stale part s of (s', oc, out) \<Rightarrow>
     ar_used (se_sub s') = 0
     \<and> (kept s s' \<or> oc_kind oc = RL_SUB_OK \<and> (\<exists>row. committed s s' row (part_text part)))"
proof -
  obtain s' oc out where r: "rl_submit stale part s = (s', oc, out)" by (metis prod_cases3)
  from rl_submit_cases [OF r] show ?thesis
  proof
    assume "kept s (fst (s', oc, out)) \<and> sub_idle s (fst (s', oc, out))"
    then show ?thesis by (simp add: r sub_idle_def)
  next
    assume "\<exists>s3 root pool ev row sp canon trim. let_committed (stale (se_nsyms s)) (sub_parse stale part s) part s (s', oc, out) s3 root pool ev row sp canon trim"
    then obtain s2 root pool ev row sp canon trim
      where c: "let_committed (stale (se_nsyms s)) (sub_parse stale part s) part s (s', oc, out) s2 root pool ev row sp canon trim" by blast
    have "oc_kind oc = RL_SUB_OK" using c by (simp add: let_committed_def)
    moreover have "canon = part_text part" using rl_canon_text(1) [OF let_committed_facts(11) [OF c]] .
    ultimately show ?thesis using let_committed_facts(1,2) [OF c] by (auto simp: r sub_idle_def)
  qed
qed

text \<open>
  (C29) The session invariant. After initialisation and any sequence of submissions the source,
  the table and the string arena are within their bounds, every row has a value type and no
  staging flag, and every string row addresses live bytes of the session arena.
\<close>
theorem rl_session_invariant:
  "sess_ok (foldl (\<lambda>s (stale, part). fst (rl_submit stale part s)) (rl_sess_init emit s) parts)"
proof (induction parts rule: rev_induct)
  case Nil
  show ?case by (simp add: sess_ok_init)
next
  case (snoc sp parts)
  then show ?case using sess_ok_submit by (cases sp) (simp, metis prod.collapse)
qed

text \<open>
  (C30) A committed variable has its initializer's value. When a submission adds a row, the part
  parses to a let; its initializer, resolved against the table and evaluated over the table
  and the strings committed before the submission, has a value, and a variable node that refers
  to the new row reads an equal value afterwards: the same integer or boolean, or a string of
  the same bytes, now owned by the session. The new row is named by the identifier the part
  declares. The tree, the context and the name are functions of the part and of the session
  before the submission.
\<close>
theorem rl_let_binds:
  assumes "sess_ok s" and "rl_submit stale part s = (s', oc, out)" and "se_nsyms s' \<noteq> se_nsyms s"
  shows "(case sub_parse stale part s of (p, ss, rc, root) \<Rightarrow> rc = RLP_OK \<and> n_kind (r_nodes p root) = RLN_LET)
    \<and> (case let_init stale part s of (c, init, name) \<Rightarrow>
      (\<exists>ev v. rl_eval c init = (EvOk ev, out)
        \<and> rl_leaf (committed_ctx s') (var_node (se_nsyms s)) = EvOk v \<and> val_eq c ev (committed_ctx s') v)
      \<and> row_name s' (se_nsyms s) = name)"
proof -
  from rl_submit_cases [OF assms(2)] assms(3) obtain s2 root pool ev row sp canon trim
    where c: "let_committed (stale (se_nsyms s)) (sub_parse stale part s) part s (s', oc, out) s2 root pool ev row sp canon trim"
    by (auto simp: kept_def)
  note f = let_committed_facts [OF c]
  have parse: "case sub_parse stale part s of (p, ss, rc, root) \<Rightarrow> rc = RLP_OK \<and> n_kind (r_nodes p root) = RLN_LET"
    using f(10) by (auto simp: let_parsed_def)
  obtain ctx init name where i: "let_init stale part s = (ctx, init, name)" by (metis prod_cases3)
  note e = let_committed_context [OF c i]
  let ?c = "sub_ev_ctx (s2\<lparr>sb_nodes := pool\<rparr>) (se_nsyms s)"
  have "rl_eval ctx init = rl_eval ?c init"
    unfolding e(1) by (rule rl_eval_live) (use f(9) in \<open>auto simp: sub_ev_ctx_def\<close>)
  then have eval: "rl_eval ctx init = (EvOk ev, out)" using f(7) e(2) by simp
  have len: "length part \<le> 512"
    using assms(2,3) by (auto simp: rl_submit_def rl_sub_reset_def split: if_splits)
  have "val_eq ctx ev d v = val_eq ?c ev d v" for d v by (simp add: val_eq_def e(1) cong: rl_val.case_cong)
  with let_committed_value [OF assms(1) c] obtain v where
    "rl_leaf (committed_ctx s') (var_node (se_nsyms s)) = EvOk v" "val_eq ctx ev (committed_ctx s') v" by blast
  with parse eval let_committed_name [OF assms(1) len c] e(3) show ?thesis unfolding i by auto
qed

theorem rl_let_binds_witness:
  "case rl_submit demo_stale (''let s: str = '' @ rl_quote ''ab'') demo_sess of (s', oc, out) \<Rightarrow>
     se_nsyms s' = 1 \<and> ev_load (committed_ctx s') (PSession 0) 2 = ''ab'' \<and> row_name s' 0 = ''s''
     \<and> (case let_init demo_stale (''let s: str = '' @ rl_quote ''ab'') demo_sess of (c, init, name) \<Rightarrow>
       (\<exists>ev v. rl_eval c init = (EvOk ev, out)
         \<and> rl_leaf (committed_ctx s') (var_node 0) = EvOk v \<and> val_eq c ev (committed_ctx s') v)
       \<and> row_name s' 0 = name)"
proof -
  have n: "se_nsyms demo_sess = 0" by (simp add: demo_sess_def rl_sess_init_def)
  obtain s' oc out where r: "rl_submit demo_stale (''let s: str = '' @ rl_quote ''ab'') demo_sess = (s', oc, out)"
    by (metis prod_cases3)
  have d: "se_nsyms s' = 1" "ev_load (committed_ctx s') (PSession 0) 2 = ''ab''" "row_name s' 0 = ''s''"
    using demo_binding [unfolded r prod.case] by blast+
  then have "se_nsyms s' \<noteq> se_nsyms demo_sess" using n by simp
  from conjunct2 [OF rl_let_binds [OF demo_sess_ok r this]] d show ?thesis
    unfolding r n prod.case by (intro conjI) assumption+
qed

text \<open>
  (C31) No empty string is ever committed: a submission that adds a string row adds one of
  positive length, because the ownership check demands an offset below the arena's fill and
  an empty string is staged at the fill itself.
\<close>
theorem rl_empty_string_refused:
  assumes "sess_ok s" and "rl_submit stale part s = (s', oc, out)" and "se_nsyms s' \<noteq> se_nsyms s"
    and "sy_type (se_syms s' (se_nsyms s)) = RLV_STR"
  shows "0 < sy_str_len (se_syms s' (se_nsyms s))"
proof -
  from rl_submit_cases [OF assms(2)] assms(3) obtain s2 root pool ev row sp canon trim
    where c: "let_committed (stale (se_nsyms s)) (sub_parse stale part s) part s (s', oc, out) s2 root pool ev row sp canon trim" by (auto simp: kept_def)
  note f = let_committed_facts [OF c]
  let ?row = "commit_row s trim row"
  have row: "se_syms s' (se_nsyms s) = ?row" "se_used s' = se_used s + sy_str_len ?row" "sy_type row = RLV_STR"
    using f(1) assms(4) by (simp_all add: committed_def commit_row_def split: if_splits)
  have "own_row ?row (se_used s')" using own_check_row [OF f(4), of "se_nsyms s"] row(1) by simp
  moreover have "unat (of_nat (se_used s) :: u64) = se_used s"
    using assms(1) by (simp add: unat_of_nat sess_ok_def RL_SESS_ARENA_def)
  ultimately show ?thesis using row by (auto simp: own_row_def commit_row_def split: if_splits)
qed

theorem rl_empty_string_refused_witness:
  "\<exists>s' oc out. rl_submit demo_stale (''let s: str = '' @ rl_quote ''ab'') demo_sess = (s', oc, out)
    \<and> 0 < sy_str_len (se_syms s' (se_nsyms demo_sess))
    \<and> oc_kind (fst (snd (rl_submit demo_stale (''let s: str = '' @ rl_quote []) demo_sess))) = RL_SUB_OWNFAIL"
proof -
  obtain s' oc out where r: "rl_submit demo_stale (''let s: str = '' @ rl_quote ''ab'') demo_sess = (s', oc, out)"
    "se_nsyms s' \<noteq> se_nsyms demo_sess" "sy_type (se_syms s' (se_nsyms demo_sess)) = RLV_STR"
    by (rule demo_committed)
  from rl_empty_string_refused [OF demo_sess_ok r] r(1) demo_empty show ?thesis by blast
qed

end
