(* ===== verification/Kstack.thy ===== *)
theory Kstack
  imports Prelude
begin

text \<open>
  Kernel thread stacks (\<^verbatim>\<open>src/kernel/mm/kstack.c\<close>): the private registry of eight
  stack slots, each an absent guard page below four mapped pages, and the
  handles that own them. A handle lives at a fixed address; the registry keeps
  that address, so a copied or stale handle is not an owner. Here an address
  is the natural number of the handle.

  The page services the registry calls (\<^verbatim>\<open>vm_query\<close>, \<^verbatim>\<open>vm_map\<close>, \<^verbatim>\<open>vm_unmap\<close>,
  \<^verbatim>\<open>pmm_allocate\<close>, \<^verbatim>\<open>pmm_release\<close>, \<^verbatim>\<open>pmm_query\<close>) answer through a record of their
  answers, so every success, failure and rollback path is a path of the model.
\<close>

section \<open>Layout\<close>

definition VM_PAGE_SIZE :: u64 where
  "VM_PAGE_SIZE = 4096"

definition KSTACK_BASE :: u64 where
  "KSTACK_BASE = 0xffffe00000000000"

definition KSTACK_PAGES :: nat where
  "KSTACK_PAGES = 4"

definition KSTACK_GUARD_BYTES :: u64 where
  "KSTACK_GUARD_BYTES = VM_PAGE_SIZE"

definition KSTACK_PAYLOAD_BYTES :: u64 where
  "KSTACK_PAYLOAD_BYTES = of_nat KSTACK_PAGES * VM_PAGE_SIZE"

definition KSTACK_SLOT_SIZE :: u64 where
  "KSTACK_SLOT_SIZE = KSTACK_GUARD_BYTES + KSTACK_PAYLOAD_BYTES"

definition KSTACK_MAX_THREADS :: nat where
  "KSTACK_MAX_THREADS = 8"

lemmas kstack_layout =
  VM_PAGE_SIZE_def KSTACK_BASE_def KSTACK_PAGES_def KSTACK_GUARD_BYTES_def
  KSTACK_PAYLOAD_BYTES_def KSTACK_SLOT_SIZE_def KSTACK_MAX_THREADS_def

text \<open>\<^verbatim>\<open>struct kstack\<close>, the handle, and the registry of \<^verbatim>\<open>struct stack_record\<close>.\<close>

record kstack =
  ks_slot :: u64
  ks_generation :: u64

record stack_record =
  sr_owner :: "nat option"
  sr_generation :: u64
  sr_frames :: "u64 list"

record kstacks =
  kr_records :: "nat \<Rightarrow> stack_record"
  kr_generation :: u64
  kr_mem :: mem

text \<open>
  What the page services answer: whether the kernel space exists; the mapping
  at an address (absent, or present with its frame and whether its permissions
  are exactly \<^verbatim>\<open>VM_WRITE\<close>, or an error); the frame handed out for the \<open>n\<close>-th
  allocation; whether mapping, unmapping and releasing succeed; and whether the
  allocator holds a frame as allocated.
\<close>

datatype vm_answer = VM_NOT_MAPPED | VM_MAPPED u64 bool | VM_FAILED

record page_services =
  ps_space :: bool
  ps_query :: "u64 \<Rightarrow> vm_answer"
  ps_allocate :: "nat \<Rightarrow> u64 option"
  ps_map :: "u64 \<Rightarrow> u64 \<Rightarrow> bool"
  ps_unmap :: "u64 \<Rightarrow> bool"
  ps_release :: "u64 \<Rightarrow> bool"
  ps_allocated :: "u64 \<Rightarrow> bool"

section \<open>Operations\<close>

definition base_of :: "u64 \<Rightarrow> u64" where
  "base_of slot = KSTACK_BASE + slot * KSTACK_SLOT_SIZE"

definition context_ok :: "cpu_ctx \<Rightarrow> bool" where
  "context_ok c \<longleftrightarrow> if_disabled c \<and> \<not> in_irq c"

definition kstack_valid :: "cpu_ctx \<Rightarrow> kstacks \<Rightarrow> nat \<Rightarrow> kstack \<Rightarrow> bool" where
  "kstack_valid c st a h \<longleftrightarrow>
    if_disabled c \<and> unat (ks_slot h) < KSTACK_MAX_THREADS \<and> ks_generation h \<noteq> 0 \<and>
    sr_owner (kr_records st (unat (ks_slot h))) = Some a \<and>
    sr_generation (kr_records st (unat (ks_slot h))) = ks_generation h"

definition kstack_bounds :: "cpu_ctx \<Rightarrow> kstacks \<Rightarrow> nat \<Rightarrow> kstack \<Rightarrow> (u64 \<times> u64) option" where
  "kstack_bounds c st a h =
    (if \<not> if_disabled c \<or> \<not> kstack_valid c st a h then None
     else let low = base_of (ks_slot h) + KSTACK_GUARD_BYTES in Some (low, low + KSTACK_PAYLOAD_BYTES))"

text \<open>The address of payload page \<open>i\<close> of a slot.\<close>

definition page_va :: "u64 \<Rightarrow> nat \<Rightarrow> u64" where
  "page_va slot i = base_of slot + (of_nat i + 1) * VM_PAGE_SIZE"

definition kstack_check :: "cpu_ctx \<Rightarrow> page_services \<Rightarrow> kstacks \<Rightarrow> nat \<Rightarrow> kstack \<Rightarrow> bool" where
  "kstack_check c ps st a h =
    (if \<not> context_ok c \<or> \<not> kstack_valid c st a h then False
     else if ps_query ps (base_of (ks_slot h)) \<noteq> VM_NOT_MAPPED then False
     else let r = kr_records st (unat (ks_slot h)) in
       list_all (\<lambda>i. ps_query ps (page_va (ks_slot h) i) = VM_MAPPED (sr_frames r ! i) True \<and>
           ps_allocated ps (sr_frames r ! i) \<and>
           list_all (\<lambda>j. sr_frames r ! i \<noteq> sr_frames r ! j) [0..<i])
         [0..<KSTACK_PAGES])"

text \<open>The search \<^verbatim>\<open>while (slot < KSTACK_MAX_THREADS && records[slot].owner) ++slot\<close>.\<close>

function first_free :: "kstacks \<Rightarrow> nat \<Rightarrow> nat" where
  "first_free st slot =
    (if slot < KSTACK_MAX_THREADS \<and> sr_owner (kr_records st slot) \<noteq> None
     then first_free st (slot + 1) else slot)"
  by pat_completeness auto
termination
  by (relation "measure (\<lambda>(st, slot). KSTACK_MAX_THREADS - slot)") auto

declare first_free.simps [simp del]

definition zero_page :: "mem \<Rightarrow> u64 \<Rightarrow> mem" where
  "zero_page m va = for_loop 512 (\<lambda>w t. write64 t (va + of_nat w * 8) 0) m"

text \<open>
  The mapping loop: allocate, map, zero. A refused allocation or mapping ends
  it, the frame of a refused mapping being released at once.
\<close>

function map_pages :: "page_services \<Rightarrow> u64 \<Rightarrow> nat \<Rightarrow> u64 list \<Rightarrow> mem \<Rightarrow> (nat \<times> u64 list \<times> mem) outcome" where
  "map_pages ps slot mapped fs m =
    (if mapped < KSTACK_PAGES then
       (case ps_allocate ps mapped of
          None \<Rightarrow> Returns (mapped, fs, m)
        | Some f \<Rightarrow>
            if ps_map ps (page_va slot mapped) f
            then map_pages ps slot (mapped + 1) (fs @ [f]) (zero_page m (page_va slot mapped))
            else if ps_release ps f then Returns (mapped, fs, m)
            else Panics ''rollback_or_ownership'')
     else Returns (mapped, fs, m))"
  by pat_completeness auto
termination
  by (relation "measure (\<lambda>(ps, slot, mapped, fs, m). KSTACK_PAGES - mapped)") auto

declare map_pages.simps [simp del]

text \<open>The rollback loop \<^verbatim>\<open>while (mapped) { --mapped; ... }\<close>: whether both answers were \<open>OK\<close> throughout.\<close>

primrec unmap_back :: "page_services \<Rightarrow> u64 \<Rightarrow> u64 list \<Rightarrow> nat \<Rightarrow> bool" where
  "unmap_back ps slot fs 0 = True"
| "unmap_back ps slot fs (Suc mapped) =
    (if \<not> ps_unmap ps (page_va slot mapped) then False
     else if \<not> ps_release ps (fs ! mapped) then False
     else unmap_back ps slot fs mapped)"

definition kstack_alloc ::
  "cpu_ctx \<Rightarrow> page_services \<Rightarrow> kstacks \<Rightarrow> nat \<Rightarrow> kstack \<Rightarrow> (kstacks \<times> kstack \<times> bool) outcome" where
  "kstack_alloc c ps st a out =
    (if \<not> context_ok c \<or> \<not> ps_space ps \<or> kr_generation st = - 1 then Returns (st, out, False)
     else if list_ex (\<lambda>i. sr_owner (kr_records st i) = Some a) [0..<KSTACK_MAX_THREADS]
     then Returns (st, out, False)
     else if ks_generation out \<noteq> 0 \<or> ks_slot out \<noteq> 0 then Returns (st, out, False)
     else let slot = first_free st 0 in
       if slot = KSTACK_MAX_THREADS then Returns (st, out, False)
       else if list_ex (\<lambda>i. ps_query ps (base_of (of_nat slot) + of_nat i * VM_PAGE_SIZE) \<noteq> VM_NOT_MAPPED)
                 [0..<KSTACK_PAGES + 1]
       then Returns (st, out, False)
       else (case map_pages ps (of_nat slot) 0 [] (kr_mem st) of
          Panics w \<Rightarrow> Panics w
        | Returns (mapped, fs, m) \<Rightarrow>
            if mapped \<noteq> KSTACK_PAGES then
              (if unmap_back ps (of_nat slot) fs mapped then Returns (st\<lparr>kr_mem := m\<rparr>, out, False)
               else Panics ''rollback_or_ownership'')
            else let g = kr_generation st + 1 in
              Returns (st\<lparr>kr_generation := g, kr_mem := m,
                  kr_records := (kr_records st)(slot :=
                    \<lparr>sr_owner = Some a, sr_generation = g, sr_frames = fs\<rparr>)\<rparr>,
                \<lparr>ks_slot = of_nat slot, ks_generation = g\<rparr>, True)))"

text \<open>\<open>rsp\<close> is the stack pointer the inline assembly reads.\<close>

definition kstack_free ::
  "cpu_ctx \<Rightarrow> page_services \<Rightarrow> u64 \<Rightarrow> kstacks \<Rightarrow> nat \<Rightarrow> kstack \<Rightarrow> (kstacks \<times> kstack \<times> bool) outcome" where
  "kstack_free c ps rsp st a h =
    (if \<not> context_ok c \<or> \<not> kstack_check c ps st a h then Returns (st, h, False)
     else let base = base_of (ks_slot h); r = kr_records st (unat (ks_slot h)) in
       if base \<le> rsp \<and> rsp < base + KSTACK_SLOT_SIZE then Returns (st, h, False)
       else if list_all (\<lambda>i. ps_unmap ps (page_va (ks_slot h) i) \<and> ps_release ps (sr_frames r ! i)) [0..<KSTACK_PAGES]
       then Returns (st\<lparr>kr_records := (kr_records st)(unat (ks_slot h) :=
            \<lparr>sr_owner = None, sr_generation = 0, sr_frames = [0, 0, 0, 0]\<rparr>)\<rparr>,
          \<lparr>ks_slot = 0, ks_generation = 0\<rparr>, True)
       else Panics ''rollback_or_ownership'')"

text \<open>The registry at boot: all zero.\<close>

definition kstacks_boot :: "mem \<Rightarrow> kstacks" where
  "kstacks_boot m = \<lparr>kr_records = (\<lambda>_. \<lparr>sr_owner = None, sr_generation = 0, sr_frames = [0, 0, 0, 0]\<rparr>),
    kr_generation = 0, kr_mem = m\<rparr>"

section \<open>Stack regions\<close>

text \<open>All addresses of a slot: its guard page and its payload.\<close>

definition stack_region :: "kstack \<Rightarrow> u64 set" where
  "stack_region h = {x. base_of (ks_slot h) \<le> x \<and> x < base_of (ks_slot h) + KSTACK_SLOT_SIZE}"

lemma unat_base_of:
  assumes "unat slot < 8"
  shows "unat (base_of slot) = 0xffffe00000000000 + unat slot * 20480"
  using assms by (simp add: base_of_def kstack_layout unat_simps)

lemma unat_slot_end:
  assumes "unat slot < 8"
  shows "unat (base_of slot + KSTACK_SLOT_SIZE) = 0xffffe00000000000 + unat slot * 20480 + 20480"
  using assms unat_base_of [OF assms] by (simp add: kstack_layout unat_simps)

lemma stack_region_iff:
  assumes "unat (ks_slot h) < 8"
  shows "x \<in> stack_region h \<longleftrightarrow>
    0xffffe00000000000 + unat (ks_slot h) * 20480 \<le> unat x \<and>
    unat x < 0xffffe00000000000 + unat (ks_slot h) * 20480 + 20480"
  using unat_base_of [OF assms] unat_slot_end [OF assms]
  by (simp add: stack_region_def word_le_nat_alt word_less_nat_alt)

lemma stack_region_disjoint:
  assumes "unat (ks_slot h) < 8" and "unat (ks_slot k) < 8" and "ks_slot h \<noteq> ks_slot k"
  shows "stack_region h \<inter> stack_region k = {}"
proof -
  from assms(3) have "unat (ks_slot h) \<noteq> unat (ks_slot k)"
    using word_unat_eq_iff by blast
  then show ?thesis
    using assms(1,2) by (auto simp: stack_region_iff)
qed

lemma kstack_valid_slot: "kstack_valid c st a h \<Longrightarrow> unat (ks_slot h) < 8"
  by (simp add: kstack_valid_def kstack_layout)

lemma kstack_bounds_valid:
  assumes "kstack_valid c st a h"
  obtains lo hi where "kstack_bounds c st a h = Some (lo, hi)"
    "lo = base_of (ks_slot h) + 4096" "hi = base_of (ks_slot h) + KSTACK_SLOT_SIZE"
    "unat lo = 0xffffe00000000000 + unat (ks_slot h) * 20480 + 4096" "unat hi = unat lo + 16384"
proof
  from assms have if_off: "if_disabled c" by (simp add: kstack_valid_def)
  from kstack_valid_slot [OF assms] have slot: "unat (ks_slot h) < 8" .
  note base = unat_base_of [OF slot]
  show "kstack_bounds c st a h =
      Some (base_of (ks_slot h) + 4096, base_of (ks_slot h) + KSTACK_SLOT_SIZE)"
    using assms if_off by (simp add: kstack_bounds_def kstack_layout)
  show lo: "unat (base_of (ks_slot h) + 4096) = 0xffffe00000000000 + unat (ks_slot h) * 20480 + 4096"
    using base slot by (simp add: unat_simps)
  show "unat (base_of (ks_slot h) + KSTACK_SLOT_SIZE) = unat (base_of (ks_slot h) + 4096) + 16384"
    using slot by (simp add: lo unat_slot_end)
qed simp_all

lemma kstack_bounds_iff: "kstack_bounds c st a h \<noteq> None \<longleftrightarrow> kstack_valid c st a h"
  by (auto simp: kstack_bounds_def kstack_valid_def Let_def)

lemma unat_next_generation: "g \<noteq> - 1 \<Longrightarrow> unat (g + 1 :: u64) = unat g + 1"
proof -
  assume "g \<noteq> - 1"
  then have "unat g \<noteq> unat (- 1 :: u64)" using word_unat_eq_iff by blast
  then have "unat g < 18446744073709551615" using unat_lt_u64 [of g] by (simp del: unat_lt_u64)
  then have "unat g + unat (1 :: u64) < 2 ^ 64" by simp
  then show ?thesis using unat_add_nowrap [of g 1] by simp
qed

section \<open>Allocation and release\<close>

lemma first_free_bound: "slot \<le> 8 \<Longrightarrow> first_free st slot \<le> 8"
  by (induction st slot rule: first_free.induct)
    (subst first_free.simps, auto simp: KSTACK_MAX_THREADS_def)

lemma first_free_free:
  "first_free st slot < 8 \<Longrightarrow> sr_owner (kr_records st (first_free st slot)) = None"
proof (induction st slot rule: first_free.induct)
  case (1 st slot)
  show ?case
  proof (cases "slot < KSTACK_MAX_THREADS \<and> sr_owner (kr_records st slot) \<noteq> None")
    case True
    then have "first_free st slot = first_free st (slot + 1)"
      by (subst first_free.simps) simp
    with 1 True show ?thesis by metis
  next
    case False
    then have "first_free st slot = slot" by (subst first_free.simps) auto
    with False 1(2) show ?thesis by (auto simp: KSTACK_MAX_THREADS_def)
  qed
qed

lemma zero_page_iff:
  assumes "unat va + 4096 \<le> 2 ^ 64"
  shows "zero_page m va x = (if unat va \<le> unat x \<and> unat x < unat va + 4096 then 0 else m x)"
proof -
  have "for_loop n (\<lambda>w t. write64 t (va + of_nat w * 8) 0) m x =
      (if unat va \<le> unat x \<and> unat x < unat va + 8 * n then 0 else m x)" if "n \<le> 512" for n
    using that
  proof (induction n)
    case 0
    then show ?case by auto
  next
    case (Suc n)
    from Suc.prems assms have ad: "unat (va + of_nat n * 8) = unat va + 8 * n"
      by (simp add: unat_simps)
    have "x - (va + of_nat n * 8) < 8 \<longleftrightarrow> unat va + 8 * n \<le> unat x \<and> unat x < unat va + 8 * Suc n"
    proof (cases "va + of_nat n * 8 \<le> x")
      case True
      then have "unat (x - (va + of_nat n * 8)) = unat x - (unat va + 8 * n)"
        using ad by (simp add: unat_sub)
      with True ad show ?thesis by (auto simp: word_less_nat_alt word_le_nat_alt)
    next
      case False
      then have lt: "unat x < unat va + 8 * n" using ad by (simp add: word_le_nat_alt)
      have "\<not> x - (va + of_nat n * 8) < 8"
      proof
        assume small: "x - (va + of_nat n * 8) < 8"
        let ?d = "x - (va + of_nat n * 8)"
        from small have "unat ?d < 8" by (simp add: word_less_nat_alt)
        with ad assms Suc.prems have "unat (?d + (va + of_nat n * 8)) = unat ?d + (unat va + 8 * n)"
          by (subst unat_add_nowrap) auto
        with lt show False by simp
      qed
      with lt show ?thesis by simp
    qed
    with Suc show ?case by (auto simp: write64_def)
  qed
  from this [of 512] show ?thesis by (simp add: zero_page_def)
qed

lemma unat_page_va:
  assumes "unat slot < 8" and "i < 4"
  shows "unat (page_va slot i) = 0xffffe00000000000 + unat slot * 20480 + 4096 + i * 4096"
proof -
  have "unat ((of_nat i + 1) * 4096 :: u64) = (i + 1) * 4096"
    using assms(2) by (simp add: unat_simps)
  then show ?thesis
    using assms unat_base_of [OF assms(1)] by (simp add: page_va_def VM_PAGE_SIZE_def unat_simps)
qed

lemma map_pages_result:
  "map_pages ps slot k fs m = Returns (n, fs', m') \<Longrightarrow> unat slot < 8 \<Longrightarrow> k \<le> 4 \<Longrightarrow> length fs = k \<Longrightarrow>
    k \<le> n \<and> n \<le> 4 \<and> length fs' = n \<and> take k fs' = fs \<and>
    (\<forall>i. k \<le> i \<and> i < n \<longrightarrow> ps_allocate ps i = Some (fs' ! i) \<and> ps_map ps (page_va slot i) (fs' ! i)) \<and>
    (\<forall>x. m' x = (if unat (page_va slot 0) + k * 4096 \<le> unat x \<and> unat x < unat (page_va slot 0) + n * 4096
              then 0 else m x))"
proof (induction ps slot k fs m rule: map_pages.induct)
  case (1 ps slot k fs m)
  show ?case
  proof (cases "k < 4 \<and> (\<exists>f. ps_allocate ps k = Some f \<and> ps_map ps (page_va slot k) f)")
    case False
    with 1(2) have "n = k \<and> fs' = fs \<and> m' = m"
      by (subst (asm) map_pages.simps) (auto simp: KSTACK_PAGES_def split: option.splits if_splits)
    with 1(4,5) show ?thesis by auto
  next
    case True
    then obtain f where k: "k < 4" and f: "ps_allocate ps k = Some f" "ps_map ps (page_va slot k) f"
      by blast
    let ?m = "zero_page m (page_va slot k)"
    from 1(2) k f have "map_pages ps slot (k + 1) (fs @ [f]) ?m = Returns (n, fs', m')"
      by (subst (asm) map_pages.simps) (simp add: KSTACK_PAGES_def)
    from 1(1) [OF _ f this 1(3)] k 1(5)
    have ih: "Suc k \<le> n" "n \<le> 4" "length fs' = n" "take (Suc k) fs' = fs @ [f]"
      "\<forall>i. Suc k \<le> i \<and> i < n \<longrightarrow> ps_allocate ps i = Some (fs' ! i) \<and> ps_map ps (page_va slot i) (fs' ! i)"
      "\<forall>x. m' x = (if unat (page_va slot 0) + Suc k * 4096 \<le> unat x \<and>
            unat x < unat (page_va slot 0) + n * 4096 then 0 else ?m x)"
      by (simp_all add: KSTACK_PAGES_def)
    have "fs' ! k = (fs @ [f]) ! k" unfolding ih(4) [symmetric] by simp
    then have fk: "fs' ! k = f" using 1(5) by (simp add: nth_append)
    have tk: "take k fs' = fs"
      using arg_cong [OF ih(4), of "take k"] 1(5) by (simp add: min_def)
    have va: "unat (page_va slot k) = unat (page_va slot 0) + k * 4096"
      using 1(3) k by (simp add: unat_page_va)
    have "unat (page_va slot k) + 4096 \<le> 2 ^ 64"
      using 1(3) k by (simp add: unat_page_va)
    then have z: "?m x = (if unat (page_va slot 0) + k * 4096 \<le> unat x \<and>
        unat x < unat (page_va slot 0) + k * 4096 + 4096 then 0 else m x)" for x
      by (simp add: zero_page_iff va)
    have "\<forall>x. m' x = (if unat (page_va slot 0) + k * 4096 \<le> unat x \<and>
        unat x < unat (page_va slot 0) + n * 4096 then 0 else m x)"
      using ih(1,6) z by (auto split: if_splits)
    moreover have "\<forall>i. k \<le> i \<and> i < n \<longrightarrow>
        ps_allocate ps i = Some (fs' ! i) \<and> ps_map ps (page_va slot i) (fs' ! i)"
      using ih(5) f fk by (metis Suc_leI le_neq_implies_less)
    ultimately show ?thesis using ih(1-3) tk by simp
  qed
qed

lemma map_pages_returns:
  assumes "\<forall>f. ps_release ps f"
  shows "\<exists>r. map_pages ps slot k fs m = Returns r"
  using assms
proof (induction ps slot k fs m rule: map_pages.induct)
  case (1 ps slot k fs m)
  then show ?case
    by (subst map_pages.simps) (auto split: option.split)
qed

lemma unmap_back_ok: "\<forall>f. ps_release ps f \<Longrightarrow> \<forall>v. ps_unmap ps v \<Longrightarrow> unmap_back ps slot fs n"
  by (induction n) auto

text \<open>
  What a call can do: refuse with the registry as it was, or hand out the
  first free slot, all its pages mapped and zeroed, under a fresh generation.
\<close>

lemma kstack_alloc_cases:
  assumes "kstack_alloc c ps st a out = Returns (st', h, b)"
  obtains (refused) "\<not> b" "h = out" "kr_records st' = kr_records st" "kr_generation st' = kr_generation st"
  | (granted) slot fs where "b" "slot < 8" "sr_owner (kr_records st slot) = None"
      "context_ok c" "kr_generation st \<noteq> - 1" "length fs = 4"
      "kr_records st' = (kr_records st)(slot :=
         \<lparr>sr_owner = Some a, sr_generation = kr_generation st + 1, sr_frames = fs\<rparr>)"
      "kr_generation st' = kr_generation st + 1"
      "h = \<lparr>ks_slot = of_nat slot, ks_generation = kr_generation st + 1\<rparr>"
      "ps_query ps (base_of (of_nat slot)) = VM_NOT_MAPPED"
      "\<forall>i<4. ps_allocate ps i = Some (fs ! i) \<and> ps_map ps (page_va (of_nat slot) i) (fs ! i)"
      "\<forall>x. kr_mem st' x = (if unat (page_va (of_nat slot) 0) \<le> unat x \<and>
         unat x < unat (page_va (of_nat slot) 0) + 16384 then 0 else kr_mem st x)"
proof (cases b)
  case False
  with assms show ?thesis
    by (intro refused) (auto simp: kstack_alloc_def Let_def split: if_splits outcome.splits prod.splits)
next
  case True
  let ?slot = "first_free st 0"
  from assms True have gates: "context_ok c" "kr_generation st \<noteq> - 1" "?slot \<noteq> 8"
    and absent: "\<not> list_ex (\<lambda>i. ps_query ps (base_of (of_nat ?slot) + of_nat i * VM_PAGE_SIZE) \<noteq> VM_NOT_MAPPED)
                 [0..<KSTACK_PAGES + 1]"
    by (auto simp: kstack_alloc_def Let_def KSTACK_MAX_THREADS_def split: if_splits outcome.splits prod.splits)
  from assms True obtain fs m where mp: "map_pages ps (of_nat ?slot) 0 [] (kr_mem st) = Returns (4, fs, m)"
    and st': "st' = st\<lparr>kr_generation := kr_generation st + 1, kr_mem := m, kr_records := (kr_records st)(?slot :=
         \<lparr>sr_owner = Some a, sr_generation = kr_generation st + 1, sr_frames = fs\<rparr>)\<rparr>"
    and h: "h = \<lparr>ks_slot = of_nat ?slot, ks_generation = kr_generation st + 1\<rparr>"
    by (auto simp: kstack_alloc_def Let_def KSTACK_PAGES_def split: if_splits outcome.splits prod.splits)
  from first_free_bound [of 0 st] gates(3) have slot: "?slot < 8" by simp
  then have word_slot: "unat (of_nat ?slot :: u64) < 8" by (simp add: unat_simps)
  from map_pages_result [OF mp word_slot]
  have r: "length fs = 4"
    "\<forall>i<4. ps_allocate ps i = Some (fs ! i) \<and> ps_map ps (page_va (of_nat ?slot) i) (fs ! i)"
    "\<forall>x. m x = (if unat (page_va (of_nat ?slot) 0) \<le> unat x \<and>
         unat x < unat (page_va (of_nat ?slot) 0) + 16384 then 0 else kr_mem st x)"
    by simp_all
  have guard: "ps_query ps (base_of (of_nat ?slot)) = VM_NOT_MAPPED"
    using absent by (auto simp: list_ex_iff KSTACK_PAGES_def dest: bspec [of _ _ 0])
  from True slot first_free_free [OF slot] gates(1,2) r guard show ?thesis
    by (intro granted [of ?slot fs]) (simp_all add: st' h)
qed

lemma kstack_alloc_returns:
  assumes "\<forall>f. ps_release ps f" and "\<forall>v. ps_unmap ps v"
  shows "\<exists>r. kstack_alloc c ps st a out = Returns r"
proof -
  obtain r where "map_pages ps (of_nat (first_free st 0)) 0 [] (kr_mem st) = Returns r"
    using map_pages_returns [OF assms(1)] by blast
  then show ?thesis
    using unmap_back_ok [OF assms] by (cases r) (auto simp: kstack_alloc_def Let_def)
qed

lemma kstack_free_cases:
  assumes "kstack_free c ps rsp st a h = Returns (st', h', b)"
  obtains (refused) "\<not> b" "h' = h" "st' = st"
  | (freed) "b" "kstack_valid c st a h" "h' = \<lparr>ks_slot = 0, ks_generation = 0\<rparr>" "rsp \<notin> stack_region h"
      "st' = st\<lparr>kr_records := (kr_records st)(unat (ks_slot h) :=
            \<lparr>sr_owner = None, sr_generation = 0, sr_frames = [0, 0, 0, 0]\<rparr>)\<rparr>"
proof (cases b)
  case False
  with assms show ?thesis
    by (intro refused) (auto simp: kstack_free_def Let_def split: if_splits)
next
  case True
  with assms show ?thesis
    by (intro freed) (auto simp: kstack_free_def Let_def kstack_check_def stack_region_def split: if_splits)
qed

lemma kstack_free_frees:
  assumes "kstack_check c ps st a h" and "rsp \<notin> stack_region h"
    and "\<forall>f. ps_release ps f" and "\<forall>v. ps_unmap ps v"
  shows "kstack_free c ps rsp st a h =
    Returns (st\<lparr>kr_records := (kr_records st)(unat (ks_slot h) :=
            \<lparr>sr_owner = None, sr_generation = 0, sr_frames = [0, 0, 0, 0]\<rparr>)\<rparr>,
       \<lparr>ks_slot = 0, ks_generation = 0\<rparr>, True)"
proof -
  from assms(1) have "context_ok c" by (simp add: kstack_check_def split: if_splits)
  with assms show ?thesis
    by (auto simp: kstack_free_def Let_def stack_region_def list_all_iff)
qed

lemma kstack_valid_exclusive:
  assumes "kstack_valid c st a h" and "kstack_valid c' st b k" and "a \<noteq> b"
  shows "stack_region h \<inter> stack_region k = {}"
proof (rule stack_region_disjoint)
  show "unat (ks_slot h) < 8" "unat (ks_slot k) < 8"
    using assms kstack_valid_slot by blast+
  show "ks_slot h \<noteq> ks_slot k" using assms by (auto simp: kstack_valid_def)
qed

lemma kstack_valid_update:
  assumes "kstack_valid c st b k" and "kr_records st' = (kr_records st)(slot := r)"
    and "sr_owner (kr_records st slot) \<noteq> Some b"
  shows "kstack_valid c st' b k"
  using assms by (auto simp: kstack_valid_def)

text \<open>
  The contract the scheduler relies on: an owner's region is its own, a granted
  stack is owned, and neither granting nor releasing one disturbs another owner.
\<close>

locale stack_pool =
  fixes owns :: "'s \<Rightarrow> nat \<Rightarrow> 'h \<Rightarrow> bool"
    and region :: "'h \<Rightarrow> u64 set"
    and granted :: "'s \<Rightarrow> nat \<Rightarrow> 's \<Rightarrow> 'h \<Rightarrow> bool"
    and released :: "'s \<Rightarrow> nat \<Rightarrow> 'h \<Rightarrow> 's \<Rightarrow> bool"
  assumes exclusive: "owns s a h \<Longrightarrow> owns s b k \<Longrightarrow> a \<noteq> b \<Longrightarrow> region h \<inter> region k = {}"
    and granted_owns: "granted s a s' h \<Longrightarrow> owns s' a h"
    and granted_keeps: "granted s a s' h \<Longrightarrow> owns s b k \<Longrightarrow> owns s' b k"
    and released_keeps: "released s a h s' \<Longrightarrow> owns s b k \<Longrightarrow> a \<noteq> b \<Longrightarrow> owns s' b k"
    and released_gone: "released s a h s' \<Longrightarrow> \<not> owns s' b h"
begin

lemma granted_separate:
  assumes "granted s a s' h" and "owns s b k" and "a \<noteq> b"
  shows "region h \<inter> region k = {}"
  using assms exclusive [OF granted_owns granted_keeps] by blast

lemma outside:
  assumes "owns s a h" and "owns s b k" and "a \<noteq> b" and "x \<in> region h"
  shows "x \<notin> region k"
  using assms exclusive by blast

lemma release_grant_keeps:
  assumes "released s a h s'" and "granted s' b s'' g" and "owns s d k" and "a \<noteq> d"
  shows "owns s'' d k"
  using assms granted_keeps released_keeps by blast

end

definition stack_granted :: "cpu_ctx \<Rightarrow> kstacks \<Rightarrow> nat \<Rightarrow> kstacks \<Rightarrow> kstack \<Rightarrow> bool" where
  "stack_granted c st a st' h \<longleftrightarrow> (\<exists>ps out. kstack_alloc c ps st a out = Returns (st', h, True))"

definition stack_released :: "cpu_ctx \<Rightarrow> kstacks \<Rightarrow> nat \<Rightarrow> kstack \<Rightarrow> kstacks \<Rightarrow> bool" where
  "stack_released c st a h st' \<longleftrightarrow> (\<exists>ps rsp h'. kstack_free c ps rsp st a h = Returns (st', h', True))"

lemma kstack_alloc_valid:
  assumes "kstack_alloc c ps st a out = Returns (st', h, True)"
  shows "kstack_valid c st' a h"
  using assms
proof (cases rule: kstack_alloc_cases)
  case (granted slot fs)
  have "kr_generation st + 1 \<noteq> 0"
    using unat_next_generation [OF granted(5)] by auto
  with granted show ?thesis
    by (simp add: kstack_valid_def kstack_layout context_ok_def unat_simps)
qed simp

lemma kstack_alloc_keeps:
  assumes "kstack_alloc c ps st a out = Returns (st', h, r)" and "kstack_valid c' st b k"
  shows "kstack_valid c' st' b k"
  using assms(1)
proof (cases rule: kstack_alloc_cases)
  case refused
  with assms(2) show ?thesis by (simp add: kstack_valid_def)
next
  case (granted slot fs)
  from kstack_valid_update [OF assms(2) granted(7)] granted(3) show ?thesis by simp
qed

lemma kstack_free_keeps:
  assumes "kstack_free c ps rsp st a h = Returns (st', h', r)" and "kstack_valid c' st b k" and "a \<noteq> b"
  shows "kstack_valid c' st' b k"
  using assms(1)
proof (cases rule: kstack_free_cases)
  case refused
  with assms(2) show ?thesis by simp
next
  case freed
  then have "sr_owner (kr_records st (unat (ks_slot h))) \<noteq> Some b"
    using assms(3) by (simp add: kstack_valid_def)
  with kstack_valid_update [OF assms(2)] freed(5) show ?thesis by simp
qed

interpretation kp: stack_pool "kstack_valid c" stack_region "stack_granted c" "stack_released c"
  for c
proof
  show "stack_region h \<inter> stack_region k = {}"
    if "kstack_valid c s a h" "kstack_valid c s b k" "a \<noteq> b" for s a h b k
    using that by (rule kstack_valid_exclusive)
  show "kstack_valid c s' a h" if "stack_granted c s a s' h" for s a s' h
    using that kstack_alloc_valid by (auto simp: stack_granted_def)
  show "kstack_valid c s' b k" if "stack_granted c s a s' h" "kstack_valid c s b k" for s a s' h b k
    using that kstack_alloc_keeps by (auto simp: stack_granted_def)
  show "kstack_valid c s' b k" if "stack_released c s a h s'" "kstack_valid c s b k" "a \<noteq> b" for s a h s' b k
    using that kstack_free_keeps by (auto simp: stack_released_def)
  show "\<not> kstack_valid c s' b h" if "stack_released c s a h s'" for s a h s' b
    using that by (auto simp: stack_released_def kstack_valid_def elim!: kstack_free_cases)
qed

section \<open>Histories of the registry\<close>

text \<open>Any call that returns, in any context and with any answers of the page services.\<close>

inductive kstack_step :: "kstacks \<Rightarrow> kstacks \<Rightarrow> bool" where
  alloc: "kstack_alloc c ps st a out = Returns (st', h, b) \<Longrightarrow> kstack_step st st'"
| release: "kstack_free c ps rsp st a h = Returns (st', h', b) \<Longrightarrow> kstack_step st st'"

text \<open>No generation is ahead of the counter, and the counter never goes back.\<close>

definition generations_ok :: "kstacks \<Rightarrow> bool" where
  "generations_ok st \<longleftrightarrow> (\<forall>slot. unat (sr_generation (kr_records st slot)) \<le> unat (kr_generation st))"

lemma kstack_step_generations:
  assumes "kstack_step st st'"
  shows "unat (kr_generation st) \<le> unat (kr_generation st') \<and>
    (\<forall>slot. kr_records st' slot = kr_records st slot \<or> sr_owner (kr_records st' slot) = None \<and>
         sr_generation (kr_records st' slot) = 0 \<or>
       unat (sr_generation (kr_records st' slot)) = unat (kr_generation st) + 1 \<and>
         kr_generation st' = sr_generation (kr_records st' slot))"
  using assms
proof cases
  case (alloc c ps a out h b)
  then show ?thesis
    by (cases rule: kstack_alloc_cases) (auto simp: unat_next_generation)
next
  case (release c ps rsp a h h' b)
  then show ?thesis
    by (cases rule: kstack_free_cases) auto
qed

lemma kstack_step_ok: "kstack_step st st' \<Longrightarrow> generations_ok st \<Longrightarrow> generations_ok st'"
  unfolding generations_ok_def
proof
  fix slot
  assume step: "kstack_step st st'"
    and ok: "\<forall>slot. unat (sr_generation (kr_records st slot)) \<le> unat (kr_generation st)"
  from kstack_step_generations [OF step] ok [rule_format, of slot]
  show "unat (sr_generation (kr_records st' slot)) \<le> unat (kr_generation st')"
    by (auto dest!: spec [of _ slot])
qed

lemma kstack_reach_ok:
  "kstack_step\<^sup>*\<^sup>* (kstacks_boot m) st \<Longrightarrow> generations_ok st"
proof (induction rule: rtranclp_induct)
  case base
  then show ?case by (simp add: generations_ok_def kstacks_boot_def)
next
  case (step st st')
  then show ?case using kstack_step_ok by blast
qed

text \<open>A handle whose generation is spent and not in its record stays so.\<close>

lemma kstack_spent:
  assumes "kstack_step\<^sup>*\<^sup>* st st'"
    and "g \<noteq> 0" and "sr_generation (kr_records st slot) \<noteq> g" and "unat g \<le> unat (kr_generation st)"
  shows "sr_generation (kr_records st' slot) \<noteq> g \<and> unat g \<le> unat (kr_generation st')"
  using assms(1)
proof (induction rule: rtranclp_induct)
  case base
  with assms show ?case by simp
next
  case (step y z)
  from kstack_step_generations [OF step(2)] step(3) assms(2) show ?case
    by (auto dest!: spec [of _ slot])
qed

section \<open>Properties\<close>

text \<open>
  C32: a granted stack is exclusively the caller's. The handle owns it, and its
  sixteen payload kilobytes sit above a guard page that is not mapped; every
  payload byte is zero and no byte outside the payload has changed; its
  region, guard included, is disjoint from the region of every stack owned
  before, all of which stay owned; and its generation is one never used before.
\<close>

theorem kstack_alloc_exclusive:
  assumes "kstack_alloc c ps st a out = Returns (st', h, True)"
  shows "\<exists>lo hi. kstack_valid c st' a h \<and> kstack_bounds c st' a h = Some (lo, hi) \<and>
    unat hi = unat lo + 16384 \<and> ps_query ps (lo - 4096) = VM_NOT_MAPPED \<and>
    (\<forall>x. kr_mem st' x = (if unat lo \<le> unat x \<and> unat x < unat hi then 0 else kr_mem st x)) \<and>
    (\<forall>b k. kstack_valid c st b k \<and> b \<noteq> a \<longrightarrow>
       kstack_valid c st' b k \<and> stack_region h \<inter> stack_region k = {}) \<and>
    unat (ks_generation h) = unat (kr_generation st) + 1"
proof -
  have gr: "stack_granted c st a st' h"
    using assms by (auto simp: stack_granted_def)
  from kp.granted_owns [OF gr] have v: "kstack_valid c st' a h" .
  obtain lo hi where b: "kstack_bounds c st' a h = Some (lo, hi)"
    "lo = base_of (ks_slot h) + 4096" "hi = base_of (ks_slot h) + KSTACK_SLOT_SIZE"
    "unat lo = 0xffffe00000000000 + unat (ks_slot h) * 20480 + 4096" "unat hi = unat lo + 16384"
    using kstack_bounds_valid [OF v] by blast
  have others: "kstack_valid c st' bb k \<and> stack_region h \<inter> stack_region k = {}"
    if "kstack_valid c st bb k" "bb \<noteq> a" for bb k
    using that kp.granted_separate [OF gr] kp.granted_keeps [OF gr] by blast
  from assms show ?thesis
  proof (cases rule: kstack_alloc_cases)
    case (granted slot fs)
    have lo: "unat (page_va (of_nat slot) 0) = unat lo"
      using b(4) granted(2,9) by (simp add: unat_page_va unat_simps)
    have guard: "ps_query ps (lo - 4096) = VM_NOT_MAPPED" using granted(9,10) b(2) by simp
    have gen: "unat (ks_generation h) = unat (kr_generation st) + 1"
      using granted(5,9) by (simp add: unat_next_generation)
    have "kr_mem st' x = (if unat lo \<le> unat x \<and> unat x < unat hi then 0 else kr_mem st x)" for x
      using granted(12) lo b(5) by simp
    with v b(1,5) guard gen others show ?thesis by blast
  qed simp
qed

text \<open>
  Page services that hand out the frames 1 to 4 MiB, and the state after one
  allocation on a fresh registry.
\<close>

definition demo_services :: "bool \<Rightarrow> page_services" where
  "demo_services present = \<lparr>ps_space = True,
    ps_query = (\<lambda>v. if present \<and> base_of 0 < v then VM_MAPPED ((v - base_of 0) * 256) True else VM_NOT_MAPPED),
    ps_allocate = (\<lambda>n. Some ((of_nat n + 1) * 1048576)), ps_map = (\<lambda>_ _. True), ps_unmap = (\<lambda>_. True),
    ps_release = (\<lambda>_. True), ps_allocated = (\<lambda>_. True)\<rparr>"

definition kernel_ctx :: cpu_ctx where
  "kernel_ctx = \<lparr>if_disabled = True, in_irq = False\<rparr>"

definition demo_stacks :: kstacks where
  "demo_stacks = \<lparr>kr_records = (\<lambda>_. \<lparr>sr_owner = None, sr_generation = 0, sr_frames = [0, 0, 0, 0]\<rparr>)(0 :=
      \<lparr>sr_owner = Some 1, sr_generation = 1, sr_frames = [1048576, 2097152, 3145728, 4194304]\<rparr>),
    kr_generation = 1,
    kr_mem = zero_page (zero_page (zero_page (zero_page (\<lambda>_. 7) (page_va 0 0)) (page_va 0 1)) (page_va 0 2)) (page_va 0 3)\<rparr>"

lemma demo_alloc:
  "kstack_alloc kernel_ctx (demo_services False) (kstacks_boot (\<lambda>_. 7)) 1 \<lparr>ks_slot = 0, ks_generation = 0\<rparr> =
    Returns (demo_stacks, \<lparr>ks_slot = 0, ks_generation = 1\<rparr>, True)"
proof -
  have f: "first_free (kstacks_boot (\<lambda>_. 7)) 0 = 0"
    by (subst first_free.simps) (simp add: kstacks_boot_def)
  have "map_pages (demo_services False) 0 0 [] (\<lambda>_. 7) =
      Returns (4, [1048576, 2097152, 3145728, 4194304], kr_mem demo_stacks)"
    by (simp add: map_pages.simps demo_services_def KSTACK_PAGES_def demo_stacks_def
        numeral_2_eq_2 numeral_3_eq_3)
  with f show ?thesis
    by (simp add: kstack_alloc_def kernel_ctx_def context_ok_def Let_def kstacks_boot_def
        kstack_layout demo_services_def demo_stacks_def list_ex_iff)
qed

theorem kstack_alloc_exclusive_witness:
  "kstack_valid kernel_ctx demo_stacks 1 \<lparr>ks_slot = 0, ks_generation = 1\<rparr>"
  using kstack_alloc_exclusive [OF demo_alloc] by blast

text \<open>
  C33: a released handle is dead for good. Once \<^verbatim>\<open>kstack_free\<close> has released a
  stack, no sequence of later calls, whatever slots they reuse, makes that
  handle (or a copy of it, under any owner) valid again.
\<close>

theorem kstack_stale_never_valid:
  assumes "kstack_step\<^sup>*\<^sup>* (kstacks_boot m) st"
    and "kstack_free c ps rsp st a h = Returns (st', h', True)"
    and "kstack_step\<^sup>*\<^sup>* st' st''"
  shows "\<not> kstack_valid c' st'' b h"
  using assms(2)
proof (cases rule: kstack_free_cases)
  case freed
  have g: "ks_generation h \<noteq> 0" "unat (ks_generation h) \<le> unat (kr_generation st)"
    using freed(2) kstack_reach_ok [OF assms(1)]
    by (auto simp: kstack_valid_def generations_ok_def dest: spec [of _ "unat (ks_slot h)"])
  with kstack_spent [OF assms(3) g(1), of "unat (ks_slot h)"] freed(5) show ?thesis
    by (simp add: kstack_valid_def)
qed simp

lemma demo_free:
  "kstack_free kernel_ctx (demo_services True) 0x200000 demo_stacks 1 \<lparr>ks_slot = 0, ks_generation = 1\<rparr> =
    Returns (demo_stacks\<lparr>kr_records := (kr_records demo_stacks)(0 :=
            \<lparr>sr_owner = None, sr_generation = 0, sr_frames = [0, 0, 0, 0]\<rparr>)\<rparr>, \<lparr>ks_slot = 0, ks_generation = 0\<rparr>, True)"
proof -
  have "[0..<4] = [0, 1, 2, 3 :: nat]" "[0..<3] = [0, 1, 2 :: nat]" "[0..<2] = [0, 1 :: nat]"
    by (simp_all add: upt_rec)
  then show ?thesis
    by (simp add: kstack_free_def kstack_check_def kstack_valid_def kernel_ctx_def context_ok_def
        demo_stacks_def demo_services_def base_of_def page_va_def kstack_layout Let_def)
qed

theorem kstack_stale_never_valid_witness:
  "\<not> kstack_valid kernel_ctx (demo_stacks\<lparr>kr_records := (kr_records demo_stacks)(0 :=
            \<lparr>sr_owner = None, sr_generation = 0, sr_frames = [0, 0, 0, 0]\<rparr>)\<rparr>) 1 \<lparr>ks_slot = 0, ks_generation = 1\<rparr>"
  by (rule kstack_stale_never_valid [OF r_into_rtranclp [of kstack_step, OF kstack_step.alloc [OF demo_alloc]] demo_free])
    simp

end
