(* ===== verification/Sched.thy ===== *)
theory Sched
  imports Kstack
begin

text \<open>
  The scheduler (\<^verbatim>\<open>src/kernel/core/thread.c\<close>): eight thread slots, the bootstrap
  thread in slot 0, round-robin selection by yield, exit and timer tick, joins,
  the link of a thread to a user context, interrupt masking and spinlocks.

  \<^verbatim>\<open>current\<close> is a slot number; 8 stands for the null pointer it is before
  initialization. The linker's symbols and the address of the entry trampoline
  are the fields of an environment record. What \<^verbatim>\<open>user.c\<close> answers on a tick from
  user mode is a record of answers; its effects on the user context belong to
  that file and are not part of this state. A frame pointer is either the
  interrupted frame or the saved frame of a slot.
\<close>

section \<open>Data\<close>

definition SCHED_THREADS :: nat where
  "SCHED_THREADS = 8"

record exception_frame =
  ef_r15 :: u64 ef_r14 :: u64 ef_r13 :: u64 ef_r12 :: u64
  ef_r11 :: u64 ef_r10 :: u64 ef_r9 :: u64 ef_r8 :: u64
  ef_rdi :: u64 ef_rsi :: u64 ef_rbp :: u64 ef_rdx :: u64 ef_rcx :: u64 ef_rbx :: u64 ef_rax :: u64
  ef_vector :: u64 ef_error :: u64
  ef_rip :: u64 ef_cs :: u64 ef_rflags :: u64 ef_rsp :: u64 ef_ss :: u64

definition frame_zero :: exception_frame where
  "frame_zero = \<lparr>ef_r15 = 0, ef_r14 = 0, ef_r13 = 0, ef_r12 = 0, ef_r11 = 0, ef_r10 = 0, ef_r9 = 0, ef_r8 = 0,
    ef_rdi = 0, ef_rsi = 0, ef_rbp = 0, ef_rdx = 0, ef_rcx = 0, ef_rbx = 0, ef_rax = 0,
    ef_vector = 0, ef_error = 0, ef_rip = 0, ef_cs = 0, ef_rflags = 0, ef_rsp = 0, ef_ss = 0\<rparr>"

definition frame_size :: u64 where
  "frame_size = 176"

definition CPU_CODE_SELECTOR :: u64 where
  "CPU_CODE_SELECTOR = 0x08"

definition CPU_DATA_SELECTOR :: u64 where
  "CPU_DATA_SELECTOR = 0x10"

definition IRQ_BASE :: u64 where
  "IRQ_BASE = 32"

definition USER_RUN_EXITED :: u64 where
  "USER_RUN_EXITED = 1"

definition USER_RUN_PREEMPTED :: u64 where
  "USER_RUN_PREEMPTED = 3"

definition USER_RUN_UNLINK :: u64 where
  "USER_RUN_UNLINK = 16"

datatype thread_state = THREAD_FREE | THREAD_READY | THREAD_RUNNING | THREAD_EXITED

record thread_statistics =
  ts_preemptions :: u64
  ts_dispatches :: u64
  ts_irq_rsp :: u64
  ts_irq_rip :: u64

record thread =
  th_id :: u64
  th_state :: thread_state
  th_saved :: exception_frame
  th_stack :: kstack
  th_entry :: u64
  th_arg :: u64
  th_statistics :: thread_statistics
  th_user :: "nat option"

definition thread_zero :: thread where
  "thread_zero = \<lparr>th_id = 0, th_state = THREAD_FREE, th_saved = frame_zero,
    th_stack = \<lparr>ks_slot = 0, ks_generation = 0\<rparr>, th_entry = 0, th_arg = 0,
    th_statistics = \<lparr>ts_preemptions = 0, ts_dispatches = 0, ts_irq_rsp = 0, ts_irq_rip = 0\<rparr>, th_user = None\<rparr>"

text \<open>The fields of \<^verbatim>\<open>struct user_link\<close>, and those of \<^verbatim>\<open>struct user_context\<close> that the scheduler reads.\<close>

datatype user_state = USER_FREE | USER_ACTIVE | USER_EXITED | USER_FAULTED | USER_ABORTED

record user_link =
  ul_context :: "nat option"
  ul_kern_save :: exception_frame
  ul_bound :: bool

record user_context =
  uc_link :: nat
  uc_state :: user_state
  uc_root :: u64
  uc_identity :: bool
  uc_loaded :: bool

record spinlock =
  sl_owner :: u64
  sl_identity :: u64

record sched =
  sd_threads :: "nat \<Rightarrow> thread"
  sd_current :: nat
  sd_next_id :: u64
  sd_initialized :: bool
  sd_ticks :: u64
  sd_switches :: u64
  sd_held_locks :: u32
  sd_cpl3_parks :: u64
  sd_stacks :: kstacks
  sd_links :: "nat \<Rightarrow> user_link"
  sd_contexts :: "nat \<Rightarrow> user_context"
  sd_locks :: "u64 \<Rightarrow> spinlock"

record sched_env =
  en_text_start :: u64
  en_text_end :: u64
  en_stack_start :: u64
  en_stack_end :: u64
  en_trampoline :: u64

datatype frame_ref = Interrupted | Saved nat | Elsewhere

section \<open>Checks and selection\<close>

definition require_ok :: "bool \<Rightarrow> string \<Rightarrow> 'a outcome \<Rightarrow> 'a outcome" where
  "require_ok ok why k = (if ok then k else Panics why)"

primrec and_then :: "'a outcome \<Rightarrow> ('a \<Rightarrow> 'b outcome) \<Rightarrow> 'b outcome" where
  "and_then (Returns x) f = f x"
| "and_then (Panics w) f = Panics w"

definition executable :: "sched_env \<Rightarrow> u64 \<Rightarrow> bool" where
  "executable e rip \<longleftrightarrow> en_text_start e \<le> rip \<and> rip < en_text_end e"

definition bounds :: "sched_env \<Rightarrow> cpu_ctx \<Rightarrow> sched \<Rightarrow> nat \<Rightarrow> (u64 \<times> u64) option" where
  "bounds e c s i =
    (if i = 0 then Some (en_stack_start e, en_stack_end e)
     else kstack_bounds c (sd_stacks s) i (th_stack (sd_threads s i)))"

definition frame_valid :: "sched_env \<Rightarrow> cpu_ctx \<Rightarrow> sched \<Rightarrow> nat \<Rightarrow> exception_frame \<Rightarrow> bool" where
  "frame_valid e c s i f =
    (case bounds e c s i of
       None \<Rightarrow> False
     | Some (lo, hi) \<Rightarrow>
         lo + frame_size \<le> ef_rsp f \<and> ef_rsp f < hi \<and> executable e (ef_rip f) \<and>
         ef_cs f = CPU_CODE_SELECTOR \<and> ef_ss f = CPU_DATA_SELECTOR \<and>
         ef_rflags f AND 2 \<noteq> 0 \<and> ef_rflags f AND NOT 0x10ed7 = 0 \<and>
         ef_error f = 0 \<and> (ef_vector f = 0 \<or> IRQ_BASE \<le> ef_vector f \<and> ef_vector f < 128))"

text \<open>One round of the loop of \<^verbatim>\<open>scheduler_check\<close>.\<close>

definition slot_check :: "sched_env \<Rightarrow> cpu_ctx \<Rightarrow> sched \<Rightarrow> nat \<Rightarrow> bool" where
  "slot_check e c s i =
    (let t = sd_threads s i in
     (case th_user t of None \<Rightarrow> True
      | Some l \<Rightarrow> ul_bound (sd_links s l) \<and> ul_context (sd_links s l) \<noteq> None) \<and>
     (if th_state t = THREAD_FREE then th_id t = 0 \<and> ks_generation (th_stack t) = 0
      else th_id t \<noteq> 0 \<and> th_id t < sd_next_id s \<and>
        (i = 0 \<or> kstack_valid c (sd_stacks s) i (th_stack t) \<and> executable e (th_entry t)) \<and>
        list_all (\<lambda>j. th_state (sd_threads s j) = THREAD_FREE \<or> th_id t \<noteq> th_id (sd_threads s j)) [0..<i] \<and>
        (th_state t = THREAD_RUNNING \<longrightarrow> i = sd_current s) \<and>
        (th_state t = THREAD_READY \<longrightarrow> frame_valid e c s i (th_saved t))))"

definition scheduler_check :: "sched_env \<Rightarrow> cpu_ctx \<Rightarrow> sched \<Rightarrow> bool" where
  "scheduler_check e c s =
    (if \<not> if_disabled c \<or> \<not> sd_initialized s then False
     else list_all (slot_check e c s) [0..<SCHED_THREADS] \<and>
       sd_current s < SCHED_THREADS \<and>
       length (filter (\<lambda>i. th_state (sd_threads s i) = THREAD_RUNNING) [0..<SCHED_THREADS]) = 1 \<and>
       th_state (sd_threads s (sd_current s)) = THREAD_RUNNING \<and>
       th_state (sd_threads s 0) \<noteq> THREAD_FREE \<and> th_state (sd_threads s 0) \<noteq> THREAD_EXITED)"

definition check :: "sched_env \<Rightarrow> cpu_ctx \<Rightarrow> sched \<Rightarrow> 'a outcome \<Rightarrow> 'a outcome" where
  "check e c s k = require_ok (scheduler_check e c s) ''state_or_context'' k"

definition find_thread :: "sched \<Rightarrow> u64 \<Rightarrow> nat option" where
  "find_thread s tid =
    (if tid = 0 then None
     else find (\<lambda>i. th_state (sd_threads s i) \<noteq> THREAD_FREE \<and> th_id (sd_threads s i) = tid) [0..<SCHED_THREADS])"

definition current_slot :: "sched \<Rightarrow> nat outcome" where
  "current_slot s = (if sd_current s < SCHED_THREADS then Returns (sd_current s) else Panics ''invalid_current'')"

definition pick_next :: "sched \<Rightarrow> nat option outcome" where
  "pick_next s =
    and_then (current_slot s) (\<lambda>slot. Returns
      (find (\<lambda>i. th_state (sd_threads s i) = THREAD_READY)
        (map (\<lambda>n. (slot + n) mod SCHED_THREADS) [1..<SCHED_THREADS])))"

definition upd_thread :: "nat \<Rightarrow> (thread \<Rightarrow> thread) \<Rightarrow> sched \<Rightarrow> sched" where
  "upd_thread i f s = s\<lparr>sd_threads := (sd_threads s)(i := f (sd_threads s i))\<rparr>"

definition select_thread :: "sched_env \<Rightarrow> cpu_ctx \<Rightarrow> nat \<Rightarrow> bool \<Rightarrow> sched \<Rightarrow> sched outcome" where
  "select_thread e c nxt exiting s =
    require_ok (frame_valid e c s nxt (th_saved (sd_threads s nxt))) ''invalid_resume''
      (Returns ((upd_thread nxt (th_state_update (\<lambda>_. THREAD_RUNNING))
         (upd_thread (sd_current s) (th_state_update (\<lambda>_. if exiting then THREAD_EXITED else THREAD_READY)) s))
           \<lparr>sd_current := nxt\<rparr>))"

section \<open>Threads\<close>

definition scheduler_initialize :: "sched_env \<Rightarrow> cpu_ctx \<Rightarrow> page_services \<Rightarrow> sched \<Rightarrow> sched \<times> bool" where
  "scheduler_initialize e c ps s =
    (if \<not> foreground c \<or> sd_initialized s \<or> \<not> ps_space ps then (s, False)
     else let s' = (upd_thread 0 (\<lambda>t. t\<lparr>th_id := sd_next_id s, th_state := THREAD_RUNNING\<rparr>) s)
            \<lparr>sd_next_id := sd_next_id s + 1, sd_current := 0, sd_initialized := True\<rparr>
       in (s', scheduler_check e c s'))"

text \<open>The new thread in slot \<open>i\<close>: id, entry, the first frame and the zero return address below \<open>hi\<close>.\<close>

definition publish_thread ::
  "sched_env \<Rightarrow> nat \<Rightarrow> kstacks \<Rightarrow> kstack \<Rightarrow> u64 \<Rightarrow> u64 \<Rightarrow> u64 \<Rightarrow> u64 \<Rightarrow> sched \<Rightarrow> sched" where
  "publish_thread e i st h hi entry arg rflags s =
    (upd_thread i (\<lambda>t. t\<lparr>th_id := sd_next_id s, th_state := THREAD_READY,
       th_saved := frame_zero\<lparr>ef_rip := en_trampoline e, ef_cs := CPU_CODE_SELECTOR,
         ef_ss := CPU_DATA_SELECTOR, ef_rsp := hi - 8, ef_rflags := rflags\<rparr>,
       th_stack := h, th_entry := entry, th_arg := arg\<rparr>) s)
     \<lparr>sd_next_id := sd_next_id s + 1, sd_stacks := st\<lparr>kr_mem := write64 (kr_mem st) (hi - 8) 0\<rparr>\<rparr>"

text \<open>\<open>out\<close> tells whether the caller's pointer is not null; the result is what is stored there.\<close>

definition thread_create_with_flags ::
  "sched_env \<Rightarrow> cpu_ctx \<Rightarrow> page_services \<Rightarrow> bool \<Rightarrow> u64 \<Rightarrow> u64 \<Rightarrow> u64 \<Rightarrow> sched \<Rightarrow> (sched \<times> u64 option) outcome" where
  "thread_create_with_flags e c ps out entry arg rflags s =
    (if \<not> foreground c \<or> \<not> sd_initialized s \<or> \<not> out \<or> \<not> executable e entry \<or> 2 ^ 63 \<le> sd_next_id s
     then Returns (s, None)
     else if rflags AND 2 \<noteq> 2 \<or> rflags AND NOT 0x10ed7 \<noteq> 0 then Returns (s, None)
     else if rflags \<noteq> 0x002 \<and> rflags \<noteq> 0x202 then Returns (s, None)
     else check e c s
       (case find (\<lambda>i. th_state (sd_threads s i) = THREAD_FREE) [1..<SCHED_THREADS] of
          None \<Rightarrow> Returns (s, None)
        | Some i \<Rightarrow>
            and_then (kstack_alloc c ps (sd_stacks s) i (th_stack (sd_threads s i))) (\<lambda>(st, h, ok).
              if \<not> ok then Returns (s\<lparr>sd_stacks := st\<rparr>, None)
              else (case kstack_bounds c st i h of
                 None \<Rightarrow> Panics ''new_stack_bounds''
               | Some (lo, hi) \<Rightarrow>
                   let s' = publish_thread e i st h hi entry arg rflags s
                   in check e c s' (Returns (s', Some (sd_next_id s)))))))"

definition thread_create ::
  "sched_env \<Rightarrow> cpu_ctx \<Rightarrow> page_services \<Rightarrow> bool \<Rightarrow> u64 \<Rightarrow> u64 \<Rightarrow> sched \<Rightarrow> (sched \<times> u64 option) outcome" where
  "thread_create e c ps out entry arg s = thread_create_with_flags e c ps out entry arg 0x202 s"

definition thread_join ::
  "sched_env \<Rightarrow> cpu_ctx \<Rightarrow> page_services \<Rightarrow> u64 \<Rightarrow> u64 \<Rightarrow> sched \<Rightarrow> (sched \<times> bool) outcome" where
  "thread_join e c ps rsp tid s =
    (if \<not> foreground c \<or> \<not> sd_initialized s then Returns (s, False)
     else check e c s
       (case find_thread s tid of
          None \<Rightarrow> Returns (s, False)
        | Some i \<Rightarrow>
            if i = sd_current s \<or> i = 0 \<or> th_state (sd_threads s i) \<noteq> THREAD_EXITED then Returns (s, False)
            else and_then (kstack_free c ps rsp (sd_stacks s) i (th_stack (sd_threads s i))) (\<lambda>(st, h, ok).
              require_ok ok ''reap_stack''
                (let s' = (upd_thread i (\<lambda>_. thread_zero) s)\<lparr>sd_stacks := st\<rparr>
                 in check e c s' (Returns (s', True))))))"

definition thread_state_of :: "sched_env \<Rightarrow> cpu_ctx \<Rightarrow> u64 \<Rightarrow> bool \<Rightarrow> sched \<Rightarrow> thread_state option outcome" where
  "thread_state_of e c tid out s =
    (if \<not> foreground c \<or> \<not> sd_initialized s \<or> \<not> out then Returns None
     else check e c s (Returns (map_option (\<lambda>i. th_state (sd_threads s i)) (find_thread s tid))))"

definition thread_statistics_of :: "sched_env \<Rightarrow> cpu_ctx \<Rightarrow> u64 \<Rightarrow> bool \<Rightarrow> sched \<Rightarrow> thread_statistics option outcome" where
  "thread_statistics_of e c tid out s =
    (if \<not> foreground c \<or> \<not> sd_initialized s \<or> \<not> out then Returns None
     else check e c s (Returns (map_option (\<lambda>i. th_statistics (sd_threads s i)) (find_thread s tid))))"

definition thread_ready_count :: "sched_env \<Rightarrow> cpu_ctx \<Rightarrow> sched \<Rightarrow> nat outcome" where
  "thread_ready_count e c s =
    (if \<not> if_disabled c \<or> \<not> sd_initialized s then Returns 0
     else check e c s (Returns (length (filter
       (\<lambda>i. th_state (sd_threads s i) = THREAD_READY \<or> th_state (sd_threads s i) = THREAD_RUNNING)
       [0..<SCHED_THREADS]))))"

definition thread_free_count :: "sched_env \<Rightarrow> cpu_ctx \<Rightarrow> sched \<Rightarrow> nat outcome" where
  "thread_free_count e c s =
    (if \<not> if_disabled c \<or> \<not> sd_initialized s then Returns 0
     else check e c s (Returns (length (filter (\<lambda>i. th_state (sd_threads s i) = THREAD_FREE) [0..<SCHED_THREADS]))))"

definition scheduler_statistics ::
  "sched_env \<Rightarrow> cpu_ctx \<Rightarrow> bool \<Rightarrow> sched \<Rightarrow> (u64 \<times> u64 \<times> u64) option outcome" where
  "scheduler_statistics e c out s =
    (if \<not> foreground c \<or> \<not> sd_initialized s \<or> \<not> out then Returns None
     else check e c s
       (and_then (thread_ready_count e c s) (\<lambda>n. Returns (Some (sd_ticks s, sd_switches s, of_nat n)))))"

section \<open>Interrupt masking\<close>

text \<open>The flag is \<^verbatim>\<open>flags & 0x200\<close>: whether interrupts were enabled.\<close>

definition irq_save :: "cpu_ctx \<Rightarrow> bool \<times> cpu_ctx" where
  "irq_save c = (\<not> if_disabled c, c\<lparr>if_disabled := True\<rparr>)"

definition irq_restore :: "bool \<Rightarrow> cpu_ctx \<Rightarrow> sched \<Rightarrow> cpu_ctx outcome" where
  "irq_restore flag c s =
    require_ok (\<not> flag \<or> sd_held_locks s = 0) ''restore_with_lock''
      (require_ok (\<not> flag \<or> \<not> in_irq c) ''restore_in_irq''
        (Returns (c\<lparr>if_disabled := \<not> flag\<rparr>)))"

definition thread_current :: "sched_env \<Rightarrow> cpu_ctx \<Rightarrow> sched \<Rightarrow> (u64 \<times> cpu_ctx) outcome" where
  "thread_current e c s =
    (let (f, c') = irq_save c in
     and_then (if sd_initialized s then check e c' s (Returns (th_id (sd_threads s (sd_current s)))) else Returns 0)
       (\<lambda>tid. and_then (irq_restore f c' s) (\<lambda>c''. Returns (tid, c''))))"

definition thread_current_stack_base :: "sched_env \<Rightarrow> cpu_ctx \<Rightarrow> bool \<Rightarrow> sched \<Rightarrow> (u64 option \<times> cpu_ctx) outcome" where
  "thread_current_stack_base e c base s =
    (let (f, c') = irq_save c in
     and_then
       (if sd_initialized s \<and> base
        then check e c' s (Returns
          (if sd_current s \<noteq> 0
           then map_option (\<lambda>(lo, hi). lo - KSTACK_GUARD_BYTES) (bounds e c' s (sd_current s)) else None))
        else Returns None)
       (\<lambda>r. and_then (irq_restore f c' s) (\<lambda>c''. Returns (r, c''))))"

section \<open>Switching\<close>

text \<open>
  A yield that switches ends at \<^verbatim>\<open>thread_switch\<close>: \<open>f\<close> is the frame the assembly
  captures for the caller, and the state is the one in which the selected frame
  is resumed. \<open>thread_yield_resume\<close> is the rest of the call, when the caller
  has been selected again.
\<close>

datatype yield_end = Refused | Alone | Switched frame_ref

definition thread_yield ::
  "sched_env \<Rightarrow> cpu_ctx \<Rightarrow> exception_frame \<Rightarrow> sched \<Rightarrow> (sched \<times> cpu_ctx \<times> yield_end) outcome" where
  "thread_yield e c f s =
    (let (flag, c') = irq_save c in
     if \<not> sd_initialized s \<or> in_irq c' \<or> sd_held_locks s \<noteq> 0
     then and_then (irq_restore flag c' s) (\<lambda>c''. Returns (s, c'', Refused))
     else check e c' s (and_then (pick_next s) (\<lambda>n.
       case n of
         None \<Rightarrow> and_then (irq_restore flag c' s) (\<lambda>c''. Returns (s, c'', Alone))
       | Some nxt \<Rightarrow> and_then (select_thread e c' nxt False s) (\<lambda>s'.
           Returns (upd_thread (sd_current s) (\<lambda>t. t\<lparr>th_saved := f\<rparr>) s', c', Switched (Saved nxt))))))"

definition thread_yield_resume :: "sched_env \<Rightarrow> cpu_ctx \<Rightarrow> bool \<Rightarrow> nat \<Rightarrow> sched \<Rightarrow> cpu_ctx outcome" where
  "thread_yield_resume e c flag me s =
    require_ok (sd_current s = me \<and> if_disabled c) ''yield_return'' (check e c s (irq_restore flag c s))"

definition thread_exit :: "sched_env \<Rightarrow> cpu_ctx \<Rightarrow> sched \<Rightarrow> (sched \<times> frame_ref) outcome" where
  "thread_exit e c s =
    (let (_, c') = irq_save c in
     require_ok (sd_initialized s \<and> \<not> in_irq c' \<and> sd_held_locks s = 0) ''exit_context''
       (check e c' s (require_ok (sd_current s \<noteq> 0) ''bootstrap_exit''
         (and_then (pick_next s) (\<lambda>n.
            case n of
              None \<Rightarrow> Panics ''exit_no_next''
            | Some nxt \<Rightarrow> and_then (select_thread e c' nxt True s) (\<lambda>s'. Returns (s', Saved nxt)))))))"

text \<open>The entry trampoline, up to the call of the entry function: what it calls, with which argument.\<close>

definition thread_entry_trampoline :: "sched_env \<Rightarrow> cpu_ctx \<Rightarrow> sched \<Rightarrow> (u64 \<times> u64 \<times> cpu_ctx) outcome" where
  "thread_entry_trampoline e c s =
    (let (flag, c') = irq_save c; t = sd_threads s (sd_current s) in
     check e c' s (and_then (irq_restore flag c' s) (\<lambda>c''. Returns (th_entry t, th_arg t, c''))))"

text \<open>Select the next thread after the current one's frame has been saved, or resume the current one.\<close>

definition note_preempted :: "exception_frame \<Rightarrow> thread \<Rightarrow> thread" where
  "note_preempted f t = t\<lparr>th_statistics := (th_statistics t)
    \<lparr>ts_preemptions := ts_preemptions (th_statistics t) + 1, ts_irq_rsp := ef_rsp f, ts_irq_rip := ef_rip f\<rparr>\<rparr>"

definition dispatch :: "sched_env \<Rightarrow> cpu_ctx \<Rightarrow> nat \<Rightarrow> sched \<Rightarrow> (sched \<times> frame_ref) outcome" where
  "dispatch e c nxt s =
    and_then
      (select_thread e c nxt False (upd_thread nxt (\<lambda>t. t\<lparr>th_statistics := (th_statistics t)
         \<lparr>ts_dispatches := ts_dispatches (th_statistics t) + 1\<rparr>\<rparr>) s))
      (\<lambda>s'. Returns (s'\<lparr>sd_switches := sd_switches s' + 1\<rparr>, Saved nxt))"

text \<open>Copy the link's kernel frame, with its result code, to the current thread's saved frame.\<close>

definition park :: "nat \<Rightarrow> u64 \<Rightarrow> sched \<Rightarrow> sched" where
  "park l code s =
    (let k = (ul_kern_save (sd_links s l))\<lparr>ef_rax := code\<rparr> in
     (upd_thread (sd_current s) (\<lambda>t. t\<lparr>th_saved := k\<rparr>) s)
       \<lparr>sd_links := (sd_links s)(l := (sd_links s l)\<lparr>ul_kern_save := k\<rparr>)\<rparr>)"

record user_answers =
  ua_origin_ok :: bool
  ua_flag_tick :: bool
  ua_publish_stop :: bool
  ua_save_state :: bool

definition link_ready :: "sched \<Rightarrow> nat option \<Rightarrow> bool" where
  "link_ready s l = (case l of None \<Rightarrow> False | Some l \<Rightarrow> ul_bound (sd_links s l) \<and> ul_context (sd_links s l) \<noteq> None)"

definition link_loaded :: "sched \<Rightarrow> nat \<Rightarrow> bool" where
  "link_loaded s l = (case ul_context (sd_links s l) of None \<Rightarrow> False | Some x \<Rightarrow> uc_loaded (sd_contexts s x))"

text \<open>The branch of \<^verbatim>\<open>sched_tick\<close> for a frame from user mode.\<close>

definition tick_user ::
  "sched_env \<Rightarrow> cpu_ctx \<Rightarrow> user_answers \<Rightarrow> exception_frame \<Rightarrow> sched \<Rightarrow> (sched \<times> frame_ref) outcome" where
  "tick_user e c ua f s =
    require_ok (if_disabled c \<and> in_irq c \<and> sd_held_locks s = 0) ''user_tick_context''
      (check e c s
        (case th_user (sd_threads s (sd_current s)) of
           None \<Rightarrow> Panics ''user_tick_link''
         | Some l \<Rightarrow>
             require_ok (link_ready s (Some l)) ''user_tick_link''
               (require_ok (ua_origin_ok ua) ''irq_frame''
                 (require_ok (link_loaded s l \<or> \<not> ua_flag_tick ua \<or> ua_publish_stop ua) ''irq_frame''
                   (require_ok (ua_save_state ua) ''irq_frame''
                     (and_then (pick_next s) (\<lambda>n.
                        let s' = upd_thread (sd_current s) (note_preempted f)
                              (park l USER_RUN_PREEMPTED (s\<lparr>sd_ticks := sd_ticks s + 1\<rparr>))
                        in case n of
                             None \<Rightarrow> Returns (s', Saved (sd_current s))
                           | Some nxt \<Rightarrow> dispatch e c nxt s')))))))"

definition in_stack :: "sched_env \<Rightarrow> cpu_ctx \<Rightarrow> u64 \<Rightarrow> sched \<Rightarrow> bool" where
  "in_stack e c fa s = (case bounds e c s (sd_current s) of None \<Rightarrow> False
    | Some (lo, hi) \<Rightarrow> lo \<le> fa \<and> fa \<le> hi - frame_size)"

definition sched_tick ::
  "sched_env \<Rightarrow> cpu_ctx \<Rightarrow> user_answers \<Rightarrow> u64 \<Rightarrow> exception_frame \<Rightarrow> sched \<Rightarrow> (sched \<times> frame_ref) outcome" where
  "sched_tick e c ua fa f s =
    (if \<not> sd_initialized s then Returns (s, Interrupted)
     else if ef_cs f AND 3 = 3 then tick_user e c ua f s
     else require_ok (if_disabled c \<and> in_irq c \<and> sd_held_locks s = 0) ''tick_context''
       (check e c s
         (require_ok (in_stack e c fa s) ''irq_frame_owner''
           (require_ok (frame_valid e c s (sd_current s) f \<and> ef_rflags f AND 0x200 \<noteq> 0) ''irq_frame''
             (and_then (pick_next s) (\<lambda>n.
                let s' = s\<lparr>sd_ticks := sd_ticks s + 1\<rparr> in
                case n of
                  None \<Rightarrow> Returns (s', Interrupted)
                | Some nxt \<Rightarrow> dispatch e c nxt
                    (upd_thread (sd_current s) (\<lambda>t. note_preempted f (t\<lparr>th_saved := f\<rparr>)) s')))))))"

definition user_schedule_next ::
  "sched_env \<Rightarrow> cpu_ctx \<Rightarrow> nat option \<Rightarrow> u64 \<Rightarrow> sched \<Rightarrow> (sched \<times> frame_ref) outcome" where
  "user_schedule_next e c link retcode s =
    require_ok (if_disabled c \<and> \<not> in_irq c) ''user_next_context''
      (require_ok (sd_initialized s) ''user_next_init''
        (check e c s
          (require_ok (th_user (sd_threads s (sd_current s)) = link \<and> link_ready s link) ''user_next_link''
            (require_ok (USER_RUN_EXITED \<le> retcode \<and> retcode \<le> USER_RUN_UNLINK) ''user_next_code''
              (let s' = park (case link of None \<Rightarrow> 0 | Some l \<Rightarrow> l) retcode s in
               and_then (pick_next s') (\<lambda>n.
                 case n of
                   None \<Rightarrow> Returns (s', Saved (sd_current s))
                 | Some nxt \<Rightarrow> dispatch e c nxt s'))))))"

definition sched_park_cpl3 ::
  "sched_env \<Rightarrow> cpu_ctx \<Rightarrow> user_answers \<Rightarrow> exception_frame \<Rightarrow> sched \<Rightarrow> (sched \<times> frame_ref) outcome" where
  "sched_park_cpl3 e c ua f s =
    (if ef_cs f AND 3 \<noteq> 3 then Returns (s, Interrupted)
     else require_ok (if_disabled c \<and> in_irq c \<and> sd_held_locks s = 0) ''park_context''
       (check e c s
         (case th_user (sd_threads s (sd_current s)) of
            None \<Rightarrow> Panics ''park_link''
          | Some l \<Rightarrow>
              require_ok (link_ready s (Some l)) ''park_link''
                (require_ok (ua_save_state ua) ''irq_frame''
                  (require_ok (sd_cpl3_parks s \<noteq> - 1) ''halt''
                    (Returns ((upd_thread (sd_current s) (note_preempted f) (park l USER_RUN_PREEMPTED s))
                       \<lparr>sd_cpl3_parks := sd_cpl3_parks s + 1\<rparr>, Saved (sd_current s))))))))"

text \<open>\<open>fa\<close> and \<open>f\<close> are the address and the contents of the interrupted frame.\<close>

definition sched_handoff ::
  "sched_env \<Rightarrow> cpu_ctx \<Rightarrow> u64 \<Rightarrow> exception_frame \<Rightarrow> frame_ref \<Rightarrow> sched \<Rightarrow> frame_ref outcome" where
  "sched_handoff e c fa f selected s =
    require_ok (if_disabled c \<and> \<not> in_irq c) ''handoff_context''
      (if \<not> sd_initialized s then require_ok (selected = Interrupted) ''handoff_pointer'' (Returns selected)
       else check e c s
         (require_ok (selected = Interrupted \<or> selected = Saved (sd_current s)) ''handoff_pointer''
           (require_ok (selected = Interrupted \<longrightarrow> in_stack e c fa s) ''handoff_stack''
             (require_ok (frame_valid e c s (sd_current s)
                 (if selected = Interrupted then f else th_saved (sd_threads s (sd_current s)))) ''handoff_frame''
               (Returns selected)))))"

section \<open>User links\<close>

definition thread_user_link :: "cpu_ctx \<Rightarrow> sched \<Rightarrow> nat option" where
  "thread_user_link c s =
    (if \<not> if_disabled c \<or> \<not> sd_initialized s then None
     else if sd_current s = SCHED_THREADS then None else th_user (sd_threads s (sd_current s)))"

definition thread_attach_user :: "sched_env \<Rightarrow> cpu_ctx \<Rightarrow> nat option \<Rightarrow> sched \<Rightarrow> (sched \<times> bool) outcome" where
  "thread_attach_user e c link s =
    (if \<not> foreground c \<or> \<not> sd_initialized s then Returns (s, False)
     else case link of
       None \<Rightarrow> Returns (s, False)
     | Some l \<Rightarrow>
         if ul_bound (sd_links s l) then Returns (s, False)
         else (case ul_context (sd_links s l) of
            None \<Rightarrow> Returns (s, False)
          | Some x \<Rightarrow>
              let u = sd_contexts s x in
              if uc_link u \<noteq> l \<or> uc_state u \<noteq> USER_ACTIVE \<or> uc_root u = 0 \<or> \<not> uc_identity u
              then Returns (s, False)
              else check e c s
                (if th_user (sd_threads s (sd_current s)) \<noteq> None then Returns (s, False)
                 else let s' = (upd_thread (sd_current s) (\<lambda>t. t\<lparr>th_user := Some l\<rparr>) s)
                        \<lparr>sd_links := (sd_links s)(l := (sd_links s l)\<lparr>ul_bound := True\<rparr>)\<rparr>
                   in check e c s' (Returns (s', True)))))"

definition thread_detach_user :: "sched_env \<Rightarrow> cpu_ctx \<Rightarrow> sched \<Rightarrow> (sched \<times> bool) outcome" where
  "thread_detach_user e c s =
    (if \<not> foreground c \<or> \<not> sd_initialized s then Returns (s, False)
     else case th_user (sd_threads s (sd_current s)) of
       None \<Rightarrow> Returns (s, False)
     | Some l \<Rightarrow>
         check e c s
           (let s' = (upd_thread (sd_current s) (\<lambda>t. t\<lparr>th_user := None\<rparr>) s)
              \<lparr>sd_links := (sd_links s)(l := (sd_links s l)\<lparr>ul_bound := False\<rparr>)\<rparr>
            in check e c s' (Returns (s', True))))"

section \<open>Spinlocks\<close>

definition lock_owner :: "cpu_ctx \<Rightarrow> sched \<Rightarrow> u64" where
  "lock_owner c s =
    (if sd_initialized s then th_id (sd_threads s (sd_current s)) else 1) OR (if in_irq c then 2 ^ 63 else 0)"

text \<open>A lock is its address; 0 is the null pointer.\<close>

definition spin_lock :: "sched_env \<Rightarrow> cpu_ctx \<Rightarrow> u64 \<Rightarrow> sched \<Rightarrow> (sched \<times> bool) outcome" where
  "spin_lock e c l s =
    (if \<not> if_disabled c \<or> l = 0 \<or> sl_owner (sd_locks s l) \<noteq> 0 then Returns (s, False)
     else let r = Returns (s\<lparr>sd_locks := (sd_locks s)(l := \<lparr>sl_owner = lock_owner c s, sl_identity = l\<rparr>),
              sd_held_locks := sd_held_locks s + 1\<rparr>, True)
       in if sd_initialized s then check e c s r else r)"

definition spin_unlock :: "cpu_ctx \<Rightarrow> u64 \<Rightarrow> sched \<Rightarrow> sched \<times> bool" where
  "spin_unlock c l s =
    (if \<not> if_disabled c \<or> l = 0 \<or> sd_held_locks s = 0 \<or> sl_identity (sd_locks s l) \<noteq> l \<or>
        sl_owner (sd_locks s l) \<noteq> lock_owner c s
     then (s, False)
     else (s\<lparr>sd_locks := (sd_locks s)(l := \<lparr>sl_owner = 0, sl_identity = 0\<rparr>),
             sd_held_locks := sd_held_locks s - 1\<rparr>, True))"

end
