(* ===== verification/Sched_Inv.thy ===== *)
theory Sched_Inv
  imports Sched
begin

text \<open>
  Correctness of the scheduler: the structural invariant its \<^verbatim>\<open>scheduler_check\<close>
  tests is kept by every call, no call panics when its caller keeps the
  documented conditions, no ready thread starves, saved frames stay untouched
  until they are resumed, thread ids and locks have one meaning for good.
\<close>

section \<open>The invariant\<close>

definition masked :: cpu_ctx where
  "masked = \<lparr>if_disabled = True, in_irq = False\<rparr>"

lemma masked_simps [simp]: "if_disabled masked" "\<not> in_irq masked"
  by (simp_all add: masked_def)

text \<open>Only the interrupt flag of the context matters to the checks.\<close>

lemma kstack_valid_masked:
  assumes "if_disabled c"
  shows "kstack_valid c = kstack_valid masked"
  using assms by (intro ext) (simp add: kstack_valid_def)

lemma kstack_bounds_masked:
  assumes "if_disabled c"
  shows "kstack_bounds c = kstack_bounds masked"
  by (intro ext) (simp only: kstack_bounds_def kstack_valid_masked [OF assms] assms masked_simps)

lemma bounds_masked:
  assumes "if_disabled c"
  shows "bounds e c = bounds e masked"
  by (intro ext) (simp only: bounds_def kstack_bounds_masked [OF assms] assms masked_simps)

lemma frame_valid_masked:
  assumes "if_disabled c"
  shows "frame_valid e c = frame_valid e masked"
  by (intro ext) (simp only: frame_valid_def bounds_masked [OF assms] assms masked_simps)

lemma slot_check_masked:
  assumes "if_disabled c"
  shows "slot_check e c = slot_check e masked"
  by (intro ext) (simp only: slot_check_def kstack_valid_masked [OF assms] frame_valid_masked [OF assms] assms masked_simps)

lemma scheduler_check_masked:
  assumes "if_disabled c"
  shows "scheduler_check e c = scheduler_check e masked"
  by (intro ext) (simp only: scheduler_check_def slot_check_masked [OF assms] assms masked_simps)

lemma in_stack_masked:
  assumes "if_disabled c"
  shows "in_stack e c = in_stack e masked"
  by (intro ext) (simp only: in_stack_def bounds_masked [OF assms] assms masked_simps)

text \<open>The same, as rewrite rules that stop at \<open>masked\<close>.\<close>

lemma masked:
  assumes "NO_MATCH masked c" and "if_disabled c"
  shows "kstack_valid c = kstack_valid masked" "kstack_bounds c = kstack_bounds masked"
    "bounds e c = bounds e masked" "frame_valid e c = frame_valid e masked"
    "scheduler_check e c = scheduler_check e masked" "in_stack e c = in_stack e masked"
  by (simp_all only: kstack_valid_masked [OF assms(2)] kstack_bounds_masked [OF assms(2)]
    bounds_masked [OF assms(2)] frame_valid_masked [OF assms(2)] scheduler_check_masked [OF assms(2)]
    in_stack_masked [OF assms(2)])

text \<open>What the check demands of one slot alone.\<close>

definition slot_fine :: "sched_env \<Rightarrow> sched \<Rightarrow> nat \<Rightarrow> bool" where
  "slot_fine e s i \<longleftrightarrow>
    (\<forall>l. th_user (sd_threads s i) = Some l \<longrightarrow> ul_bound (sd_links s l) \<and> ul_context (sd_links s l) \<noteq> None) \<and>
    (th_state (sd_threads s i) = THREAD_FREE \<longrightarrow>
       th_id (sd_threads s i) = 0 \<and> ks_generation (th_stack (sd_threads s i)) = 0) \<and>
    (th_state (sd_threads s i) \<noteq> THREAD_FREE \<longrightarrow>
       th_id (sd_threads s i) \<noteq> 0 \<and> th_id (sd_threads s i) < sd_next_id s \<and>
       (i \<noteq> 0 \<longrightarrow> kstack_valid masked (sd_stacks s) i (th_stack (sd_threads s i)) \<and>
          executable e (th_entry (sd_threads s i)))) \<and>
    (th_state (sd_threads s i) = THREAD_READY \<longrightarrow> frame_valid e masked s i (th_saved (sd_threads s i)))"

definition ids_distinct :: "sched \<Rightarrow> bool" where
  "ids_distinct s \<longleftrightarrow> (\<forall>i<8. \<forall>j<8. i \<noteq> j \<longrightarrow> th_state (sd_threads s i) \<noteq> THREAD_FREE \<longrightarrow>
     th_state (sd_threads s j) \<noteq> THREAD_FREE \<longrightarrow> th_id (sd_threads s i) \<noteq> th_id (sd_threads s j))"

definition sole_running :: "sched \<Rightarrow> bool" where
  "sole_running s \<longleftrightarrow> (\<forall>i<8. th_state (sd_threads s i) = THREAD_RUNNING \<longrightarrow> i = sd_current s)"

lemma one_running:
  assumes "k < n" and "P k" and "\<forall>i<n. P i \<longrightarrow> i = k"
  shows "length (filter P [0..<n]) = 1"
proof -
  have "x = k" if "x \<in> set (filter P [0..<n])" for x
    using that assms(3) [rule_format, of x] by simp
  moreover have "k \<in> set (filter P [0..<n])" using assms(1,2) by simp
  ultimately have "set (filter P [0..<n]) = {k}" by blast
  moreover have "distinct (filter P [0..<n])" by simp
  ultimately show ?thesis using distinct_card [of "filter P [0..<n]"] by simp
qed

lemma ids_distinct_iff:
  "ids_distinct s \<longleftrightarrow> (\<forall>i<8. th_state (sd_threads s i) \<noteq> THREAD_FREE \<longrightarrow>
     list_all (\<lambda>j. th_state (sd_threads s j) = THREAD_FREE \<or> th_id (sd_threads s i) \<noteq> th_id (sd_threads s j)) [0..<i])"
  (is "_ \<longleftrightarrow> ?r")
proof
  assume r: ?r
  have below: "th_id (sd_threads s i) \<noteq> th_id (sd_threads s j)"
    if "i < 8" "j < i" "th_state (sd_threads s i) \<noteq> THREAD_FREE" "th_state (sd_threads s j) \<noteq> THREAD_FREE" for i j
  proof -
    from r that(1,3) have "j \<in> set [0..<i] \<longrightarrow>
        th_state (sd_threads s j) = THREAD_FREE \<or> th_id (sd_threads s i) \<noteq> th_id (sd_threads s j)"
      unfolding list_all_iff by blast
    with that(2,4) show ?thesis by simp
  qed
  show "ids_distinct s"
    unfolding ids_distinct_def
  proof (intro allI impI)
    fix i j :: nat
    assume a: "i < 8" "j < 8" "i \<noteq> j" "th_state (sd_threads s i) \<noteq> THREAD_FREE" "th_state (sd_threads s j) \<noteq> THREAD_FREE"
    from a(3) consider "i < j" | "j < i" by linarith
    then show "th_id (sd_threads s i) \<noteq> th_id (sd_threads s j)"
      using below [OF a(1) _ a(4,5)] below [OF a(2) _ a(5,4)] by cases metis+
  qed
next
  assume d: "ids_distinct s"
  show ?r
    unfolding list_all_iff
  proof (intro allI impI ballI disjCI)
    fix i j :: nat
    assume a: "i < 8" "th_state (sd_threads s i) \<noteq> THREAD_FREE" "j \<in> set [0..<i]"
      "\<not> th_id (sd_threads s i) \<noteq> th_id (sd_threads s j)"
    then have "j < 8" "i \<noteq> j" by simp_all
    with a d show "th_state (sd_threads s j) = THREAD_FREE"
      unfolding ids_distinct_def by blast
  qed
qed

lemma slots_check_iff:
  "list_all (slot_check e masked s) [0..<8] \<longleftrightarrow> (\<forall>i<8. slot_fine e s i) \<and> sole_running s \<and> ids_distinct s"
proof -
  have slot: "slot_check e masked s i \<longleftrightarrow> slot_fine e s i \<and>
      (th_state (sd_threads s i) = THREAD_RUNNING \<longrightarrow> i = sd_current s) \<and>
      (th_state (sd_threads s i) \<noteq> THREAD_FREE \<longrightarrow>
         list_all (\<lambda>j. th_state (sd_threads s j) = THREAD_FREE \<or> th_id (sd_threads s i) \<noteq> th_id (sd_threads s j)) [0..<i])"
    for i
    by (cases "th_state (sd_threads s i)")
      (auto simp: slot_check_def slot_fine_def Let_def split: option.split)
  have "list_all (slot_check e masked s) [0..<8] \<longleftrightarrow> (\<forall>i<8. slot_check e masked s i)"
    by (auto simp: list_all_iff)
  then show ?thesis unfolding ids_distinct_iff sole_running_def slot by blast
qed

lemma scheduler_check_iff:
  "scheduler_check e masked s \<longleftrightarrow>
    sd_initialized s \<and> sd_current s < 8 \<and> th_state (sd_threads s (sd_current s)) = THREAD_RUNNING \<and>
    sole_running s \<and>
    th_state (sd_threads s 0) \<noteq> THREAD_FREE \<and> th_state (sd_threads s 0) \<noteq> THREAD_EXITED \<and>
    (\<forall>i<8. slot_fine e s i) \<and> ids_distinct s"
proof -
  have "length (filter (\<lambda>i. th_state (sd_threads s i) = THREAD_RUNNING) [0..<8]) = 1"
    if "sd_current s < 8" "th_state (sd_threads s (sd_current s)) = THREAD_RUNNING" "sole_running s"
    using one_running [of "sd_current s" 8 "\<lambda>i. th_state (sd_threads s i) = THREAD_RUNNING"] that
    unfolding sole_running_def by blast
  then show ?thesis
    unfolding scheduler_check_def SCHED_THREADS_def slots_check_iff by auto
qed

text \<open>
  The invariant of the development: the code's own check; no two threads share
  a user link; and ids are below the bound at which creation stops.
\<close>

definition links_apart :: "sched \<Rightarrow> bool" where
  "links_apart s \<longleftrightarrow> (\<forall>i<8. \<forall>j<8. \<forall>l. th_user (sd_threads s i) = Some l \<longrightarrow>
     th_user (sd_threads s j) = Some l \<longrightarrow> i = j)"

definition sched_ok :: "sched_env \<Rightarrow> sched \<Rightarrow> bool" where
  "sched_ok e s \<longleftrightarrow> scheduler_check e masked s \<and> links_apart s \<and> sd_next_id s \<le> 2 ^ 63"

lemma sched_okD:
  assumes "sched_ok e s"
  shows "sd_initialized s" "sd_current s < 8" "th_state (sd_threads s (sd_current s)) = THREAD_RUNNING"
    "sole_running s"
    "th_state (sd_threads s 0) \<noteq> THREAD_FREE" "th_state (sd_threads s 0) \<noteq> THREAD_EXITED"
    "\<And>i. i < 8 \<Longrightarrow> slot_fine e s i" "ids_distinct s" "links_apart s" "sd_next_id s \<le> 2 ^ 63"
    "if_disabled c \<Longrightarrow> scheduler_check e c s"
  using assms by (auto simp: sched_ok_def scheduler_check_iff scheduler_check_masked [of c])

lemma sched_okI:
  assumes "sd_initialized s" "sd_current s < 8" "th_state (sd_threads s (sd_current s)) = THREAD_RUNNING"
    "sole_running s"
    "th_state (sd_threads s 0) \<noteq> THREAD_FREE" "th_state (sd_threads s 0) \<noteq> THREAD_EXITED"
    "\<And>i. i < 8 \<Longrightarrow> slot_fine e s i" "ids_distinct s" "links_apart s" "sd_next_id s \<le> 2 ^ 63"
  shows "sched_ok e s"
  using assms by (simp add: sched_ok_def scheduler_check_iff)

lemma check_ok [simp]: "sched_ok e s \<Longrightarrow> if_disabled c \<Longrightarrow> check e c s k = k"
  by (simp add: check_def require_ok_def sched_okD(11))

section \<open>Selection\<close>

text \<open>The round-robin distance from the current slot.\<close>

definition dist :: "sched \<Rightarrow> nat \<Rightarrow> nat" where
  "dist s j = (j + 8 - sd_current s) mod 8"

lemma ring8_step: "c < 8 \<Longrightarrow> 1 \<le> n \<Longrightarrow> n < 8 \<Longrightarrow> ((c + n) mod 8 + 8 - c) mod 8 = (n :: nat) \<and> (c + n) mod 8 \<noteq> c"
  by (cases "c + n < 8") (auto simp: mod_if)

lemma ring8_back: "c < 8 \<Longrightarrow> j < 8 \<Longrightarrow> (c + (j + 8 - c) mod 8) mod 8 = (j :: nat)"
  by (cases "c \<le> j") (auto simp: mod_if)

lemma dist_back: "sd_current s < 8 \<Longrightarrow> j < 8 \<Longrightarrow> (sd_current s + dist s j) mod 8 = j"
  by (simp add: dist_def ring8_back)

lemma dist_less: "dist s j < 8"
  by (simp add: dist_def)

lemma dist_pos: "sd_current s < 8 \<Longrightarrow> j < 8 \<Longrightarrow> j \<noteq> sd_current s \<Longrightarrow> 0 < dist s j"
  using dist_back [of s j] by (cases "dist s j = 0") auto

lemma pick_next_current: "sd_current s < 8 \<Longrightarrow> \<exists>r. pick_next s = Returns r"
  by (simp add: pick_next_def current_slot_def SCHED_THREADS_def)

lemma pick_next_Some:
  assumes "pick_next s = Returns (Some k)" and "sd_current s < 8"
  shows "k < 8" "k \<noteq> sd_current s" "th_state (sd_threads s k) = THREAD_READY"
    "\<And>j. j < 8 \<Longrightarrow> th_state (sd_threads s j) = THREAD_READY \<Longrightarrow> j \<noteq> sd_current s \<Longrightarrow> dist s k \<le> dist s j"
proof -
  let ?P = "\<lambda>i. th_state (sd_threads s i) = THREAD_READY"
  let ?xs = "map (\<lambda>n. (sd_current s + n) mod 8) [1..<8]"
  from assms have "find ?P ?xs = Some k"
    by (simp add: pick_next_def current_slot_def SCHED_THREADS_def)
  then obtain m where m: "m < 7" "?P (?xs ! m)" "k = ?xs ! m" "\<forall>j<m. \<not> ?P (?xs ! j)"
    by (auto simp: find_Some_iff)
  then have k: "k = (sd_current s + Suc m) mod 8" by simp
  show "k < 8" "?P k" using k m by simp_all
  have ring: "dist s k = Suc m \<and> k \<noteq> sd_current s"
    unfolding dist_def k using ring8_step [OF assms(2), of "Suc m"] m(1) by simp
  then have dk: "dist s k = Suc m" by simp
  from ring show "k \<noteq> sd_current s" by simp
  show "dist s k \<le> dist s j" if j: "j < 8" "?P j" "j \<noteq> sd_current s" for j
  proof (rule ccontr)
    assume "\<not> dist s k \<le> dist s j"
    then have less: "dist s j < Suc m" using dk by simp
    have pos: "0 < dist s j" using dist_pos [OF assms(2) j(1,3)] .
    have ring_j: "j = (sd_current s + dist s j) mod 8" using dist_back [OF assms(2) j(1)] by simp
    have "?xs ! (dist s j - 1) = (sd_current s + (1 + (dist s j - 1))) mod 8"
      using less m(1) by (subst nth_map) auto
    also have "1 + (dist s j - 1) = dist s j" using pos by simp
    finally have at: "?xs ! (dist s j - 1) = j" using ring_j by simp
    have "dist s j - 1 < m" using less pos by simp
    then have "\<not> ?P (?xs ! (dist s j - 1))" by (rule m(4) [rule_format])
    with at j(2) show False by (simp only: simp_thms)
  qed
qed

lemma pick_next_None:
  assumes "pick_next s = Returns None" and "sd_current s < 8" and "j < 8" and "j \<noteq> sd_current s"
  shows "th_state (sd_threads s j) \<noteq> THREAD_READY"
proof
  assume r: "th_state (sd_threads s j) = THREAD_READY"
  from assms have none: "\<forall>n. 1 \<le> n \<and> n < 8 \<longrightarrow> th_state (sd_threads s ((sd_current s + n) mod 8)) \<noteq> THREAD_READY"
    by (auto simp: pick_next_def current_slot_def SCHED_THREADS_def find_None_iff)
  have "1 \<le> dist s j" "dist s j < 8"
    using assms dist_pos [of s j] dist_less [of s j] by simp_all
  then have "th_state (sd_threads s ((sd_current s + dist s j) mod 8)) \<noteq> THREAD_READY"
    by (intro none [rule_format]) simp
  with r show False by (simp add: dist_back [OF assms(2,3)])
qed


section \<open>What keeps the invariant\<close>

text \<open>A frame stays valid while the stack of its slot stays owned.\<close>

lemma frame_valid_cong:
  assumes "th_stack (sd_threads s' i) = th_stack (sd_threads s i)" and "sd_stacks s' = sd_stacks s"
  shows "frame_valid e c s' i f = frame_valid e c s i f"
  using assms by (simp add: frame_valid_def bounds_def)

lemma frame_valid_kept:
  assumes "frame_valid e masked s i f" and "th_stack (sd_threads s' i) = th_stack (sd_threads s i)"
    and "i \<noteq> 0 \<Longrightarrow> kstack_valid masked (sd_stacks s) i (th_stack (sd_threads s i)) \<Longrightarrow>
      kstack_valid masked (sd_stacks s') i (th_stack (sd_threads s i))"
  shows "frame_valid e masked s' i f"
proof -
  have "bounds e masked s' i = bounds e masked s i" if "bounds e masked s i \<noteq> None"
    using that assms(2,3) by (auto simp: bounds_def kstack_bounds_def Let_def split: if_splits)
  then show ?thesis
    using assms(1) by (cases "bounds e masked s i") (simp_all add: frame_valid_def)
qed

lemma frame_valid_rax [simp]: "frame_valid e c s i (f\<lparr>ef_rax := x\<rparr>) = frame_valid e c s i f"
  by (simp add: frame_valid_def split: option.split)

text \<open>A slot that keeps its identity while nothing it depends on is lost.\<close>

definition same_identity :: "thread \<Rightarrow> thread \<Rightarrow> bool" where
  "same_identity t t' \<longleftrightarrow> th_id t' = th_id t \<and> th_stack t' = th_stack t \<and> th_entry t' = th_entry t \<and>
    th_user t' = th_user t"

lemma slot_fine_identity:
  assumes "slot_fine e s i" and "same_identity (sd_threads s i) (sd_threads s' i)"
    and "th_state (sd_threads s i) \<noteq> THREAD_FREE" and "th_state (sd_threads s' i) \<noteq> THREAD_FREE"
    and "sd_next_id s' = sd_next_id s" and "sd_stacks s' = sd_stacks s"
    and "\<And>l. ul_bound (sd_links s' l) = ul_bound (sd_links s l) \<and> ul_context (sd_links s' l) = ul_context (sd_links s l)"
    and "th_state (sd_threads s' i) = THREAD_READY \<Longrightarrow> frame_valid e masked s i (th_saved (sd_threads s' i))"
  shows "slot_fine e s' i"
  using assms frame_valid_cong [of s' i s e masked "th_saved (sd_threads s' i)"]
  unfolding slot_fine_def same_identity_def by simp

lemma slot_fine_untouched:
  assumes "slot_fine e s i" and "sd_threads s' i = sd_threads s i"
    and "sd_next_id s \<le> sd_next_id s'"
    and "i \<noteq> 0 \<Longrightarrow> kstack_valid masked (sd_stacks s) i (th_stack (sd_threads s i)) \<Longrightarrow>
      kstack_valid masked (sd_stacks s') i (th_stack (sd_threads s i))"
    and "\<And>l. th_user (sd_threads s i) = Some l \<Longrightarrow> ul_bound (sd_links s l) \<Longrightarrow>
      ul_bound (sd_links s' l) \<and> ul_context (sd_links s' l) = ul_context (sd_links s l)"
  shows "slot_fine e s' i"
proof -
  from assms(2) have st: "th_stack (sd_threads s' i) = th_stack (sd_threads s i)" by simp
  have "frame_valid e masked s' i (th_saved (sd_threads s i))"
    if "th_state (sd_threads s i) = THREAD_READY"
    using assms(1) that frame_valid_kept [OF _ st assms(4)] by (simp add: slot_fine_def)
  moreover have "th_id (sd_threads s i) < sd_next_id s'" if "th_state (sd_threads s i) \<noteq> THREAD_FREE"
    using assms(1,3) that by (auto simp: slot_fine_def)
  ultimately show ?thesis
    using assms(1,4,5) unfolding slot_fine_def assms(2) by simp
qed

text \<open>
  A switch: the current thread becomes ready with a valid frame, or exits; the
  next one, ready before, runs; nothing else changes but counters and frames.
\<close>

definition switched :: "sched_env \<Rightarrow> bool \<Rightarrow> nat \<Rightarrow> sched \<Rightarrow> sched \<Rightarrow> bool" where
  "switched e exiting k s s' \<longleftrightarrow>
    pick_next s = Returns (Some k) \<and> sd_current s' = k \<and>
    (\<forall>j. j \<noteq> k \<longrightarrow> j \<noteq> sd_current s \<longrightarrow> sd_threads s' j = sd_threads s j) \<and>
    same_identity (sd_threads s k) (sd_threads s' k) \<and> th_state (sd_threads s' k) = THREAD_RUNNING \<and>
    th_saved (sd_threads s' k) = th_saved (sd_threads s k) \<and>
    same_identity (sd_threads s (sd_current s)) (sd_threads s' (sd_current s)) \<and>
    (if exiting then sd_current s \<noteq> 0 \<and> th_state (sd_threads s' (sd_current s)) = THREAD_EXITED
     else th_state (sd_threads s' (sd_current s)) = THREAD_READY \<and>
       frame_valid e masked s (sd_current s) (th_saved (sd_threads s' (sd_current s)))) \<and>
    sd_initialized s' = sd_initialized s \<and> sd_next_id s' = sd_next_id s \<and> sd_stacks s' = sd_stacks s \<and>
    (\<forall>l. ul_bound (sd_links s' l) = ul_bound (sd_links s l) \<and> ul_context (sd_links s' l) = ul_context (sd_links s l)) \<and>
    sd_locks s' = sd_locks s \<and> sd_held_locks s' = sd_held_locks s"

lemma same_identity_refl [simp]: "same_identity t t"
  by (simp add: same_identity_def)

lemma ids_distinct_identity:
  assumes "ids_distinct s"
    and "\<And>i. i < 8 \<Longrightarrow> th_state (sd_threads s' i) \<noteq> THREAD_FREE \<Longrightarrow>
      th_state (sd_threads s i) \<noteq> THREAD_FREE \<and> th_id (sd_threads s' i) = th_id (sd_threads s i)"
  shows "ids_distinct s'"
  using assms unfolding ids_distinct_def by metis

lemma links_apart_identity:
  assumes "links_apart s" and "\<And>i. i < 8 \<Longrightarrow> th_user (sd_threads s' i) = None \<or> th_user (sd_threads s' i) = th_user (sd_threads s i)"
  shows "links_apart s'"
  using assms unfolding links_apart_def by (metis option.distinct(1))

lemma switched_ok:
  assumes "switched e exiting k s s'" and ok: "sched_ok e s"
  shows "sched_ok e s'"
proof (rule sched_okI)
  note ok = sched_okD [OF ok]
  from assms(1) have sw: "pick_next s = Returns (Some k)" "sd_current s' = k"
    "\<And>j. j \<noteq> k \<Longrightarrow> j \<noteq> sd_current s \<Longrightarrow> sd_threads s' j = sd_threads s j"
    "same_identity (sd_threads s k) (sd_threads s' k)" "th_state (sd_threads s' k) = THREAD_RUNNING"
    "same_identity (sd_threads s (sd_current s)) (sd_threads s' (sd_current s))"
    and cur: "if exiting then sd_current s \<noteq> 0 \<and> th_state (sd_threads s' (sd_current s)) = THREAD_EXITED
     else th_state (sd_threads s' (sd_current s)) = THREAD_READY \<and>
       frame_valid e masked s (sd_current s) (th_saved (sd_threads s' (sd_current s)))"
    and rest: "sd_initialized s' = sd_initialized s" "sd_next_id s' = sd_next_id s" "sd_stacks s' = sd_stacks s"
    and links: "\<And>l. ul_bound (sd_links s' l) = ul_bound (sd_links s l) \<and> ul_context (sd_links s' l) = ul_context (sd_links s l)"
    unfolding switched_def by blast+
  note pick = pick_next_Some [OF sw(1) ok(2)]
  have same: "same_identity (sd_threads s i) (sd_threads s' i)" for i
    using sw(3,4,6) by (cases "i = k \<or> i = sd_current s") auto
  have state: "th_state (sd_threads s' i) = (if i = k then THREAD_RUNNING else if i = sd_current s
      then (if exiting then THREAD_EXITED else THREAD_READY) else th_state (sd_threads s i))" for i
    using sw(3,5) cur by (cases "i = k"; cases "i = sd_current s") (auto split: if_splits)
  have free: "th_state (sd_threads s' i) = THREAD_FREE \<longleftrightarrow> th_state (sd_threads s i) = THREAD_FREE" for i
    using state [of i] pick(3) ok(3) by auto
  show "sd_initialized s'" "sd_current s' < 8" "th_state (sd_threads s' (sd_current s')) = THREAD_RUNNING"
    "sd_next_id s' \<le> 2 ^ 63"
    using rest ok(1,10) sw(2,5) pick(1) by simp_all
  show "sole_running s'"
    unfolding sole_running_def
  proof (intro allI impI)
    fix i :: nat assume i: "i < 8" "th_state (sd_threads s' i) = THREAD_RUNNING"
    show "i = sd_current s'"
    proof (rule ccontr)
      assume "i \<noteq> sd_current s'"
      with i(2) sw(2) state [of i] have "th_state (sd_threads s i) = THREAD_RUNNING" "i \<noteq> sd_current s"
        by (auto split: if_splits)
      with i(1) ok(4) show False unfolding sole_running_def by blast
    qed
  qed
  show "th_state (sd_threads s' 0) \<noteq> THREAD_FREE" "th_state (sd_threads s' 0) \<noteq> THREAD_EXITED"
    using free [of 0] state [of 0] cur ok(5,6) by (auto split: if_splits)
  show "slot_fine e s' i" if "i < 8" for i
  proof (cases "i = k \<or> i = sd_current s")
    case True
    show ?thesis
    proof (rule slot_fine_identity [OF ok(7) [OF that] same _ _ rest(2,3) links])
      show f: "th_state (sd_threads s i) \<noteq> THREAD_FREE" using True pick(3) ok(3) by auto
      show "th_state (sd_threads s' i) \<noteq> THREAD_FREE" using f free by simp
      show "frame_valid e masked s i (th_saved (sd_threads s' i))"
        if "th_state (sd_threads s' i) = THREAD_READY"
        using that True cur state [of i] by (auto split: if_splits)
    qed
  next
    case False
    then show ?thesis
      using slot_fine_untouched [OF ok(7) [OF that], of s'] sw(3) rest links by simp
  qed
  show "ids_distinct s'"
    using ids_distinct_identity [OF ok(8), of s'] free same by (simp add: same_identity_def)
  show "links_apart s'"
    using links_apart_identity [OF ok(9), of s'] same by (simp add: same_identity_def)
qed

text \<open>
  A state in which the current thread's frame has been parked: only that
  thread's frame and statistics, kernel frames of links and counters differ.
\<close>

definition parked :: "sched \<Rightarrow> sched \<Rightarrow> bool" where
  "parked s s' \<longleftrightarrow>
    sd_current s' = sd_current s \<and>
    (\<forall>j. j \<noteq> sd_current s \<longrightarrow> sd_threads s' j = sd_threads s j) \<and>
    same_identity (sd_threads s (sd_current s)) (sd_threads s' (sd_current s)) \<and>
    th_state (sd_threads s' (sd_current s)) = th_state (sd_threads s (sd_current s)) \<and>
    sd_initialized s' = sd_initialized s \<and> sd_next_id s' = sd_next_id s \<and> sd_stacks s' = sd_stacks s \<and>
    (\<forall>l. ul_bound (sd_links s' l) = ul_bound (sd_links s l) \<and> ul_context (sd_links s' l) = ul_context (sd_links s l)) \<and>
    sd_locks s' = sd_locks s \<and> sd_held_locks s' = sd_held_locks s"

lemma parked_state: "parked s s' \<Longrightarrow> th_state (sd_threads s' j) = th_state (sd_threads s j)"
  by (cases "j = sd_current s") (auto simp: parked_def)

lemma parked_pick: "parked s s' \<Longrightarrow> pick_next s' = pick_next s"
  using parked_state [of s s'] by (simp add: pick_next_def current_slot_def parked_def)

lemma parked_ok:
  assumes p: "parked s s'" and ok: "sched_ok e s"
  shows "sched_ok e s'"
proof (rule sched_okI)
  note ok = sched_okD [OF ok]
  from p have same: "same_identity (sd_threads s i) (sd_threads s' i)" for i
    by (cases "i = sd_current s") (auto simp: parked_def)
  from p have cur: "sd_current s' = sd_current s" by (simp add: parked_def)
  note state = parked_state [OF p]
  show "sd_initialized s'" "sd_current s' < 8" "th_state (sd_threads s' (sd_current s')) = THREAD_RUNNING"
    "th_state (sd_threads s' 0) \<noteq> THREAD_FREE" "th_state (sd_threads s' 0) \<noteq> THREAD_EXITED"
    "sd_next_id s' \<le> 2 ^ 63"
    using p ok(1,2,3,5,6,10) state cur by (simp_all add: parked_def)
  show "sole_running s'" using ok(4) unfolding sole_running_def state cur .
  show "slot_fine e s' i" if "i < 8" for i
  proof (cases "i = sd_current s")
    case True
    with ok(3) p show ?thesis
      by (intro slot_fine_identity [OF ok(7) [OF that] same]) (auto simp: parked_def state)
  next
    case False
    with p show ?thesis
      by (intro slot_fine_untouched [OF ok(7) [OF that]]) (auto simp: parked_def)
  qed
  show "ids_distinct s'"
    using ids_distinct_identity [OF ok(8), of s'] state same by (simp add: same_identity_def)
  show "links_apart s'"
    using links_apart_identity [OF ok(9), of s'] same by (simp add: same_identity_def)
qed

lemma picked_frame:
  assumes "sched_ok e s" and "pick_next s = Returns (Some k)"
  shows "frame_valid e masked s k (th_saved (sd_threads s k))"
  using pick_next_Some [OF assms(2) sched_okD(2) [OF assms(1)]] sched_okD(7) [OF assms(1), of k]
  by (simp add: slot_fine_def)

lemma dispatch_switched:
  assumes ok: "sched_ok e s" and p: "parked s s0" and pick: "pick_next s = Returns (Some k)" and c: "if_disabled c"
    and fv: "frame_valid e masked s (sd_current s) (th_saved (sd_threads s0 (sd_current s)))"
  shows "\<exists>s'. dispatch e c k s0 = Returns (s', Saved k) \<and> switched e False k s s'"
proof -
  note k = pick_next_Some [OF pick sched_okD(2) [OF ok]]
  let ?g = "\<lambda>t. t\<lparr>th_statistics := (th_statistics t)\<lparr>ts_dispatches := ts_dispatches (th_statistics t) + 1\<rparr>\<rparr>"
  let ?s1 = "upd_thread k ?g s0"
  from p k(2) have tk: "sd_threads s0 k = sd_threads s k" and cur: "sd_current s0 = sd_current s"
    and st: "sd_stacks s0 = sd_stacks s" by (auto simp: parked_def)
  have "frame_valid e c ?s1 k (th_saved (sd_threads ?s1 k))"
    using picked_frame [OF ok pick] frame_valid_cong [of ?s1 k s e masked "th_saved (sd_threads s k)"] tk st
    by (simp add: upd_thread_def frame_valid_masked [OF c])
  then obtain s' where s': "dispatch e c k s0 = Returns (s', Saved k)"
    and s'_def: "s' = ((upd_thread k (th_state_update (\<lambda>_. THREAD_RUNNING))
         (upd_thread (sd_current s0) (th_state_update (\<lambda>_. THREAD_READY)) ?s1))
           \<lparr>sd_current := k\<rparr>)\<lparr>sd_switches := sd_switches s0 + 1\<rparr>"
    by (simp add: dispatch_def select_thread_def require_ok_def upd_thread_def)
  have "switched e False k s s'"
    using p k(2) pick fv tk cur
    by (auto simp: switched_def s'_def upd_thread_def parked_def same_identity_def)
  with s' show ?thesis by blast
qed

lemma yield_switched:
  assumes ok: "sched_ok e s" and pick: "pick_next s = Returns (Some k)" and c: "if_disabled c"
    and fv: "frame_valid e masked s (sd_current s) f"
  shows "\<exists>s'. and_then (select_thread e c k False s) (\<lambda>s'. Returns (upd_thread (sd_current s) (\<lambda>t. t\<lparr>th_saved := f\<rparr>) s')) =
      Returns s' \<and> switched e False k s s' \<and> th_saved (sd_threads s' (sd_current s)) = f"
proof -
  note k = pick_next_Some [OF pick sched_okD(2) [OF ok]]
  show ?thesis
    using picked_frame [OF ok pick] k(2) pick fv
    by (auto simp: select_thread_def require_ok_def frame_valid_masked [OF c] switched_def upd_thread_def
        same_identity_def)
qed

lemma exit_switched:
  assumes ok: "sched_ok e s" and pick: "pick_next s = Returns (Some k)" and c: "if_disabled c"
    and "sd_current s \<noteq> 0"
  shows "\<exists>s'. select_thread e c k True s = Returns s' \<and> switched e True k s s'"
proof -
  note k = pick_next_Some [OF pick sched_okD(2) [OF ok]]
  show ?thesis
    using picked_frame [OF ok pick] k(2) pick assms(4)
    by (auto simp: select_thread_def require_ok_def frame_valid_masked [OF c] switched_def upd_thread_def
        same_identity_def)
qed

section \<open>Creation and reaping\<close>

text \<open>
  The linker's layout: the trampoline is kernel text, and the boot stack lies
  outside the window of thread stacks.
\<close>

definition env_ok :: "sched_env \<Rightarrow> bool" where
  "env_ok e \<longleftrightarrow> executable e (en_trampoline e) \<and>
    (en_stack_end e \<le> KSTACK_BASE \<or> KSTACK_BASE + 8 * KSTACK_SLOT_SIZE \<le> en_stack_start e)"

text \<open>Page services that take back what they gave out.\<close>

definition services_ok :: "page_services \<Rightarrow> bool" where
  "services_ok ps \<longleftrightarrow> (\<forall>f. ps_release ps f) \<and> (\<forall>v. ps_unmap ps v)"

lemma fresh_frame_valid:
  assumes "kstack_bounds masked st i h = Some (lo, hi)" and "i \<noteq> 0"
    and "th_stack (sd_threads s i) = h" and "kr_records (sd_stacks s) = kr_records st"
    and "executable e rip" and "rflags = 0x002 \<or> rflags = 0x202"
  shows "frame_valid e masked s i (frame_zero\<lparr>ef_rip := rip, ef_cs := CPU_CODE_SELECTOR,
     ef_ss := CPU_DATA_SELECTOR, ef_rsp := hi - 8, ef_rflags := rflags\<rparr>)"
proof -
  have v: "kstack_valid masked st i h" using assms(1) kstack_bounds_iff [of masked st i h] by simp
  obtain lo' hi' where b: "kstack_bounds masked st i h = Some (lo', hi')"
    "unat lo' = 0xffffe00000000000 + unat (ks_slot h) * 20480 + 4096" "unat hi' = unat lo' + 16384"
    using kstack_bounds_valid [OF v] by blast
  have slot: "unat (ks_slot h) < 8" using kstack_valid_slot [OF v] .
  have lo: "unat (lo + frame_size) = unat lo + 176"
    using b assms(1) slot by (simp add: frame_size_def unat_simps)
  have hi: "unat (hi - 8) = unat lo + 16376"
    using b assms(1) slot by (simp add: unat_simps)
  have "bounds e masked s i = Some (lo, hi)"
    using assms(1-4) by (simp add: bounds_def kstack_bounds_def kstack_valid_def)
  moreover have "lo + frame_size \<le> hi - 8" "hi - 8 < hi"
    using lo hi b assms(1) by (simp_all add: word_le_nat_alt word_less_nat_alt)
  ultimately show ?thesis
    using assms(5,6) by (auto simp: frame_valid_def frame_zero_def)
qed

text \<open>
  The effect of a creation or a reaping on one slot \<open>i\<close>, which is neither the
  current one nor the bootstrap slot: nothing else is touched but the registry
  of stacks, whose other owners stay, and the next id.
\<close>

definition slot_changed :: "nat \<Rightarrow> sched \<Rightarrow> sched \<Rightarrow> bool" where
  "slot_changed i s s' \<longleftrightarrow> i \<noteq> 0 \<and> i \<noteq> sd_current s \<and>
    sd_current s' = sd_current s \<and> sd_initialized s' = sd_initialized s \<and>
    (\<forall>j. j \<noteq> i \<longrightarrow> sd_threads s' j = sd_threads s j) \<and>
    sd_next_id s \<le> sd_next_id s' \<and> sd_links s' = sd_links s \<and>
    (\<forall>j h. j \<noteq> i \<longrightarrow> kstack_valid masked (sd_stacks s) j h \<longrightarrow> kstack_valid masked (sd_stacks s') j h) \<and>
    sd_locks s' = sd_locks s \<and> sd_held_locks s' = sd_held_locks s"

lemma slot_changed_ok:
  assumes ch: "slot_changed i s s'" and ok: "sched_ok e s" and fine: "slot_fine e s' i"
    and state: "th_state (sd_threads s' i) \<noteq> THREAD_RUNNING"
    and fresh: "\<And>j. j < 8 \<Longrightarrow> j \<noteq> i \<Longrightarrow> th_state (sd_threads s j) \<noteq> THREAD_FREE \<Longrightarrow>
      th_state (sd_threads s' i) \<noteq> THREAD_FREE \<Longrightarrow> th_id (sd_threads s' i) \<noteq> th_id (sd_threads s j)"
    and user: "th_user (sd_threads s' i) = None \<or> th_user (sd_threads s' i) = th_user (sd_threads s i)"
    and next_id: "sd_next_id s' \<le> 2 ^ 63"
  shows "sched_ok e s'"
proof (rule sched_okI)
  note ok = sched_okD [OF ok]
  from ch have cur: "sd_current s' = sd_current s" and ne: "i \<noteq> sd_current s" "i \<noteq> 0"
    and other: "\<And>j. j \<noteq> i \<Longrightarrow> sd_threads s' j = sd_threads s j"
    by (auto simp: slot_changed_def)
  show "sd_initialized s'" "sd_current s' < 8" "th_state (sd_threads s' (sd_current s')) = THREAD_RUNNING"
    "th_state (sd_threads s' 0) \<noteq> THREAD_FREE" "th_state (sd_threads s' 0) \<noteq> THREAD_EXITED"
    using ch ok(1,2,3,5,6) other [of 0] other [of "sd_current s"] ne cur by (simp_all add: slot_changed_def)
  show "sd_next_id s' \<le> 2 ^ 63" by fact
  show "sole_running s'"
    unfolding sole_running_def
  proof (intro allI impI)
    fix j :: nat assume j: "j < 8" "th_state (sd_threads s' j) = THREAD_RUNNING"
    with state have "j \<noteq> i" by auto
    with other j ok(4) show "j = sd_current s'" unfolding cur sole_running_def by simp
  qed
  show "slot_fine e s' j" if "j < 8" for j
  proof (cases "j = i")
    case False
    with ch show ?thesis
      by (intro slot_fine_untouched [OF ok(7) [OF that]]) (auto simp: slot_changed_def)
  qed (simp add: fine)
  show "ids_distinct s'"
    unfolding ids_distinct_def
  proof (intro allI impI)
    fix j k :: nat
    assume a: "j < 8" "k < 8" "j \<noteq> k" "th_state (sd_threads s' j) \<noteq> THREAD_FREE" "th_state (sd_threads s' k) \<noteq> THREAD_FREE"
    then consider "j = i" "k \<noteq> i" | "k = i" "j \<noteq> i" | "j \<noteq> i" "k \<noteq> i" by blast
    then show "th_id (sd_threads s' j) \<noteq> th_id (sd_threads s' k)"
    proof cases
      case 1
      with fresh [of k] other [of k] a show ?thesis by simp
    next
      case 2
      with fresh [of j] other [of j] a show ?thesis by metis
    next
      case 3
      with ok(8) other a show ?thesis unfolding ids_distinct_def by simp
    qed
  qed
  show "links_apart s'"
    using links_apart_identity [OF ok(9), of s'] user other by (metis (no_types))
qed

lemma unat_next_id:
  assumes "\<not> 2 ^ 63 \<le> (n :: u64)"
  shows "unat (n + 1) = unat n + 1" "n + 1 \<le> 2 ^ 63"
proof -
  have "unat n < 2 ^ 63" using assms by (simp add: word_le_nat_alt)
  then show 1: "unat (n + 1) = unat n + 1" by (simp add: unat_simps)
  show "n + 1 \<le> 2 ^ 63" using \<open>unat n < 2 ^ 63\<close> 1 by (simp add: word_le_nat_alt)
qed

lemma publish_thread_ok:
  assumes ok: "sched_ok e s" and env: "env_ok e" and c: "if_disabled c"
    and al: "kstack_alloc c ps (sd_stacks s) i (th_stack (sd_threads s i)) = Returns (st, h, True)"
    and b: "kstack_bounds c st i h = Some (lo, hi)"
    and i: "i < 8" "i \<noteq> 0" "th_state (sd_threads s i) = THREAD_FREE"
    and n: "\<not> 2 ^ 63 \<le> sd_next_id s" and x: "executable e entry" and fl: "rflags = 0x002 \<or> rflags = 0x202"
  shows "sched_ok e (publish_thread e i st h hi entry arg rflags s)"
    "slot_changed i s (publish_thread e i st h hi entry arg rflags s)"
proof -
  let ?s = "publish_thread e i st h hi entry arg rflags s"
  note okD = sched_okD [OF ok]
  have t: "sd_threads ?s i = (sd_threads s i)\<lparr>th_id := sd_next_id s, th_state := THREAD_READY,
       th_saved := frame_zero\<lparr>ef_rip := en_trampoline e, ef_cs := CPU_CODE_SELECTOR,
         ef_ss := CPU_DATA_SELECTOR, ef_rsp := hi - 8, ef_rflags := rflags\<rparr>,
       th_stack := h, th_entry := entry, th_arg := arg\<rparr>"
    and st: "sd_stacks ?s = st\<lparr>kr_mem := write64 (kr_mem st) (hi - 8) 0\<rparr>"
    and nx: "sd_next_id ?s = sd_next_id s + 1" "sd_links ?s = sd_links s"
    by (simp_all add: publish_thread_def upd_thread_def)
  have valid: "kstack_valid masked (sd_stacks ?s) j k" if "kstack_valid masked st j k" for j k
    using that by (simp add: st kstack_valid_def)
  have le: "sd_next_id s < sd_next_id s + 1"
    using unat_next_id(1) [OF n] by (simp add: word_less_nat_alt)
  have keep: "kstack_valid masked st j k" if "kstack_valid masked (sd_stacks s) j k" for j k
    using kstack_alloc_keeps [OF al that] .
  have "i \<noteq> sd_current s" using i(3) okD(3) by auto
  then show ch: "slot_changed i s ?s"
    using i(2) le keep valid by (auto simp: slot_changed_def publish_thread_def upd_thread_def kstack_valid_def)
  have frame: "frame_valid e masked ?s i (th_saved (sd_threads ?s i))"
    unfolding t using b env x fl i(2)
    by (simp add: t) (rule fresh_frame_valid [of st _ h lo], auto simp: t st env_ok_def kstack_bounds_masked [OF c])
  have "kstack_valid masked st i h"
    using kstack_alloc_valid [OF al] kstack_valid_masked [OF c] by simp
  then have v: "kstack_valid masked (sd_stacks ?s) i h" by (rule valid)
  have pos: "sd_next_id s \<noteq> 0"
    using okD(5) okD(7) [of 0] by (auto simp: slot_fine_def)
  have "\<forall>l. th_user (sd_threads s i) = Some l \<longrightarrow> ul_bound (sd_links s l) \<and> ul_context (sd_links s l) \<noteq> None"
    using okD(7) [OF i(1)] by (simp add: slot_fine_def)
  with frame v pos le x have fine: "slot_fine e ?s i"
    unfolding slot_fine_def nx t by simp
  show "sched_ok e ?s"
  proof (rule slot_changed_ok [OF ch ok fine])
    show "th_id (sd_threads ?s i) \<noteq> th_id (sd_threads s j)"
      if "j < 8" "th_state (sd_threads s j) \<noteq> THREAD_FREE" for j
      using okD(7) [OF that(1)] that(2) by (auto simp: slot_fine_def t)
    show "sd_next_id ?s \<le> 2 ^ 63" using unat_next_id(2) [OF n] by (simp add: nx)
  qed (simp_all add: t)
qed

lemma stacks_memory_ok:
  assumes "sched_ok e s" and "kr_records st = kr_records (sd_stacks s)"
  shows "sched_ok e (s\<lparr>sd_stacks := st\<rparr>)"
proof -
  have v: "kstack_valid masked st = kstack_valid masked (sd_stacks s)"
    using assms(2) by (intro ext) (simp add: kstack_valid_def)
  have b: "bounds e masked (s\<lparr>sd_stacks := st\<rparr>) = bounds e masked s"
    by (intro ext) (simp add: bounds_def kstack_bounds_def v)
  have "slot_fine e (s\<lparr>sd_stacks := st\<rparr>) = slot_fine e s"
    by (intro ext) (simp add: slot_fine_def v frame_valid_def b)
  with assms(1) show ?thesis
    by (simp add: sched_ok_def scheduler_check_iff sole_running_def ids_distinct_def links_apart_def)
qed

lemma create_cases:
  assumes ok: "sched_ok e s" and env: "env_ok e" and ps: "services_ok ps"
  obtains (refused) st where "thread_create_with_flags e c ps out entry arg rflags s = Returns (s\<lparr>sd_stacks := st\<rparr>, None)"
      "kr_records st = kr_records (sd_stacks s)"
  | (created) i st h lo hi where
      "thread_create_with_flags e c ps out entry arg rflags s =
        Returns (publish_thread e i st h hi entry arg rflags s, Some (sd_next_id s))"
      "kstack_alloc c ps (sd_stacks s) i (th_stack (sd_threads s i)) = Returns (st, h, True)"
      "kstack_bounds c st i h = Some (lo, hi)" "i < 8" "th_state (sd_threads s i) = THREAD_FREE"
      "sched_ok e (publish_thread e i st h hi entry arg rflags s)"
      "slot_changed i s (publish_thread e i st h hi entry arg rflags s)" "\<not> 2 ^ 63 \<le> sd_next_id s"
proof (cases "foreground c \<and> sd_initialized s \<and> out \<and> executable e entry \<and> \<not> 2 ^ 63 \<le> sd_next_id s \<and>
    (rflags = 0x002 \<or> rflags = 0x202)")
  case False
  then have "thread_create_with_flags e c ps out entry arg rflags s = Returns (s, None)"
    by (auto simp: thread_create_with_flags_def)
  then show thesis by (intro refused [of "sd_stacks s"]) simp_all
next
  case True
  then have c: "if_disabled c" and n: "\<not> 2 ^ 63 \<le> sd_next_id s" and x: "executable e entry"
    and fl: "rflags = 0x002 \<or> rflags = 0x202" by (auto simp: foreground_def)
  let ?i = "find (\<lambda>i. th_state (sd_threads s i) = THREAD_FREE) [1..<SCHED_THREADS]"
  show thesis
  proof (cases ?i)
    case None
    with True ok c have "thread_create_with_flags e c ps out entry arg rflags s = Returns (s, None)"
      by (auto simp: thread_create_with_flags_def)
    then show thesis by (intro refused [of "sd_stacks s"]) simp_all
  next
    case (Some i)
    then have i: "i < 8" "i \<noteq> 0" "th_state (sd_threads s i) = THREAD_FREE"
      by (auto simp: find_Some_iff SCHED_THREADS_def)
    obtain st h b where al: "kstack_alloc c ps (sd_stacks s) i (th_stack (sd_threads s i)) = Returns (st, h, b)"
      using kstack_alloc_returns ps unfolding services_ok_def by (metis prod_cases3)
    note r = thread_create_with_flags_def [of e c ps out entry arg rflags s]
    show thesis
    proof (cases b)
      case False
      from al False have "kr_records st = kr_records (sd_stacks s)"
        by (cases rule: kstack_alloc_cases) simp_all
      moreover have "thread_create_with_flags e c ps out entry arg rflags s = Returns (s\<lparr>sd_stacks := st\<rparr>, None)"
        unfolding r using True False Some al c ok fl by auto
      ultimately show thesis by (intro refused)
    next
      case b: True
      with al have al: "kstack_alloc c ps (sd_stacks s) i (th_stack (sd_threads s i)) = Returns (st, h, True)"
        by simp
      obtain lo hi where bd: "kstack_bounds c st i h = Some (lo, hi)"
        using kstack_bounds_valid [OF kstack_alloc_valid [OF al]] by blast
      note new = publish_thread_ok [OF ok env c al bd i n x fl, of arg]
      have "thread_create_with_flags e c ps out entry arg rflags s =
          Returns (publish_thread e i st h hi entry arg rflags s, Some (sd_next_id s))"
        unfolding r using True Some al c ok fl bd new(1) by auto
      then show thesis by (rule created [OF _ al bd i(1,3) new n])
    qed
  qed
qed

text \<open>The stack pointer of the caller lies in the current thread's stack, and so in no other.\<close>

definition on_current_stack :: "sched_env \<Rightarrow> sched \<Rightarrow> u64 \<Rightarrow> bool" where
  "on_current_stack e s rsp =
    (case bounds e masked s (sd_current s) of None \<Rightarrow> False | Some (lo, hi) \<Rightarrow> lo \<le> rsp \<and> rsp < hi)"

lemma rsp_outside:
  assumes ok: "sched_ok e s" and env: "env_ok e" and rsp: "on_current_stack e s rsp"
    and v: "kstack_valid masked (sd_stacks s) i h" and i: "i \<noteq> sd_current s"
  shows "rsp \<notin> stack_region h"
proof (cases "sd_current s = 0")
  case True
  from kstack_valid_slot [OF v] have slot: "unat (ks_slot h) < 8" .
  from True rsp have "unat (en_stack_start e) \<le> unat rsp" "unat rsp < unat (en_stack_end e)"
    by (simp_all add: on_current_stack_def bounds_def word_le_nat_alt word_less_nat_alt)
  moreover have "unat (en_stack_end e) \<le> 0xffffe00000000000 \<or> 0xffffe00000028000 \<le> unat (en_stack_start e)"
    using env by (simp add: env_ok_def kstack_layout word_le_nat_alt)
  ultimately show ?thesis using slot by (auto simp: stack_region_iff)
next
  case False
  let ?h = "th_stack (sd_threads s (sd_current s))"
  from sched_okD(2,3) [OF ok] sched_okD(7) [OF ok, of "sd_current s"] False
  have own: "kstack_valid masked (sd_stacks s) (sd_current s) ?h" by (simp add: slot_fine_def)
  obtain lo hi where b: "kstack_bounds masked (sd_stacks s) (sd_current s) ?h = Some (lo, hi)"
    "hi = base_of (ks_slot ?h) + KSTACK_SLOT_SIZE"
    "unat lo = 0xffffe00000000000 + unat (ks_slot ?h) * 20480 + 4096"
    using kstack_bounds_valid [OF own] by blast
  have base: "unat (base_of (ks_slot ?h)) \<le> unat lo"
    using unat_base_of [OF kstack_valid_slot [OF own]] b(3) by simp
  from rsp False b(1) have "lo \<le> rsp" "rsp < hi" by (simp_all add: on_current_stack_def bounds_def)
  with b(2) base have "rsp \<in> stack_region ?h"
    by (simp add: stack_region_def word_le_nat_alt)
  with kp.outside [OF own v] i show ?thesis by blast
qed

lemma find_thread_Some:
  assumes "find_thread s tid = Some i"
  shows "i < 8" "tid \<noteq> 0" "th_state (sd_threads s i) \<noteq> THREAD_FREE" "th_id (sd_threads s i) = tid"
  using assms by (auto simp: find_thread_def find_Some_iff SCHED_THREADS_def split: if_splits)

text \<open>Every exited thread's stack still passes \<^verbatim>\<open>kstack_check\<close>.\<close>

definition exited_stacks_intact :: "cpu_ctx \<Rightarrow> page_services \<Rightarrow> sched \<Rightarrow> bool" where
  "exited_stacks_intact c ps s \<longleftrightarrow> (\<forall>i<8. i \<noteq> 0 \<longrightarrow> th_state (sd_threads s i) = THREAD_EXITED \<longrightarrow>
     kstack_check c ps (sd_stacks s) i (th_stack (sd_threads s i)))"

lemma join_cases:
  assumes ok: "sched_ok e s" and env: "env_ok e" and ps: "services_ok ps"
    and rsp: "on_current_stack e s rsp" and intact: "foreground c \<longrightarrow> exited_stacks_intact c ps s"
  obtains (refused) "thread_join e c ps rsp tid s = Returns (s, False)"
  | (reaped) i s' where "thread_join e c ps rsp tid s = Returns (s', True)" "sched_ok e s'"
      "slot_changed i s s'" "find_thread s tid = Some i" "th_state (sd_threads s i) = THREAD_EXITED"
      "sd_threads s' i = thread_zero" "sd_next_id s' = sd_next_id s"
      "stack_released c (sd_stacks s) i (th_stack (sd_threads s i)) (sd_stacks s')"
proof (cases "foreground c \<and> (\<exists>i. find_thread s tid = Some i \<and> i \<noteq> sd_current s \<and> i \<noteq> 0 \<and>
    th_state (sd_threads s i) = THREAD_EXITED)")
  case False
  then show thesis
    using refused ok by (cases "find_thread s tid") (auto simp: thread_join_def foreground_def sched_okD(1))
next
  case True
  then obtain i where c: "if_disabled c" "foreground c" and f: "find_thread s tid = Some i"
    and i: "i \<noteq> sd_current s" "i \<noteq> 0" "th_state (sd_threads s i) = THREAD_EXITED"
    by (auto simp: foreground_def)
  note find = find_thread_Some [OF f]
  let ?h = "th_stack (sd_threads s i)"
  define st where "st = (sd_stacks s)\<lparr>kr_records := (kr_records (sd_stacks s))(unat (ks_slot ?h) :=
            \<lparr>sr_owner = None, sr_generation = 0, sr_frames = [0, 0, 0, 0]\<rparr>)\<rparr>"
  define s' where "s' = (upd_thread i (\<lambda>_. thread_zero) s)\<lparr>sd_stacks := st\<rparr>"
  have v: "kstack_valid masked (sd_stacks s) i ?h"
    using sched_okD(7) [OF ok find(1)] i by (simp add: slot_fine_def)
  have fr: "kstack_free c ps rsp (sd_stacks s) i ?h = Returns (st, \<lparr>ks_slot = 0, ks_generation = 0\<rparr>, True)"
    unfolding st_def
  proof (rule kstack_free_frees)
    show "kstack_check c ps (sd_stacks s) i ?h"
      using intact [rule_format, OF c(2)] find(1) i by (simp add: exited_stacks_intact_def)
    show "rsp \<notin> stack_region ?h" using rsp_outside [OF ok env rsp v i(1)] .
  qed (use ps in \<open>simp_all add: services_ok_def\<close>)
  have ch: "slot_changed i s s'"
    using i kstack_free_keeps [OF fr] by (auto simp: slot_changed_def s'_def upd_thread_def)
  have fine: "slot_fine e s' i" by (simp add: slot_fine_def s'_def upd_thread_def thread_zero_def)
  have ok': "sched_ok e s'"
    by (rule slot_changed_ok [OF ch ok fine])
      (use sched_okD(10) [OF ok] in \<open>simp_all add: s'_def upd_thread_def thread_zero_def\<close>)
  then have "thread_join e c ps rsp tid s = Returns (s', True)"
    using c f i ok fr by (simp add: thread_join_def sched_okD(1) require_ok_def s'_def [symmetric])
  moreover have "stack_released c (sd_stacks s) i ?h (sd_stacks s')"
    using fr by (auto simp: stack_released_def s'_def)
  ultimately show thesis
    using ok' ch f i(3) by (intro reaped [of s' i]) (simp_all add: s'_def upd_thread_def)
qed

section \<open>User links and locks\<close>

text \<open>A change of the current thread's link: bound on attaching, unbound on detaching.\<close>

lemma relinked_ok:
  assumes ok: "sched_ok e s" and l: "\<And>j. j < 8 \<Longrightarrow> j \<noteq> sd_current s \<Longrightarrow> th_user (sd_threads s j) \<noteq> Some l"
    and u: "u = None \<or> u = Some l \<and> b \<and> ul_context (sd_links s l) \<noteq> None"
  shows "sched_ok e ((upd_thread (sd_current s) (\<lambda>t. t\<lparr>th_user := u\<rparr>) s)
    \<lparr>sd_links := (sd_links s)(l := (sd_links s l)\<lparr>ul_bound := b\<rparr>)\<rparr>)" (is "sched_ok e ?s")
proof (rule sched_okI)
  note okD = sched_okD [OF ok]
  have state: "th_state (sd_threads ?s i) = th_state (sd_threads s i)" and tid: "th_id (sd_threads ?s i) = th_id (sd_threads s i)"
    and saved: "th_saved (sd_threads ?s i) = th_saved (sd_threads s i)"
    and stk: "th_stack (sd_threads ?s i) = th_stack (sd_threads s i)" "th_entry (sd_threads ?s i) = th_entry (sd_threads s i)" for i
    by (simp_all add: upd_thread_def)
  have cur: "sd_current ?s = sd_current s" by (simp add: upd_thread_def)
  show "sd_initialized ?s" "sd_current ?s < 8" "th_state (sd_threads ?s (sd_current ?s)) = THREAD_RUNNING"
    "th_state (sd_threads ?s 0) \<noteq> THREAD_FREE" "th_state (sd_threads ?s 0) \<noteq> THREAD_EXITED" "sd_next_id ?s \<le> 2 ^ 63"
    using okD(1,2,3,5,6,10) unfolding state cur by (simp_all add: upd_thread_def)
  show "sole_running ?s" using okD(4) unfolding sole_running_def state cur .
  show "ids_distinct ?s" using okD(8) unfolding ids_distinct_def state tid .
  show "links_apart ?s"
    using okD(9) l u unfolding links_apart_def by (auto simp: upd_thread_def)
  show "slot_fine e ?s i" if i: "i < 8" for i
  proof -
    have "frame_valid e masked ?s i f = frame_valid e masked s i f" for f
      by (rule frame_valid_cong) (simp_all add: upd_thread_def)
    moreover have "\<forall>k. th_user (sd_threads ?s i) = Some k \<longrightarrow> ul_bound (sd_links ?s k) \<and> ul_context (sd_links ?s k) \<noteq> None"
      using okD(7) [OF i] l [OF i] u by (auto simp: slot_fine_def upd_thread_def split: if_splits)
    moreover have "sd_stacks ?s = sd_stacks s" "sd_next_id ?s = sd_next_id s" by (simp_all add: upd_thread_def)
    ultimately show ?thesis
      using okD(7) [OF i] unfolding slot_fine_def state tid saved stk by simp
  qed
qed

lemma attach_cases:
  assumes ok: "sched_ok e s"
  obtains (refused) "thread_attach_user e c link s = Returns (s, False)"
  | (attached) l x s' where "thread_attach_user e c link s = Returns (s', True)" "sched_ok e s'"
      "link = Some l" "\<not> ul_bound (sd_links s l)" "ul_context (sd_links s l) = Some x"
      "uc_state (sd_contexts s x) = USER_ACTIVE" "th_user (sd_threads s (sd_current s)) = None"
      "s' = (upd_thread (sd_current s) (\<lambda>t. t\<lparr>th_user := Some l\<rparr>) s)
        \<lparr>sd_links := (sd_links s)(l := (sd_links s l)\<lparr>ul_bound := True\<rparr>)\<rparr>"
proof (cases "\<exists>l x. foreground c \<and> link = Some l \<and> \<not> ul_bound (sd_links s l) \<and> ul_context (sd_links s l) = Some x \<and>
    uc_link (sd_contexts s x) = l \<and> uc_state (sd_contexts s x) = USER_ACTIVE \<and> uc_root (sd_contexts s x) \<noteq> 0 \<and>
    uc_identity (sd_contexts s x) \<and> th_user (sd_threads s (sd_current s)) = None")
  case False
  then show thesis
    using refused ok
    by (cases link; cases "ul_context (sd_links s (the link))")
      (auto simp: thread_attach_user_def foreground_def Let_def)
next
  case True
  then obtain l x where a: "foreground c" "link = Some l" "\<not> ul_bound (sd_links s l)"
    "ul_context (sd_links s l) = Some x" "uc_link (sd_contexts s x) = l" "uc_state (sd_contexts s x) = USER_ACTIVE"
    "uc_root (sd_contexts s x) \<noteq> 0" "uc_identity (sd_contexts s x)" "th_user (sd_threads s (sd_current s)) = None"
    by blast
  let ?s = "(upd_thread (sd_current s) (\<lambda>t. t\<lparr>th_user := Some l\<rparr>) s)
        \<lparr>sd_links := (sd_links s)(l := (sd_links s l)\<lparr>ul_bound := True\<rparr>)\<rparr>"
  have "th_user (sd_threads s j) \<noteq> Some l" if "j < 8" for j
    using sched_okD(7) [OF ok that] a(3) by (auto simp: slot_fine_def)
  then have ok': "sched_ok e ?s" using a(4) by (intro relinked_ok [OF ok]) auto
  then have "thread_attach_user e c link s = Returns (?s, True)"
    using a ok by (simp add: thread_attach_user_def sched_okD(1) foreground_def)
  from attached [OF this ok' a(2,3,4,6,9)] show thesis by simp
qed

lemma detach_cases:
  assumes ok: "sched_ok e s"
  obtains (refused) "thread_detach_user e c s = Returns (s, False)"
  | (detached) l s' where "thread_detach_user e c s = Returns (s', True)" "sched_ok e s'"
      "th_user (sd_threads s (sd_current s)) = Some l"
      "s' = (upd_thread (sd_current s) (\<lambda>t. t\<lparr>th_user := None\<rparr>) s)
        \<lparr>sd_links := (sd_links s)(l := (sd_links s l)\<lparr>ul_bound := False\<rparr>)\<rparr>"
proof (cases "foreground c \<and> th_user (sd_threads s (sd_current s)) \<noteq> None")
  case False
  then show thesis
    using refused by (cases "th_user (sd_threads s (sd_current s))") (auto simp: thread_detach_user_def)
next
  case True
  then obtain l where c: "foreground c" and u: "th_user (sd_threads s (sd_current s)) = Some l" by blast
  let ?s = "(upd_thread (sd_current s) (\<lambda>t. t\<lparr>th_user := None\<rparr>) s)
        \<lparr>sd_links := (sd_links s)(l := (sd_links s l)\<lparr>ul_bound := False\<rparr>)\<rparr>"
  have "th_user (sd_threads s j) \<noteq> Some l" if "j < 8" "j \<noteq> sd_current s" for j
    using sched_okD(2,9) [OF ok] u that unfolding links_apart_def by blast
  then have ok': "sched_ok e ?s" by (intro relinked_ok [OF ok]) auto
  then have "thread_detach_user e c s = Returns (?s, True)"
    using c u ok by (simp add: thread_detach_user_def sched_okD(1) foreground_def)
  from detached [OF this ok' u] show thesis by simp
qed

lemma locks_ok: "sched_ok e (s\<lparr>sd_locks := x, sd_held_locks := y\<rparr>) = sched_ok e s"
proof -
  have "frame_valid e masked (s\<lparr>sd_locks := x, sd_held_locks := y\<rparr>) i f = frame_valid e masked s i f" for i f
    by (rule frame_valid_cong) simp_all
  then show ?thesis
    by (simp add: sched_ok_def scheduler_check_iff slot_fine_def sole_running_def ids_distinct_def links_apart_def)
qed
end
