(* ===== verification/Sched_Run.thy ===== *)
theory Sched_Run
  imports Sched_Inv
begin

text \<open>
  Histories of the scheduler: every call that changes its state, in any order,
  under the conditions its callers keep. The properties state that no such
  history panics or breaks the invariant, that a ready thread runs within seven
  switches with its saved frame intact, that the timer path and the handoff
  agree, and what thread ids and locks mean over time.
\<close>

section \<open>Calls\<close>

datatype sched_call =
  Create cpu_ctx page_services bool u64 u64 u64
| Join cpu_ctx page_services u64 u64
| Yield cpu_ctx exception_frame
| Exit cpu_ctx
| Tick cpu_ctx user_answers u64 exception_frame
| User_Next cpu_ctx "nat option" u64
| Park cpu_ctx user_answers exception_frame
| Attach cpu_ctx "nat option"
| Detach cpu_ctx
| Lock cpu_ctx u64
| Unlock cpu_ctx u64

primrec sched_exec :: "sched_env \<Rightarrow> sched_call \<Rightarrow> sched \<Rightarrow> sched outcome" where
  "sched_exec e (Create c ps out entry arg fl) s =
    and_then (thread_create_with_flags e c ps out entry arg fl s) (\<lambda>r. Returns (fst r))"
| "sched_exec e (Join c ps rsp tid) s = and_then (thread_join e c ps rsp tid s) (\<lambda>r. Returns (fst r))"
| "sched_exec e (Yield c f) s = and_then (thread_yield e c f s) (\<lambda>r. Returns (fst r))"
| "sched_exec e (Exit c) s = and_then (thread_exit e c s) (\<lambda>r. Returns (fst r))"
| "sched_exec e (Tick c ua fa f) s = and_then (sched_tick e c ua fa f s) (\<lambda>r. Returns (fst r))"
| "sched_exec e (User_Next c l code) s = and_then (user_schedule_next e c l code s) (\<lambda>r. Returns (fst r))"
| "sched_exec e (Park c ua f) s = and_then (sched_park_cpl3 e c ua f s) (\<lambda>r. Returns (fst r))"
| "sched_exec e (Attach c l) s = and_then (thread_attach_user e c l s) (\<lambda>r. Returns (fst r))"
| "sched_exec e (Detach c) s = and_then (thread_detach_user e c s) (\<lambda>r. Returns (fst r))"
| "sched_exec e (Lock c l) s = and_then (spin_lock e c l s) (\<lambda>r. Returns (fst r))"
| "sched_exec e (Unlock c l) s = Returns (fst (spin_unlock c l s))"

text \<open>
  The kernel frame of the current thread's user link is valid for its stack:
  what \<^verbatim>\<open>user.h\<close> says of \<^verbatim>\<open>kern_save\<close>.
\<close>

definition kern_save_valid :: "sched_env \<Rightarrow> sched \<Rightarrow> bool" where
  "kern_save_valid e s =
    (case th_user (sd_threads s (sd_current s)) of None \<Rightarrow> False
     | Some l \<Rightarrow> frame_valid e masked s (sd_current s) (ul_kern_save (sd_links s l)))"

text \<open>The conditions under which each call is made.\<close>

primrec call_ok :: "sched_env \<Rightarrow> sched \<Rightarrow> sched_call \<Rightarrow> bool" where
  "call_ok e s (Create c ps out entry arg fl) \<longleftrightarrow> services_ok ps"
| "call_ok e s (Join c ps rsp tid) \<longleftrightarrow>
    services_ok ps \<and> on_current_stack e s rsp \<and> (foreground c \<longrightarrow> exited_stacks_intact c ps s)"
| "call_ok e s (Yield c f) \<longleftrightarrow>
    (\<not> if_disabled c \<longrightarrow> \<not> in_irq c \<and> sd_held_locks s = 0) \<and> frame_valid e masked s (sd_current s) f"
| "call_ok e s (Exit c) \<longleftrightarrow> \<not> in_irq c \<and> sd_held_locks s = 0 \<and> sd_current s \<noteq> 0"
| "call_ok e s (Tick c ua fa f) \<longleftrightarrow>
    if_disabled c \<and> in_irq c \<and> sd_held_locks s = 0 \<and>
    (if ef_cs f AND 3 = 3
     then ua_origin_ok ua \<and> ua_publish_stop ua \<and> ua_save_state ua \<and> kern_save_valid e s
     else in_stack e c fa s \<and> frame_valid e masked s (sd_current s) f \<and> ef_rflags f AND 0x200 \<noteq> 0)"
| "call_ok e s (User_Next c l code) \<longleftrightarrow>
    if_disabled c \<and> \<not> in_irq c \<and> l = th_user (sd_threads s (sd_current s)) \<and>
    USER_RUN_EXITED \<le> code \<and> code \<le> USER_RUN_UNLINK \<and> kern_save_valid e s"
| "call_ok e s (Park c ua f) \<longleftrightarrow>
    (ef_cs f AND 3 = 3 \<longrightarrow> if_disabled c \<and> in_irq c \<and> sd_held_locks s = 0 \<and>
       th_user (sd_threads s (sd_current s)) \<noteq> None \<and> ua_save_state ua \<and> sd_cpl3_parks s \<noteq> - 1)"
| "call_ok e s (Attach c l) \<longleftrightarrow> True"
| "call_ok e s (Detach c) \<longleftrightarrow> True"
| "call_ok e s (Lock c l) \<longleftrightarrow> True"
| "call_ok e s (Unlock c l) \<longleftrightarrow> True"

text \<open>The calls that give the processor away when another thread is ready.\<close>

primrec switching :: "sched \<Rightarrow> sched_call \<Rightarrow> bool" where
  "switching s (Create c ps out entry arg fl) \<longleftrightarrow> False"
| "switching s (Join c ps rsp tid) \<longleftrightarrow> False"
| "switching s (Yield c f) \<longleftrightarrow> \<not> in_irq c \<and> sd_held_locks s = 0"
| "switching s (Exit c) \<longleftrightarrow> True"
| "switching s (Tick c ua fa f) \<longleftrightarrow> True"
| "switching s (User_Next c l code) \<longleftrightarrow> True"
| "switching s (Park c ua f) \<longleftrightarrow> False"
| "switching s (Attach c l) \<longleftrightarrow> False"
| "switching s (Detach c) \<longleftrightarrow> False"
| "switching s (Lock c l) \<longleftrightarrow> False"
| "switching s (Unlock c l) \<longleftrightarrow> False"

section \<open>One call\<close>

text \<open>What a call that does not switch leaves alone.\<close>

definition stays :: "sched \<Rightarrow> sched \<Rightarrow> bool" where
  "stays s s' \<longleftrightarrow> sd_current s' = sd_current s \<and> sd_next_id s \<le> sd_next_id s' \<and>
    (\<forall>j<8. th_state (sd_threads s j) = THREAD_READY \<longrightarrow> sd_threads s' j = sd_threads s j) \<and>
    (\<forall>j<8. th_state (sd_threads s' j) \<noteq> THREAD_FREE \<longrightarrow>
       th_state (sd_threads s j) \<noteq> THREAD_FREE \<and> th_id (sd_threads s' j) = th_id (sd_threads s j) \<or>
       sd_next_id s \<le> th_id (sd_threads s' j))"

lemma stays_refl [simp]: "stays s s"
  by (simp add: stays_def)

lemma stays_parked:
  assumes p: "parked s s'" and ok: "sched_ok e s"
  shows "stays s s'"
proof -
  have same: "th_id (sd_threads s' j) = th_id (sd_threads s j)" for j
    using p by (cases "j = sd_current s") (auto simp: parked_def same_identity_def)
  have ready: "sd_threads s' j = sd_threads s j" if "th_state (sd_threads s j) = THREAD_READY" for j
    using p that sched_okD(3) [OF ok] by (cases "j = sd_current s") (auto simp: parked_def)
  show ?thesis
    using p ready unfolding stays_def parked_state [OF p] same by (simp add: parked_def)
qed

definition outcome_ok :: "sched_env \<Rightarrow> sched_call \<Rightarrow> sched \<Rightarrow> sched \<Rightarrow> bool" where
  "outcome_ok e call s s' \<longleftrightarrow> sched_ok e s' \<and>
    (switching s call \<and> (\<exists>x k. switched e x k s s') \<or>
     stays s s' \<and> (switching s call \<longrightarrow> pick_next s = Returns None))"

lemma outcome_stays: "sched_ok e s' \<Longrightarrow> stays s s' \<Longrightarrow> \<not> switching s call \<Longrightarrow> outcome_ok e call s s'"
  by (simp add: outcome_ok_def)

lemma outcome_switched:
  "switched e x k s s' \<Longrightarrow> sched_ok e s \<Longrightarrow> switching s call \<Longrightarrow> outcome_ok e call s s'"
  using switched_ok by (auto simp: outcome_ok_def)

lemma park_parked: "sd_current s < 8 \<Longrightarrow> parked s (park l code s)"
  by (simp add: parked_def park_def Let_def upd_thread_def same_identity_def)

lemma park_saved: "th_saved (sd_threads (park l code s) (sd_current s)) = (ul_kern_save (sd_links s l))\<lparr>ef_rax := code\<rparr>"
  by (simp add: park_def Let_def upd_thread_def)

lemma note_parked:
  "parked s s' \<Longrightarrow> parked s (upd_thread (sd_current s) (note_preempted f) s')"
  by (simp add: parked_def upd_thread_def note_preempted_def same_identity_def)

text \<open>The common end of the tick, the user exit and their relatives.\<close>

definition resumable :: "sched_env \<Rightarrow> u64 \<Rightarrow> exception_frame \<Rightarrow> frame_ref \<Rightarrow> sched \<Rightarrow> bool" where
  "resumable e fa f r s =
    (case r of
       Interrupted \<Rightarrow> in_stack e masked fa s \<and> frame_valid e masked s (sd_current s) f
     | Saved k \<Rightarrow> k = sd_current s \<and> frame_valid e masked s k (th_saved (sd_threads s k))
     | Elsewhere \<Rightarrow> False)"

lemma switched_resumable:
  assumes sw: "switched e x k s s'" and ok: "sched_ok e s"
  shows "resumable e fa f (Saved k) s'"
proof -
  from sw have pick: "pick_next s = Returns (Some k)" and saved: "th_saved (sd_threads s' k) = th_saved (sd_threads s k)"
    and st: "th_stack (sd_threads s' k) = th_stack (sd_threads s k)" "sd_stacks s' = sd_stacks s" "sd_current s' = k"
    by (simp_all add: switched_def same_identity_def)
  show ?thesis
    using picked_frame [OF ok pick] frame_valid_cong [OF st(1,2)] by (simp add: resumable_def saved st(3))
qed

lemma dispatch_outcome:
  assumes ok: "sched_ok e s" and p: "parked s s0" and c: "if_disabled c" and sw: "switching s call"
    and fv: "pick_next s \<noteq> Returns None \<Longrightarrow> frame_valid e masked s (sd_current s) (th_saved (sd_threads s0 (sd_current s)))"
    and alone: "pick_next s = Returns None \<Longrightarrow> parked s s1"
    and res: "pick_next s = Returns None \<Longrightarrow> resumable e fa f r0 s1"
  shows "\<exists>s' r. and_then (pick_next s) (\<lambda>n. case n of None \<Rightarrow> Returns (s1, r0) | Some k \<Rightarrow> dispatch e c k s0) =
      Returns (s', r) \<and> outcome_ok e call s s' \<and> resumable e fa f r s'"
proof -
  obtain n where n: "pick_next s = Returns n"
    using pick_next_current sched_okD(2) [OF ok] by blast
  show ?thesis
  proof (cases n)
    case None
    with n alone have "sched_ok e s1" "stays s s1"
      using parked_ok [OF _ ok] stays_parked [OF _ ok] by simp_all
    with n None res show ?thesis by (simp add: outcome_ok_def)
  next
    case (Some k)
    with n dispatch_switched [OF ok p _ c fv, of k] obtain s' where
      "dispatch e c k s0 = Returns (s', Saved k)" "switched e False k s s'" by auto
    with n Some outcome_switched [OF _ ok sw] switched_resumable [OF _ ok] show ?thesis by auto
  qed
qed

lemma parked_resumable:
  assumes p: "parked s s'" and fv: "frame_valid e masked s (sd_current s) (th_saved (sd_threads s' (sd_current s)))"
  shows "resumable e fa f (Saved (sd_current s)) s'"
proof -
  from p have "th_stack (sd_threads s' (sd_current s)) = th_stack (sd_threads s (sd_current s))"
    "sd_stacks s' = sd_stacks s" "sd_current s' = sd_current s"
    by (simp_all add: parked_def same_identity_def)
  with fv frame_valid_cong [of s' "sd_current s" s e masked] show ?thesis by (simp add: resumable_def)
qed

lemma slot_changed_stays:
  assumes ch: "slot_changed i s s'" and i: "th_state (sd_threads s i) \<noteq> THREAD_READY"
    and new: "th_state (sd_threads s' i) = THREAD_FREE \<or> sd_next_id s \<le> th_id (sd_threads s' i)"
  shows "stays s s'"
  unfolding stays_def
proof (intro conjI allI impI)
  show "sd_current s' = sd_current s" "sd_next_id s \<le> sd_next_id s'"
    using ch by (simp_all add: slot_changed_def)
  fix j :: nat
  show "sd_threads s' j = sd_threads s j" if "th_state (sd_threads s j) = THREAD_READY"
    using ch i that by (cases "j = i") (auto simp: slot_changed_def)
  show "th_state (sd_threads s j) \<noteq> THREAD_FREE \<and> th_id (sd_threads s' j) = th_id (sd_threads s j) \<or>
      sd_next_id s \<le> th_id (sd_threads s' j)" if "th_state (sd_threads s' j) \<noteq> THREAD_FREE"
    using ch new that by (cases "j = i") (auto simp: slot_changed_def)
qed

lemma exec_create:
  assumes ok: "sched_ok e s" and env: "env_ok e" and "call_ok e s (Create c ps out entry arg fl)"
  shows "\<exists>s'. sched_exec e (Create c ps out entry arg fl) s = Returns s' \<and>
    outcome_ok e (Create c ps out entry arg fl) s s'"
proof -
  from assms(3) have ps: "services_ok ps" by simp
  from ok env ps show ?thesis
  proof (cases rule: create_cases [where c = c and out = out and entry = entry and arg = arg and rflags = fl])
    case (refused st)
    then show ?thesis
      using stacks_memory_ok [OF ok refused(2)] by (simp add: outcome_ok_def stays_def)
  next
    case (created i st h lo hi)
    have "stays s (publish_thread e i st h hi entry arg fl s)"
      using slot_changed_stays [OF created(7)] created(5) by (simp add: publish_thread_def upd_thread_def)
    with created show ?thesis by (simp add: outcome_stays)
  qed
qed

lemma exec_join:
  assumes ok: "sched_ok e s" and env: "env_ok e" and "call_ok e s (Join c ps rsp tid)"
  shows "\<exists>s'. sched_exec e (Join c ps rsp tid) s = Returns s' \<and> outcome_ok e (Join c ps rsp tid) s s'"
proof -
  from assms(3) have pre: "services_ok ps" "on_current_stack e s rsp"
    "foreground c \<longrightarrow> exited_stacks_intact c ps s" by simp_all
  from ok env pre show ?thesis
  proof (cases rule: join_cases [where c = c and tid = tid])
    case refused
    then show ?thesis using ok by (simp add: outcome_stays)
  next
    case (reaped i s')
    then show ?thesis
      using slot_changed_stays [OF reaped(3)] by (simp add: outcome_stays thread_zero_def)
  qed
qed

lemma exec_yield:
  assumes ok: "sched_ok e s" and "call_ok e s (Yield c f)"
  shows "\<exists>s'. sched_exec e (Yield c f) s = Returns s' \<and> outcome_ok e (Yield c f) s s'"
proof (cases "in_irq c \<or> sd_held_locks s \<noteq> 0")
  case True
  then show ?thesis
    using assms by (auto simp: thread_yield_def irq_save_def irq_restore_def require_ok_def outcome_stays)
next
  case False
  obtain n where n: "pick_next s = Returns n"
    using pick_next_current sched_okD(2) [OF ok] by blast
  show ?thesis
  proof (cases n)
    case None
    with False n ok show ?thesis
      by (simp add: thread_yield_def irq_save_def irq_restore_def require_ok_def sched_okD(1) outcome_ok_def)
  next
    case (Some k)
    let ?c = "c\<lparr>if_disabled := True\<rparr>"
    from assms(2) n Some yield_switched [OF ok, of k ?c f] obtain s' where
      r: "and_then (select_thread e ?c k False s) (\<lambda>s'. Returns (upd_thread (sd_current s) (\<lambda>t. t\<lparr>th_saved := f\<rparr>) s')) = Returns s'"
      and sw: "switched e False k s s'" by auto
    from r have "and_then (select_thread e ?c k False s)
        (\<lambda>s'. Returns (upd_thread (sd_current s) (\<lambda>t. t\<lparr>th_saved := f\<rparr>) s', ?c, Switched (Saved k))) =
      Returns (s', ?c, Switched (Saved k))"
      by (cases "select_thread e ?c k False s") simp_all
    with n Some False ok have "sched_exec e (Yield c f) s = Returns s'"
      by (simp add: thread_yield_def irq_save_def sched_okD(1))
    with outcome_switched [OF sw ok] False show ?thesis by simp
  qed
qed

text \<open>The bootstrap thread never exits, so an exiting thread always finds a successor.\<close>

lemma exit_successor:
  assumes ok: "sched_ok e s" and "sd_current s \<noteq> 0"
  obtains k where "pick_next s = Returns (Some k)"
proof -
  obtain n where n: "pick_next s = Returns n"
    using pick_next_current sched_okD(2) [OF ok] by blast
  have "th_state (sd_threads s 0) \<noteq> THREAD_RUNNING"
    using sched_okD(4) [OF ok, unfolded sole_running_def, rule_format, of 0] assms(2) by auto
  then have "th_state (sd_threads s 0) = THREAD_READY"
    using sched_okD(5,6) [OF ok] by (cases "th_state (sd_threads s 0)") simp_all
  with n pick_next_None [OF _ sched_okD(2) [OF ok], of 0] assms(2) show thesis
    using that by (cases n) auto
qed

lemma exec_exit:
  assumes ok: "sched_ok e s" and "call_ok e s (Exit c)"
  shows "\<exists>s'. sched_exec e (Exit c) s = Returns s' \<and> outcome_ok e (Exit c) s s'"
proof -
  from assms(2) have cur: "sd_current s \<noteq> 0" by simp
  obtain k where k: "pick_next s = Returns (Some k)" using exit_successor [OF ok cur] .
  obtain s' where "select_thread e (c\<lparr>if_disabled := True\<rparr>) k True s = Returns s'" "switched e True k s s'"
    using exit_switched [OF ok k _ cur] by (metis cpu_ctx.select_convs(1) cpu_ctx.surjective cpu_ctx.update_convs(1))
  then show ?thesis
    using assms k cur outcome_switched [OF _ ok, of True k s' "Exit c"]
    by (simp add: thread_exit_def irq_save_def require_ok_def sched_okD(1))
qed

lemma kern_save_parked:
  assumes "kern_save_valid e s" and "th_user (sd_threads s (sd_current s)) = Some l"
  shows "frame_valid e masked s (sd_current s) (th_saved (sd_threads (park l code s) (sd_current s)))"
  using assms by (simp add: kern_save_valid_def park_saved)

lemma current_link_ready:
  assumes "sched_ok e s" and "th_user (sd_threads s (sd_current s)) = Some l"
  shows "link_ready s (Some l)"
  using assms sched_okD(2) [OF assms(1)] sched_okD(7) [OF assms(1), of "sd_current s"]
  by (simp add: slot_fine_def link_ready_def)

lemma kern_save_user:
  assumes "kern_save_valid e s"
  obtains l where "th_user (sd_threads s (sd_current s)) = Some l"
  using assms by (cases "th_user (sd_threads s (sd_current s))") (auto simp: kern_save_valid_def)

lemma exec_tick_user:
  assumes ok: "sched_ok e s" and call: "call_ok e s (Tick c ua fa f)" and user: "ef_cs f AND 3 = 3"
  shows "\<exists>s' r. sched_tick e c ua fa f s = Returns (s', r) \<and> outcome_ok e (Tick c ua fa f) s s' \<and>
    resumable e fa f r s'"
proof -
  from call user have c: "if_disabled c" and k: "kern_save_valid e s" by simp_all
  obtain l where l: "th_user (sd_threads s (sd_current s)) = Some l" using kern_save_user [OF k] .
  let ?s = "upd_thread (sd_current s) (note_preempted f) (park l USER_RUN_PREEMPTED (s\<lparr>sd_ticks := sd_ticks s + 1\<rparr>))"
  have t: "sched_tick e c ua fa f s =
      and_then (pick_next s) (\<lambda>n. case n of None \<Rightarrow> Returns (?s, Saved (sd_current s)) | Some nxt \<Rightarrow> dispatch e c nxt ?s)"
    using call user c l ok current_link_ready [OF ok l]
    by (simp add: sched_tick_def tick_user_def require_ok_def sched_okD(1) Let_def)
  have p: "parked s ?s"
    by (simp add: parked_def upd_thread_def note_preempted_def park_def Let_def same_identity_def)
  have fv: "frame_valid e masked s (sd_current s) (th_saved (sd_threads ?s (sd_current s)))"
    using kern_save_parked [OF k l, of USER_RUN_PREEMPTED]
    by (simp add: upd_thread_def note_preempted_def park_def Let_def)
  from dispatch_outcome [OF ok p c _ fv p parked_resumable [OF p fv], of "Tick c ua fa f"] show ?thesis unfolding t by simp
qed

lemma exec_tick_kernel:
  assumes ok: "sched_ok e s" and call: "call_ok e s (Tick c ua fa f)" and user: "ef_cs f AND 3 \<noteq> 3"
  shows "\<exists>s' r. sched_tick e c ua fa f s = Returns (s', r) \<and> outcome_ok e (Tick c ua fa f) s s' \<and>
    resumable e fa f r s'"
proof -
  from call have c: "if_disabled c" by simp
  let ?s1 = "s\<lparr>sd_ticks := sd_ticks s + 1\<rparr>"
  let ?s0 = "upd_thread (sd_current s) (\<lambda>t. note_preempted f (t\<lparr>th_saved := f\<rparr>)) ?s1"
  have t: "sched_tick e c ua fa f s =
      and_then (pick_next s) (\<lambda>n. case n of None \<Rightarrow> Returns (?s1, Interrupted) | Some nxt \<Rightarrow> dispatch e c nxt ?s0)"
    using call user c ok
    by (simp add: sched_tick_def require_ok_def sched_okD(1) Let_def frame_valid_masked [OF c])
  have p: "parked s ?s0" "parked s ?s1"
    by (simp_all add: parked_def upd_thread_def note_preempted_def same_identity_def)
  have fv: "frame_valid e masked s (sd_current s) (th_saved (sd_threads ?s0 (sd_current s)))"
    using call user by (simp add: upd_thread_def note_preempted_def)
  have "in_stack e masked fa ?s1 = in_stack e masked fa s" by (simp add: in_stack_def bounds_def)
  then have "resumable e fa f Interrupted ?s1"
    using call user frame_valid_cong [of ?s1 "sd_current s" s e masked f]
    by (simp add: resumable_def in_stack_masked [OF c])
  from dispatch_outcome [OF ok p(1) c _ fv p(2) this, of "Tick c ua fa f"] show ?thesis unfolding t by simp
qed

lemma exec_tick:
  assumes "sched_ok e s" and "call_ok e s (Tick c ua fa f)"
  shows "\<exists>s'. sched_exec e (Tick c ua fa f) s = Returns s' \<and> outcome_ok e (Tick c ua fa f) s s'"
  using exec_tick_user [OF assms] exec_tick_kernel [OF assms] by (cases "ef_cs f AND 3 = 3") auto

lemma exec_user_next:
  assumes ok: "sched_ok e s" and call: "call_ok e s (User_Next c link code)"
  shows "\<exists>s'. sched_exec e (User_Next c link code) s = Returns s' \<and> outcome_ok e (User_Next c link code) s s'"
proof -
  from call have c: "if_disabled c" and k: "kern_save_valid e s" by simp_all
  obtain l where l: "th_user (sd_threads s (sd_current s)) = Some l" using kern_save_user [OF k] .
  let ?s = "park l code s"
  have p: "parked s ?s" using park_parked sched_okD(2) [OF ok] .
  have t: "user_schedule_next e c link code s =
      and_then (pick_next s) (\<lambda>n. case n of None \<Rightarrow> Returns (?s, Saved (sd_current s)) | Some nxt \<Rightarrow> dispatch e c nxt ?s)"
    using call c l ok current_link_ready [OF ok l] parked_pick [OF p]
    by (simp add: user_schedule_next_def require_ok_def sched_okD(1) Let_def)
  obtain s' r where "user_schedule_next e c link code s = Returns (s', r)" "outcome_ok e (User_Next c link code) s s'"
    using dispatch_outcome [OF ok p c _ kern_save_parked [OF k l] p
        parked_resumable [OF p kern_save_parked [OF k l], of 0 frame_zero], of "User_Next c link code"]
    unfolding t by auto
  then show ?thesis by simp
qed

lemma parked_outcome: "parked s s' \<Longrightarrow> sched_ok e s \<Longrightarrow> \<not> switching s call \<Longrightarrow> outcome_ok e call s s'"
  using parked_ok stays_parked by (blast intro: outcome_stays)

lemma exec_park:
  assumes ok: "sched_ok e s" and call: "call_ok e s (Park c ua f)"
  shows "\<exists>s'. sched_exec e (Park c ua f) s = Returns s' \<and> outcome_ok e (Park c ua f) s s'"
proof (cases "ef_cs f AND 3 = 3")
  case False
  with ok show ?thesis by (simp add: sched_park_cpl3_def outcome_stays)
next
  case True
  with call obtain l where l: "th_user (sd_threads s (sd_current s)) = Some l" by auto
  let ?s = "(upd_thread (sd_current s) (note_preempted f) (park l USER_RUN_PREEMPTED s))\<lparr>sd_cpl3_parks := sd_cpl3_parks s + 1\<rparr>"
  have "parked s ?s"
    by (simp add: parked_def upd_thread_def note_preempted_def park_def Let_def same_identity_def)
  moreover have "sched_exec e (Park c ua f) s = Returns ?s"
    using True call l ok current_link_ready [OF ok l] by (simp add: sched_park_cpl3_def require_ok_def)
  ultimately show ?thesis using parked_outcome [OF _ ok] by simp
qed

lemma exec_attach:
  assumes ok: "sched_ok e s"
  shows "\<exists>s'. sched_exec e (Attach c l) s = Returns s' \<and> outcome_ok e (Attach c l) s s'"
  using ok
proof (cases rule: attach_cases [where c = c and link = l])
  case refused
  with ok show ?thesis by (simp add: outcome_stays)
next
  case (attached l x s')
  have "stays s s'" using sched_okD(3) [OF ok] by (auto simp: stays_def attached(8) upd_thread_def)
  with attached show ?thesis by (simp add: outcome_stays)
qed

lemma exec_detach:
  assumes ok: "sched_ok e s"
  shows "\<exists>s'. sched_exec e (Detach c) s = Returns s' \<and> outcome_ok e (Detach c) s s'"
  using ok
proof (cases rule: detach_cases [where c = c])
  case refused
  with ok show ?thesis by (simp add: outcome_stays)
next
  case (detached l s')
  have "stays s s'" using sched_okD(3) [OF ok] by (auto simp: stays_def detached(4) upd_thread_def)
  with detached show ?thesis by (simp add: outcome_stays)
qed

lemma exec_lock:
  assumes ok: "sched_ok e s"
  shows "\<exists>s'. sched_exec e (Lock c l) s = Returns s' \<and> outcome_ok e (Lock c l) s s'"
  using ok locks_ok [where e = e and s = s] by (auto simp: spin_lock_def Let_def outcome_ok_def stays_def)

lemma exec_unlock:
  assumes ok: "sched_ok e s"
  shows "\<exists>s'. sched_exec e (Unlock c l) s = Returns s' \<and> outcome_ok e (Unlock c l) s s'"
  using ok locks_ok [where e = e and s = s] by (auto simp: spin_unlock_def outcome_ok_def stays_def)

lemma exec_outcome:
  assumes "sched_ok e s" and "env_ok e" and "call_ok e s call"
  shows "\<exists>s'. sched_exec e call s = Returns s' \<and> outcome_ok e call s s'"
proof (cases call)
  case Create
  with exec_create assms show ?thesis by blast
next
  case Join
  with exec_join assms show ?thesis by blast
next
  case Yield
  with exec_yield assms show ?thesis by blast
next
  case Exit
  with exec_exit assms show ?thesis by blast
next
  case Tick
  with exec_tick assms show ?thesis by blast
next
  case User_Next
  with exec_user_next assms show ?thesis by blast
next
  case Park
  with exec_park assms show ?thesis by blast
next
  case Attach
  with exec_attach assms show ?thesis by blast
next
  case Detach
  with exec_detach assms show ?thesis by blast
next
  case Lock
  with exec_lock assms show ?thesis by blast
next
  case Unlock
  with exec_unlock assms show ?thesis by blast
qed

section \<open>Histories\<close>

primrec sched_run :: "sched_env \<Rightarrow> sched_call list \<Rightarrow> sched \<Rightarrow> sched outcome" where
  "sched_run e [] s = Returns s"
| "sched_run e (call # cs) s = and_then (sched_exec e call s) (sched_run e cs)"

text \<open>Each call of a history is made under its conditions, in the state it is made in.\<close>

primrec calls_ok :: "sched_env \<Rightarrow> sched_call list \<Rightarrow> sched \<Rightarrow> bool" where
  "calls_ok e [] s \<longleftrightarrow> True"
| "calls_ok e (call # cs) s \<longleftrightarrow> call_ok e s call \<and>
    (case sched_exec e call s of Returns s' \<Rightarrow> calls_ok e cs s' | Panics w \<Rightarrow> True)"

text \<open>How many of the calls give the processor away.\<close>

primrec switch_count :: "sched_env \<Rightarrow> sched_call list \<Rightarrow> sched \<Rightarrow> nat" where
  "switch_count e [] s = 0"
| "switch_count e (call # cs) s = (if switching s call then 1 else 0) +
    (case sched_exec e call s of Returns s' \<Rightarrow> switch_count e cs s' | Panics w \<Rightarrow> 0)"

lemma run_step:
  assumes "sched_ok e s" and "env_ok e" and "calls_ok e (call # cs) s"
  obtains s' where "sched_exec e call s = Returns s'" "outcome_ok e call s s'" "sched_ok e s'" "calls_ok e cs s'"
    "sched_run e (call # cs) s = sched_run e cs s'"
    "switch_count e (call # cs) s = (if switching s call then 1 else 0) + switch_count e cs s'"
proof -
  from assms(3) have "call_ok e s call" by simp
  from exec_outcome [OF assms(1,2) this] obtain s' where s': "sched_exec e call s = Returns s'" "outcome_ok e call s s'"
    by blast
  with assms(3) show thesis by (intro that [of s']) (auto simp: outcome_ok_def)
qed

lemma run_ok:
  "sched_ok e s \<Longrightarrow> env_ok e \<Longrightarrow> calls_ok e cs s \<Longrightarrow> \<exists>s'. sched_run e cs s = Returns s' \<and> sched_ok e s'"
proof (induction cs arbitrary: s)
  case Nil
  then show ?case by simp
next
  case (Cons call cs)
  obtain s' where "sched_ok e s'" "calls_ok e cs s'" "sched_run e (call # cs) s = sched_run e cs s'"
    using run_step [OF Cons.prems] .
  with Cons.IH [OF _ Cons.prems(2)] show ?case by simp
qed

lemma ring8_distance:
  assumes "c < 8" "j < (8 :: nat)"
  shows "(j + 8 - c) mod 8 = (if c \<le> j then j - c else j + 8 - c)"
proof (cases "c \<le> j")
  case True
  then have "j + 8 - c = j - c + 8" by simp
  then have "(j + 8 - c) mod 8 = (j - c) mod 8" by (simp only: mod_add_self2)
  with True assms show ?thesis by simp
qed (use assms in simp)

lemma ring8_diff:
  assumes "c < 8" "k < 8" "j < 8" and "(k + 8 - c) mod 8 \<le> (j + 8 - c) mod 8"
  shows "(j + 8 - k) mod 8 = (j + 8 - c) mod 8 - (k + 8 - c) mod (8 :: nat)"
  using assms(4) unfolding ring8_distance [OF assms(1,2)] ring8_distance [OF assms(1,3)]
    ring8_distance [OF assms(2,3)] using assms(1-3) by (simp split: if_splits)

text \<open>Every switch brings a ready slot nearer; nothing else moves it or touches its frame.\<close>

lemma ready_runs:
  "sched_ok e s \<Longrightarrow> env_ok e \<Longrightarrow> calls_ok e cs s \<Longrightarrow> j < 8 \<Longrightarrow> th_state (sd_threads s j) = THREAD_READY \<Longrightarrow>
    dist s j \<le> switch_count e cs s \<Longrightarrow>
    \<exists>ds es s'. cs = ds @ es \<and> sched_run e ds s = Returns s' \<and> sd_current s' = j \<and>
      th_saved (sd_threads s' j) = th_saved (sd_threads s j) \<and> th_id (sd_threads s' j) = th_id (sd_threads s j)"
proof (induction cs arbitrary: s)
  case Nil
  have "j \<noteq> sd_current s" using Nil.prems sched_okD(3) by fastforce
  with Nil.prems dist_pos [of s j] sched_okD(2) [OF Nil.prems(1)] show ?case by simp
next
  case (Cons call cs)
  note cur = sched_okD(2,3) [OF Cons.prems(1)]
  have j: "j \<noteq> sd_current s" using Cons.prems cur by auto
  from run_step [OF Cons.prems(1-3)] obtain s1 where s1: "sched_exec e call s = Returns s1" "outcome_ok e call s s1"
    "sched_ok e s1" "calls_ok e cs s1" "sched_run e (call # cs) s = sched_run e cs s1"
    "switch_count e (call # cs) s = (if switching s call then 1 else 0) + switch_count e cs s1" .
  have count: "dist s j \<le> (if switching s call then 1 else 0) + switch_count e cs s1"
    "dist s j \<le> 1 + switch_count e cs s1"
    using Cons.prems(6) unfolding s1(6) by (simp_all split: if_splits)
  have on: ?case if "th_state (sd_threads s1 j) = THREAD_READY" "th_saved (sd_threads s1 j) = th_saved (sd_threads s j)"
    "th_id (sd_threads s1 j) = th_id (sd_threads s j)" "dist s1 j \<le> switch_count e cs s1"
  proof -
    from Cons.IH [OF s1(3) Cons.prems(2) s1(4) Cons.prems(4) that(1,4)] that(2,3) obtain ds es s' where
      "cs = ds @ es" "sched_run e ds s1 = Returns s'" "sd_current s' = j"
      "th_saved (sd_threads s' j) = th_saved (sd_threads s j)" "th_id (sd_threads s' j) = th_id (sd_threads s j)"
      by metis
    with s1(1) show ?thesis by (intro exI [of _ "call # ds"] exI [of _ es] exI [of _ s']) simp
  qed
  show ?case
  proof (cases "\<exists>x k. switched e x k s s1")
    case True
    then obtain x k where sw: "switched e x k s s1" by blast
    then have pick: "pick_next s = Returns (Some k)" and k: "sd_current s1 = k"
      "th_saved (sd_threads s1 k) = th_saved (sd_threads s k)" "th_id (sd_threads s1 k) = th_id (sd_threads s k)"
      and other: "j \<noteq> k \<Longrightarrow> sd_threads s1 j = sd_threads s j"
      using j by (simp_all add: switched_def same_identity_def)
    note nxt = pick_next_Some [OF pick cur(1)]
    show ?thesis
    proof (cases "j = k")
      case True
      with s1(1) k show ?thesis by (intro exI [of _ "[call]"] exI [of _ cs] exI [of _ s1]) simp
    next
      case False
      have "dist s1 j = dist s j - dist s k"
        unfolding dist_def k(1)
        by (rule ring8_diff [OF cur(1) nxt(1) Cons.prems(4) nxt(4) [OF Cons.prems(4,5) j, unfolded dist_def]])
      moreover have "0 < dist s k" using dist_pos [OF cur(1) nxt(1,2)] .
      ultimately have near: "dist s1 j \<le> switch_count e cs s1"
        using count by linarith
      show ?thesis
        by (rule on) (use near other [OF False] Cons.prems(5) in simp_all)
    qed
  next
    case False
    with s1(2) have st: "stays s s1" and "switching s call \<longrightarrow> pick_next s = Returns None"
      unfolding outcome_ok_def by blast+
    then have "\<not> switching s call" using pick_next_None [OF _ cur(1) Cons.prems(4) j] Cons.prems(5) by blast
    moreover have "sd_threads s1 j = sd_threads s j" "dist s1 j = dist s j"
      using st Cons.prems(4,5) by (simp_all add: stays_def dist_def)
    ultimately show ?thesis
      using count by (intro on) (simp_all add: Cons.prems(5))
  qed
qed
end
