(* ===== verification/Sched_Live.thy ===== *)
theory Sched_Live
  imports Sched_Run
begin

text \<open>
  The scheduler's properties, from boot on, and the concrete histories that
  show their conditions can hold.
\<close>

section \<open>Boot\<close>

text \<open>The static data before \<^verbatim>\<open>scheduler_initialize\<close>; links, contexts and locks belong to their users.\<close>

definition sched_boot ::
  "mem \<Rightarrow> (nat \<Rightarrow> user_link) \<Rightarrow> (nat \<Rightarrow> user_context) \<Rightarrow> (u64 \<Rightarrow> spinlock) \<Rightarrow> sched" where
  "sched_boot m links contexts locks = \<lparr>sd_threads = (\<lambda>_. thread_zero), sd_current = SCHED_THREADS,
    sd_next_id = 1, sd_initialized = False, sd_ticks = 0, sd_switches = 0, sd_held_locks = 0, sd_cpl3_parks = 0,
    sd_stacks = kstacks_boot m, sd_links = links, sd_contexts = contexts, sd_locks = locks\<rparr>"

lemma initialize_boot:
  assumes "foreground c" and "ps_space ps"
  shows "sched_ok e (fst (scheduler_initialize e c ps (sched_boot m l x k)))"
    "snd (scheduler_initialize e c ps (sched_boot m l x k))"
proof -
  let ?s = "fst (scheduler_initialize e c ps (sched_boot m l x k))"
  have t: "sd_threads ?s j = (if j = 0 then thread_zero\<lparr>th_id := 1, th_state := THREAD_RUNNING\<rparr> else thread_zero)" for j
    using assms by (simp add: scheduler_initialize_def sched_boot_def upd_thread_def Let_def)
  have s: "sd_initialized ?s" "sd_current ?s = 0" "sd_next_id ?s = 2"
    using assms by (simp_all add: scheduler_initialize_def sched_boot_def upd_thread_def Let_def)
  show ok: "sched_ok e ?s"
  proof (rule sched_okI)
    show "sole_running ?s" by (simp add: sole_running_def t s thread_zero_def)
    show "slot_fine e ?s i" for i by (simp add: slot_fine_def t s thread_zero_def)
    show "ids_distinct ?s" by (simp add: ids_distinct_def t thread_zero_def)
    show "links_apart ?s" by (simp add: links_apart_def t thread_zero_def)
  qed (simp_all add: s t)
  have "if_disabled c" using assms(1) by (simp add: foreground_def)
  with sched_okD(11) [OF ok] assms show "snd (scheduler_initialize e c ps (sched_boot m l x k))"
    by (simp add: scheduler_initialize_def sched_boot_def Let_def)
qed

section \<open>A concrete machine\<close>

definition demo_env :: sched_env where
  "demo_env = \<lparr>en_text_start = 0x200000, en_text_end = 0x400000, en_stack_start = 0x500000,
    en_stack_end = 0x508000, en_trampoline = 0x200100\<rparr>"

definition demo_link :: user_link where
  "demo_link = \<lparr>ul_context = None, ul_kern_save = frame_zero, ul_bound = False\<rparr>"

definition demo_boot :: sched where
  "demo_boot = sched_boot (\<lambda>_. 7) (\<lambda>_. demo_link)
    (\<lambda>_. \<lparr>uc_link = 0, uc_state = USER_FREE, uc_root = 0, uc_identity = False, uc_loaded = False\<rparr>)
    (\<lambda>_. \<lparr>sl_owner = 0, sl_identity = 0\<rparr>)"

definition demo_start :: sched where
  "demo_start = fst (scheduler_initialize demo_env kernel_ctx (demo_services False) demo_boot)"

definition demo_ready :: sched where
  "demo_ready = publish_thread demo_env 1 demo_stacks \<lparr>ks_slot = 0, ks_generation = 1\<rparr>
    0xffffe00000005000 0x200200 5 0x202 demo_start"

text \<open>A timer frame of the bootstrap thread.\<close>

definition demo_frame :: exception_frame where
  "demo_frame = frame_zero\<lparr>ef_vector := 32, ef_rip := 0x200300, ef_cs := 8, ef_rflags := 0x202,
    ef_rsp := 0x507000, ef_ss := 0x10\<rparr>"

definition demo_answers :: user_answers where
  "demo_answers = \<lparr>ua_origin_ok = True, ua_flag_tick = True, ua_publish_stop = True, ua_save_state = True\<rparr>"

definition demo_create :: sched_call where
  "demo_create = Create kernel_ctx (demo_services False) True 0x200200 5 0x202"

lemma demo_foreground: "foreground kernel_ctx" "if_disabled kernel_ctx" "\<not> in_irq kernel_ctx"
  by (simp_all add: foreground_def kernel_ctx_def)

lemma demo_env_ok: "env_ok demo_env"
  by (simp add: env_ok_def demo_env_def executable_def kstack_layout)

lemma demo_services_ok: "services_ok (demo_services p)" "ps_space (demo_services p)"
  by (simp_all add: services_ok_def demo_services_def)

lemma demo_start_ok: "sched_ok demo_env demo_start"
  unfolding demo_start_def demo_boot_def
  by (rule initialize_boot [OF demo_foreground(1) demo_services_ok(2)])

lemma demo_start_simps:
  "sd_threads demo_start j = (if j = 0 then thread_zero\<lparr>th_id := 1, th_state := THREAD_RUNNING\<rparr> else thread_zero)"
  "sd_current demo_start = 0" "sd_next_id demo_start = 2" "sd_initialized demo_start"
  "sd_stacks demo_start = kstacks_boot (\<lambda>_. 7)" "sd_held_locks demo_start = 0"
  "sd_locks demo_start = (\<lambda>_. \<lparr>sl_owner = 0, sl_identity = 0\<rparr>)"
  by (simp_all add: demo_start_def demo_boot_def scheduler_initialize_def sched_boot_def upd_thread_def Let_def
      demo_foreground demo_services_ok)

lemma demo_bounds:
  "kstack_bounds kernel_ctx demo_stacks 1 \<lparr>ks_slot = 0, ks_generation = 1\<rparr> =
    Some (0xffffe00000001000, 0xffffe00000005000)"
  by (simp add: kstack_bounds_def kstack_valid_def kernel_ctx_def demo_stacks_def base_of_def kstack_layout)

lemma demo_ready_ok: "sched_ok demo_env demo_ready"
  unfolding demo_ready_def
proof (rule publish_thread_ok(1) [OF demo_start_ok demo_env_ok demo_foreground(2) _ demo_bounds])
  show "kstack_alloc kernel_ctx (demo_services False) (sd_stacks demo_start) 1 (th_stack (sd_threads demo_start 1)) =
      Returns (demo_stacks, \<lparr>ks_slot = 0, ks_generation = 1\<rparr>, True)"
    using demo_alloc by (simp add: demo_start_simps thread_zero_def)
qed (simp_all add: demo_start_simps thread_zero_def executable_def demo_env_def)

lemma demo_ready_simps:
  "sd_current demo_ready = 0" "sd_held_locks demo_ready = 0" "sd_initialized demo_ready"
  "th_state (sd_threads demo_ready 1) = THREAD_READY" "th_user (sd_threads demo_ready 0) = None"
  by (simp_all add: demo_ready_def publish_thread_def upd_thread_def demo_start_simps thread_zero_def)

lemma demo_created:
  "thread_create_with_flags demo_env kernel_ctx (demo_services False) True 0x200200 5 0x202 demo_start =
    Returns (demo_ready, Some 2)"
proof -
  have free: "find (\<lambda>i. th_state (sd_threads demo_start i) = THREAD_FREE) [1..<SCHED_THREADS] = Some 1"
    by (simp add: SCHED_THREADS_def upt_rec demo_start_simps thread_zero_def)
  have alloc: "kstack_alloc kernel_ctx (demo_services False) (sd_stacks demo_start) 1 (th_stack (sd_threads demo_start 1)) =
      Returns (demo_stacks, \<lparr>ks_slot = 0, ks_generation = 1\<rparr>, True)"
    using demo_alloc by (simp add: demo_start_simps thread_zero_def)
  have "executable demo_env 0x200200" by (simp add: executable_def demo_env_def)
  with free alloc demo_bounds demo_start_ok demo_ready_ok show ?thesis
    by (simp add: thread_create_with_flags_def demo_foreground demo_start_simps(3,4) demo_ready_def [symmetric, unfolded One_nat_def]
        Let_def)
qed

lemma demo_frame_valid: "frame_valid demo_env c demo_ready 0 demo_frame"
  by (simp add: frame_valid_def bounds_def demo_env_def demo_frame_def frame_zero_def frame_size_def
      executable_def CPU_CODE_SELECTOR_def CPU_DATA_SELECTOR_def IRQ_BASE_def)

section \<open>Properties\<close>

text \<open>
  C34: the scheduler never panics and never breaks its own check. From boot,
  \<^verbatim>\<open>scheduler_initialize\<close> succeeds, and after any history of creations, joins,
  yields, exits, timer ticks from kernel or user mode, user exits, parks, link
  changes and lock operations, each made under its caller's conditions, every
  call has returned and \<^verbatim>\<open>scheduler_check\<close> holds.
\<close>

theorem sched_never_panics:
  assumes "env_ok e" and "foreground c" and "ps_space ps"
    and "scheduler_initialize e c ps (sched_boot m links contexts locks) = (s, ok)"
    and "calls_ok e cs s"
  shows "ok \<and> (\<exists>s'. sched_run e cs s = Returns s' \<and> scheduler_check e c s')"
proof -
  from initialize_boot [OF assms(2,3), of e m links contexts locks] assms(4)
  have ok: "sched_ok e s" "ok" by simp_all
  obtain s' where s': "sched_run e cs s = Returns s'" "sched_ok e s'"
    using run_ok [OF ok(1) assms(1,5)] by blast
  have "scheduler_check e c s'"
    using sched_okD(11) [OF s'(2)] assms(2) by (simp add: foreground_def)
  with s'(1) ok(2) show ?thesis by blast
qed

lemma demo_calls: "calls_ok demo_env [demo_create, Yield kernel_ctx demo_frame] demo_start"
  using demo_frame_valid
  by (simp add: demo_create_def demo_services_ok demo_created demo_ready_simps demo_foreground split: outcome.split)

theorem sched_never_panics_witness:
  "\<exists>s'. sched_run demo_env [demo_create, Yield kernel_ctx demo_frame] demo_start = Returns s' \<and>
    scheduler_check demo_env kernel_ctx s'"
proof -
  have "scheduler_initialize demo_env kernel_ctx (demo_services False) demo_boot =
      (demo_start, snd (scheduler_initialize demo_env kernel_ctx (demo_services False) demo_boot))"
    by (simp add: demo_start_def)
  from sched_never_panics [OF demo_env_ok demo_foreground(1) demo_services_ok(2) this [unfolded demo_boot_def] demo_calls]
  show ?thesis by blast
qed

text \<open>
  C35: no ready thread starves. Take any history from a state satisfying the
  invariant in which slot \<open>j\<close> is ready, whatever threads it creates, reaps,
  preempts or locks meanwhile. Once the history contains as many calls that give
  the processor away as there are slots from the current one round to \<open>j\<close> (at
  most seven), \<open>j\<close> has been running after some prefix of it: it is the current
  thread, with the id it had, and resumes exactly the frame that was saved for it.
\<close>

theorem sched_no_starvation:
  assumes "sched_ok e s" and "env_ok e" and "calls_ok e cs s"
    and "j < SCHED_THREADS" and "th_state (sd_threads s j) = THREAD_READY"
    and "(j + SCHED_THREADS - sd_current s) mod SCHED_THREADS \<le> switch_count e cs s"
  shows "\<exists>ds es s'. cs = ds @ es \<and> sched_run e ds s = Returns s' \<and> sd_current s' = j \<and>
    th_id (sd_threads s' j) = th_id (sd_threads s j) \<and>
    th_saved (sd_threads s' j) = th_saved (sd_threads s j)"
  using ready_runs [OF assms(1-3), of j] assms(4-6) by (auto simp: dist_def SCHED_THREADS_def)

theorem sched_no_starvation_witness:
  "\<exists>ds es s'. [Yield kernel_ctx demo_frame] = ds @ es \<and> sched_run demo_env ds demo_ready = Returns s' \<and>
    sd_current s' = 1 \<and> th_id (sd_threads s' 1) = th_id (sd_threads demo_ready 1) \<and>
    th_saved (sd_threads s' 1) = th_saved (sd_threads demo_ready 1)"
proof (rule sched_no_starvation [OF demo_ready_ok demo_env_ok])
  show "calls_ok demo_env [Yield kernel_ctx demo_frame] demo_ready"
    using demo_frame_valid by (simp add: demo_ready_simps demo_foreground split: outcome.split)
qed (simp_all add: SCHED_THREADS_def demo_ready_simps demo_ready_simps [unfolded One_nat_def] demo_foreground)

text \<open>
  C36: the timer path resumes what it selected. On a tick from kernel mode or
  from user mode, taken under its conditions, \<^verbatim>\<open>sched_tick\<close> returns a frame that
  \<^verbatim>\<open>sched_handoff\<close>, run after the interrupt has been acknowledged, accepts
  unchanged; it is the interrupted frame, or the saved frame of the thread that
  is now current, and that frame is valid for that thread's stack.
\<close>

theorem tick_handoff:
  assumes "sched_ok e s" and "call_ok e s (Tick c ua fa f)" and "foreground c'"
  shows "\<exists>s' r. sched_tick e c ua fa f s = Returns (s', r) \<and> sched_handoff e c' fa f r s' = Returns r \<and>
    (r = Interrupted \<and> frame_valid e c' s' (sd_current s') f \<or>
     r = Saved (sd_current s') \<and> frame_valid e c' s' (sd_current s') (th_saved (sd_threads s' (sd_current s'))))"
proof -
  obtain s' r where t: "sched_tick e c ua fa f s = Returns (s', r)" "outcome_ok e (Tick c ua fa f) s s'"
    "resumable e fa f r s'"
    using exec_tick_user [OF assms(1,2)] exec_tick_kernel [OF assms(1,2)] by (cases "ef_cs f AND 3 = 3") blast+
  from assms(3) have c': "if_disabled c'" "\<not> in_irq c'" by (simp_all add: foreground_def)
  from t(2) have ok: "sched_ok e s'" by (simp add: outcome_ok_def)
  from t(3) consider "r = Interrupted" "in_stack e masked fa s'" "frame_valid e masked s' (sd_current s') f"
    | "r = Saved (sd_current s')" "frame_valid e masked s' (sd_current s') (th_saved (sd_threads s' (sd_current s')))"
    by (cases r) (auto simp: resumable_def)
  then have "sched_handoff e c' fa f r s' = Returns r \<and>
    (r = Interrupted \<and> frame_valid e c' s' (sd_current s') f \<or>
     r = Saved (sd_current s') \<and> frame_valid e c' s' (sd_current s') (th_saved (sd_threads s' (sd_current s'))))"
    using c' ok
    by cases (simp_all add: sched_handoff_def require_ok_def sched_okD(1) frame_valid_masked [OF c'(1)]
        in_stack_masked [OF c'(1)])
  with t(1) show ?thesis by blast
qed

theorem tick_handoff_witness:
  "\<exists>s' r. sched_tick demo_env \<lparr>if_disabled = True, in_irq = True\<rparr> demo_answers 0x506f00 demo_frame demo_ready =
      Returns (s', r) \<and> sched_handoff demo_env kernel_ctx 0x506f00 demo_frame r s' = Returns r"
proof -
  have "call_ok demo_env demo_ready (Tick \<lparr>if_disabled = True, in_irq = True\<rparr> demo_answers 0x506f00 demo_frame)"
    using demo_frame_valid
    by (simp add: demo_ready_simps in_stack_def bounds_def demo_env_def frame_size_def demo_frame_def)
  from tick_handoff [OF demo_ready_ok this demo_foreground(1)] show ?thesis by blast
qed

section \<open>Thread identities\<close>

definition id_free :: "sched \<Rightarrow> u64 \<Rightarrow> bool" where
  "id_free s tid \<longleftrightarrow> (\<forall>j<8. th_state (sd_threads s j) \<noteq> THREAD_FREE \<longrightarrow> th_id (sd_threads s j) \<noteq> tid)"

lemma find_thread_None: "tid \<noteq> 0 \<Longrightarrow> find_thread s tid = None \<longleftrightarrow> id_free s tid"
  by (auto simp: find_thread_def id_free_def find_None_iff SCHED_THREADS_def)

lemma outcome_ids:
  assumes "outcome_ok e call s s'" and "sched_ok e s" and "id_free s tid" and "tid < sd_next_id s"
  shows "id_free s' tid \<and> tid < sd_next_id s'"
proof (cases "stays s s'")
  case True
  have "th_id (sd_threads s' j) \<noteq> tid" if "j < 8" "th_state (sd_threads s' j) \<noteq> THREAD_FREE" for j
    using True assms(3,4) that unfolding stays_def id_free_def by (metis linorder_not_le)
  with True assms(4) show ?thesis by (auto simp: id_free_def stays_def)
next
  case False
  with assms(1) obtain x k where sw: "switched e x k s s'" by (auto simp: outcome_ok_def)
  then have pick: "pick_next s = Returns (Some k)" by (simp add: switched_def)
  note nxt = pick_next_Some(3) [OF pick sched_okD(2) [OF assms(2)]] and run = sched_okD(3) [OF assms(2)]
  have same: "th_id (sd_threads s' j) = th_id (sd_threads s j)" for j
    using sw by (cases "j = k \<or> j = sd_current s") (auto simp: switched_def same_identity_def)
  have "th_state (sd_threads s j) \<noteq> THREAD_FREE" if "th_state (sd_threads s' j) \<noteq> THREAD_FREE" for j
    using sw that nxt run by (cases "j = k \<or> j = sd_current s") (auto simp: switched_def)
  with assms(3,4) sw same show ?thesis by (simp add: id_free_def switched_def)
qed

lemma run_ids:
  "sched_ok e s \<Longrightarrow> env_ok e \<Longrightarrow> calls_ok e cs s \<Longrightarrow> id_free s tid \<Longrightarrow> tid < sd_next_id s \<Longrightarrow>
    sched_run e cs s = Returns s' \<Longrightarrow> id_free s' tid"
proof (induction cs arbitrary: s)
  case Nil
  then show ?case by simp
next
  case (Cons call cs)
  obtain s1 where s1: "outcome_ok e call s s1" "sched_ok e s1" "calls_ok e cs s1"
    "sched_run e (call # cs) s = sched_run e cs s1"
    using run_step [OF Cons.prems(1-3)] .
  from outcome_ids [OF s1(1) Cons.prems(1,4,5)] Cons.IH [OF s1(2) Cons.prems(2) s1(3)] Cons.prems(6) s1(4)
  show ?case by simp
qed

lemma run_next_id:
  "sched_ok e s \<Longrightarrow> env_ok e \<Longrightarrow> calls_ok e cs s \<Longrightarrow> sched_run e cs s = Returns s' \<Longrightarrow> sd_next_id s \<le> sd_next_id s'"
proof (induction cs arbitrary: s)
  case Nil
  then show ?case by simp
next
  case (Cons call cs)
  obtain s1 where s1: "outcome_ok e call s s1" "sched_ok e s1" "calls_ok e cs s1"
    "sched_run e (call # cs) s = sched_run e cs s1"
    using run_step [OF Cons.prems(1-3)] .
  have "sd_next_id s \<le> sd_next_id s1" using s1(1) by (auto simp: outcome_ok_def stays_def switched_def)
  also have "\<dots> \<le> sd_next_id s'" using Cons.IH [OF s1(2) Cons.prems(2) s1(3)] Cons.prems(4) s1(4) by simp
  finally show ?case .
qed

lemma created_thread:
  assumes "sched_ok e s" and "env_ok e" and "services_ok ps"
    and "thread_create_with_flags e c ps out entry arg fl s = Returns (s', Some tid)"
  obtains i st h lo hi where "s' = publish_thread e i st h hi entry arg fl s" "tid = sd_next_id s"
      "kstack_alloc c ps (sd_stacks s) i (th_stack (sd_threads s i)) = Returns (st, h, True)"
      "kstack_bounds c st i h = Some (lo, hi)" "i < 8" "th_state (sd_threads s i) = THREAD_FREE"
      "sched_ok e s'" "slot_changed i s s'" "tid < sd_next_id s'" "tid \<noteq> 0" "id_free s tid"
      "find_thread s' tid = Some i"
  using assms(1,2,3)
proof (cases rule: create_cases [where c = c and out = out and entry = entry and arg = arg and rflags = fl])
  case (created i st h lo hi)
  from created(1) assms(4) have s': "s' = publish_thread e i st h hi entry arg fl s" and tid: "tid = sd_next_id s" by auto
  have pos: "tid \<noteq> 0"
    using sched_okD(5) [OF assms(1)] sched_okD(7) [OF assms(1), of 0] by (auto simp: slot_fine_def tid)
  have lt: "tid < sd_next_id s'"
    using unat_next_id(1) [OF created(8)] by (simp add: s' tid publish_thread_def word_less_nat_alt)
  have "th_id (sd_threads s j) \<noteq> tid" if "j < 8" "th_state (sd_threads s j) \<noteq> THREAD_FREE" for j
    using sched_okD(7) [OF assms(1) that(1)] that(2) by (auto simp: slot_fine_def tid)
  then have free: "id_free s tid" by (simp add: id_free_def)
  have i: "th_state (sd_threads s' i) = THREAD_READY" "th_id (sd_threads s' i) = tid"
    by (simp_all add: s' tid publish_thread_def upd_thread_def)
  then obtain k where k: "find_thread s' tid = Some k"
    using find_thread_None [OF pos, of s'] created(4) by (cases "find_thread s' tid") (auto simp: id_free_def)
  have "th_state (sd_threads s' i) \<noteq> THREAD_FREE" using i(1) by simp
  then have "k = i"
    using find_thread_Some [OF k] i(2) created(4) sched_okD(8) [OF created(6), folded s']
    unfolding ids_distinct_def by metis
  with k that [OF s' tid created(2-5)] created(6,7) lt pos free show thesis by (simp add: s')
qed (use assms(4) in simp)

text \<open>
  C37: a thread id is never reused. The id a creation returns names no thread
  before it and the new thread right after it. Once it names no thread any
  more, no later history makes it name one again, and every id created later
  is larger.
\<close>

theorem thread_id_never_reused:
  assumes "sched_ok e s" and "env_ok e" and "services_ok ps"
    and "thread_create_with_flags e c ps out entry arg fl s = Returns (s1, Some tid)"
  shows "find_thread s tid = None \<and> find_thread s1 tid \<noteq> None \<and>
    (\<forall>cs s2 ds s3. calls_ok e cs s1 \<and> sched_run e cs s1 = Returns s2 \<and> find_thread s2 tid = None \<and>
       calls_ok e ds s2 \<and> sched_run e ds s2 = Returns s3 \<longrightarrow> find_thread s3 tid = None) \<and>
    (\<forall>cs s2 c' ps' out' entry' arg' fl' s3 tid'. calls_ok e cs s1 \<and> sched_run e cs s1 = Returns s2 \<and>
       services_ok ps' \<and> thread_create_with_flags e c' ps' out' entry' arg' fl' s2 = Returns (s3, Some tid') \<longrightarrow>
       tid < tid')"
  using assms
proof (cases rule: created_thread)
  case (1 i st h lo hi)
  have gone: "find_thread s3 tid = None"
    if "calls_ok e cs s1" "sched_run e cs s1 = Returns s2" "find_thread s2 tid = None"
      "calls_ok e ds s2" "sched_run e ds s2 = Returns s3" for cs s2 ds s3
  proof -
    have "sched_ok e s2" using run_ok [OF 1(7) assms(2) that(1)] that(2) by simp
    moreover have "tid < sd_next_id s2"
      using 1(9) run_next_id [OF 1(7) assms(2) that(1,2)] by simp
    ultimately have "id_free s3 tid"
      using run_ids [OF _ assms(2) that(4) _ _ that(5), of tid] that(3) find_thread_None [OF 1(10)] by simp
    then show ?thesis using find_thread_None [OF 1(10)] by simp
  qed
  have later: "tid < tid'"
    if "calls_ok e cs s1" "sched_run e cs s1 = Returns s2" "services_ok ps'"
      "thread_create_with_flags e c' ps' out' entry' arg' fl' s2 = Returns (s3, Some tid')"
    for cs s2 c' ps' out' entry' arg' fl' s3 tid'
  proof -
    have ok2: "sched_ok e s2" using run_ok [OF 1(7) assms(2) that(1)] that(2) by simp
    have "tid' = sd_next_id s2" by (rule created_thread [OF ok2 assms(2) that(3,4)])
    with 1(9) run_next_id [OF 1(7) assms(2) that(1,2)] show ?thesis by simp
  qed
  have "find_thread s tid = None" "find_thread s1 tid \<noteq> None"
    using 1(11,12) find_thread_None [OF 1(10)] by simp_all
  with gone later show ?thesis by blast
qed

theorem thread_id_never_reused_witness:
  "find_thread demo_start 2 = None \<and> find_thread demo_ready 2 \<noteq> None"
  using thread_id_never_reused [OF demo_start_ok demo_env_ok demo_services_ok(1) demo_created] by blast

text \<open>
  C38: a new thread is isolated. It is ready, its first frame starts the
  trampoline on its own stack with the flags asked for, its stack region
  meets neither the boot stack nor the region of any other live thread, and
  every other thread is exactly as before.
\<close>

theorem thread_create_isolated:
  assumes "sched_ok e s" and "env_ok e" and "services_ok ps"
    and "thread_create_with_flags e c ps out entry arg fl s = Returns (s', Some tid)"
  shows "\<exists>i<SCHED_THREADS. find_thread s' tid = Some i \<and> th_state (sd_threads s' i) = THREAD_READY \<and>
    th_entry (sd_threads s' i) = entry \<and> th_arg (sd_threads s' i) = arg \<and>
    ef_rip (th_saved (sd_threads s' i)) = en_trampoline e \<and> ef_rflags (th_saved (sd_threads s' i)) = fl \<and>
    frame_valid e masked s' i (th_saved (sd_threads s' i)) \<and>
    (\<forall>x \<in> stack_region (th_stack (sd_threads s' i)). \<not> (en_stack_start e \<le> x \<and> x < en_stack_end e)) \<and>
    (\<forall>j<SCHED_THREADS. j \<noteq> i \<longrightarrow> sd_threads s' j = sd_threads s j \<and>
       (j \<noteq> 0 \<and> th_state (sd_threads s j) \<noteq> THREAD_FREE \<longrightarrow>
          stack_region (th_stack (sd_threads s' i)) \<inter> stack_region (th_stack (sd_threads s j)) = {}))"
  using assms
proof (cases rule: created_thread)
  case (1 i st h lo hi)
  have t: "sd_threads s' i = (sd_threads s i)\<lparr>th_id := sd_next_id s, th_state := THREAD_READY,
       th_saved := frame_zero\<lparr>ef_rip := en_trampoline e, ef_cs := CPU_CODE_SELECTOR,
         ef_ss := CPU_DATA_SELECTOR, ef_rsp := hi - 8, ef_rflags := fl\<rparr>,
       th_stack := h, th_entry := entry, th_arg := arg\<rparr>"
    by (simp add: 1(1) publish_thread_def upd_thread_def)
  have i0: "i \<noteq> 0" and other: "\<And>j. j \<noteq> i \<Longrightarrow> sd_threads s' j = sd_threads s j"
    using 1(8) by (simp_all add: slot_changed_def)
  note fine = sched_okD(7) [OF 1(7)]
  have v: "kstack_valid masked (sd_stacks s') i h" and fv: "frame_valid e masked s' i (th_saved (sd_threads s' i))"
    using fine [OF 1(5)] i0 by (simp_all add: slot_fine_def t)
  have apart: "stack_region h \<inter> stack_region (th_stack (sd_threads s j)) = {}"
    if "j < 8" "j \<noteq> i" "j \<noteq> 0" "th_state (sd_threads s j) \<noteq> THREAD_FREE" for j
  proof (rule kp.exclusive [OF v])
    show "kstack_valid masked (sd_stacks s') j (th_stack (sd_threads s j))"
      using fine [OF that(1)] that other [OF that(2)] by (simp add: slot_fine_def)
  qed (use that in simp)
  have slot: "unat (ks_slot h) < 8" using kstack_valid_slot [OF v] .
  have boot: "\<not> (en_stack_start e \<le> x \<and> x < en_stack_end e)" if "x \<in> stack_region h" for x
    using that slot assms(2)
    by (auto simp: stack_region_iff env_ok_def kstack_layout word_le_nat_alt word_less_nat_alt)
  show ?thesis
    by (rule exI [of _ i]) (use 1(5,12) fv apart boot other in \<open>simp add: SCHED_THREADS_def t\<close>)
qed

theorem thread_create_isolated_witness:
  "\<exists>i<SCHED_THREADS. find_thread demo_ready 2 = Some i \<and> th_entry (sd_threads demo_ready i) = 0x200200"
  using thread_create_isolated [OF demo_start_ok demo_env_ok demo_services_ok(1) demo_created] by blast

section \<open>Locks\<close>

lemma owner_code_inj:
  assumes "unat a < 2 ^ 63" and "unat b < 2 ^ 63"
    and "(a OR (if p then 2 ^ 63 else 0) :: u64) = b OR (if q then 2 ^ 63 else 0)"
  shows "a = b \<and> p = q"
proof -
  have low: "\<not> bit w 63" if "unat w < 2 ^ 63" for w :: u64
  proof -
    have "bit w 63 \<longleftrightarrow> bit (unat w) 63" by (simp add: bit_unsigned_iff)
    also have "\<dots> \<longleftrightarrow> odd (unat w div 2 ^ 63)" by (rule bit_iff_odd)
    finally show ?thesis using that by simp
  qed
  have top: "bit (w OR (if r then 2 ^ 63 else 0)) n \<longleftrightarrow> bit w n \<or> r \<and> n = 63" for w :: u64 and r n
  proof -
    have "bit (2 ^ 63 :: u64) n \<longleftrightarrow> n = 63" unfolding bit_exp_iff by (auto simp: possible_bit_word)
    then show ?thesis by (cases r) (simp_all only: bit_or_iff if_True if_False simp_thms bit_0_eq bot_apply bot_bool_def)
  qed
  have bits: "(bit a n \<or> p \<and> n = 63) = (bit b n \<or> q \<and> n = 63)" for n
    using top [of a p n] top [of b q n] assms(3) by simp
  have "p = q" using bits [of 63] low [OF assms(1)] low [OF assms(2)] by simp
  moreover have "a = b"
  proof (rule bit_word_eqI)
    fix n show "bit a n = bit b n"
      using bits [of n] low [OF assms(1)] low [OF assms(2)] by (cases "n = 63") auto
  qed
  ultimately show ?thesis by simp
qed

lemma current_id_small:
  assumes "sched_ok e s"
  shows "unat (th_id (sd_threads s (sd_current s))) < 2 ^ 63" "th_id (sd_threads s (sd_current s)) \<noteq> 0"
proof -
  have "th_id (sd_threads s (sd_current s)) < sd_next_id s" and nz: "th_id (sd_threads s (sd_current s)) \<noteq> 0"
    using sched_okD(2,3) [OF assms] sched_okD(7) [OF assms, of "sd_current s"] by (simp_all add: slot_fine_def)
  then show "unat (th_id (sd_threads s (sd_current s))) < 2 ^ 63"
    using sched_okD(10) [OF assms] by (simp add: word_less_nat_alt word_le_nat_alt)
  show "th_id (sd_threads s (sd_current s)) \<noteq> 0" by (rule nz)
qed

lemma lock_owner_inj:
  assumes "sched_ok e s" and "sched_ok e s'"
  shows "lock_owner c s = lock_owner c' s' \<longleftrightarrow>
    th_id (sd_threads s (sd_current s)) = th_id (sd_threads s' (sd_current s')) \<and> in_irq c = in_irq c'"
  using owner_code_inj [OF current_id_small(1) [OF assms(1)] current_id_small(1) [OF assms(2)], of "in_irq c" "in_irq c'"]
    sched_okD(1) [OF assms(1)] sched_okD(1) [OF assms(2)]
  by (auto simp: lock_owner_def)

text \<open>
  C39: a spinlock has one owner. While the lock word is as \<^verbatim>\<open>spin_lock\<close> left it,
  nobody, the owner included, can take it again; it can be released exactly by
  the same thread in the same kind of context, thread or interrupt, with
  interrupts off; and a copy of the word at another address releases nothing.
\<close>

theorem spin_lock_exclusive:
  assumes "sched_ok e s" and "spin_lock e c l s = Returns (s1, True)"
    and "sched_ok e s2" and "sd_locks s2 l = sd_locks s1 l"
  shows "spin_lock e c' l s2 = Returns (s2, False) \<and>
    (snd (spin_unlock c' l s2) \<longleftrightarrow> if_disabled c' \<and> sd_held_locks s2 \<noteq> 0 \<and>
      th_id (sd_threads s2 (sd_current s2)) = th_id (sd_threads s (sd_current s)) \<and> in_irq c' = in_irq c) \<and>
    (\<forall>l'. l' \<noteq> l \<and> sd_locks s2 l' = sd_locks s1 l \<longrightarrow> spin_unlock c' l' s2 = (s2, False))"
proof -
  from assms(2) have l: "l \<noteq> 0"
    by (auto simp: spin_lock_def split: if_splits)
  have s1: "sd_locks s1 l = \<lparr>sl_owner = lock_owner c s, sl_identity = l\<rparr>"
    using assms(2) by (auto simp: spin_lock_def Let_def check_def require_ok_def split: if_splits)
  have held: "lock_owner c s \<noteq> 0"
  proof
    assume "lock_owner c s = 0"
    then have "th_id (sd_threads s (sd_current s)) = 0"
      using sched_okD(1) [OF assms(1)] by (simp add: lock_owner_def or_eq_0_iff)
    with current_id_small(2) [OF assms(1)] show False by simp
  qed
  have "spin_lock e c' l s2 = Returns (s2, False)"
    using held s1 assms(4) by (simp add: spin_lock_def)
  moreover have "snd (spin_unlock c' l s2) \<longleftrightarrow> if_disabled c' \<and> sd_held_locks s2 \<noteq> 0 \<and>
      th_id (sd_threads s2 (sd_current s2)) = th_id (sd_threads s (sd_current s)) \<and> in_irq c' = in_irq c"
    using lock_owner_inj [OF assms(3,1), of c' c] s1 assms(4) l by (auto simp: spin_unlock_def)
  moreover have "spin_unlock c' l' s2 = (s2, False)" if "l' \<noteq> l" "sd_locks s2 l' = sd_locks s1 l" for l'
    using that s1 by (simp add: spin_unlock_def)
  ultimately show ?thesis by blast
qed

theorem spin_lock_exclusive_witness:
  "spin_lock demo_env kernel_ctx 64 (fst (case spin_lock demo_env kernel_ctx 64 demo_start of Returns r \<Rightarrow> r)) =
    Returns (fst (case spin_lock demo_env kernel_ctx 64 demo_start of Returns r \<Rightarrow> r), False)"
proof -
  let ?s = "demo_start\<lparr>sd_locks := (sd_locks demo_start)(64 := \<lparr>sl_owner = lock_owner kernel_ctx demo_start, sl_identity = 64\<rparr>),
              sd_held_locks := sd_held_locks demo_start + 1\<rparr>"
  have r: "spin_lock demo_env kernel_ctx 64 demo_start = Returns (?s, True)"
    using demo_start_ok by (simp add: spin_lock_def demo_foreground demo_start_simps Let_def)
  have "sched_ok demo_env ?s" using demo_start_ok locks_ok by blast
  from spin_lock_exclusive [OF demo_start_ok r this, of kernel_ctx] show ?thesis unfolding r by simp
qed

lemma and_then_Returns:
  assumes "and_then x f = Returns y"
  obtains z where "x = Returns z" "f z = Returns y"
  using assms by (cases x) simp_all

text \<open>
  C40: nobody is switched away while holding a lock. With a lock held, every
  call that returns leaves the current thread current: a yield is refused, and
  an exit, a tick or a park from user mode panics instead of switching. Only
  \<^verbatim>\<open>user_schedule_next\<close>, which does not look at the held locks, is excepted.
\<close>

theorem no_switch_with_lock:
  assumes "sd_held_locks s \<noteq> 0" and "sched_exec e call s = Returns s'"
    and "\<forall>c l code. call \<noteq> User_Next c l code" and "sd_initialized s"
  shows "sd_current s' = sd_current s"
proof (cases call)
  case Create
  then show ?thesis
    using assms
    by (auto simp: thread_create_with_flags_def check_def require_ok_def publish_thread_def upd_thread_def Let_def
        elim!: and_then_Returns split: if_splits option.splits prod.splits)
next
  case Join
  then show ?thesis
    using assms
    by (auto simp: thread_join_def check_def require_ok_def upd_thread_def Let_def
        elim!: and_then_Returns split: if_splits option.splits prod.splits)
next
  case Yield
  then show ?thesis using assms by (auto simp: thread_yield_def irq_save_def elim!: and_then_Returns)
next
  case Attach
  then show ?thesis
    using assms
    by (auto simp: thread_attach_user_def check_def require_ok_def upd_thread_def Let_def
        elim!: and_then_Returns split: if_splits option.splits)
next
  case Detach
  then show ?thesis
    using assms
    by (auto simp: thread_detach_user_def check_def require_ok_def upd_thread_def Let_def
        elim!: and_then_Returns split: if_splits option.splits)
qed (use assms in \<open>auto simp: thread_exit_def sched_tick_def tick_user_def sched_park_cpl3_def spin_lock_def
  spin_unlock_def check_def require_ok_def irq_save_def Let_def elim!: and_then_Returns split: if_splits\<close>)

theorem no_switch_with_lock_witness:
  "\<exists>s'. sched_exec demo_env (Yield kernel_ctx demo_frame) (demo_ready\<lparr>sd_held_locks := 1\<rparr>) = Returns s' \<and>
    sd_current s' = sd_current (demo_ready\<lparr>sd_held_locks := 1\<rparr>)"
proof -
  have "sched_exec demo_env (Yield kernel_ctx demo_frame) (demo_ready\<lparr>sd_held_locks := 1\<rparr>) =
      Returns (demo_ready\<lparr>sd_held_locks := 1\<rparr>)"
    by (simp add: thread_yield_def irq_save_def irq_restore_def require_ok_def demo_foreground)
  from no_switch_with_lock [OF _ this] this show ?thesis by (simp add: demo_ready_simps)
qed

end
