(* ===== verification/Blk.thy ===== *)
theory Blk
  imports Prelude
begin

text \<open>
  The block layer (\<^verbatim>\<open>src/kernel/storage/blk.c\<close>): up to four IDE devices of 512-byte
  blocks, the range, alignment and write-authorization checks of every
  transfer, and discovery. Bytes are characters and a block is a string of 512
  of them; device addresses and sizes are naturals below 2 to the 64th.

  Below \<^verbatim>\<open>one_sector\<close> is the drive itself. It is a stream of answers: the \<open>n\<close>-th
  sector command returns \<open>dr_result n\<close>, and a write that reports a failure
  leaves in its sector whatever \<open>dr_torn n old new\<close> says, so a lost, a completed
  or a torn write are all possible. What \<^verbatim>\<open>IDENTIFY\<close> and the PCI configuration
  registers answer are arguments of discovery.
\<close>

definition BLK_SECTOR_SIZE :: nat where
  "BLK_SECTOR_SIZE = 512"

definition BLK_MAX_BLOCKS :: nat where
  "BLK_MAX_BLOCKS = 32"

definition BLK_MAX_DEVICES :: nat where
  "BLK_MAX_DEVICES = 4"

definition BLK_LBA28_MAX :: nat where
  "BLK_LBA28_MAX = 0x10000000"

definition BLK_MAGIC :: string where
  "BLK_MAGIC = ''RLBLK1'' @ [CHR 0x00, CHR 0x00]"

datatype blk_result = BLK_OK | BLK_INVALID | BLK_RANGE | BLK_UNSUPPORTED | BLK_NODEV | BLK_INIT_FAIL
  | BLK_IOERR | BLK_TIMEOUT | BLK_DENIED

record blk_state =
  bs_present :: bool
  bs_test_device :: bool
  bs_writable :: bool
  bs_block_count :: nat

record disk =
  dk_devices :: "nat \<Rightarrow> blk_state"
  dk_sectors :: "nat \<Rightarrow> nat \<Rightarrow> string"
  dk_commands :: nat
  dr_result :: "nat \<Rightarrow> blk_result"
  dr_torn :: "nat \<Rightarrow> string \<Rightarrow> string \<Rightarrow> string"

section \<open>Transfers\<close>

text \<open>One sector command: the result, what is read, and the drive afterwards.\<close>

definition sector_read :: "nat \<Rightarrow> nat \<Rightarrow> disk \<Rightarrow> blk_result \<times> string \<times> disk" where
  "sector_read dev lba d = (dr_result d (dk_commands d), dk_sectors d dev lba, d\<lparr>dk_commands := dk_commands d + 1\<rparr>)"

definition sector_write :: "nat \<Rightarrow> nat \<Rightarrow> string \<Rightarrow> disk \<Rightarrow> blk_result \<times> disk" where
  "sector_write dev lba b d =
    (let r = dr_result d (dk_commands d); old = dk_sectors d dev lba;
         new = (if r = BLK_OK then b else dr_torn d (dk_commands d) old b)
     in (r, d\<lparr>dk_sectors := (dk_sectors d)(dev := (dk_sectors d dev)(lba := new)),
              dk_commands := dk_commands d + 1\<rparr>))"

definition valid_range :: "blk_state \<Rightarrow> nat \<Rightarrow> nat \<Rightarrow> nat \<Rightarrow> blk_result" where
  "valid_range b start count len =
    (if count = 0 \<or> BLK_MAX_BLOCKS < count then BLK_INVALID
     else if len \<noteq> count * BLK_SECTOR_SIZE then BLK_INVALID
     else if bs_block_count b \<le> start then BLK_RANGE
     else if bs_block_count b - start < count then BLK_RANGE
     else BLK_OK)"

text \<open>The checks of \<^verbatim>\<open>transfer\<close> before the first sector is touched; \<open>buf\<close> is the buffer's address.\<close>

definition transfer_check :: "nat \<Rightarrow> nat \<Rightarrow> nat \<Rightarrow> nat \<Rightarrow> nat \<Rightarrow> bool \<Rightarrow> disk \<Rightarrow> blk_result" where
  "transfer_check dev start count buf len need_write d =
    (if BLK_MAX_DEVICES \<le> dev \<or> \<not> bs_present (dk_devices d dev) then BLK_NODEV
     else if buf = 0 \<or> buf mod 2 = 1 then BLK_INVALID
     else if valid_range (dk_devices d dev) start count len \<noteq> BLK_OK
     then valid_range (dk_devices d dev) start count len
     else if BLK_LBA28_MAX < bs_block_count (dk_devices d dev) then BLK_RANGE
     else if need_write \<and> \<not> bs_writable (dk_devices d dev) then BLK_DENIED
     else BLK_OK)"

text \<open>The sector loops; a failed sector ends the call, earlier ones stay done.\<close>

fun read_sectors :: "nat \<Rightarrow> nat \<Rightarrow> nat \<Rightarrow> disk \<Rightarrow> blk_result \<times> string \<times> disk" where
  "read_sectors dev start 0 d = (BLK_OK, [], d)"
| "read_sectors dev start (Suc n) d =
    (case sector_read dev start d of
       (r, b, d1) \<Rightarrow>
         if r \<noteq> BLK_OK then (r, [], d1)
         else (case read_sectors dev (start + 1) n d1 of (r', bs, d2) \<Rightarrow> (r', b @ bs, d2)))"

fun write_sectors :: "nat \<Rightarrow> nat \<Rightarrow> nat \<Rightarrow> string \<Rightarrow> disk \<Rightarrow> blk_result \<times> disk" where
  "write_sectors dev start 0 bytes d = (BLK_OK, d)"
| "write_sectors dev start (Suc n) bytes d =
    (case sector_write dev start (take BLK_SECTOR_SIZE bytes) d of
       (r, d1) \<Rightarrow>
         if r \<noteq> BLK_OK then (r, d1)
         else write_sectors dev (start + 1) n (drop BLK_SECTOR_SIZE bytes) d1)"

definition blk_read :: "nat \<Rightarrow> nat \<Rightarrow> nat \<Rightarrow> nat \<Rightarrow> nat \<Rightarrow> disk \<Rightarrow> blk_result \<times> string \<times> disk" where
  "blk_read dev start count buf len d =
    (if transfer_check dev start count buf len False d \<noteq> BLK_OK
     then (transfer_check dev start count buf len False d, [], d)
     else read_sectors dev start count d)"

definition blk_write :: "nat \<Rightarrow> nat \<Rightarrow> nat \<Rightarrow> nat \<Rightarrow> string \<Rightarrow> nat \<Rightarrow> disk \<Rightarrow> blk_result \<times> disk" where
  "blk_write dev start count buf bytes len d =
    (if transfer_check dev start count buf len True d \<noteq> BLK_OK
     then (transfer_check dev start count buf len True d, d)
     else write_sectors dev start count bytes d)"

section \<open>Devices\<close>

definition blk_device :: "nat \<Rightarrow> disk \<Rightarrow> blk_state option" where
  "blk_device dev d =
    (if BLK_MAX_DEVICES \<le> dev \<or> \<not> bs_present (dk_devices d dev) then None else Some (dk_devices d dev))"

definition blk_count :: "disk \<Rightarrow> nat" where
  "blk_count d = length (filter (\<lambda>i. bs_present (dk_devices d i)) [0..<BLK_MAX_DEVICES])"

definition blk_find_test :: "disk \<Rightarrow> nat option" where
  "blk_find_test d = find (\<lambda>i. bs_present (dk_devices d i) \<and> bs_test_device (dk_devices d i)) [0..<BLK_MAX_DEVICES]"

definition upd_device :: "nat \<Rightarrow> (blk_state \<Rightarrow> blk_state) \<Rightarrow> disk \<Rightarrow> disk" where
  "upd_device i f d = d\<lparr>dk_devices := (dk_devices d)(i := f (dk_devices d i))\<rparr>"

definition blk_set_writable :: "nat \<Rightarrow> disk \<Rightarrow> blk_result \<times> disk" where
  "blk_set_writable dev d =
    (if BLK_MAX_DEVICES \<le> dev \<or> \<not> bs_present (dk_devices d dev) then (BLK_NODEV, d)
     else (BLK_OK, upd_device dev (\<lambda>b. b\<lparr>bs_writable := True\<rparr>) d))"

definition blk_clear_writable :: "nat \<Rightarrow> disk \<Rightarrow> blk_result \<times> disk" where
  "blk_clear_writable dev d =
    (if BLK_MAX_DEVICES \<le> dev \<or> \<not> bs_present (dk_devices d dev) then (BLK_NODEV, d)
     else (BLK_OK, upd_device dev (\<lambda>b. b\<lparr>bs_writable := False\<rparr>) d))"

section \<open>Discovery\<close>

definition bytes_value :: "string \<Rightarrow> nat" where
  "bytes_value s = foldr (\<lambda>c v. of_char c + 256 * v) s 0"

text \<open>\<open>words\<close> are the 256 words \<^verbatim>\<open>IDENTIFY\<close> returned.\<close>

definition check_geometry :: "u16 list \<Rightarrow> blk_result \<times> nat" where
  "check_geometry words =
    (if words ! 49 AND 0x0200 = 0 then (BLK_UNSUPPORTED, 0)
     else let count = unat (words ! 60) + 65536 * unat (words ! 61) in
       if count = 0 then (BLK_NODEV, 0)
       else if words ! 106 AND 0xc000 = 0x4000 \<and> words ! 106 AND 0x1000 \<noteq> 0 then (BLK_UNSUPPORTED, 0)
       else (BLK_OK, if BLK_LBA28_MAX < count then BLK_LBA28_MAX else count))"

definition blk_probe :: "(nat \<Rightarrow> u16 list option) \<Rightarrow> nat \<Rightarrow> nat \<Rightarrow> disk \<Rightarrow> nat \<times> disk" where
  "blk_probe identify i found d =
    (let d0 = d\<lparr>dk_devices := (dk_devices d)(i := \<lparr>bs_present = False, bs_test_device = False, bs_writable = False, bs_block_count = 0\<rparr>)\<rparr>
     in case identify i of
       None \<Rightarrow> (found, d0)
     | Some words \<Rightarrow>
         (case check_geometry words of
            (ok, count) \<Rightarrow>
              if ok \<noteq> BLK_OK then (found, d0)
              else (case sector_read i 0 d0 of
                 (r, b, d1) \<Rightarrow>
                   if r \<noteq> BLK_OK then (found, d1)
                   else (found + 1, upd_device i (\<lambda>st. st\<lparr>bs_present := True, bs_block_count := count,
                     bs_test_device := (take 8 b = BLK_MAGIC \<and> bytes_value (take 4 (drop 8 b)) = BLK_SECTOR_SIZE \<and>
                       bytes_value (take 8 (drop 12 b)) = count)\<rparr>) d1))))"

definition blk_discover ::
  "cpu_ctx \<Rightarrow> u32 \<Rightarrow> u32 \<Rightarrow> (nat \<Rightarrow> u16 list option) \<Rightarrow> disk \<Rightarrow> (blk_result + nat) \<times> disk" where
  "blk_discover c pci_id pci_class identify d =
    (if \<not> foreground c then (Inl BLK_INVALID, d)
     else if pci_id \<noteq> 0x70108086 then (Inl BLK_INIT_FAIL, d)
     else if drop_bit 16 pci_class \<noteq> 0x0101 then (Inl BLK_INIT_FAIL, d)
     else if drop_bit 8 pci_class AND 0x05 \<noteq> 0 then (Inl BLK_INIT_FAIL, d)
     else (case fold (\<lambda>i (found, d). blk_probe identify i found d) [0..<BLK_MAX_DEVICES] (0, d) of
         (found, d') \<Rightarrow> if found = 0 then (Inl BLK_INIT_FAIL, d') else (Inr found, d')))"

end
