(* ===== verification/Fs.thy ===== *)
theory Fs
  imports Blk
begin

text \<open>
  The file system (\<^verbatim>\<open>src/kernel/storage/fs.c\<close>): mounting and validating an image,
  path resolution, handles, reads, creation, unlinking, and writes that
  overwrite, grow in place or relocate a file.

  A directory entry is a string of 64 bytes and the RAM copy of the directory is
  the list of its entries, so \<open>fs_dir s ! i\<close> is \<^verbatim>\<open>entry_at(i)\<close>. A path is the
  bytes before its terminator, or \<open>None\<close> for a null pointer. Numbers are naturals;
  \<open>w64\<close> marks the sums and products that the code computes before it has
  bounded them. The diagnostic text \<^verbatim>\<open>fs_stage\<close> and the test-only fault counter of
  armed builds are left out.
\<close>

section \<open>Data\<close>

definition FS_MAX_PATH :: nat where
  "FS_MAX_PATH = 32"

definition FS_MAX_NAME :: nat where
  "FS_MAX_NAME = 31"

definition FS_MAX_OPEN :: nat where
  "FS_MAX_OPEN = 8"

definition FS_MAX_DIR_BLOCKS :: nat where
  "FS_MAX_DIR_BLOCKS = 64"

definition FS_MAX_READ_BYTES :: nat where
  "FS_MAX_READ_BYTES = 16384"

definition FS_MAX_WRITE_BYTES :: nat where
  "FS_MAX_WRITE_BYTES = 16384"

definition FS_DIR_ENTRIES_PER_BLOCK :: nat where
  "FS_DIR_ENTRIES_PER_BLOCK = 8"

definition FS_MAGIC :: string where
  "FS_MAGIC = ''RYNORFS'' @ [CHR 0x00]"

datatype fs_result = FS_OK | FS_INVALID | FS_NOTFOUND | FS_NOTFILE | FS_NOTDIR | FS_BADHANDLE | FS_RANGE
  | FS_IOERR | FS_CORRUPT | FS_UNSUPPORTED | FS_BUSY | FS_EXISTS | FS_NOSPC | FS_END

definition FS_TYPE_FILE :: nat where
  "FS_TYPE_FILE = 1"

definition FS_TYPE_DIR :: nat where
  "FS_TYPE_DIR = 2"

record fs =
  fs_is_mounted :: bool
  fs_dev :: nat
  fs_writable_authorized :: bool
  fs_total :: nat
  fs_dir_start :: nat
  fs_dir_blocks :: nat
  fs_data_start :: nat
  fs_data_blocks :: nat
  fs_dir :: "string list"
  fs_handles :: "nat \<Rightarrow> nat option"
  fs_generations :: "nat \<Rightarrow> nat"

text \<open>The address of a static buffer: not null, and aligned as the code declares it.\<close>

definition static_buf :: nat where
  "static_buf = 2"

section \<open>Bytes\<close>

definition NUL :: char where
  "NUL = CHR 0x00"

definition rd32le :: "string \<Rightarrow> nat \<Rightarrow> nat" where
  "rd32le e off = bytes_value (take 4 (drop off e))"

definition rd64le :: "string \<Rightarrow> nat \<Rightarrow> nat" where
  "rd64le e off = bytes_value (take 8 (drop off e))"

text \<open>\<^verbatim>\<open>mem_copy\<close> of \<open>src\<close> to offset \<open>off\<close>.\<close>

definition put_bytes :: "string \<Rightarrow> nat \<Rightarrow> string \<Rightarrow> string" where
  "put_bytes dst off src = take off dst @ src @ drop (off + length src) dst"

definition wr64le :: "string \<Rightarrow> nat \<Rightarrow> nat \<Rightarrow> string" where
  "wr64le e off v = put_bytes e off (map (\<lambda>i. char_of (v div 256 ^ i)) [0..<8])"

definition range_ok :: "nat \<Rightarrow> nat \<Rightarrow> nat \<Rightarrow> bool" where
  "range_ok start count tot \<longleftrightarrow> count \<le> tot \<and> start \<le> tot - count"

definition ranges_overlap :: "nat \<Rightarrow> nat \<Rightarrow> nat \<Rightarrow> nat \<Rightarrow> bool" where
  "ranges_overlap a_start a_count b_start b_count =
    (if 2 ^ 64 - 1 - a_start < a_count \<or> 2 ^ 64 - 1 - b_start < b_count then True
     else a_start < b_start + b_count \<and> b_start < a_start + a_count)"

section \<open>Entries and paths\<close>

definition entry_free :: "string \<Rightarrow> bool" where
  "entry_free e \<longleftrightarrow> list_all (\<lambda>c. c = NUL) e"

definition entry_type :: "string \<Rightarrow> nat" where
  "entry_type e = of_char (e ! 32)"

definition entry_first :: "string \<Rightarrow> nat" where
  "entry_first e = rd64le e 40"

definition entry_count :: "string \<Rightarrow> nat" where
  "entry_count e = rd64le e 48"

definition entry_length :: "string \<Rightarrow> nat" where
  "entry_length e = rd64le e 56"

definition printable :: "char \<Rightarrow> bool" where
  "printable c \<longleftrightarrow> 0x20 \<le> (of_char c :: nat) \<and> (of_char c :: nat) \<le> 0x7e"

definition name_len :: "string \<Rightarrow> nat" where
  "name_len e =
    (let nm = takeWhile (\<lambda>c. c \<noteq> NUL) (take 32 e); n = length nm in
     if \<not> list_all printable nm then 0
     else if n = 0 \<or> FS_MAX_NAME < n then 0
     else if \<not> list_all (\<lambda>c. c = NUL) (drop (n + 1) (take 32 e)) then 0
     else n)"

text \<open>The components between slashes.\<close>

function split_slash :: "string \<Rightarrow> string list" where
  "split_slash s =
    (case dropWhile (\<lambda>c. c \<noteq> CHR ''/'') s of
       [] \<Rightarrow> [takeWhile (\<lambda>c. c \<noteq> CHR ''/'') s]
     | _ # r \<Rightarrow> takeWhile (\<lambda>c. c \<noteq> CHR ''/'') s # split_slash r)"
  by pat_completeness auto
termination
proof (relation "measure length")
  fix s :: string and x r
  assume "dropWhile (\<lambda>c. c \<noteq> CHR ''/'') s = x # r"
  then have "length (x # r) \<le> length s" by (metis length_dropWhile_le)
  then show "(r, s) \<in> measure length" by simp
qed simp

declare split_slash.simps [simp del]

definition dot_name :: "string \<Rightarrow> bool" where
  "dot_name c \<longleftrightarrow> c = ''.'' \<or> c = ''..''"

text \<open>\<^verbatim>\<open>path_ok\<close>, as whether the length it returns is not negative.\<close>

definition fs_path_ok :: "string option \<Rightarrow> bool" where
  "fs_path_ok path =
    (case path of
       None \<Rightarrow> False
     | Some p \<Rightarrow>
         1 \<le> length p \<and> length p \<le> FS_MAX_PATH \<and> p ! 0 = CHR ''/'' \<and>
         list_all printable (tl p) \<and>
         \<not> (1 < length p \<and> last p = CHR ''/'') \<and>
         list_all (\<lambda>i. \<not> (p ! i = CHR ''/'' \<and> p ! (i - 1) = CHR ''/'')) [1..<length p] \<and>
         list_all (\<lambda>c. \<not> dot_name c) (split_slash (tl p)))"

definition find_key :: "string list \<Rightarrow> string \<Rightarrow> nat option" where
  "find_key dir key =
    find (\<lambda>i. \<not> entry_free (dir ! i) \<and> name_len (dir ! i) \<noteq> 0 \<and> name_len (dir ! i) = length key \<and>
        take (length key) (dir ! i) = key) [0..<length dir]"

text \<open>
  The component loop of \<^verbatim>\<open>resolve\<close>: \<open>key\<close> is the key built so far and \<open>rest\<close> what is
  left of the path.
\<close>

definition grow_key :: "string \<Rightarrow> string \<Rightarrow> string" where
  "grow_key key part = (if key = [] then part else key @ ''/'' @ part)"

function resolve_loop :: "string list \<Rightarrow> string \<Rightarrow> string \<Rightarrow> fs_result + nat" where
  "resolve_loop dir key rest =
    (let key' = grow_key key (takeWhile (\<lambda>c. c \<noteq> CHR ''/'') rest) in
     case find_key dir key' of
       None \<Rightarrow> Inl FS_NOTFOUND
     | Some slot \<Rightarrow>
         (case dropWhile (\<lambda>c. c \<noteq> CHR ''/'') rest of
            [] \<Rightarrow> Inr slot
          | _ # r \<Rightarrow> if entry_type (dir ! slot) \<noteq> FS_TYPE_DIR then Inl FS_NOTDIR else resolve_loop dir key' r))"
  by pat_completeness auto
termination
proof (relation "measure (\<lambda>(dir, key, rest). length rest)")
  fix dir key and rest :: string and x r
  assume "dropWhile (\<lambda>c. c \<noteq> CHR ''/'') rest = x # r"
  then have "length (x # r) \<le> length rest" by (metis length_dropWhile_le)
  then show "((dir, key', r), dir, key, rest) \<in> measure (\<lambda>(dir, key, rest). length rest)" for key' by simp
qed simp

declare resolve_loop.simps [simp del]

text \<open>\<open>Inr None\<close> is the root.\<close>

definition resolve :: "string list \<Rightarrow> string \<Rightarrow> fs_result + nat option" where
  "resolve dir p =
    (if length p = 1 then Inr None
     else case resolve_loop dir [] (tl p) of Inl r \<Rightarrow> Inl r | Inr slot \<Rightarrow> Inr (Some slot))"

definition decode_handle :: "fs \<Rightarrow> nat \<Rightarrow> nat option" where
  "decode_handle s handle =
    (let slot = handle mod 8; gen = handle div 8 in
     if FS_MAX_OPEN \<le> slot \<or> gen = 0 then None
     else if \<not> fs_is_mounted s then None
     else if fs_handles s slot = None \<or> fs_generations s slot \<noteq> gen then None
     else Some slot)"

section \<open>Mounting\<close>

definition name_components_ok :: "string \<Rightarrow> bool" where
  "name_components_ok nm \<longleftrightarrow> list_all (\<lambda>c. c \<noteq> [] \<and> \<not> dot_name c) (split_slash nm)"

text \<open>One round of the validation loop of \<^verbatim>\<open>fs_mount\<close>; every failure there is \<^verbatim>\<open>FS_CORRUPT\<close>.\<close>

definition entry_valid :: "nat \<Rightarrow> nat \<Rightarrow> string \<Rightarrow> bool" where
  "entry_valid data_start data_blocks e =
    (if entry_free e then True
     else if name_len e = 0 then False
     else if \<not> name_components_ok (take (name_len e) e) then False
     else if entry_type e \<noteq> FS_TYPE_FILE \<and> entry_type e \<noteq> FS_TYPE_DIR then False
     else if \<not> list_all (\<lambda>c. c = NUL) (take 7 (drop 33 e)) then False
     else if entry_type e = FS_TYPE_DIR
     then entry_first e = 0 \<and> entry_count e = 0 \<and> entry_length e = 0
     else if entry_count e = 0 then entry_length e = 0 \<and> entry_first e = 0
     else if entry_length e = 0 then False
     else if (2 ^ 64 - 1) div 512 < entry_count e \<or> w64 (entry_count e * 512) < entry_length e then False
     else let data_end = w64 (data_start + data_blocks) in
       \<not> (entry_first e < data_start \<or> data_end \<le> entry_first e \<or> data_end - entry_first e < entry_count e))"

text \<open>The duplicate test for slots \<open>i < j\<close>, the parents of slot \<open>i\<close>, and the extents of \<open>i < j\<close>.\<close>

definition same_name :: "string \<Rightarrow> string \<Rightarrow> bool" where
  "same_name a b \<longleftrightarrow> \<not> entry_free b \<and> name_len a = name_len b \<and> take (name_len a) a = take (name_len a) b"

definition parents_ok :: "string list \<Rightarrow> string \<Rightarrow> bool" where
  "parents_ok dir e \<longleftrightarrow> list_all (\<lambda>k. e ! k \<noteq> CHR ''/'' \<or>
     (case find_key dir (take k e) of None \<Rightarrow> False | Some p \<Rightarrow> entry_type (dir ! p) = FS_TYPE_DIR)) [0..<name_len e]"

definition has_extent :: "string \<Rightarrow> bool" where
  "has_extent e \<longleftrightarrow> \<not> entry_free e \<and> entry_type e = FS_TYPE_FILE \<and> entry_count e \<noteq> 0"

definition extents_overlap :: "string \<Rightarrow> string \<Rightarrow> bool" where
  "extents_overlap a b \<longleftrightarrow> has_extent a \<and> has_extent b \<and>
     ranges_overlap (entry_first a) (entry_count a) (entry_first b) (entry_count b)"

definition dir_valid :: "nat \<Rightarrow> nat \<Rightarrow> string list \<Rightarrow> bool" where
  "dir_valid data_start data_blocks dir \<longleftrightarrow>
    list_all (entry_valid data_start data_blocks) dir \<and>
    list_all (\<lambda>i. entry_free (dir ! i) \<or>
        list_all (\<lambda>j. \<not> same_name (dir ! i) (dir ! j)) [i + 1..<length dir] \<and> parents_ok dir (dir ! i)) [0..<length dir] \<and>
    list_all (\<lambda>i. list_all (\<lambda>j. \<not> extents_overlap (dir ! i) (dir ! j)) [i + 1..<length dir]) [0..<length dir]"

text \<open>The checks on the superblock \<open>sb\<close> and the geometry it gives.\<close>

definition superblock_check :: "nat \<Rightarrow> string \<Rightarrow> fs_result" where
  "superblock_check capacity sb =
    (let tot = rd64le sb 16; dir_start = rd64le sb 24; dir_blocks = rd64le sb 32;
         data_start = rd64le sb 40; data_blocks = rd64le sb 48 in
     if take 8 sb \<noteq> FS_MAGIC then FS_INVALID
     else if rd32le sb 8 \<noteq> 1 then FS_UNSUPPORTED
     else if rd32le sb 12 \<noteq> 512 then FS_UNSUPPORTED
     else if rd64le sb 56 \<noteq> 0 then FS_CORRUPT
     else if \<not> list_all (\<lambda>c. c = NUL) (drop 64 sb) then FS_CORRUPT
     else if tot = 0 \<or> capacity < tot then FS_CORRUPT
     else if dir_blocks = 0 then FS_CORRUPT
     else if FS_MAX_DIR_BLOCKS < dir_blocks then FS_UNSUPPORTED
     else if \<not> range_ok dir_start dir_blocks tot \<or> dir_start = 0 then FS_CORRUPT
     else if data_blocks = 0 \<or> \<not> range_ok data_start data_blocks tot \<or> data_start = 0 then FS_CORRUPT
     else if ranges_overlap 0 1 dir_start dir_blocks \<or> ranges_overlap 0 1 data_start data_blocks \<or>
        ranges_overlap dir_start dir_blocks data_start data_blocks then FS_CORRUPT
     else FS_OK)"

text \<open>Cut bytes into directory entries.\<close>

fun entries_of :: "nat \<Rightarrow> string \<Rightarrow> string list" where
  "entries_of 0 bytes = []"
| "entries_of (Suc n) bytes = take 64 bytes # entries_of n (drop 64 bytes)"

text \<open>The loop that reads the directory in chunks of at most 32 blocks.\<close>

function load_dir :: "nat \<Rightarrow> nat \<Rightarrow> nat \<Rightarrow> nat \<Rightarrow> string \<Rightarrow> disk \<Rightarrow> bool \<times> string \<times> disk" where
  "load_dir dev dir_start dir_blocks got bytes d =
    (if got < dir_blocks then
       let n = (if 32 < dir_blocks - got then 32 else dir_blocks - got) in
       case blk_read dev (dir_start + got) n static_buf (n * 512) d of
         (r, bs, d1) \<Rightarrow>
           if r \<noteq> BLK_OK then (False, bytes, d1)
           else load_dir dev dir_start dir_blocks (got + n) (bytes @ bs) d1
     else (True, bytes, d))"
  by pat_completeness auto
termination
  by (relation "measure (\<lambda>(dev, ds, db, got, bytes, d). db - got)") auto

declare load_dir.simps [simp del]

text \<open>A 32-bit generation counter that skips zero.\<close>

definition next_gen :: "nat \<Rightarrow> nat" where
  "next_gen g = (let g' = (g + 1) mod 2 ^ 32 in if g' = 0 then 1 else g')"

text \<open>Revoking the previous device, when it was authorized; a refusal halts.\<close>

definition fs_revoke :: "string \<Rightarrow> fs \<Rightarrow> disk \<Rightarrow> (fs \<times> disk) outcome" where
  "fs_revoke step s d =
    (if fs_writable_authorized s then
       (case blk_clear_writable (fs_dev s) d of
          (r, d') \<Rightarrow> if r \<noteq> BLK_OK then Panics step else Returns (s\<lparr>fs_writable_authorized := False\<rparr>, d'))
     else Returns (s, d))"

definition fs_install :: "nat \<Rightarrow> string \<Rightarrow> string list \<Rightarrow> fs \<Rightarrow> fs" where
  "fs_install dev sb dir s = s\<lparr>fs_total := rd64le sb 16, fs_dir_start := rd64le sb 24, fs_dir_blocks := rd64le sb 32,
    fs_data_start := rd64le sb 40, fs_data_blocks := rd64le sb 48, fs_dir := dir, fs_dev := dev\<rparr>"

text \<open>
  \<^verbatim>\<open>fs_mount\<close> after the revocation. Reading the directory fails with the RAM copy partly
  overwritten, which the model leaves out: nothing reads it before a mount has replaced it.
\<close>

definition fs_load :: "nat \<Rightarrow> fs \<Rightarrow> disk \<Rightarrow> fs_result \<times> fs \<times> disk" where
  "fs_load dev s d =
    (case blk_device dev d of
       None \<Rightarrow> (FS_INVALID, s, d)
     | Some info \<Rightarrow>
         (case blk_read dev 0 1 static_buf 512 d of
            (r, sb, d1) \<Rightarrow>
              if r \<noteq> BLK_OK then (FS_IOERR, s, d1)
              else if superblock_check (bs_block_count info) sb \<noteq> FS_OK
              then (superblock_check (bs_block_count info) sb, s, d1)
              else (case load_dir dev (rd64le sb 24) (rd64le sb 32) 0 [] d1 of
                 (ok, bytes, d2) \<Rightarrow>
                   if \<not> ok then (FS_IOERR, s, d2)
                   else let dir = entries_of (rd64le sb 32 * 8) bytes in
                     if \<not> dir_valid (rd64le sb 40) (rd64le sb 48) dir then (FS_CORRUPT, s\<lparr>fs_dir := dir\<rparr>, d2)
                     else let s1 = fs_install dev sb dir s in
                       (case blk_set_writable dev d2 of
                          (w, d3) \<Rightarrow>
                            if w \<noteq> BLK_OK then (FS_IOERR, s1, d3)
                            else (FS_OK, s1\<lparr>fs_writable_authorized := True, fs_handles := (\<lambda>_. None),
                                fs_generations := (\<lambda>k. next_gen (fs_generations s1 k)), fs_is_mounted := True\<rparr>, d3)))))"

definition fs_mount :: "nat \<Rightarrow> fs \<Rightarrow> disk \<Rightarrow> (fs_result \<times> fs \<times> disk) outcome" where
  "fs_mount dev s d =
    (case fs_revoke ''rollback_revoke'' s d of
       Panics w \<Rightarrow> Panics w
     | Returns (s1, d1) \<Rightarrow> Returns (fs_load dev (s1\<lparr>fs_is_mounted := False, fs_handles := (\<lambda>_. None)\<rparr>) d1))"

definition fs_unmount :: "fs \<Rightarrow> disk \<Rightarrow> (fs \<times> disk) outcome" where
  "fs_unmount s d =
    (case fs_revoke ''rollback_unmount'' s d of
       Panics w \<Rightarrow> Panics w
     | Returns (s1, d1) \<Rightarrow> Returns (s1\<lparr>fs_is_mounted := False, fs_handles := (\<lambda>_. None)\<rparr>, d1))"

definition fs_total_blocks :: "fs \<Rightarrow> nat" where
  "fs_total_blocks s = (if fs_is_mounted s then fs_total s else 0)"

section \<open>Handles and reads\<close>

text \<open>\<open>out\<close> tells whether the caller's pointer is not null; the second result is what is stored there.\<close>

definition fs_open :: "string option \<Rightarrow> bool \<Rightarrow> fs \<Rightarrow> fs_result \<times> nat option \<times> fs" where
  "fs_open path out s =
    (if \<not> fs_is_mounted s then (FS_INVALID, None, s)
     else if \<not> out then (FS_INVALID, None, s)
     else if \<not> fs_path_ok path then (FS_INVALID, None, s)
     else case resolve (fs_dir s) (the path) of
       Inl r \<Rightarrow> (r, None, s)
     | Inr None \<Rightarrow> (FS_NOTFILE, None, s)
     | Inr (Some slot) \<Rightarrow>
         if entry_type (fs_dir s ! slot) \<noteq> FS_TYPE_FILE then (FS_NOTFILE, None, s)
         else (case find (\<lambda>k. fs_handles s k = None) [0..<FS_MAX_OPEN] of
            None \<Rightarrow> (FS_BUSY, None, s)
          | Some k \<Rightarrow>
              let g = next_gen (fs_generations s k) in
              (FS_OK, Some ((k + 8 * g) mod 2 ^ 32),
               s\<lparr>fs_generations := (fs_generations s)(k := g), fs_handles := (fs_handles s)(k := Some slot)\<rparr>)))"

definition fs_stat :: "string option \<Rightarrow> bool \<Rightarrow> fs \<Rightarrow> fs_result \<times> (nat \<times> nat \<times> nat) option" where
  "fs_stat path out s =
    (if \<not> fs_is_mounted s then (FS_INVALID, None)
     else if \<not> out then (FS_INVALID, None)
     else if \<not> fs_path_ok path then (FS_INVALID, None)
     else case resolve (fs_dir s) (the path) of
       Inl r \<Rightarrow> (r, None)
     | Inr None \<Rightarrow> (FS_OK, Some (FS_TYPE_DIR, 0, 0))
     | Inr (Some slot) \<Rightarrow>
         let e = fs_dir s ! slot in (FS_OK, Some (entry_type e, entry_length e, entry_count e)))"

lemma whole_blocks_less: "512 \<le> n - f \<Longrightarrow> n - (f + (n - f) div 512 * 512) < n - (f :: nat)"
proof -
  assume "512 \<le> n - f"
  then have "1 \<le> (n - f) div 512" by (simp add: div_greater_zero_iff Suc_le_eq)
  then have "512 \<le> (n - f) div 512 * 512" by simp
  with \<open>512 \<le> n - f\<close> show ?thesis by linarith
qed

text \<open>
  The transfer loop of \<^verbatim>\<open>fs_read\<close>: \<open>buf\<close> is the buffer's address, \<open>n\<close> what is to be
  read; the result is whether it completed, how much is done and the bytes.
\<close>

function read_loop :: "nat \<Rightarrow> nat \<Rightarrow> nat \<Rightarrow> nat \<Rightarrow> nat \<Rightarrow> nat \<Rightarrow> string \<Rightarrow> disk \<Rightarrow> bool \<times> nat \<times> string \<times> disk" where
  "read_loop dev buf n finished cur pos bytes d =
    (if finished < n then
       if pos = 0 \<and> 512 \<le> n - finished \<and> (buf + finished) mod 2 = 0 then
         let full = (n - finished) div 512; chunk = (if 32 < full then 32 else full) in
         (case blk_read dev cur chunk (buf + finished) (chunk * 512) d of
            (r, bs, d1) \<Rightarrow>
              if r \<noteq> BLK_OK then (False, finished, bytes, d1)
              else read_loop dev buf n (finished + chunk * 512) (cur + chunk) 0 (bytes @ bs) d1)
       else
         let size = (if 512 - pos < n - finished then 512 - pos else n - finished) in
         (case blk_read dev cur 1 static_buf 512 d of
            (r, b, d1) \<Rightarrow>
              if r \<noteq> BLK_OK then (False, finished, bytes, d1)
              else read_loop dev buf n (finished + size) (cur + 1) 0 (bytes @ take size (drop pos b)) d1)
     else (True, finished, bytes, d))"
  by pat_completeness auto
termination
proof (relation "inv_image (less_than <*lex*> less_than)
    (\<lambda>(dev, buf, n, finished, cur, pos, bytes, d). (n - finished, pos))", goal_cases)
  case 1
  then show ?case by blast
next
  case 2
  then show ?case by (auto simp: whole_blocks_less)
next
  case 3
  then show ?case by (auto split: if_splits)
qed

declare read_loop.simps [simp del]

text \<open>The second result is what \<^verbatim>\<open>*nread\<close> is set to, if at all; the third what is in the buffer.\<close>

definition fs_read :: "nat \<Rightarrow> nat \<Rightarrow> nat \<Rightarrow> nat \<Rightarrow> fs \<Rightarrow> disk \<Rightarrow> fs_result \<times> nat option \<times> string \<times> disk" where
  "fs_read handle offset buf len s d =
    (case decode_handle s handle of
       None \<Rightarrow> (FS_BADHANDLE, None, [], d)
     | Some k \<Rightarrow>
         if FS_MAX_READ_BYTES < len then (FS_INVALID, None, [], d)
         else let e = fs_dir s ! the (fs_handles s k) in
           if entry_type e \<noteq> FS_TYPE_FILE then (FS_NOTFILE, None, [], d)
           else if entry_length e < offset then (FS_RANGE, None, [], d)
           else let avail = entry_length e - offset; n = (if len < avail then len else avail) in
             if len \<noteq> 0 \<and> (buf = 0 \<or> buf mod 2 = 1) then (FS_INVALID, None, [], d)
             else if n = 0 then (FS_OK, Some 0, [], d)
             else (case read_loop (fs_dev s) buf n 0 (entry_first e + offset div 512) (offset mod 512) [] d of
                (ok, finished, bytes, d') \<Rightarrow>
                  if ok then (FS_OK, Some n, bytes, d') else (FS_IOERR, Some finished, bytes, d')))"

definition fs_close :: "nat \<Rightarrow> fs \<Rightarrow> fs_result \<times> fs" where
  "fs_close handle s =
    (case decode_handle s handle of
       None \<Rightarrow> (FS_BADHANDLE, s)
     | Some k \<Rightarrow> (FS_OK, s\<lparr>fs_handles := (fs_handles s)(k := None)\<rparr>))"

section \<open>Allocation\<close>

text \<open>The start of the first live extent at or after \<open>cur\<close>, or the end of the data region.\<close>

definition next_extent :: "string list \<Rightarrow> nat \<Rightarrow> nat \<Rightarrow> nat" where
  "next_extent dir cur data_end =
    fold (\<lambda>e nxt. if has_extent e \<and> cur \<le> entry_first e \<and> entry_first e < nxt then entry_first e else nxt)
      dir data_end"

text \<open>The first file entry whose extent starts at \<open>nxt\<close>; here the code does not test the count.\<close>

definition extent_at :: "string list \<Rightarrow> nat \<Rightarrow> string option" where
  "extent_at dir nxt =
    find (\<lambda>e. \<not> entry_free e \<and> entry_type e = FS_TYPE_FILE \<and> entry_first e = nxt) dir"

lemma next_extent_cases:
  "next_extent dir cur data_end = data_end \<or>
    next_extent dir cur data_end < data_end \<and> cur \<le> next_extent dir cur data_end \<and>
    (\<exists>e \<in> set dir. has_extent e \<and> entry_first e = next_extent dir cur data_end)"
proof -
  have "fold (\<lambda>e nxt. if has_extent e \<and> cur \<le> entry_first e \<and> entry_first e < nxt then entry_first e else nxt) es m = m \<or>
      (let r = fold (\<lambda>e nxt. if has_extent e \<and> cur \<le> entry_first e \<and> entry_first e < nxt then entry_first e else nxt) es m
       in r < m \<and> cur \<le> r \<and> (\<exists>e \<in> set es. has_extent e \<and> entry_first e = r))" for es m
  proof (induction es arbitrary: m)
    case Nil
    then show ?case by simp
  next
    case (Cons e es)
    show ?case
    proof (cases "has_extent e \<and> cur \<le> entry_first e \<and> entry_first e < m")
      case True
      with Cons.IH [of "entry_first e"] show ?thesis by (auto simp: Let_def)
    next
      case False
      with Cons.IH [of m] show ?thesis by (auto simp: Let_def)
    qed
  qed
  from this [of dir data_end] show ?thesis by (simp add: next_extent_def Let_def)
qed

function alloc_loop :: "string list \<Rightarrow> nat \<Rightarrow> nat \<Rightarrow> nat \<Rightarrow> fs_result + nat" where
  "alloc_loop dir data_end nblocks cur =
    (let nxt = next_extent dir cur data_end in
     if cur \<le> nxt \<and> nblocks \<le> nxt - cur then Inr cur
     else if data_end \<le> nxt then Inl FS_NOSPC
     else let cur' = (case extent_at dir nxt of None \<Rightarrow> nxt | Some e \<Rightarrow> w64 (nxt + entry_count e)) in
       if cur' \<le> nxt then Inl FS_CORRUPT else alloc_loop dir data_end nblocks cur')"
  by pat_completeness auto
termination
proof (relation "measure (\<lambda>(dir, data_end, nblocks, cur). data_end - cur)", goal_cases)
  case 1
  then show ?case by simp
next
  case (2 dir data_end nblocks cur nxt cur')
  with next_extent_cases [of dir cur data_end] show ?case by auto
qed

declare alloc_loop.simps [simp del]

definition alloc_first_fit :: "fs \<Rightarrow> nat \<Rightarrow> fs_result + nat" where
  "alloc_first_fit s nblocks =
    (if nblocks = 0 then Inl FS_INVALID
     else alloc_loop (fs_dir s) (w64 (fs_data_start s + fs_data_blocks s)) nblocks (fs_data_start s))"

section \<open>Directory updates\<close>

definition data_write :: "fs \<Rightarrow> nat \<Rightarrow> nat \<Rightarrow> string \<Rightarrow> disk \<Rightarrow> bool \<times> disk" where
  "data_write s lba buf block d =
    (case blk_write (fs_dev s) lba 1 buf block 512 d of (r, d') \<Rightarrow> (r = BLK_OK, d'))"

definition dir_write_slot :: "nat \<Rightarrow> string \<Rightarrow> fs \<Rightarrow> disk \<Rightarrow> fs_result \<times> fs \<times> disk" where
  "dir_write_slot slot entry s d =
    (if length (fs_dir s) \<le> slot then (FS_INVALID, s, d)
     else let blk = fs_dir_start s + slot div FS_DIR_ENTRIES_PER_BLOCK in
       (case blk_read (fs_dev s) blk 1 static_buf 512 d of
          (r, b, d1) \<Rightarrow>
            if r \<noteq> BLK_OK then (FS_IOERR, s, d1)
            else (case data_write s blk static_buf
                (put_bytes b (slot mod FS_DIR_ENTRIES_PER_BLOCK * 64) entry) d1 of
               (ok, d2) \<Rightarrow>
                 if \<not> ok then (FS_IOERR, s, d2)
                 else (FS_OK, s\<lparr>fs_dir := (fs_dir s)[slot := entry]\<rparr>, d2))))"

text \<open>The component loop of \<^verbatim>\<open>fs_create\<close>: the key to create, or why it cannot be.\<close>

function create_loop :: "string list \<Rightarrow> string \<Rightarrow> string \<Rightarrow> fs_result + string" where
  "create_loop dir key rest =
    (let key' = grow_key key (takeWhile (\<lambda>c. c \<noteq> CHR ''/'') rest) in
     case dropWhile (\<lambda>c. c \<noteq> CHR ''/'') rest of
       [] \<Rightarrow> if find_key dir key' \<noteq> None then Inl FS_EXISTS else Inr key'
     | _ # r \<Rightarrow>
         (case find_key dir key' of
            None \<Rightarrow> Inl FS_NOTFOUND
          | Some hit \<Rightarrow> if entry_type (dir ! hit) \<noteq> FS_TYPE_DIR then Inl FS_NOTDIR else create_loop dir key' r))"
  by pat_completeness auto
termination
proof (relation "measure (\<lambda>(dir, key, rest). length rest)")
  fix dir key and rest :: string and x r
  assume "dropWhile (\<lambda>c. c \<noteq> CHR ''/'') rest = x # r"
  then have "length (x # r) \<le> length rest" by (metis length_dropWhile_le)
  then show "((dir, key', r), dir, key, rest) \<in> measure (\<lambda>(dir, key, rest). length rest)" for key' by simp
qed simp

declare create_loop.simps [simp del]

text \<open>The canonical empty file: name and type, everything else zero.\<close>

definition empty_file :: "string \<Rightarrow> string" where
  "empty_file key = put_bytes (put_bytes (replicate 64 NUL) 0 key) 32 [char_of FS_TYPE_FILE]"

definition fs_create :: "string option \<Rightarrow> fs \<Rightarrow> disk \<Rightarrow> fs_result \<times> fs \<times> disk" where
  "fs_create path s d =
    (if \<not> fs_is_mounted s then (FS_INVALID, s, d)
     else if \<not> fs_path_ok path then (FS_INVALID, s, d)
     else if length (the path) = 1 then (FS_EXISTS, s, d)
     else case create_loop (fs_dir s) [] (tl (the path)) of
       Inl r \<Rightarrow> (r, s, d)
     | Inr key \<Rightarrow>
         (case find (\<lambda>i. entry_free (fs_dir s ! i)) [0..<length (fs_dir s)] of
            None \<Rightarrow> (FS_NOSPC, s, d)
          | Some slot \<Rightarrow> dir_write_slot slot (empty_file key) s d))"

definition fs_unlink :: "string option \<Rightarrow> fs \<Rightarrow> disk \<Rightarrow> fs_result \<times> fs \<times> disk" where
  "fs_unlink path s d =
    (if \<not> fs_is_mounted s then (FS_INVALID, s, d)
     else if \<not> fs_path_ok path then (FS_INVALID, s, d)
     else case resolve (fs_dir s) (the path) of
       Inl r \<Rightarrow> (r, s, d)
     | Inr None \<Rightarrow> (FS_NOTFILE, s, d)
     | Inr (Some slot) \<Rightarrow>
         if entry_type (fs_dir s ! slot) \<noteq> FS_TYPE_FILE then (FS_NOTFILE, s, d)
         else (case dir_write_slot slot (replicate 64 NUL) s d of
            (r, s', d') \<Rightarrow>
              if r \<noteq> FS_OK then (r, s', d')
              else (FS_OK, s'\<lparr>fs_handles := (\<lambda>k. if fs_handles s' k = Some slot then None else fs_handles s' k)\<rparr>, d')))"

text \<open>The fields of \<^verbatim>\<open>struct user_dirent\<close>: the path before its padding, the type and the size.\<close>

definition fs_readdir :: "nat \<Rightarrow> bool \<Rightarrow> fs \<Rightarrow> fs_result \<times> (string \<times> nat \<times> nat) option" where
  "fs_readdir ordinal out s =
    (if \<not> fs_is_mounted s then (FS_INVALID, None)
     else if \<not> out then (FS_INVALID, None)
     else let live = filter (\<lambda>e. \<not> entry_free e) (fs_dir s) in
       if length live \<le> ordinal then (FS_END, None)
       else let e = live ! ordinal in
         if name_len e = 0 then (FS_CORRUPT, None)
         else (FS_OK, Some (CHR ''/'' # take (name_len e) e, entry_type e, entry_length e)))"

section \<open>Writes\<close>

text \<open>The loop over the blocks of one chunk: \<open>None\<close>, or the index of the block that failed.\<close>

fun write_chunk :: "fs \<Rightarrow> nat \<Rightarrow> nat \<Rightarrow> string \<Rightarrow> nat \<Rightarrow> nat \<Rightarrow> disk \<Rightarrow> nat option \<times> disk" where
  "write_chunk s cur buf bytes i 0 d = (None, d)"
| "write_chunk s cur buf bytes i (Suc n) d =
    (case data_write s (cur + i) (buf + i * 512) (take 512 (drop (i * 512) bytes)) d of
       (ok, d1) \<Rightarrow> if \<not> ok then (Some i, d1) else write_chunk s cur buf bytes (i + 1) n d1)"

text \<open>
  \<^verbatim>\<open>write_data_blocks\<close>: \<open>bytes\<close> is the payload at address \<open>buf\<close>. The result is
  whether everything was written, and how much was.
\<close>

function write_loop :: "fs \<Rightarrow> nat \<Rightarrow> string \<Rightarrow> nat \<Rightarrow> nat \<Rightarrow> nat \<Rightarrow> disk \<Rightarrow> bool \<times> nat \<times> disk" where
  "write_loop s buf bytes finished cur pos d =
    (if finished < length bytes then
       if pos = 0 \<and> 512 \<le> length bytes - finished \<and> (buf + finished) mod 2 = 0 then
         let full = (length bytes - finished) div 512; chunk = (if 32 < full then 32 else full) in
         (case write_chunk s cur (buf + finished) (drop finished bytes) 0 chunk d of
            (Some i, d1) \<Rightarrow> (False, finished + i * 512, d1)
          | (None, d1) \<Rightarrow> write_loop s buf bytes (finished + chunk * 512) (cur + chunk) 0 d1)
       else
         let size = (if 512 - pos < length bytes - finished then 512 - pos else length bytes - finished) in
         (case blk_read (fs_dev s) cur 1 static_buf 512 d of
            (r, b, d1) \<Rightarrow>
              if r \<noteq> BLK_OK then (False, finished, d1)
              else (case data_write s cur static_buf (put_bytes b pos (take size (drop finished bytes))) d1 of
                 (ok, d2) \<Rightarrow>
                   if \<not> ok then (False, finished, d2)
                   else write_loop s buf bytes (finished + size) (cur + 1) 0 d2))
     else (True, finished, d))"
  by pat_completeness auto
termination
proof (relation "inv_image (less_than <*lex*> less_than)
    (\<lambda>(s, buf, bytes, finished, cur, pos, d). (length bytes - finished, pos))", goal_cases)
  case 1
  then show ?case by blast
next
  case 2
  then show ?case by (auto simp: whole_blocks_less)
next
  case 3
  then show ?case by (auto split: if_splits)
qed

declare write_loop.simps [simp del]

definition write_data_blocks :: "fs \<Rightarrow> nat \<Rightarrow> nat \<Rightarrow> nat \<Rightarrow> string \<Rightarrow> disk \<Rightarrow> fs_result \<times> nat \<times> disk" where
  "write_data_blocks s first offset buf bytes d =
    (case write_loop s buf bytes 0 (first + offset div 512) (offset mod 512) d of
       (ok, finished, d') \<Rightarrow> if ok then (FS_OK, length bytes, d') else (FS_IOERR, finished, d'))"

definition dir_switch_extent :: "nat \<Rightarrow> nat \<Rightarrow> nat \<Rightarrow> nat \<Rightarrow> fs \<Rightarrow> disk \<Rightarrow> fs_result \<times> fs \<times> disk" where
  "dir_switch_extent entry first count len s d =
    dir_write_slot entry (wr64le (wr64le (wr64le (fs_dir s ! entry) 40 first) 48 count) 56 len) s d"

text \<open>Phase 1 of a relocation: copy \<open>n\<close> blocks, from block \<open>ob\<close> on, to the new extent.\<close>

fun copy_blocks :: "fs \<Rightarrow> nat \<Rightarrow> nat \<Rightarrow> nat \<Rightarrow> nat \<Rightarrow> disk \<Rightarrow> bool \<times> disk" where
  "copy_blocks s first new_first ob 0 d = (True, d)"
| "copy_blocks s first new_first ob (Suc n) d =
    (case blk_read (fs_dev s) (first + ob) 1 static_buf 512 d of
       (r, b, d1) \<Rightarrow>
         if r \<noteq> BLK_OK then (False, d1)
         else (case data_write s (new_first + ob) static_buf b d1 of
            (ok, d2) \<Rightarrow> if \<not> ok then (False, d2) else copy_blocks s first new_first (ob + 1) n d2))"

text \<open>One block of phase 2: the payload over what was there, zero past the end.\<close>

definition patch_block :: "string \<Rightarrow> nat \<Rightarrow> string \<Rightarrow> nat \<Rightarrow> nat \<Rightarrow> string" where
  "patch_block old offset bytes fin pb =
    (let boff = pb * 512; lo = (if boff < offset then offset else boff);
         hi = (if fin < boff + 512 then fin else boff + 512);
         b1 = put_bytes old (lo - boff) (take (hi - lo) (drop (lo - offset) bytes))
     in if fin < boff + 512 then put_bytes b1 (fin - boff) (replicate (512 - (fin - boff)) NUL) else b1)"

fun patch_blocks :: "fs \<Rightarrow> nat \<Rightarrow> nat \<Rightarrow> nat \<Rightarrow> string \<Rightarrow> nat \<Rightarrow> nat \<Rightarrow> nat \<Rightarrow> disk \<Rightarrow> bool \<times> disk" where
  "patch_blocks s count new_first offset bytes fin pb 0 d = (True, d)"
| "patch_blocks s count new_first offset bytes fin pb (Suc n) d =
    (case (if pb < count then blk_read (fs_dev s) (new_first + pb) 1 static_buf 512 d
           else (BLK_OK, replicate 512 NUL, d)) of
       (r, b, d1) \<Rightarrow>
         if r \<noteq> BLK_OK then (False, d1)
         else (case data_write s (new_first + pb) static_buf (patch_block b offset bytes fin pb) d1 of
            (ok, d2) \<Rightarrow>
              if \<not> ok then (False, d2)
              else patch_blocks s count new_first offset bytes fin (pb + 1) n d2))"

text \<open>The second result is what \<^verbatim>\<open>*nwritten\<close> is set to, if at all.\<close>

definition write_relocate ::
  "nat \<Rightarrow> nat \<Rightarrow> nat \<Rightarrow> nat \<Rightarrow> string \<Rightarrow> nat \<Rightarrow> fs \<Rightarrow> disk \<Rightarrow> fs_result \<times> nat option \<times> fs \<times> disk" where
  "write_relocate entry count first offset bytes fin s d =
    (if 2 ^ 64 - 1 - 511 < fin then (FS_INVALID, None, s, d)
     else let new_blocks = (fin + 511) div 512 in
       case alloc_first_fit s new_blocks of
         Inl r \<Rightarrow> (r, Some 0, s, d)
       | Inr new_first \<Rightarrow>
           (case copy_blocks s first new_first 0 count d of
              (ok, d1) \<Rightarrow>
                if \<not> ok then (FS_IOERR, Some 0, s, d1)
                else (case patch_blocks s count new_first offset bytes fin (offset div 512)
                    ((fin + 511) div 512 - offset div 512) d1 of
                   (ok, d2) \<Rightarrow>
                     if \<not> ok then (FS_IOERR, Some 0, s, d2)
                     else (case dir_switch_extent entry new_first new_blocks fin s d2 of
                        (r, s', d3) \<Rightarrow>
                          if r \<noteq> FS_OK then (r, Some 0, s', d3) else (FS_OK, Some (length bytes), s', d3)))))"

definition fs_write :: "nat \<Rightarrow> nat \<Rightarrow> nat \<Rightarrow> string \<Rightarrow> fs \<Rightarrow> disk \<Rightarrow> fs_result \<times> nat option \<times> fs \<times> disk" where
  "fs_write handle offset buf bytes s d =
    (case decode_handle s handle of
       None \<Rightarrow> (FS_BADHANDLE, None, s, d)
     | Some k \<Rightarrow>
         if FS_MAX_WRITE_BYTES < length bytes then (FS_INVALID, None, s, d)
         else let entry = the (fs_handles s k); e = fs_dir s ! entry; len = length bytes in
           if entry_type e \<noteq> FS_TYPE_FILE then (FS_NOTFILE, None, s, d)
           else if entry_length e < offset then (FS_RANGE, None, s, d)
           else if 2 ^ 64 - 1 - offset < len then (FS_INVALID, None, s, d)
           else let fin = offset + len in
             if len \<noteq> 0 \<and> (buf = 0 \<or> buf mod 2 = 1) then (FS_INVALID, None, s, d)
             else if len = 0 then (FS_OK, Some 0, s, d)
             else if fin \<le> entry_length e then
               (case write_data_blocks s (entry_first e) offset buf bytes d of (r, n, d') \<Rightarrow> (r, Some n, s, d'))
             else if fin \<le> w64 (entry_count e * 512) then
               (case write_data_blocks s (entry_first e) offset buf bytes d of
                  (r, n, d') \<Rightarrow>
                    if r \<noteq> FS_OK then (r, Some n, s, d')
                    else (case dir_write_slot entry (wr64le (fs_dir s ! entry) 56 fin) s d' of
                       (r', s', d'') \<Rightarrow> (r', Some len, s', d'')))
             else (case write_relocate entry (entry_count e) (entry_first e) offset bytes fin s d of
                (r, n, s', d') \<Rightarrow> (r, Some (case n of None \<Rightarrow> len | Some k \<Rightarrow> k), s', d')))"

fun fs_error_str :: "fs_result \<Rightarrow> string" where
  "fs_error_str FS_OK = ''ok''"
| "fs_error_str FS_INVALID = ''invalid''"
| "fs_error_str FS_NOTFOUND = ''notfound''"
| "fs_error_str FS_NOTFILE = ''notfile''"
| "fs_error_str FS_NOTDIR = ''notdir''"
| "fs_error_str FS_BADHANDLE = ''badhandle''"
| "fs_error_str FS_RANGE = ''range''"
| "fs_error_str FS_IOERR = ''ioerr''"
| "fs_error_str FS_CORRUPT = ''corrupt''"
| "fs_error_str FS_UNSUPPORTED = ''unsupported''"
| "fs_error_str FS_BUSY = ''busy''"
| "fs_error_str FS_EXISTS = ''exists''"
| "fs_error_str FS_NOSPC = ''nospc''"
| "fs_error_str FS_END = ''end''"

end
