(* ===== verification/Fs_Disk.thy ===== *)
theory Fs_Disk
  imports Fs
begin

text \<open>
  What the block transfers do to a disk, seen as bytes: which sectors a call can
  touch at all, and, when it succeeds, the bytes it reads or leaves behind.
\<close>

section \<open>Bytes\<close>

lemma length_put_bytes [simp]: "off + length src \<le> length dst \<Longrightarrow> length (put_bytes dst off src) = length dst"
  by (simp add: put_bytes_def)

lemma nth_put_bytes:
  assumes "off + length src \<le> length dst" and "i < length dst"
  shows "put_bytes dst off src ! i = (if off \<le> i \<and> i < off + length src then src ! (i - off) else dst ! i)"
  using assms by (auto simp: put_bytes_def nth_append)

lemma bytes_value_less: "bytes_value s < 256 ^ length s"
proof (induction s)
  case Nil
  then show ?case by (simp add: bytes_value_def)
next
  case (Cons c s)
  have "of_char c < (256 :: nat)" by (rule nat_of_char_less_256)
  then have "of_char c + 256 * bytes_value s < 256 * (bytes_value s + 1)" by simp
  also have "\<dots> \<le> 256 * 256 ^ length s" using Cons.IH by (intro mult_le_mono2) simp
  finally show ?case by (simp add: bytes_value_def)
qed

lemma bytes_value_digits:
  "bytes_value (map (\<lambda>i. char_of (v div 256 ^ i)) [0..<n]) = v mod 256 ^ n"
proof (induction n arbitrary: v)
  case 0
  then show ?case by (simp add: bytes_value_def)
next
  case (Suc n)
  have "map (\<lambda>i. char_of (v div 256 ^ i)) [0..<Suc n] =
      char_of v # map (\<lambda>i. char_of (v div 256 div 256 ^ i)) [0..<n]"
  proof -
    have "[0..<Suc n] = 0 # map Suc [0..<n]" by (simp add: map_Suc_upt upt_conv_Cons del: upt_Suc)
    then show ?thesis by (simp add: comp_def div_mult2_eq del: upt_Suc)
  qed
  then have "bytes_value (map (\<lambda>i. char_of (v div 256 ^ i)) [0..<Suc n]) =
      v mod 256 + 256 * ((v div 256) mod 256 ^ n)"
    using Suc.IH [of "v div 256"] by (simp add: bytes_value_def)
  also have "\<dots> = v mod 256 ^ Suc n" by (simp add: mod_mult2_eq)
  finally show ?case .
qed

lemma rd64le_less: "rd64le e off < 2 ^ 64"
proof -
  have "rd64le e off < 256 ^ length (take 8 (drop off e))" unfolding rd64le_def by (rule bytes_value_less)
  also have "\<dots> \<le> 256 ^ 8" by (intro power_increasing) simp_all
  finally show ?thesis by simp
qed

lemma length_wr64le [simp]: "off + 8 \<le> length e \<Longrightarrow> length (wr64le e off v) = length e"
  by (simp add: wr64le_def)

lemma rd64le_wr64le:
  assumes "off + 8 \<le> length e"
  shows "rd64le (wr64le e off v) off = v mod 2 ^ 64"
proof -
  have "take 8 (drop off (wr64le e off v)) = map (\<lambda>i. char_of (v div 256 ^ i)) [0..<8]"
    using assms by (simp add: wr64le_def put_bytes_def)
  then show ?thesis using bytes_value_digits [of v 8] by (simp add: rd64le_def)
qed

lemma take_drop_put_bytes:
  assumes "off + length src \<le> length dst" and "n + k \<le> off \<or> off + length src \<le> k"
  shows "take n (drop k (put_bytes dst off src)) = take n (drop k dst)"
  using assms(2)
proof
  assume "n + k \<le> off"
  then show ?thesis using assms(1) by (simp add: put_bytes_def drop_take)
next
  assume a: "off + length src \<le> k"
  then have "k - off - length src + (off + length src) = k" by simp
  with a assms(1) show ?thesis by (simp add: put_bytes_def)
qed

lemma rd64le_put_other:
  assumes "off + length src \<le> length e" and "k + 8 \<le> off \<or> off + length src \<le> k"
  shows "rd64le (put_bytes e off src) k = rd64le e k"
  using assms by (simp add: rd64le_def take_drop_put_bytes add.commute)

lemma rd64le_wr64le_other:
  assumes "off + 8 \<le> length e" and "k + 8 \<le> off \<or> off + 8 \<le> k"
  shows "rd64le (wr64le e off v) k = rd64le e k"
  using assms by (simp add: wr64le_def rd64le_put_other)

lemma take_wr64le: "n \<le> off \<Longrightarrow> off + 8 \<le> length e \<Longrightarrow> take n (wr64le e off v) = take n e"
  by (simp add: wr64le_def put_bytes_def)

lemma nth_wr64le: "i < off \<Longrightarrow> off + 8 \<le> length e \<Longrightarrow> wr64le e off v ! i = e ! i"
  by (simp add: wr64le_def put_bytes_def nth_append)

section \<open>What a transfer touches\<close>

text \<open>Every sector holds 512 bytes, and so does what a failed write leaves.\<close>

definition disk_ok :: "disk \<Rightarrow> bool" where
  "disk_ok d \<longleftrightarrow> (\<forall>v lba. length (dk_sectors d v lba) = 512) \<and>
    (\<forall>n old new. length old = 512 \<longrightarrow> length new = 512 \<longrightarrow> length (dr_torn d n old new) = 512)"

definition frame :: "nat \<Rightarrow> nat set \<Rightarrow> disk \<Rightarrow> disk \<Rightarrow> bool" where
  "frame dev L d d' \<longleftrightarrow> dk_devices d' = dk_devices d \<and> dr_result d' = dr_result d \<and> dr_torn d' = dr_torn d \<and>
    disk_ok d' \<and> (\<forall>v lba. v \<noteq> dev \<or> lba \<notin> L \<longrightarrow> dk_sectors d' v lba = dk_sectors d v lba)"

lemma frame_refl: "disk_ok d \<Longrightarrow> frame dev L d d"
  by (simp add: frame_def)

lemma frame_trans: "frame dev L d d1 \<Longrightarrow> frame dev L d1 d2 \<Longrightarrow> frame dev L d d2"
  by (simp add: frame_def)

lemma frame_mono: "frame dev L d d' \<Longrightarrow> L \<subseteq> M \<Longrightarrow> frame dev M d d'"
  by (auto simp: frame_def)

lemma frame_ok: "frame dev L d d' \<Longrightarrow> disk_ok d'"
  by (simp add: frame_def)

lemma frame_sector: "frame dev L d d' \<Longrightarrow> v \<noteq> dev \<or> lba \<notin> L \<Longrightarrow> dk_sectors d' v lba = dk_sectors d v lba"
  by (simp add: frame_def)

definition byte_at :: "disk \<Rightarrow> nat \<Rightarrow> nat \<Rightarrow> char" where
  "byte_at d dev a = dk_sectors d dev (a div 512) ! (a mod 512)"

lemma frame_byte: "frame dev L d d' \<Longrightarrow> a div 512 \<notin> L \<Longrightarrow> byte_at d' dev a = byte_at d dev a"
  by (simp add: byte_at_def frame_sector)

lemma sector_eq_bytes:
  assumes "disk_ok d"
  shows "dk_sectors d dev lba = map (byte_at d dev) [lba * 512..<lba * 512 + 512]"
proof (rule nth_equalityI)
  show "length (dk_sectors d dev lba) = length (map (byte_at d dev) [lba * 512..<lba * 512 + 512])"
    using assms by (simp add: disk_ok_def)
  fix i assume "i < length (dk_sectors d dev lba)"
  then have i: "i < 512" using assms by (simp add: disk_ok_def)
  have "(lba * 512 + i) div 512 = lba" "(lba * 512 + i) mod 512 = i" using i by simp_all
  then show "dk_sectors d dev lba ! i = map (byte_at d dev) [lba * 512..<lba * 512 + 512] ! i"
    using i by (simp add: byte_at_def)
qed

section \<open>Reading\<close>

lemma read_sectors_result:
  "read_sectors dev start n d = (r, bs, d') \<Longrightarrow> disk_ok d \<Longrightarrow>
    frame dev {} d d' \<and> (r = BLK_OK \<longrightarrow> bs = map (byte_at d dev) [start * 512..<(start + n) * 512])"
proof (induction n arbitrary: start d bs r d')
  case 0
  then show ?case by (simp add: frame_refl)
next
  case (Suc n)
  let ?d = "d\<lparr>dk_commands := dk_commands d + 1\<rparr>"
  have fr: "frame dev {} d ?d" using Suc.prems(2) by (simp add: frame_def disk_ok_def)
  have same: "byte_at ?d dev = byte_at d dev" by (intro ext) (simp add: byte_at_def)
  show ?case
  proof (cases "dr_result d (dk_commands d) = BLK_OK")
    case False
    with Suc.prems fr show ?thesis by (auto simp: sector_read_def)
  next
    case True
    obtain r' bs' d2 where rest: "read_sectors dev (start + 1) n ?d = (r', bs', d2)" by (metis prod_cases3)
    with True Suc.prems(1) have eq: "r = r'" "bs = dk_sectors d dev start @ bs'" "d' = d2"
      by (auto simp: sector_read_def)
    have ih: "frame dev {} ?d d2"
      "r' = BLK_OK \<longrightarrow> bs' = map (byte_at d dev) [(start + 1) * 512..<(start + 1 + n) * 512]"
      using Suc.IH [OF rest frame_ok [OF fr]] unfolding same by blast+
    have "[start * 512..<(start + Suc n) * 512] =
        [start * 512..<start * 512 + 512] @ [(start + 1) * 512..<(start + 1 + n) * 512]"
      using upt_add_eq_append [of "start * 512" "start * 512 + 512" "n * 512"] by (simp add: algebra_simps)
    with ih(2) eq sector_eq_bytes [OF Suc.prems(2), of dev start] frame_trans [OF fr ih(1)] show ?thesis
      by simp
  qed
qed

lemma blk_read_result:
  assumes "blk_read dev start n buf len d = (r, bs, d')" and "disk_ok d"
  shows "frame dev {} d d'" "r = BLK_OK \<Longrightarrow> bs = map (byte_at d dev) [start * 512..<(start + n) * 512]"
  using assms read_sectors_result [of dev start n d r bs d'] frame_refl [OF assms(2)]
  by (auto simp: blk_read_def split: if_splits)

lemma frame_empty_byte: "frame dev {} d d' \<Longrightarrow> byte_at d' = byte_at d"
  by (intro ext) (simp add: byte_at_def frame_def)

lemma blk_read_one:
  assumes "blk_read dev lba 1 buf 512 d = (BLK_OK, b, d')" and "disk_ok d"
  shows "b = dk_sectors d dev lba" "length b = 512"
  using blk_read_result(2) [OF assms] sector_eq_bytes [OF assms(2), of dev lba]
  by (simp_all add: add.commute)


section \<open>Writing\<close>

lemma data_write_result:
  assumes "data_write s lba buf b d = (ok, d')" and "disk_ok d" and "length b = 512"
  shows "frame (fs_dev s) {lba} d d'" "ok \<Longrightarrow> dk_sectors d' (fs_dev s) lba = b"
    "\<not> ok \<Longrightarrow> (\<forall>n old new. dr_torn d n old new = old) \<Longrightarrow> dk_sectors d' = dk_sectors d"
proof -
  have one: "write_sectors (fs_dev s) lba 1 b d = sector_write (fs_dev s) lba b d"
    using assms(3) by (simp add: BLK_SECTOR_SIZE_def sector_write_def Let_def)
  have "disk_ok (snd (sector_write (fs_dev s) lba b d))"
    using assms(2,3) by (simp add: sector_write_def Let_def disk_ok_def)
  then have fr: "frame (fs_dev s) {lba} d (snd (sector_write (fs_dev s) lba b d))"
    by (simp add: frame_def sector_write_def Let_def)
  show "frame (fs_dev s) {lba} d d'" "ok \<Longrightarrow> dk_sectors d' (fs_dev s) lba = b"
    "\<not> ok \<Longrightarrow> (\<forall>n old new. dr_torn d n old new = old) \<Longrightarrow> dk_sectors d' = dk_sectors d"
    using assms(1,3) fr frame_refl [OF assms(2)] one
    by (auto simp: data_write_def blk_write_def sector_write_def Let_def BLK_SECTOR_SIZE_def split: if_splits)
qed

lemma data_write_bytes:
  assumes "data_write s lba buf b d = (True, d')" and "disk_ok d" and "length b = 512"
  shows "byte_at d' (fs_dev s) a = (if a div 512 = lba then b ! (a mod 512) else byte_at d (fs_dev s) a)"
  using data_write_result(1,2) [OF assms] frame_sector [of "fs_dev s" "{lba}" d d' "fs_dev s" "a div 512"]
  by (simp add: byte_at_def)

text \<open>The bytes from \<open>base\<close> on replaced by \<open>bytes\<close>.\<close>

definition patched :: "disk \<Rightarrow> nat \<Rightarrow> nat \<Rightarrow> string \<Rightarrow> disk \<Rightarrow> bool" where
  "patched d dev base bytes d' \<longleftrightarrow> (\<forall>a. byte_at d' dev a =
     (if base \<le> a \<and> a < base + length bytes then bytes ! (a - base) else byte_at d dev a))"

lemma patched_nil [simp]: "patched d dev base [] d"
  by (auto simp: patched_def)

lemma patched_append:
  assumes "patched d dev base xs d1" and "patched d1 dev (base + length xs) ys d2"
  shows "patched d dev base (xs @ ys) d2"
  using assms unfolding patched_def by (auto simp: nth_append)

lemma patched_block:
  assumes "data_write s lba buf b d = (True, d')" and "disk_ok d" and "length b = 512"
  shows "patched d (fs_dev s) (lba * 512) b d'"
proof -
  have "a div 512 = lba \<longleftrightarrow> lba * 512 \<le> a \<and> a < lba * 512 + 512" for a
    by (auto simp: div_nat_eqI dest: sym)
  moreover have "a - lba * 512 = a mod 512" if "a div 512 = lba" for a
    using that by (simp add: minus_div_mult_eq_mod [symmetric])
  ultimately show ?thesis
    unfolding patched_def using data_write_bytes [OF assms] assms(3) by (auto; metis)
qed

lemma patched_same: "byte_at d1 = byte_at d \<Longrightarrow> patched d1 dev base bytes d' = patched d dev base bytes d'"
  by (simp add: patched_def)

text \<open>The blocks that hold the bytes from \<open>base\<close> on.\<close>

definition blocks_of :: "nat \<Rightarrow> nat \<Rightarrow> nat set" where
  "blocks_of base len = (\<lambda>a. a div 512) ` {base..<base + len}"

lemma blocks_of_block: "blocks_of (lba * 512) 512 = {lba}"
proof -
  have "a div 512 = lba" if "lba * 512 \<le> a" "a < lba * 512 + 512" for a
    using that by (simp add: div_nat_eqI)
  moreover have "lba \<in> blocks_of (lba * 512) 512"
    unfolding blocks_of_def by (rule image_eqI [of _ _ "lba * 512"]) simp_all
  ultimately show ?thesis by (auto simp: blocks_of_def)
qed

lemma blocks_of_mono: "base \<le> base' \<Longrightarrow> base' + len' \<le> base + len \<Longrightarrow> blocks_of base' len' \<subseteq> blocks_of base len"
  unfolding blocks_of_def by (intro image_mono) auto

lemma write_chunk_result:
  "write_chunk s cur buf bytes i n d = (res, d') \<Longrightarrow> disk_ok d \<Longrightarrow> (i + n) * 512 \<le> length bytes \<Longrightarrow>
    frame (fs_dev s) (blocks_of ((cur + i) * 512) (n * 512)) d d' \<and>
    (case res of Some j \<Rightarrow> i \<le> j \<and> j < i + n
     | None \<Rightarrow> patched d (fs_dev s) ((cur + i) * 512) (take (n * 512) (drop (i * 512) bytes)) d')"
proof (induction n arbitrary: i d)
  case 0
  then show ?case by (auto simp: frame_refl)
next
  case (Suc n)
  let ?b = "take 512 (drop (i * 512) bytes)"
  have len: "length ?b = 512" using Suc.prems(3) by simp
  obtain ok d1 where w: "data_write s (cur + i) (buf + i * 512) ?b d = (ok, d1)" by fastforce
  note dw = data_write_result [OF w Suc.prems(2) len]
  have sub: "{cur + i} \<subseteq> blocks_of ((cur + i) * 512) (Suc n * 512)"
    unfolding blocks_of_block [symmetric] by (rule blocks_of_mono) simp_all
  show ?case
  proof (cases ok)
    case False
    with w Suc.prems(1) have "res = Some i" "d' = d1" by auto
    with frame_mono [OF dw(1) sub] show ?thesis by simp
  next
    case True
    with w Suc.prems(1) have rest: "write_chunk s cur buf bytes (i + 1) n d1 = (res, d')" by simp
    have "(i + 1 + n) * 512 \<le> length bytes" using Suc.prems(3) by simp
    from Suc.IH [OF rest frame_ok [OF dw(1)] this]
    have ih: "frame (fs_dev s) (blocks_of ((cur + (i + 1)) * 512) (n * 512)) d1 d'"
      "case res of Some j \<Rightarrow> i + 1 \<le> j \<and> j < i + 1 + n
       | None \<Rightarrow> patched d1 (fs_dev s) ((cur + (i + 1)) * 512) (take (n * 512) (drop ((i + 1) * 512) bytes)) d'"
      by simp_all
    have sub2: "blocks_of ((cur + (i + 1)) * 512) (n * 512) \<subseteq> blocks_of ((cur + i) * 512) (Suc n * 512)"
      by (rule blocks_of_mono) simp_all
    have fr: "frame (fs_dev s) (blocks_of ((cur + i) * 512) (Suc n * 512)) d d'"
      using frame_trans [OF frame_mono [OF dw(1) sub] frame_mono [OF ih(1) sub2]] .
    show ?thesis
    proof (cases res)
      case None
      have p1: "patched d (fs_dev s) ((cur + i) * 512) ?b d1"
        by (rule patched_block [OF _ Suc.prems(2) len]) (use w True in simp)
      have at: "(cur + i) * 512 + length ?b = (cur + (i + 1)) * 512" unfolding len by simp
      have p2: "patched d1 (fs_dev s) ((cur + i) * 512 + length ?b) (take (n * 512) (drop ((i + 1) * 512) bytes)) d'"
        using ih(2) None unfolding at by simp
      have "take (Suc n * 512) (drop (i * 512) bytes) = ?b @ take (n * 512) (drop ((i + 1) * 512) bytes)"
        using take_add [of 512 "n * 512" "drop (i * 512) bytes"] by (simp add: add.commute)
      with patched_append [OF p1 p2] fr None show ?thesis by simp
    next
      case (Some j)
      with ih(2) fr show ?thesis by simp
    qed
  qed
qed

text \<open>A block read, changed from \<open>pos\<close> on and written back.\<close>

lemma patched_within:
  assumes w: "data_write s lba buf (put_bytes b pos xs) d = (True, d')" and ok: "disk_ok d"
    and b: "b = dk_sectors d (fs_dev s) lba" and fit: "pos + length xs \<le> 512"
  shows "patched d (fs_dev s) (lba * 512 + pos) xs d'"
  unfolding patched_def
proof
  fix a :: nat
  have len: "length b = 512" using ok b by (simp add: disk_ok_def)
  then have "length (put_bytes b pos xs) = 512" using fit by simp
  note bytes = data_write_bytes [OF w ok this, of a]
  have m: "a mod 512 < 512" by simp
  show "byte_at d' (fs_dev s) a = (if lba * 512 + pos \<le> a \<and> a < lba * 512 + pos + length xs
      then xs ! (a - (lba * 512 + pos)) else byte_at d (fs_dev s) a)"
  proof (cases "a div 512 = lba")
    case True
    then have a: "a = lba * 512 + a mod 512" by (metis div_mult_mod_eq)
    define k where "k = a mod 512"
    have k: "k < 512" "a = lba * 512 + k" using a m by (simp_all add: k_def)
    have "byte_at d' (fs_dev s) a = put_bytes b pos xs ! k" using bytes True by (simp add: k_def)
    also have "\<dots> = (if pos \<le> k \<and> k < pos + length xs then xs ! (k - pos) else b ! k)"
      using k(1) fit len by (simp add: nth_put_bytes)
    also have "b ! k = byte_at d (fs_dev s) a" using True b by (simp add: byte_at_def k_def)
    finally show ?thesis unfolding k(2) by simp
  next
    case False
    then have "\<not> (lba * 512 + pos \<le> a \<and> a < lba * 512 + pos + length xs)"
      using fit by (auto simp: div_nat_eqI)
    with bytes False show ?thesis by auto
  qed
qed

lemma in_blocks_of: "pos < 512 \<Longrightarrow> 0 < k \<Longrightarrow> cur \<in> blocks_of (cur * 512 + pos) k"
  unfolding blocks_of_def by (rule image_eqI [of _ _ "cur * 512 + pos"]) simp_all

lemma write_join:
  assumes "frame dev (blocks_of base k) d d1" and "patched d dev base (take k ys) d1" and k: "k \<le> length ys"
    and "frame dev (blocks_of (base + k) (length ys - k)) d1 d'"
    and "ok \<longrightarrow> patched d1 dev (base + k) (drop k ys) d'"
  shows "frame dev (blocks_of base (length ys)) d d' \<and> (ok \<longrightarrow> patched d dev base ys d')"
proof
  have "blocks_of base k \<subseteq> blocks_of base (length ys)"
    "blocks_of (base + k) (length ys - k) \<subseteq> blocks_of base (length ys)"
    using k by (intro blocks_of_mono; simp)+
  with frame_trans [OF frame_mono [OF assms(1)] frame_mono [OF assms(4)]]
  show "frame dev (blocks_of base (length ys)) d d'" by blast
  have len: "length (take k ys) = k" using k by simp
  have "patched d dev base (take k ys @ drop k ys) d'" if ok
    using assms(2,5) that by (intro patched_append) (simp_all only: len simp_thms)
  then show "ok \<longrightarrow> patched d dev base ys d'" by simp
qed

lemma part_write:
  assumes rd: "blk_read (fs_dev s) cur 1 static_buf 512 d = (BLK_OK, b, d1)" and ok: "disk_ok d" and pos: "pos < 512"
    and fit: "pos + length xs \<le> 512" and xs: "xs \<noteq> []"
    and dw: "data_write s cur static_buf (put_bytes b pos xs) d1 = (w, d2)"
  shows "frame (fs_dev s) (blocks_of (cur * 512 + pos) (length xs)) d d2 \<and>
    (w \<longrightarrow> patched d (fs_dev s) (cur * 512 + pos) xs d2)"
proof
  note fr1 = blk_read_result(1) [OF rd ok]
  note one = blk_read_one [OF rd ok]
  have lb: "length (put_bytes b pos xs) = 512" using one(2) fit by simp
  have "{cur} \<subseteq> blocks_of (cur * 512 + pos) (length xs)" using in_blocks_of [OF pos, of "length xs" cur] xs by simp
  then show "frame (fs_dev s) (blocks_of (cur * 512 + pos) (length xs)) d d2"
    using frame_trans [OF frame_mono [OF fr1] frame_mono [OF data_write_result(1) [OF dw frame_ok [OF fr1] lb]]] by blast
  have "w \<longrightarrow> patched d1 (fs_dev s) (cur * 512 + pos) xs d2"
    using dw one(1) fr1 fit by (intro impI patched_within [OF _ frame_ok [OF fr1]]) (auto simp: frame_def)
  then show "w \<longrightarrow> patched d (fs_dev s) (cur * 512 + pos) xs d2"
    by (simp only: patched_same [OF frame_empty_byte [OF fr1]])
qed

text \<open>The loop goes on at the start of the next block, unless nothing is left.\<close>

lemma next_block:
  assumes k: "pos + k = 512 \<or> k = length (drop finished bytes)"
    and rec: "frame (fs_dev s) (blocks_of ((cur + 1) * 512 + 0) (length (drop (finished + k) bytes))) d2 d' \<and>
      (ok \<longrightarrow> patched d2 (fs_dev s) ((cur + 1) * 512 + 0) (drop (finished + k) bytes) d')"
    and rest: "write_loop s buf bytes (finished + k) (cur + 1) 0 d2 = (ok, finished', d')" and d2: "disk_ok d2"
    and bound: "finished + k \<le> length bytes"
  shows "frame (fs_dev s) (blocks_of (cur * 512 + pos + k) (length (drop finished bytes) - k)) d2 d' \<and>
    (ok \<longrightarrow> patched d2 (fs_dev s) (cur * 512 + pos + k) (drop k (drop finished bytes)) d')"
proof (cases "pos + k = 512")
  case True
  then have "cur * 512 + pos + k = (cur + 1) * 512 + 0" by simp
  moreover have "drop (finished + k) bytes = drop k (drop finished bytes)" by (simp add: add.commute)
  ultimately show ?thesis using rec by (simp only: length_drop) blast
next
  case False
  with k have all: "k = length (drop finished bytes)" by blast
  with rest bound have "d' = d2" by (simp add: write_loop.simps)
  with all frame_refl [OF d2] show ?thesis by simp
qed

lemma write_loop_result:
  "write_loop s buf bytes finished cur pos d = (ok, finished', d') \<Longrightarrow> disk_ok d \<Longrightarrow> pos < 512 \<Longrightarrow>
    finished \<le> length bytes \<Longrightarrow>
    (frame (fs_dev s) (blocks_of (cur * 512 + pos) (length (drop finished bytes))) d d' \<and>
     (ok \<longrightarrow> patched d (fs_dev s) (cur * 512 + pos) (drop finished bytes) d')) \<and> finished' \<le> length bytes"
proof (induction s buf bytes finished cur pos d rule: write_loop.induct)
  case (1 s buf bytes finished cur pos d)
  let ?base = "cur * 512 + pos" and ?ys = "drop finished bytes"
  consider (over) "\<not> finished < length bytes"
    | (chunk) "finished < length bytes" "pos = 0 \<and> 512 \<le> length bytes - finished \<and> (buf + finished) mod 2 = 0"
    | (part) "finished < length bytes" "\<not> (pos = 0 \<and> 512 \<le> length bytes - finished \<and> (buf + finished) mod 2 = 0)"
    by blast
  then show ?case
  proof cases
    case over
    with 1(3) have "finished' = finished" "d' = d" by (simp_all add: write_loop.simps)
    with over 1(4,6) show ?thesis by (simp add: frame_refl)
  next
    case chunk
    define full where "full = (length bytes - finished) div 512"
    define n where "n = (if 32 < full then 32 else full)"
    obtain res d1 where w: "write_chunk s cur (buf + finished) ?ys 0 n d = (res, d1)" by fastforce
    have "full * 512 \<le> length ?ys" by (simp add: full_def)
    then have fit: "n * 512 \<le> length ?ys" unfolding n_def by (auto split: if_splits)
    then have "(0 + n) * 512 \<le> length ?ys" by simp
    from write_chunk_result [OF w 1(4) this]
    have wc: "frame (fs_dev s) (blocks_of ?base (n * 512)) d d1"
      "case res of Some j \<Rightarrow> j < n | None \<Rightarrow> patched d (fs_dev s) ?base (take (n * 512) ?ys) d1"
      using chunk by (auto split: option.splits)
    show ?thesis
    proof (cases res)
      case (Some j)
      with 1(3) chunk w have r: "\<not> ok" "finished' = finished + j * 512" "d' = d1"
        by (simp_all add: write_loop.simps Let_def full_def [symmetric] n_def [symmetric])
      have "j * 512 \<le> n * 512" using wc(2) Some by simp
      moreover have "blocks_of ?base (n * 512) \<subseteq> blocks_of ?base (length ?ys)"
        using fit by (intro blocks_of_mono) simp_all
      ultimately show ?thesis using r frame_mono [OF wc(1)] fit chunk(1) by simp
    next
      case None
      with 1(3) chunk w
      have rest: "write_loop s buf bytes (finished + n * 512) (cur + n) 0 d1 = (ok, finished', d')"
        by (subst (asm) write_loop.simps) (simp add: Let_def full_def [symmetric] n_def [symmetric])
      have "finished + n * 512 \<le> length bytes" using fit chunk(1) by simp
      from 1(1) [OF chunk full_def n_def w [symmetric] None rest frame_ok [OF wc(1)] _ this]
      have ih: "frame (fs_dev s) (blocks_of (?base + n * 512) (length ?ys - n * 512)) d1 d'"
        "ok \<longrightarrow> patched d1 (fs_dev s) (?base + n * 512) (drop (n * 512) ?ys) d'" "finished' \<le> length bytes"
        using chunk by (simp_all add: algebra_simps)
      from wc(2) None have p: "patched d (fs_dev s) ?base (take (n * 512) ?ys) d1" by simp
      from write_join [OF wc(1) p fit ih(1,2)] ih(3) show ?thesis by blast
    qed
  next
    case part
    define k where "k = (if 512 - pos < length bytes - finished then 512 - pos else length bytes - finished)"
    have k: "k \<le> length ?ys" "pos + k \<le> 512" "pos + k = 512 \<or> k = length ?ys"
      using 1(5) by (auto simp: k_def)
    obtain r b d1 where rd: "blk_read (fs_dev s) cur 1 static_buf 512 d = (r, b, d1)" by (metis prod_cases3)
    have k0: "0 < k" using part(1) 1(5) by (simp add: k_def)
    have sub: "blocks_of ?base k \<subseteq> blocks_of ?base (length ?ys)" using k(1) by (intro blocks_of_mono) simp_all
    show ?thesis
    proof (cases "r = BLK_OK")
      case False
      with 1(3) part rd have "\<not> ok" "finished' = finished" "d' = d1"
        by (simp_all add: write_loop.simps k_def [symmetric])
      with frame_mono [OF blk_read_result(1) [OF rd 1(4)]] part show ?thesis by simp
    next
      case True
      obtain w d2 where dw: "data_write s cur static_buf (put_bytes b pos (take k ?ys)) d1 = (w, d2)" by fastforce
      have lk: "length (take k ?ys) = k" using k(1) by simp
      from part_write [OF rd [unfolded True] 1(4,5) _ _ dw] k k0 part
      have pw: "frame (fs_dev s) (blocks_of ?base k) d d2" "w \<longrightarrow> patched d (fs_dev s) ?base (take k ?ys) d2"
        unfolding lk by simp_all
      show ?thesis
      proof (cases w)
        case False
        with 1(3) part rd True dw have "\<not> ok" "finished' = finished" "d' = d2"
          by (simp_all add: write_loop.simps k_def [symmetric])
        with frame_mono [OF pw(1) sub] part show ?thesis by simp
      next
        case w: True
        with 1(3) part rd True dw
        have rest: "write_loop s buf bytes (finished + k) (cur + 1) 0 d2 = (ok, finished', d')"
          by (subst (asm) write_loop.simps) (simp add: k_def [symmetric])
        have bound: "finished + k \<le> length bytes" using k(1) part by simp
        have "(frame (fs_dev s) (blocks_of ((cur + 1) * 512 + 0) (length (drop (finished + k) bytes))) d2 d' \<and>
            (ok \<longrightarrow> patched d2 (fs_dev s) ((cur + 1) * 512 + 0) (drop (finished + k) bytes) d')) \<and>
            finished' \<le> length bytes"
          by (rule 1(2) [OF part k_def rd [symmetric] refl _ dw [symmetric] _ rest frame_ok [OF pw(1)] _ bound])
            (use True w in simp_all)
        then have ih: "frame (fs_dev s) (blocks_of (?base + k) (length ?ys - k)) d2 d'"
          "ok \<longrightarrow> patched d2 (fs_dev s) (?base + k) (drop k ?ys) d'" "finished' \<le> length bytes"
          using next_block [OF k(3) _ rest frame_ok [OF pw(1)]] bound by blast+
        from write_join [OF pw(1) pw(2) [rule_format, OF w] k(1) ih(1,2)] ih(3) show ?thesis by blast
      qed
    qed
  qed
qed

section \<open>Reading a file\<close>

lemma upt_split: "a \<le> b \<Longrightarrow> b \<le> c \<Longrightarrow> [a..<c] = [a..<b] @ [b..<c]"
  using upt_add_eq_append [of a b "c - b"] by simp

lemma block_part:
  assumes "b = dk_sectors d dev cur" and "disk_ok d" and "pos + k \<le> 512"
  shows "take k (drop pos b) = map (byte_at d dev) [cur * 512 + pos..<cur * 512 + pos + k]"
proof -
  have "take k (drop pos [cur * 512..<cur * 512 + 512]) = [cur * 512 + pos..<cur * 512 + pos + k]"
    using assms(3) by (simp add: take_upt)
  with sector_eq_bytes [OF assms(2), of dev cur] assms(1) show ?thesis by (simp add: take_map drop_map)
qed

lemma read_loop_result:
  "read_loop dev buf n finished cur pos bytes d = (ok, finished', out, d') \<Longrightarrow> disk_ok d \<Longrightarrow> pos < 512 \<Longrightarrow>
    finished \<le> n \<Longrightarrow>
    frame dev {} d d' \<and> finished' \<le> n \<and>
    (ok \<longrightarrow> out = bytes @ map (byte_at d dev) [cur * 512 + pos..<cur * 512 + pos + (n - finished)])"
proof (induction dev buf n finished cur pos bytes d rule: read_loop.induct)
  case (1 dev buf n finished cur pos bytes d)
  let ?base = "cur * 512 + pos"
  consider (over) "\<not> finished < n"
    | (chunk) "finished < n" "pos = 0 \<and> 512 \<le> n - finished \<and> (buf + finished) mod 2 = 0"
    | (part) "finished < n" "\<not> (pos = 0 \<and> 512 \<le> n - finished \<and> (buf + finished) mod 2 = 0)"
    by blast
  then show ?case
  proof cases
    case over
    with 1(3,4,6) show ?thesis by (simp add: read_loop.simps frame_refl)
  next
    case chunk
    define full where "full = (n - finished) div 512"
    define m where "m = (if 32 < full then 32 else full)"
    obtain r bs d1 where rd: "blk_read dev cur m (buf + finished) (m * 512) d = (r, bs, d1)" by (metis prod_cases3)
    note res = blk_read_result [OF rd 1(4)]
    have "full * 512 \<le> n - finished" by (simp add: full_def)
    then have fit: "m * 512 \<le> n - finished" unfolding m_def by (auto split: if_splits)
    show ?thesis
    proof (cases "r = BLK_OK")
      case False
      with 1(3,6) chunk rd res(1) show ?thesis
        by (simp add: read_loop.simps Let_def full_def [symmetric] m_def [symmetric])
    next
      case True
      with 1(3) chunk rd have rest: "read_loop dev buf n (finished + m * 512) (cur + m) 0 (bytes @ bs) d1 = (ok, finished', out, d')"
        by (subst (asm) read_loop.simps) (simp add: Let_def full_def [symmetric] m_def [symmetric])
      have "finished + m * 512 \<le> n" using fit chunk by simp
      from 1(1) [OF chunk full_def m_def rd [symmetric] refl _ rest frame_ok [OF res(1)] _ this] True
      have ih: "frame dev {} d1 d'" "finished' \<le> n"
        "ok \<longrightarrow> out = (bytes @ bs) @ map (byte_at d dev) [(cur + m) * 512..<(cur + m) * 512 + (n - (finished + m * 512))]"
        using frame_empty_byte [OF res(1)] by simp_all
      have "[?base..<?base + (n - finished)] =
          [cur * 512..<(cur + m) * 512] @ [(cur + m) * 512..<(cur + m) * 512 + (n - (finished + m * 512))]"
        using upt_add_eq_append [of "cur * 512" "(cur + m) * 512" "n - (finished + m * 512)"] chunk fit
        by (simp add: algebra_simps)
      with ih frame_trans [OF res(1) ih(1)] res(2) [OF True] show ?thesis by simp
    qed
  next
    case part
    define k where "k = (if 512 - pos < n - finished then 512 - pos else n - finished)"
    have k: "k \<le> n - finished" "pos + k \<le> 512" "pos + k = 512 \<or> k = n - finished"
      using 1(5) by (auto simp: k_def)
    obtain r b d1 where rd: "blk_read dev cur 1 static_buf 512 d = (r, b, d1)" by (metis prod_cases3)
    note res = blk_read_result(1) [OF rd 1(4)]
    show ?thesis
    proof (cases "r = BLK_OK")
      case False
      with 1(3,6) part rd res show ?thesis by (simp add: read_loop.simps k_def [symmetric])
    next
      case True
      let ?x = "take k (drop pos b)"
      from True 1(3) part rd
      have rest: "read_loop dev buf n (finished + k) (cur + 1) 0 (bytes @ ?x) d1 = (ok, finished', out, d')"
        by (subst (asm) read_loop.simps) (simp add: k_def [symmetric])
      have "finished + k \<le> n" using k(1) part by simp
      from 1(2) [OF part k_def rd [symmetric] refl _ rest frame_ok [OF res] _ this] True
      have ih: "frame dev {} d1 d'" "finished' \<le> n"
        "ok \<longrightarrow> out = (bytes @ ?x) @ map (byte_at d dev) [(cur + 1) * 512..<(cur + 1) * 512 + (n - (finished + k))]"
        using frame_empty_byte [OF res] by simp_all
      have "?x = map (byte_at d dev) [?base..<?base + k]"
        using block_part [OF blk_read_one(1) [OF rd [unfolded True] 1(4)] 1(4) k(2)] .
      moreover have "[(cur + 1) * 512..<(cur + 1) * 512 + (n - (finished + k))] = [?base + k..<?base + (n - finished)]"
        using k(3)
      proof
        assume e: "pos + k = 512"
        then have "(cur + 1) * 512 = ?base + k" by simp
        moreover have "?base + k + (n - (finished + k)) = ?base + (n - finished)" using k(1) by linarith
        ultimately show ?thesis by metis
      qed simp
      moreover have "[?base..<?base + (n - finished)] = [?base..<?base + k] @ [?base + k..<?base + (n - finished)]"
        using k(1) by (intro upt_split) simp_all
      ultimately show ?thesis using ih frame_trans [OF res ih(1)] by simp
    qed
  qed
qed

section \<open>Relocation\<close>

lemma copy_blocks_result:
  "copy_blocks s first new_first ob n d = (ok, d') \<Longrightarrow> disk_ok d \<Longrightarrow>
    {first + ob..<first + ob + n} \<inter> {new_first + ob..<new_first + ob + n} = {} \<Longrightarrow>
    frame (fs_dev s) {new_first + ob..<new_first + ob + n} d d' \<and>
    (ok \<longrightarrow> (\<forall>i. ob \<le> i \<and> i < ob + n \<longrightarrow>
       dk_sectors d' (fs_dev s) (new_first + i) = dk_sectors d (fs_dev s) (first + i)))"
proof (induction n arbitrary: ob d)
  case 0
  then show ?case by (auto simp: frame_refl)
next
  case (Suc n)
  obtain r b d1 where rd: "blk_read (fs_dev s) (first + ob) 1 static_buf 512 d = (r, b, d1)" by (metis prod_cases3)
  note fr1 = blk_read_result(1) [OF rd Suc.prems(2)]
  show ?case
  proof (cases "r = BLK_OK")
    case False
    with Suc.prems(1) rd frame_mono [OF fr1] show ?thesis by simp
  next
    case True
    note one = blk_read_one [OF rd [unfolded True] Suc.prems(2)]
    obtain w d2 where dw: "data_write s (new_first + ob) static_buf b d1 = (w, d2)" by fastforce
    note dwr = data_write_result [OF dw frame_ok [OF fr1] one(2)]
    have fr2: "frame (fs_dev s) {new_first + ob..<new_first + ob + Suc n} d d2"
      by (rule frame_trans [OF frame_mono [OF fr1] frame_mono [OF dwr(1)]]) auto
    show ?thesis
    proof (cases w)
      case False
      with Suc.prems(1) rd True dw fr2 show ?thesis by simp
    next
      case w: True
      with Suc.prems(1) rd True dw have rest: "copy_blocks s first new_first (ob + 1) n d2 = (ok, d')" by simp
      have "{first + (ob + 1)..<first + (ob + 1) + n} \<inter> {new_first + (ob + 1)..<new_first + (ob + 1) + n} = {}"
      proof -
        have "{first + (ob + 1)..<first + (ob + 1) + n} \<subseteq> {first + ob..<first + ob + Suc n}"
          "{new_first + (ob + 1)..<new_first + (ob + 1) + n} \<subseteq> {new_first + ob..<new_first + ob + Suc n}" by auto
        with Suc.prems(3) show ?thesis by blast
      qed
      from Suc.IH [OF rest frame_ok [OF fr2] this]
      have ih: "frame (fs_dev s) {new_first + (ob + 1)..<new_first + (ob + 1) + n} d2 d'"
        "ok \<longrightarrow> (\<forall>i. ob + 1 \<le> i \<and> i < ob + 1 + n \<longrightarrow>
           dk_sectors d' (fs_dev s) (new_first + i) = dk_sectors d2 (fs_dev s) (first + i))" by blast+
      have "dk_sectors d' (fs_dev s) (new_first + i) = dk_sectors d (fs_dev s) (first + i)"
        if ok "ob \<le> i" "i < ob + Suc n" for i
      proof (cases "i = ob")
        case True
        have "dk_sectors d' (fs_dev s) (new_first + ob) = dk_sectors d2 (fs_dev s) (new_first + ob)"
          by (rule frame_sector [OF ih(1)]) simp
        with True dwr(2) [OF w] one(1) show ?thesis by simp
      next
        case False
        have "first + i \<notin> {new_first + ob..<new_first + ob + Suc n}"
          using Suc.prems(3) that(2,3) by (auto simp: disjoint_iff)
        then have "dk_sectors d2 (fs_dev s) (first + i) = dk_sectors d (fs_dev s) (first + i)"
          using frame_sector [OF fr2] by blast
        with ih(2) that False show ?thesis by simp
      qed
      moreover have "frame (fs_dev s) {new_first + ob..<new_first + ob + Suc n} d d'"
        by (rule frame_trans [OF fr2 frame_mono [OF ih(1)]]) auto
      ultimately show ?thesis by blast
    qed
  qed
qed

lemma length_patch_block:
  assumes "length old = 512" and "offset \<le> fin" and "length bytes = fin - offset"
    and "offset < pb * 512 + 512" and "pb * 512 < fin"
  shows "length (patch_block old offset bytes fin pb) = 512"
  using assms by (auto simp: patch_block_def Let_def put_bytes_def)

lemma patch_blocks_result:
  "patch_blocks s count new_first offset bytes fin pb n d = (ok, d') \<Longrightarrow> disk_ok d \<Longrightarrow>
    offset \<le> fin \<Longrightarrow> length bytes = fin - offset \<Longrightarrow> offset < pb * 512 + 512 \<Longrightarrow> (pb + n) * 512 < fin + 512 \<Longrightarrow>
    frame (fs_dev s) {new_first + pb..<new_first + pb + n} d d' \<and>
    (ok \<longrightarrow> (\<forall>i. pb \<le> i \<and> i < pb + n \<longrightarrow> dk_sectors d' (fs_dev s) (new_first + i) =
       patch_block (if i < count then dk_sectors d (fs_dev s) (new_first + i) else replicate 512 NUL)
         offset bytes fin i))"
proof (induction n arbitrary: pb d)
  case 0
  then show ?case by (auto simp: frame_refl)
next
  case (Suc n)
  obtain r b d1 where rd: "(if pb < count then blk_read (fs_dev s) (new_first + pb) 1 static_buf 512 d
      else (BLK_OK, replicate 512 NUL, d)) = (r, b, d1)" by (metis prod_cases3)
  have fr1: "frame (fs_dev s) {} d d1"
    using rd blk_read_result(1) [OF _ Suc.prems(2)] frame_refl [OF Suc.prems(2)] by (auto split: if_splits)
  show ?case
  proof (cases "r = BLK_OK")
    case False
    with Suc.prems(1) rd frame_mono [OF fr1] show ?thesis by simp
  next
    case True
    have b: "b = (if pb < count then dk_sectors d (fs_dev s) (new_first + pb) else replicate 512 NUL)" "length b = 512"
      using rd True blk_read_one [OF _ Suc.prems(2), of "fs_dev s" "new_first + pb" static_buf b d1]
      by (auto split: if_splits)
    let ?b = "patch_block b offset bytes fin pb"
    have lb: "length ?b = 512" using length_patch_block [OF b(2) Suc.prems(3,4,5)] Suc.prems(6) by simp
    obtain w d2 where dw: "data_write s (new_first + pb) static_buf ?b d1 = (w, d2)" by fastforce
    note dwr = data_write_result [OF dw frame_ok [OF fr1] lb]
    have fr2: "frame (fs_dev s) {new_first + pb..<new_first + pb + Suc n} d d2"
      by (rule frame_trans [OF frame_mono [OF fr1] frame_mono [OF dwr(1)]]) auto
    show ?thesis
    proof (cases w)
      case False
      with Suc.prems(1) rd True dw fr2 show ?thesis by simp
    next
      case w: True
      with Suc.prems(1) rd True dw
      have rest: "patch_blocks s count new_first offset bytes fin (pb + 1) n d2 = (ok, d')" by simp
      from Suc.IH [OF rest frame_ok [OF fr2] Suc.prems(3,4)] Suc.prems(5,6)
      have ih: "frame (fs_dev s) {new_first + (pb + 1)..<new_first + (pb + 1) + n} d2 d'"
        "ok \<longrightarrow> (\<forall>i. pb + 1 \<le> i \<and> i < pb + 1 + n \<longrightarrow> dk_sectors d' (fs_dev s) (new_first + i) =
           patch_block (if i < count then dk_sectors d2 (fs_dev s) (new_first + i) else replicate 512 NUL) offset bytes fin i)"
        by simp_all
      have "dk_sectors d' (fs_dev s) (new_first + i) =
          patch_block (if i < count then dk_sectors d (fs_dev s) (new_first + i) else replicate 512 NUL) offset bytes fin i"
        if ok "pb \<le> i" "i < pb + Suc n" for i
      proof (cases "i = pb")
        case True
        have "dk_sectors d' (fs_dev s) (new_first + pb) = dk_sectors d2 (fs_dev s) (new_first + pb)"
          by (rule frame_sector [OF ih(1)]) simp
        with True dwr(2) [OF w] b(1) show ?thesis by simp
      next
        case False
        have "dk_sectors d2 (fs_dev s) (new_first + i) = dk_sectors d (fs_dev s) (new_first + i)"
          using False frame_sector [OF dwr(1), of "fs_dev s" "new_first + i"] frame_sector [OF fr1, of "fs_dev s" "new_first + i"]
          by simp
        with ih(2) that False show ?thesis by simp
      qed
      moreover have "frame (fs_dev s) {new_first + pb..<new_first + pb + Suc n} d d'"
        by (rule frame_trans [OF fr2 frame_mono [OF ih(1)]]) auto
      ultimately show ?thesis by blast
    qed
  qed
qed
end
