(* ===== verification/Fs_Dir.thy ===== *)
theory Fs_Dir
  imports Fs_Disk
begin

text \<open>
  The directory as a table of named entries: what a lookup finds, why names are
  unique, which changes of one entry keep the directory valid, and what the
  path loops compute.
\<close>

section \<open>Lookups\<close>

definition entry_named :: "string \<Rightarrow> string \<Rightarrow> bool" where
  "entry_named e key \<longleftrightarrow> \<not> entry_free e \<and> name_len e \<noteq> 0 \<and> name_len e = length key \<and> take (length key) e = key"

definition is_dir :: "string list \<Rightarrow> string \<Rightarrow> bool" where
  "is_dir dir key \<longleftrightarrow> (case find_key dir key of None \<Rightarrow> False | Some p \<Rightarrow> entry_type (dir ! p) = FS_TYPE_DIR)"

lemma find_upt_Some: "find P [0..<n] = Some i \<longleftrightarrow> i < n \<and> P i \<and> (\<forall>j < i. \<not> P j)"
  by (auto simp: find_Some_iff)

lemma find_upt_None: "find P [0..<n] = None \<longleftrightarrow> (\<forall>i < n. \<not> P i)"
  by (auto simp: find_None_iff)

lemma find_key_Some:
  "find_key dir key = Some i \<longleftrightarrow> i < length dir \<and> entry_named (dir ! i) key \<and> (\<forall>j < i. \<not> entry_named (dir ! j) key)"
  unfolding find_key_def entry_named_def by (rule find_upt_Some)

lemma find_key_None: "find_key dir key = None \<longleftrightarrow> (\<forall>i < length dir. \<not> entry_named (dir ! i) key)"
  unfolding find_key_def entry_named_def by (rule find_upt_None)

lemma parents_ok_is_dir: "parents_ok dir e \<longleftrightarrow> (\<forall>k < name_len e. e ! k = CHR ''/'' \<longrightarrow> is_dir dir (take k e))"
  by (auto simp: parents_ok_def is_dir_def list_all_iff split: option.splits)

lemma same_name_sym: "same_name a b \<Longrightarrow> \<not> entry_free a \<Longrightarrow> same_name b a"
  by (auto simp: same_name_def)

lemma ranges_overlap_sym: "ranges_overlap a m b n = ranges_overlap b n a m"
  unfolding ranges_overlap_def by (simp only: disj_commute conj_commute)

lemma extents_overlap_sym: "extents_overlap a b \<Longrightarrow> extents_overlap b a"
  by (simp add: extents_overlap_def ranges_overlap_sym [of "entry_first b"])

section \<open>Valid directories\<close>

definition dir_ok :: "nat \<Rightarrow> nat \<Rightarrow> string list \<Rightarrow> bool" where
  "dir_ok ds db dir \<longleftrightarrow> (\<forall>e \<in> set dir. entry_valid ds db e) \<and>
    (\<forall>i < length dir. \<forall>j < length dir. i \<noteq> j \<longrightarrow> \<not> entry_free (dir ! i) \<longrightarrow> \<not> same_name (dir ! i) (dir ! j)) \<and>
    (\<forall>i < length dir. \<not> entry_free (dir ! i) \<longrightarrow> parents_ok dir (dir ! i)) \<and>
    (\<forall>i < length dir. \<forall>j < length dir. i \<noteq> j \<longrightarrow> \<not> extents_overlap (dir ! i) (dir ! j))"

lemma all_pairs:
  fixes n :: nat
  assumes "\<And>i j. Q i j \<Longrightarrow> Q j i"
  shows "(\<forall>i < n. \<forall>j < n. i \<noteq> j \<longrightarrow> \<not> Q i j) \<longleftrightarrow> (\<forall>i < n. \<forall>j < n. i < j \<longrightarrow> \<not> Q i j)" (is "?l \<longleftrightarrow> ?r")
proof
  assume r: ?r
  show ?l
  proof (intro allI impI notI)
    fix i j assume "i < n" "j < n" "i \<noteq> j" "Q i j"
    then consider "i < j" | "j < i" "Q j i" using assms by (meson linorder_neqE_nat)
    then show False using r \<open>i < n\<close> \<open>j < n\<close> \<open>Q i j\<close> by cases blast+
  qed
qed auto

lemma all_upt: "(\<forall>j \<in> set [i + 1..<n]. P j) \<longleftrightarrow> (\<forall>j < n. i < j \<longrightarrow> P j)"
  by (auto simp: Suc_le_eq)

lemma dir_valid_ok: "dir_valid ds db dir \<longleftrightarrow> dir_ok ds db dir"
proof -
  let ?n = "length dir" and ?E = "\<lambda>i j. extents_overlap (dir ! i) (dir ! j)"
  let ?Q = "\<lambda>i j. \<not> entry_free (dir ! i) \<and> same_name (dir ! i) (dir ! j)"
  have names: "(\<forall>i < ?n. \<forall>j < ?n. i \<noteq> j \<longrightarrow> \<not> ?Q i j) \<longleftrightarrow> (\<forall>i < ?n. \<forall>j < ?n. i < j \<longrightarrow> \<not> ?Q i j)"
    by (rule all_pairs) (auto simp: same_name_def)
  have extents: "(\<forall>i < ?n. \<forall>j < ?n. i \<noteq> j \<longrightarrow> \<not> ?E i j) \<longleftrightarrow> (\<forall>i < ?n. \<forall>j < ?n. i < j \<longrightarrow> \<not> ?E i j)"
    by (rule all_pairs) (rule extents_overlap_sym)
  have "(\<forall>i \<in> set [0..<?n]. entry_free (dir ! i) \<or> (\<forall>j \<in> set [i + 1..<?n]. \<not> same_name (dir ! i) (dir ! j)) \<and> parents_ok dir (dir ! i)) \<longleftrightarrow>
      (\<forall>i < ?n. \<forall>j < ?n. i < j \<longrightarrow> \<not> ?Q i j) \<and> (\<forall>i < ?n. \<not> entry_free (dir ! i) \<longrightarrow> parents_ok dir (dir ! i))"
    unfolding all_upt by (auto; metis less_trans)
  moreover have "(\<forall>i \<in> set [0..<?n]. \<forall>j \<in> set [i + 1..<?n]. \<not> ?E i j) \<longleftrightarrow> (\<forall>i < ?n. \<forall>j < ?n. i < j \<longrightarrow> \<not> ?E i j)"
    unfolding all_upt by auto
  moreover have "(\<forall>i < ?n. \<forall>j < ?n. i \<noteq> j \<longrightarrow> \<not> entry_free (dir ! i) \<longrightarrow> \<not> same_name (dir ! i) (dir ! j)) \<longleftrightarrow>
      (\<forall>i < ?n. \<forall>j < ?n. i \<noteq> j \<longrightarrow> \<not> ?Q i j)" by meson
  ultimately show ?thesis unfolding dir_valid_def dir_ok_def list_all_iff names extents by simp
qed

lemma named_unique:
  assumes "dir_ok ds db dir" and "i < length dir" and "j < length dir"
    and "entry_named (dir ! i) key" and "entry_named (dir ! j) key"
  shows "i = j"
proof (rule ccontr)
  assume "i \<noteq> j"
  with assms(1,2,3,4) have "\<not> same_name (dir ! i) (dir ! j)" by (auto simp: dir_ok_def entry_named_def)
  with assms(4,5) show False by (auto simp: same_name_def entry_named_def)
qed

lemma find_key_unique:
  assumes "dir_ok ds db dir"
  shows "find_key dir key = Some i \<longleftrightarrow> i < length dir \<and> entry_named (dir ! i) key"
proof
  assume r: "i < length dir \<and> entry_named (dir ! i) key"
  then have "\<not> entry_named (dir ! j) key" if "j < i" for j
    using that named_unique [OF assms, of i j key] by auto
  with r show "find_key dir key = Some i" by (simp add: find_key_Some)
qed (simp add: find_key_Some)

text \<open>Every live entry has its own name.\<close>

definition entry_key :: "string \<Rightarrow> string" where
  "entry_key e = take (name_len e) e"

lemma valid_named: "entry_valid ds db e \<Longrightarrow> length e = 64 \<Longrightarrow> \<not> entry_free e \<Longrightarrow> entry_named e key \<longleftrightarrow> key = entry_key e"
proof -
  assume v: "entry_valid ds db e" and len: "length e = 64" and free: "\<not> entry_free e"
  have "name_len e \<noteq> 0" using v free by (auto simp: entry_valid_def split: if_splits)
  moreover have "name_len e \<le> 31" by (simp add: name_len_def Let_def FS_MAX_NAME_def)
  ultimately show ?thesis using len free by (auto simp: entry_named_def entry_key_def)
qed

section \<open>Changing one entry\<close>

lemma is_dir_update:
  assumes d: "is_dir dir key" and old: "entry_free (dir ! slot) \<or> entry_type (dir ! slot) \<noteq> FS_TYPE_DIR"
    and new: "\<not> entry_named e key \<or> entry_named (dir ! slot) key"
  shows "is_dir (dir[slot := e]) key"
proof -
  from d obtain p where p: "find_key dir key = Some p" "entry_type (dir ! p) = FS_TYPE_DIR"
    by (auto simp: is_dir_def split: option.splits)
  then have f: "p < length dir" "entry_named (dir ! p) key" "\<forall>j < p. \<not> entry_named (dir ! j) key"
    by (simp_all add: find_key_Some)
  with p old have ne: "p \<noteq> slot" by (auto simp: entry_named_def)
  have "find_key (dir[slot := e]) key = Some p"
    unfolding find_key_Some
  proof (intro conjI allI impI)
    fix j assume "j < p"
    then show "\<not> entry_named (dir[slot := e] ! j) key" using f new by (cases "j = slot") auto
  qed (use f ne in auto)
  with p(2) ne show ?thesis by (simp add: is_dir_def)
qed

lemma dir_ok_update:
  assumes ok: "dir_ok ds db dir" and slot: "slot < length dir"
    and old: "entry_free (dir ! slot) \<or> entry_type (dir ! slot) \<noteq> FS_TYPE_DIR"
    and valid: "entry_valid ds db e"
    and names: "\<And>j. j < length dir \<Longrightarrow> j \<noteq> slot \<Longrightarrow> \<not> entry_free e \<Longrightarrow> \<not> same_name e (dir ! j)"
    and found: "\<And>key. is_dir dir key \<Longrightarrow> \<not> entry_named e key \<or> entry_named (dir ! slot) key"
    and parents: "\<not> entry_free e \<Longrightarrow> parents_ok dir e"
    and extents: "\<And>j. j < length dir \<Longrightarrow> j \<noteq> slot \<Longrightarrow> \<not> extents_overlap e (dir ! j)"
  shows "dir_ok ds db (dir[slot := e])"
proof -
  let ?dir = "dir[slot := e]"
  have keep: "parents_ok dir x \<Longrightarrow> parents_ok ?dir x" for x
    using is_dir_update [OF _ old found] by (auto simp: parents_ok_is_dir)
  have "entry_valid ds db x" if "x \<in> set ?dir" for x
    using that ok valid set_update_subset_insert [of dir slot e] by (auto simp: dir_ok_def)
  moreover have "\<not> same_name (?dir ! i) (?dir ! j)"
    if "i < length ?dir" "j < length ?dir" "i \<noteq> j" "\<not> entry_free (?dir ! i)" for i j
  proof
    assume s: "same_name (?dir ! i) (?dir ! j)"
    consider "i = slot" | "j = slot" | "i \<noteq> slot" "j \<noteq> slot" by blast
    then show False
    proof cases
      case 1
      with s that names [of j] show False by simp
    next
      case 2
      then have "same_name e (dir ! i)" "\<not> entry_free e"
        using s that same_name_sym [OF s that(4)] by (auto simp: same_name_def)
      with 2 that names [of i] show False by simp
    next
      case 3
      with s that ok show False by (simp add: dir_ok_def)
    qed
  qed
  moreover have "parents_ok ?dir (?dir ! i)" if "i < length ?dir" "\<not> entry_free (?dir ! i)" for i
    using that keep ok parents by (cases "i = slot") (auto simp: dir_ok_def)
  moreover have "\<not> extents_overlap (?dir ! i) (?dir ! j)" if "i < length ?dir" "j < length ?dir" "i \<noteq> j" for i j
    using that ok extents [of i] extents [of j] extents_overlap_sym [of "dir ! i" e]
    by (cases "i = slot"; cases "j = slot") (auto simp: dir_ok_def)
  ultimately show ?thesis unfolding dir_ok_def by blast
qed

text \<open>Freeing a file.\<close>

lemma entry_free_zero: "entry_free (replicate 64 NUL)"
  by (simp add: entry_free_def list_all_iff)

lemma has_extent_free [simp]: "entry_free e \<Longrightarrow> \<not> has_extent e"
  by (simp add: has_extent_def)

lemma dir_ok_free:
  assumes "dir_ok ds db dir" and "slot < length dir" and "entry_type (dir ! slot) \<noteq> FS_TYPE_DIR"
  shows "dir_ok ds db (dir[slot := replicate 64 NUL])"
  by (rule dir_ok_update [OF assms(1,2)])
    (use assms(3) entry_free_zero in \<open>auto simp: entry_valid_def entry_named_def extents_overlap_def\<close>)

text \<open>Changing the extent and the length: the first 40 bytes stay.\<close>

lemma head_same:
  assumes "take 40 e' = take 40 e" and "40 \<le> length e" and "40 \<le> length e'"
  shows "name_len e' = name_len e" "entry_type e' = entry_type e" "take 7 (drop 33 e') = take 7 (drop 33 e)"
    "take (name_len e) e' = take (name_len e) e"
proof -
  have t: "take n e' = take n e" if "n \<le> 40" for n
    using arg_cong [OF assms(1), of "take n"] that by (simp add: min_def)
  have "take 32 e' = take 32 e" by (rule t) simp
  then show "name_len e' = name_len e" unfolding name_len_def by (rule ssubst) (rule refl)
  have "e' ! 32 = e ! 32" using arg_cong [OF assms(1), of "\<lambda>x. x ! 32"] by simp
  then show "entry_type e' = entry_type e" by (simp add: entry_type_def)
  show "take 7 (drop 33 e') = take 7 (drop 33 e)"
    using arg_cong [OF assms(1), of "drop 33"] by (simp add: drop_take)
  have "name_len e \<le> 31" by (simp add: name_len_def Let_def FS_MAX_NAME_def)
  with t show "take (name_len e) e' = take (name_len e) e" by simp
qed

lemma live_first_byte: "name_len e \<noteq> 0 \<Longrightarrow> length e = 64 \<Longrightarrow> e ! 0 \<noteq> NUL"
proof
  assume "name_len e \<noteq> 0" "length e = 64" "e ! 0 = NUL"
  then have "take 32 e = NUL # take 31 (tl e)" by (cases e) simp_all
  then have "takeWhile (\<lambda>c. c \<noteq> NUL) (take 32 e) = []" by simp
  then have "name_len e = 0" by (simp add: name_len_def)
  with \<open>name_len e \<noteq> 0\<close> show False by simp
qed

lemma live_not_free: "name_len e \<noteq> 0 \<Longrightarrow> length e = 64 \<Longrightarrow> \<not> entry_free e"
  using live_first_byte [of e] by (auto simp: entry_free_def list_all_length intro!: exI [of _ 0])

lemma valid_live: "entry_valid ds db e \<Longrightarrow> \<not> entry_free e \<Longrightarrow> name_len e \<noteq> 0"
  by (auto simp: entry_valid_def split: if_splits)

lemma name_len_le: "name_len e \<le> 31"
  by (simp add: name_len_def Let_def FS_MAX_NAME_def)

lemma dir_ok_resize:
  assumes ok: "dir_ok ds db dir" and slot: "slot < length dir" and len: "length (dir ! slot) = 64" "length e = 64"
    and head: "take 40 e = take 40 (dir ! slot)" and live: "\<not> entry_free (dir ! slot)" "entry_type (dir ! slot) = FS_TYPE_FILE"
    and valid: "entry_valid ds db e" and extents: "\<And>j. j < length dir \<Longrightarrow> j \<noteq> slot \<Longrightarrow> \<not> extents_overlap e (dir ! j)"
  shows "dir_ok ds db (dir[slot := e])"
proof (rule dir_ok_update [OF ok slot _ valid _ _ _ extents])
  let ?o = "dir ! slot"
  note hs = head_same [OF head] len
  have nl: "name_len ?o \<noteq> 0" using ok slot live(1) valid_live [of ds db ?o] by (simp add: dir_ok_def)
  have free: "\<not> entry_free e" using live_not_free [of e] hs nl by simp
  show "entry_free ?o \<or> entry_type ?o \<noteq> FS_TYPE_DIR" using live by (simp add: FS_TYPE_DIR_def FS_TYPE_FILE_def)
  show "\<not> same_name e (dir ! j)" if "j < length dir" "j \<noteq> slot" for j
    using ok slot live(1) that hs by (auto simp: dir_ok_def same_name_def)
  show "\<not> entry_named e key \<or> entry_named ?o key" for key
    using hs live(1) by (auto simp: entry_named_def)
  have at: "e ! k = ?o ! k" "take k e = take k ?o" if "k < name_len ?o" for k
  proof -
    have k: "k < 40" using that name_len_le [of ?o] by simp
    show "e ! k = ?o ! k" using arg_cong [OF head, of "\<lambda>x. x ! k"] k by simp
    show "take k e = take k ?o" using arg_cong [OF head, of "take k"] k by (simp add: min_def)
  qed
  have "parents_ok dir ?o" using ok slot live(1) by (simp add: dir_ok_def)
  then show "parents_ok dir e" using at hs by (auto simp: parents_ok_is_dir)
qed

text \<open>The entry \<^verbatim>\<open>dir_switch_extent\<close> writes.\<close>

definition with_extent :: "string \<Rightarrow> nat \<Rightarrow> nat \<Rightarrow> nat \<Rightarrow> string" where
  "with_extent e first count len = wr64le (wr64le (wr64le e 40 first) 48 count) 56 len"

lemma with_extent_fields:
  assumes "length e = 64"
  shows "length (with_extent e f c l) = 64" "take 40 (with_extent e f c l) = take 40 e"
    "entry_first (with_extent e f c l) = f mod 2 ^ 64" "entry_count (with_extent e f c l) = c mod 2 ^ 64"
    "entry_length (with_extent e f c l) = l mod 2 ^ 64"
  using assms by (simp_all add: with_extent_def take_wr64le entry_first_def entry_count_def entry_length_def
      rd64le_wr64le rd64le_wr64le_other del: power_numeral)

lemma with_length_fields:
  assumes "length e = 64"
  shows "length (wr64le e 56 l) = 64" "take 40 (wr64le e 56 l) = take 40 e"
    "entry_first (wr64le e 56 l) = entry_first e" "entry_count (wr64le e 56 l) = entry_count e"
    "entry_length (wr64le e 56 l) = l mod 2 ^ 64"
  using assms by (simp_all add: take_wr64le entry_first_def entry_count_def entry_length_def
      rd64le_wr64le rd64le_wr64le_other del: power_numeral)

section \<open>New files\<close>

lemma empty_file_eq:
  "length key \<le> 32 \<Longrightarrow> empty_file key = key @ replicate (32 - length key) NUL @ [char_of FS_TYPE_FILE] @ replicate 31 NUL"
  by (simp add: empty_file_def put_bytes_def)

lemma printable_not_NUL: "printable c \<Longrightarrow> c \<noteq> NUL"
  by (auto simp: printable_def NUL_def)

lemma bytes_value_zero: "bytes_value (replicate n NUL) = 0"
  by (induction n) (simp_all add: bytes_value_def NUL_def)

lemma empty_file_fields:
  assumes key: "list_all printable key" "key \<noteq> []" "length key \<le> 31"
  shows "length (empty_file key) = 64" "name_len (empty_file key) = length key" "take (length key) (empty_file key) = key"
    "entry_type (empty_file key) = FS_TYPE_FILE" "take 7 (drop 33 (empty_file key)) = replicate 7 NUL"
    "entry_first (empty_file key) = 0" "entry_count (empty_file key) = 0" "entry_length (empty_file key) = 0"
proof -
  have eq: "empty_file key = key @ replicate (32 - length key) NUL @ [char_of FS_TYPE_FILE] @ replicate 31 NUL"
    using key by (intro empty_file_eq) simp
  have t32: "take 32 (empty_file key) = key @ replicate (32 - length key) NUL" using key unfolding eq by simp
  have "takeWhile (\<lambda>c. c \<noteq> NUL) (key @ replicate (32 - length key) NUL) = key"
    using key by (subst takeWhile_append2) (auto simp: list_all_iff printable_not_NUL takeWhile_replicate)
  moreover have "drop (length key + 1) (key @ replicate (32 - length key) NUL) = replicate (31 - length key) NUL"
    using key by simp
  ultimately show "name_len (empty_file key) = length key"
    unfolding name_len_def t32 Let_def using key by (auto simp: FS_MAX_NAME_def list_all_iff)
  show "length (empty_file key) = 64" "take (length key) (empty_file key) = key" using key unfolding eq by simp_all
  have "empty_file key ! 32 = char_of FS_TYPE_FILE" using key unfolding eq by (simp add: nth_append)
  then show "entry_type (empty_file key) = FS_TYPE_FILE" by (simp add: entry_type_def FS_TYPE_FILE_def)
  have d33: "drop 33 (empty_file key) = replicate 31 NUL" using key unfolding eq by simp
  then show "take 7 (drop 33 (empty_file key)) = replicate 7 NUL" by simp
  have "drop off (empty_file key) = replicate (64 - off) NUL" if "33 \<le> off" for off
    using arg_cong [OF d33, of "drop (off - 33)"] that by simp
  then show "entry_first (empty_file key) = 0" "entry_count (empty_file key) = 0" "entry_length (empty_file key) = 0"
    by (simp_all add: entry_first_def entry_count_def entry_length_def rd64le_def bytes_value_zero)
qed

lemma dir_ok_create:
  assumes ok: "dir_ok ds db dir" and slot: "slot < length dir" "entry_free (dir ! slot)"
    and key: "list_all printable key" "key \<noteq> []" "length key \<le> 31" "name_components_ok key"
    and new: "find_key dir key = None" and parents: "\<And>k. k < length key \<Longrightarrow> key ! k = CHR ''/'' \<Longrightarrow> is_dir dir (take k key)"
  shows "dir_ok ds db (dir[slot := empty_file key])"
proof (rule dir_ok_update [OF ok slot(1)])
  let ?e = "empty_file key"
  note ef = empty_file_fields [OF key(1,2,3)]
  have live: "\<not> entry_free ?e" using live_not_free [OF _ ef(1)] ef(2) key(2) by simp
  show "entry_free (dir ! slot) \<or> entry_type (dir ! slot) \<noteq> FS_TYPE_DIR" using slot by simp
  show "entry_valid ds db ?e"
    using live ef key by (simp add: entry_valid_def list_all_iff FS_TYPE_FILE_def FS_TYPE_DIR_def)
  show "\<not> same_name ?e (dir ! j)" if "j < length dir" for j
    using new that ef key(2) by (auto simp: find_key_None same_name_def entry_named_def)
  show "\<not> entry_named ?e k \<or> entry_named (dir ! slot) k" if "is_dir dir k" for k
    using that new ef by (auto simp: is_dir_def entry_named_def split: option.splits)
  have at: "?e ! k = key ! k" "take k ?e = take k key" if "k < length key" for k
    using that ef(3) key by (metis nth_take, metis min.strict_order_iff take_take min.absorb1 less_imp_le)
  show "parents_ok dir ?e" using parents at ef(2) by (auto simp: parents_ok_is_dir)
  show "\<not> extents_overlap ?e (dir ! j)" for j using ef by (simp add: extents_overlap_def has_extent_def)
qed

section \<open>Paths\<close>

lemma slash_cases:
  obtains (only) "takeWhile (\<lambda>c. c \<noteq> CHR ''/'') s = s" "dropWhile (\<lambda>c. c \<noteq> CHR ''/'') s = []" "CHR ''/'' \<notin> set s"
  | (more) part r where "takeWhile (\<lambda>c. c \<noteq> CHR ''/'') s = part" "dropWhile (\<lambda>c. c \<noteq> CHR ''/'') s = CHR ''/'' # r"
      "s = part @ CHR ''/'' # r" "CHR ''/'' \<notin> set part"
proof (cases "dropWhile (\<lambda>c. c \<noteq> CHR ''/'') s")
  case Nil
  then have "takeWhile (\<lambda>c. c \<noteq> CHR ''/'') s = s" "CHR ''/'' \<notin> set s"
    using takeWhile_dropWhile_id [of "\<lambda>c. c \<noteq> CHR ''/''" s] by (auto simp: dropWhile_eq_Nil_conv)
  with Nil only show thesis by blast
next
  case (Cons x r)
  then have x: "x = CHR ''/''" using hd_dropWhile [of "\<lambda>c. c \<noteq> CHR ''/''" s] by auto
  have "s = takeWhile (\<lambda>c. c \<noteq> CHR ''/'') s @ x # r" using takeWhile_dropWhile_id [of "\<lambda>c. c \<noteq> CHR ''/''" s] Cons by simp
  moreover have "CHR ''/'' \<notin> set (takeWhile (\<lambda>c. c \<noteq> CHR ''/'') s)" by (auto dest: set_takeWhileD)
  ultimately show thesis using more Cons x by blast
qed

lemma split_slash_only: "CHR ''/'' \<notin> set s \<Longrightarrow> split_slash s = [s]"
proof (cases s rule: slash_cases)
  case only
  show ?thesis by (simp add: split_slash.simps [of s] only(1,2))
qed simp

lemma split_slash_more: "CHR ''/'' \<notin> set part \<Longrightarrow> split_slash (part @ CHR ''/'' # r) = part # split_slash r"
proof -
  assume "CHR ''/'' \<notin> set part"
  then have "takeWhile (\<lambda>c. c \<noteq> CHR ''/'') (part @ CHR ''/'' # r) = part"
    "dropWhile (\<lambda>c. c \<noteq> CHR ''/'') (part @ CHR ''/'' # r) = CHR ''/'' # r"
    by (induction part) auto
  then show ?thesis by (subst split_slash.simps) simp
qed

text \<open>The keys of the parents of a path below \<open>key\<close>.\<close>

definition parents_found :: "string list \<Rightarrow> string \<Rightarrow> string \<Rightarrow> bool" where
  "parents_found dir key rest \<longleftrightarrow> (\<forall>u v. rest = u @ CHR ''/'' # v \<longrightarrow> is_dir dir (grow_key key u))"

lemma parents_found_only: "CHR ''/'' \<notin> set rest \<Longrightarrow> parents_found dir key rest"
  by (auto simp: parents_found_def)

lemma grow_key_more: "part \<noteq> [] \<Longrightarrow> grow_key (grow_key key part) r = grow_key key (part @ CHR ''/'' # r)"
  by (simp add: grow_key_def)

lemma parents_found_more:
  assumes "CHR ''/'' \<notin> set part" and "part \<noteq> []"
  shows "parents_found dir key (part @ CHR ''/'' # r) \<longleftrightarrow>
    is_dir dir (grow_key key part) \<and> parents_found dir (grow_key key part) r"
proof (intro iffI conjI)
  assume all: "parents_found dir key (part @ CHR ''/'' # r)"
  then show "is_dir dir (grow_key key part)" by (auto simp: parents_found_def)
  have "is_dir dir (grow_key (grow_key key part) u)" if "r = u @ CHR ''/'' # v" for u v
    using all that unfolding grow_key_more [OF assms(2)] parents_found_def
    by (metis append.assoc append_Cons)
  then show "parents_found dir (grow_key key part) r" by (simp add: parents_found_def)
next
  assume r: "is_dir dir (grow_key key part) \<and> parents_found dir (grow_key key part) r"
  show "parents_found dir key (part @ CHR ''/'' # r)"
    unfolding parents_found_def
  proof (intro allI impI)
    fix u v assume "part @ CHR ''/'' # r = u @ CHR ''/'' # v"
    then obtain us where "part = u @ us \<and> us @ CHR ''/'' # r = CHR ''/'' # v \<or> part @ us = u \<and> CHR ''/'' # r = us @ CHR ''/'' # v"
      by (auto simp: append_eq_append_conv2)
    then consider "u = part" | w where "u = part @ CHR ''/'' # w" "r = w @ CHR ''/'' # v"
      using assms(1) by (cases us) auto
    then show "is_dir dir (grow_key key u)"
      using r by cases (auto simp: parents_found_def grow_key_more [OF assms(2), symmetric])
  qed
qed

definition components_ok :: "string \<Rightarrow> bool" where
  "components_ok s \<longleftrightarrow> [] \<notin> set (split_slash s)"

lemma resolve_loop_found:
  "components_ok rest \<Longrightarrow>
    resolve_loop dir key rest = Inr slot \<longleftrightarrow> find_key dir (grow_key key rest) = Some slot \<and> parents_found dir key rest"
proof (induction dir key rest rule: resolve_loop.induct)
  case (1 dir key rest)
  show ?case
  proof (cases rest rule: slash_cases)
    case only
    show ?thesis
      by (simp add: resolve_loop.simps [of dir key rest] Let_def only(1,2) parents_found_only [OF only(3)] split: option.split)
  next
    case (more part r)
    have c: "part \<noteq> []" "components_ok r" using 1(2) more by (auto simp: components_ok_def split_slash_more)
    have "resolve_loop dir key rest = Inr slot \<longleftrightarrow>
        is_dir dir (grow_key key part) \<and> resolve_loop dir (grow_key key part) r = Inr slot"
      by (simp add: resolve_loop.simps [of dir key rest] Let_def more(1,2) is_dir_def split: option.split)
    moreover have "resolve_loop dir (grow_key key part) r = Inr slot \<longleftrightarrow>
        find_key dir (grow_key key rest) = Some slot \<and> parents_found dir (grow_key key part) r"
      if "is_dir dir (grow_key key part)"
    proof -
      from that obtain p where p: "find_key dir (grow_key key part) = Some p" "\<not> entry_type (dir ! p) \<noteq> FS_TYPE_DIR"
        by (auto simp: is_dir_def split: option.splits)
      note ih = 1(1) [OF arg_cong [OF more(1) [symmetric]] p(1) more(2) p(2) c(2)]
      show ?thesis unfolding more(3) grow_key_more [OF c(1), symmetric] by (rule ih)
    qed
    ultimately show ?thesis using parents_found_more [OF more(4) c(1)] more(3) by blast
  qed
qed

lemma create_loop_found:
  "components_ok rest \<Longrightarrow>
    create_loop dir key rest = Inr k \<longleftrightarrow> k = grow_key key rest \<and> find_key dir k = None \<and> parents_found dir key rest"
proof (induction dir key rest rule: create_loop.induct)
  case (1 dir key rest)
  show ?case
  proof (cases rest rule: slash_cases)
    case only
    show ?thesis
      by (auto simp: create_loop.simps [of dir key rest] Let_def only(1,2) parents_found_only [OF only(3)])
  next
    case (more part r)
    have c: "part \<noteq> []" "components_ok r" using 1(2) more by (auto simp: components_ok_def split_slash_more)
    have "create_loop dir key rest = Inr k \<longleftrightarrow>
        is_dir dir (grow_key key part) \<and> create_loop dir (grow_key key part) r = Inr k"
      by (simp add: create_loop.simps [of dir key rest] Let_def more(1,2) is_dir_def split: option.split)
    moreover have "create_loop dir (grow_key key part) r = Inr k \<longleftrightarrow>
        k = grow_key key rest \<and> find_key dir k = None \<and> parents_found dir (grow_key key part) r"
      if "is_dir dir (grow_key key part)"
    proof -
      from that obtain p where p: "find_key dir (grow_key key part) = Some p" "\<not> entry_type (dir ! p) \<noteq> FS_TYPE_DIR"
        by (auto simp: is_dir_def split: option.splits)
      note ih = 1(1) [OF arg_cong [OF more(1) [symmetric]] more(2) p(1) p(2) c(2)]
      show ?thesis unfolding more(3) grow_key_more [OF c(1), symmetric] by (rule ih)
    qed
    ultimately show ?thesis using parents_found_more [OF more(4) c(1)] more(3) by blast
  qed
qed

lemma no_double_slash:
  assumes "s \<noteq> []" and "hd s \<noteq> CHR ''/''" and "last s \<noteq> CHR ''/''"
    and "\<And>i. Suc i < length s \<Longrightarrow> \<not> (s ! i = CHR ''/'' \<and> s ! Suc i = CHR ''/'')"
  shows "components_ok s"
  using assms
proof (induction s rule: split_slash.induct)
  case (1 s)
  show ?case
  proof (cases s rule: slash_cases)
    case only
    with 1(2) show ?thesis by (simp add: components_ok_def split_slash_only)
  next
    case (more part r)
    have part: "part \<noteq> []" using more(3) 1(3) by auto
    have r: "r \<noteq> []" using more(3) 1(4) by auto
    have at: "s ! (length part + Suc i) = r ! i" "s ! length part = CHR ''/''" for i
      unfolding more(3) by (simp_all add: nth_append)
    have "components_ok r"
    proof (rule 1(1) [OF more(2) r])
      show "hd r \<noteq> CHR ''/''"
        using 1(5) [of "length part"] at(2) at(1) [of 0] r more(3) by (simp add: hd_conv_nth)
      show "last r \<noteq> CHR ''/''" using 1(4) more(3) r by simp
      show "\<not> (r ! i = CHR ''/'' \<and> r ! Suc i = CHR ''/'')" if "Suc i < length r" for i
        using 1(5) [of "length part + Suc i"] at(1) [of i] at(1) [of "Suc i"] that more(3) by simp
    qed
    with part more show ?thesis by (simp add: components_ok_def split_slash_more)
  qed
qed

lemma path_key:
  assumes ok: "fs_path_ok (Some p)" and len: "length p \<noteq> 1"
  shows "list_all printable (tl p)" "tl p \<noteq> []" "length (tl p) \<le> 31" "components_ok (tl p)" "name_components_ok (tl p)"
proof -
  from ok have p: "1 \<le> length p" "length p \<le> 32" "p ! 0 = CHR ''/''" "list_all printable (tl p)"
      "\<not> (1 < length p \<and> last p = CHR ''/'')"
      "\<And>i. 1 \<le> i \<Longrightarrow> i < length p \<Longrightarrow> \<not> (p ! i = CHR ''/'' \<and> p ! (i - 1) = CHR ''/'')"
      "list_all (\<lambda>c. \<not> dot_name c) (split_slash (tl p))"
    by (auto simp: fs_path_ok_def FS_MAX_PATH_def list_all_iff)
  from p(1) len obtain x xs where px: "p = x # xs" "xs \<noteq> []" by (cases p) auto
  then show "list_all printable (tl p)" "tl p \<noteq> []" "length (tl p) \<le> 31" using p(2,4) by simp_all
  have "components_ok xs"
  proof (rule no_double_slash [OF px(2)])
    show "hd xs \<noteq> CHR ''/''" using p(6) [of 1] p(3) px by (simp add: hd_conv_nth)
    show "last xs \<noteq> CHR ''/''" using p(5) px by simp
    show "\<not> (xs ! i = CHR ''/'' \<and> xs ! Suc i = CHR ''/'')" if "Suc i < length xs" for i
      using p(6) [of "Suc (Suc i)"] that px by auto
  qed
  then show "components_ok (tl p)" using px by simp
  then show "name_components_ok (tl p)"
    using p(7) by (auto simp: components_ok_def name_components_ok_def list_all_iff)
qed

lemma parents_found_root: "parents_found dir [] s \<longleftrightarrow> (\<forall>k < length s. s ! k = CHR ''/'' \<longrightarrow> is_dir dir (take k s))"
proof
  assume l: "parents_found dir [] s"
  show "\<forall>k < length s. s ! k = CHR ''/'' \<longrightarrow> is_dir dir (take k s)"
  proof (intro allI impI)
    fix k assume "k < length s" "s ! k = CHR ''/''"
    then have "s = take k s @ CHR ''/'' # drop (Suc k) s" by (metis id_take_nth_drop)
    with l show "is_dir dir (take k s)" unfolding parents_found_def by (metis grow_key_def)
  qed
next
  assume all: "\<forall>k < length s. s ! k = CHR ''/'' \<longrightarrow> is_dir dir (take k s)"
  have "is_dir dir u" if "s = u @ CHR ''/'' # v" for u v
    using all [rule_format, of "length u"] that by simp
  then show "parents_found dir [] s" by (simp add: parents_found_def grow_key_def)
qed

text \<open>A path leads to the entry that has its name, whatever its parents are.\<close>

lemma resolve_found:
  assumes ok: "dir_ok ds db dir" and path: "fs_path_ok (Some p)" "length p \<noteq> 1"
  shows "resolve dir p = Inr (Some slot) \<longleftrightarrow> find_key dir (tl p) = Some slot"
proof -
  note key = path_key [OF path]
  have "parents_found dir [] (tl p)" if "find_key dir (tl p) = Some slot"
  proof -
    from that have s: "slot < length dir" "entry_named (dir ! slot) (tl p)" by (simp_all add: find_key_Some)
    then have "parents_ok dir (dir ! slot)" using ok by (simp add: dir_ok_def entry_named_def)
    moreover have "dir ! slot ! k = tl p ! k" "take k (dir ! slot) = take k (tl p)" if "k < length (tl p)" for k
      using s(2) that by (metis entry_named_def nth_take, metis entry_named_def less_imp_le min.absorb1 take_take)
    moreover have "name_len (dir ! slot) = length (tl p)" using s(2) by (simp add: entry_named_def)
    ultimately show ?thesis by (auto simp: parents_found_root parents_ok_is_dir)
  qed
  then have "resolve_loop dir [] (tl p) = Inr slot \<longleftrightarrow> find_key dir (tl p) = Some slot"
    using resolve_loop_found [OF key(4), of dir "[]" slot] by (auto simp: grow_key_def)
  then show ?thesis using path(2) by (auto simp: resolve_def split: sum.split)
qed

lemma create_found:
  assumes path: "fs_path_ok (Some p)" "length p \<noteq> 1"
  shows "create_loop dir [] (tl p) = Inr k \<longleftrightarrow> k = tl p \<and> find_key dir k = None \<and>
    (\<forall>i < length (tl p). tl p ! i = CHR ''/'' \<longrightarrow> is_dir dir (take i (tl p)))"
  using create_loop_found [OF path_key(4) [OF path], of dir "[]" k] by (simp add: grow_key_def parents_found_root)
end
