(* ===== verification/Fs_Inv.thy ===== *)
theory Fs_Inv
  imports Fs_Dir
begin

text \<open>
  The invariant of the mounted file system, the allocator's contract under it,
  and that every operation keeps it, whatever the drive answers.
\<close>

section \<open>The invariant\<close>

definition geometry_ok :: "fs \<Rightarrow> bool" where
  "geometry_ok s \<longleftrightarrow> fs_total s < 2 ^ 64 \<and> 0 < fs_dir_blocks s \<and> fs_dir_blocks s \<le> FS_MAX_DIR_BLOCKS \<and>
    0 < fs_dir_start s \<and> fs_dir_start s + fs_dir_blocks s \<le> fs_total s \<and>
    0 < fs_data_blocks s \<and> 0 < fs_data_start s \<and> fs_data_start s + fs_data_blocks s \<le> fs_total s \<and>
    (fs_dir_start s + fs_dir_blocks s \<le> fs_data_start s \<or> fs_data_start s + fs_data_blocks s \<le> fs_dir_start s)"

definition table_ok :: "fs \<Rightarrow> bool" where
  "table_ok s \<longleftrightarrow> length (fs_dir s) = fs_dir_blocks s * FS_DIR_ENTRIES_PER_BLOCK \<and> (\<forall>e \<in> set (fs_dir s). length e = 64) \<and>
    dir_ok (fs_data_start s) (fs_data_blocks s) (fs_dir s)"

definition device_ok :: "fs \<Rightarrow> disk \<Rightarrow> bool" where
  "device_ok s d \<longleftrightarrow> fs_writable_authorized s \<and> bs_writable (dk_devices d (fs_dev s)) \<and>
    fs_total s \<le> bs_block_count (dk_devices d (fs_dev s)) \<and> bs_block_count (dk_devices d (fs_dev s)) \<le> BLK_LBA28_MAX"

definition live_file :: "fs \<Rightarrow> nat \<Rightarrow> bool" where
  "live_file s slot \<longleftrightarrow> slot < length (fs_dir s) \<and> \<not> entry_free (fs_dir s ! slot) \<and> entry_type (fs_dir s ! slot) = FS_TYPE_FILE"

definition handles_ok :: "fs \<Rightarrow> bool" where
  "handles_ok s \<longleftrightarrow> (\<forall>k slot. fs_handles s k = Some slot \<longrightarrow> live_file s slot)"

definition fs_ok :: "fs \<Rightarrow> disk \<Rightarrow> bool" where
  "fs_ok s d \<longleftrightarrow> disk_ok d \<and>
    (fs_writable_authorized s \<longrightarrow> fs_dev s < BLK_MAX_DEVICES \<and> bs_present (dk_devices d (fs_dev s))) \<and>
    (if fs_is_mounted s then geometry_ok s \<and> table_ok s \<and> device_ok s d \<and> handles_ok s
     else \<forall>k. fs_handles s k = None)"

section \<open>Extents\<close>

lemma valid_extent:
  assumes v: "entry_valid ds db e" and g: "ds + db < 2 ^ 64" and x: "has_extent e"
  shows "ds \<le> entry_first e" "entry_first e + entry_count e \<le> ds + db" "0 < entry_count e"
    "entry_length e \<le> entry_count e * 512" "entry_count e * 512 < 2 ^ 64"
proof -
  have ne: "entry_type e \<noteq> FS_TYPE_DIR" "\<not> entry_free e" "entry_count e \<noteq> 0"
    using x by (simp_all add: has_extent_def FS_TYPE_FILE_def FS_TYPE_DIR_def)
  have e: "w64 (ds + db) = ds + db" using g by (simp add: w64_def)
  have c: "entry_count e \<le> (2 ^ 64 - 1) div 512" using v ne unfolding entry_valid_def by (auto split: if_splits)
  then have "entry_count e * 512 \<le> (2 ^ 64 - 1) div 512 * 512" by (rule mult_le_mono1)
  also have "\<dots> < 2 ^ 64" by simp
  finally show lt: "entry_count e * 512 < 2 ^ 64" .
  then have w: "w64 (entry_count e * 512) = entry_count e * 512" by (simp add: w64_def)
  show "ds \<le> entry_first e" "entry_first e + entry_count e \<le> ds + db" "0 < entry_count e"
    "entry_length e \<le> entry_count e * 512"
    using v ne unfolding entry_valid_def e w by (auto simp: Let_def split: if_splits)
qed

lemma empty_extent:
  assumes "entry_valid ds db e" and "\<not> entry_free e" and "entry_type e = FS_TYPE_FILE" and "entry_count e = 0"
  shows "entry_first e = 0" "entry_length e = 0"
  using assms by (auto simp: entry_valid_def FS_TYPE_FILE_def FS_TYPE_DIR_def split: if_splits)

lemma ranges_overlap_iff:
  "a + m < 2 ^ 64 \<Longrightarrow> b + n < 2 ^ 64 \<Longrightarrow> ranges_overlap a m b n \<longleftrightarrow> a < b + n \<and> b < a + m"
  by (auto simp: ranges_overlap_def)

section \<open>First fit\<close>

definition data_end :: "fs \<Rightarrow> nat" where
  "data_end s = fs_data_start s + fs_data_blocks s"

definition clear_of :: "nat \<Rightarrow> nat \<Rightarrow> string \<Rightarrow> bool" where
  "clear_of c n e \<longleftrightarrow> (has_extent e \<longrightarrow> entry_first e + entry_count e \<le> c \<or> c + n \<le> entry_first e)"

definition free_run :: "fs \<Rightarrow> nat \<Rightarrow> nat \<Rightarrow> bool" where
  "free_run s n c \<longleftrightarrow> fs_data_start s \<le> c \<and> c + n \<le> data_end s \<and> list_all (clear_of c n) (fs_dir s)"

text \<open>Nothing before \<open>cur\<close> fits, and no extent crosses it.\<close>

definition scanned :: "fs \<Rightarrow> nat \<Rightarrow> nat \<Rightarrow> bool" where
  "scanned s n cur \<longleftrightarrow> fs_data_start s \<le> cur \<and> cur \<le> data_end s \<and> (\<forall>c < cur. \<not> free_run s n c) \<and>
    (\<forall>e \<in> set (fs_dir s). has_extent e \<longrightarrow> entry_first e < cur \<longrightarrow> entry_first e + entry_count e \<le> cur)"

lemma next_extent_least:
  "e \<in> set dir \<Longrightarrow> has_extent e \<Longrightarrow> cur \<le> entry_first e \<Longrightarrow> next_extent dir cur fin \<le> entry_first e"
proof -
  let ?f = "\<lambda>e nxt. if has_extent e \<and> cur \<le> entry_first e \<and> entry_first e < nxt then entry_first e else nxt"
  have le: "fold ?f es m \<le> m" for es m
  proof (induction es arbitrary: m)
    case (Cons x es)
    have "fold ?f (x # es) m \<le> ?f x m" using Cons.IH [of "?f x m"] by simp
    also have "\<dots> \<le> m" by simp
    finally show ?case .
  qed simp
  have "fold ?f es m \<le> entry_first e" if "e \<in> set es" "has_extent e" "cur \<le> entry_first e" for es m
    using that
  proof (induction es arbitrary: m)
    case (Cons x es)
    show ?case
    proof (cases "x = e")
      case True
      have "fold ?f (x # es) m \<le> ?f x m" using le [of es "?f x m"] by simp
      also have "\<dots> \<le> entry_first e" using True Cons.prems by simp
      finally show ?thesis .
    next
      case False
      with Cons show ?thesis by simp
    qed
  qed simp
  then show "e \<in> set dir \<Longrightarrow> has_extent e \<Longrightarrow> cur \<le> entry_first e \<Longrightarrow> next_extent dir cur fin \<le> entry_first e"
    unfolding next_extent_def by blast
qed

lemma table_entry: "table_ok s \<Longrightarrow> e \<in> set (fs_dir s) \<Longrightarrow> entry_valid (fs_data_start s) (fs_data_blocks s) e \<and> length e = 64"
  by (simp add: table_ok_def dir_ok_def)

lemma table_extent:
  assumes "geometry_ok s" and "table_ok s" and "e \<in> set (fs_dir s)" and "has_extent e"
  shows "fs_data_start s \<le> entry_first e" "entry_first e + entry_count e \<le> data_end s" "0 < entry_count e"
    "entry_length e \<le> entry_count e * 512" "data_end s < 2 ^ 64" "entry_count e * 512 < 2 ^ 64"
proof -
  show g: "data_end s < 2 ^ 64" using assms(1) by (simp add: geometry_ok_def data_end_def)
  note v = valid_extent [OF conjunct1 [OF table_entry [OF assms(2,3)]] _ assms(4)]
  show "fs_data_start s \<le> entry_first e" "entry_first e + entry_count e \<le> data_end s" "0 < entry_count e"
    "entry_length e \<le> entry_count e * 512" "entry_count e * 512 < 2 ^ 64"
    using v g by (simp_all add: data_end_def)
qed

lemma extents_disjoint:
  assumes g: "geometry_ok s" and t: "table_ok s" and i: "i < length (fs_dir s)" "has_extent (fs_dir s ! i)"
    and j: "j < length (fs_dir s)" "has_extent (fs_dir s ! j)" and ne: "i \<noteq> j"
  shows "entry_first (fs_dir s ! i) + entry_count (fs_dir s ! i) \<le> entry_first (fs_dir s ! j) \<or>
    entry_first (fs_dir s ! j) + entry_count (fs_dir s ! j) \<le> entry_first (fs_dir s ! i)"
proof -
  have "\<not> extents_overlap (fs_dir s ! i) (fs_dir s ! j)" using t i j ne by (simp add: table_ok_def dir_ok_def)
  then have "\<not> ranges_overlap (entry_first (fs_dir s ! i)) (entry_count (fs_dir s ! i))
      (entry_first (fs_dir s ! j)) (entry_count (fs_dir s ! j))" using i j by (simp add: extents_overlap_def)
  moreover have "entry_first (fs_dir s ! i) + entry_count (fs_dir s ! i) < 2 ^ 64"
    "entry_first (fs_dir s ! j) + entry_count (fs_dir s ! j) < 2 ^ 64"
    using table_extent(2,5) [OF g t nth_mem [OF i(1)] i(2)] table_extent(2,5) [OF g t nth_mem [OF j(1)] j(2)] by linarith+
  ultimately show ?thesis by (auto simp: ranges_overlap_iff simp del: power_numeral)
qed

text \<open>Extents that start at the same block, or inside one another, are the same.\<close>

lemma extent_eq:
  assumes "geometry_ok s" "table_ok s" "e \<in> set (fs_dir s)" "has_extent e" "x \<in> set (fs_dir s)" "has_extent x"
    and "entry_first e \<le> entry_first x" "entry_first x < entry_first e + entry_count e"
  shows "entry_first x = entry_first e \<and> entry_count x = entry_count e"
proof -
  from assms(3,5) obtain i j where ij: "i < length (fs_dir s)" "e = fs_dir s ! i" "j < length (fs_dir s)" "x = fs_dir s ! j"
    by (metis in_set_conv_nth)
  show ?thesis
  proof (cases "i = j")
    case False
    have "0 < entry_count x" using table_extent(3) [OF assms(1,2,5,6)] .
    with extents_disjoint [OF assms(1,2) ij(1) _ ij(3) _ False] assms(4,6,7,8) ij show ?thesis by auto
  qed (use ij in simp)
qed

lemma extent_at_found:
  assumes "geometry_ok s" "table_ok s" "e \<in> set (fs_dir s)" "has_extent e"
  shows "\<exists>x. extent_at (fs_dir s) (entry_first e) = Some x \<and> x \<in> set (fs_dir s) \<and> has_extent x \<and> entry_first x = entry_first e"
proof -
  have "extent_at (fs_dir s) (entry_first e) \<noteq> None"
    using assms(3,4) by (auto simp: extent_at_def find_None_iff has_extent_def)
  then obtain x where x: "extent_at (fs_dir s) (entry_first e) = Some x" by blast
  then have m: "x \<in> set (fs_dir s)" "\<not> entry_free x" "entry_type x = FS_TYPE_FILE" "entry_first x = entry_first e"
    by (auto simp: extent_at_def find_Some_iff)
  have "0 < entry_first e" using table_extent(1) [OF assms] assms(1) by (simp add: geometry_ok_def)
  then have "entry_count x \<noteq> 0" using empty_extent(1) [OF conjunct1 [OF table_entry [OF assms(2) m(1)]] m(2,3)] m(4) by auto
  with x m show ?thesis by (simp add: has_extent_def)
qed

lemma scanned_skip:
  assumes g: "geometry_ok s" and t: "table_ok s" and sc: "scanned s n cur" and e: "e \<in> set (fs_dir s)" "has_extent e"
    and at: "cur \<le> entry_first e" and small: "entry_first e - cur < n"
    and least: "\<And>x. x \<in> set (fs_dir s) \<Longrightarrow> has_extent x \<Longrightarrow> cur \<le> entry_first x \<Longrightarrow> entry_first e \<le> entry_first x"
  shows "scanned s n (entry_first e + entry_count e)"
proof -
  note te = table_extent [OF g t e]
  have "\<not> free_run s n c" if "c < entry_first e + entry_count e" for c
  proof (cases "c < cur")
    case False
    then have "\<not> clear_of c n e" using that e(2) at small by (simp add: clear_of_def)
    with e(1) show ?thesis by (auto simp: free_run_def list_all_iff)
  qed (use sc in \<open>auto simp: scanned_def\<close>)
  moreover have "entry_first x + entry_count x \<le> entry_first e + entry_count e"
    if x: "x \<in> set (fs_dir s)" "has_extent x" "entry_first x < entry_first e + entry_count e" for x
  proof (cases "entry_first x < cur")
    case True
    with sc x have "entry_first x + entry_count x \<le> cur" by (auto simp: scanned_def)
    with at show ?thesis by simp
  next
    case False
    with least x have "entry_first e \<le> entry_first x" by simp
    with extent_eq [OF g t e x(1,2)] x(3) show ?thesis by simp
  qed
  ultimately show ?thesis using te at sc by (auto simp: scanned_def)
qed

lemma alloc_loop_exact:
  "geometry_ok s \<Longrightarrow> table_ok s \<Longrightarrow> 0 < n \<Longrightarrow> scanned s n cur \<Longrightarrow>
    alloc_loop (fs_dir s) (data_end s) n cur =
      (if \<exists>c. free_run s n c then Inr (LEAST c. free_run s n c) else Inl FS_NOSPC)"
proof (induction "fs_dir s" "data_end s" n cur rule: alloc_loop.induct)
  case (1 n cur)
  let ?dir = "fs_dir s" and ?top = "data_end s"
  define nxt where "nxt = next_extent ?dir cur ?top"
  have sc: "fs_data_start s \<le> cur" "cur \<le> ?top" "\<forall>c < cur. \<not> free_run s n c"
    "\<And>e. e \<in> set ?dir \<Longrightarrow> has_extent e \<Longrightarrow> entry_first e < cur \<Longrightarrow> entry_first e + entry_count e \<le> cur"
    using 1(5) by (auto simp: scanned_def)
  have le: "cur \<le> nxt" "nxt \<le> ?top" using next_extent_cases [of ?dir cur ?top] sc(2) by (auto simp: nxt_def)
  have nl: "nxt \<le> entry_first e" if "e \<in> set ?dir" "has_extent e" "cur \<le> entry_first e" for e
    unfolding nxt_def by (rule next_extent_least [OF that])
  consider (fit) "n \<le> nxt - cur" | (full) "\<not> n \<le> nxt - cur" "nxt = ?top" | (skip) "\<not> n \<le> nxt - cur" "nxt < ?top"
    using le by linarith
  then show ?case
  proof cases
    case fit
    have "clear_of cur n e" if "e \<in> set ?dir" for e
      unfolding clear_of_def
    proof
      assume x: "has_extent e"
      show "entry_first e + entry_count e \<le> cur \<or> cur + n \<le> entry_first e"
        using sc(4) [OF that x] nl [OF that x] fit le by (cases "entry_first e < cur") auto
    qed
    then have run: "free_run s n cur" using sc(1) fit le by (simp add: free_run_def list_all_iff)
    moreover have "(LEAST c. free_run s n c) = cur"
      using run sc(3) by (intro Least_equality) (auto simp: not_less [symmetric])
    ultimately show ?thesis using fit le by (auto simp: alloc_loop.simps [of ?dir] Let_def nxt_def [symmetric])
  next
    case full
    have "\<not> free_run s n c" for c
    proof (cases "c < cur")
      case False
      with full le show ?thesis by (auto simp: free_run_def)
    qed (use sc(3) in blast)
    with full show ?thesis by (auto simp: alloc_loop.simps [of ?dir] Let_def nxt_def [symmetric])
  next
    case skip
    then obtain e where e: "e \<in> set ?dir" "has_extent e" "entry_first e = nxt"
      using next_extent_cases [of ?dir cur ?top] by (auto simp: nxt_def)
    note te = table_extent [OF 1(2,3) e(1,2)]
    obtain x where x: "extent_at ?dir nxt = Some x" "x \<in> set ?dir" "has_extent x" "entry_first x = nxt"
      using extent_at_found [OF 1(2,3) e(1,2)] unfolding e(3) by blast
    have cnt: "entry_count x = entry_count e"
      using extent_eq [OF 1(2,3) e(1,2) x(2,3)] te(3) e(3) x(4) by simp
    have cur': "w64 (nxt + entry_count x) = nxt + entry_count e"
      using te(2,5) e(3) unfolding w64_def cnt by (intro mod_less) linarith
    have "scanned s n (nxt + entry_count e)"
      using scanned_skip [OF 1(2,3,5) e(1,2)] skip(1) e(3) le(1) nl by auto
    with 1(1) [OF nxt_def _ _ refl, unfolded x(1)] 1(2,3,4) skip te(3) le(1)
    show ?thesis by (auto simp: alloc_loop.simps [of ?dir] Let_def nxt_def [symmetric] x(1) cur')
  qed
qed

lemma alloc_exact:
  assumes "geometry_ok s" and "table_ok s" and "0 < n"
  shows "alloc_first_fit s n = (if \<exists>c. free_run s n c then Inr (LEAST c. free_run s n c) else Inl FS_NOSPC)"
proof -
  have "scanned s n (fs_data_start s)"
    using table_extent(1) [OF assms(1,2)] by (fastforce simp: scanned_def free_run_def data_end_def)
  moreover have "w64 (fs_data_start s + fs_data_blocks s) = data_end s"
    using assms(1) by (simp add: w64_def data_end_def geometry_ok_def)
  ultimately show ?thesis using alloc_loop_exact [OF assms] assms(3) by (simp add: alloc_first_fit_def)
qed

lemma alloc_run: "geometry_ok s \<Longrightarrow> table_ok s \<Longrightarrow> 0 < n \<Longrightarrow> alloc_first_fit s n = Inr c \<Longrightarrow> free_run s n c"
  by (auto simp: alloc_exact split: if_splits intro: LeastI)

section \<open>Changing the table\<close>

lemma entry_valid_resize:
  assumes v: "entry_valid ds db e" and len: "length e = 64" "length e' = 64" and live: "\<not> entry_free e" "entry_type e = FS_TYPE_FILE"
    and head: "take 40 e' = take 40 e" and pos: "0 < entry_count e'" "0 < entry_length e'"
    and fit: "entry_length e' \<le> entry_count e' * 512" "entry_count e' * 512 < 2 ^ 64"
    and rng: "ds \<le> entry_first e'" "entry_first e' + entry_count e' \<le> ds + db" "ds + db < 2 ^ 64"
  shows "entry_valid ds db e'"
proof -
  note hs = head_same [OF head] len
  have nl: "name_len e \<noteq> 0" by (rule valid_live [OF v live(1)])
  have free: "\<not> entry_free e'" using live_not_free [of e'] hs nl by simp
  have old: "name_components_ok (take (name_len e) e)" "list_all (\<lambda>c. c = NUL) (take 7 (drop 33 e))"
    using v live by (auto simp: entry_valid_def split: if_splits)
  have w: "w64 (entry_count e' * 512) = entry_count e' * 512" "w64 (ds + db) = ds + db"
    using fit rng by (simp_all add: w64_def)
  have c: "\<not> (2 ^ 64 - 1) div 512 < entry_count e'" using fit(2) by simp
  have "\<not> (entry_first e' < ds \<or> ds + db \<le> entry_first e' \<or> ds + db - entry_first e' < entry_count e')"
    using rng pos by auto
  then show ?thesis
    unfolding entry_valid_def w Let_def using free old hs nl live pos fit(1) c by (simp add: FS_TYPE_FILE_def FS_TYPE_DIR_def)
qed

lemma table_resize:
  assumes g: "geometry_ok s" and t: "table_ok s" and slot: "live_file s slot" and len: "length e' = 64"
    and head: "take 40 e' = take 40 (fs_dir s ! slot)" and pos: "0 < entry_count e'" "0 < entry_length e'"
    and fit: "entry_length e' \<le> entry_count e' * 512" "entry_count e' * 512 < 2 ^ 64"
    and rng: "fs_data_start s \<le> entry_first e'" "entry_first e' + entry_count e' \<le> data_end s"
    and clear: "\<And>j. j < length (fs_dir s) \<Longrightarrow> j \<noteq> slot \<Longrightarrow> clear_of (entry_first e') (entry_count e') (fs_dir s ! j)"
  shows "table_ok (s\<lparr>fs_dir := (fs_dir s)[slot := e']\<rparr>)"
proof -
  let ?e = "fs_dir s ! slot"
  have s: "slot < length (fs_dir s)" "\<not> entry_free ?e" "entry_type ?e = FS_TYPE_FILE"
    using slot by (simp_all add: live_file_def)
  have v: "entry_valid (fs_data_start s) (fs_data_blocks s) ?e" "length ?e = 64"
    using table_entry [OF t nth_mem [OF s(1)]] by simp_all
  have de: "data_end s < 2 ^ 64" using g by (simp add: geometry_ok_def data_end_def)
  have valid: "entry_valid (fs_data_start s) (fs_data_blocks s) e'"
    using entry_valid_resize [OF v len s(2,3) head pos fit rng(1)] rng(2) de by (simp add: data_end_def)
  have "\<not> extents_overlap e' (fs_dir s ! j)" if j: "j < length (fs_dir s)" "j \<noteq> slot" for j
  proof
    assume "extents_overlap e' (fs_dir s ! j)"
    then have o: "has_extent (fs_dir s ! j)"
      "ranges_overlap (entry_first e') (entry_count e') (entry_first (fs_dir s ! j)) (entry_count (fs_dir s ! j))"
      by (simp_all add: extents_overlap_def)
    have "entry_first (fs_dir s ! j) + entry_count (fs_dir s ! j) < 2 ^ 64" "entry_first e' + entry_count e' < 2 ^ 64"
      using table_extent(2) [OF g t nth_mem [OF j(1)] o(1)] rng(2) de by linarith+
    with o clear [OF j] show False by (auto simp: clear_of_def ranges_overlap_iff simp del: power_numeral)
  qed
  then have "dir_ok (fs_data_start s) (fs_data_blocks s) ((fs_dir s)[slot := e'])"
    using t by (intro dir_ok_resize [OF _ s(1) v(2) len head s(2,3) valid]) (simp_all add: table_ok_def)
  moreover have "\<forall>e \<in> set ((fs_dir s)[slot := e']). length e = 64"
    using t len set_update_subset_insert [of "fs_dir s" slot e'] by (auto simp: table_ok_def)
  ultimately show ?thesis using t by (simp add: table_ok_def)
qed

lemma table_free:
  assumes t: "table_ok s" and slot: "live_file s slot"
  shows "table_ok (s\<lparr>fs_dir := (fs_dir s)[slot := replicate 64 NUL]\<rparr>)"
proof -
  have "dir_ok (fs_data_start s) (fs_data_blocks s) ((fs_dir s)[slot := replicate 64 NUL])"
    using t slot by (intro dir_ok_free) (simp_all add: table_ok_def live_file_def FS_TYPE_FILE_def FS_TYPE_DIR_def)
  then show ?thesis using t set_update_subset_insert [of "fs_dir s" slot "replicate 64 NUL"]
    by (auto simp: table_ok_def)
qed

lemma table_create:
  assumes t: "table_ok s" and path: "fs_path_ok (Some p)" "length p \<noteq> 1"
    and key: "create_loop (fs_dir s) [] (tl p) = Inr key"
    and slot: "slot < length (fs_dir s)" "entry_free (fs_dir s ! slot)"
  shows "table_ok (s\<lparr>fs_dir := (fs_dir s)[slot := empty_file key]\<rparr>)" "key = tl p" "find_key (fs_dir s) key = None"
    "length (empty_file key) = 64"
proof -
  note pk = path_key [OF path]
  from key have k: "key = tl p" "find_key (fs_dir s) key = None"
    "\<And>i. i < length (tl p) \<Longrightarrow> tl p ! i = CHR ''/'' \<Longrightarrow> is_dir (fs_dir s) (take i (tl p))"
    unfolding create_found [OF path] by blast+
  show "length (empty_file key) = 64" using empty_file_fields(1) pk k(1) by simp
  have "dir_ok (fs_data_start s) (fs_data_blocks s) ((fs_dir s)[slot := empty_file key])"
    using t pk k slot by (intro dir_ok_create) (simp_all add: table_ok_def)
  then show "table_ok (s\<lparr>fs_dir := (fs_dir s)[slot := empty_file key]\<rparr>)"
    using t set_update_subset_insert [of "fs_dir s" slot "empty_file key"] \<open>length (empty_file key) = 64\<close>
    by (auto simp: table_ok_def)
qed (use key create_found [OF path] in auto)

section \<open>Directory writes\<close>

text \<open>A drive on which a failed write leaves its sector as it was.\<close>

definition clean :: "disk \<Rightarrow> bool" where
  "clean d \<longleftrightarrow> (\<forall>n old new. dr_torn d n old new = old)"

lemma clean_frame: "frame dev L d d' \<Longrightarrow> clean d' = clean d"
  by (simp add: frame_def clean_def)

definition slot_block :: "fs \<Rightarrow> nat \<Rightarrow> nat" where
  "slot_block s slot = fs_dir_start s + slot div FS_DIR_ENTRIES_PER_BLOCK"

lemma dir_write_result:
  assumes w: "dir_write_slot slot entry s d = (r, s', d')" and ok: "disk_ok d" and len: "length entry = 64"
  shows "frame (fs_dev s) (if slot < length (fs_dir s) then {slot_block s slot} else {}) d d'"
    "r = FS_OK \<Longrightarrow> slot < length (fs_dir s) \<and> s' = s\<lparr>fs_dir := (fs_dir s)[slot := entry]\<rparr> \<and>
       dk_sectors d' (fs_dev s) (slot_block s slot) =
         put_bytes (dk_sectors d (fs_dev s) (slot_block s slot)) (slot mod 8 * 64) entry"
    "r \<noteq> FS_OK \<Longrightarrow> s' = s \<and> (clean d \<longrightarrow> dk_sectors d' = dk_sectors d)"
proof -
  let ?goal = "frame (fs_dev s) (if slot < length (fs_dir s) then {slot_block s slot} else {}) d d' \<and>
    (r = FS_OK \<longrightarrow> slot < length (fs_dir s) \<and> s' = s\<lparr>fs_dir := (fs_dir s)[slot := entry]\<rparr> \<and>
       dk_sectors d' (fs_dev s) (slot_block s slot) =
         put_bytes (dk_sectors d (fs_dev s) (slot_block s slot)) (slot mod 8 * 64) entry) \<and>
    (r \<noteq> FS_OK \<longrightarrow> s' = s \<and> (clean d \<longrightarrow> dk_sectors d' = dk_sectors d))"
  have ?goal
  proof (cases "slot < length (fs_dir s)")
    case False
    with w frame_refl [OF ok] show ?thesis by (auto simp: dir_write_slot_def)
  next
    case True
    obtain r1 b d1 where rd: "blk_read (fs_dev s) (slot_block s slot) 1 static_buf 512 d = (r1, b, d1)" by (metis prod_cases3)
    note fr1 = blk_read_result(1) [OF rd ok]
    have same: "dk_sectors d1 = dk_sectors d" using fr1 by (intro ext) (simp add: frame_def)
    show ?thesis
    proof (cases "r1 = BLK_OK")
      case False
      with w True rd have "r = FS_IOERR" "s' = s" "d' = d1" by (auto simp: dir_write_slot_def slot_block_def Let_def)
      with frame_mono [OF fr1] same show ?thesis by simp
    next
      case r1: True
      note one = blk_read_one [OF rd [unfolded r1] ok]
      let ?b = "put_bytes b (slot mod 8 * 64) entry"
      have "slot mod 8 * 64 + 64 \<le> 512" using mod_less_divisor [of 8 slot] by linarith
      then have lb: "length ?b = 512" using one(2) len by simp
      obtain w1 d2 where dw: "data_write s (slot_block s slot) static_buf ?b d1 = (w1, d2)" by fastforce
      note dwr = data_write_result [OF dw frame_ok [OF fr1] lb]
      have fr: "frame (fs_dev s) {slot_block s slot} d d2" using frame_trans [OF frame_mono [OF fr1] dwr(1)] by simp
      have eq: "r = (if w1 then FS_OK else FS_IOERR)" "s' = (if w1 then s\<lparr>fs_dir := (fs_dir s)[slot := entry]\<rparr> else s)" "d' = d2"
        using w True rd r1 dw by (auto simp: dir_write_slot_def slot_block_def FS_DIR_ENTRIES_PER_BLOCK_def Let_def split: if_splits)
      show ?thesis using eq True fr dwr(2,3) same one(1) clean_frame [OF fr1] by (cases w1) (simp_all add: clean_def)
    qed
  qed
  then show "frame (fs_dev s) (if slot < length (fs_dir s) then {slot_block s slot} else {}) d d'"
    "r = FS_OK \<Longrightarrow> slot < length (fs_dir s) \<and> s' = s\<lparr>fs_dir := (fs_dir s)[slot := entry]\<rparr> \<and>
       dk_sectors d' (fs_dev s) (slot_block s slot) =
         put_bytes (dk_sectors d (fs_dev s) (slot_block s slot)) (slot mod 8 * 64) entry"
    "r \<noteq> FS_OK \<Longrightarrow> s' = s \<and> (clean d \<longrightarrow> dk_sectors d' = dk_sectors d)" by blast+
qed
end
