(* ===== verification/Fs_Ops.thy ===== *)
theory Fs_Ops
  imports Fs_Inv
begin

text \<open>
  What each operation does to the file system and to the disk, under the
  invariant, and that every operation keeps the invariant.
\<close>

section \<open>Writing in place\<close>

lemma write_data_blocks_result:
  assumes w: "write_data_blocks s first offset buf bytes d = (r, n, d')" and ok: "disk_ok d"
  shows "frame (fs_dev s) (blocks_of (first * 512 + offset) (length bytes)) d d'" "n \<le> length bytes"
    "r = FS_OK \<Longrightarrow> n = length bytes \<and> patched d (fs_dev s) (first * 512 + offset) bytes d'"
    "r = FS_OK \<or> r = FS_IOERR"
proof -
  obtain f fin where l: "write_loop s buf bytes 0 (first + offset div 512) (offset mod 512) d = (f, fin, d')"
    using w by (auto simp: write_data_blocks_def split: prod.splits if_splits)
  have base: "(first + offset div 512) * 512 + offset mod 512 = first * 512 + offset" by (simp add: algebra_simps)
  have res: "frame (fs_dev s) (blocks_of (first * 512 + offset) (length bytes)) d d'"
    "f \<longrightarrow> patched d (fs_dev s) (first * 512 + offset) bytes d'" "fin \<le> length bytes"
    using write_loop_result [OF l ok] unfolding base by simp_all
  with w l show "frame (fs_dev s) (blocks_of (first * 512 + offset) (length bytes)) d d'" "n \<le> length bytes"
    "r = FS_OK \<Longrightarrow> n = length bytes \<and> patched d (fs_dev s) (first * 512 + offset) bytes d'"
    "r = FS_OK \<or> r = FS_IOERR"
    by (auto simp: write_data_blocks_def split: if_splits)
qed

lemma blocks_of_within:
  assumes "offset + len \<le> count * 512"
  shows "blocks_of (first * 512 + offset) len \<subseteq> {first..<first + count}"
proof
  fix x assume "x \<in> blocks_of (first * 512 + offset) len"
  then obtain a where a': "a \<in> {first * 512 + offset..<first * 512 + offset + len}" "x = a div 512"
    by (auto simp: blocks_of_def)
  then have a: "first * 512 \<le> a" "a < (first + count) * 512" "x = a div 512" using assms by auto
  have "first * 512 div 512 \<le> a div 512" using a(1) by (rule div_le_mono)
  moreover have "a div 512 < first + count" using a(2) by (simp add: less_mult_imp_div_less)
  ultimately show "x \<in> {first..<first + count}" using a(3) by simp
qed

section \<open>Relocation\<close>

lemma nth_patch_block:
  assumes len: "length old = 512" "fin = offset + length bytes" and j: "j < 512"
    and rng: "offset < pb * 512 + 512" "pb * 512 < fin"
  shows "patch_block old offset bytes fin pb ! j =
    (if pb * 512 + j < offset then old ! j else if pb * 512 + j < fin then bytes ! (pb * 512 + j - offset) else NUL)"
proof -
  define lo hi where "lo = (if pb * 512 < offset then offset else pb * 512)"
    and "hi = (if fin < pb * 512 + 512 then fin else pb * 512 + 512)"
  have lh: "pb * 512 \<le> lo" "offset \<le> lo" "lo \<le> hi" "hi \<le> pb * 512 + 512" "hi \<le> fin"
    using rng len by (auto simp: lo_def hi_def)
  define b where "b = put_bytes old (lo - pb * 512) (take (hi - lo) (drop (lo - offset) bytes))"
  have lt: "length (take (hi - lo) (drop (lo - offset) bytes)) = hi - lo" using lh len by simp
  have b: "length b = 512" unfolding b_def by (subst length_put_bytes) (use lt lh len in auto)
  have bj: "b ! j = (if lo \<le> pb * 512 + j \<and> pb * 512 + j < hi then bytes ! (pb * 512 + j - offset) else old ! j)"
    unfolding b_def using lt lh len j by (subst nth_put_bytes) (auto simp: add.commute)
  have eq: "patch_block old offset bytes fin pb =
      (if fin < pb * 512 + 512 then put_bytes b (fin - pb * 512) (replicate (512 - (fin - pb * 512)) NUL) else b)"
    unfolding patch_block_def Let_def b_def lo_def hi_def by (rule refl)
  show ?thesis
  proof (cases "fin < pb * 512 + 512")
    case True
    have "put_bytes b (fin - pb * 512) (replicate (512 - (fin - pb * 512)) NUL) ! j =
        (if fin - pb * 512 \<le> j then NUL else b ! j)"
      using b j rng True by (subst nth_put_bytes) auto
    with eq True bj rng j len(2) show ?thesis by (auto simp: lo_def hi_def)
  next
    case False
    with eq bj rng j show ?thesis by (auto simp: lo_def hi_def)
  qed
qed

lemma patch_frame:
  assumes pt: "patch_blocks s count c offset bytes fin (offset div 512) (nb - offset div 512) d = (ok, d')" and "disk_ok d"
    and fin: "fin = offset + length bytes" and nb: "nb = (fin + 511) div 512"
  shows "frame (fs_dev s) {c..<c + nb} d d'"
proof -
  have ob: "offset < offset div 512 * 512 + 512"
    using mod_less_divisor [of 512 offset] by (subst (1) div_mult_mod_eq [of offset 512, symmetric]) simp
  have onb: "offset div 512 \<le> nb" unfolding nb fin by (rule div_le_mono) simp
  have "nb * 512 < fin + 512" unfolding nb using div_times_less_eq_dividend [of "fin + 511" 512] by linarith
  then have "(offset div 512 + (nb - offset div 512)) * 512 < fin + 512" using onb by simp
  moreover have "offset \<le> fin" "length bytes = fin - offset" using fin by simp_all
  ultimately have "frame (fs_dev s) {c + offset div 512..<c + offset div 512 + (nb - offset div 512)} d d'"
    using patch_blocks_result [OF pt assms(2) _ _ ob] by blast
  then show ?thesis by (rule frame_mono) (use onb in auto)
qed

lemma relocate_data:
  assumes cp: "copy_blocks s first c 0 count d = (True, d1)" and ok: "disk_ok d"
    and pt: "patch_blocks s count c offset bytes fin (offset div 512) (nb - offset div 512) d1 = (True, d2)"
    and apart: "{first..<first + count} \<inter> {c..<c + nb} = {}"
    and nb: "nb = (fin + 511) div 512" "count \<le> nb" and fin: "fin = offset + length bytes" and old: "offset \<le> count * 512"
    and k: "k < fin"
  shows "byte_at d2 (fs_dev s) (c * 512 + k) =
    (if k < offset then byte_at d (fs_dev s) (first * 512 + k) else bytes ! (k - offset))"
proof -
  let ?i = "k div 512" and ?j = "k mod 512"
  have "{c..<c + count} \<subseteq> {c..<c + nb}" using nb by auto
  then have "{first + 0..<first + 0 + count} \<inter> {c + 0..<c + 0 + count} = {}" using apart by auto
  note cpr = copy_blocks_result [OF cp ok this]
  have d1: "disk_ok d1" using cpr frame_ok by blast
  have copied: "dk_sectors d1 (fs_dev s) (c + i) = dk_sectors d (fs_dev s) (first + i)" if "i < count" for i
    using cpr that by simp
  have ob: "offset < offset div 512 * 512 + 512"
    using mod_less_divisor [of 512 offset] by (subst (1) div_mult_mod_eq [of offset 512, symmetric]) simp
  have onb: "offset div 512 \<le> nb" unfolding nb fin by (rule div_le_mono) simp
  have nbf: "nb * 512 < fin + 512" unfolding nb using div_times_less_eq_dividend [of "fin + 511" 512] by linarith
  have "(offset div 512 + (nb - offset div 512)) * 512 < fin + 512" using onb nbf by simp
  moreover have "offset \<le> fin" "length bytes = fin - offset" using fin by simp_all
  ultimately have ptr: "frame (fs_dev s) {c + offset div 512..<c + offset div 512 + (nb - offset div 512)} d1 d2"
    "\<And>i. offset div 512 \<le> i \<Longrightarrow> i < offset div 512 + (nb - offset div 512) \<Longrightarrow> dk_sectors d2 (fs_dev s) (c + i) =
      patch_block (if i < count then dk_sectors d1 (fs_dev s) (c + i) else replicate 512 NUL) offset bytes fin i"
    using patch_blocks_result [OF pt d1 _ _ ob] by blast+
  have patched: "dk_sectors d2 (fs_dev s) (c + i) =
      patch_block (if i < count then dk_sectors d1 (fs_dev s) (c + i) else replicate 512 NUL) offset bytes fin i"
    if "offset div 512 \<le> i" "i < nb" for i
    by (rule ptr(2)) (use that in simp_all)
  have at: "(x * 512 + k) div 512 = x + ?i" "(x * 512 + k) mod 512 = ?j" for x by simp_all
  have kk: "?i * 512 + ?j = k" by simp
  have "(k + 512) div 512 \<le> nb" unfolding nb by (rule div_le_mono) (use k in simp)
  then have inb: "?i < nb" by simp
  have jlt: "?j < 512" by simp
  show ?thesis
  proof (cases "?i < offset div 512")
    case True
    then have ko: "k < offset" using div_le_mono [of offset k 512] by (cases "k < offset") simp_all
    then have ic: "?i < count" using old by (intro less_mult_imp_div_less) simp
    have "dk_sectors d2 (fs_dev s) (c + ?i) = dk_sectors d1 (fs_dev s) (c + ?i)"
      by (rule frame_sector [OF ptr(1)]) (use True in simp)
    with copied [OF ic] ko show ?thesis by (simp add: byte_at_def at)
  next
    case False
    let ?b = "if ?i < count then dk_sectors d1 (fs_dev s) (c + ?i) else replicate 512 NUL"
    have lb: "length ?b = 512" using d1 by (simp add: disk_ok_def)
    have "offset div 512 * 512 \<le> ?i * 512" using False by (intro mult_le_mono1) simp
    then have "offset < ?i * 512 + 512" "?i * 512 < fin" using ob k kk by linarith+
    from nth_patch_block [OF lb fin jlt this] patched [of ?i] False inb
    have "byte_at d2 (fs_dev s) (c * 512 + k) = (if k < offset then ?b ! ?j else bytes ! (k - offset))"
      using k by (simp add: byte_at_def at kk)
    moreover have "?b ! ?j = byte_at d (fs_dev s) (first * 512 + k)" if "k < offset"
    proof -
      have "?i < count" using that old by (intro less_mult_imp_div_less) simp
      with copied show ?thesis by (simp add: byte_at_def at)
    qed
    ultimately show ?thesis by simp
  qed
qed

section \<open>Writing through a handle\<close>

definition apart :: "nat set \<Rightarrow> string \<Rightarrow> bool" where
  "apart L e \<longleftrightarrow> (has_extent e \<longrightarrow> L \<inter> {entry_first e..<entry_first e + entry_count e} = {})"

definition apart_others :: "fs \<Rightarrow> nat \<Rightarrow> nat set \<Rightarrow> bool" where
  "apart_others s slot L \<longleftrightarrow> L \<subseteq> {fs_data_start s..<data_end s} \<and>
    (\<forall>j < length (fs_dir s). j \<noteq> slot \<longrightarrow> apart L (fs_dir s ! j))"

text \<open>The entry that replaces the one of \<open>slot\<close>: the same name, an extent of its own.\<close>

definition grown :: "fs \<Rightarrow> nat \<Rightarrow> string \<Rightarrow> nat \<Rightarrow> bool" where
  "grown s slot e fin \<longleftrightarrow> length e = 64 \<and> take 40 e = take 40 (fs_dir s ! slot) \<and> 0 < entry_count e \<and> entry_length e = fin \<and>
    fin \<le> entry_count e * 512 \<and> entry_count e * 512 < 2 ^ 64 \<and> fs_data_start s \<le> entry_first e \<and>
    entry_first e + entry_count e \<le> data_end s \<and>
    (\<forall>j < length (fs_dir s). j \<noteq> slot \<longrightarrow> clear_of (entry_first e) (entry_count e) (fs_dir s ! j))"

lemma grown_table:
  assumes "geometry_ok s" and "table_ok s" and "live_file s slot" and "grown s slot e fin" and "0 < fin"
  shows "table_ok (s\<lparr>fs_dir := (fs_dir s)[slot := e]\<rparr>)"
  using assms by (intro table_resize) (auto simp: grown_def)

lemma own_extent:
  assumes ok: "geometry_ok s" "table_ok s" and live: "live_file s slot" and len: "entry_count (fs_dir s ! slot) \<noteq> 0"
    and L: "L \<subseteq> {entry_first (fs_dir s ! slot)..<entry_first (fs_dir s ! slot) + entry_count (fs_dir s ! slot)}"
  shows "apart_others s slot L"
  unfolding apart_others_def
proof (intro conjI allI impI)
  let ?e = "fs_dir s ! slot"
  have s: "slot < length (fs_dir s)" "has_extent ?e" using live len by (simp_all add: live_file_def has_extent_def)
  note te = table_extent [OF ok nth_mem [OF s(1)] s(2)]
  show "L \<subseteq> {fs_data_start s..<data_end s}" using L te by fastforce
  fix j assume j: "j < length (fs_dir s)" "j \<noteq> slot"
  show "apart L (fs_dir s ! j)"
    unfolding apart_def
  proof
    assume x: "has_extent (fs_dir s ! j)"
    have "{entry_first ?e..<entry_first ?e + entry_count ?e} \<inter>
        {entry_first (fs_dir s ! j)..<entry_first (fs_dir s ! j) + entry_count (fs_dir s ! j)} = {}"
      using extents_disjoint [OF ok s j(1) x] j(2) by auto
    with L show "L \<inter> {entry_first (fs_dir s ! j)..<entry_first (fs_dir s ! j) + entry_count (fs_dir s ! j)} = {}" by blast
  qed
qed

lemma run_apart:
  assumes run: "free_run s n c" and L: "L \<subseteq> {c..<c + n}"
  shows "apart_others s slot L" "\<And>e. e \<in> set (fs_dir s) \<Longrightarrow> apart L e"
proof -
  show a: "apart L e" if "e \<in> set (fs_dir s)" for e
    unfolding apart_def
  proof
    assume x: "has_extent e"
    have "clear_of c n e" using run that by (simp add: free_run_def list_all_iff)
    then have "{c..<c + n} \<inter> {entry_first e..<entry_first e + entry_count e} = {}" using x by (auto simp: clear_of_def)
    with L show "L \<inter> {entry_first e..<entry_first e + entry_count e} = {}" by blast
  qed
  have "{c..<c + n} \<subseteq> {fs_data_start s..<data_end s}" using run by (auto simp: free_run_def)
  with L a show "apart_others s slot L" by (auto simp: apart_others_def)
qed

lemma run_grown:
  assumes run: "free_run s nb c" and g: "geometry_ok s" and t: "table_ok s" and live: "live_file s slot"
    and nb: "nb = (fin + 511) div 512" "0 < fin" and fin: "\<not> 2 ^ 64 - 1 - 511 < fin"
  shows "grown s slot (with_extent (fs_dir s ! slot) c nb fin) fin"
proof -
  have len: "length (fs_dir s ! slot) = 64" using table_entry [OF t] live by (simp add: live_file_def)
  note we = with_extent_fields [OF len, of c nb fin]
  have "data_end s < 2 ^ 64" using g by (simp add: geometry_ok_def data_end_def)
  then have c: "c + nb \<le> data_end s" "fs_data_start s \<le> c" "c mod 2 ^ 64 = c" "nb mod 2 ^ 64 = nb"
    using run by (simp_all add: free_run_def)
  have f: "fin mod 2 ^ 64 = fin" using fin by simp
  have "512 div 512 \<le> (fin + 511) div 512" using nb(2) by (intro div_le_mono) simp
  then have pos: "0 < nb" by (simp add: nb(1))
  have fit: "fin \<le> nb * 512" unfolding nb(1) by linarith
  have "nb * 512 \<le> fin + 511" unfolding nb(1) by simp
  then have lt: "nb * 512 < 2 ^ 64" using fin by simp
  have "clear_of c nb (fs_dir s ! j)" if "j < length (fs_dir s)" for j
    using run that by (simp add: free_run_def list_all_iff)
  then show ?thesis unfolding grown_def we c f using we(1,2) pos fit lt c by simp
qed

text \<open>
  What a write comes to: data goes to blocks of the file's own or of nobody, and
  not to its own when it moves; then either the directory stays, or one
  entry is replaced by one under which the new contents are in place.
\<close>

definition placed :: "fs \<Rightarrow> nat \<Rightarrow> nat \<Rightarrow> string \<Rightarrow> disk \<Rightarrow> string \<Rightarrow> disk \<Rightarrow> bool" where
  "placed s slot offset bytes d e d1 \<longleftrightarrow> (\<forall>k < offset + length bytes. byte_at d1 (fs_dev s) (entry_first e * 512 + k) =
    (if k < offset then byte_at d (fs_dev s) (entry_first (fs_dir s ! slot) * 512 + k) else bytes ! (k - offset)))"

definition stays :: "fs \<Rightarrow> nat \<Rightarrow> nat \<Rightarrow> string \<Rightarrow> disk \<Rightarrow> fs_result \<Rightarrow> nat option \<Rightarrow> fs \<Rightarrow> disk \<Rightarrow> bool" where
  "stays s slot offset bytes d r n s' d' \<longleftrightarrow> s' = s \<and> (r = FS_OK \<longrightarrow> n = Some (length bytes) \<and>
     offset + length bytes \<le> entry_length (fs_dir s ! slot) \<and>
     patched d (fs_dev s) (entry_first (fs_dir s ! slot) * 512 + offset) bytes d')"

definition replaced :: "fs \<Rightarrow> nat \<Rightarrow> nat \<Rightarrow> string \<Rightarrow> disk \<Rightarrow> disk \<Rightarrow> fs_result \<Rightarrow> nat option \<Rightarrow> fs \<Rightarrow> disk \<Rightarrow> bool" where
  "replaced s slot offset bytes d d1 r n s' d' \<longleftrightarrow> entry_length (fs_dir s ! slot) < offset + length bytes \<and>
    (\<exists>e. grown s slot e (offset + length bytes) \<and> placed s slot offset bytes d e d1 \<and>
      dir_write_slot slot e s d1 = (r, s', d') \<and> (r = FS_OK \<longrightarrow> n = Some (length bytes)))"

definition write_outcome ::
  "bool \<Rightarrow> fs \<Rightarrow> nat \<Rightarrow> nat \<Rightarrow> string \<Rightarrow> disk \<Rightarrow> fs_result \<Rightarrow> nat option \<Rightarrow> fs \<Rightarrow> disk \<Rightarrow> bool" where
  "write_outcome moves s slot offset bytes d r n s' d' \<longleftrightarrow> (\<exists>L d1. frame (fs_dev s) L d d1 \<and> apart_others s slot L \<and>
    (moves \<longrightarrow> apart L (fs_dir s ! slot)) \<and> (\<not> moves \<longrightarrow> r = FS_OK \<or> r = FS_IOERR) \<and>
    (d' = d1 \<and> stays s slot offset bytes d r n s' d' \<or> replaced s slot offset bytes d d1 r n s' d'))"

lemma write_stays:
  assumes "frame (fs_dev s) L d d'" and "apart_others s slot L" and "moves \<Longrightarrow> apart L (fs_dir s ! slot)"
    and "stays s slot offset bytes d r n s' d'" and "\<not> moves \<Longrightarrow> r = FS_OK \<or> r = FS_IOERR"
  shows "write_outcome moves s slot offset bytes d r n s' d'"
  using assms by (auto simp: write_outcome_def)

lemma outcome_number:
  assumes "write_outcome moves s slot offset bytes d r n s' d'" and "\<And>k. n = Some k \<Longrightarrow> n' = Some k"
  shows "write_outcome moves s slot offset bytes d r n' s' d'"
proof -
  have "stays s slot offset bytes d r n s' d' \<Longrightarrow> stays s slot offset bytes d r n' s' d'"
    using assms(2) by (simp add: stays_def)
  moreover have "replaced s slot offset bytes d d1 r n s' d' \<Longrightarrow> replaced s slot offset bytes d d1 r n' s' d'" for d1
    using assms(2) unfolding replaced_def by blast
  ultimately show ?thesis using assms(1) unfolding write_outcome_def by blast
qed

lemma outcome_nothing:
  assumes "disk_ok d" and "s' = s" and "d' = d" and "r \<noteq> FS_OK"
  shows "write_outcome True s slot offset bytes d r n s' d'"
  using assms by (intro write_stays [of s "{}"]) (simp_all add: frame_refl apart_others_def apart_def stays_def)

lemma live_entry:
  assumes "geometry_ok s" and "table_ok s" and "live_file s slot"
  shows "entry_length (fs_dir s ! slot) \<le> entry_count (fs_dir s ! slot) * 512" "entry_count (fs_dir s ! slot) * 512 < 2 ^ 64"
proof -
  have s: "slot < length (fs_dir s)" using assms(3) by (simp add: live_file_def)
  show "entry_length (fs_dir s ! slot) \<le> entry_count (fs_dir s ! slot) * 512" "entry_count (fs_dir s ! slot) * 512 < 2 ^ 64"
    using table_extent(4,6) [OF assms(1,2) nth_mem [OF s]] assms(3)
      empty_extent(2) [OF conjunct1 [OF table_entry [OF assms(2) nth_mem [OF s]]]]
    by (cases "entry_count (fs_dir s ! slot) = 0"; simp add: live_file_def has_extent_def)+
qed

lemma relocate_outcome:
  assumes w: "write_relocate slot (entry_count (fs_dir s ! slot)) (entry_first (fs_dir s ! slot)) offset bytes fin s d = (r, n, s', d')"
    and ok: "geometry_ok s" "table_ok s" "disk_ok d" and live: "live_file s slot"
    and rng: "offset \<le> entry_length (fs_dir s ! slot)" "fin = offset + length bytes" "entry_count (fs_dir s ! slot) * 512 < fin"
  shows "write_outcome True s slot offset bytes d r n s' d'"
proof -
  let ?e = "fs_dir s ! slot" and ?ob = "offset div 512"
  define nb where "nb = (fin + 511) div 512"
  have le: "entry_length ?e < fin" "offset \<le> entry_count ?e * 512" using live_entry [OF ok(1,2) live] rng by simp_all
  show ?thesis
  proof (cases "2 ^ 64 - 1 - 511 < fin")
    case True
    show ?thesis by (rule outcome_nothing [OF ok(3)]) (use w True in \<open>auto simp: write_relocate_def\<close>)
  next
    case small: False
    have "512 div 512 \<le> nb" unfolding nb_def using rng(3) by (intro div_le_mono) simp
    then have nb0: "0 < nb" by simp
    show ?thesis
    proof (cases "alloc_first_fit s nb")
      case (Inl x)
      with alloc_exact [OF ok(1,2) nb0] have "x = FS_NOSPC" by (simp split: if_splits)
      show ?thesis
        by (rule outcome_nothing [OF ok(3)]) (use w small Inl \<open>x = FS_NOSPC\<close> in \<open>auto simp: write_relocate_def nb_def [symmetric]\<close>)
    next
      case (Inr c)
      have run: "free_run s nb c" by (rule alloc_run [OF ok(1,2) nb0 Inr])
      have cnt: "entry_count ?e \<le> nb" unfolding nb_def using rng(3) by linarith
      have "slot < length (fs_dir s)" using live by (simp add: live_file_def)
      then have ap: "apart L ?e" "apart_others s slot L" if "L \<subseteq> {c..<c + nb}" for L
        using run_apart [OF run that] by simp_all
      have dis: "{entry_first ?e..<entry_first ?e + entry_count ?e} \<inter> {c..<c + nb} = {}"
        using ap(1) [OF subset_refl] live by (cases "entry_count ?e = 0") (auto simp: apart_def live_file_def has_extent_def)
      obtain k1 d1 where cp: "copy_blocks s (entry_first ?e) c 0 (entry_count ?e) d = (k1, d1)" by fastforce
      have "{c..<c + entry_count ?e} \<subseteq> {c..<c + nb}" using cnt by auto
      then have fr1: "frame (fs_dev s) {c..<c + nb} d d1"
        using copy_blocks_result [OF cp ok(3)] dis by (auto intro: frame_mono)
      obtain k2 d2 where pt: "patch_blocks s (entry_count ?e) c offset bytes fin ?ob (nb - ?ob) d1 = (k2, d2)" by fastforce
      have fr2: "frame (fs_dev s) {c..<c + nb} d d2"
        using frame_trans [OF fr1 patch_frame [OF pt frame_ok [OF fr1] rng(2) nb_def]] .
      show ?thesis
      proof (cases "k1 \<and> k2")
        case False
        then have "s' = s" "r \<noteq> FS_OK" "d' = (if k1 then d2 else d1)"
          using w small Inr cp pt by (auto simp: write_relocate_def Let_def nb_def [symmetric] split: if_splits)
        with fr1 fr2 ap show ?thesis by (intro write_stays [of s "{c..<c + nb}"]) (simp_all add: stays_def)
      next
        case True
        let ?x = "with_extent ?e c nb fin"
        have dw: "dir_write_slot slot ?x s d2 = (r, s', d')" "r = FS_OK \<longrightarrow> n = Some (length bytes)"
          using w small Inr cp pt True
          by (auto simp: write_relocate_def Let_def nb_def [symmetric] dir_switch_extent_def with_extent_def split: prod.splits if_splits)
        have gr: "grown s slot ?x fin" using run_grown [OF run ok(1,2) live nb_def _ small] rng(3) by simp
        have "entry_first ?x = c"
          using with_extent_fields(3) [of ?e c nb fin] run ok(1) table_entry [OF ok(2) nth_mem [OF \<open>slot < length (fs_dir s)\<close>]]
          by (simp add: free_run_def geometry_ok_def data_end_def)
        then have "placed s slot offset bytes d ?x d2"
          unfolding placed_def rng(2) [symmetric]
          using relocate_data [OF cp [unfolded conjunct1 [OF True, THEN eqTrueI]] ok(3)
              pt [unfolded conjunct2 [OF True, THEN eqTrueI]] dis nb_def cnt rng(2) le(2)] by simp
        with gr dw le(1) fr2 ap show ?thesis
          unfolding write_outcome_def replaced_def rng(2) [symmetric] by blast
      qed
    qed
  qed
qed

lemma handle_live:
  assumes "fs_ok s d" and "decode_handle s handle = Some k"
  shows "fs_is_mounted s" "geometry_ok s" "table_ok s" "disk_ok d" "live_file s (the (fs_handles s k))" "k = handle mod 8"
proof -
  show m: "fs_is_mounted s" "k = handle mod 8"
    using assms(2) by (auto simp: decode_handle_def Let_def split: if_splits)
  obtain slot where "fs_handles s k = Some slot" using assms(2) by (auto simp: decode_handle_def Let_def split: if_splits)
  then show "geometry_ok s" "table_ok s" "disk_ok d" "live_file s (the (fs_handles s k))"
    using assms(1) m by (auto simp: fs_ok_def handles_ok_def)
qed

lemma grow_outcome:
  assumes w: "write_data_blocks s (entry_first (fs_dir s ! slot)) offset buf bytes d = (r0, n0, d0)"
    and ok: "geometry_ok s" "table_ok s" "disk_ok d" and live: "live_file s slot" and ne: "bytes \<noteq> []"
    and rng: "offset + length bytes \<le> entry_count (fs_dir s ! slot) * 512"
  shows "frame (fs_dev s) (blocks_of (entry_first (fs_dir s ! slot) * 512 + offset) (length bytes)) d d0"
    "apart_others s slot (blocks_of (entry_first (fs_dir s ! slot) * 512 + offset) (length bytes))"
    "entry_length (fs_dir s ! slot) < offset + length bytes \<Longrightarrow>
      grown s slot (wr64le (fs_dir s ! slot) 56 (offset + length bytes)) (offset + length bytes)"
    "r0 = FS_OK \<Longrightarrow> placed s slot offset bytes d (wr64le (fs_dir s ! slot) 56 (offset + length bytes)) d0"
proof -
  let ?e = "fs_dir s ! slot" and ?fin = "offset + length bytes"
  note wr = write_data_blocks_result [OF w ok(3)]
  show "frame (fs_dev s) (blocks_of (entry_first ?e * 512 + offset) (length bytes)) d d0" by (rule wr(1))
  have c: "entry_count ?e \<noteq> 0" using rng ne by (cases "entry_count ?e = 0") auto
  show "apart_others s slot (blocks_of (entry_first ?e * 512 + offset) (length bytes))"
    by (rule own_extent [OF ok(1,2) live c blocks_of_within [OF rng]])
  have s: "slot < length (fs_dir s)" using live by (simp add: live_file_def)
  have len: "length ?e = 64" using table_entry [OF ok(2) nth_mem [OF s]] by simp
  have x: "has_extent ?e" using live c by (simp add: live_file_def has_extent_def)
  note te = table_extent [OF ok(1,2) nth_mem [OF s] x] and wl = with_length_fields [OF len, of ?fin]
  have "clear_of (entry_first ?e) (entry_count ?e) (fs_dir s ! j)" if "j < length (fs_dir s)" "j \<noteq> slot" for j
    using extents_disjoint [OF ok(1,2) s x that(1)] that(2) by (auto simp: clear_of_def)
  then show "grown s slot (wr64le ?e 56 ?fin) ?fin" if "entry_length ?e < ?fin"
    unfolding grown_def wl using te rng wl(1,2) by (simp add: mod_less)
  show "placed s slot offset bytes d (wr64le ?e 56 ?fin) d0" if "r0 = FS_OK"
    using wr(3) [OF that] unfolding placed_def wl patched_def by auto
qed

lemma fs_write_outcome:
  assumes w: "fs_write handle offset buf bytes s d = (r, n, s', d')" and ok: "fs_ok s d"
  obtains (refused) "s' = s" "d' = d" "r = FS_OK \<Longrightarrow> bytes = [] \<and> n = Some 0"
  | (wrote) slot where "decode_handle s handle = Some (handle mod 8)" "fs_handles s (handle mod 8) = Some slot"
      "bytes \<noteq> []" "length bytes \<le> FS_MAX_WRITE_BYTES" "offset \<le> entry_length (fs_dir s ! slot)"
      "write_outcome (entry_count (fs_dir s ! slot) * 512 < offset + length bytes) s slot offset bytes d r n s' d'"
proof (cases "decode_handle s handle")
  case None
  with w refused show thesis by (auto simp: fs_write_def)
next
  case (Some k)
  note hl = handle_live [OF ok Some]
  define slot e where "slot = the (fs_handles s k)" and "e = fs_dir s ! slot"
  have hs: "fs_handles s (handle mod 8) = Some slot"
    using Some hl(6) by (auto simp: slot_def decode_handle_def Let_def split: if_splits)
  have live: "live_file s slot" using hl(5) by (simp add: slot_def)
  have w64: "w64 (entry_count e * 512) = entry_count e * 512"
    using live_entry(2) [OF hl(2,3) live] by (simp add: w64_def e_def)
  show thesis
  proof (cases "FS_MAX_WRITE_BYTES < length bytes \<or> entry_length e < offset \<or> 2 ^ 64 - 1 - offset < length bytes \<or>
      bytes = [] \<or> buf = 0 \<or> buf mod 2 = 1")
    case True
    then show thesis using w Some live
      by (intro refused) (auto simp: fs_write_def Let_def slot_def [symmetric] e_def [symmetric] live_file_def split: if_splits)
  next
    case False
    then have c: "bytes \<noteq> []" "length bytes \<le> FS_MAX_WRITE_BYTES" "offset \<le> entry_length e" by simp_all
    let ?out = "\<lambda>m. write_outcome m s slot offset bytes d r n s' d'" and ?fin = "offset + length bytes"
    have eq: "fs_write handle offset buf bytes s d =
        (if offset + length bytes \<le> entry_length e then (case write_data_blocks s (entry_first e) offset buf bytes d of (r, n, d') \<Rightarrow> (r, Some n, s, d'))
         else if ?fin \<le> entry_count e * 512 then
           (case write_data_blocks s (entry_first e) offset buf bytes d of
              (r, n, d') \<Rightarrow> if r \<noteq> FS_OK then (r, Some n, s, d')
                else (case dir_write_slot slot (wr64le e 56 ?fin) s d' of (r', s', d'') \<Rightarrow> (r', Some (length bytes), s', d'')))
         else (case write_relocate slot (entry_count e) (entry_first e) offset bytes ?fin s d of
            (r, n, s', d') \<Rightarrow> (r, Some (case n of None \<Rightarrow> length bytes | Some k \<Rightarrow> k), s', d')))"
      using False Some live w64 by (simp add: fs_write_def Let_def slot_def [symmetric] e_def live_file_def split: prod.split)
    have "?out (entry_count e * 512 < ?fin)"
    proof (cases "?fin \<le> entry_count e * 512")
      case False
      then have "\<not> ?fin \<le> entry_length e" using live_entry(1) [OF hl(2,3) live] by (simp add: e_def)
      with eq w False obtain n0 where
        rl: "write_relocate slot (entry_count e) (entry_first e) offset bytes ?fin s d = (r, n0, s', d')"
          "n = Some (case n0 of None \<Rightarrow> length bytes | Some k \<Rightarrow> k)" by (auto split: prod.splits)
      from relocate_outcome [OF rl(1) [unfolded e_def] hl(2,3,4) live] c(3) False
      have "write_outcome True s slot offset bytes d r n0 s' d'" by (simp add: e_def)
      then have "?out True" by (rule outcome_number) (simp add: rl(2))
      with False show ?thesis by simp
    next
      case fit: True
      obtain r0 n0 d0 where wd: "write_data_blocks s (entry_first e) offset buf bytes d = (r0, n0, d0)" by (metis prod_cases3)
      note go = grow_outcome [OF wd [unfolded e_def] hl(2,3,4) live c(1) fit [unfolded e_def]]
      note wr = write_data_blocks_result [OF wd hl(4)]
      let ?L = "blocks_of (entry_first e * 512 + offset) (length bytes)"
      show ?thesis
      proof (cases "?fin \<le> entry_length e \<or> r0 \<noteq> FS_OK")
        case True
        with eq w wd fit have "r = r0" "n = Some n0" "s' = s" "d' = d0" by (auto split: if_splits)
        with go(1,2) wr(3,4) True fit show ?thesis
          by (intro write_stays [of s ?L]) (auto simp: stays_def e_def)
      next
        case False
        with eq w wd fit have dw: "dir_write_slot slot (wr64le e 56 ?fin) s d0 = (r, s', d')" "n = Some (length bytes)"
          by (auto split: prod.splits)
        with go False fit have "replaced s slot offset bytes d d0 r n s' d'"
          unfolding replaced_def by (auto simp: e_def)
        moreover have "r = FS_OK \<or> r = FS_IOERR"
          using dw(1) live by (auto simp: dir_write_slot_def Let_def live_file_def split: prod.splits if_splits)
        ultimately show ?thesis using go(1,2) fit unfolding write_outcome_def by (auto simp: e_def)
      qed
    qed
    then show thesis using wrote hs Some hl(6) c unfolding e_def by blast
  qed
qed
end
