(* ===== verification/Fs_Mount.thy ===== *)
theory Fs_Mount
  imports Fs_Ops
begin

text \<open>
  Mounting and unmounting, and the invariant over arbitrary sequences of file
  system calls.
\<close>

section \<open>Loading a directory\<close>

lemma length_entries_of [simp]: "length (entries_of n bytes) = n"
  by (induction n arbitrary: bytes) simp_all

lemma nth_entries_of: "i < n \<Longrightarrow> entries_of n bytes ! i = take 64 (drop (i * 64) bytes)"
proof (induction n arbitrary: bytes i)
  case (Suc n)
  then show ?case by (cases i) (simp_all add: add.commute)
qed simp

lemma entries_of_lengths: "length bytes = n * 64 \<Longrightarrow> \<forall>e \<in> set (entries_of n bytes). length e = 64"
proof (induction n arbitrary: bytes)
  case (Suc n)
  then have "length (drop 64 bytes) = n * 64" by simp
  from Suc.IH [OF this] Suc.prems show ?case by simp
qed simp

lemma load_dir_result:
  "load_dir dev ds db got bytes d = (ok, out, d') \<Longrightarrow> disk_ok d \<Longrightarrow> got \<le> db \<Longrightarrow>
    frame dev {} d d' \<and> (ok \<longrightarrow> out = bytes @ map (byte_at d dev) [(ds + got) * 512..<(ds + db) * 512])"
proof (induction dev ds db got bytes d rule: load_dir.induct)
  case (1 dev ds db got bytes d)
  show ?case
  proof (cases "got < db")
    case False
    with 1(2,3,4) show ?thesis by (simp add: load_dir.simps frame_refl)
  next
    case True
    define n where "n = (if 32 < db - got then 32 else db - got)"
    have n: "0 < n" "got + n \<le> db" using True by (auto simp: n_def)
    obtain r bs d1 where rd: "blk_read dev (ds + got) n static_buf (n * 512) d = (r, bs, d1)" by (metis prod_cases3)
    note res = blk_read_result [OF rd 1(3)]
    show ?thesis
    proof (cases "r = BLK_OK")
      case False
      with 1(2) True rd res(1) show ?thesis by (simp add: load_dir.simps [of dev ds db got] n_def [symmetric])
    next
      case r: True
      with 1(2) True rd have rest: "load_dir dev ds db (got + n) (bytes @ bs) d1 = (ok, out, d')"
        by (simp add: load_dir.simps [of dev ds db got] n_def [symmetric])
      from 1(1) [OF True n_def rd [symmetric] refl _ rest frame_ok [OF res(1)] n(2)] r
      have ih: "frame dev {} d1 d'" "ok \<longrightarrow> out = (bytes @ bs) @ map (byte_at d dev) [(ds + (got + n)) * 512..<(ds + db) * 512]"
        using frame_empty_byte [OF res(1)] by simp_all
      have "[(ds + got) * 512..<(ds + db) * 512] = [(ds + got) * 512..<(ds + got + n) * 512] @ [(ds + got + n) * 512..<(ds + db) * 512]"
        using n(2) by (intro upt_split) simp_all
      then show ?thesis using ih res(2) [OF r] frame_trans [OF res(1) ih(1)] by (simp add: add.assoc)
    qed
  qed
qed

lemma superblock_geometry:
  assumes "superblock_check cap sb = FS_OK"
  shows "geometry_ok (fs_install dev sb dir s)" "rd64le sb 16 \<le> cap"
proof -
  let ?t = "rd64le sb 16" and ?ds = "rd64le sb 24" and ?db = "rd64le sb 32" and ?as = "rd64le sb 40" and ?ab = "rd64le sb 48"
  from assms have c: "?t \<noteq> 0" "?t \<le> cap" "?db \<noteq> 0" "?db \<le> FS_MAX_DIR_BLOCKS" "range_ok ?ds ?db ?t" "?ds \<noteq> 0"
      "?ab \<noteq> 0" "range_ok ?as ?ab ?t" "?as \<noteq> 0" "\<not> ranges_overlap ?ds ?db ?as ?ab"
    by (auto simp: superblock_check_def Let_def split: if_splits)
  show "?t \<le> cap" by (rule c(2))
  have r: "?ds + ?db \<le> ?t" "?as + ?ab \<le> ?t" using c(5,8) by (auto simp: range_ok_def)
  have t: "?t < 2 ^ 64" by (rule rd64le_less)
  then have "?ds + ?db < 2 ^ 64" "?as + ?ab < 2 ^ 64" using r by linarith+
  with c(10) have "?ds + ?db \<le> ?as \<or> ?as + ?ab \<le> ?ds"
    using ranges_overlap_iff [of ?ds ?db ?as ?ab] by linarith
  then show "geometry_ok (fs_install dev sb dir s)"
    using c r t by (simp add: geometry_ok_def fs_install_def del: power_numeral)
qed

section \<open>Mounting\<close>

text \<open>A state in which nothing is mounted or authorized.\<close>

definition unmounted :: "fs \<Rightarrow> disk \<Rightarrow> bool" where
  "unmounted s d \<longleftrightarrow> disk_ok d \<and> \<not> fs_is_mounted s \<and> \<not> fs_writable_authorized s \<and> (\<forall>k. fs_handles s k = None)"

lemma unmounted_ok: "unmounted s d \<Longrightarrow> fs_ok s d"
  by (simp add: unmounted_def fs_ok_def)

lemma unmounted_frame: "unmounted s d \<Longrightarrow> frame dev L d d' \<Longrightarrow> unmounted s d'"
  by (simp add: unmounted_def frame_def)

lemma disk_ok_devices [simp]: "disk_ok (d\<lparr>dk_devices := f\<rparr>) = disk_ok d"
  by (simp add: disk_ok_def)

lemma blk_read_checked:
  "blk_read dev start n buf len d = (BLK_OK, bs, d') \<Longrightarrow>
    dev < BLK_MAX_DEVICES \<and> bs_present (dk_devices d dev) \<and> bs_block_count (dk_devices d dev) \<le> BLK_LBA28_MAX"
  by (auto simp: blk_read_def transfer_check_def split: if_splits)

lemma revoked:
  assumes "fs_ok s d"
  obtains d' where "fs_revoke w s d = Returns (s\<lparr>fs_writable_authorized := False\<rparr>, d')" "disk_ok d'"
    "dk_sectors d' = dk_sectors d" "dr_torn d' = dr_torn d" "dr_result d' = dr_result d"
    "\<And>v. bs_present (dk_devices d' v) = bs_present (dk_devices d v) \<and>
      bs_block_count (dk_devices d' v) = bs_block_count (dk_devices d v)"
proof (cases "fs_writable_authorized s")
  case False
  then have "fs_revoke w s d = Returns (s\<lparr>fs_writable_authorized := False\<rparr>, d)" by (simp add: fs_revoke_def)
  then show thesis by (rule that) (use assms in \<open>simp_all add: fs_ok_def\<close>)
next
  case True
  let ?d = "upd_device (fs_dev s) (\<lambda>b. b\<lparr>bs_writable := False\<rparr>) d"
  have "fs_revoke w s d = Returns (s\<lparr>fs_writable_authorized := False\<rparr>, ?d)"
    using True assms by (simp add: fs_revoke_def fs_ok_def blk_clear_writable_def)
  then show thesis by (rule that) (use assms in \<open>simp_all add: fs_ok_def upd_device_def\<close>)
qed

text \<open>What a successful mount takes over from the disk.\<close>

definition on_disk :: "fs \<Rightarrow> disk \<Rightarrow> bool" where
  "on_disk s d \<longleftrightarrow> (let sb = dk_sectors d (fs_dev s) 0 in
    superblock_check (bs_block_count (dk_devices d (fs_dev s))) sb = FS_OK \<and>
    fs_total s = rd64le sb 16 \<and> fs_dir_start s = rd64le sb 24 \<and> fs_dir_blocks s = rd64le sb 32 \<and>
    fs_data_start s = rd64le sb 40 \<and> fs_data_blocks s = rd64le sb 48 \<and>
    fs_dir s = entries_of (fs_dir_blocks s * 8)
      (map (byte_at d (fs_dev s)) [fs_dir_start s * 512..<(fs_dir_start s + fs_dir_blocks s) * 512]))"

lemma load_outcome:
  assumes l: "fs_load dev s d = (r, s', d')" and u: "unmounted s d"
  shows "r \<noteq> FS_OK \<Longrightarrow> unmounted s' d'"
    "r = FS_OK \<Longrightarrow> fs_ok s' d' \<and> fs_is_mounted s' \<and> on_disk s' d' \<and> fs_dev s' = dev \<and> dk_sectors d' = dk_sectors d"
    "dr_torn d' = dr_torn d"
proof -
  have "(r \<noteq> FS_OK \<longrightarrow> unmounted s' d') \<and>
    (r = FS_OK \<longrightarrow> fs_ok s' d' \<and> fs_is_mounted s' \<and> on_disk s' d' \<and> fs_dev s' = dev \<and> dk_sectors d' = dk_sectors d) \<and>
    dr_torn d' = dr_torn d"
  proof (cases "blk_device dev d")
    case None
    with l u show ?thesis by (auto simp: fs_load_def)
  next
    case (Some info)
    obtain r1 sb d1 where rd: "blk_read dev 0 1 static_buf 512 d = (r1, sb, d1)" by (metis prod_cases3)
    have ok: "disk_ok d" using u by (simp add: unmounted_def)
    note fr1 = blk_read_result(1) [OF rd ok]
    obtain k bytes d2 where ld: "load_dir dev (rd64le sb 24) (rd64le sb 32) 0 [] d1 = (k, bytes, d2)" by (metis prod_cases3)
    note ldr = load_dir_result [OF ld frame_ok [OF fr1]]
    have fr2: "frame dev {} d d2" using ldr frame_trans [OF fr1] by simp
    have info: "info = dk_devices d dev" "dev < BLK_MAX_DEVICES" "bs_present (dk_devices d dev)"
      using Some by (auto simp: blk_device_def split: if_splits)
    define dir where "dir = entries_of (rd64le sb 32 * 8) bytes"
    show ?thesis
    proof (cases "r1 = BLK_OK \<and> superblock_check (bs_block_count info) sb = FS_OK \<and> k \<and> dir_valid (rd64le sb 40) (rd64le sb 48) dir")
      case False
      then have "r \<noteq> FS_OK \<and> (s' = s \<or> s' = s\<lparr>fs_dir := dir\<rparr>) \<and> (d' = d1 \<or> d' = d2)"
        using l Some rd ld by (auto simp: fs_load_def Let_def dir_def [symmetric] split: if_splits)
      moreover have "unmounted (s\<lparr>fs_dir := dir\<rparr>) = unmounted s" by (simp add: unmounted_def fun_eq_iff)
      moreover have "dr_torn d1 = dr_torn d" "dr_torn d2 = dr_torn d" using fr1 fr2 by (simp_all add: frame_def)
      ultimately show ?thesis using unmounted_frame [OF u fr1] unmounted_frame [OF u fr2] by auto
    next
      case True
      have r1: "r1 = BLK_OK" and k: k and dv: "dir_valid (rd64le sb 40) (rd64le sb 48) dir"
        and sbc: "superblock_check (bs_block_count (dk_devices d dev)) sb = FS_OK" using True info(1) by simp_all
      let ?s = "(fs_install dev sb dir s)\<lparr>fs_writable_authorized := True, fs_handles := (\<lambda>_. None),
        fs_generations := (\<lambda>k. next_gen (fs_generations s k)), fs_is_mounted := True\<rparr>"
      let ?d = "upd_device dev (\<lambda>b. b\<lparr>bs_writable := True\<rparr>) d2"
      have dev: "dk_devices d2 = dk_devices d" "dk_sectors d2 = dk_sectors d" "disk_ok d2" "dr_torn d2 = dr_torn d"
        using fr2 by (simp_all add: frame_def fun_eq_iff)
      have eq: "r = FS_OK" "s' = ?s" "d' = ?d"
        using l Some rd ld True info dev
        by (auto simp: fs_load_def Let_def dir_def [symmetric] blk_set_writable_def fs_install_def)
      note one = blk_read_one [OF rd [unfolded r1] ok]
      have bytes: "bytes = map (byte_at d dev) [rd64le sb 24 * 512..<(rd64le sb 24 + rd64le sb 32) * 512]"
        using ldr k frame_empty_byte [OF fr1] by simp
      then have lens: "\<forall>e \<in> set dir. length e = 64" unfolding dir_def by (intro entries_of_lengths) simp
      have geo: "geometry_ok ?s" using superblock_geometry(1) [OF sbc, of dev dir s] by (simp add: geometry_ok_def)
      moreover have "table_ok ?s"
        using dv lens unfolding dir_valid_ok
        by (simp add: table_ok_def fs_install_def dir_def FS_DIR_ENTRIES_PER_BLOCK_def)
      moreover have "device_ok ?s ?d"
        using superblock_geometry(2) [OF sbc] blk_read_checked [OF rd [unfolded r1]] dev
        by (simp add: device_ok_def fs_install_def upd_device_def)
      ultimately have "fs_ok ?s ?d"
        using info dev by (simp add: fs_ok_def handles_ok_def fs_install_def upd_device_def)
      moreover have "byte_at ?d = byte_at d" using dev by (simp add: byte_at_def fun_eq_iff upd_device_def)
      then have "on_disk ?s ?d"
        using sbc one(1) bytes dev by (simp add: on_disk_def fs_install_def dir_def upd_device_def)
      ultimately show ?thesis using eq dev by (simp add: fs_install_def upd_device_def)
    qed
  qed
  then show "r \<noteq> FS_OK \<Longrightarrow> unmounted s' d'"
    "r = FS_OK \<Longrightarrow> fs_ok s' d' \<and> fs_is_mounted s' \<and> on_disk s' d' \<and> fs_dev s' = dev \<and> dk_sectors d' = dk_sectors d"
    "dr_torn d' = dr_torn d" by blast+
qed

section \<open>The directory on the disk\<close>

lemma sector_patched:
  assumes fr: "frame dev {lba} d d'" and ok: "disk_ok d" and fit: "pos + length xs \<le> 512"
    and b: "dk_sectors d' dev lba = put_bytes (dk_sectors d dev lba) pos xs"
  shows "patched d dev (lba * 512 + pos) xs d'"
  unfolding patched_def
proof
  fix a :: nat
  have len: "length (dk_sectors d dev lba) = 512" using ok by (simp add: disk_ok_def)
  show "byte_at d' dev a = (if lba * 512 + pos \<le> a \<and> a < lba * 512 + pos + length xs
      then xs ! (a - (lba * 512 + pos)) else byte_at d dev a)"
  proof (cases "a div 512 = lba")
    case True
    define j where "j = a mod 512"
    have j: "j < 512" "a = lba * 512 + j" using True by (auto simp: j_def)
    have "byte_at d' dev a = put_bytes (dk_sectors d dev lba) pos xs ! j" using True b by (simp add: byte_at_def j_def)
    also have "\<dots> = (if pos \<le> j \<and> j < pos + length xs then xs ! (j - pos) else dk_sectors d dev lba ! j)"
      using j(1) fit len by (simp add: nth_put_bytes)
    also have "dk_sectors d dev lba ! j = byte_at d dev a" using True by (simp add: byte_at_def j_def)
    finally show ?thesis unfolding j(2) by simp
  next
    case False
    then have "\<not> (lba * 512 + pos \<le> a \<and> a < lba * 512 + pos + length xs)" using fit by (auto simp: div_nat_eqI)
    with False frame_byte [OF fr, of a] show ?thesis by auto
  qed
qed

lemma dir_write_patched:
  assumes w: "dir_write_slot slot entry s d = (FS_OK, s', d')" and ok: "disk_ok d" and len: "length entry = 64"
  shows "patched d (fs_dev s) (fs_dir_start s * 512 + slot * 64) entry d'"
proof -
  note dw = dir_write_result [OF w ok len]
  have "slot mod 8 * 64 + 64 \<le> 512" using mod_less_divisor [of 8 slot] by linarith
  then have "patched d (fs_dev s) (slot_block s slot * 512 + slot mod 8 * 64) entry d'"
    using dw len ok by (intro sector_patched) simp_all
  moreover have "slot_block s slot * 512 + slot mod 8 * 64 = fs_dir_start s * 512 + slot * 64"
  proof -
    have "slot div 8 * 8 * 64 + slot mod 8 * 64 = slot * 64" by (simp only: add_mult_distrib [symmetric] div_mult_mod_eq)
    then show ?thesis by (simp add: slot_block_def FS_DIR_ENTRIES_PER_BLOCK_def)
  qed
  ultimately show ?thesis by simp
qed

definition entries_on_disk :: "fs \<Rightarrow> disk \<Rightarrow> bool" where
  "entries_on_disk s d \<longleftrightarrow> (\<forall>i < length (fs_dir s). fs_dir s ! i =
    map (byte_at d (fs_dev s)) [fs_dir_start s * 512 + i * 64..<fs_dir_start s * 512 + i * 64 + 64])"

lemma entries_on_disk_iff:
  assumes "length (fs_dir s) = fs_dir_blocks s * 8"
  shows "fs_dir s = entries_of (fs_dir_blocks s * 8)
      (map (byte_at d (fs_dev s)) [fs_dir_start s * 512..<(fs_dir_start s + fs_dir_blocks s) * 512]) \<longleftrightarrow> entries_on_disk s d"
proof -
  have "take 64 (drop (i * 64) (map (byte_at d (fs_dev s)) [fs_dir_start s * 512..<(fs_dir_start s + fs_dir_blocks s) * 512])) =
      map (byte_at d (fs_dev s)) [fs_dir_start s * 512 + i * 64..<fs_dir_start s * 512 + i * 64 + 64]"
    if "i < fs_dir_blocks s * 8" for i
  proof -
    have "(i + 1) * 64 \<le> fs_dir_blocks s * 8 * 64" using that by (intro mult_le_mono1) simp
    then show ?thesis by (simp add: take_map drop_map take_upt algebra_simps)
  qed
  moreover have "fs_dir s = entries_of (fs_dir_blocks s * 8) bs \<longleftrightarrow>
      (\<forall>i < fs_dir_blocks s * 8. fs_dir s ! i = take 64 (drop (i * 64) bs))" for bs
    using assms by (simp add: list_eq_iff_nth_eq [of "fs_dir s"] nth_entries_of)
  ultimately show ?thesis using assms by (simp add: entries_on_disk_def)
qed

lemma entries_update:
  assumes on: "entries_on_disk s d" and slot: "slot < length (fs_dir s)" and len: "length e = 64"
    and p: "patched d (fs_dev s) (fs_dir_start s * 512 + slot * 64) e d'"
  shows "entries_on_disk (s\<lparr>fs_dir := (fs_dir s)[slot := e]\<rparr>) d'"
  unfolding entries_on_disk_def
proof (intro allI impI)
  let ?b = "fs_dir_start s * 512"
  fix i assume "i < length (fs_dir (s\<lparr>fs_dir := (fs_dir s)[slot := e]\<rparr>))"
  then have i: "i < length (fs_dir s)" by simp
  have "(fs_dir s)[slot := e] ! i = map (byte_at d' (fs_dev s)) [?b + i * 64..<?b + i * 64 + 64]"
  proof (cases "i = slot")
    case True
    have "map (byte_at d' (fs_dev s)) [?b + i * 64..<?b + i * 64 + 64] = e"
      by (rule nth_equalityI) (use p True len in \<open>auto simp: patched_def\<close>)
    with True slot show ?thesis by simp
  next
    case False
    then have "i * 64 + 64 \<le> slot * 64 \<or> slot * 64 + 64 \<le> i * 64" by linarith
    then have "byte_at d' (fs_dev s) a = byte_at d (fs_dev s) a" if "?b + i * 64 \<le> a" "a < ?b + i * 64 + 64" for a
      using p len that unfolding patched_def by auto
    then have "map (byte_at d' (fs_dev s)) [?b + i * 64..<?b + i * 64 + 64] = map (byte_at d (fs_dev s)) [?b + i * 64..<?b + i * 64 + 64]"
      by (intro map_cong) auto
    with on i False show ?thesis by (simp add: entries_on_disk_def)
  qed
  then show "fs_dir (s\<lparr>fs_dir := (fs_dir s)[slot := e]\<rparr>) ! i =
      map (byte_at d' (fs_dev (s\<lparr>fs_dir := (fs_dir s)[slot := e]\<rparr>)))
        [fs_dir_start (s\<lparr>fs_dir := (fs_dir s)[slot := e]\<rparr>) * 512 + i * 64..<
          fs_dir_start (s\<lparr>fs_dir := (fs_dir s)[slot := e]\<rparr>) * 512 + i * 64 + 64]" by simp
qed

lemma on_disk_iff:
  assumes "table_ok s"
  shows "on_disk s d \<longleftrightarrow> (let sb = dk_sectors d (fs_dev s) 0 in
    superblock_check (bs_block_count (dk_devices d (fs_dev s))) sb = FS_OK \<and>
    fs_total s = rd64le sb 16 \<and> fs_dir_start s = rd64le sb 24 \<and> fs_dir_blocks s = rd64le sb 32 \<and>
    fs_data_start s = rd64le sb 40 \<and> fs_data_blocks s = rd64le sb 48) \<and> entries_on_disk s d"
proof -
  have "length (fs_dir s) = fs_dir_blocks s * 8" using assms by (simp add: table_ok_def FS_DIR_ENTRIES_PER_BLOCK_def)
  from entries_on_disk_iff [OF this, of d] show ?thesis unfolding on_disk_def Let_def by blast
qed

lemma on_disk_data:
  assumes on: "on_disk s d" and g: "geometry_ok s" and t: "table_ok s" and fr: "frame (fs_dev s) L d d'"
    and L: "L \<subseteq> {fs_data_start s..<data_end s}"
  shows "on_disk s d'"
proof -
  have out: "0 \<notin> L" "\<And>b. fs_dir_start s \<le> b \<Longrightarrow> b < fs_dir_start s + fs_dir_blocks s \<Longrightarrow> b \<notin> L"
    using L g by (auto simp: geometry_ok_def data_end_def)
  have sb: "dk_sectors d' (fs_dev s) 0 = dk_sectors d (fs_dev s) 0" "dk_devices d' = dk_devices d"
    using fr out(1) by (simp_all add: frame_def)
  have "byte_at d' (fs_dev s) a = byte_at d (fs_dev s) a"
    if "i < length (fs_dir s)" "fs_dir_start s * 512 + i * 64 \<le> a" "a < fs_dir_start s * 512 + i * 64 + 64" for a i
  proof (rule frame_byte [OF fr out(2)])
    have "(i + 1) * 64 \<le> fs_dir_blocks s * 8 * 64"
      using that(1) t by (intro mult_le_mono1) (simp add: table_ok_def FS_DIR_ENTRIES_PER_BLOCK_def)
    then have a: "fs_dir_start s * 512 \<le> a" "a < (fs_dir_start s + fs_dir_blocks s) * 512" using that by simp_all
    have "fs_dir_start s * 512 div 512 \<le> a div 512" using a(1) by (rule div_le_mono)
    then show "fs_dir_start s \<le> a div 512" by simp
    show "a div 512 < fs_dir_start s + fs_dir_blocks s" using a(2) by (rule less_mult_imp_div_less)
  qed
  then have "map (byte_at d' (fs_dev s)) [fs_dir_start s * 512 + i * 64..<fs_dir_start s * 512 + i * 64 + 64] =
      map (byte_at d (fs_dev s)) [fs_dir_start s * 512 + i * 64..<fs_dir_start s * 512 + i * 64 + 64]"
    if "i < length (fs_dir s)" for i
    using that by (intro map_cong) auto
  then have "entries_on_disk s d \<Longrightarrow> entries_on_disk s d'" unfolding entries_on_disk_def by metis
  with on show ?thesis unfolding on_disk_iff [OF t] Let_def sb by blast
qed

section \<open>Every operation keeps the invariant\<close>

text \<open>With a drive whose failed writes change nothing, the disk also holds the directory.\<close>

definition fs_inv :: "fs \<Rightarrow> disk \<Rightarrow> bool" where
  "fs_inv s d \<longleftrightarrow> fs_ok s d \<and> (fs_is_mounted s \<longrightarrow> clean d \<longrightarrow> on_disk s d)"

lemma fs_ok_frame: "fs_ok s d \<Longrightarrow> frame (fs_dev s) L d d' \<Longrightarrow> fs_ok s d'"
  by (auto simp: fs_ok_def frame_def device_ok_def)

lemma fs_ok_mounted: "fs_ok s d \<Longrightarrow> fs_is_mounted s \<Longrightarrow> geometry_ok s \<and> table_ok s \<and> device_ok s d \<and> handles_ok s \<and> disk_ok d"
  by (simp add: fs_ok_def)

lemma fs_inv_data:
  assumes "fs_inv s d" and "fs_is_mounted s" and "frame (fs_dev s) L d d'" and "L \<subseteq> {fs_data_start s..<data_end s}"
  shows "fs_inv s d'"
  using assms fs_ok_frame [of s d L d'] on_disk_data [of s d L d'] fs_ok_mounted [of s d] clean_frame [OF assms(3)]
  by (auto simp: fs_inv_def)

lemma fs_inv_read:
  assumes inv: "fs_inv s d" and fr: "frame v {} d d'"
  shows "fs_inv s d'"
proof -
  have same: "dk_sectors d' = dk_sectors d" "dk_devices d' = dk_devices d" "disk_ok d'" "clean d' = clean d"
    using fr clean_frame [OF fr] by (simp_all add: frame_def fun_eq_iff)
  have "on_disk s d' = on_disk s d" unfolding on_disk_def same frame_empty_byte [OF fr] by (rule refl)
  moreover have "device_ok s d' = device_ok s d" unfolding device_ok_def same by (rule refl)
  ultimately show ?thesis using inv same unfolding fs_inv_def fs_ok_def by simp
qed

lemma on_disk_dir_write:
  assumes on: "on_disk s d" and ok: "geometry_ok s" "table_ok s" "disk_ok d" and len: "length e = 64"
    and w: "dir_write_slot slot e s d = (FS_OK, s', d')" and t: "table_ok s'"
  shows "on_disk s' d'"
proof -
  note dw = dir_write_result [OF w ok(3) len]
  have s: "slot < length (fs_dir s)" "s' = s\<lparr>fs_dir := (fs_dir s)[slot := e]\<rparr>" using dw(2) by simp_all
  have "entries_on_disk s' d'"
    using entries_update [OF _ s(1) len dir_write_patched [OF w ok(3) len]] on unfolding s(2) on_disk_iff [OF ok(2)] by blast
  moreover have "slot_block s slot \<noteq> 0" using ok(1) by (simp add: slot_block_def geometry_ok_def)
  then have "dk_sectors d' (fs_dev s) 0 = dk_sectors d (fs_dev s) 0" "dk_devices d' = dk_devices d"
    using dw(1) s(1) by (auto simp: frame_def)
  ultimately show ?thesis using on unfolding on_disk_iff [OF t] on_disk_iff [OF ok(2)] Let_def by (simp add: s(2))
qed

lemma dir_write_inv:
  assumes inv: "fs_inv s d" and m: "fs_is_mounted s" and len: "length e = 64"
    and w: "dir_write_slot slot e s d = (FS_OK, s', d')" and t: "table_ok (s\<lparr>fs_dir := (fs_dir s)[slot := e]\<rparr>)"
    and h: "\<And>k sl. h k = Some sl \<Longrightarrow> live_file (s\<lparr>fs_dir := (fs_dir s)[slot := e]\<rparr>) sl"
  shows "fs_inv (s'\<lparr>fs_handles := h\<rparr>) d'"
proof -
  have ok: "fs_ok s d" using inv by (simp add: fs_inv_def)
  note mo = fs_ok_mounted [OF ok m]
  note dw = dir_write_result [OF w _ len]
  have s: "s' = s\<lparr>fs_dir := (fs_dir s)[slot := e]\<rparr>" "frame (fs_dev s) {slot_block s slot} d d'" using dw mo by auto
  have "fs_ok s d'" by (rule fs_ok_frame [OF ok s(2)])
  then have "fs_ok (s'\<lparr>fs_handles := h\<rparr>) d'"
    using m t h by (auto simp: fs_ok_def s(1) geometry_ok_def table_ok_def device_ok_def handles_ok_def live_file_def)
  moreover have "on_disk (s'\<lparr>fs_handles := h\<rparr>) d'" if "clean d'"
  proof -
    have "on_disk s d" using inv m that clean_frame [OF s(2)] by (simp add: fs_inv_def)
    then have "on_disk s' d'" using on_disk_dir_write [OF _ _ _ _ len w] mo t s(1) by simp
    then show ?thesis by (simp add: on_disk_def)
  qed
  ultimately show ?thesis by (simp add: fs_inv_def)
qed

lemma dir_write_fails:
  assumes inv: "fs_inv s d" and m: "fs_is_mounted s" and len: "length e = 64"
    and w: "dir_write_slot slot e s d = (r, s', d')" and r: "r \<noteq> FS_OK"
  shows "s' = s" "fs_inv s d'"
proof -
  have ok: "fs_ok s d" "disk_ok d" using inv by (simp_all add: fs_inv_def fs_ok_def)
  note dw = dir_write_result [OF w ok(2) len]
  show "s' = s" using dw(3) r by simp
  have "dk_sectors d' = dk_sectors d" "dk_devices d' = dk_devices d" if "clean d'"
    using dw(1,3) r that clean_frame [OF dw(1)] by (simp_all add: frame_def)
  then have "clean d' \<Longrightarrow> on_disk s d \<Longrightarrow> on_disk s d'" by (simp add: on_disk_def byte_at_def [abs_def])
  then show "fs_inv s d'"
    using inv fs_ok_frame [OF ok(1) dw(1)] clean_frame [OF dw(1)] by (simp add: fs_inv_def)
qed

lemma live_slot_kept:
  assumes "live_file s sl" and "sl \<noteq> slot \<or> \<not> entry_free e \<and> entry_type e = FS_TYPE_FILE"
  shows "live_file (s\<lparr>fs_dir := (fs_dir s)[slot := e]\<rparr>) sl"
  using assms by (cases "sl = slot") (auto simp: live_file_def)

lemma grown_live:
  assumes "table_ok s" and "live_file s slot" and "grown s slot e fin"
  shows "\<not> entry_free e \<and> entry_type e = FS_TYPE_FILE" "name_len e = name_len (fs_dir s ! slot)" "entry_key e = entry_key (fs_dir s ! slot)"
proof -
  have v: "entry_valid (fs_data_start s) (fs_data_blocks s) (fs_dir s ! slot)" "length (fs_dir s ! slot) = 64"
    using table_entry [OF assms(1)] assms(2) by (simp_all add: live_file_def)
  have g: "length e = 64" "take 40 e = take 40 (fs_dir s ! slot)" using assms(3) by (simp_all add: grown_def)
  note hs = head_same [OF g(2)]
  show "name_len e = name_len (fs_dir s ! slot)" "entry_key e = entry_key (fs_dir s ! slot)"
    using hs g v by (simp_all add: entry_key_def)
  show "\<not> entry_free e \<and> entry_type e = FS_TYPE_FILE"
    using live_not_free [of e] hs g v valid_live [OF v(1)] assms(2) by (simp add: live_file_def)
qed

lemma handles_inv:
  assumes inv: "fs_inv s d" and m: "fs_is_mounted s" and h: "\<And>k sl. h k = Some sl \<Longrightarrow> live_file s sl"
  shows "fs_inv (s\<lparr>fs_generations := g, fs_handles := h\<rparr>) d"
proof -
  let ?s = "s\<lparr>fs_generations := g, fs_handles := h\<rparr>"
  have "geometry_ok ?s = geometry_ok s" "table_ok ?s = table_ok s" "device_ok ?s d = device_ok s d" "on_disk ?s d = on_disk s d"
    by (simp_all add: geometry_ok_def table_ok_def device_ok_def on_disk_def)
  moreover have "handles_ok ?s" using h by (simp add: handles_ok_def live_file_def)
  ultimately show ?thesis using inv m by (simp add: fs_inv_def fs_ok_def)
qed

lemma resolve_loop_error: "resolve_loop dir key rest = Inl r \<Longrightarrow> r \<noteq> FS_OK"
proof (induction dir key rest rule: resolve_loop.induct)
  case (1 dir key rest)
  show ?case
    using 1(2) 1(1) [OF refl]
    by (subst (asm) resolve_loop.simps) (auto simp: Let_def split: list.splits option.splits if_splits)
qed

lemma resolve_error: "resolve dir p = Inl r \<Longrightarrow> r \<noteq> FS_OK"
  by (auto simp: resolve_def resolve_loop_error split: if_splits sum.splits)

lemma create_loop_error: "create_loop dir key rest = Inl r \<Longrightarrow> r \<noteq> FS_OK"
proof (induction dir key rest rule: create_loop.induct)
  case (1 dir key rest)
  show ?case
    using 1(2) 1(1) [OF refl]
    by (subst (asm) create_loop.simps) (auto simp: Let_def split: list.splits option.splits if_splits)
qed

lemma open_inv:
  assumes o: "fs_open path out s = (r, h, s')" and inv: "fs_inv s d"
  shows "fs_inv s' d"
proof (cases "r = FS_OK")
  case False
  with o have "s' = s" by (auto simp: fs_open_def Let_def split: if_splits sum.splits option.splits)
  with inv show ?thesis by simp
next
  case True
  then have c: "fs_is_mounted s" "fs_path_ok path"
    using o by (auto simp: fs_open_def split: if_splits)
  then obtain p where p: "path = Some p" by (auto simp: fs_path_ok_def split: option.splits)
  note mo = fs_ok_mounted [OF conjunct1 [OF inv [unfolded fs_inv_def]] c(1)]
  from o True c p obtain slot k g where res: "resolve (fs_dir s) p = Inr (Some slot)" "entry_type (fs_dir s ! slot) = FS_TYPE_FILE"
      "s' = s\<lparr>fs_generations := (fs_generations s)(k := g), fs_handles := (fs_handles s)(k := Some slot)\<rparr>"
    using resolve_error [of "fs_dir s" p] by (auto simp: fs_open_def Let_def split: if_splits sum.splits option.splits)
  have "length p \<noteq> 1" using res(1) by (auto simp: resolve_def)
  then have "find_key (fs_dir s) (tl p) = Some slot"
    using resolve_found [of "fs_data_start s" "fs_data_blocks s" "fs_dir s" p slot] mo c(2) p res(1) by (simp add: table_ok_def)
  then have "live_file s slot" using res(2) by (simp add: live_file_def find_key_Some entry_named_def)
  then show ?thesis
    unfolding res(3) using mo by (intro handles_inv [OF inv c(1)]) (auto simp: handles_ok_def split: if_splits)
qed

lemma close_inv:
  assumes "fs_close handle s = (r, s')" and "fs_inv s d"
  shows "fs_inv s' d"
proof (cases "decode_handle s handle")
  case None
  with assms show ?thesis by (simp add: fs_close_def)
next
  case (Some k)
  have ok: "fs_ok s d" using assms(2) by (simp add: fs_inv_def)
  note hl = handle_live [OF ok Some]
  have "s' = s\<lparr>fs_generations := fs_generations s, fs_handles := (fs_handles s)(k := None)\<rparr>"
    using assms(1) Some by (simp add: fs_close_def)
  moreover have "fs_inv (s\<lparr>fs_generations := fs_generations s, fs_handles := (fs_handles s)(k := None)\<rparr>) d"
    using fs_ok_mounted [OF ok hl(1)] by (intro handles_inv [OF assms(2) hl(1)]) (auto simp: handles_ok_def split: if_splits)
  ultimately show ?thesis by simp
qed

lemma read_frame:
  assumes "fs_read handle offset buf len s d = (r, n, bytes, d')" and "disk_ok d"
  shows "frame (fs_dev s) {} d d'"
proof (cases "d' = d")
  case False
  with assms(1) obtain m cur pos ok fin where
    "read_loop (fs_dev s) buf m 0 cur pos [] d = (ok, fin, bytes, d')" "pos < 512"
    by (auto simp: fs_read_def Let_def split: option.splits if_splits prod.splits)
  from read_loop_result [OF this(1) assms(2) this(2)] show ?thesis by simp
qed (simp add: assms frame_refl)

lemma create_inv:
  assumes c: "fs_create path s d = (r, s', d')" and inv: "fs_inv s d"
  shows "fs_inv s' d'" "r = FS_OK \<Longrightarrow> \<exists>slot. fs_is_mounted s \<and> fs_path_ok path \<and> length (the path) \<noteq> 1 \<and>
      slot < length (fs_dir s) \<and> entry_free (fs_dir s ! slot) \<and> find_key (fs_dir s) (tl (the path)) = None \<and>
      s' = s\<lparr>fs_dir := (fs_dir s)[slot := empty_file (tl (the path))]\<rparr> \<and> frame (fs_dev s) {slot_block s slot} d d'"
    "r \<noteq> FS_OK \<Longrightarrow> s' = s \<and> (d' = d \<or> (\<exists>slot < length (fs_dir s). frame (fs_dev s) {slot_block s slot} d d'))"
proof -
  let ?ok = "\<exists>slot. fs_is_mounted s \<and> fs_path_ok path \<and> length (the path) \<noteq> 1 \<and> slot < length (fs_dir s) \<and>
      entry_free (fs_dir s ! slot) \<and> find_key (fs_dir s) (tl (the path)) = None \<and>
      s' = s\<lparr>fs_dir := (fs_dir s)[slot := empty_file (tl (the path))]\<rparr> \<and> frame (fs_dev s) {slot_block s slot} d d'"
  let ?fail = "s' = s \<and> (d' = d \<or> (\<exists>slot < length (fs_dir s). frame (fs_dev s) {slot_block s slot} d d'))"
  have "fs_inv s' d' \<and> (r = FS_OK \<longrightarrow> ?ok) \<and> (r \<noteq> FS_OK \<longrightarrow> ?fail)"
  proof (cases "\<exists>key slot. fs_is_mounted s \<and> fs_path_ok path \<and> length (the path) \<noteq> 1 \<and>
      create_loop (fs_dir s) [] (tl (the path)) = Inr key \<and>
      find (\<lambda>i. entry_free (fs_dir s ! i)) [0..<length (fs_dir s)] = Some slot")
    case False
    have "s' = s \<and> d' = d \<and> r \<noteq> FS_OK"
    proof (cases "create_loop (fs_dir s) [] (tl (the path))")
      case (Inl x)
      then have "x \<noteq> FS_OK" by (rule create_loop_error)
      with c Inl show ?thesis by (auto simp: fs_create_def split: if_splits)
    next
      case (Inr key)
      with c False show ?thesis by (auto simp: fs_create_def split: if_splits option.splits)
    qed
    with inv show ?thesis by simp
  next
    case True
    then obtain p key slot where t: "fs_is_mounted s" "path = Some p" "fs_path_ok (Some p)" "length p \<noteq> 1"
        "create_loop (fs_dir s) [] (tl p) = Inr key" "slot < length (fs_dir s)" "entry_free (fs_dir s ! slot)"
        "find (\<lambda>i. entry_free (fs_dir s ! i)) [0..<length (fs_dir s)] = Some slot"
      by (auto simp: fs_path_ok_def find_upt_Some split: option.splits)
    have ok: "fs_ok s d" using inv by (simp add: fs_inv_def)
    note mo = fs_ok_mounted [OF ok t(1)]
    have w: "dir_write_slot slot (empty_file key) s d = (r, s', d')" using c t by (simp add: fs_create_def)
    have tok: "table_ok s" using mo by simp
    note tc = table_create [OF tok t(3,4,5,6,7)] and dw = dir_write_result [OF w]
    have len: "length (empty_file key) = 64" by (rule tc(4))
    show ?thesis
    proof (cases "r = FS_OK")
      case False
      have "frame (fs_dev s) {slot_block s slot} d d'" using dw(1) mo len t(6) by simp
      then have ?fail using dir_write_fails(1) [OF inv t(1) len w False] t(6) by blast
      with dir_write_fails [OF inv t(1) len w False] False show ?thesis by blast
    next
      case r: True
      have s': "s' = s\<lparr>fs_dir := (fs_dir s)[slot := empty_file key]\<rparr>" using dw(2) mo len r by blast
      have "live_file (s\<lparr>fs_dir := (fs_dir s)[slot := empty_file key]\<rparr>) sl" if "fs_handles s k = Some sl" for k sl
        using mo that t(7) by (intro live_slot_kept) (auto simp: handles_ok_def live_file_def)
      then have "fs_inv (s'\<lparr>fs_handles := fs_handles s\<rparr>) d'"
        using tc(1) by (intro dir_write_inv [OF inv t(1) len w [unfolded r]]) blast+
      moreover have "s'\<lparr>fs_handles := fs_handles s\<rparr> = s'" by (simp add: s')
      moreover have fr: "frame (fs_dev s) {slot_block s slot} d d'" using dw(1) mo len t(6) by simp
      have ?ok
        by (rule exI [of _ slot]) (use t(1,2,3,4,6,7) tc(2,3) fr s' in simp)
      ultimately show ?thesis using r by simp
    qed
  qed
  then show "fs_inv s' d'" "r = FS_OK \<Longrightarrow> ?ok" "r \<noteq> FS_OK \<Longrightarrow> ?fail" by blast+
qed

lemma unlink_inv:
  assumes u: "fs_unlink path s d = (r, s', d')" and inv: "fs_inv s d"
  shows "fs_inv s' d'" "r = FS_OK \<Longrightarrow> \<exists>slot. fs_is_mounted s \<and> fs_path_ok path \<and> length (the path) \<noteq> 1 \<and>
      find_key (fs_dir s) (tl (the path)) = Some slot \<and> live_file s slot \<and>
      s' = s\<lparr>fs_dir := (fs_dir s)[slot := replicate 64 NUL],
        fs_handles := (\<lambda>k. if fs_handles s k = Some slot then None else fs_handles s k)\<rparr> \<and>
      frame (fs_dev s) {slot_block s slot} d d'"
    "r \<noteq> FS_OK \<Longrightarrow> s' = s \<and> (d' = d \<or> (\<exists>slot < length (fs_dir s). frame (fs_dev s) {slot_block s slot} d d'))"
proof -
  let ?ok = "\<exists>slot. fs_is_mounted s \<and> fs_path_ok path \<and> length (the path) \<noteq> 1 \<and>
      find_key (fs_dir s) (tl (the path)) = Some slot \<and> live_file s slot \<and>
      s' = s\<lparr>fs_dir := (fs_dir s)[slot := replicate 64 NUL],
        fs_handles := (\<lambda>k. if fs_handles s k = Some slot then None else fs_handles s k)\<rparr> \<and>
      frame (fs_dev s) {slot_block s slot} d d'"
  let ?fail = "s' = s \<and> (d' = d \<or> (\<exists>slot < length (fs_dir s). frame (fs_dev s) {slot_block s slot} d d'))"
  have "fs_inv s' d' \<and> (r = FS_OK \<longrightarrow> ?ok) \<and> (r \<noteq> FS_OK \<longrightarrow> ?fail)"
  proof (cases "\<exists>slot. fs_is_mounted s \<and> fs_path_ok path \<and> resolve (fs_dir s) (the path) = Inr (Some slot) \<and>
      entry_type (fs_dir s ! slot) = FS_TYPE_FILE")
    case False
    have "s' = s \<and> d' = d \<and> r \<noteq> FS_OK"
      using u False resolve_error [of "fs_dir s" "the path"]
      by (auto simp: fs_unlink_def split: if_splits sum.splits option.splits)
    with inv show ?thesis by simp
  next
    case True
    then obtain p slot where t: "fs_is_mounted s" "path = Some p" "fs_path_ok (Some p)" "resolve (fs_dir s) p = Inr (Some slot)"
        "entry_type (fs_dir s ! slot) = FS_TYPE_FILE"
      by (auto simp: fs_path_ok_def split: option.splits)
    have ok: "fs_ok s d" using inv by (simp add: fs_inv_def)
    note mo = fs_ok_mounted [OF ok t(1)]
    have p1: "length p \<noteq> 1" using t(4) by (auto simp: resolve_def)
    have f: "find_key (fs_dir s) (tl p) = Some slot"
      using resolve_found [OF _ t(3) p1] mo t(4) by (auto simp: table_ok_def)
    then have live: "live_file s slot" using t(5) by (simp add: live_file_def find_key_Some entry_named_def)
    then have lt: "slot < length (fs_dir s)" by (simp add: live_file_def)
    obtain r1 s1 where w: "dir_write_slot slot (replicate 64 NUL) s d = (r1, s1, d')"
      and r1: "r = r1" "r1 \<noteq> FS_OK \<Longrightarrow> s' = s1"
      "r1 = FS_OK \<Longrightarrow> s' = s1\<lparr>fs_handles := (\<lambda>k. if fs_handles s1 k = Some slot then None else fs_handles s1 k)\<rparr>"
      using u t by (auto simp: fs_unlink_def split: prod.splits if_splits)
    have len: "length (replicate 64 NUL) = 64" by simp
    note dw = dir_write_result [OF w _ len]
    show ?thesis
    proof (cases "r1 = FS_OK")
      case False
      have "frame (fs_dev s) {slot_block s slot} d d'" using dw(1) mo lt by simp
      then have ?fail using dir_write_fails(1) [OF inv t(1) len w False] r1(2) [OF False] lt by blast
      moreover have "fs_inv s' d'" using dir_write_fails [OF inv t(1) len w False] r1(2) [OF False] by simp
      ultimately show ?thesis using False r1(1) by blast
    next
      case ok1: True
      have s1: "s1 = s\<lparr>fs_dir := (fs_dir s)[slot := replicate 64 NUL]\<rparr>" using dw(2) mo ok1 by blast
      let ?h = "\<lambda>k. if fs_handles s k = Some slot then None else fs_handles s k"
      have "live_file (s\<lparr>fs_dir := (fs_dir s)[slot := replicate 64 NUL]\<rparr>) sl" if "?h k = Some sl" for k sl
        using mo that by (intro live_slot_kept) (auto simp: handles_ok_def split: if_splits)
      then have "fs_inv (s1\<lparr>fs_handles := ?h\<rparr>) d'"
        using table_free [OF _ live] mo by (intro dir_write_inv [OF inv t(1) len w [unfolded ok1]]) blast+
      moreover have s': "s' = s\<lparr>fs_dir := (fs_dir s)[slot := replicate 64 NUL], fs_handles := ?h\<rparr>" "s' = s1\<lparr>fs_handles := ?h\<rparr>"
      proof -
        have h1: "fs_handles s1 = fs_handles s" by (simp add: s1)
        show "s' = s1\<lparr>fs_handles := ?h\<rparr>" using r1(3) [OF ok1] unfolding h1 .
        then show "s' = s\<lparr>fs_dir := (fs_dir s)[slot := replicate 64 NUL], fs_handles := ?h\<rparr>" by (simp add: s1)
      qed
      moreover have "frame (fs_dev s) {slot_block s slot} d d'" using dw(1) mo lt by simp
      moreover have ?ok
        using t(1,2,3) p1 f live s'(1) \<open>frame (fs_dev s) {slot_block s slot} d d'\<close> by (intro exI [of _ slot]) simp
      ultimately show ?thesis using r1(1) ok1 by simp
    qed
  qed
  then show "fs_inv s' d'" "r = FS_OK \<Longrightarrow> ?ok" "r \<noteq> FS_OK \<Longrightarrow> ?fail" by blast+
qed

lemma write_inv:
  assumes w: "fs_write handle offset buf bytes s d = (r, n, s', d')" and inv: "fs_inv s d"
  shows "fs_inv s' d'"
proof -
  have ok: "fs_ok s d" using inv by (simp add: fs_inv_def)
  show ?thesis
    using w ok
  proof (cases rule: fs_write_outcome)
    case refused
    with inv show ?thesis by simp
  next
    case (wrote slot)
    note hl = handle_live [OF ok wrote(1)]
    have live: "live_file s slot" using hl(5) wrote(2) by simp
    from wrote(6) obtain L d1 where L: "frame (fs_dev s) L d d1" "apart_others s slot L"
      "d' = d1 \<and> stays s slot offset bytes d r n s' d' \<or> replaced s slot offset bytes d d1 r n s' d'"
      by (auto simp: write_outcome_def)
    have inv1: "fs_inv s d1" using fs_inv_data [OF inv hl(1) L(1)] L(2) by (simp add: apart_others_def)
    from L(3) show ?thesis
    proof
      assume "d' = d1 \<and> stays s slot offset bytes d r n s' d'"
      with inv1 show ?thesis by (simp add: stays_def)
    next
      assume "replaced s slot offset bytes d d1 r n s' d'"
      then obtain e where e: "grown s slot e (offset + length bytes)" "dir_write_slot slot e s d1 = (r, s', d')"
        by (auto simp: replaced_def)
      have len: "length e = 64" using e(1) by (simp add: grown_def)
      show ?thesis
      proof (cases "r = FS_OK")
        case False
        with dir_write_fails [OF inv1 hl(1) len e(2)] show ?thesis by simp
      next
        case True
        have t: "table_ok (s\<lparr>fs_dir := (fs_dir s)[slot := e]\<rparr>)"
          using grown_table [OF hl(2,3) live e(1)] wrote(3) by simp
        have "live_file (s\<lparr>fs_dir := (fs_dir s)[slot := e]\<rparr>) sl" if "fs_handles s k = Some sl" for k sl
          using fs_ok_mounted [OF ok hl(1)] that grown_live(1) [OF hl(3) live e(1)]
          by (intro live_slot_kept) (auto simp: handles_ok_def)
        then have "fs_inv (s'\<lparr>fs_handles := fs_handles s\<rparr>) d'"
          by (intro dir_write_inv [OF inv1 hl(1) len e(2) [unfolded True] t]) blast
        moreover have "s'\<lparr>fs_handles := fs_handles s\<rparr> = s'"
          using dir_write_result(2) [OF e(2) _ len] inv1 True by (simp add: fs_inv_def fs_ok_def)
        ultimately show ?thesis by simp
      qed
    qed
  qed
qed

lemma mount_outcome:
  assumes "fs_inv s d"
  obtains s1 d1 r s' d' where "fs_mount dev s d = Returns (r, s', d')" "fs_load dev s1 d1 = (r, s', d')" "unmounted s1 d1"
    "dk_sectors d1 = dk_sectors d" "dr_torn d1 = dr_torn d" "dr_result d1 = dr_result d"
    "\<And>v. bs_present (dk_devices d1 v) = bs_present (dk_devices d v) \<and>
      bs_block_count (dk_devices d1 v) = bs_block_count (dk_devices d v)"
proof -
  have ok: "fs_ok s d" using assms by (simp add: fs_inv_def)
  obtain d1 where r: "fs_revoke ''rollback_revoke'' s d = Returns (s\<lparr>fs_writable_authorized := False\<rparr>, d1)" "disk_ok d1"
    "dk_sectors d1 = dk_sectors d" "dr_torn d1 = dr_torn d" "dr_result d1 = dr_result d"
    "\<And>v. bs_present (dk_devices d1 v) = bs_present (dk_devices d v) \<and>
      bs_block_count (dk_devices d1 v) = bs_block_count (dk_devices d v)"
    using revoked [OF ok] by blast
  let ?s = "s\<lparr>fs_writable_authorized := False, fs_is_mounted := False, fs_handles := (\<lambda>_. None)\<rparr>"
  obtain x s' d' where l: "fs_load dev ?s d1 = (x, s', d')" by (metis prod_cases3)
  have "fs_mount dev s d = Returns (x, s', d')" using r(1) l by (simp add: fs_mount_def)
  then show thesis using l by (rule that) (use r in \<open>simp_all add: unmounted_def\<close>)
qed

lemma load_inv:
  assumes "fs_load dev s d = (r, s', d')" and "unmounted s d"
  shows "fs_inv s' d'"
  using load_outcome(1,2) [OF assms] by (cases "r = FS_OK") (auto simp: fs_inv_def unmounted_def fs_ok_def)

lemma unmount_inv:
  assumes "fs_inv s d"
  shows "\<exists>s' d'. fs_unmount s d = Returns (s', d') \<and> fs_inv s' d'"
proof -
  have ok: "fs_ok s d" using assms by (simp add: fs_inv_def)
  obtain d1 where "fs_revoke ''rollback_unmount'' s d = Returns (s\<lparr>fs_writable_authorized := False\<rparr>, d1)" "disk_ok d1"
    using revoked [OF ok] by blast
  then show ?thesis by (simp add: fs_unmount_def fs_inv_def fs_ok_def)
qed

section \<open>Sequences of calls\<close>

datatype fs_call = Mount nat | Unmount | Open "string option" bool | Read nat nat nat nat
  | Write nat nat nat string | Close nat | Create "string option" | Unlink "string option"

definition fs_boot :: fs where
  "fs_boot = \<lparr>fs_is_mounted = False, fs_dev = 0, fs_writable_authorized = False, fs_total = 0, fs_dir_start = 0,
    fs_dir_blocks = 0, fs_data_start = 0, fs_data_blocks = 0, fs_dir = [], fs_handles = (\<lambda>_. None), fs_generations = (\<lambda>_. 0)\<rparr>"

text \<open>What a call hands back: its result, the number it stores, and the bytes read.\<close>

datatype reply = Reply fs_result "nat option" string

fun fs_exec :: "fs_call \<Rightarrow> fs \<Rightarrow> disk \<Rightarrow> (reply \<times> fs \<times> disk) outcome" where
  "fs_exec (Mount dev) s d =
    (case fs_mount dev s d of Panics w \<Rightarrow> Panics w | Returns (r, s', d') \<Rightarrow> Returns (Reply r None [], s', d'))"
| "fs_exec Unmount s d =
    (case fs_unmount s d of Panics w \<Rightarrow> Panics w | Returns (s', d') \<Rightarrow> Returns (Reply FS_OK None [], s', d'))"
| "fs_exec (Open path out) s d = (case fs_open path out s of (r, h, s') \<Rightarrow> Returns (Reply r h [], s', d))"
| "fs_exec (Read handle offset buf len) s d =
    (case fs_read handle offset buf len s d of (r, n, bytes, d') \<Rightarrow> Returns (Reply r n bytes, s, d'))"
| "fs_exec (Write handle offset buf bytes) s d =
    (case fs_write handle offset buf bytes s d of (r, n, s', d') \<Rightarrow> Returns (Reply r n [], s', d'))"
| "fs_exec (Close handle) s d = (case fs_close handle s of (r, s') \<Rightarrow> Returns (Reply r None [], s', d))"
| "fs_exec (Create path) s d = (case fs_create path s d of (r, s', d') \<Rightarrow> Returns (Reply r None [], s', d'))"
| "fs_exec (Unlink path) s d = (case fs_unlink path s d of (r, s', d') \<Rightarrow> Returns (Reply r None [], s', d'))"

fun fs_run :: "fs_call list \<Rightarrow> fs \<Rightarrow> disk \<Rightarrow> (fs \<times> disk) outcome" where
  "fs_run [] s d = Returns (s, d)"
| "fs_run (c # cs) s d = (case fs_exec c s d of Panics w \<Rightarrow> Panics w | Returns (rep, s', d') \<Rightarrow> fs_run cs s' d')"

lemma exec_inv:
  assumes inv: "fs_inv s d"
  shows "\<exists>rep s' d'. fs_exec c s d = Returns (rep, s', d') \<and> fs_inv s' d'"
proof (cases c)
  case (Mount dev)
  from inv obtain s1 d1 r s' d' where "fs_mount dev s d = Returns (r, s', d')" "fs_load dev s1 d1 = (r, s', d')" "unmounted s1 d1"
    by (rule mount_outcome [where dev = dev])
  with load_inv Mount show ?thesis by fastforce
next
  case Unmount
  with unmount_inv [OF inv] show ?thesis by auto
next
  case (Read handle offset buf len)
  obtain r n bytes d' where rd: "fs_read handle offset buf len s d = (r, n, bytes, d')" by (metis prod_cases4)
  have "disk_ok d" using inv by (simp add: fs_inv_def fs_ok_def)
  from fs_inv_read [OF inv read_frame [OF rd this]] rd Read show ?thesis by simp
next
  case (Open path out)
  then show ?thesis using open_inv [OF _ inv] by (auto split: prod.split)
next
  case (Write handle offset buf bytes)
  then show ?thesis using write_inv [OF _ inv] by (auto split: prod.split)
next
  case (Close handle)
  then show ?thesis using close_inv [OF _ inv] by (auto split: prod.split)
next
  case (Create path)
  then show ?thesis using create_inv(1) [OF _ inv] by (auto split: prod.split)
next
  case (Unlink path)
  then show ?thesis using unlink_inv(1) [OF _ inv] by (auto split: prod.split)
qed

lemma run_fs_inv: "fs_inv s d \<Longrightarrow> \<exists>s' d'. fs_run cs s d = Returns (s', d') \<and> fs_inv s' d'"
proof (induction cs arbitrary: s d)
  case (Cons c cs)
  from exec_inv [OF Cons.prems, of c] Cons.IH show ?case by fastforce
qed simp

lemma boot_inv: "disk_ok d \<Longrightarrow> fs_inv fs_boot d"
  by (simp add: fs_inv_def fs_ok_def fs_boot_def)
end
