(* ===== verification/Fs_Spec.thy ===== *)
theory Fs_Spec
  imports Fs_Mount
begin

text \<open>
  What the file system promises, as a map from paths to directories and byte
  strings and a table of open handles, and that every call refines it.
\<close>

section \<open>The abstract file system\<close>

datatype node = Dir | File string

record fs_view =
  vw_files :: "string \<Rightarrow> node option"
  vw_open :: "nat \<Rightarrow> string option"

definition view_empty :: fs_view where
  "view_empty = \<lparr>vw_files = (\<lambda>_. None), vw_open = (\<lambda>_. None)\<rparr>"

definition written_at :: "string \<Rightarrow> nat \<Rightarrow> string \<Rightarrow> string" where
  "written_at c offset bytes = take offset c @ bytes @ drop (offset + length bytes) c"

text \<open>
  The views a call may leave behind. A path names a file without its leading
  slash. A failed call changes nothing, except that a write inside a file's own
  blocks that the drive gives up on may have damaged that file, not its length.
\<close>

fun fs_allows :: "fs_call \<Rightarrow> reply \<Rightarrow> fs_view \<Rightarrow> fs_view \<Rightarrow> bool" where
  "fs_allows (Mount dev) (Reply r n bytes) v v' \<longleftrightarrow> vw_open v' = (\<lambda>_. None) \<and> (r \<noteq> FS_OK \<longrightarrow> v' = view_empty)"
| "fs_allows Unmount (Reply r n bytes) v v' \<longleftrightarrow> v' = view_empty"
| "fs_allows (Open path out) (Reply r n bytes) v v' \<longleftrightarrow>
    (if r = FS_OK then \<exists>p c h. path = Some p \<and> vw_files v (tl p) = Some (File c) \<and> n = Some (h mod 2 ^ 32) \<and> vw_open v h = None \<and>
       v' = v\<lparr>vw_open := (vw_open v)(h := Some (tl p))\<rparr>
     else v' = v)"
| "fs_allows (Read handle offset buf len) (Reply r n bytes) v v' \<longleftrightarrow> v' = v \<and>
    (r = FS_OK \<longrightarrow> (\<exists>key c. vw_open v handle = Some key \<and> vw_files v key = Some (File c) \<and> offset \<le> length c \<and>
       bytes = take len (drop offset c) \<and> n = Some (length bytes)))"
| "fs_allows (Write handle offset buf data) (Reply r n bytes) v v' \<longleftrightarrow>
    (if r = FS_OK \<and> data \<noteq> [] then \<exists>key c. vw_open v handle = Some key \<and> vw_files v key = Some (File c) \<and> offset \<le> length c \<and>
       n = Some (length data) \<and> v' = v\<lparr>vw_files := (vw_files v)(key := Some (File (written_at c offset data)))\<rparr>
     else v' = v \<or> r = FS_IOERR \<and> (\<exists>key c c'. vw_open v handle = Some key \<and> vw_files v key = Some (File c) \<and>
       length c' = length c \<and> v' = v\<lparr>vw_files := (vw_files v)(key := Some (File c'))\<rparr>))"
| "fs_allows (Close handle) (Reply r n bytes) v v' \<longleftrightarrow>
    (if r = FS_OK then vw_open v handle \<noteq> None \<and> v' = v\<lparr>vw_open := (vw_open v)(handle := None)\<rparr> else v' = v)"
| "fs_allows (Create path) (Reply r n bytes) v v' \<longleftrightarrow>
    (if r = FS_OK then \<exists>p. path = Some p \<and> vw_files v (tl p) = None \<and>
       v' = v\<lparr>vw_files := (vw_files v)(tl p := Some (File []))\<rparr>
     else v' = v)"
| "fs_allows (Unlink path) (Reply r n bytes) v v' \<longleftrightarrow>
    (if r = FS_OK then \<exists>p c. path = Some p \<and> vw_files v (tl p) = Some (File c) \<and>
       v' = \<lparr>vw_files = (vw_files v)(tl p := None), vw_open = (\<lambda>h. if vw_open v h = Some (tl p) then None else vw_open v h)\<rparr>
     else v' = v)"

section \<open>The abstraction\<close>

definition content :: "fs \<Rightarrow> disk \<Rightarrow> string \<Rightarrow> string" where
  "content s d e = map (\<lambda>k. byte_at d (fs_dev s) (entry_first e * 512 + k)) [0..<entry_length e]"

definition node_of :: "fs \<Rightarrow> disk \<Rightarrow> string \<Rightarrow> node" where
  "node_of s d e = (if entry_type e = FS_TYPE_DIR then Dir else File (content s d e))"

definition files :: "fs \<Rightarrow> disk \<Rightarrow> string \<Rightarrow> node option" where
  "files s d key = (if fs_is_mounted s then map_option (\<lambda>i. node_of s d (fs_dir s ! i)) (find_key (fs_dir s) key) else None)"

definition opened :: "fs \<Rightarrow> nat \<Rightarrow> string option" where
  "opened s h = map_option (\<lambda>k. entry_key (fs_dir s ! the (fs_handles s k))) (decode_handle s h)"

definition view :: "fs \<Rightarrow> disk \<Rightarrow> fs_view" where
  "view s d = \<lparr>vw_files = files s d, vw_open = opened s\<rparr>"

lemma files_eq:
  assumes "fs_is_mounted s' = fs_is_mounted s" "fs_dir s' = fs_dir s" "fs_dev s' = fs_dev s" "byte_at d' (fs_dev s) = byte_at d (fs_dev s)"
  shows "files s' d' = files s d"
proof -
  have "node_of s' d' = node_of s d" by (intro ext) (simp add: node_of_def content_def assms)
  then show ?thesis by (intro ext) (simp add: files_def assms)
qed

lemma content_same:
  assumes "geometry_ok s" "table_ok s" "e \<in> set (fs_dir s)" "\<not> entry_free e" "entry_type e = FS_TYPE_FILE"
    and fr: "frame (fs_dev s) L d d'" and ap: "apart L e"
  shows "content s d' e = content s d e"
proof (cases "entry_count e = 0")
  case True
  then have "entry_length e = 0" using empty_extent(2) table_entry assms(2-5) by blast
  then show ?thesis by (simp add: content_def)
next
  case False
  then have x: "has_extent e" using assms(4,5) by (simp add: has_extent_def)
  note te = table_extent [OF assms(1,2,3) x]
  have "byte_at d' (fs_dev s) (entry_first e * 512 + k) = byte_at d (fs_dev s) (entry_first e * 512 + k)"
    if "k < entry_length e" for k
  proof (rule frame_byte [OF fr])
    have "k < entry_count e * 512" using that te(4) by simp
    then have "k div 512 < entry_count e" by (rule less_mult_imp_div_less)
    then have "(entry_first e * 512 + k) div 512 \<in> {entry_first e..<entry_first e + entry_count e}" by simp
    with ap x show "(entry_first e * 512 + k) div 512 \<notin> L" by (auto simp: apart_def)
  qed
  then show ?thesis by (simp add: content_def)
qed

lemma node_same:
  assumes "geometry_ok s" "table_ok s" "e \<in> set (fs_dir s)" "\<not> entry_free e" "frame (fs_dev s) L d d'" "apart L e"
  shows "node_of s d' e = node_of s d e"
proof (cases "entry_type e = FS_TYPE_DIR")
  case False
  then have "entry_type e = FS_TYPE_FILE" using table_entry [OF assms(2,3)] assms(4) by (auto simp: entry_valid_def split: if_splits)
  with content_same [OF assms(1-4) _ assms(5,6)] show ?thesis by (simp add: node_of_def)
qed (simp add: node_of_def)

lemma files_same:
  assumes "geometry_ok s" "table_ok s" "frame (fs_dev s) L d d'" and "\<And>e. e \<in> set (fs_dir s) \<Longrightarrow> apart L e"
  shows "files s d' = files s d"
proof
  fix key
  show "files s d' key = files s d key"
  proof (cases "find_key (fs_dir s) key")
    case (Some i)
    then have "fs_dir s ! i \<in> set (fs_dir s)" "\<not> entry_free (fs_dir s ! i)" by (simp_all add: find_key_Some entry_named_def)
    with node_same [OF assms(1,2) this assms(3,4)] Some show ?thesis by (simp add: files_def)
  qed (simp add: files_def)
qed

text \<open>One entry replaced: the table changes at one name.\<close>

lemma files_update:
  assumes m: "fs_is_mounted s" and g: "geometry_ok s" and t: "table_ok s" and fr: "frame (fs_dev s) L d d'"
    and others: "\<And>j. j < length (fs_dir s) \<Longrightarrow> j \<noteq> slot \<Longrightarrow> apart L (fs_dir s ! j)"
    and slot: "slot < length (fs_dir s)" and s': "s' = s\<lparr>fs_dir := (fs_dir s)[slot := e], fs_handles := h\<rparr>" and t': "table_ok s'"
    and old: "entry_free (fs_dir s ! slot) \<and> find_key (fs_dir s) key = None \<or> entry_named (fs_dir s ! slot) key"
    and new: "\<And>k. entry_named e k \<Longrightarrow> k = key"
  shows "files s' d' = (files s d)(key := (if entry_named e key then Some (node_of s d' e) else None))"
proof
  fix k
  have u: "find_key (fs_dir s) k = Some i \<longleftrightarrow> i < length (fs_dir s) \<and> entry_named (fs_dir s ! i) k"
    "find_key (fs_dir s') k = Some i \<longleftrightarrow> i < length (fs_dir s) \<and> entry_named (fs_dir s' ! i) k" for i k
    using find_key_unique t t' by (auto simp: table_ok_def s')
  have oldk: "k = key" if "entry_named (fs_dir s ! slot) k" for k
    using old that by (auto simp: entry_named_def)
  have nd: "node_of s' d' = node_of s d'" by (intro ext) (simp add: node_of_def content_def s')
  show "files s' d' k = ((files s d)(key := (if entry_named e key then Some (node_of s d' e) else None))) k"
  proof (cases "k = key")
    case True
    show ?thesis
    proof (cases "entry_named e key")
      case True
      then have "find_key (fs_dir s') key = Some slot" using u(2) slot by (simp add: s')
      with True \<open>k = key\<close> m slot show ?thesis by (simp add: files_def s' nd [unfolded s'])
    next
      case False
      have "find_key (fs_dir s') key \<noteq> Some i" for i
      proof
        assume "find_key (fs_dir s') key = Some i"
        then have i: "i < length (fs_dir s)" "entry_named (fs_dir s' ! i) key" using u(2) by simp_all
        with False have "i \<noteq> slot" by (auto simp: s' slot)
        with i have "find_key (fs_dir s) key = Some i" using u(1) by (simp add: s')
        with old u(1) [of key slot] slot \<open>i \<noteq> slot\<close> show False by auto
      qed
      then have "find_key (fs_dir s') key = None" by (cases "find_key (fs_dir s') key") auto
      with False \<open>k = key\<close> show ?thesis by (simp add: files_def)
    qed
  next
    case False
    have "find_key (fs_dir s') k = Some i \<longleftrightarrow> find_key (fs_dir s) k = Some i" for i
      unfolding u using False new [of k] oldk [of k] slot by (cases "i = slot") (auto simp: s')
    then have eq: "find_key (fs_dir s') k = find_key (fs_dir s) k" by (metis option.exhaust)
    show ?thesis
    proof (cases "find_key (fs_dir s) k")
      case None
      with False eq m show ?thesis by (simp add: files_def)
    next
      case (Some i)
      then have i: "i < length (fs_dir s)" "entry_named (fs_dir s ! i) k" using u(1) by simp_all
      with False oldk have ne: "i \<noteq> slot" by auto
      have "node_of s d' (fs_dir s ! i) = node_of s d (fs_dir s ! i)"
        using node_same [OF g t _ _ fr others] i ne by (simp add: entry_named_def)
      then show ?thesis using False eq Some ne m by (simp add: files_def s' nd [unfolded s'])
    qed
  qed
qed

section \<open>Directory changes\<close>

lemma dir_block_apart:
  assumes g: "geometry_ok s" and t: "table_ok s" and slot: "slot < length (fs_dir s)" and e: "e \<in> set (fs_dir s)"
  shows "apart {slot_block s slot} e"
  unfolding apart_def
proof
  assume x: "has_extent e"
  note te = table_extent [OF g t e x]
  have "slot div 8 < fs_dir_blocks s"
    using slot t by (intro less_mult_imp_div_less) (simp add: table_ok_def FS_DIR_ENTRIES_PER_BLOCK_def)
  then have "fs_dir_start s \<le> slot_block s slot" "slot_block s slot < fs_dir_start s + fs_dir_blocks s"
    by (simp_all add: slot_block_def FS_DIR_ENTRIES_PER_BLOCK_def)
  with te g show "{slot_block s slot} \<inter> {entry_first e..<entry_first e + entry_count e} = {}"
    by (auto simp: geometry_ok_def data_end_def)
qed

lemma view_dir_block:
  assumes "fs_inv s d" and "fs_is_mounted s" and "d' = d \<or> (\<exists>slot < length (fs_dir s). frame (fs_dev s) {slot_block s slot} d d')"
  shows "view s d' = view s d"
proof -
  note mo = fs_ok_mounted [OF conjunct1 [OF assms(1) [unfolded fs_inv_def]] assms(2)]
  have "files s d' = files s d"
    using assms(3)
  proof
    assume "\<exists>slot < length (fs_dir s). frame (fs_dev s) {slot_block s slot} d d'"
    then obtain slot where x: "slot < length (fs_dir s)" "frame (fs_dev s) {slot_block s slot} d d'" by blast
    show ?thesis by (rule files_same [OF _ _ x(2)]) (use mo dir_block_apart [OF _ _ x(1)] in simp_all)
  qed simp
  then show ?thesis by (simp add: view_def)
qed

lemma opened_same:
  assumes "fs_is_mounted s' = fs_is_mounted s" "fs_handles s' = fs_handles s" "fs_generations s' = fs_generations s"
    and "\<And>k slot. fs_handles s k = Some slot \<Longrightarrow> entry_key (fs_dir s' ! slot) = entry_key (fs_dir s ! slot)"
  shows "opened s' = opened s"
proof
  fix h
  have eq: "decode_handle s' h = decode_handle s h" unfolding decode_handle_def assms(1,2,3) by (rule refl)
  show "opened s' h = opened s h"
  proof (cases "decode_handle s h")
    case (Some k)
    then obtain slot where "fs_handles s k = Some slot" by (auto simp: decode_handle_def Let_def split: if_splits)
    with Some eq assms(2,4) show ?thesis by (simp add: opened_def)
  qed (simp add: opened_def eq)
qed

lemma create_allowed:
  assumes c: "fs_create path s d = (r, s', d')" and inv: "fs_inv s d"
  shows "fs_allows (Create path) (Reply r None []) (view s d) (view s' d')"
proof (cases "r = FS_OK")
  case False
  from create_inv(3) [OF c inv False] have f: "s' = s" "d' = d \<or> (\<exists>slot < length (fs_dir s). frame (fs_dev s) {slot_block s slot} d d')"
    by simp_all
  have "view s d' = view s d"
  proof (cases "fs_is_mounted s")
    case True
    show ?thesis by (rule view_dir_block [OF inv True f(2)])
  qed (simp add: view_def files_def fun_eq_iff)
  with False f(1) show ?thesis by simp
next
  case True
  from create_inv(2) [OF c inv True] obtain slot where x: "fs_is_mounted s" "fs_path_ok path" "length (the path) \<noteq> 1"
    "slot < length (fs_dir s)" "entry_free (fs_dir s ! slot)" "find_key (fs_dir s) (tl (the path)) = None"
    "s' = s\<lparr>fs_dir := (fs_dir s)[slot := empty_file (tl (the path))]\<rparr>" "frame (fs_dev s) {slot_block s slot} d d'" by blast
  then obtain p where p: "path = Some p" by (auto simp: fs_path_ok_def split: option.splits)
  note mo = fs_ok_mounted [OF conjunct1 [OF inv [unfolded fs_inv_def]] x(1)]
  note pk = path_key [OF x(2) [unfolded p] x(3) [unfolded p option.sel]]
  note ef = empty_file_fields [OF pk(1,2,3)]
  let ?e = "empty_file (tl p)"
  have inv': "fs_inv s' d'" by (rule create_inv(1) [OF c inv])
  have mo': "table_ok s'" using fs_ok_mounted [of s' d'] inv' x(1,7) by (simp add: fs_inv_def)
  have n0: "name_len ?e \<noteq> 0" unfolding ef(2) using pk(2) by (metis length_0_conv)
  have nm: "entry_named ?e k \<longleftrightarrow> k = tl p" for k
    using ef(2,3) n0 live_not_free [OF n0 ef(1)] by (auto simp: entry_named_def simp del: length_tl)
  have s': "s' = s\<lparr>fs_dir := (fs_dir s)[slot := ?e], fs_handles := fs_handles s\<rparr>" using x(7) p by simp
  have tok: "table_ok s" using mo by simp
  have ap: "apart {slot_block s slot} (fs_dir s ! j)" if "j < length (fs_dir s)" for j
    using dir_block_apart [OF _ tok x(4)] mo that by simp
  have "files s' d' = (files s d)(tl p := (if entry_named ?e (tl p) then Some (node_of s d' ?e) else None))"
    by (rule files_update [OF x(1) _ tok x(8) ap x(4) s' mo']) (use mo x(5,6) p nm in auto)
  moreover have "node_of s d' ?e = File []" using ef by (simp add: node_of_def content_def FS_TYPE_FILE_def FS_TYPE_DIR_def)
  moreover have "opened s' = opened s"
  proof (rule opened_same)
    fix k sl assume "fs_handles s k = Some sl"
    then have "sl \<noteq> slot" using mo x(5) by (auto simp: handles_ok_def live_file_def)
    then show "entry_key (fs_dir s' ! sl) = entry_key (fs_dir s ! sl)" by (simp add: x(7))
  qed (simp_all add: x(7))
  moreover have "files s d (tl p) = None" using x(6) p by (simp add: files_def)
  ultimately show ?thesis using True p nm by (simp add: view_def)
qed

text \<open>A handle's name is the name of its slot.\<close>

lemma table_key:
  assumes "table_ok s" and "slot < length (fs_dir s)" and "\<not> entry_free (fs_dir s ! slot)"
  shows "entry_named (fs_dir s ! slot) k \<longleftrightarrow> k = entry_key (fs_dir s ! slot)"
proof -
  note te = table_entry [OF assms(1) nth_mem [OF assms(2)]]
  show ?thesis by (rule valid_named [OF conjunct1 [OF te] conjunct2 [OF te] assms(3)])
qed

lemma live_key:
  assumes "table_ok s" and "live_file s slot"
  shows "entry_named (fs_dir s ! slot) k \<longleftrightarrow> k = entry_key (fs_dir s ! slot)"
  using table_key [OF assms(1)] assms(2) by (simp add: live_file_def)

lemma live_found:
  assumes "table_ok s" and "live_file s slot"
  shows "find_key (fs_dir s) (entry_key (fs_dir s ! slot)) = Some slot"
  using find_key_unique [of "fs_data_start s" "fs_data_blocks s" "fs_dir s"] live_key [OF assms] assms
  by (simp add: table_ok_def live_file_def)

lemma live_node:
  assumes "live_file s slot"
  shows "node_of s d (fs_dir s ! slot) = File (content s d (fs_dir s ! slot))"
  using assms by (simp add: node_of_def live_file_def FS_TYPE_FILE_def FS_TYPE_DIR_def)

lemma live_files:
  assumes "fs_is_mounted s" "table_ok s" "live_file s slot"
  shows "files s d (entry_key (fs_dir s ! slot)) = Some (File (content s d (fs_dir s ! slot)))"
  using assms live_found [OF assms(2,3)] live_node [OF assms(3)] by (simp add: files_def)

lemma live_key_inj:
  assumes "table_ok s" "live_file s i" "live_file s j" "entry_key (fs_dir s ! i) = entry_key (fs_dir s ! j)"
  shows "i = j"
proof -
  have "Some i = find_key (fs_dir s) (entry_key (fs_dir s ! j))"
    unfolding assms(4) [symmetric] by (rule live_found [OF assms(1,2), symmetric])
  also have "\<dots> = Some j" by (rule live_found [OF assms(1,3)])
  finally show ?thesis by simp
qed

lemma unlink_allowed:
  assumes c: "fs_unlink path s d = (r, s', d')" and inv: "fs_inv s d"
  shows "fs_allows (Unlink path) (Reply r None []) (view s d) (view s' d')"
proof (cases "r = FS_OK")
  case False
  from unlink_inv(3) [OF c inv False] have f: "s' = s" "d' = d \<or> (\<exists>slot < length (fs_dir s). frame (fs_dev s) {slot_block s slot} d d')"
    by simp_all
  have "view s d' = view s d"
  proof (cases "fs_is_mounted s")
    case True
    show ?thesis by (rule view_dir_block [OF inv True f(2)])
  qed (simp add: view_def files_def fun_eq_iff)
  with False f(1) show ?thesis by simp
next
  case True
  let ?e = "replicate 64 NUL"
  from unlink_inv(2) [OF c inv True] obtain slot where x: "fs_is_mounted s" "fs_path_ok path"
    "find_key (fs_dir s) (tl (the path)) = Some slot" "live_file s slot"
    "s' = s\<lparr>fs_dir := (fs_dir s)[slot := ?e], fs_handles := (\<lambda>k. if fs_handles s k = Some slot then None else fs_handles s k)\<rparr>"
    "frame (fs_dev s) {slot_block s slot} d d'" by blast
  then obtain p where p: "path = Some p" by (auto simp: fs_path_ok_def split: option.splits)
  note mo = fs_ok_mounted [OF conjunct1 [OF inv [unfolded fs_inv_def]] x(1)]
  have tok: "table_ok s" and h: "handles_ok s" using mo by simp_all
  have key: "tl p = entry_key (fs_dir s ! slot)"
    using x(3) p live_key [OF tok x(4)] by (simp add: find_key_Some)
  have inv': "fs_inv s' d'" by (rule unlink_inv(1) [OF c inv])
  have mo': "table_ok s'" using fs_ok_mounted [of s' d'] inv' x(1,5) by (simp add: fs_inv_def)
  have nm: "\<not> entry_named ?e k" for k using entry_free_zero by (simp add: entry_named_def)
  have lt: "slot < length (fs_dir s)" using x(4) by (simp add: live_file_def)
  have ap: "apart {slot_block s slot} (fs_dir s ! j)" if "j < length (fs_dir s)" for j
    using dir_block_apart [OF _ tok lt] mo that by simp
  have "files s' d' = (files s d)(tl p := (if entry_named ?e (tl p) then Some (node_of s d' ?e) else None))"
    by (rule files_update [OF x(1) _ tok x(6) ap lt x(5) mo']) (use mo live_key [OF tok x(4)] key nm in auto)
  moreover have "opened s' hd = (if opened s hd = Some (tl p) then None else opened s hd)" for hd
  proof (cases "decode_handle s hd")
    case None
    then have "decode_handle s' hd = None" by (auto simp: decode_handle_def Let_def x(5) split: if_splits)
    with None show ?thesis by (simp add: opened_def)
  next
    case (Some k)
    then obtain sl where sl: "fs_handles s k = Some sl" by (auto simp: decode_handle_def Let_def split: if_splits)
    then have live: "live_file s sl" using h by (simp add: handles_ok_def)
    have o: "opened s hd = Some (entry_key (fs_dir s ! sl))" using Some sl by (simp add: opened_def)
    show ?thesis
    proof (cases "sl = slot")
      case True
      then have "decode_handle s' hd = None" using Some sl by (auto simp: decode_handle_def Let_def x(5) split: if_splits)
      then have "opened s' hd = None" by (simp add: opened_def)
      with o True key show ?thesis by simp
    next
      case False
      then have "decode_handle s' hd = Some k" using Some sl by (auto simp: decode_handle_def Let_def x(5) split: if_splits)
      then have "opened s' hd = Some (entry_key (fs_dir s ! sl))" using False sl by (simp add: opened_def x(5))
      moreover have "entry_key (fs_dir s ! sl) \<noteq> tl p" using live_key_inj [OF tok live x(4)] False key by auto
      ultimately show ?thesis using o by simp
    qed
  qed
  then have "opened s' = (\<lambda>h. if opened s h = Some (tl p) then None else opened s h)" by blast
  ultimately show ?thesis using True p nm live_files [OF x(1) tok x(4), of d] key by (simp add: view_def cong: if_cong)
qed

section \<open>Writes\<close>

lemma written_inside:
  assumes "offset + length bytes \<le> length c"
  shows "length (written_at c offset bytes) = length c"
    "k < length c \<Longrightarrow> written_at c offset bytes ! k = (if offset \<le> k \<and> k < offset + length bytes then bytes ! (k - offset) else c ! k)"
  using assms by (auto simp: written_at_def nth_append)

lemma written_past: "offset \<le> length c \<Longrightarrow> length c < offset + length bytes \<Longrightarrow> written_at c offset bytes = take offset c @ bytes"
  by (simp add: written_at_def)

lemma length_content [simp]: "length (content s d e) = entry_length e"
  by (simp add: content_def)

lemma content_patched:
  assumes p: "patched d (fs_dev s) (entry_first e * 512 + offset) bytes d'" and fit: "offset + length bytes \<le> entry_length e"
  shows "content s d' e = written_at (content s d e) offset bytes"
proof (rule nth_equalityI)
  show "length (content s d' e) = length (written_at (content s d e) offset bytes)" using written_inside(1) [of offset bytes "content s d e"] fit by simp
  fix k assume "k < length (content s d' e)"
  then have k: "k < entry_length e" by simp
  then have "written_at (content s d e) offset bytes ! k =
      (if offset \<le> k \<and> k < offset + length bytes then bytes ! (k - offset) else content s d e ! k)"
    using written_inside(2) [of offset bytes "content s d e" k] fit by simp
  then show "content s d' e ! k = written_at (content s d e) offset bytes ! k" using p k by (auto simp: content_def patched_def)
qed

lemma content_placed:
  assumes p: "placed s slot offset bytes d e d'" and len: "entry_length e = offset + length bytes"
    and rng: "offset \<le> entry_length (fs_dir s ! slot)" "entry_length (fs_dir s ! slot) < offset + length bytes"
  shows "content s d' e = written_at (content s d (fs_dir s ! slot)) offset bytes"
proof -
  have "written_at (content s d (fs_dir s ! slot)) offset bytes = take offset (content s d (fs_dir s ! slot)) @ bytes"
    using rng by (intro written_past) simp_all
  also have "\<dots> = content s d' e"
  proof (rule nth_equalityI)
    show "length (take offset (content s d (fs_dir s ! slot)) @ bytes) = length (content s d' e)" using len rng by simp
    fix k assume "k < length (take offset (content s d (fs_dir s ! slot)) @ bytes)"
    then have "k < offset + length bytes" using rng by simp
    then show "(take offset (content s d (fs_dir s ! slot)) @ bytes) ! k = content s d' e ! k"
      using p len rng by (simp add: placed_def content_def nth_append)
  qed
  finally show ?thesis by simp
qed

text \<open>A change to the blocks of one file only shows in that file.\<close>

lemma files_own:
  assumes m: "fs_is_mounted s" and g: "geometry_ok s" and t: "table_ok s" and fr: "frame (fs_dev s) L d d'" and live: "live_file s slot"
    and others: "\<And>j. j < length (fs_dir s) \<Longrightarrow> j \<noteq> slot \<Longrightarrow> apart L (fs_dir s ! j)"
  shows "files s d' = (files s d)(entry_key (fs_dir s ! slot) := Some (File (content s d' (fs_dir s ! slot))))"
proof -
  have s: "slot < length (fs_dir s)" using live by (simp add: live_file_def)
  have "files s d' = (files s d)(entry_key (fs_dir s ! slot) :=
      (if entry_named (fs_dir s ! slot) (entry_key (fs_dir s ! slot)) then Some (node_of s d' (fs_dir s ! slot)) else None))"
    by (rule files_update [OF m g t fr others s, where h = "fs_handles s"]) (use t live_key [OF t live] in auto)
  then show ?thesis using live_key [OF t live] live_node [OF live] by simp
qed

lemma view_upd: "view s d\<lparr>vw_files := f\<rparr> = \<lparr>vw_files = f, vw_open = opened s\<rparr>"
  by (simp add: view_def)

lemma frame_two: "frame v L d d1 \<Longrightarrow> frame v M d1 d' \<Longrightarrow> frame v (L \<union> M) d d'"
  by (rule frame_trans [OF frame_mono frame_mono]) auto

lemma apart_Un: "apart (L \<union> M) e \<longleftrightarrow> apart L e \<and> apart M e"
  by (auto simp: apart_def)

lemma grown_files:
  assumes m: "fs_is_mounted s" and g: "geometry_ok s" and t: "table_ok s" and live: "live_file s slot"
    and fr: "frame (fs_dev s) L d d1" and L: "apart_others s slot L"
    and gr: "grown s slot e fin" "0 < fin" and dw: "dir_write_slot slot e s d1 = (FS_OK, s', d')"
  shows "files s' d' = (files s d)(entry_key (fs_dir s ! slot) := Some (File (content s d1 e)))" "opened s' = opened s"
proof -
  let ?o = "fs_dir s ! slot" and ?s = "s\<lparr>fs_dir := (fs_dir s)[slot := e]\<rparr>"
  have lt: "slot < length (fs_dir s)" using live by (simp add: live_file_def)
  have len: "length e = 64" using gr(1) by (simp add: grown_def)
  note dwr = dir_write_result [OF dw frame_ok [OF fr] len]
  have s': "s' = ?s" and fr2: "frame (fs_dev s) {slot_block s slot} d1 d'" using dwr lt by simp_all
  have tok: "table_ok s'" unfolding s' by (rule grown_table [OF g t live gr])
  note gl = grown_live [OF t live gr(1)]
  have g': "geometry_ok s'" using g by (simp add: s' geometry_ok_def)
  have live': "live_file s' slot" using lt gl(1) by (simp add: live_file_def s')
  have key: "entry_named e k \<longleftrightarrow> k = entry_key ?o" for k
    using live_key [OF tok live'] lt gl(3) by (simp add: s')
  have "files s' d' = (files s d)(entry_key ?o := (if entry_named e (entry_key ?o) then Some (node_of s d' e) else None))"
  proof (rule files_update [OF m g t frame_two [OF fr fr2] _ lt _ tok, where h = "fs_handles s"])
    show "apart (L \<union> {slot_block s slot}) (fs_dir s ! j)" if "j < length (fs_dir s)" "j \<noteq> slot" for j
      using L that dir_block_apart [OF g t lt] by (simp add: apart_Un apart_others_def del: Un_insert_right)
  qed (use s' key live_key [OF t live] in auto)
  moreover have "content s' d' e = content s' d1 e"
  proof (rule content_same [OF g' tok])
    show "e \<in> set (fs_dir s')" using lt by (simp add: s' set_update_memI)
    then show "apart {slot_block s slot} e" using dir_block_apart [OF g' tok, of slot e] lt by (simp add: s' slot_block_def)
    show "frame (fs_dev s') {slot_block s slot} d1 d'" using fr2 by (simp add: s')
  qed (use gl(1) in simp_all)
  then have "node_of s d' e = File (content s d1 e)"
    using gl(1) by (simp add: node_of_def content_def s' FS_TYPE_FILE_def FS_TYPE_DIR_def)
  ultimately show "files s' d' = (files s d)(entry_key ?o := Some (File (content s d1 e)))" using key by simp
  show "opened s' = opened s"
  proof (rule opened_same)
    show "entry_key (fs_dir s' ! sl) = entry_key (fs_dir s ! sl)" for sl using gl(3) lt by (cases "sl = slot") (simp_all add: s')
  qed (simp_all add: s')
qed

text \<open>Every block a write can touch, directory block included.\<close>

lemma touched_blocks:
  assumes g: "geometry_ok s" and t: "table_ok s" and live: "live_file s slot"
    and fr: "frame (fs_dev s) L d d1" and L: "apart_others s slot L" and mv: "moves \<Longrightarrow> apart L (fs_dir s ! slot)"
    and out: "d' = d1 \<and> stays s slot offset bytes d r n s' d' \<or> replaced s slot offset bytes d d1 r n s' d'"
  shows "\<exists>M. frame (fs_dev s) M d d' \<and> (\<forall>j < length (fs_dir s). j \<noteq> slot \<longrightarrow> apart M (fs_dir s ! j)) \<and>
      (moves \<longrightarrow> apart M (fs_dir s ! slot))" "r \<noteq> FS_OK \<longrightarrow> s' = s"
proof -
  let ?goal = "(\<exists>M. frame (fs_dev s) M d d' \<and> (\<forall>j < length (fs_dir s). j \<noteq> slot \<longrightarrow> apart M (fs_dir s ! j)) \<and>
      (moves \<longrightarrow> apart M (fs_dir s ! slot))) \<and> (r \<noteq> FS_OK \<longrightarrow> s' = s)"
  have lt: "slot < length (fs_dir s)" using live by (simp add: live_file_def)
  from out have ?goal
  proof
    assume "d' = d1 \<and> stays s slot offset bytes d r n s' d'"
    then show ?thesis using fr L mv by (auto simp: apart_others_def stays_def)
  next
    assume "replaced s slot offset bytes d d1 r n s' d'"
    then obtain e where e: "length e = 64" "dir_write_slot slot e s d1 = (r, s', d')" by (auto simp: replaced_def grown_def)
    note dw = dir_write_result [OF e(2) frame_ok [OF fr] e(1)]
    have "frame (fs_dev s) (L \<union> {slot_block s slot}) d d'" by (rule frame_two [OF fr]) (use dw(1) lt in simp)
    moreover have "apart (L \<union> {slot_block s slot}) (fs_dir s ! j)" if "j < length (fs_dir s)" "apart L (fs_dir s ! j)" for j
      using that dir_block_apart [OF g t lt] by (simp add: apart_Un del: Un_insert_right)
    ultimately show ?thesis using L mv lt dw(3) unfolding apart_others_def by blast
  qed
  then show "\<exists>M. frame (fs_dev s) M d d' \<and> (\<forall>j < length (fs_dir s). j \<noteq> slot \<longrightarrow> apart M (fs_dir s ! j)) \<and>
      (moves \<longrightarrow> apart M (fs_dir s ! slot))" "r \<noteq> FS_OK \<longrightarrow> s' = s" by blast+
qed

lemma write_shape:
  assumes w: "fs_write handle offset buf bytes s d = (r, n, s', d')" and inv: "fs_inv s d"
  obtains (nothing) "view s' d' = view s d" "r = FS_OK \<Longrightarrow> bytes = [] \<and> n = Some 0"
  | (data) slot where "opened s handle = Some (entry_key (fs_dir s ! slot))" "live_file s slot" "table_ok s" "fs_is_mounted s"
      "bytes \<noteq> []" "offset \<le> entry_length (fs_dir s ! slot)" "r = FS_OK \<Longrightarrow> n = Some (length bytes)" "r = FS_OK \<or> r = FS_IOERR"
      "\<not> entry_count (fs_dir s ! slot) * 512 < offset + length bytes \<or> r = FS_OK"
      "\<exists>c. view s' d' = (view s d)\<lparr>vw_files := (files s d)(entry_key (fs_dir s ! slot) := Some (File c))\<rparr> \<and>
        (if r = FS_OK then c = written_at (content s d (fs_dir s ! slot)) offset bytes else length c = entry_length (fs_dir s ! slot))"
proof -
  have ok: "fs_ok s d" using inv by (simp add: fs_inv_def)
  show thesis
    using w ok
  proof (cases rule: fs_write_outcome)
    case refused
    show thesis by (rule nothing) (use refused in simp_all)
  next
    case (wrote slot)
    note hl = handle_live [OF ok wrote(1)]
    let ?e = "fs_dir s ! slot" and ?moves = "entry_count (fs_dir s ! slot) * 512 < offset + length bytes"
    have live: "live_file s slot" using hl(5) wrote(2) by simp
    have op: "opened s handle = Some (entry_key ?e)" using wrote(1,2) by (simp add: opened_def)
    from wrote(6) obtain L d1 where L: "frame (fs_dev s) L d d1" "apart_others s slot L" "?moves \<Longrightarrow> apart L ?e"
      "\<not> ?moves \<Longrightarrow> r = FS_OK \<or> r = FS_IOERR"
      "d' = d1 \<and> stays s slot offset bytes d r n s' d' \<or> replaced s slot offset bytes d d1 r n s' d'"
      by (auto simp: write_outcome_def)
    have touched: "\<exists>M. frame (fs_dev s) M d d' \<and> (\<forall>j < length (fs_dir s). j \<noteq> slot \<longrightarrow> apart M (fs_dir s ! j)) \<and>
        (?moves \<longrightarrow> apart M ?e)" and unchanged: "r \<noteq> FS_OK \<longrightarrow> s' = s"
      using touched_blocks [OF hl(2,3) live L(1,2,3,5)] by blast+
    obtain M where M: "frame (fs_dev s) M d d'" "\<forall>j < length (fs_dir s). j \<noteq> slot \<longrightarrow> apart M (fs_dir s ! j)"
      "?moves \<Longrightarrow> apart M ?e" using touched by blast
    show thesis
    proof (cases "?moves \<and> r \<noteq> FS_OK")
      case True
      have "apart M x" if "x \<in> set (fs_dir s)" for x
        using that M True by (metis in_set_conv_nth)
      with files_same [OF hl(2,3) M(1)] True unchanged have "view s' d' = view s d" by (simp add: view_def)
      show thesis by (rule nothing) (use True \<open>view s' d' = view s d\<close> in simp_all)
    next
      case stay: False
      note d = data [OF op live hl(3,1) wrote(3,5)]
      show thesis
        using L(5)
      proof
        assume st: "d' = d1 \<and> stays s slot offset bytes d r n s' d'"
        show thesis
        proof (rule d)
          have "files s d' = (files s d)(entry_key ?e := Some (File (content s d' ?e)))"
            by (rule files_own [OF hl(1,2,3) M(1) live]) (use M(2) in blast)
          then have "view s' d' = (view s d)\<lparr>vw_files := (files s d)(entry_key ?e := Some (File (content s d' ?e)))\<rparr>"
            using st by (simp add: view_def stays_def)
          moreover have "content s d' ?e = written_at (content s d ?e) offset bytes" if "r = FS_OK"
            by (rule content_patched) (use st that in \<open>auto simp: stays_def\<close>)
          ultimately show "\<exists>c. view s' d' = (view s d)\<lparr>vw_files := (files s d)(entry_key ?e := Some (File c))\<rparr> \<and>
              (if r = FS_OK then c = written_at (content s d ?e) offset bytes else length c = entry_length ?e)"
            by (intro exI [of _ "content s d' ?e"]) simp
        qed (use st stay L(4) in \<open>auto simp: stays_def\<close>)
      next
        assume rp: "replaced s slot offset bytes d d1 r n s' d'"
        then obtain e where e: "grown s slot e (offset + length bytes)" "placed s slot offset bytes d e d1"
            "dir_write_slot slot e s d1 = (r, s', d')" "r = FS_OK \<longrightarrow> n = Some (length bytes)" "entry_length ?e < offset + length bytes"
          by (auto simp: replaced_def)
        show thesis
        proof (rule d)
          show "\<exists>c. view s' d' = (view s d)\<lparr>vw_files := (files s d)(entry_key ?e := Some (File c))\<rparr> \<and>
              (if r = FS_OK then c = written_at (content s d ?e) offset bytes else length c = entry_length ?e)"
          proof (cases "r = FS_OK")
            case True
            have "content s d1 e = written_at (content s d ?e) offset bytes"
              using e(1) by (intro content_placed [OF e(2) _ wrote(5) e(5)]) (simp add: grown_def)
            with grown_files [OF hl(1,2,3) live L(1,2) e(1) _ e(3) [unfolded True]] wrote(3) True show ?thesis by (simp add: view_def)
          next
            case False
            have "files s d' = (files s d)(entry_key ?e := Some (File (content s d' ?e)))"
              by (rule files_own [OF hl(1,2,3) M(1) live]) (use M(2) in blast)
            with False unchanged show ?thesis by (intro exI [of _ "content s d' ?e"]) (simp add: view_def)
          qed
        qed (use e(4) stay L(4) in auto)
      qed
    qed
  qed
qed

lemma write_allowed:
  assumes w: "fs_write handle offset buf bytes s d = (r, n, s', d')" and inv: "fs_inv s d"
  shows "fs_allows (Write handle offset buf bytes) (Reply r n []) (view s d) (view s' d')"
  using w inv
proof (cases rule: write_shape)
  case nothing
  then show ?thesis by (auto simp: view_def)
next
  case (data slot)
  then obtain c where "view s' d' = (view s d)\<lparr>vw_files := (files s d)(entry_key (fs_dir s ! slot) := Some (File c))\<rparr>"
      "if r = FS_OK then c = written_at (content s d (fs_dir s ! slot)) offset bytes else length c = entry_length (fs_dir s ! slot)"
    by blast
  moreover have "files s d (entry_key (fs_dir s ! slot)) = Some (File (content s d (fs_dir s ! slot)))"
    by (rule live_files [OF data(4,3,2)])
  ultimately show ?thesis using data(1,5,6,7,8) by (cases "r = FS_OK") (auto simp: view_def)
qed

section \<open>Handles, reads and mounts\<close>

lemma read_allowed:
  assumes rd: "fs_read handle offset buf len s d = (r, n, bytes, d')" and inv: "fs_inv s d"
  shows "fs_allows (Read handle offset buf len) (Reply r n bytes) (view s d) (view s d')"
proof -
  have ok: "fs_ok s d" "disk_ok d" using inv by (simp_all add: fs_inv_def fs_ok_def)
  note fr = read_frame [OF rd ok(2)]
  have "files s d' = files s d" by (rule files_eq) (simp_all add: frame_empty_byte [OF fr])
  then have "view s d' = view s d" by (simp add: view_def)
  moreover have "\<exists>key c. opened s handle = Some key \<and> files s d key = Some (File c) \<and> offset \<le> length c \<and>
      bytes = take len (drop offset c) \<and> n = Some (length bytes)" if r: "r = FS_OK"
  proof -
    from rd r obtain k where k: "decode_handle s handle = Some k" by (auto simp: fs_read_def split: option.splits)
    note hl = handle_live [OF ok(1) k]
    define slot where "slot = the (fs_handles s k)"
    have live: "live_file s slot" using hl(5) by (simp add: slot_def)
    let ?e = "fs_dir s ! slot"
    define m where "m = (if len < entry_length ?e - offset then len else entry_length ?e - offset)"
    have rng: "offset \<le> entry_length ?e" using rd r k by (auto simp: fs_read_def Let_def slot_def split: if_splits)
    have eq: "take len (drop offset (content s d ?e)) =
        map (byte_at d (fs_dev s)) [entry_first ?e * 512 + offset..<entry_first ?e * 512 + offset + m]"
      by (rule nth_equalityI) (use rng in \<open>auto simp: content_def m_def add.assoc\<close>)
    have "bytes = take len (drop offset (content s d ?e)) \<and> n = Some m"
    proof (cases "m = 0")
      case True
      then have "bytes = [] \<and> n = Some 0" using rd r k rng live
        by (auto simp: fs_read_def Let_def slot_def [symmetric] m_def live_file_def split: if_splits)
      with True show ?thesis by (simp add: eq)
    next
      case False
      then obtain fin where l: "read_loop (fs_dev s) buf m 0 (entry_first ?e + offset div 512) (offset mod 512) [] d = (True, fin, bytes, d')"
          "n = Some m"
        using rd r k rng live
        by (auto simp: fs_read_def Let_def slot_def [symmetric] m_def [symmetric] live_file_def split: if_splits prod.splits)
          (auto simp: m_def split: if_splits)
      have "(entry_first ?e + offset div 512) * 512 + offset mod 512 = entry_first ?e * 512 + offset" by (simp add: algebra_simps)
      with read_loop_result [OF l(1) ok(2)] l(2) show ?thesis by (simp add: eq ac_simps)
    qed
    moreover have "length (take len (drop offset (content s d ?e))) = m" using rng by (simp add: m_def min_def)
    moreover have "opened s handle = Some (entry_key ?e)" using k by (simp add: opened_def slot_def)
    moreover have "files s d (entry_key ?e) = Some (File (content s d ?e))" by (rule live_files [OF hl(1,3) live])
    ultimately show ?thesis using rng by auto
  qed
  ultimately show ?thesis by (simp add: view_def)
qed

lemma open_allowed:
  assumes o: "fs_open path out s = (r, n, s')" and inv: "fs_inv s d"
  shows "fs_allows (Open path out) (Reply r n []) (view s d) (view s' d)"
proof (cases "r = FS_OK")
  case False
  with o have "s' = s" by (auto simp: fs_open_def Let_def split: if_splits sum.splits option.splits)
  with False show ?thesis by simp
next
  case True
  then have c: "fs_is_mounted s" "fs_path_ok path" using o by (auto simp: fs_open_def split: if_splits)
  then obtain p where p: "path = Some p" by (auto simp: fs_path_ok_def split: option.splits)
  note mo = fs_ok_mounted [OF conjunct1 [OF inv [unfolded fs_inv_def]] c(1)]
  have tok: "table_ok s" using mo by simp
  from o True c p obtain slot k where res: "resolve (fs_dir s) p = Inr (Some slot)" "entry_type (fs_dir s ! slot) = FS_TYPE_FILE"
      "find (\<lambda>k. fs_handles s k = None) [0..<FS_MAX_OPEN] = Some k" "n = Some ((k + 8 * next_gen (fs_generations s k)) mod 2 ^ 32)"
      "s' = s\<lparr>fs_generations := (fs_generations s)(k := next_gen (fs_generations s k)), fs_handles := (fs_handles s)(k := Some slot)\<rparr>"
    using resolve_error [of "fs_dir s" p] by (auto simp: fs_open_def Let_def split: if_splits sum.splits option.splits)
  let ?g = "next_gen (fs_generations s k)"
  let ?h = "k + 8 * ?g"
  have k: "k < 8" "fs_handles s k = None" using res(3) by (auto simp: find_upt_Some FS_MAX_OPEN_def)
  have p1: "length p \<noteq> 1" using res(1) by (auto simp: resolve_def)
  have f: "find_key (fs_dir s) (tl p) = Some slot"
    using resolve_found [OF _ c(2) [unfolded p] p1] tok res(1) by (auto simp: table_ok_def)
  then have live: "live_file s slot" using res(2) by (simp add: live_file_def find_key_Some entry_named_def)
  have key: "tl p = entry_key (fs_dir s ! slot)" using f live_key [OF tok live] by (simp add: find_key_Some)
  have g: "?g \<noteq> 0" by (simp add: next_gen_def Let_def)
  have free: "decode_handle s ?h = None" using k by (simp add: decode_handle_def Let_def)
  have "decode_handle s' h = (if h = ?h then Some k else decode_handle s h)" for h
  proof (cases "h mod 8 = k")
    case True
    then have "h = ?h \<longleftrightarrow> h div 8 = ?g" using k by (metis add.commute div_mult_mod_eq mult.commute div_mult_self4 div_less
          add_0 zero_neq_numeral)
    then show ?thesis using True k g c(1) by (auto simp: decode_handle_def Let_def res(5) FS_MAX_OPEN_def)
  next
    case False
    then have "h \<noteq> ?h" using k by auto
    with False show ?thesis by (simp add: decode_handle_def Let_def res(5))
  qed
  then have "opened s' = (opened s)(?h := Some (tl p))"
    using k by (auto simp: opened_def key res(5) fun_eq_iff decode_handle_def Let_def split: if_splits)
  moreover have "files s' d = files s d" by (rule files_eq) (simp_all add: res(5))
  moreover have "opened s ?h = None" using free by (simp add: opened_def)
  moreover have "files s d (tl p) = Some (File (content s d (fs_dir s ! slot)))" unfolding key by (rule live_files [OF c(1) tok live])
  ultimately show ?thesis using True p res(4) by (auto simp: view_def)
qed

lemma close_allowed:
  assumes c: "fs_close handle s = (r, s')" and inv: "fs_inv s d"
  shows "fs_allows (Close handle) (Reply r None []) (view s d) (view s' d)"
proof (cases "decode_handle s handle")
  case None
  with c show ?thesis by (simp add: fs_close_def)
next
  case (Some k)
  then have s': "r = FS_OK" "s' = s\<lparr>fs_handles := (fs_handles s)(k := None)\<rparr>" using c by (simp_all add: fs_close_def)
  have "decode_handle s' h = (if h = handle then None else decode_handle s h)" for h
  proof (cases "h mod 8 = k")
    case True
    then have "decode_handle s' h = None" by (simp add: decode_handle_def Let_def s')
    moreover have "h = handle" if "decode_handle s h \<noteq> None"
    proof -
      have "h mod 8 = handle mod 8" "h div 8 = handle div 8"
        using that Some True by (auto simp: decode_handle_def Let_def split: if_splits)
      then show ?thesis by (metis div_mult_mod_eq)
    qed
    ultimately show ?thesis by (cases "decode_handle s h") auto
  next
    case False
    then have "h \<noteq> handle" using Some by (auto simp: decode_handle_def Let_def split: if_splits)
    with False show ?thesis by (simp add: decode_handle_def Let_def s')
  qed
  note dec = this
  have same: "the (fs_handles s' j) = the (fs_handles s j)" if "decode_handle s' h = Some j" for h j
    using that by (auto simp: decode_handle_def Let_def s' split: if_splits)
  have "opened s' h = ((opened s)(handle := None)) h" for h
  proof (cases "decode_handle s' h")
    case None
    with dec [of h] show ?thesis by (auto simp: opened_def split: if_splits)
  next
    case (Some j)
    with dec [of h] same [OF Some] show ?thesis by (auto simp: opened_def s'(2) split: if_splits)
  qed
  then have "opened s' = (opened s)(handle := None)" by blast
  moreover have "files s' d = files s d" by (rule files_eq) (simp_all add: s')
  ultimately show ?thesis using Some s' by (simp add: view_def opened_def)
qed

lemma unmounted_view: "unmounted s d \<Longrightarrow> view s d' = view_empty"
  by (auto simp: view_def view_empty_def files_def opened_def decode_handle_def Let_def unmounted_def fun_eq_iff)

lemma mount_allowed:
  assumes m: "fs_mount dev s d = Returns (r, s', d')" and inv: "fs_inv s d"
  shows "fs_allows (Mount dev) (Reply r None []) (view s d) (view s' d')"
proof -
  from inv obtain s1 d1 where l: "fs_load dev s1 d1 = (r, s', d')" "unmounted s1 d1"
    by (rule mount_outcome [where dev = dev]) (use m in simp)
  show ?thesis
  proof (cases "r = FS_OK")
    case False
    from load_outcome(1) [OF l False] unmounted_view [of s' d' d'] False show ?thesis by (simp add: view_empty_def)
  next
    case True
    have "fs_handles s' = (\<lambda>_. None)"
      using l(1) True by (auto simp: fs_load_def Let_def split: option.splits prod.splits if_splits)
    then have "opened s' = (\<lambda>_. None)" by (simp add: opened_def decode_handle_def Let_def fun_eq_iff)
    with True show ?thesis by (simp add: view_def)
  qed
qed

lemma exec_allowed:
  assumes inv: "fs_inv s d" and e: "fs_exec c s d = Returns (rep, s', d')"
  shows "fs_allows c rep (view s d) (view s' d')"
proof (cases c)
  case (Mount dev)
  with e obtain r where "fs_mount dev s d = Returns (r, s', d')" "rep = Reply r None []"
    by (auto split: outcome.splits)
  with mount_allowed [OF _ inv] Mount show ?thesis by blast
next
  case Unmount
  with e have u: "fs_unmount s d = Returns (s', d')" "rep = Reply FS_OK None []" by (auto split: outcome.splits)
  have "unmounted s' d'"
  proof -
    have ok: "fs_ok s d" using inv by (simp add: fs_inv_def)
    obtain d1 where "fs_revoke ''rollback_unmount'' s d = Returns (s\<lparr>fs_writable_authorized := False\<rparr>, d1)" "disk_ok d1"
      using revoked [OF ok] by blast
    with u(1) show ?thesis by (auto simp: fs_unmount_def unmounted_def)
  qed
  with unmounted_view u(2) Unmount show ?thesis by simp
next
  case (Open path out)
  with e obtain r n where "fs_open path out s = (r, n, s')" "rep = Reply r n []" "d' = d" by (auto split: prod.splits)
  with open_allowed [OF _ inv] Open show ?thesis by blast
next
  case (Read handle offset buf len)
  with e obtain r n bytes where "fs_read handle offset buf len s d = (r, n, bytes, d')" "rep = Reply r n bytes" "s' = s"
    by (auto split: prod.splits)
  with read_allowed [OF _ inv] Read show ?thesis by blast
next
  case (Write handle offset buf bytes)
  with e obtain r n where "fs_write handle offset buf bytes s d = (r, n, s', d')" "rep = Reply r n []" by (auto split: prod.splits)
  with write_allowed [OF _ inv] Write show ?thesis by blast
next
  case (Close handle)
  with e obtain r where "fs_close handle s = (r, s')" "rep = Reply r None []" "d' = d" by (auto split: prod.splits)
  with close_allowed [OF _ inv] Close show ?thesis by blast
next
  case (Create path)
  with e obtain r where "fs_create path s d = (r, s', d')" "rep = Reply r None []" by (auto split: prod.splits)
  with create_allowed [OF _ inv] Create show ?thesis by blast
next
  case (Unlink path)
  with e obtain r where "fs_unlink path s d = (r, s', d')" "rep = Reply r None []" by (auto split: prod.splits)
  with unlink_allowed [OF _ inv] Unlink show ?thesis by blast
qed
end
