(* ===== verification/Fs_Claims.thy ===== *)
theory Fs_Claims
  imports Fs_Spec
begin

text \<open>
  The properties of the file system: the invariant over any sequence of calls,
  the refinement of the abstract file system, atomic moves, durability over a
  power cycle, and the allocator.
\<close>

section \<open>What a failing drive leaves\<close>

lemma write_torn:
  assumes w: "fs_write handle offset buf bytes s d = (r, n, s', d')" and inv: "fs_inv s d"
  shows "dr_torn d' = dr_torn d"
proof -
  have ok: "fs_ok s d" using inv by (simp add: fs_inv_def)
  show ?thesis
    using w ok
  proof (cases rule: fs_write_outcome)
    case (wrote slot)
    note hl = handle_live [OF ok wrote(1)]
    have live: "live_file s slot" using hl(5) wrote(2) by simp
    from wrote(6) obtain L d1 where L: "frame (fs_dev s) L d d1" "apart_others s slot L"
      "d' = d1 \<and> stays s slot offset bytes d r n s' d' \<or> replaced s slot offset bytes d d1 r n s' d'"
      by (auto simp: write_outcome_def)
    from touched_blocks(1) [OF hl(2,3) live L(1,2) _ L(3), of False] show ?thesis by (auto simp: frame_def)
  qed simp
qed

lemma exec_torn:
  assumes inv: "fs_inv s d" and e: "fs_exec c s d = Returns (rep, s', d')"
  shows "dr_torn d' = dr_torn d"
proof (cases c)
  case (Mount dev)
  with e obtain r where m: "fs_mount dev s d = Returns (r, s', d')" by (auto split: outcome.splits)
  from inv obtain s1 d1 where "fs_load dev s1 d1 = (r, s', d')" "unmounted s1 d1" "dr_torn d1 = dr_torn d"
    by (rule mount_outcome [where dev = dev]) (use m in simp)
  with load_outcome(3) show ?thesis by metis
next
  case Unmount
  have ok: "fs_ok s d" using inv by (simp add: fs_inv_def)
  obtain d1 where "fs_revoke ''rollback_unmount'' s d = Returns (s\<lparr>fs_writable_authorized := False\<rparr>, d1)" "dr_torn d1 = dr_torn d"
    using revoked [OF ok] by blast
  with e Unmount show ?thesis by (auto simp: fs_unmount_def)
next
  case (Read handle offset buf len)
  with e obtain r n bytes where rd: "fs_read handle offset buf len s d = (r, n, bytes, d')" by (auto split: prod.splits)
  have "disk_ok d" using inv by (simp add: fs_inv_def fs_ok_def)
  from read_frame [OF rd this] show ?thesis by (simp add: frame_def)
next
  case (Write handle offset buf bytes)
  with e write_torn [OF _ inv] show ?thesis by (auto split: prod.splits)
next
  case (Create path)
  with e obtain r where c: "fs_create path s d = (r, s', d')" by (auto split: prod.splits)
  show ?thesis using create_inv(2,3) [OF c inv] by (cases "r = FS_OK") (auto simp: frame_def)
next
  case (Unlink path)
  with e obtain r where c: "fs_unlink path s d = (r, s', d')" by (auto split: prod.splits)
  show ?thesis using unlink_inv(2,3) [OF c inv] by (cases "r = FS_OK") (auto simp: frame_def)
qed (use e in \<open>auto split: prod.splits\<close>)

lemma run_torn: "fs_run cs s d = Returns (s', d') \<Longrightarrow> fs_inv s d \<Longrightarrow> dr_torn d' = dr_torn d \<and> fs_inv s' d'"
proof (induction cs arbitrary: s d)
  case (Cons c cs)
  from exec_inv [OF Cons.prems(2), of c] obtain rep s1 d1 where x: "fs_exec c s d = Returns (rep, s1, d1)" "fs_inv s1 d1" by blast
  with Cons.prems(1) have "fs_run cs s1 d1 = Returns (s', d')" by simp
  from Cons.IH [OF this x(2)] exec_torn [OF Cons.prems(2) x(1)] show ?case by simp
qed simp

section \<open>A drive that works\<close>

definition works :: "disk \<Rightarrow> bool" where
  "works d \<longleftrightarrow> (\<forall>n. dr_result d n = BLK_OK)"

lemma read_sectors_works: "works d \<Longrightarrow> \<exists>bs d'. read_sectors dev start n d = (BLK_OK, bs, d')"
proof (induction n arbitrary: start d)
  case (Suc n)
  then have "works (d\<lparr>dk_commands := dk_commands d + 1\<rparr>)" by (simp add: works_def)
  from Suc.IH [OF this, of "start + 1"] Suc.prems show ?case by (auto simp: sector_read_def works_def)
qed simp

lemma blk_read_works:
  assumes "works d" "dev < BLK_MAX_DEVICES" "bs_present (dk_devices d dev)" "bs_block_count (dk_devices d dev) \<le> BLK_LBA28_MAX"
    and "0 < n" "n \<le> BLK_MAX_BLOCKS" "start + n \<le> bs_block_count (dk_devices d dev)"
  shows "\<exists>bs d'. blk_read dev start n static_buf (n * 512) d = (BLK_OK, bs, d')"
proof -
  have "transfer_check dev start n static_buf (n * 512) False d = BLK_OK"
    using assms by (simp add: transfer_check_def valid_range_def static_buf_def BLK_SECTOR_SIZE_def)
  then show ?thesis using read_sectors_works [OF assms(1)] by (simp add: blk_read_def)
qed

lemma works_frame: "works d \<Longrightarrow> frame dev L d d' \<Longrightarrow> works d'"
  by (simp add: works_def frame_def)

lemma load_dir_works:
  "works d \<Longrightarrow> disk_ok d \<Longrightarrow> dev < BLK_MAX_DEVICES \<Longrightarrow> bs_present (dk_devices d dev) \<Longrightarrow>
    bs_block_count (dk_devices d dev) \<le> BLK_LBA28_MAX \<Longrightarrow> ds + db \<le> bs_block_count (dk_devices d dev) \<Longrightarrow> got \<le> db \<Longrightarrow>
    \<exists>out d'. load_dir dev ds db got bytes d = (True, out, d')"
proof (induction dev ds db got bytes d rule: load_dir.induct)
  case (1 dev ds db got bytes d)
  show ?case
  proof (cases "got < db")
    case True
    define n where "n = (if 32 < db - got then 32 else db - got)"
    have n: "0 < n" "n \<le> BLK_MAX_BLOCKS" "got + n \<le> db" using True by (auto simp: n_def BLK_MAX_BLOCKS_def)
    have "ds + got + n \<le> bs_block_count (dk_devices d dev)" using n(3) 1(7) by simp
    from blk_read_works [OF 1(2,4,5,6) n(1,2) this] obtain bs d1 where
      rd: "blk_read dev (ds + got) n static_buf (n * 512) d = (BLK_OK, bs, d1)" by blast
    note fr = blk_read_result(1) [OF rd 1(3)]
    have "dk_devices d1 = dk_devices d" using fr by (simp add: frame_def)
    with 1(1) [OF True n_def rd [symmetric] refl _ works_frame [OF 1(2) fr] frame_ok [OF fr]] 1(4,5,6,7) n(3)
    have "\<exists>out d'. load_dir dev ds db (got + n) (bytes @ bs) d1 = (True, out, d')" by simp
    then show ?thesis using True rd by (simp add: load_dir.simps [of dev ds db got] n_def [symmetric])
  qed (simp add: load_dir.simps)
qed

text \<open>The machine is switched off and on: the drive answers again and no device is writable.\<close>

definition power_cycle :: "disk \<Rightarrow> disk" where
  "power_cycle d = d\<lparr>dr_result := (\<lambda>_. BLK_OK), dk_devices := (\<lambda>v. (dk_devices d v)\<lparr>bs_writable := False\<rparr>)\<rparr>"

lemma remount:
  assumes ok: "fs_ok s d" and on: "on_disk s d" and m: "fs_is_mounted s"
  shows "\<exists>s' d'. fs_mount (fs_dev s) fs_boot (power_cycle d) = Returns (FS_OK, s', d') \<and> fs_dir s' = fs_dir s \<and>
    dk_sectors d' = dk_sectors d \<and> fs_dev s' = fs_dev s \<and> fs_is_mounted s' \<and> fs_handles s' = (\<lambda>_. None)"
proof -
  note mo = fs_ok_mounted [OF ok m]
  let ?d = "power_cycle d" and ?v = "fs_dev s" and ?s = "fs_boot\<lparr>fs_is_mounted := False, fs_handles := (\<lambda>_. None)\<rparr>"
  define sb where "sb = dk_sectors d ?v 0"
  have dev: "?v < BLK_MAX_DEVICES" "bs_present (dk_devices ?d ?v)" "bs_block_count (dk_devices ?d ?v) \<le> BLK_LBA28_MAX"
    "bs_block_count (dk_devices ?d ?v) = bs_block_count (dk_devices d ?v)"
    using ok mo by (auto simp: fs_ok_def device_ok_def power_cycle_def)
  have w: "works ?d" "disk_ok ?d" using mo by (simp_all add: works_def power_cycle_def disk_ok_def)
  have b: "byte_at ?d = byte_at d" by (simp add: power_cycle_def byte_at_def fun_eq_iff)
  have sbc: "superblock_check (bs_block_count (dk_devices ?d ?v)) sb = FS_OK"
    and geo: "fs_dir_start s = rd64le sb 24" "fs_dir_blocks s = rd64le sb 32" "fs_data_start s = rd64le sb 40" "fs_data_blocks s = rd64le sb 48"
    and dir: "fs_dir s = entries_of (rd64le sb 32 * 8) (map (byte_at d ?v) [rd64le sb 24 * 512..<(rd64le sb 24 + rd64le sb 32) * 512])"
    using on dev(4) by (simp_all add: on_disk_def Let_def sb_def)
  have cap: "fs_dir_start s + fs_dir_blocks s \<le> bs_block_count (dk_devices ?d ?v)" "0 + 1 \<le> bs_block_count (dk_devices ?d ?v)"
    using mo dev(4) by (auto simp: geometry_ok_def device_ok_def)
  obtain sb' d1 where rd: "blk_read ?v 0 1 static_buf 512 ?d = (BLK_OK, sb', d1)"
    using blk_read_works [OF w(1) dev(1,2,3) _ _ cap(2)] by (auto simp: BLK_MAX_BLOCKS_def)
  note fr1 = blk_read_result(1) [OF rd w(2)]
  have sb': "sb' = sb" using blk_read_one(1) [OF rd w(2)] by (simp add: sb_def power_cycle_def)
  have d1: "dk_devices d1 = dk_devices ?d" using fr1 by (simp add: frame_def)
  obtain out d2 where ld: "load_dir ?v (rd64le sb 24) (rd64le sb 32) 0 [] d1 = (True, out, d2)"
    using load_dir_works [OF works_frame [OF w(1) fr1] frame_ok [OF fr1] dev(1), of "rd64le sb 24" "rd64le sb 32" 0 "[]"]
      dev cap(1) d1 geo by auto
  note ldr = load_dir_result [OF ld frame_ok [OF fr1]]
  have fr2: "frame ?v {} ?d d2" using ldr frame_trans [OF fr1] by simp
  have "out = map (byte_at d ?v) [rd64le sb 24 * 512..<(rd64le sb 24 + rd64le sb 32) * 512]"
    using ldr frame_empty_byte [OF fr1] b by simp
  then have ent: "entries_of (rd64le sb 32 * 8) out = fs_dir s" by (simp add: dir)
  have dv: "dir_valid (rd64le sb 40) (rd64le sb 48) (fs_dir s)" using mo geo by (simp add: table_ok_def dir_valid_ok)
  have d2: "dk_devices d2 = dk_devices ?d" "dk_sectors d2 = dk_sectors d"
    using fr2 by (simp_all add: frame_def fun_eq_iff power_cycle_def)
  have "\<exists>s' d'. fs_load ?v ?s ?d = (FS_OK, s', d') \<and> fs_dir s' = fs_dir s \<and> dk_sectors d' = dk_sectors d \<and>
      fs_dev s' = fs_dev s \<and> fs_is_mounted s' \<and> fs_handles s' = (\<lambda>_. None)"
    using dev(1,2) sbc dv d2
    unfolding fs_load_def blk_device_def rd sb' by (simp add: ld ent blk_set_writable_def upd_device_def fs_install_def Let_def)
  then obtain s' d' where l: "fs_load ?v ?s ?d = (FS_OK, s', d')" "fs_dir s' = fs_dir s" "dk_sectors d' = dk_sectors d"
    "fs_dev s' = fs_dev s" "fs_is_mounted s'" "fs_handles s' = (\<lambda>_. None)" by blast
  have "fs_mount ?v fs_boot ?d = Returns (FS_OK, s', d')" using l(1) by (simp add: fs_mount_def fs_revoke_def fs_boot_def)
  with l show ?thesis by blast
qed
section \<open>A small disk\<close>

text \<open>Twelve blocks: superblock, one directory block with the empty file \<^verbatim>\<open>/a\<close>, ten data blocks.\<close>

definition le_bytes :: "nat \<Rightarrow> nat \<Rightarrow> string" where
  "le_bytes n v = map (\<lambda>i. char_of (v div 256 ^ i)) [0..<n]"

definition demo_super :: string where
  "demo_super = FS_MAGIC @ le_bytes 4 1 @ le_bytes 4 512 @ le_bytes 8 12 @ le_bytes 8 1 @ le_bytes 8 1 @ le_bytes 8 2 @ le_bytes 8 10 @
    replicate 456 NUL"

definition demo_dir :: "string list" where
  "demo_dir = (replicate 8 (replicate 64 NUL))[0 := empty_file ''a'']"

definition demo_disk :: disk where
  "demo_disk = \<lparr>dk_devices = (\<lambda>v. \<lparr>bs_present = (v = 0), bs_test_device = False, bs_writable = False, bs_block_count = 12\<rparr>),
    dk_sectors = (\<lambda>v lba. if lba = 0 then demo_super else if lba = 1 then concat demo_dir else replicate 512 NUL),
    dk_commands = 0, dr_result = (\<lambda>_. BLK_OK), dr_torn = (\<lambda>n old new. old)\<rparr>"

definition demo_fs :: fs where
  "demo_fs = \<lparr>fs_is_mounted = True, fs_dev = 0, fs_writable_authorized = True, fs_total = 12, fs_dir_start = 1,
    fs_dir_blocks = 1, fs_data_start = 2, fs_data_blocks = 10, fs_dir = demo_dir, fs_handles = (\<lambda>_. None), fs_generations = (\<lambda>_. 0)\<rparr>"

lemma length_le_bytes [simp]: "length (le_bytes n v) = n"
  by (simp add: le_bytes_def)

lemma length_magic [simp]: "length FS_MAGIC = 8"
  by (simp add: FS_MAGIC_def)

lemma le_bytes_value: "bytes_value (le_bytes n v) = v mod 256 ^ n"
  unfolding le_bytes_def by (rule bytes_value_digits)

lemma demo_super_fields:
  "length demo_super = 512" "take 8 demo_super = FS_MAGIC" "rd32le demo_super 8 = 1" "rd32le demo_super 12 = 512"
  "rd64le demo_super 16 = 12" "rd64le demo_super 24 = 1" "rd64le demo_super 32 = 1" "rd64le demo_super 40 = 2"
  "rd64le demo_super 48 = 10" "rd64le demo_super 56 = 0" "drop 64 demo_super = replicate 448 NUL"
  by (simp_all add: demo_super_def rd32le_def rd64le_def le_bytes_value bytes_value_zero)

lemma demo_check: "superblock_check 12 demo_super = FS_OK"
  unfolding superblock_check_def demo_super_fields Let_def
  by (simp add: list_all_iff FS_MAX_DIR_BLOCKS_def range_ok_def ranges_overlap_def)

lemma a_key: "list_all printable ''a''" "''a'' \<noteq> []" "length ''a'' \<le> 31" "name_components_ok ''a''"
  by (simp_all add: printable_def name_components_ok_def split_slash_only dot_name_def)

lemma demo_dir_ok: "dir_ok 2 10 demo_dir"
proof -
  have "dir_ok 2 10 (replicate 8 (replicate 64 NUL))"
    using entry_free_zero by (simp add: dir_ok_def entry_valid_def extents_overlap_def)
  then show ?thesis
    unfolding demo_dir_def
    by (rule dir_ok_create [OF _ _ _ a_key]) (simp_all add: entry_free_zero find_key_None entry_named_def)
qed

lemma demo_dir_facts: "length demo_dir = 8" "\<forall>e \<in> set demo_dir. length e = 64" "length (concat demo_dir) = 512"
  using empty_file_fields(1) [OF a_key(1,2,3)] by (simp_all add: demo_dir_def numeral_eq_Suc)

lemma entries_of_concat: "\<forall>e \<in> set xs. length e = 64 \<Longrightarrow> entries_of (length xs) (concat xs) = xs"
  by (induction xs) simp_all

lemma demo_disk_ok: "disk_ok demo_disk" "clean demo_disk"
  by (simp_all add: disk_ok_def clean_def demo_disk_def demo_super_fields demo_dir_facts)

text \<open>The disk as a mount leaves it.\<close>

definition demo_mounted :: disk where
  "demo_mounted = demo_disk\<lparr>dk_devices := (\<lambda>v. \<lparr>bs_present = (v = 0), bs_test_device = False, bs_writable = True, bs_block_count = 12\<rparr>)\<rparr>"

lemma demo_fs_ok: "fs_ok demo_fs demo_mounted" "on_disk demo_fs demo_mounted"
proof -
  have "geometry_ok demo_fs" by (simp add: geometry_ok_def demo_fs_def FS_MAX_DIR_BLOCKS_def)
  moreover have "table_ok demo_fs"
    using demo_dir_ok demo_dir_facts by (simp add: table_ok_def demo_fs_def FS_DIR_ENTRIES_PER_BLOCK_def)
  moreover have ok: "disk_ok demo_mounted" using demo_disk_ok(1) by (simp add: demo_mounted_def)
  ultimately show "fs_ok demo_fs demo_mounted"
    by (simp add: fs_ok_def demo_fs_def demo_mounted_def device_ok_def handles_ok_def BLK_LBA28_MAX_def BLK_MAX_DEVICES_def)
  have "map (byte_at demo_mounted 0) [512..<1024] = concat demo_dir"
    using sector_eq_bytes [OF ok, of 0 1] by (simp add: demo_mounted_def demo_disk_def)
  moreover have "entries_of 8 (concat demo_dir) = demo_dir"
    using entries_of_concat [OF demo_dir_facts(2)] demo_dir_facts(1) by simp
  ultimately show "on_disk demo_fs demo_mounted"
    using demo_check by (simp add: on_disk_def Let_def demo_fs_def demo_mounted_def demo_disk_def demo_super_fields)
qed

lemma demo_mount:
  "\<exists>s d. fs_run [Mount 0] fs_boot demo_disk = Returns (s, d) \<and> fs_is_mounted s \<and> fs_dir s = demo_dir \<and>
    fs_handles s = (\<lambda>_. None)"
proof -
  have "power_cycle demo_mounted = demo_disk" by (simp add: power_cycle_def demo_mounted_def demo_disk_def)
  then obtain s d where "fs_mount 0 fs_boot demo_disk = Returns (FS_OK, s, d)" "fs_dir s = demo_dir" "fs_is_mounted s" "fs_handles s = (\<lambda>_. None)"
    using remount [OF demo_fs_ok] by (auto simp: demo_fs_def)
  then show ?thesis by simp
qed

lemma demo_find: "find_key demo_dir ''a'' = Some 0" "entry_type (demo_dir ! 0) = FS_TYPE_FILE" "entry_count (demo_dir ! 0) = 0"
proof -
  note ef = empty_file_fields [OF a_key(1,2,3)]
  have "demo_dir ! 0 = empty_file ''a''" by (simp add: demo_dir_def)
  then show "find_key demo_dir ''a'' = Some 0" "entry_type (demo_dir ! 0) = FS_TYPE_FILE" "entry_count (demo_dir ! 0) = 0"
    using ef live_not_free [OF _ ef(1)] demo_dir_facts(1) by (simp_all add: find_key_Some entry_named_def)
qed

lemma demo_open:
  "\<exists>s d. fs_run [Mount 0, Open (Some ''/a'') True] fs_boot demo_disk = Returns (s, d) \<and> fs_is_mounted s \<and> fs_dir s = demo_dir \<and>
    fs_handles s 0 = Some 0"
proof -
  obtain s d where m: "fs_run [Mount 0] fs_boot demo_disk = Returns (s, d)" "fs_is_mounted s" "fs_dir s = demo_dir"
      and h: "fs_handles s = (\<lambda>_. None)"
    using demo_mount by blast
  have p: "fs_path_ok (Some ''/a'')"
    by (simp add: fs_path_ok_def FS_MAX_PATH_def printable_def split_slash_only dot_name_def)
  have "resolve demo_dir ''/a'' = Inr (Some 0)"
    using resolve_found [OF demo_dir_ok p] demo_find(1) by simp
  then show ?thesis
    using m demo_find p by (auto simp: fs_open_def h FS_MAX_OPEN_def Let_def upt_rec split: outcome.splits)
qed

section \<open>Properties\<close>

text \<open>
  C4. After any sequence of file system calls from boot, whatever the drive answers and whatever its failed
  writes leave behind, every call has returned (the revocations never halt the machine); while a
  file system is mounted its directory satisfies everything \<^verbatim>\<open>fs_mount\<close> validates (well-formed
  and unique names, existing parents, disjoint extents inside the data region), its device is authorized for writing,
  and every open handle refers to a live file.
\<close>

theorem fs_invariant:
  assumes "disk_ok d"
  shows "\<exists>s d'. fs_run calls fs_boot d = Returns (s, d') \<and>
    (fs_is_mounted s \<longrightarrow> dir_valid (fs_data_start s) (fs_data_blocks s) (fs_dir s) \<and> bs_writable (dk_devices d' (fs_dev s))) \<and>
    (\<forall>k slot. fs_handles s k = Some slot \<longrightarrow> fs_is_mounted s \<and> slot < length (fs_dir s) \<and>
      \<not> entry_free (fs_dir s ! slot) \<and> entry_type (fs_dir s ! slot) = FS_TYPE_FILE)"
proof -
  obtain s d' where r: "fs_run calls fs_boot d = Returns (s, d')" "fs_inv s d'"
    using run_fs_inv [OF boot_inv [OF assms]] by blast
  then have ok: "fs_ok s d'" by (simp add: fs_inv_def)
  have "fs_is_mounted s" "live_file s slot" if "fs_handles s k = Some slot" for k slot
    using ok that by (auto simp: fs_ok_def handles_ok_def split: if_splits)
  with ok r(1) show ?thesis
    by (auto simp: fs_ok_def table_ok_def device_ok_def dir_valid_ok live_file_def)
qed

theorem fs_invariant_witness:
  "\<exists>s d'. fs_run [Mount 0, Create (Some ''/b''), Open (Some ''/a'') True, Write 16 0 2 ''xy'', Unlink (Some ''/a'')] fs_boot demo_disk =
      Returns (s, d') \<and>
    (fs_is_mounted s \<longrightarrow> dir_valid (fs_data_start s) (fs_data_blocks s) (fs_dir s) \<and> bs_writable (dk_devices d' (fs_dev s))) \<and>
    (\<forall>k slot. fs_handles s k = Some slot \<longrightarrow> fs_is_mounted s \<and> slot < length (fs_dir s) \<and>
      \<not> entry_free (fs_dir s ! slot) \<and> entry_type (fs_dir s ! slot) = FS_TYPE_FILE)"
  by (rule fs_invariant [OF demo_disk_ok(1)])

text \<open>
  C1. Refinement: in every state reachable from boot, every call does to the abstract file system what
  \<open>fs_allows\<close> says. A create adds an empty file under a new name, an unlink removes a file and closes its handles,
  a write replaces the bytes from its offset on in the one file its handle names, a read returns the bytes of that file,
  and a refused or failed call changes no file, except that a write the drive
  fails inside a file's own blocks may damage that file without changing its length.
\<close>

theorem fs_refines:
  assumes "disk_ok d0" and "fs_run calls fs_boot d0 = Returns (s, d)" and "fs_exec c s d = Returns (rep, s', d')"
  shows "fs_allows c rep (view s d) (view s' d')"
  using exec_allowed [OF conjunct2 [OF run_torn [OF assms(2) boot_inv [OF assms(1)]]] assms(3)] .

theorem fs_refines_witness:
  "\<exists>s d rep s' d'. fs_run [Mount 0, Open (Some ''/a'') True] fs_boot demo_disk = Returns (s, d) \<and> fs_handles s 0 = Some 0 \<and>
    fs_exec (Write 16 0 2 ''xy'') s d = Returns (rep, s', d') \<and> fs_allows (Write 16 0 2 ''xy'') rep (view s d) (view s' d')"
proof -
  obtain s d where r: "fs_run [Mount 0, Open (Some ''/a'') True] fs_boot demo_disk = Returns (s, d)" "fs_handles s 0 = Some 0"
    using demo_open by blast
  then have "fs_inv s d" using run_torn boot_inv [OF demo_disk_ok(1)] by blast
  then obtain rep s' d' where "fs_exec (Write 16 0 2 ''xy'') s d = Returns (rep, s', d')" using exec_inv by blast
  with r fs_refines [OF demo_disk_ok(1) r(1)] show ?thesis by blast
qed

text \<open>
  C2. Durability: on a drive whose failed writes leave their sector alone, but which may fail any command at any
  time (as after a power loss), mounting the device again once the drive answers succeeds and gives back every
  directory and every file with its contents, exactly as the running system last saw them.
\<close>

theorem fs_durable:
  assumes "disk_ok d0" and "clean d0" and "fs_run calls fs_boot d0 = Returns (s, d)" and "fs_is_mounted s"
  shows "\<exists>s' d'. fs_mount (fs_dev s) fs_boot (power_cycle d) = Returns (FS_OK, s', d') \<and> files s' d' = files s d"
proof -
  have r: "dr_torn d = dr_torn d0" "fs_inv s d" using run_torn [OF assms(3) boot_inv [OF assms(1)]] by simp_all
  then have "fs_ok s d" "on_disk s d" using assms(2,4) by (simp_all add: fs_inv_def clean_def)
  from remount [OF this assms(4)] obtain s' d' where m: "fs_mount (fs_dev s) fs_boot (power_cycle d) = Returns (FS_OK, s', d')"
    "fs_dir s' = fs_dir s" "dk_sectors d' = dk_sectors d" "fs_dev s' = fs_dev s" "fs_is_mounted s'" by blast
  have "files s' d' = files s d" by (rule files_eq) (use m assms(4) in \<open>simp_all add: byte_at_def fun_eq_iff\<close>)
  with m(1) show ?thesis by blast
qed

theorem fs_durable_witness:
  "\<exists>s d s' d'. fs_run [Mount 0, Open (Some ''/a'') True] fs_boot demo_disk = Returns (s, d) \<and>
    fs_mount (fs_dev s) fs_boot (power_cycle d) = Returns (FS_OK, s', d') \<and> files s' d' = files s d"
proof -
  obtain s d where r: "fs_run [Mount 0, Open (Some ''/a'') True] fs_boot demo_disk = Returns (s, d)" "fs_is_mounted s"
    using demo_open by blast
  from fs_durable [OF demo_disk_ok r] r(1) show ?thesis by blast
qed

text \<open>
  C3. Atomic moves: when a write does not fit into the blocks its file has, the file is moved; if that write
  fails at any point, no file has changed at all, the one being written included.
\<close>

theorem fs_move_atomic:
  assumes "disk_ok d0" and "fs_run calls fs_boot d0 = Returns (s, d)" and "fs_handles s (handle mod 8) = Some slot"
    and "entry_count (fs_dir s ! slot) * 512 < offset + length bytes"
    and "fs_write handle offset buf bytes s d = (r, n, s', d')"
  shows "r = FS_OK \<or> view s' d' = view s d"
proof -
  have inv: "fs_inv s d" using run_torn [OF assms(2) boot_inv [OF assms(1)]] by simp
  from assms(5) inv show ?thesis
  proof (cases rule: write_shape)
    case (data sl)
    have "fs_handles s (handle mod 8) \<noteq> None" using assms(3) by simp
    then have key: "entry_key (fs_dir s ! sl) = entry_key (fs_dir s ! slot)"
      using data(1) assms(3) by (auto simp: opened_def decode_handle_def Let_def split: if_splits)
    have "live_file s slot" using inv data(4) assms(3) by (auto simp: fs_inv_def fs_ok_def handles_ok_def)
    then have "sl = slot" using live_key_inj [OF data(3,2) _ key] by blast
    with data(9) assms(4) show ?thesis by blast
  qed blast
qed

theorem fs_move_atomic_witness:
  "\<exists>s d r n s' d'. fs_run [Mount 0, Open (Some ''/a'') True] fs_boot demo_disk = Returns (s, d) \<and>
    fs_write 16 0 2 ''xy'' s d = (r, n, s', d') \<and> (r = FS_OK \<or> view s' d' = view s d)"
proof -
  obtain s d where o: "fs_run [Mount 0, Open (Some ''/a'') True] fs_boot demo_disk = Returns (s, d)" "fs_dir s = demo_dir" "fs_handles s 0 = Some 0"
    using demo_open by blast
  obtain r n s' d' where w: "fs_write 16 0 2 ''xy'' s d = (r, n, s', d')" by (metis prod_cases4)
  have "r = FS_OK \<or> view s' d' = view s d"
    by (rule fs_move_atomic [OF demo_disk_ok(1) o(1) _ _ w, of 0]) (simp_all add: o demo_find)
  with o(1) w show ?thesis by blast
qed

text \<open>
  C11. First fit is exact: in every reachable mounted state the allocator returns the lowest run of free
  data blocks of the requested length that touches no file's extent, and reports \<^verbatim>\<open>FS_NOSPC\<close> exactly when there is none.
\<close>

theorem fs_alloc_exact:
  assumes "disk_ok d0" and "fs_run calls fs_boot d0 = Returns (s, d)" and "fs_is_mounted s" and "0 < n"
  shows "alloc_first_fit s n = (if \<exists>c. free_run s n c then Inr (LEAST c. free_run s n c) else Inl FS_NOSPC)"
proof -
  have "fs_inv s d" using run_torn [OF assms(2) boot_inv [OF assms(1)]] by simp
  then show ?thesis using alloc_exact [OF _ _ assms(4)] fs_ok_mounted [of s d] assms(3) by (simp add: fs_inv_def)
qed

theorem fs_alloc_exact_witness:
  "\<exists>s d. fs_run [Mount 0] fs_boot demo_disk = Returns (s, d) \<and>
    alloc_first_fit s 3 = (if \<exists>c. free_run s 3 c then Inr (LEAST c. free_run s 3 c) else Inl FS_NOSPC)"
proof -
  obtain s d where r: "fs_run [Mount 0] fs_boot demo_disk = Returns (s, d)" "fs_is_mounted s" using demo_mount by blast
  have "(0 :: nat) < 3" by simp
  from fs_alloc_exact [OF demo_disk_ok(1) r this] r(1) show ?thesis by blast
qed

section \<open>Handles after many opens\<close>

text \<open>
  The generation of a handle is 32 bits wide, but shifting it left by three keeps only 29 of them, while decoding compares
  all 32: once a slot's generation reaches 2 to the 29th, the handle an open returns is not accepted.
\<close>

lemma open_handle_lost:
  assumes "fs_open path out s = (FS_OK, Some h, s')" and "find (\<lambda>k. fs_handles s k = None) [0..<FS_MAX_OPEN] = Some k"
    and "fs_generations s k = 2 ^ 29 - 1"
  shows "decode_handle s' h = None"
proof -
  have k: "k < 8" using assms(2) by (simp add: find_upt_Some FS_MAX_OPEN_def)
  have "next_gen (fs_generations s k) = 2 ^ 29" by (simp add: assms(3) next_gen_def)
  with assms(1,2) have "h = (k + 8 * 2 ^ 29) mod 2 ^ 32"
    by (auto simp: fs_open_def Let_def split: if_splits sum.splits option.splits)
  with k have "h = k" by simp
  with k show ?thesis by (simp add: decode_handle_def)
qed
end
