(* ===== verification/Spec2Isabelle.thy ===== *)
theory Spec2Isabelle
  imports Kbuf Pipe Pmm_Pool Rl_Front Rl_Commit Sched_Live Fs_Claims
begin

text \<open>
  Verification of RynorOS, a small x86-64 operating system in C: its kernel
  services for memory, threads, pipes and storage, and the core of RynorLang, the
  language of its user shell.

  \<^bold>\<open>Parts and how they interact.\<close> The frame allocator turns the firmware's memory
  map into a bitmap of free pages. The kernel heap serves variable-sized blocks out of one
  arena; the pipe keeps its ring in such a block, and reads the process table to
  decide who owns an endpoint. Thread stacks are slots of a registry above the page services;
  the scheduler allocates a stack per thread and switches between saved frames. The file
  system reads and writes sectors through the block layer. The shell hands each input
  line to RynorLang: lexer, parser, analyzer, evaluator, and a session that
  commits the variables a line declares.

  \<^bold>\<open>Theories and sources.\<close> Paths are relative to \<^verbatim>\<open>src/\<close>. Every modelled C function is a
  definition of the same name (a suffix or prefix where the name is taken), loops
  are recursive functions beside it, static variables are the fields of a record.

  \<^item> \<open>Prelude\<close>: integer types, memory, \<open>for\<close> loops, facts on words that do not wrap,
    ring indexing, and the contract \<open>fifo_stream\<close> of a byte queue, interpreted by the
    kernel buffer and by the pipe.
  \<^item> \<open>Kbuf\<close>: \<^verbatim>\<open>kernel/runtime/kbuf.c\<close> and \<^verbatim>\<open>region.h\<close>. The ring refines a list of
    bytes, and what was accepted is what was removed followed by what is queued.
  \<^item> \<open>Heap\<close>: \<^verbatim>\<open>kernel/mm/heap.c\<close>. \<^verbatim>\<open>heap_check\<close> decides whether the arena is a
    list of blocks; allocation and release are functions on that list, sound,
    complete and exact about which pointers they accept.
  \<^item> \<open>Pmm_Map\<close>, \<open>Pmm\<close>, \<open>Pmm_Inv\<close>, \<open>Pmm_Run\<close>, \<open>Pmm_Init\<close>, \<open>Pmm_Pool\<close>: \<^verbatim>\<open>kernel/mm/map.c\<close> and
    \<^verbatim>\<open>kernel/mm/pmm.c\<close>. Normalization gives every page the strongest claim of the map; the
    self check decides the invariant; a single allocation returns the lowest free
    frame and a contiguous one the lowest run that fits; initialization manages exactly the
    usable pages it does not reserve; and, by the contract \<open>frame_pool\<close>, no
    frame has two owners.
  \<^item> \<open>Pipe\<close>: \<^verbatim>\<open>kernel/core/pipe.c\<close>, over \<open>Heap\<close> and the fields that
    \<^verbatim>\<open>proc_slot_info\<close> of \<^verbatim>\<open>kernel/core/proc.c\<close> reports. Results of every call, conservation of
    the byte stream, and closing on termination of an owner.
  \<^item> \<open>Kstack\<close>: \<^verbatim>\<open>kernel/mm/kstack.c\<close>, with the contract \<open>stack_pool\<close>. Granted stacks are
    exclusive and a released handle is never valid again.
  \<^item> \<open>Sched\<close>, \<open>Sched_Inv\<close>, \<open>Sched_Run\<close>, \<open>Sched_Live\<close>: \<^verbatim>\<open>kernel/core/thread.c\<close>. Operations;
    the invariant behind \<^verbatim>\<open>scheduler_check\<close>; histories of calls; and the properties
    from boot on: no panic, no starvation, frames, thread ids and spinlocks.
  \<^item> \<open>Blk\<close>, \<open>Fs\<close>: \<^verbatim>\<open>kernel/storage/blk.c\<close> and \<^verbatim>\<open>kernel/storage/fs.c\<close>. \<open>Fs_Disk\<close> and
    \<open>Fs_Dir\<close> describe transfers and the directory, \<open>Fs_Inv\<close> and \<open>Fs_Mount\<close> the
    invariant, \<open>Fs_Ops\<close> the operations, \<open>Fs_Spec\<close> the abstract file system, and
    \<open>Fs_Claims\<close> the properties: refinement of the abstract file system, durability over a
    power cycle, atomic moves, and the first-fit allocator.
  \<^item> \<open>Rl_Lex\<close>, \<open>Rl_Node\<close>, \<open>Rl_Parse\<close>, \<open>Rl_Check\<close>, \<open>Rl_Eval\<close>: \<^verbatim>\<open>user/shell/rl_lex.c\<close>,
    \<^verbatim>\<open>rl_parse.c\<close>, the analyzer of \<^verbatim>\<open>rl_sem.c\<close>, and \<^verbatim>\<open>rl_eval.c\<close>. \<open>Rl_Shape\<close> and \<open>Rl_Bound\<close> are
    what the parser builds and how much memory it needs; \<open>Rl_Front\<close> joins the passes: an
    accepted expression evaluates to a value of its type.
  \<^item> \<open>Rl_Session\<close>, \<open>Rl_Name\<close>, \<open>Rl_Commit\<close>: the session of \<^verbatim>\<open>rl_sem.c\<close> and the arena of
    \<^verbatim>\<open>rl_mem.h\<close>. A submission commits nothing, or exactly one row together with the
    canonical text of the part; the committed variable has the name the \<^verbatim>\<open>let\<close> declares and the
    value to which the initializer of the submitted part evaluates.

  \<^bold>\<open>Numbers, bounds and fuel.\<close> Where the code relies on a width, values are words: the heap,
  the buffers, the pipe and RynorLang's integers. Elsewhere they are naturals, and the casts and
  sums that can wrap are written out. Two loops follow sizes read from memory and run on fuel,
  \<^verbatim>\<open>heap_alloc\<close>'s scan and \<^verbatim>\<open>heap_free\<close>'s search: the fuel is the arena size over the least
  block size plus one, so an arena that passes \<^verbatim>\<open>heap_check\<close> never exhausts it, and the
  properties state that the call returns. The evaluator's loop ends on every pool because its walk
  stack is bounded; the other loops recurse on what is left of their input.

  \<^bold>\<open>Parameters.\<close> What the code calls and these theories do not contain is an argument: the
  drive's answers, torn writes included, the page services under thread stacks,
  \<^verbatim>\<open>user.c\<close>'s answers on a tick from user mode, the linker's symbols, and the stale contents of the
  analyzer's scratch array.

  \<^bold>\<open>Not modelled.\<close> The boot sectors and the other assembly, which have no semantics
  here beyond the frames the scheduler hands over; device programming (APIC, MSI, PIC, PCI, ACPI,
  display, keyboard, serial port); page tables, DMA buffers, the process
  table, the loader and the system call layer, which act on address spaces;
  the kernel monitor and its string helpers; the shell's line editing and job control; the
  user library, the programs and the tests; and the host tools, among them the ahead-of-time
  compiler of the full RynorLang, written in Python.
\<close>

end
